(* ===== verification/Prelude.thy ===== *)
theory Prelude
  imports Complex_Main "HOL-Library.Word"
begin

section \<open>Prelude: faults, fallible results, and lists\<close>

text \<open>
  What the components share. A C++ operation that may dereference a null pointer, index
  a vector out of range, read an indeterminate value or call abort() returns a value of
  type \<open>'a res\<close>: \<open>Inl\<close> of the fault or \<open>Inr\<close> of the result. The
  sequencing of two such operations is \<open>rbind\<close>, and the loops over vectors and
  linked lists are the folds below. The collections \<open>res_simps\<close> and
  \<open>list_simps\<close> hold the rewrite rules the component proofs share.
\<close>

named_theorems res_simps "rewrite rules for fallible results"
named_theorems list_simps "rewrite rules for vectors and linked lists"

subsection \<open>Faults and results\<close>

datatype fault =
    Null_Deref        \<comment> \<open>a member access through a null pointer\<close>
  | Out_Of_Range      \<comment> \<open>a vector or array access outside its bounds\<close>
  | Uninitialized     \<comment> \<open>a read of an indeterminate value\<close>
  | Aborted           \<comment> \<open>the source calls abort() or exit(), or fails an assertion\<close>
  | Div_Zero          \<comment> \<open>an integer division by zero\<close>
  | Diverges          \<comment> \<open>a loop of the source never ends\<close>

type_synonym 'a res = "fault + 'a"

definition rbind :: "'a res \<Rightarrow> ('a \<Rightarrow> 'b res) \<Rightarrow> 'b res" where
  "rbind r f = (case r of Inl e \<Rightarrow> Inl e | Inr x \<Rightarrow> f x)"

lemma rbind_Inl [simp, res_simps]: "rbind (Inl e) f = Inl e"
  by (simp add: rbind_def)

lemma rbind_Inr [simp, res_simps]: "rbind (Inr x) f = f x"
  by (simp add: rbind_def)

lemma rbind_eq_Inr [res_simps]:
  "rbind r f = Inr y \<longleftrightarrow> (\<exists>x. r = Inr x \<and> f x = Inr y)"
  by (cases r) auto

lemma rbind_eq_Inl [res_simps]:
  "rbind r f = Inl e \<longleftrightarrow> r = Inl e \<or> (\<exists>x. r = Inr x \<and> f x = Inl e)"
  by (cases r) auto

lemma rbind_assoc: "rbind (rbind r f) g = rbind r (\<lambda>x. rbind (f x) g)"
  by (cases r) auto

lemma rbind_Inr_right [simp]: "rbind r Inr = r"
  by (cases r) auto

text \<open>A loop whose body may fault: the first fault ends it.\<close>

fun rfold :: "('a \<Rightarrow> 's \<Rightarrow> 's res) \<Rightarrow> 'a list \<Rightarrow> 's \<Rightarrow> 's res" where
  "rfold f [] s = Inr s"
| "rfold f (x # xs) s = rbind (f x s) (rfold f xs)"

lemma rfold_append: "rfold f (xs @ ys) s = rbind (rfold f xs s) (rfold f ys)"
proof (induction xs arbitrary: s)
  case Nil
  then show ?case by simp
next
  case (Cons x xs)
  then show ?case by (cases "f x s") simp_all
qed

lemma rfold_total:
  "(\<And>x s. x \<in> set xs \<Longrightarrow> f x s = Inr (g x s)) \<Longrightarrow> rfold f xs s = Inr (fold g xs s)"
  by (induction xs arbitrary: s) simp_all

lemma rfold_invariant:
  assumes "rfold f xs s = Inr t" and "P s"
    and "\<And>x s t. x \<in> set xs \<Longrightarrow> P s \<Longrightarrow> f x s = Inr t \<Longrightarrow> P t"
  shows "P t"
  using assms
proof (induction xs arbitrary: s)
  case Nil
  then show ?case by simp
next
  case (Cons x xs)
  then obtain u where u: "f x s = Inr u" "rfold f xs u = Inr t"
    by (auto simp: rbind_eq_Inr)
  have "P u"
    using Cons.prems(3) [of x s u] Cons.prems(2) u(1) by simp
  with Cons.IH [OF u(2)] Cons.prems(3) show ?case by auto
qed

text \<open>What one element of the loop establishes and every other keeps holds at its end.\<close>

lemma rfold_reaches:
  assumes "rfold f xs s = Inr t" and "I s" and "x \<in> set xs"
    and "\<And>y s t. y \<in> set xs \<Longrightarrow> I s \<Longrightarrow> f y s = Inr t \<Longrightarrow> I t"
    and "\<And>s t. I s \<Longrightarrow> f x s = Inr t \<Longrightarrow> P t"
    and "\<And>y s t. y \<in> set xs \<Longrightarrow> I s \<Longrightarrow> P s \<Longrightarrow> f y s = Inr t \<Longrightarrow> P t"
  shows "I t \<and> P t"
proof -
  from assms(3) obtain ys zs where xs: "xs = ys @ x # zs" by (meson split_list)
  with assms(1) obtain u v where u: "rfold f ys s = Inr u" "f x u = Inr v" "rfold f zs v = Inr t"
    by (auto simp: rfold_append rbind_eq_Inr)
  have "I u" using assms(4) by (intro rfold_invariant [where P = I, OF u(1) assms(2)]) (auto simp: xs)
  then have "I v \<and> P v" using assms(4) [OF assms(3) _ u(2)] assms(5) [OF _ u(2)] by blast
  then show ?thesis
  proof (rule rfold_invariant [OF u(3), where P = "\<lambda>s. I s \<and> P s"])
    fix y s' t'
    assume "y \<in> set zs" "I s' \<and> P s'" "f y s' = Inr t'"
    then show "I t' \<and> P t'" using assms(4) [of y s' t'] assms(6) [of y s' t'] by (auto simp: xs)
  qed
qed

subsection \<open>Vectors\<close>

text \<open>
  \<open>std::vector::operator[]\<close> with an \<open>int\<close> index, and the index of a
  linked list reached by following \<open>next\<close> a number of times, starting at its head.
  A counting loop \<open>for (i = 0; i < n; i++)\<close> runs no iteration for a negative bound;
  a loop \<open>while (i != n)\<close> then runs off the end.
\<close>

definition vec_get :: "'a list \<Rightarrow> int \<Rightarrow> 'a res" where
  "vec_get xs i = (if 0 \<le> i \<and> i < int (length xs) then Inr (xs ! nat i) else Inl Out_Of_Range)"

definition vec_upd :: "'a list \<Rightarrow> int \<Rightarrow> ('a \<Rightarrow> 'a) \<Rightarrow> 'a list res" where
  "vec_upd xs i f =
     (if 0 \<le> i \<and> i < int (length xs) then Inr (xs[nat i := f (xs ! nat i)]) else Inl Out_Of_Range)"

definition walk_for :: "'a list \<Rightarrow> int \<Rightarrow> 'a res" where
  "walk_for xs n = (if nat n < length xs then Inr (xs ! nat n) else Inl Null_Deref)"

definition walk_until :: "'a list \<Rightarrow> int \<Rightarrow> 'a res" where
  "walk_until xs n = (if 0 \<le> n \<and> n < int (length xs) then Inr (xs ! nat n) else Inl Null_Deref)"

lemma vec_get_Inr [list_simps]:
  "vec_get xs i = Inr x \<longleftrightarrow> 0 \<le> i \<and> i < int (length xs) \<and> x = xs ! nat i"
  by (auto simp: vec_get_def)

lemma vec_get_nat [simp]: "k < length xs \<Longrightarrow> vec_get xs (int k) = Inr (xs ! k)"
  by (simp add: vec_get_def)

lemma map_update_id: "g (f (xs ! j)) = g (xs ! j) \<Longrightarrow> map g (xs[j := f (xs ! j)]) = map g xs"
  by (cases "j < length xs") (simp_all add: map_update list_update_same_conv list_update_beyond)

lemma vec_upd_Inr [list_simps]:
  "vec_upd xs i f = Inr ys \<longleftrightarrow>
     0 \<le> i \<and> i < int (length xs) \<and> ys = xs[nat i := f (xs ! nat i)]"
  by (auto simp: vec_upd_def)

lemma vec_upd_nat [simp]: "k < length xs \<Longrightarrow> vec_upd xs (int k) f = Inr (xs[k := f (xs ! k)])"
  by (simp add: vec_upd_def)

lemma walk_for_nat [simp]: "k < length xs \<Longrightarrow> walk_for xs (int k) = Inr (xs ! k)"
  by (simp add: walk_for_def)

lemma walk_until_nat [simp]: "k < length xs \<Longrightarrow> walk_until xs (int k) = Inr (xs ! k)"
  by (simp add: walk_until_def)

lemma walk_until_for: "0 \<le> n \<Longrightarrow> walk_until xs n = walk_for xs n"
  by (auto simp: walk_until_def walk_for_def)

subsection \<open>Scanning a list for its first match\<close>

text \<open>
  The source scans vectors for the first element with a property and stops there
  (\<open>break\<close> or \<open>return\<close>); what it finds is read or updated in place.
\<close>

fun upd_first :: "('a \<Rightarrow> bool) \<Rightarrow> ('a \<Rightarrow> 'a) \<Rightarrow> 'a list \<Rightarrow> 'a list" where
  "upd_first P f [] = []"
| "upd_first P f (x # xs) = (if P x then f x # xs else x # upd_first P f xs)"

lemma length_upd_first [simp]: "length (upd_first P f xs) = length xs"
  by (induction xs) auto

lemma upd_first_none [simp]: "find P xs = None \<Longrightarrow> upd_first P f xs = xs"
  by (induction xs) (auto split: if_splits)

lemma find_upd_first:
  "(\<And>x. P x \<Longrightarrow> P (f x)) \<Longrightarrow> find P (upd_first P f xs) = map_option f (find P xs)"
  by (induction xs) auto

lemma find_upd_first_other:
  assumes "\<And>x. P x \<Longrightarrow> \<not> Q x" and "\<And>x. P x \<Longrightarrow> \<not> Q (f x)"
  shows "find Q (upd_first P f xs) = find Q xs"
  using assms by (induction xs) auto

lemma map_upd_first_id: "(\<And>x. P x \<Longrightarrow> g (f x) = g x) \<Longrightarrow> map g (upd_first P f xs) = map g xs"
  by (induction xs) auto

lemma set_upd_first: "set (upd_first P f xs) \<subseteq> set xs \<union> f ` {x \<in> set xs. P x}"
  by (induction xs) auto

lemma find_Some_iff_distinct:
  assumes "distinct (map k xs)" and "x \<in> set xs"
  shows "find (\<lambda>y. k y = k x) xs = Some x"
  using assms by (induction xs) (auto simp: image_iff)

lemma find_None_key: "find (\<lambda>y. k y = a) xs = None \<longleftrightarrow> a \<notin> k ` set xs"
  by (auto simp: find_None_iff)

lemma find_SomeD: "find P xs = Some x \<Longrightarrow> x \<in> set xs \<and> P x"
  by (induction xs) (auto split: if_splits)

end
