(* ===== verification/PacketPool.thy ===== *)
theory PacketPool
  imports Prelude
begin

section \<open>Packet memory: allocation, reference counts and the free list\<close>

text \<open>
  \<open>Packet\<close> objects (common/packet.h) live in a store indexed by their address and are
  recycled through the static free list \<open>Packet::free_\<close>, linked by \<open>next_\<close>.
  The header bits of a packet are one record with a sub-record per protocol header the
  library uses; \<open>init\<close> zeroes all of it, as \<open>bzero\<close> does. The store is a
  list of cells: \<open>new Packet\<close> appends a cell, so addresses stay valid. The deletion
  of DCCP options in \<open>free\<close> and the wireless stamp in \<open>copy\<close> touch objects
  outside this store.
\<close>

subsection \<open>Headers\<close>

record hdr_cmn =
  cm_ptype :: int
  cm_size :: int
  cm_uid :: int
  cm_error :: int
  cm_ts :: real
  cm_iface :: int
  cm_direction :: int
  cm_next_hop :: int
  cm_last_hop :: int

record hdr_ip =
  ip_saddr :: int
  ip_sport :: int
  ip_daddr :: int
  ip_dport :: int
  ip_ttl :: int
  ip_fid :: int
  ip_prio :: int

record hdr_ping =
  pg_ret :: int
  pg_send_time :: real
  pg_rcv_time :: real
  pg_seq :: int
  pg_link_num :: int
  pg_utilization :: real
  pg_q_lim :: real
  pg_no_flows :: int
  pg_q_len :: real
  pg_statDemanded :: int

record hdr_raza =
  rz_ret :: int
  rz_send_time :: real
  rz_rcv_time :: real
  rz_seq :: int
  rz_link_num :: int
  rz_utilization :: real
  rz_no_flows :: int
  rz_statDemanded :: int
  rz_q_len :: real
  rz_start :: int
  rz_q_lim :: real

record hdrs =
  hd_cmn :: hdr_cmn
  hd_ip :: hdr_ip
  hd_ping :: hdr_ping
  hd_raza :: hdr_raza

definition zero_cmn :: hdr_cmn where
  "zero_cmn = \<lparr>cm_ptype = 0, cm_size = 0, cm_uid = 0, cm_error = 0, cm_ts = 0, cm_iface = 0,
     cm_direction = 0, cm_next_hop = 0, cm_last_hop = 0\<rparr>"

definition zero_ip :: hdr_ip where
  "zero_ip = \<lparr>ip_saddr = 0, ip_sport = 0, ip_daddr = 0, ip_dport = 0, ip_ttl = 0, ip_fid = 0,
     ip_prio = 0\<rparr>"

definition zero_ping :: hdr_ping where
  "zero_ping = \<lparr>pg_ret = 0, pg_send_time = 0, pg_rcv_time = 0, pg_seq = 0, pg_link_num = 0,
     pg_utilization = 0, pg_q_lim = 0, pg_no_flows = 0, pg_q_len = 0, pg_statDemanded = 0\<rparr>"

definition zero_raza :: hdr_raza where
  "zero_raza = \<lparr>rz_ret = 0, rz_send_time = 0, rz_rcv_time = 0, rz_seq = 0, rz_link_num = 0,
     rz_utilization = 0, rz_no_flows = 0, rz_statDemanded = 0, rz_q_len = 0, rz_start = 0,
     rz_q_lim = 0\<rparr>"

definition zero_hdrs :: hdrs where
  "zero_hdrs = \<lparr>hd_cmn = zero_cmn, hd_ip = zero_ip, hd_ping = zero_ping, hd_raza = zero_raza\<rparr>"

subsection \<open>Cells, the pool and its operations\<close>

record cell =
  ce_fflag :: bool
  ce_ref_count :: int
  ce_next :: "nat option"
  ce_uid :: int
  ce_time :: real
  ce_data :: "nat option"
  ce_bits :: hdrs

record pool =
  po_mem :: "cell list"
  po_free :: "nat option"

definition empty_pool :: pool where
  "empty_pool = \<lparr>po_mem = [], po_free = None\<rparr>"

definition new_packet :: cell where
  "new_packet = \<lparr>ce_fflag = False, ce_ref_count = 0, ce_next = None, ce_uid = 0, ce_time = 0,
     ce_data = None, ce_bits = zero_hdrs\<rparr>"

text \<open>The headers of a fresh packet: zero but for the two hops and the direction (DOWN).\<close>

definition fresh_hdrs :: hdrs where
  "fresh_hdrs = zero_hdrs\<lparr>hd_cmn := zero_cmn\<lparr>cm_next_hop := -2, cm_last_hop := -2,
     cm_direction := -1\<rparr>\<rparr>"

definition packet_alloc :: "pool \<Rightarrow> (nat \<times> pool) res" where
  "packet_alloc po = (case po_free po of
     Some a \<Rightarrow>
       if \<not> a < length (po_mem po) then Inl Out_Of_Range
       else let c = po_mem po ! a in
         if ce_fflag c then Inl Aborted
         else if ce_data c \<noteq> None then Inl Aborted
         else Inr (a, po\<lparr>po_free := ce_next c,
                po_mem := (po_mem po)[a := c\<lparr>ce_uid := 0, ce_time := 0, ce_bits := fresh_hdrs,
                  ce_fflag := True, ce_next := None\<rparr>]\<rparr>)
   | None \<Rightarrow>
       Inr (length (po_mem po), po\<lparr>po_mem := po_mem po @
         [new_packet\<lparr>ce_bits := fresh_hdrs, ce_fflag := True, ce_next := None\<rparr>]\<rparr>))"

definition packet_free :: "nat \<Rightarrow> pool \<Rightarrow> pool res" where
  "packet_free a po =
     (if \<not> a < length (po_mem po) then Inl Out_Of_Range
      else let c = po_mem po ! a in
        if ce_fflag c then
          if ce_ref_count c = 0 then
            if \<not> ce_uid c \<le> 0 then Inl Aborted
            else Inr (po\<lparr>po_mem := (po_mem po)[a := c\<lparr>ce_data := None, ce_bits := zero_hdrs,
                   ce_next := po_free po, ce_fflag := False\<rparr>], po_free := Some a\<rparr>)
          else Inr (po\<lparr>po_mem := (po_mem po)[a := c\<lparr>ce_ref_count := ce_ref_count c - 1\<rparr>]\<rparr>)
        else Inr po)"

definition packet_refcopy :: "nat \<Rightarrow> pool \<Rightarrow> pool res" where
  "packet_refcopy a po =
     (if a < length (po_mem po)
      then Inr (po\<lparr>po_mem := (po_mem po)[a := (po_mem po ! a)\<lparr>ce_ref_count := ce_ref_count (po_mem po ! a) + 1\<rparr>]\<rparr>)
      else Inl Out_Of_Range)"

definition packet_allocdata :: "nat \<Rightarrow> nat \<Rightarrow> pool \<Rightarrow> pool res" where
  "packet_allocdata a n po =
     (if \<not> a < length (po_mem po) then Inl Out_Of_Range
      else if ce_data (po_mem po ! a) \<noteq> None then Inl Aborted
      else Inr (po\<lparr>po_mem := (po_mem po)[a := (po_mem po ! a)\<lparr>ce_data := Some n\<rparr>]\<rparr>))"

definition packet_copy :: "nat \<Rightarrow> pool \<Rightarrow> (nat \<times> pool) res" where
  "packet_copy a po =
     (if \<not> a < length (po_mem po) then Inl Out_Of_Range
      else rbind (packet_alloc po) (\<lambda>(b, po').
        Inr (b, po'\<lparr>po_mem := (po_mem po')[b := (po_mem po' ! b)\<lparr>
          ce_bits := ce_bits (po_mem po' ! a),
          ce_data := (case ce_data (po_mem po' ! a) of None \<Rightarrow> ce_data (po_mem po' ! b)
                       | Some d \<Rightarrow> Some d)\<rparr>]\<rparr>)))"

text \<open>Reading and writing the headers of a packet, through \<open>Packet::access\<close>.\<close>

definition get_hdrs :: "nat \<Rightarrow> pool \<Rightarrow> hdrs res" where
  "get_hdrs a po = (if a < length (po_mem po) then Inr (ce_bits (po_mem po ! a)) else Inl Out_Of_Range)"

definition upd_hdrs :: "nat \<Rightarrow> (hdrs \<Rightarrow> hdrs) \<Rightarrow> pool \<Rightarrow> pool res" where
  "upd_hdrs a f po =
     (if a < length (po_mem po)
      then Inr (po\<lparr>po_mem := (po_mem po)[a := (po_mem po ! a)\<lparr>ce_bits := f (ce_bits (po_mem po ! a))\<rparr>]\<rparr>)
      else Inl Out_Of_Range)"

subsection \<open>The free list and the pool invariant\<close>

text \<open>
  \<open>free_path m x as\<close>: from pointer \<open>x\<close>, the \<open>next_\<close> fields lead through
  exactly the cells \<open>as\<close> to null. The invariant: the free list runs through every
  cell that is not in use, once each, and these hold no user data and no reference.
\<close>

primrec free_path :: "cell list \<Rightarrow> nat option \<Rightarrow> nat list \<Rightarrow> bool" where
  "free_path m x [] \<longleftrightarrow> x = None"
| "free_path m x (a # as) \<longleftrightarrow> x = Some a \<and> a < length m \<and> free_path m (ce_next (m ! a)) as"

definition in_use :: "pool \<Rightarrow> nat \<Rightarrow> bool" where
  "in_use po a \<longleftrightarrow> a < length (po_mem po) \<and> ce_fflag (po_mem po ! a)"

definition idle_cell :: "cell \<Rightarrow> bool" where
  "idle_cell c \<longleftrightarrow> \<not> ce_fflag c \<and> ce_data c = None \<and> ce_ref_count c = 0"

definition pool_path :: "pool \<Rightarrow> nat list \<Rightarrow> bool" where
  "pool_path po as \<longleftrightarrow> free_path (po_mem po) (po_free po) as \<and> distinct as \<and>
     (\<forall>a < length (po_mem po). (a \<in> set as \<longleftrightarrow> \<not> ce_fflag (po_mem po ! a)) \<and>
        (a \<in> set as \<longrightarrow> idle_cell (po_mem po ! a)))"

definition pool_ok :: "pool \<Rightarrow> bool" where
  "pool_ok po \<longleftrightarrow> (\<exists>as. pool_path po as)"

lemma free_path_upd [simp]:
  "a \<notin> set as \<Longrightarrow> free_path (m[a := c]) x as = free_path m x as"
  by (induction as arbitrary: x) auto

lemma free_path_snoc: "free_path m x as \<Longrightarrow> free_path (m @ [c]) x as"
  by (induction as arbitrary: x) (auto simp: nth_append)

lemma free_path_bound: "free_path m x as \<Longrightarrow> a \<in> set as \<Longrightarrow> a < length m"
  by (induction as arbitrary: x) auto

lemma pool_ok_empty [simp]: "pool_ok empty_pool"
  by (auto simp: pool_ok_def pool_path_def empty_pool_def intro: exI [of _ "[]"])

text \<open>An update that keeps the flag and the link of a cell in use keeps the invariant.\<close>

lemma pool_ok_upd_live:
  assumes ok: "pool_ok po" and live: "in_use po a" and c: "ce_fflag c"
  shows "pool_ok (po\<lparr>po_mem := (po_mem po)[a := c]\<rparr>)"
proof -
  from ok obtain as where as: "pool_path po as" by (auto simp: pool_ok_def)
  with live have "a \<notin> set as" by (auto simp: pool_path_def in_use_def)
  with as live c have "pool_path (po\<lparr>po_mem := (po_mem po)[a := c]\<rparr>) as"
    by (auto simp: pool_path_def in_use_def nth_list_update)
  then show ?thesis by (auto simp: pool_ok_def)
qed

lemma packet_alloc_cases:
  assumes "pool_ok po"
  obtains (reuse) a as where "po_free po = Some a" "pool_path po (a # as)"
      "idle_cell (po_mem po ! a)" "a < length (po_mem po)"
  | (fresh) "po_free po = None" "pool_path po []"
proof -
  from assms obtain as where as: "pool_path po as" by (auto simp: pool_ok_def)
  show thesis
  proof (cases as)
    case Nil
    with as have "po_free po = None" by (simp add: pool_path_def)
    with as Nil fresh show ?thesis by simp
  next
    case (Cons a bs)
    with as have "po_free po = Some a" "a < length (po_mem po)" by (simp_all add: pool_path_def)
    with as Cons reuse show ?thesis by (auto simp: pool_path_def)
  qed
qed

lemma packet_alloc_ok:
  assumes "pool_ok po"
  shows "\<exists>a po'. packet_alloc po = Inr (a, po') \<and> pool_ok po' \<and> \<not> in_use po a \<and>
    in_use po' a \<and> ce_bits (po_mem po' ! a) = fresh_hdrs \<and> ce_ref_count (po_mem po' ! a) = 0 \<and>
    ce_uid (po_mem po' ! a) = 0 \<and> ce_data (po_mem po' ! a) = None \<and>
    (\<forall>b < length (po_mem po). b \<noteq> a \<longrightarrow> po_mem po' ! b = po_mem po ! b) \<and>
    length (po_mem po) \<le> length (po_mem po') \<and>
    (\<forall>b. b \<noteq> a \<longrightarrow> in_use po' b = in_use po b)"
  using assms
proof (cases rule: packet_alloc_cases)
  case (reuse a as)
  let ?c = "(po_mem po ! a)\<lparr>ce_uid := 0, ce_time := 0, ce_bits := fresh_hdrs, ce_fflag := True,
    ce_next := None\<rparr>"
  let ?po = "po\<lparr>po_free := ce_next (po_mem po ! a), po_mem := (po_mem po)[a := ?c]\<rparr>"
  have "packet_alloc po = Inr (a, ?po)"
    using reuse by (simp add: packet_alloc_def idle_cell_def Let_def)
  moreover have "pool_path ?po as"
    using reuse(2) by (auto simp: pool_path_def nth_list_update)
  moreover have "ce_data ?c = None" "ce_ref_count ?c = 0" "\<not> ce_fflag (po_mem po ! a)"
    using reuse(3) by (simp_all add: idle_cell_def)
  ultimately show ?thesis
    using reuse(4) by (auto simp: pool_ok_def in_use_def nth_list_update)
next
  case fresh
  let ?po = "po\<lparr>po_mem := po_mem po @
         [new_packet\<lparr>ce_bits := fresh_hdrs, ce_fflag := True, ce_next := None\<rparr>]\<rparr>"
  have "packet_alloc po = Inr (length (po_mem po), ?po)"
    using fresh by (simp add: packet_alloc_def)
  moreover have "pool_path ?po []"
    using fresh(2) by (auto simp: pool_path_def nth_append)
  ultimately show ?thesis
    by (auto simp: pool_ok_def in_use_def nth_append new_packet_def)
qed

lemma packet_free_dead: "a < length (po_mem po) \<Longrightarrow> \<not> in_use po a \<Longrightarrow> packet_free a po = Inr po"
  by (simp add: packet_free_def in_use_def Let_def)

lemma packet_free_last:
  assumes ok: "pool_ok po" and live: "in_use po a" and ref: "ce_ref_count (po_mem po ! a) = 0"
    and uid: "ce_uid (po_mem po ! a) \<le> 0"
  shows "\<exists>po'. packet_free a po = Inr po' \<and> pool_ok po' \<and> po_free po' = Some a \<and>
    \<not> in_use po' a \<and> length (po_mem po') = length (po_mem po) \<and> ce_bits (po_mem po' ! a) = zero_hdrs \<and>
    (\<forall>b. b \<noteq> a \<longrightarrow> po_mem po' ! b = po_mem po ! b)"
proof -
  let ?c = "(po_mem po ! a)\<lparr>ce_data := None, ce_bits := zero_hdrs, ce_next := po_free po,
    ce_fflag := False\<rparr>"
  let ?po = "po\<lparr>po_mem := (po_mem po)[a := ?c], po_free := Some a\<rparr>"
  from ok obtain as where as: "pool_path po as" by (auto simp: pool_ok_def)
  have len: "a < length (po_mem po)" and flag: "ce_fflag (po_mem po ! a)"
    using live by (auto simp: in_use_def)
  with as have "a \<notin> set as" by (auto simp: pool_path_def)
  then have "free_path (po_mem ?po) (po_free ?po) (a # as)" and "distinct (a # as)"
    using as len by (simp_all add: pool_path_def)
  moreover have "\<forall>b < length (po_mem ?po). (b \<in> set (a # as) \<longleftrightarrow> \<not> ce_fflag (po_mem ?po ! b)) \<and>
        (b \<in> set (a # as) \<longrightarrow> idle_cell (po_mem ?po ! b))"
  proof (intro allI impI)
    fix b
    assume "b < length (po_mem ?po)"
    then have b: "b < length (po_mem po)" by simp
    show "(b \<in> set (a # as) \<longleftrightarrow> \<not> ce_fflag (po_mem ?po ! b)) \<and>
        (b \<in> set (a # as) \<longrightarrow> idle_cell (po_mem ?po ! b))"
    proof (cases "b = a")
      case True
      then show ?thesis using len ref by (simp add: idle_cell_def)
    next
      case False
      moreover have "(b \<in> set as \<longleftrightarrow> \<not> ce_fflag (po_mem po ! b)) \<and>
          (b \<in> set as \<longrightarrow> idle_cell (po_mem po ! b))"
        using as b unfolding pool_path_def by blast
      ultimately show ?thesis by simp
    qed
  qed
  ultimately have "pool_path ?po (a # as)"
    unfolding pool_path_def by blast
  moreover have "packet_free a po = Inr ?po"
    using len flag ref uid by (simp add: packet_free_def Let_def)
  ultimately show ?thesis using len by (auto simp: pool_ok_def in_use_def)
qed

lemma packet_free_ok:
  assumes ok: "pool_ok po" and free: "packet_free a po = Inr po'"
  shows "pool_ok po'"
proof (cases "in_use po a")
  case False
  with free show ?thesis using ok packet_free_dead [of a po]
    by (auto simp: packet_free_def split: if_splits)
next
  case True
  show ?thesis
  proof (cases "ce_ref_count (po_mem po ! a) = 0")
    case zero: True
    have "ce_uid (po_mem po ! a) \<le> 0"
      using free True zero by (auto simp: packet_free_def in_use_def Let_def split: if_splits)
    from packet_free_last [OF ok True zero this] free show ?thesis by auto
  next
    case False
    with free True have "po' = po\<lparr>po_mem := (po_mem po)[a := (po_mem po ! a)
        \<lparr>ce_ref_count := ce_ref_count (po_mem po ! a) - 1\<rparr>]\<rparr>"
      by (auto simp: packet_free_def in_use_def Let_def split: if_splits)
    with ok True show ?thesis by (auto intro: pool_ok_upd_live simp: in_use_def)
  qed
qed

lemma upd_hdrs_ok:
  assumes "pool_ok po" and "in_use po a"
  shows "\<exists>po'. upd_hdrs a f po = Inr po' \<and> pool_ok po' \<and> (\<forall>b. in_use po' b = in_use po b) \<and>
    length (po_mem po') = length (po_mem po) \<and>
    po_mem po' = (po_mem po)[a := (po_mem po ! a)\<lparr>ce_bits := f (ce_bits (po_mem po ! a))\<rparr>]"
  using assms pool_ok_upd_live [OF assms, of "(po_mem po ! a)\<lparr>ce_bits := f (ce_bits (po_mem po ! a))\<rparr>"]
  by (auto simp: upd_hdrs_def in_use_def nth_list_update)

text \<open>
  The recycling the agents below rely on without saying so: the packet freed last is the
  one allocated next, with its headers zeroed.
\<close>

lemma packet_free_alloc_same:
  assumes "pool_ok po" and "in_use po a" and "ce_ref_count (po_mem po ! a) = 0"
    and "ce_uid (po_mem po ! a) \<le> 0"
  shows "\<exists>po'. rbind (packet_free a po) packet_alloc = Inr (a, po') \<and>
    ce_bits (po_mem po' ! a) = fresh_hdrs"
proof -
  obtain po1 where 1: "packet_free a po = Inr po1" "pool_ok po1" "po_free po1 = Some a"
    using packet_free_last [OF assms] by blast
  from packet_alloc_ok [OF 1(2)] obtain b po2 where 2: "packet_alloc po1 = Inr (b, po2)"
    "ce_bits (po_mem po2 ! b) = fresh_hdrs" by blast
  moreover have "b = a"
    using 2(1) 1(3) by (auto simp: packet_alloc_def Let_def split: if_splits)
  ultimately show ?thesis using 1(1) by simp
qed

subsection \<open>Every pool that can arise\<close>

text \<open>
  The pools reached from the empty one by the operations of the class, where a packet that
  is written, shared or copied is in use; a packet may be freed at any time, also twice.
  Whoever holds a packet in use may set every field but \<open>fflag_\<close>: its data (\<open>setdata\<close>), its
  count of references (\<open>ref_count\<close> returns it by reference), its \<open>next_\<close> (the queues), its time
  and number (the scheduler).
\<close>

inductive pool_reach :: "pool \<Rightarrow> bool" where
  reach_empty: "pool_reach empty_pool"
| reach_alloc: "pool_reach po \<Longrightarrow> packet_alloc po = Inr (a, po') \<Longrightarrow> pool_reach po'"
| reach_free: "pool_reach po \<Longrightarrow> packet_free a po = Inr po' \<Longrightarrow> pool_reach po'"
| reach_refcopy: "pool_reach po \<Longrightarrow> in_use po a \<Longrightarrow> packet_refcopy a po = Inr po' \<Longrightarrow> pool_reach po'"
| reach_allocdata: "pool_reach po \<Longrightarrow> in_use po a \<Longrightarrow> packet_allocdata a n po = Inr po' \<Longrightarrow> pool_reach po'"
| reach_write: "pool_reach po \<Longrightarrow> in_use po a \<Longrightarrow> upd_hdrs a f po = Inr po' \<Longrightarrow> pool_reach po'"
| reach_overwrite: "pool_reach po \<Longrightarrow> in_use po a \<Longrightarrow> ce_fflag c \<Longrightarrow> pool_reach (po\<lparr>po_mem := (po_mem po)[a := c]\<rparr>)"
| reach_copy: "pool_reach po \<Longrightarrow> in_use po a \<Longrightarrow> packet_copy a po = Inr (b, po') \<Longrightarrow> pool_reach po'"

lemma in_use_bound: "in_use po a \<Longrightarrow> a < length (po_mem po) \<and> ce_fflag (po_mem po ! a)"
  by (simp add: in_use_def)

lemma packet_copy_ok:
  assumes "pool_ok po" and "packet_copy a po = Inr (b, po')"
  shows "pool_ok po'"
proof -
  from assms(2) have "a < length (po_mem po)" by (auto simp: packet_copy_def split: if_splits)
  moreover obtain c po1 where 1: "packet_alloc po = Inr (c, po1)" "pool_ok po1" "in_use po1 c"
    using packet_alloc_ok [OF assms(1)] by blast
  ultimately obtain d where "po' = po1\<lparr>po_mem := (po_mem po1)[c := d]\<rparr>" "ce_fflag d"
    using assms(2) in_use_bound [OF 1(3)] by (auto simp: packet_copy_def)
  with pool_ok_upd_live [OF 1(2,3)] show ?thesis by simp
qed

lemma pool_reach_ok: "pool_reach po \<Longrightarrow> pool_ok po"
proof (induction rule: pool_reach.induct)
  case (reach_alloc po a po')
  then show ?case using packet_alloc_ok by fastforce
next
  case (reach_free po a po')
  then show ?case using packet_free_ok by blast
next
  case (reach_refcopy po a po')
  then show ?case
    using pool_ok_upd_live [of po a "(po_mem po ! a)\<lparr>ce_ref_count := ce_ref_count (po_mem po ! a) + 1\<rparr>"] in_use_bound
    by (auto simp: packet_refcopy_def)
next
  case (reach_allocdata po a n po')
  then show ?case
    using pool_ok_upd_live [of po a "(po_mem po ! a)\<lparr>ce_data := Some n\<rparr>"] in_use_bound
    by (auto simp: packet_allocdata_def split: if_splits)
next
  case (reach_write po a f po')
  then show ?case using upd_hdrs_ok [of po a f] by auto
next
  case (reach_overwrite po a c)
  then show ?case using pool_ok_upd_live by blast
next
  case (reach_copy po a b po')
  then show ?case using packet_copy_ok by blast
qed simp

text \<open>
  C36. The packet memory is safe. In every pool that can arise, whatever was allocated, freed
  (even twice), shared, copied and overwritten before, an allocation succeeds, returns a packet that is
  not in use with cleared headers, and leaves every other packet as it is; and freeing the
  last reference puts exactly that packet on the free list.
\<close>

theorem allocation_is_safe:
  assumes "pool_reach po"
  shows "\<exists>a po'. packet_alloc po = Inr (a, po') \<and> \<not> in_use po a \<and> in_use po' a \<and>
    ce_bits (po_mem po' ! a) = fresh_hdrs \<and> ce_ref_count (po_mem po' ! a) = 0 \<and>
    (\<forall>b < length (po_mem po). b \<noteq> a \<longrightarrow> po_mem po' ! b = po_mem po ! b) \<and>
    (\<forall>b. b \<noteq> a \<longrightarrow> in_use po' b = in_use po b) \<and>
    (\<forall>c. in_use po c \<and> ce_ref_count (po_mem po ! c) = 0 \<and> ce_uid (po_mem po ! c) \<le> 0 \<longrightarrow>
      (\<exists>po''. packet_free c po = Inr po'' \<and> \<not> in_use po'' c \<and> po_free po'' = Some c \<and>
        (\<forall>b. b \<noteq> c \<longrightarrow> po_mem po'' ! b = po_mem po ! b)))"
proof -
  have ok: "pool_ok po" by (rule pool_reach_ok [OF assms])
  have "\<exists>po''. packet_free c po = Inr po'' \<and> \<not> in_use po'' c \<and> po_free po'' = Some c \<and>
      (\<forall>b. b \<noteq> c \<longrightarrow> po_mem po'' ! b = po_mem po ! b)"
    if "in_use po c" "ce_ref_count (po_mem po ! c) = 0" "ce_uid (po_mem po ! c) \<le> 0" for c
    using packet_free_last [OF ok that] by blast
  with packet_alloc_ok [OF ok] show ?thesis by blast
qed

theorem allocation_is_safe_witness:
  "\<exists>po a po'. packet_alloc empty_pool = Inr (0, po) \<and> packet_alloc po = Inr (a, po') \<and> \<not> in_use po a"
proof -
  obtain po where po: "packet_alloc empty_pool = Inr (0, po)"
    by (simp add: packet_alloc_def empty_pool_def)
  from allocation_is_safe [OF reach_alloc [OF reach_empty this]] po show ?thesis by blast
qed

end
