(* ===== verification/EndhostWorld.thy ===== *)
theory EndhostWorld
  imports PacketPool
begin

section \<open>The state of the endhost controllers\<close>

text \<open>
  The structures of common/node.h (the topology every node holds, its link statistics,
  and the table that says which host watches which link), the agents (common/agent.h),
  the queues as far as the controllers read them, and the world that holds them all.
  Linked lists threaded through the program (\<open>global_a_head\<close>,
  \<open>global_q_head\<close>, \<open>Node::nodehead_\<close>) are lists in traversal order. A packet
  handed to \<open>send\<close> goes to the agent's \<open>target_\<close>, whatever object the
  simulation script connected there: a parameter of the operations that send.
\<close>

subsection \<open>Link statistics and topology links\<close>

record topo_stats =
  st_utilization :: real
  st_q_lim :: real
  st_no_flows :: int
  st_q_size :: real

definition setStats :: "real \<Rightarrow> real \<Rightarrow> int \<Rightarrow> real \<Rightarrow> topo_stats \<Rightarrow> topo_stats" where
  "setStats util qL nF qS s =
     s\<lparr>st_utilization := util, st_q_lim := qL, st_no_flows := nF, st_q_size := qS\<rparr>"

definition setStats_Num :: "real \<Rightarrow> real \<Rightarrow> int \<Rightarrow> topo_stats \<Rightarrow> topo_stats" where
  "setStats_Num util qL nF s = s\<lparr>st_utilization := util, st_q_lim := qL, st_no_flows := nF\<rparr>"

definition setStats_Queue :: "real \<Rightarrow> real \<Rightarrow> real \<Rightarrow> topo_stats \<Rightarrow> topo_stats" where
  "setStats_Queue util qL qS s = s\<lparr>st_utilization := util, st_q_lim := qL, st_q_size := qS\<rparr>"

record topo_link =
  tl_n_start :: int
  tl_n_end :: int
  tl_link_num :: int
  tl_stats :: topo_stats
  tl_last_poll :: real
  tl_capacity :: real

definition Topo_links :: "int \<Rightarrow> int \<Rightarrow> int \<Rightarrow> real \<Rightarrow> topo_link" where
  "Topo_links s e n c =
     \<lparr>tl_n_start = s, tl_n_end = e, tl_link_num = n,
      tl_stats = setStats 0 0 0 0 \<lparr>st_utilization = 0, st_q_lim = 0, st_no_flows = 0, st_q_size = 0\<rparr>,
      tl_last_poll = -1, tl_capacity = c\<rparr>"

subsection \<open>Who watches which link, and for whom\<close>

record node_count =
  nc_node :: int
  nc_count :: int

record fixed_links =
  fl_link_num :: int
  fl_node_count :: "node_count list"

record fixed_mappings =
  fm_address :: int
  fm_fixed_links :: "fixed_links list"

definition Fixed_links :: "int \<Rightarrow> fixed_links" where
  "Fixed_links a = \<lparr>fl_link_num = a, fl_node_count = []\<rparr>"

record node =
  nd_address :: int
  nd_nodeid :: int
  nd_poll_stat :: int
  nd_topo_nodes :: "int list"
  nd_topo_links :: "topo_link list"
  nd_fixed_mappings :: "fixed_mappings list"
  nd_num_flow :: int
  nd_neighbor_list :: "int list"

subsection \<open>Agents, queues and the world\<close>

datatype agent_kind = Ping_Agent | Raza_Agent | Other_Agent

record agent =
  ag_kind :: agent_kind
  ag_here_addr :: int
  ag_here_port :: int
  ag_dst_addr :: int
  ag_dst_port :: int
  ag_size :: int
  ag_type :: int
  ag_fid :: int
  ag_prio :: int
  ag_defttl :: int
  ag_seq :: int
  ag_oneway :: bool

record gqueue =
  gq_cur_util :: real
  gq_qlim :: int
  gq_numFlows :: int
  gq_byteLength :: int

record world =
  w_clock :: real
  w_uidcnt :: int
  w_pool :: pool
  w_nodes :: "node list"
  w_agents :: "agent list"
  w_queues :: "gqueue list"
  w_resched :: "nat list"                       \<comment> \<open>nodes whose timer was rescheduled, in order\<close>
  w_tcl :: "(nat \<times> int \<times> real list) list"  \<comment> \<open>ping results handed to the script\<close>
  w_out :: "(nat \<times> nat) list"                   \<comment> \<open>packets sent: agent and packet address\<close>

type_synonym target = "nat \<Rightarrow> nat \<Rightarrow> world \<Rightarrow> world res"

text \<open>A target that takes every packet into the network, to be delivered later.\<close>

definition net_target :: target where
  "net_target i p w = Inr (w\<lparr>w_out := w_out w @ [(i, p)]\<rparr>)"

text \<open>\<open>Node::get_node_by_address\<close>: the first node of the static list with that address.\<close>

fun get_node_by_address :: "node list \<Rightarrow> int \<Rightarrow> nat option" where
  "get_node_by_address [] a = None"
| "get_node_by_address (n # ns) a =
     (if nd_address n = a then Some 0 else map_option Suc (get_node_by_address ns a))"

lemma get_node_by_address_Some:
  "get_node_by_address ns a = Some k \<Longrightarrow> k < length ns \<and> nd_address (ns ! k) = a"
  by (induction ns arbitrary: k) (auto split: if_splits)

lemma get_node_by_address_upd [simp]:
  "nd_address n = nd_address (ns ! k) \<Longrightarrow>
   get_node_by_address (ns[k := n]) a = get_node_by_address ns a"
proof (induction ns arbitrary: k)
  case Nil
  then show ?case by simp
next
  case (Cons m ns)
  then show ?case by (cases k) auto
qed

text \<open>\<open>me\<close> in the source: the node found, dereferenced.\<close>

definition the_node :: "world \<Rightarrow> int \<Rightarrow> nat res" where
  "the_node w a = (case get_node_by_address (w_nodes w) a of None \<Rightarrow> Inl Null_Deref | Some k \<Rightarrow> Inr k)"

definition upd_node :: "nat \<Rightarrow> (node \<Rightarrow> node) \<Rightarrow> world \<Rightarrow> world" where
  "upd_node k f w = w\<lparr>w_nodes := (w_nodes w)[k := f (w_nodes w ! k)]\<rparr>"

definition upd_agent :: "nat \<Rightarrow> (agent \<Rightarrow> agent) \<Rightarrow> world \<Rightarrow> world" where
  "upd_agent i f w = w\<lparr>w_agents := (w_agents w)[i := f (w_agents w ! i)]\<rparr>"

text \<open>
  The agent \<open>n\<close> steps after \<open>global_a_head->next\<close>, as the position of that agent in
  the list: the loop steps \<open>n\<close> times and the result is dereferenced.
\<close>

definition agent_at :: "world \<Rightarrow> int \<Rightarrow> nat res" where
  "agent_at w n = (if Suc (nat n) < length (w_agents w) then Inr (Suc (nat n)) else Inl Null_Deref)"

subsection \<open>Packets of an agent\<close>

text \<open>Operations of the packet pool lifted to the world, then \<open>Agent::allocpkt\<close>.\<close>

definition on_pool :: "(pool \<Rightarrow> pool res) \<Rightarrow> world \<Rightarrow> world res" where
  "on_pool f w = rbind (f (w_pool w)) (\<lambda>po. Inr (w\<lparr>w_pool := po\<rparr>))"

definition free_pkt :: "nat \<Rightarrow> world \<Rightarrow> world res" where
  "free_pkt p = on_pool (packet_free p)"

definition upd_pkt :: "nat \<Rightarrow> (hdrs \<Rightarrow> hdrs) \<Rightarrow> world \<Rightarrow> world res" where
  "upd_pkt p f = on_pool (upd_hdrs p f)"

definition get_pkt :: "nat \<Rightarrow> world \<Rightarrow> hdrs res" where
  "get_pkt p w = get_hdrs p (w_pool w)"

definition upd_ping :: "nat \<Rightarrow> (hdr_ping \<Rightarrow> hdr_ping) \<Rightarrow> world \<Rightarrow> world res" where
  "upd_ping p f = upd_pkt p (\<lambda>h. h\<lparr>hd_ping := f (hd_ping h)\<rparr>)"

definition upd_raza :: "nat \<Rightarrow> (hdr_raza \<Rightarrow> hdr_raza) \<Rightarrow> world \<Rightarrow> world res" where
  "upd_raza p f = upd_pkt p (\<lambda>h. h\<lparr>hd_raza := f (hd_raza h)\<rparr>)"

definition initpkt_hdrs :: "agent \<Rightarrow> int \<Rightarrow> real \<Rightarrow> hdrs \<Rightarrow> hdrs" where
  "initpkt_hdrs a uid now h =
     h\<lparr>hd_cmn := (hd_cmn h)\<lparr>cm_uid := uid, cm_ptype := ag_type a, cm_size := ag_size a, cm_ts := now,
         cm_iface := -1, cm_direction := 0, cm_error := 0\<rparr>,
       hd_ip := (hd_ip h)\<lparr>ip_saddr := ag_here_addr a, ip_sport := ag_here_port a,
         ip_daddr := ag_dst_addr a, ip_dport := ag_dst_port a, ip_fid := ag_fid a,
         ip_prio := ag_prio a, ip_ttl := ag_defttl a\<rparr>\<rparr>"

definition initpkt :: "nat \<Rightarrow> nat \<Rightarrow> world \<Rightarrow> world res" where
  "initpkt i p w =
     rbind (upd_pkt p (initpkt_hdrs (w_agents w ! i) (w_uidcnt w) (w_clock w)) w)
       (\<lambda>w'. Inr (w'\<lparr>w_uidcnt := w_uidcnt w + 1\<rparr>))"

definition allocpkt :: "nat \<Rightarrow> world \<Rightarrow> (nat \<times> world) res" where
  "allocpkt i w =
     rbind (packet_alloc (w_pool w)) (\<lambda>(p, po).
       rbind (initpkt i p (w\<lparr>w_pool := po\<rparr>)) (\<lambda>w'. Inr (p, w')))"

text \<open>
  Symbolic execution of the handlers. A packet one owner holds alone is in use, has no
  extra reference and is in no event queue; on such a packet writing headers, and freeing
  it and allocating the next packet, are total functions of the pool, and both keep the
  pool in order and the packet owned.
\<close>

definition owned :: "pool \<Rightarrow> nat \<Rightarrow> bool" where
  "owned po p \<longleftrightarrow> in_use po p \<and> ce_ref_count (po_mem po ! p) = 0 \<and>
     ce_uid (po_mem po ! p) \<le> 0 \<and> ce_data (po_mem po ! p) = None"

definition bits_at :: "pool \<Rightarrow> nat \<Rightarrow> hdrs" where
  "bits_at po p = ce_bits (po_mem po ! p)"

definition set_bits :: "nat \<Rightarrow> (hdrs \<Rightarrow> hdrs) \<Rightarrow> pool \<Rightarrow> pool" where
  "set_bits p f po = po\<lparr>po_mem := (po_mem po)[p := (po_mem po ! p)\<lparr>ce_bits := f (ce_bits (po_mem po ! p))\<rparr>]\<rparr>"

definition recycle :: "nat \<Rightarrow> pool \<Rightarrow> pool" where
  "recycle p po = po\<lparr>po_mem := (po_mem po)[p := (po_mem po ! p)\<lparr>ce_data := None, ce_uid := 0,
     ce_time := 0, ce_bits := fresh_hdrs, ce_fflag := True, ce_next := None\<rparr>]\<rparr>"

definition agent_hdrs :: "nat \<Rightarrow> world \<Rightarrow> hdrs" where
  "agent_hdrs i w = initpkt_hdrs (w_agents w ! i) (w_uidcnt w) (w_clock w) fresh_hdrs"

lemma owned_bound: "owned po p \<Longrightarrow> p < length (po_mem po)"
  by (simp add: owned_def in_use_def)

lemma owned_set_bits [simp]: "owned (set_bits p f po) q = owned po q"
  by (cases "p < length (po_mem po)")
    (auto simp: owned_def set_bits_def in_use_def nth_list_update list_update_beyond)

lemma owned_recycle [simp]: "owned po p \<Longrightarrow> owned (recycle p po) q = owned po q"
  by (auto simp: owned_def recycle_def in_use_def nth_list_update)

lemma pool_ok_set_bits [simp]: "pool_ok po \<Longrightarrow> owned po p \<Longrightarrow> pool_ok (set_bits p f po)"
  unfolding set_bits_def by (rule pool_ok_upd_live) (simp_all add: owned_def in_use_def)

lemma pool_ok_recycle [simp]: "pool_ok po \<Longrightarrow> owned po p \<Longrightarrow> pool_ok (recycle p po)"
  unfolding recycle_def by (rule pool_ok_upd_live) (simp_all add: owned_def in_use_def)

lemma bits_at_set_bits [simp]: "owned po p \<Longrightarrow> bits_at (set_bits p f po) p = f (bits_at po p)"
  by (simp add: bits_at_def set_bits_def owned_bound)

lemma bits_at_recycle [simp]: "owned po p \<Longrightarrow> bits_at (recycle p po) p = fresh_hdrs"
  by (simp add: bits_at_def recycle_def owned_bound)

lemma get_pkt_owned [simp]: "owned (w_pool w) p \<Longrightarrow> get_pkt p w = Inr (bits_at (w_pool w) p)"
  by (simp add: get_pkt_def get_hdrs_def bits_at_def owned_bound)

text \<open>A stale pointer still reads and writes the memory of the packet.\<close>

lemma get_pkt_stale: "p < length (po_mem (w_pool w)) \<Longrightarrow> get_pkt p w = Inr (bits_at (w_pool w) p)"
  by (simp add: get_pkt_def get_hdrs_def bits_at_def)

lemma upd_pkt_stale:
  "p < length (po_mem (w_pool w)) \<Longrightarrow> upd_pkt p f w = Inr (w\<lparr>w_pool := set_bits p f (w_pool w)\<rparr>)"
  by (simp add: upd_pkt_def on_pool_def upd_hdrs_def set_bits_def)

lemma length_set_bits [simp]: "length (po_mem (set_bits p f po)) = length (po_mem po)"
  by (simp add: set_bits_def)

lemma length_recycle [simp]: "length (po_mem (recycle p po)) = length (po_mem po)"
  by (simp add: recycle_def)

lemma upd_pkt_owned [simp]:
  "owned (w_pool w) p \<Longrightarrow> upd_pkt p f w = Inr (w\<lparr>w_pool := set_bits p f (w_pool w)\<rparr>)"
  by (simp add: upd_pkt_def on_pool_def upd_hdrs_def set_bits_def owned_bound)

lemma free_alloc_pool:
  assumes "owned po p"
  shows "rbind (packet_free p po) packet_alloc = Inr (p, recycle p po)"
  using assms
  by (simp add: owned_def in_use_def packet_free_def packet_alloc_def recycle_def Let_def)

definition init_world :: "nat \<Rightarrow> world \<Rightarrow> pool \<Rightarrow> nat \<Rightarrow> world" where
  "init_world i w po p = w\<lparr>w_pool := set_bits p (\<lambda>h. initpkt_hdrs (w_agents w ! i) (w_uidcnt w) (w_clock w) h) po,
     w_uidcnt := w_uidcnt w + 1\<rparr>"

lemma free_allocpkt:
  assumes "owned (w_pool w) p"
  shows "rbind (free_pkt p w) (allocpkt i) = Inr (p, init_world i w (recycle p (w_pool w)) p)"
proof -
  from free_alloc_pool [OF assms] obtain po where
    po: "packet_free p (w_pool w) = Inr po" "packet_alloc po = Inr (p, recycle p (w_pool w))"
    by (auto simp: rbind_eq_Inr)
  then show ?thesis
    using assms by (simp add: free_pkt_def on_pool_def allocpkt_def initpkt_def init_world_def)
qed

lemma init_world_simps [simp]:
  "w_clock (init_world i w po p) = w_clock w" "w_nodes (init_world i w po p) = w_nodes w"
  "w_agents (init_world i w po p) = w_agents w" "w_queues (init_world i w po p) = w_queues w"
  "w_resched (init_world i w po p) = w_resched w" "w_tcl (init_world i w po p) = w_tcl w"
  "w_out (init_world i w po p) = w_out w" "w_uidcnt (init_world i w po p) = w_uidcnt w + 1"
  "w_pool (init_world i w po p) =
     set_bits p (initpkt_hdrs (w_agents w ! i) (w_uidcnt w) (w_clock w)) po"
  by (simp_all add: init_world_def)

text \<open>What holds of every packet in use before also holds after: it stays, with its headers.\<close>

definition pool_keeps :: "pool \<Rightarrow> pool \<Rightarrow> bool" where
  "pool_keeps po po' \<longleftrightarrow> (\<forall>q. in_use po q \<longrightarrow> in_use po' q \<and> bits_at po' q = bits_at po q)"

lemma pool_keeps_refl [simp]: "pool_keeps po po"
  by (simp add: pool_keeps_def)

lemma pool_keeps_trans: "pool_keeps a b \<Longrightarrow> pool_keeps b c \<Longrightarrow> pool_keeps a c"
  by (auto simp: pool_keeps_def)

lemma pool_keeps_set_bits: "pool_keeps po po' \<Longrightarrow> \<not> in_use po p \<Longrightarrow> pool_keeps po (set_bits p f po')"
  by (cases "p < length (po_mem po')")
    (auto simp: pool_keeps_def set_bits_def in_use_def bits_at_def nth_list_update list_update_beyond)

lemma packet_alloc_owned:
  assumes "pool_ok po"
  shows "\<exists>p po'. packet_alloc po = Inr (p, po') \<and> pool_ok po' \<and> owned po' p \<and> \<not> in_use po p \<and>
    bits_at po' p = fresh_hdrs \<and> pool_keeps po po'"
proof -
  from packet_alloc_ok [OF assms] obtain p po' where a: "packet_alloc po = Inr (p, po')" "pool_ok po'"
    "\<not> in_use po p" "in_use po' p" "ce_bits (po_mem po' ! p) = fresh_hdrs"
    "ce_ref_count (po_mem po' ! p) = 0" "ce_uid (po_mem po' ! p) = 0" "ce_data (po_mem po' ! p) = None"
    and f: "\<forall>b < length (po_mem po). b \<noteq> p \<longrightarrow> po_mem po' ! b = po_mem po ! b"
      "\<forall>b. b \<noteq> p \<longrightarrow> in_use po' b = in_use po b"
    by blast
  have "pool_keeps po po'"
    unfolding pool_keeps_def
  proof (intro allI impI)
    fix q assume q: "in_use po q"
    then have "q \<noteq> p" "q < length (po_mem po)" using a(3) by (auto simp: in_use_def)
    then show "in_use po' q \<and> bits_at po' q = bits_at po q"
      using f q by (simp add: bits_at_def)
  qed
  with a show ?thesis by (auto simp: owned_def bits_at_def)
qed

lemma allocpkt_ok:
  assumes "pool_ok (w_pool w)"
  shows "\<exists>p po. allocpkt i w = Inr (p, init_world i w po p) \<and> pool_ok po \<and> owned po p \<and>
    \<not> in_use (w_pool w) p \<and> bits_at po p = fresh_hdrs \<and> pool_keeps (w_pool w) po"
proof -
  from packet_alloc_owned [OF assms] obtain p po where
    "packet_alloc (w_pool w) = Inr (p, po)" "pool_ok po" "owned po p" "\<not> in_use (w_pool w) p"
    "bits_at po p = fresh_hdrs" "pool_keeps (w_pool w) po" by blast
  then show ?thesis
    by (intro exI [of _ p] exI [of _ po]) (simp add: allocpkt_def initpkt_def init_world_def)
qed

definition release :: "nat \<Rightarrow> pool \<Rightarrow> pool" where
  "release p po = po\<lparr>po_mem := (po_mem po)[p := (po_mem po ! p)\<lparr>ce_data := None, ce_bits := zero_hdrs,
     ce_next := po_free po, ce_fflag := False\<rparr>], po_free := Some p\<rparr>"

lemma packet_free_owned: "owned po p \<Longrightarrow> packet_free p po = Inr (release p po)"
  by (simp add: owned_def in_use_def packet_free_def release_def Let_def)

lemma free_pkt_owned [simp]:
  "owned (w_pool w) p \<Longrightarrow> free_pkt p w = Inr (w\<lparr>w_pool := release p (w_pool w)\<rparr>)"
  by (simp add: free_pkt_def on_pool_def packet_free_owned)

lemma pool_ok_release [simp]: "pool_ok po \<Longrightarrow> owned po p \<Longrightarrow> pool_ok (release p po)"
  using packet_free_owned packet_free_ok by blast

lemma length_release [simp]: "length (po_mem (release p po)) = length (po_mem po)"
  by (simp add: release_def)

lemma bits_at_release [simp]: "owned po p \<Longrightarrow> bits_at (release p po) p = zero_hdrs"
  by (simp add: bits_at_def release_def owned_bound)

text \<open>Writing through a stale pointer does not take the packet off the free list.\<close>

definition freed :: "pool \<Rightarrow> nat \<Rightarrow> bool" where
  "freed po p \<longleftrightarrow> p < length (po_mem po) \<and> po_free po = Some p \<and> \<not> ce_fflag (po_mem po ! p) \<and>
     ce_data (po_mem po ! p) = None"

lemma freed_release [simp]: "owned po p \<Longrightarrow> freed (release p po) p"
  by (simp add: freed_def release_def owned_bound)

lemma freed_set_bits [simp]: "freed (set_bits p f po) p = freed po p"
  by (cases "p < length (po_mem po)") (auto simp: freed_def set_bits_def)

lemma freed_not_in_use: "freed po p \<Longrightarrow> \<not> in_use po p"
  by (simp add: freed_def in_use_def)

lemma bits_at_set_bits_stale [simp]:
  "freed po p \<Longrightarrow> bits_at (set_bits p f po) p = f (bits_at po p)"
  by (simp add: bits_at_def set_bits_def freed_def)

lemma freed_bound: "freed po p \<Longrightarrow> p < length (po_mem po)"
  by (simp add: freed_def)

text \<open>Freeing a freed packet again changes nothing, and the next allocation returns it.\<close>

lemma free_pkt_freed [simp]: "freed (w_pool w) p \<Longrightarrow> free_pkt p w = Inr w"
  by (simp add: free_pkt_def on_pool_def packet_free_def Let_def freed_def)

lemma allocpkt_freed:
  assumes "freed (w_pool w) p"
  shows "\<exists>po. allocpkt i w = Inr (p, init_world i w po p) \<and> owned po p \<and> bits_at po p = fresh_hdrs \<or>
    ce_ref_count (po_mem (w_pool w) ! p) \<noteq> 0"
proof (cases "ce_ref_count (po_mem (w_pool w) ! p) = 0")
  case True
  let ?c = "(po_mem (w_pool w) ! p)\<lparr>ce_uid := 0, ce_time := 0, ce_bits := fresh_hdrs, ce_fflag := True, ce_next := None\<rparr>"
  let ?po = "(w_pool w)\<lparr>po_mem := (po_mem (w_pool w))[p := ?c], po_free := ce_next (po_mem (w_pool w) ! p)\<rparr>"
  have "packet_alloc (w_pool w) = Inr (p, ?po)"
    using assms by (simp add: packet_alloc_def freed_def Let_def)
  moreover have o: "owned ?po p" "bits_at ?po p = fresh_hdrs"
    using assms True by (simp_all add: owned_def freed_def in_use_def bits_at_def)
  ultimately show ?thesis
    by (intro exI [of _ ?po]) (simp add: allocpkt_def initpkt_def init_world_def)
qed simp

lemma in_use_release: "owned po p \<Longrightarrow> \<not> in_use (release p po) p"
  by (simp add: owned_bound in_use_def release_def)

lemma alloc_release: "owned po p \<Longrightarrow> packet_alloc (release p po) = Inr (p, recycle p po)"
  using free_alloc_pool [of po p] packet_free_owned [of po p] by simp

lemma allocpkt_release [simp]:
  "owned po p \<Longrightarrow> allocpkt i (w\<lparr>w_pool := release p po\<rparr>) = Inr (p, init_world i w (recycle p po) p)"
  by (simp add: allocpkt_def alloc_release initpkt_def init_world_def)

subsection \<open>Sending into the network\<close>

text \<open>
  How an operation that only sends may change the world: the state of nodes, queues and
  timers stays, agents change at most their sequence numbers, every packet in use stays as
  it is, and the packets added to the network are in use. \<open>new_msgs\<close> is what was added:
  the sending agent and the headers.
\<close>

definition same_agent :: "agent \<Rightarrow> agent \<Rightarrow> bool" where
  "same_agent a b \<longleftrightarrow> a\<lparr>ag_seq := 0\<rparr> = b\<lparr>ag_seq := 0\<rparr>"

definition new_msgs :: "world \<Rightarrow> world \<Rightarrow> (nat \<times> hdrs) list" where
  "new_msgs w w' = map (\<lambda>(i, p). (i, bits_at (w_pool w') p)) (drop (length (w_out w)) (w_out w'))"

definition net_ext :: "world \<Rightarrow> world \<Rightarrow> bool" where
  "net_ext w w' \<longleftrightarrow> pool_ok (w_pool w') \<and> pool_keeps (w_pool w) (w_pool w') \<and>
     w_nodes w' = w_nodes w \<and> w_queues w' = w_queues w \<and> w_clock w' = w_clock w \<and>
     w_resched w' = w_resched w \<and> w_tcl w' = w_tcl w \<and>
     list_all2 same_agent (w_agents w') (w_agents w) \<and>
     (\<exists>xs. w_out w' = w_out w @ xs \<and> (\<forall>(i, p) \<in> set xs. in_use (w_pool w') p))"

lemma same_agent_refl [simp]: "same_agent a a"
  by (simp add: same_agent_def)

lemma same_agent_trans: "same_agent a b \<Longrightarrow> same_agent b c \<Longrightarrow> same_agent a c"
  by (simp add: same_agent_def)

lemma same_agent_seq [simp]: "same_agent (a\<lparr>ag_seq := n\<rparr>) a"
  by (simp add: same_agent_def)

lemma same_agentD:
  "same_agent a b \<Longrightarrow> ag_kind a = ag_kind b \<and> ag_here_addr a = ag_here_addr b \<and>
     ag_here_port a = ag_here_port b \<and> ag_dst_addr a = ag_dst_addr b \<and> ag_dst_port a = ag_dst_port b"
proof -
  assume "same_agent a b"
  then have *: "a\<lparr>ag_seq := 0\<rparr> = b\<lparr>ag_seq := 0\<rparr>" by (simp add: same_agent_def)
  from arg_cong [OF *, of ag_kind] arg_cong [OF *, of ag_here_addr] arg_cong [OF *, of ag_here_port]
    arg_cong [OF *, of ag_dst_addr] arg_cong [OF *, of ag_dst_port]
  show ?thesis by simp
qed

lemma net_ext_refl: "pool_ok (w_pool w) \<Longrightarrow> net_ext w w"
  by (simp add: net_ext_def list_all2_refl)

lemma new_msgs_refl [simp]: "new_msgs w w = []"
  by (simp add: new_msgs_def)

lemma net_ext_trans:
  assumes 1: "net_ext a b" and 2: "net_ext b c"
  shows "net_ext a c" and "new_msgs a c = new_msgs a b @ new_msgs b c"
proof -
  from 1 obtain xs where xs: "w_out b = w_out a @ xs" "\<forall>(i, p) \<in> set xs. in_use (w_pool b) p"
    by (auto simp: net_ext_def)
  from 2 obtain ys where ys: "w_out c = w_out b @ ys" "\<forall>(i, p) \<in> set ys. in_use (w_pool c) p"
    by (auto simp: net_ext_def)
  have k: "pool_keeps (w_pool b) (w_pool c)" using 2 by (simp add: net_ext_def)
  have live: "in_use (w_pool c) p \<and> bits_at (w_pool c) p = bits_at (w_pool b) p"
    if "(i, p) \<in> set xs" for i p
    using xs(2) that k by (auto simp: pool_keeps_def)
  have out: "w_out c = w_out a @ (xs @ ys)" "\<forall>(i, p) \<in> set (xs @ ys). in_use (w_pool c) p"
    using xs(1) ys live by auto
  have ag: "list_all2 same_agent (w_agents c) (w_agents a)"
    using 1 2 list_all2_trans [of same_agent same_agent same_agent "w_agents c" "w_agents b" "w_agents a"]
      same_agent_trans by (simp add: net_ext_def)
  have "pool_ok (w_pool c)" and "w_nodes c = w_nodes a" and "w_queues c = w_queues a"
    and "w_clock c = w_clock a" and "w_resched c = w_resched a" and "w_tcl c = w_tcl a"
    using 1 2 by (simp_all add: net_ext_def)
  moreover have "pool_keeps (w_pool a) (w_pool c)"
    using 1 pool_keeps_trans [OF _ k] by (simp add: net_ext_def)
  ultimately show "net_ext a c"
    unfolding net_ext_def using ag out by blast
  show "new_msgs a c = new_msgs a b @ new_msgs b c"
    using xs(1) ys(1) live by (auto simp: new_msgs_def)
qed

lemma net_ext_length: "net_ext w w' \<Longrightarrow> length (w_agents w') = length (w_agents w)"
  by (auto simp: net_ext_def list_all2_lengthD)

lemma net_ext_agent: "net_ext w w' \<Longrightarrow> i < length (w_agents w) \<Longrightarrow> same_agent (w_agents w' ! i) (w_agents w ! i)"
  by (auto simp: net_ext_def list_all2_conv_all_nth)

lemma net_ext_node: "net_ext w w' \<Longrightarrow> w_nodes w' = w_nodes w"
  and net_ext_queues: "net_ext w w' \<Longrightarrow> w_queues w' = w_queues w"
  and net_ext_clock: "net_ext w w' \<Longrightarrow> w_clock w' = w_clock w"
  and net_ext_pool: "net_ext w w' \<Longrightarrow> pool_ok (w_pool w')"
  and net_ext_resched: "net_ext w w' \<Longrightarrow> w_resched w' = w_resched w"
  by (simp_all add: net_ext_def)

text \<open>A loop whose every turn only sends, message lists \<open>m x\<close> seen through \<open>g\<close>.\<close>

lemma rfold_net:
  assumes "pool_ok (w_pool w)"
    and "\<And>x w1. x \<in> set xs \<Longrightarrow> net_ext w w1 \<Longrightarrow>
      \<exists>w2. f x w1 = Inr w2 \<and> net_ext w1 w2 \<and> map g (new_msgs w1 w2) = m x"
  shows "\<exists>w'. rfold f xs w = Inr w' \<and> net_ext w w' \<and> map g (new_msgs w w') = concat (map m xs)"
  using assms
proof (induction xs arbitrary: w)
  case Nil
  then show ?case by (auto intro: net_ext_refl)
next
  case (Cons x xs)
  from Cons.prems(2) [of x w] Cons.prems(1) net_ext_refl obtain w2 where
    2: "f x w = Inr w2" "net_ext w w2" "map g (new_msgs w w2) = m x"
    by auto
  have "\<exists>w'. rfold f xs w2 = Inr w' \<and> net_ext w2 w' \<and> map g (new_msgs w2 w') = concat (map m xs)"
  proof (rule Cons.IH)
    show "pool_ok (w_pool w2)" by (rule net_ext_pool [OF 2(2)])
    fix y w1
    assume "y \<in> set xs" "net_ext w2 w1"
    then show "\<exists>w3. f y w1 = Inr w3 \<and> net_ext w1 w3 \<and> map g (new_msgs w1 w3) = m y"
      using Cons.prems(2) [of y w1] net_ext_trans(1) [OF 2(2)] by simp
  qed
  then obtain w' where "rfold f xs w2 = Inr w'" "net_ext w2 w'"
    "map g (new_msgs w2 w') = concat (map m xs)" by blast
  then show ?case
    using 2 net_ext_trans [OF 2(2)] by auto
qed

text \<open>One packet into the network.\<close>

lemma net_ext_one:
  assumes "pool_ok po" and "in_use po p" and "pool_keeps (w_pool w) po"
    and "list_all2 same_agent as (w_agents w)"
    and "w' = w\<lparr>w_uidcnt := u, w_pool := po, w_agents := as, w_out := w_out w @ [(i, p)]\<rparr>"
  shows "net_ext w w' \<and> new_msgs w w' = [(i, bits_at po p)]"
  unfolding assms(5) net_ext_def new_msgs_def using assms(1-4) by simp

end
