(* ===== verification/PingAgent.thy ===== *)
theory PingAgent
  imports EndhostWorld
begin

section \<open>The ping agent: polling a queue for its statistics\<close>

text \<open>
  \<open>PingAgent\<close> of apps/ping.cc. A controller polls a link by \<open>send_c\<close>, a request
  with \<open>ret = 3\<close>; the peer answers with \<open>ret = 4\<close> and the statistics of the queue
  of that link; the answer is stored in the topology of the asking node. Requests with
  \<open>ret = 0\<close> and answers with \<open>ret = 1\<close> are the plain ping of ns. The packet that
  carried a request is freed before the answer is allocated, and \<open>recv\<close> reads its
  header again after that: the model reads the store at the same address.
\<close>

abbreviation (input) QLEN :: int where "QLEN \<equiv> 0"
abbreviation (input) UTILIZATION :: int where "UTILIZATION \<equiv> 1"
abbreviation (input) NUMFLOWS :: int where "NUMFLOWS \<equiv> 2"

definition is_broadcast :: "int \<Rightarrow> bool" where
  "is_broadcast a \<longleftrightarrow> (word_of_int a :: 32 word) = 0xffffffff"

subsection \<open>Sending\<close>

text \<open>\<open>PingAgent::send_c(sd, lN)\<close>: ask for statistic \<open>sd\<close> of link \<open>lN\<close>.\<close>

definition ping_request :: "int \<Rightarrow> real \<Rightarrow> int \<Rightarrow> int \<Rightarrow> hdr_ping \<Rightarrow> hdr_ping" where
  "ping_request sq now sd lN h =
     h\<lparr>pg_ret := 3, pg_seq := sq, pg_link_num := lN, pg_utilization := -1, pg_q_lim := -1,
       pg_no_flows := -1, pg_q_len := -1, pg_statDemanded := sd, pg_send_time := now\<rparr>"

definition Ping_send_c :: "target \<Rightarrow> nat \<Rightarrow> int \<Rightarrow> int \<Rightarrow> world \<Rightarrow> world res" where
  "Ping_send_c tgt i sd lN w =
     rbind (allocpkt i w) (\<lambda>(p, w1).
       rbind (upd_ping p (ping_request (ag_seq (w_agents w1 ! i)) (w_clock w1) sd lN) w1) (\<lambda>w2.
         tgt i p (upd_agent i (\<lambda>a. a\<lparr>ag_seq := ag_seq a + 1\<rparr>) w2)))"

text \<open>
  The commands \<open>send\<close>, \<open>qlen\<close>, \<open>utilization\<close> and \<open>numFlows\<close> send a request
  with \<open>ret = 0\<close>; they differ in the statistic they ask for (\<open>send\<close> leaves the zero
  of the fresh header, and \<open>numFlows\<close> the zero link number).
\<close>

definition ping_plain :: "int \<Rightarrow> real \<Rightarrow> int \<Rightarrow> hdr_ping \<Rightarrow> hdr_ping" where
  "ping_plain sq now sd h =
     h\<lparr>pg_ret := 0, pg_seq := sq, pg_link_num := 0, pg_utilization := -1, pg_q_lim := -1,
       pg_no_flows := -1, pg_q_len := -1, pg_statDemanded := sd, pg_send_time := now\<rparr>"

definition ping_numFlows :: "int \<Rightarrow> real \<Rightarrow> hdr_ping \<Rightarrow> hdr_ping" where
  "ping_numFlows sq now h =
     h\<lparr>pg_ret := 0, pg_seq := sq, pg_utilization := -1, pg_q_lim := -1,
       pg_no_flows := -1, pg_q_len := -1, pg_statDemanded := NUMFLOWS, pg_send_time := now\<rparr>"

definition ping_send_with :: "(int \<Rightarrow> real \<Rightarrow> hdr_ping \<Rightarrow> hdr_ping) \<Rightarrow> target \<Rightarrow> nat \<Rightarrow> world \<Rightarrow> world res" where
  "ping_send_with f tgt i w =
     rbind (allocpkt i w) (\<lambda>(p, w1).
       rbind (upd_ping p (f (ag_seq (w_agents w1 ! i)) (w_clock w1)) w1) (\<lambda>w2.
         tgt i p (upd_agent i (\<lambda>a. a\<lparr>ag_seq := ag_seq a + 1\<rparr>) w2)))"

definition ping_brdcast :: "target \<Rightarrow> nat \<Rightarrow> world \<Rightarrow> world res" where
  "ping_brdcast tgt i w =
     rbind (allocpkt i w) (\<lambda>(p, w1).
       rbind (upd_pkt p (\<lambda>h. h\<lparr>hd_ip := (hd_ip h)\<lparr>ip_daddr := -1, ip_dport := ip_sport (hd_ip h)\<rparr>,
                hd_ping := (hd_ping h)\<lparr>pg_ret := 0\<rparr>\<rparr>) w1) (tgt i p))"

datatype tcl_result = TCL_OK | To_Base_Class

text \<open>\<open>PingAgent::command\<close>; what it does not know goes to \<open>Agent::command\<close>.\<close>

definition Ping_command :: "target \<Rightarrow> nat \<Rightarrow> string list \<Rightarrow> world \<Rightarrow> (tcl_result \<times> world) res" where
  "Ping_command tgt i argv w =
     (if length argv = 2 \<and> argv ! 1 = ''send'' then
        rbind (ping_send_with (\<lambda>sq now h. ping_plain sq now (pg_statDemanded h) h) tgt i w) (\<lambda>w. Inr (TCL_OK, w))
      else if length argv = 2 \<and> argv ! 1 = ''qlen'' then
        rbind (ping_send_with (\<lambda>sq now. ping_plain sq now QLEN) tgt i w) (\<lambda>w. Inr (TCL_OK, w))
      else if length argv = 2 \<and> argv ! 1 = ''utilization'' then
        rbind (ping_send_with (\<lambda>sq now. ping_plain sq now UTILIZATION) tgt i w) (\<lambda>w. Inr (TCL_OK, w))
      else if length argv = 2 \<and> argv ! 1 = ''numFlows'' then
        rbind (ping_send_with ping_numFlows tgt i w) (\<lambda>w. Inr (TCL_OK, w))
      else if length argv = 2 \<and> argv ! 1 = ''start-WL-brdcast'' then
        rbind (ping_brdcast tgt i w) (\<lambda>w. Inr (TCL_OK, w))
      else if length argv = 2 \<and> argv ! 1 = ''oneway'' then
        Inr (TCL_OK, upd_agent i (\<lambda>a. a\<lparr>ag_oneway := True\<rparr>) w)
      else Inr (To_Base_Class, w))"

subsection \<open>Receiving\<close>

text \<open>\<open>PingAgent::updateStats\<close>: the queue of the link, found by walking the global list.\<close>

definition read_queue :: "gqueue \<Rightarrow> hdr_ping \<Rightarrow> hdr_ping" where
  "read_queue q h =
     (let h = h\<lparr>pg_utilization := gq_cur_util q, pg_q_lim := real_of_int (gq_qlim q)\<rparr> in
      if pg_statDemanded h = NUMFLOWS then h\<lparr>pg_no_flows := gq_numFlows q\<rparr>
      else if pg_statDemanded h = UTILIZATION then h\<lparr>pg_utilization := gq_cur_util q\<rparr>
      else if pg_statDemanded h = QLEN then h\<lparr>pg_q_len := real_of_int (gq_byteLength q)\<rparr>
      else h)"

definition updateStats :: "nat \<Rightarrow> world \<Rightarrow> world res" where
  "updateStats p w =
     rbind (get_pkt p w) (\<lambda>h.
       rbind (walk_for (w_queues w) (pg_link_num (hd_ping h))) (\<lambda>q. upd_ping p (read_queue q) w))"

text \<open>The broadcast branch: answer a request to everybody, drop an answer.\<close>

definition ping_recv_brdcast :: "target \<Rightarrow> nat \<Rightarrow> nat \<Rightarrow> hdr_ping \<Rightarrow> world \<Rightarrow> world res" where
  "ping_recv_brdcast tgt i p h w =
     (if pg_ret h = 0 then
        rbind (free_pkt p w) (\<lambda>w1. rbind (allocpkt i w1) (\<lambda>(q, w2).
          rbind (upd_pkt q (\<lambda>h. h\<lparr>hd_ping := (hd_ping h)\<lparr>pg_ret := 1\<rparr>,
                   hd_ip := (hd_ip h)\<lparr>ip_daddr := -1, ip_dport := ip_sport (hd_ip h)\<rparr>\<rparr>) w2) (tgt i q)))
      else free_pkt p w)"

text \<open>The answer to a controller's poll (\<open>ret = 3\<close>).\<close>

definition ping_answer :: "target \<Rightarrow> nat \<Rightarrow> nat \<Rightarrow> hdr_ping \<Rightarrow> world \<Rightarrow> world res" where
  "ping_answer tgt i p h w =
     rbind (free_pkt p w) (\<lambda>w1. rbind (allocpkt i w1) (\<lambda>(q, w2).
       rbind (upd_ping q (\<lambda>r. r\<lparr>pg_ret := 4, pg_link_num := pg_link_num h,
                pg_statDemanded := pg_statDemanded h\<rparr>) w2) (\<lambda>w3.
       rbind (updateStats q w3) (\<lambda>w4.
       rbind (upd_ping q (\<lambda>r. r\<lparr>pg_send_time := pg_send_time h, pg_rcv_time := w_clock w4,
                pg_seq := pg_seq h\<rparr>) w4) (tgt i q)))))"

text \<open>The answer to a poll, stored in the topology of this agent's node (\<open>ret = 4\<close>).\<close>

definition store_stats :: "hdr_ping \<Rightarrow> node \<Rightarrow> node res" where
  "store_stats h n =
     (if pg_statDemanded h = NUMFLOWS then
        rbind (vec_upd (nd_topo_links n) (pg_link_num h)
                 (\<lambda>l. l\<lparr>tl_stats := setStats_Num (pg_utilization h) (pg_q_lim h) (pg_no_flows h) (tl_stats l)\<rparr>))
          (\<lambda>ls. Inr (n\<lparr>nd_topo_links := ls\<rparr>))
      else if pg_statDemanded h = QLEN then
        rbind (vec_upd (nd_topo_links n) (pg_link_num h)
                 (\<lambda>l. l\<lparr>tl_stats := setStats_Queue (pg_utilization h) (pg_q_lim h) (pg_q_len h) (tl_stats l)\<rparr>))
          (\<lambda>ls. Inr (n\<lparr>nd_topo_links := ls\<rparr>))
      else Inr n)"

definition ping_store :: "nat \<Rightarrow> nat \<Rightarrow> hdr_ping \<Rightarrow> world \<Rightarrow> world res" where
  "ping_store i p h w =
     (if pg_statDemanded h = NUMFLOWS \<or> pg_statDemanded h = QLEN then
        rbind (the_node w (ag_here_addr (w_agents w ! i))) (\<lambda>k.
          rbind (store_stats h (w_nodes w ! k)) (\<lambda>n. free_pkt p (upd_node k (\<lambda>_. n) w)))
      else free_pkt p w)"

text \<open>
  The echo of a plain ping (\<open>ret = 0\<close>). The source frees \<open>pkt\<close> twice, once before
  and once after allocating the answer, and copies \<open>statDemanded\<close> out of \<open>pkt\<close> in
  between.
\<close>

definition ping_echo :: "target \<Rightarrow> nat \<Rightarrow> nat \<Rightarrow> hdr_ping \<Rightarrow> world \<Rightarrow> world res" where
  "ping_echo tgt i p h w =
     rbind (free_pkt p w) (\<lambda>w1. rbind (allocpkt i w1) (\<lambda>(q, w2).
       rbind (upd_ping q (\<lambda>r. r\<lparr>pg_ret := 1\<rparr>) w2) (\<lambda>w3.
       rbind (get_pkt p w3) (\<lambda>hp.
       rbind (upd_ping q (\<lambda>r. r\<lparr>pg_statDemanded := pg_statDemanded (hd_ping hp)\<rparr>) w3) (\<lambda>w4.
       rbind (free_pkt p w4) (\<lambda>w5.
       rbind (updateStats q w5) (\<lambda>w6.
       rbind (upd_ping q (\<lambda>r. r\<lparr>pg_send_time := pg_send_time h, pg_rcv_time := w_clock w6,
                pg_seq := pg_seq h\<rparr>) w6) (tgt i q))))))))"

text \<open>The end of a plain ping (\<open>ret = 1\<close>): report the times to the script.\<close>

definition ping_report :: "nat \<Rightarrow> nat \<Rightarrow> nat \<Rightarrow> hdrs \<Rightarrow> world \<Rightarrow> world res" where
  "ping_report shift i p h w =
     (let from = ip_saddr (hd_ip h) div 2 ^ shift;
          g = hd_ping h;
          times = (if ag_oneway (w_agents w ! i)
            then [real_of_int (pg_seq g), (pg_rcv_time g - pg_send_time g) * 1000, (w_clock w - pg_rcv_time g) * 1000]
            else [(w_clock w - pg_send_time g) * 1000])
      in free_pkt p (w\<lparr>w_tcl := w_tcl w @ [(i, from, times)]\<rparr>))"

text \<open>
  \<open>PingAgent::recv\<close>. After the branch for \<open>ret = 3\<close> the code goes on to test
  \<open>hdr->ret\<close> of the packet it freed; \<open>shift\<close> is \<open>NodeShift_[1]\<close> of the
  simulation's address format.
\<close>

definition ping_recv_plain :: "target \<Rightarrow> nat \<Rightarrow> nat \<Rightarrow> nat \<Rightarrow> world \<Rightarrow> world res" where
  "ping_recv_plain tgt shift i p w =
     rbind (get_pkt p w) (\<lambda>h.
       if pg_ret (hd_ping h) = 0 then ping_echo tgt i p (hd_ping h) w
       else if pg_ret (hd_ping h) = 1 then ping_report shift i p h w
       else Inr w)"

definition Ping_recv :: "target \<Rightarrow> nat \<Rightarrow> nat \<Rightarrow> nat \<Rightarrow> world \<Rightarrow> world res" where
  "Ping_recv tgt shift i p w =
     rbind (get_pkt p w) (\<lambda>h.
       if is_broadcast (ip_daddr (hd_ip h)) then ping_recv_brdcast tgt i p (hd_ping h) w
       else if pg_ret (hd_ping h) = 3 then
         rbind (ping_answer tgt i p (hd_ping h) w) (ping_recv_plain tgt shift i p)
       else if pg_ret (hd_ping h) = 4 then ping_store i p (hd_ping h) w
       else ping_recv_plain tgt shift i p w)"


subsection \<open>What a poll and its answer do\<close>

lemma upd_ping_owned [simp]:
  "owned (w_pool w) p \<Longrightarrow>
   upd_ping p f w = Inr (w\<lparr>w_pool := set_bits p (\<lambda>h. h\<lparr>hd_ping := f (hd_ping h)\<rparr>) (w_pool w)\<rparr>)"
  by (simp add: upd_ping_def)

lemma updateStats_owned [simp]:
  assumes "owned (w_pool w) p" and "nat (pg_link_num (hd_ping (bits_at (w_pool w) p))) < length (w_queues w)"
  shows "updateStats p w = Inr (w\<lparr>w_pool := set_bits p (\<lambda>h. h\<lparr>hd_ping :=
    read_queue (w_queues w ! nat (pg_link_num (hd_ping (bits_at (w_pool w) p)))) (hd_ping h)\<rparr>) (w_pool w)\<rparr>)"
  using assms by (simp add: updateStats_def walk_for_def)

lemma read_queue_frame [simp]:
  "pg_ret (read_queue q h) = pg_ret h" "pg_seq (read_queue q h) = pg_seq h"
  "pg_link_num (read_queue q h) = pg_link_num h" "pg_statDemanded (read_queue q h) = pg_statDemanded h"
  "pg_send_time (read_queue q h) = pg_send_time h" "pg_rcv_time (read_queue q h) = pg_rcv_time h"
  by (simp_all add: read_queue_def Let_def)

lemma initpkt_hdrs_simps [simp]:
  "hd_ping (initpkt_hdrs a u n h) = hd_ping h" "hd_raza (initpkt_hdrs a u n h) = hd_raza h"
  "ip_saddr (hd_ip (initpkt_hdrs a u n h)) = ag_here_addr a"
  "ip_sport (hd_ip (initpkt_hdrs a u n h)) = ag_here_port a"
  "ip_daddr (hd_ip (initpkt_hdrs a u n h)) = ag_dst_addr a"
  "ip_dport (hd_ip (initpkt_hdrs a u n h)) = ag_dst_port a"
  by (simp_all add: initpkt_hdrs_def)

lemma fresh_hdrs_simps [simp]:
  "hd_ping fresh_hdrs = zero_ping" "hd_raza fresh_hdrs = zero_raza" "hd_ip fresh_hdrs = zero_ip"
  by (simp_all add: fresh_hdrs_def zero_hdrs_def)

lemma zero_ping_simps [simp]:
  "pg_ret zero_ping = 0" "pg_link_num zero_ping = 0" "pg_statDemanded zero_ping = 0"
  by (simp_all add: zero_ping_def)

text \<open>The header of the answer to a poll with header \<open>h\<close>, from queue \<open>q\<close>, at time \<open>now\<close>.\<close>

definition ping_reply :: "hdr_ping \<Rightarrow> gqueue \<Rightarrow> real \<Rightarrow> hdr_ping" where
  "ping_reply h q now =
     (read_queue q (zero_ping\<lparr>pg_ret := 4, pg_link_num := pg_link_num h,
                     pg_statDemanded := pg_statDemanded h\<rparr>))
     \<lparr>pg_send_time := pg_send_time h, pg_rcv_time := now, pg_seq := pg_seq h\<rparr>"

lemma ping_reply_simps [simp]:
  "pg_ret (ping_reply h q now) = 4" "pg_link_num (ping_reply h q now) = pg_link_num h"
  "pg_statDemanded (ping_reply h q now) = pg_statDemanded h" "pg_seq (ping_reply h q now) = pg_seq h"
  "pg_send_time (ping_reply h q now) = pg_send_time h" "pg_rcv_time (ping_reply h q now) = now"
  by (simp_all add: ping_reply_def)

lemma ping_reply_numflows:
  "pg_statDemanded h = NUMFLOWS \<Longrightarrow> pg_no_flows (ping_reply h q now) = gq_numFlows q \<and>
     pg_utilization (ping_reply h q now) = gq_cur_util q \<and> pg_q_lim (ping_reply h q now) = real_of_int (gq_qlim q)"
  by (simp add: ping_reply_def read_queue_def Let_def)

lemma list_all2_same_agent_upd:
  "list_all2 same_agent (as[i := (as ! i)\<lparr>ag_seq := n\<rparr>]) as"
  by (cases "i < length as") (auto simp: list_all2_conv_all_nth nth_list_update list_update_beyond)

lemma Ping_send_c_net:
  assumes "pool_ok (w_pool w)"
  shows "\<exists>p po. Ping_send_c net_target i sd lN w = Inr (w\<lparr>w_uidcnt := w_uidcnt w + 1, w_pool := po,
      w_agents := (w_agents w)[i := (w_agents w ! i)\<lparr>ag_seq := ag_seq (w_agents w ! i) + 1\<rparr>],
      w_out := w_out w @ [(i, p)]\<rparr>) \<and> pool_ok po \<and> owned po p \<and> pool_keeps (w_pool w) po \<and>
    hd_ping (bits_at po p) = ping_request (ag_seq (w_agents w ! i)) (w_clock w) sd lN zero_ping \<and>
    ip_daddr (hd_ip (bits_at po p)) = ag_dst_addr (w_agents w ! i) \<and>
    ip_dport (hd_ip (bits_at po p)) = ag_dst_port (w_agents w ! i)"
proof -
  from allocpkt_ok [OF assms(1)] obtain p po where a: "allocpkt i w = Inr (p, init_world i w po p)"
    "pool_ok po" "owned po p" "bits_at po p = fresh_hdrs" "\<not> in_use (w_pool w) p"
    "pool_keeps (w_pool w) po" by blast
  let ?po = "set_bits p (\<lambda>h. h\<lparr>hd_ping := ping_request (ag_seq (w_agents w ! i)) (w_clock w) sd lN (hd_ping h)\<rparr>)
    (set_bits p (initpkt_hdrs (w_agents w ! i) (w_uidcnt w) (w_clock w)) po)"
  have "Ping_send_c net_target i sd lN w = Inr (w\<lparr>w_uidcnt := w_uidcnt w + 1, w_pool := ?po,
      w_agents := (w_agents w)[i := (w_agents w ! i)\<lparr>ag_seq := ag_seq (w_agents w ! i) + 1\<rparr>],
      w_out := w_out w @ [(i, p)]\<rparr>)"
    using a(1,3) by (simp add: Ping_send_c_def net_target_def upd_agent_def init_world_def)
  moreover have "pool_keeps (w_pool w) ?po"
    using a(5,6) by (intro pool_keeps_set_bits)
  ultimately show ?thesis
    using a by (intro exI [of _ p] exI [of _ ?po]) simp
qed

text \<open>What of a message the proofs about polling look at.\<close>

definition ping_msg :: "nat \<times> hdrs \<Rightarrow> nat \<times> int \<times> int \<times> int" where
  "ping_msg m = (fst m, pg_ret (hd_ping (snd m)), pg_link_num (hd_ping (snd m)),
     pg_statDemanded (hd_ping (snd m)))"

lemma Ping_send_c_msg:
  assumes "pool_ok (w_pool w)"
  shows "\<exists>w'. Ping_send_c net_target i sd lN w = Inr w' \<and> net_ext w w' \<and>
    map ping_msg (new_msgs w w') = [(i, 3, lN, sd)]"
proof -
  from Ping_send_c_net [OF assms, of i sd lN] obtain p po w' where s:
    "Ping_send_c net_target i sd lN w = Inr w'"
    "w' = w\<lparr>w_uidcnt := w_uidcnt w + 1, w_pool := po,
      w_agents := (w_agents w)[i := (w_agents w ! i)\<lparr>ag_seq := ag_seq (w_agents w ! i) + 1\<rparr>],
      w_out := w_out w @ [(i, p)]\<rparr>" "pool_ok po" "owned po p" "pool_keeps (w_pool w) po"
    "hd_ping (bits_at po p) = ping_request (ag_seq (w_agents w ! i)) (w_clock w) sd lN zero_ping" by blast
  have "net_ext w w' \<and> new_msgs w w' = [(i, bits_at po p)]"
    by (rule net_ext_one [OF s(3) _ s(5) list_all2_same_agent_upd s(2)]) (use s(4) in \<open>simp add: owned_def\<close>)
  with s(1,6) show ?thesis by (auto simp: ping_msg_def ping_request_def)
qed

lemma ping_answer_net:
  assumes "pool_ok (w_pool w)" and "owned (w_pool w) p" and "nat (pg_link_num h) < length (w_queues w)"
  shows "\<exists>po. ping_answer net_target i p h w = Inr (w\<lparr>w_uidcnt := w_uidcnt w + 1, w_pool := po,
      w_out := w_out w @ [(i, p)]\<rparr>) \<and> pool_ok po \<and> owned po p \<and>
    hd_ping (bits_at po p) = ping_reply h (w_queues w ! nat (pg_link_num h)) (w_clock w) \<and>
    ip_daddr (hd_ip (bits_at po p)) = ag_dst_addr (w_agents w ! i) \<and>
    ip_dport (hd_ip (bits_at po p)) = ag_dst_port (w_agents w ! i)"
  using assms
  by (simp add: ping_answer_def net_target_def init_world_def ping_reply_def)
    (rule exI, rule conjI, rule refl, simp)

lemma Ping_recv_request_net:
  assumes "pool_ok (w_pool w)" and "owned (w_pool w) p" and "hd_ping (bits_at (w_pool w) p) = h"
    and "\<not> is_broadcast (ip_daddr (hd_ip (bits_at (w_pool w) p)))" and "pg_ret h = 3"
    and "nat (pg_link_num h) < length (w_queues w)"
  shows "\<exists>po. Ping_recv net_target shift i p w = Inr (w\<lparr>w_uidcnt := w_uidcnt w + 1, w_pool := po,
      w_out := w_out w @ [(i, p)]\<rparr>) \<and> pool_ok po \<and> owned po p \<and>
    hd_ping (bits_at po p) = ping_reply h (w_queues w ! nat (pg_link_num h)) (w_clock w) \<and>
    ip_daddr (hd_ip (bits_at po p)) = ag_dst_addr (w_agents w ! i) \<and>
    ip_dport (hd_ip (bits_at po p)) = ag_dst_port (w_agents w ! i)"
proof -
  from ping_answer_net [OF assms(1,2,6)] obtain po where po:
    "ping_answer net_target i p h w = Inr (w\<lparr>w_uidcnt := w_uidcnt w + 1, w_pool := po,
      w_out := w_out w @ [(i, p)]\<rparr>)" "pool_ok po" "owned po p"
    "hd_ping (bits_at po p) = ping_reply h (w_queues w ! nat (pg_link_num h)) (w_clock w)"
    "ip_daddr (hd_ip (bits_at po p)) = ag_dst_addr (w_agents w ! i)"
    "ip_dport (hd_ip (bits_at po p)) = ag_dst_port (w_agents w ! i)" by blast
  then show ?thesis
    using assms by (intro exI [of _ po]) (simp add: Ping_recv_def ping_recv_plain_def)
qed

lemma Ping_recv_reply:
  assumes "owned (w_pool w) p" and "hd_ping (bits_at (w_pool w) p) = h"
    and "\<not> is_broadcast (ip_daddr (hd_ip (bits_at (w_pool w) p)))" and "pg_ret h = 4"
    and "pg_statDemanded h = NUMFLOWS"
    and "get_node_by_address (w_nodes w) (ag_here_addr (w_agents w ! i)) = Some k"
    and "0 \<le> pg_link_num h" and "pg_link_num h < int (length (nd_topo_links (w_nodes w ! k)))"
  shows "Ping_recv tgt shift i p w = Inr (upd_node k (\<lambda>n. n\<lparr>nd_topo_links := (nd_topo_links n)
      [nat (pg_link_num h) := (nd_topo_links n ! nat (pg_link_num h))\<lparr>tl_stats :=
        setStats_Num (pg_utilization h) (pg_q_lim h) (pg_no_flows h)
          (tl_stats (nd_topo_links n ! nat (pg_link_num h)))\<rparr>]\<rparr>) (w\<lparr>w_pool := release p (w_pool w)\<rparr>))"
  using assms
  by (simp add: Ping_recv_def ping_store_def the_node_def store_stats_def vec_upd_def upd_node_def)

end
