(* ===== verification/EndhostNode.thy ===== *)
theory EndhostNode
  imports PingAgent
begin

section \<open>The endhost node: polling its links and forwarding what it learnt\<close>

text \<open>
  \<open>Node\<close> of common/node.cc as a controller. \<open>expire\<close> runs every \<open>POLL_RATE\<close>:
  \<open>fetch_stats\<close> polls every link this node watches for somebody, by the ping agent at
  this node whose peer is the switch the link starts at; \<open>send_stats\<close> forwards the
  stored statistics to everybody who asked, by the raza agent whose peer is that host. The
  agents are found by counting: the script creates first \<open>n * n\<close> ping agents, row by
  row, and then \<open>n * n\<close> raza agents, behind the one agent the simulator owns.
\<close>

subsection \<open>\<open>send_c\<close> of the two kinds of agents\<close>

text \<open>\<open>RazaAgent::send_c(sd, lN, status)\<close> of apps/raza.cc.\<close>

definition raza_message :: "int \<Rightarrow> real \<Rightarrow> int \<Rightarrow> int \<Rightarrow> int \<Rightarrow> topo_stats option \<Rightarrow> hdr_raza \<Rightarrow> hdr_raza" where
  "raza_message sq now sd lN status st h =
     (let h = h\<lparr>rz_start := status, rz_ret := status, rz_seq := sq, rz_link_num := lN,
                rz_statDemanded := sd, rz_send_time := now\<rparr>
      in case st of
        Some s \<Rightarrow> h\<lparr>rz_utilization := st_utilization s, rz_q_lim := st_q_lim s,
                    rz_no_flows := st_no_flows s, rz_q_len := st_q_size s\<rparr>
      | None \<Rightarrow> h\<lparr>rz_utilization := -1, rz_q_lim := -1, rz_no_flows := -1, rz_q_len := -1\<rparr>)"

definition Raza_send_c :: "target \<Rightarrow> nat \<Rightarrow> int \<Rightarrow> int \<Rightarrow> int \<Rightarrow> world \<Rightarrow> world res" where
  "Raza_send_c tgt i sd lN status w =
     rbind (allocpkt i w) (\<lambda>(p, w1).
       rbind (if status = 2
              then rbind (the_node w1 (ag_here_addr (w_agents w1 ! i))) (\<lambda>k.
                     rbind (vec_get (nd_topo_links (w_nodes w1 ! k)) lN) (\<lambda>l. Inr (Some (tl_stats l))))
              else Inr None) (\<lambda>st.
       rbind (upd_raza p (raza_message (ag_seq (w_agents w1 ! i)) (w_clock w1) sd lN status st) w1) (\<lambda>w2.
         tgt i p (upd_agent i (\<lambda>a. a\<lparr>ag_seq := ag_seq a + 1\<rparr>) w2))))"

text \<open>
  The virtual calls \<open>agent->send_c(...)\<close>: a ping agent overrides the form with two
  arguments and a raza agent the form with three; on any other agent the base class only
  prints a complaint.
\<close>

definition send_c2 :: "target \<Rightarrow> nat \<Rightarrow> int \<Rightarrow> int \<Rightarrow> world \<Rightarrow> world res" where
  "send_c2 tgt i sd lN w =
     (if ag_kind (w_agents w ! i) = Ping_Agent then Ping_send_c tgt i sd lN w else Inr w)"

definition send_c3 :: "target \<Rightarrow> nat \<Rightarrow> int \<Rightarrow> int \<Rightarrow> int \<Rightarrow> world \<Rightarrow> world res" where
  "send_c3 tgt i sd lN status w =
     (if ag_kind (w_agents w ! i) = Raza_Agent then Raza_send_c tgt i sd lN status w else Inr w)"

subsection \<open>The operations of the node\<close>

text \<open>
  The operations run on the node at position \<open>n\<close> of the list (\<open>this\<close>); \<open>me\<close> is the
  node found under its address.
\<close>

definition poll_link :: "target \<Rightarrow> nat \<Rightarrow> int \<Rightarrow> int \<Rightarrow> world \<Rightarrow> world res" where
  "poll_link tgt n link_num start w =
     (let my_num = nd_address (w_nodes w ! n) in
      rbind (the_node w my_num) (\<lambda>me.
        let agent_num = my_num * int (length (nd_topo_nodes (w_nodes w ! me))) + start in
        rbind (agent_at w agent_num) (\<lambda>i. send_c2 tgt i 2 link_num w)))"

definition send_link :: "target \<Rightarrow> nat \<Rightarrow> int \<Rightarrow> int \<Rightarrow> world \<Rightarrow> world res" where
  "send_link tgt n link_num nd w =
     (let my_num = nd_address (w_nodes w ! n) in
      rbind (the_node w my_num) (\<lambda>me.
        let size = int (length (nd_topo_nodes (w_nodes w ! me)));
            agent_num = size * size + my_num * size + nd in
        rbind (agent_at w agent_num) (\<lambda>i. send_c3 tgt i 2 link_num 2 w)))"

text \<open>
  The links a node watches: entry \<open>my_num\<close> of its table, taken by position. The loops
  run over the entries as they stand when the operation starts; nothing they call changes
  a count.
\<close>

definition my_fixed_links :: "node \<Rightarrow> fixed_links list res" where
  "my_fixed_links n =
     rbind (vec_get (nd_fixed_mappings n) (nd_address n)) (\<lambda>fm. Inr (fm_fixed_links fm))"

definition fetch_stats :: "target \<Rightarrow> nat \<Rightarrow> world \<Rightarrow> world res" where
  "fetch_stats tgt n w =
     rbind (my_fixed_links (w_nodes w ! n)) (\<lambda>fls.
       rfold (\<lambda>fl w.
         if list_ex (\<lambda>nc. nc_count nc > 0) (fl_node_count fl)
         then rbind (the_node w (nd_address (w_nodes w ! n))) (\<lambda>me.
                rbind (vec_get (nd_topo_links (w_nodes w ! me)) (fl_link_num fl)) (\<lambda>l.
                  poll_link tgt n (fl_link_num fl) (tl_n_start l) w))
         else Inr w) fls w)"

definition send_stats :: "target \<Rightarrow> nat \<Rightarrow> world \<Rightarrow> world res" where
  "send_stats tgt n w =
     rbind (my_fixed_links (w_nodes w ! n)) (\<lambda>fls.
       rfold (\<lambda>fl w.
         rfold (\<lambda>nc w. if nc_count nc > 0 then send_link tgt n (fl_link_num fl) (nc_node nc) w else Inr w)
           (fl_node_count fl) w) fls w)"

text \<open>\<open>Node::expire\<close>: poll, forward, and run again after \<open>POLL_RATE\<close>.\<close>

definition node_expire :: "target \<Rightarrow> nat \<Rightarrow> world \<Rightarrow> world res" where
  "node_expire tgt n w =
     rbind (fetch_stats tgt n w) (\<lambda>w1.
       rbind (send_stats tgt n w1) (\<lambda>w2. Inr (w2\<lparr>w_resched := w_resched w2 @ [n]\<rparr>)))"

text \<open>\<open>Node::addNeighbor\<close> puts the neighbour's id at the head of the list.\<close>

definition addNeighbor :: "nat \<Rightarrow> nat \<Rightarrow> world \<Rightarrow> world" where
  "addNeighbor n m w =
     upd_node n (\<lambda>x. x\<lparr>nd_neighbor_list := nd_nodeid (w_nodes w ! m) # nd_neighbor_list x\<rparr>) w"

subsection \<open>Which agent is addressed\<close>

text \<open>
  The script numbers the agents of \<open>n\<close> nodes: ping agent \<open>a * n + b\<close> sits at node
  \<open>a\<close> and talks to node \<open>b\<close>, and raza agent \<open>n * n + a * n + b\<close> likewise.
\<close>

definition agent_table :: "nat \<Rightarrow> agent list \<Rightarrow> bool" where
  "agent_table n as \<longleftrightarrow> length as \<ge> 1 + 2 * n * n \<and>
     (\<forall>a < n. \<forall>b < n.
        (let g = as ! Suc (a * n + b) in
           ag_kind g = Ping_Agent \<and> ag_here_addr g = int a \<and> ag_dst_addr g = int b) \<and>
        (let g = as ! Suc (n * n + a * n + b) in
           ag_kind g = Raza_Agent \<and> ag_here_addr g = int a \<and> ag_dst_addr g = int b))"

lemma agent_index_bound: "(a::nat) < n \<Longrightarrow> b < n \<Longrightarrow> a * n + b < n * n"
proof -
  assume "a < n" and b: "b < n"
  then have "Suc a * n \<le> n * n" by (intro mult_le_mono1) simp
  with b show ?thesis by simp
qed

lemma agent_at_ping:
  assumes "agent_table n (w_agents w)" and "a < n" and "b < n"
  shows "agent_at w (int a * int n + int b) = Inr (Suc (a * n + b))"
proof -
  have "int a * int n + int b = int (a * n + b)" by simp
  moreover have "Suc (a * n + b) < length (w_agents w)"
    using agent_index_bound [OF assms(2,3)] assms(1) by (simp add: agent_table_def)
  ultimately show ?thesis by (simp only: agent_at_def nat_int if_True)
qed

lemma agent_at_raza:
  assumes "agent_table n (w_agents w)" and "a < n" and "b < n"
  shows "agent_at w (int n * int n + int a * int n + int b) = Inr (Suc (n * n + a * n + b))"
proof -
  have "int n * int n + int a * int n + int b = int (n * n + a * n + b)" by simp
  moreover have "Suc (n * n + a * n + b) < length (w_agents w)"
    using agent_index_bound [OF assms(2,3)] assms(1) by (simp add: agent_table_def)
  ultimately show ?thesis by (simp only: agent_at_def nat_int if_True)
qed

subsection \<open>What a node sends\<close>

definition raza_msg :: "nat \<times> hdrs \<Rightarrow> nat \<times> int \<times> int \<times> int" where
  "raza_msg m = (fst m, rz_start (hd_raza (snd m)), rz_link_num (hd_raza (snd m)),
     rz_no_flows (hd_raza (snd m)))"

lemma upd_raza_owned [simp]:
  "owned (w_pool w) p \<Longrightarrow>
   upd_raza p f w = Inr (w\<lparr>w_pool := set_bits p (\<lambda>h. h\<lparr>hd_raza := f (hd_raza h)\<rparr>) (w_pool w)\<rparr>)"
  by (simp add: upd_raza_def)

text \<open>The statistics a raza message with that status carries.\<close>

definition raza_flows :: "int \<Rightarrow> topo_link \<Rightarrow> int" where
  "raza_flows status l = (if status = 2 then st_no_flows (tl_stats l) else -1)"

lemma Raza_send_c_msg:
  assumes "pool_ok (w_pool w)"
    and "status = 2 \<longrightarrow> get_node_by_address (w_nodes w) (ag_here_addr (w_agents w ! i)) = Some k \<and>
           vec_get (nd_topo_links (w_nodes w ! k)) lN = Inr l"
  shows "\<exists>w'. Raza_send_c net_target i sd lN status w = Inr w' \<and> net_ext w w' \<and>
    map raza_msg (new_msgs w w') = [(i, status, lN, raza_flows status l)]"
proof -
  from allocpkt_ok [OF assms(1)] obtain p po where a: "allocpkt i w = Inr (p, init_world i w po p)"
    "pool_ok po" "owned po p" "bits_at po p = fresh_hdrs" "\<not> in_use (w_pool w) p"
    "pool_keeps (w_pool w) po" by blast
  define st where "st = (if status = 2 then Some (tl_stats l) else None)"
  define po' where "po' = set_bits p (\<lambda>h. h\<lparr>hd_raza := raza_message (ag_seq (w_agents w ! i)) (w_clock w)
      sd lN status st (hd_raza h)\<rparr>) (set_bits p (initpkt_hdrs (w_agents w ! i) (w_uidcnt w) (w_clock w)) po)"
  define w' where "w' = w\<lparr>w_uidcnt := w_uidcnt w + 1, w_pool := po',
      w_agents := (w_agents w)[i := (w_agents w ! i)\<lparr>ag_seq := ag_seq (w_agents w ! i) + 1\<rparr>],
      w_out := w_out w @ [(i, p)]\<rparr>"
  have run: "Raza_send_c net_target i sd lN status w = Inr w'"
    using a(1,3) assms(2)
    by (simp add: Raza_send_c_def net_target_def upd_agent_def init_world_def the_node_def
        st_def po'_def w'_def)
  have "pool_ok po'" "owned po' p" "pool_keeps (w_pool w) po'"
    using a by (simp_all add: po'_def pool_keeps_set_bits)
  then have "net_ext w w' \<and> new_msgs w w' = [(i, bits_at po' p)]"
    by (intro net_ext_one [OF _ _ _ list_all2_same_agent_upd w'_def]) (simp_all add: owned_def)
  moreover have "raza_msg (i, bits_at po' p) = (i, status, lN, raza_flows status l)"
    using a by (simp add: po'_def raza_msg_def raza_message_def raza_flows_def st_def Let_def)
  ultimately show ?thesis using run by auto
qed

text \<open>
  A node in place: it is the node found under its own address, the topology has as many
  nodes as the agent table has rows, and every link it watches is in its topology at its own
  number and starts at one of the nodes.
\<close>

definition node_in_place :: "nat \<Rightarrow> nat \<Rightarrow> world \<Rightarrow> bool" where
  "node_in_place N n w \<longleftrightarrow>
     get_node_by_address (w_nodes w) (nd_address (w_nodes w ! n)) = Some n \<and>
     0 \<le> nd_address (w_nodes w ! n) \<and> nat (nd_address (w_nodes w ! n)) < N \<and>
     length (nd_topo_nodes (w_nodes w ! n)) = N \<and>
     agent_table N (w_agents w)"

definition links_in_place :: "nat \<Rightarrow> node \<Rightarrow> fixed_links list \<Rightarrow> bool" where
  "links_in_place N nd fls \<longleftrightarrow> (\<forall>fl \<in> set fls. \<exists>l. vec_get (nd_topo_links nd) (fl_link_num fl) = Inr l \<and>
     0 \<le> tl_n_start l \<and> nat (tl_n_start l) < N)"

lemma agent_table_ping:
  assumes "agent_table N as" and "a < N" and "b < N"
  shows "ag_kind (as ! Suc (a * N + b)) = Ping_Agent \<and> Suc (a * N + b) < length as \<and>
    ag_here_addr (as ! Suc (a * N + b)) = int a \<and> ag_dst_addr (as ! Suc (a * N + b)) = int b"
proof -
  have "Suc (a * N + b) < length as"
    using agent_index_bound [OF assms(2,3)] assms(1) by (simp add: agent_table_def)
  then show ?thesis using assms unfolding agent_table_def Let_def by blast
qed

lemma agent_table_raza:
  assumes "agent_table N as" and "a < N" and "b < N"
  shows "ag_kind (as ! Suc (N * N + a * N + b)) = Raza_Agent \<and>
    ag_here_addr (as ! Suc (N * N + a * N + b)) = int a \<and> Suc (N * N + a * N + b) < length as \<and>
    ag_dst_addr (as ! Suc (N * N + a * N + b)) = int b"
proof -
  have "Suc (N * N + a * N + b) < length as"
    using agent_index_bound [OF assms(2,3)] assms(1) by (simp add: agent_table_def)
  then show ?thesis using assms unfolding agent_table_def Let_def by blast
qed

lemma poll_link_msg:
  assumes "pool_ok (w_pool w0)" and "node_in_place N n w0" and ext: "net_ext w0 w"
    and b: "0 \<le> b" "nat b < N"
  shows "\<exists>w'. poll_link net_target n lN b w = Inr w' \<and> net_ext w w' \<and>
    map ping_msg (new_msgs w w') = [(Suc (nat (nd_address (w_nodes w0 ! n)) * N + nat b), 3, lN, 2)]"
proof -
  define a where "a = nat (nd_address (w_nodes w0 ! n))"
  have tab: "agent_table N (w_agents w0)" and a: "a < N" "nd_address (w_nodes w0 ! n) = int a"
    and me: "get_node_by_address (w_nodes w0) (int a) = Some n"
    and len: "length (nd_topo_nodes (w_nodes w0 ! n)) = N"
    using assms(2) by (simp_all add: node_in_place_def a_def)
  from agent_table_ping [OF tab a(1) b(2)]
  have i: "Suc (a * N + nat b) < length (w_agents w0)"
    "ag_kind (w_agents w0 ! Suc (a * N + nat b)) = Ping_Agent" by simp_all
  then have "Suc (a * N + nat b) < length (w_agents w)"
    "ag_kind (w_agents w ! Suc (a * N + nat b)) = Ping_Agent"
    using net_ext_length [OF ext] same_agentD [OF net_ext_agent [OF ext i(1)]] by simp_all
  moreover have "nat (int a * int N + b) = a * N + nat b"
    using b by (simp add: nat_add_distrib nat_mult_distrib)
  ultimately have "poll_link net_target n lN b w = Ping_send_c net_target (Suc (a * N + nat b)) 2 lN w"
    using a me len net_ext_node [OF ext] by (simp add: poll_link_def the_node_def Let_def agent_at_def send_c2_def)
  then show ?thesis
    using Ping_send_c_msg [OF net_ext_pool [OF ext], of "Suc (a * N + nat b)" 2 lN] by (simp add: a_def)
qed

lemma send_link_msg:
  assumes "pool_ok (w_pool w0)" and "node_in_place N n w0" and ext: "net_ext w0 w"
    and b: "0 \<le> b" "nat b < N" and l: "vec_get (nd_topo_links (w_nodes w0 ! n)) lN = Inr l"
  shows "\<exists>w'. send_link net_target n lN b w = Inr w' \<and> net_ext w w' \<and>
    map raza_msg (new_msgs w w') = [(Suc (N * N + nat (nd_address (w_nodes w0 ! n)) * N + nat b), 2, lN,
      st_no_flows (tl_stats l))]"
proof -
  define a where "a = nat (nd_address (w_nodes w0 ! n))"
  have tab: "agent_table N (w_agents w0)" and a: "a < N" "nd_address (w_nodes w0 ! n) = int a"
    and me: "get_node_by_address (w_nodes w0) (int a) = Some n"
    and len: "length (nd_topo_nodes (w_nodes w0 ! n)) = N"
    using assms(2) by (simp_all add: node_in_place_def a_def)
  let ?i = "Suc (N * N + a * N + nat b)"
  from agent_table_raza [OF tab a(1) b(2)]
  have i: "?i < length (w_agents w0)" "ag_kind (w_agents w0 ! ?i) = Raza_Agent"
    "ag_here_addr (w_agents w0 ! ?i) = int a" by simp_all
  then have i': "?i < length (w_agents w)" "ag_kind (w_agents w ! ?i) = Raza_Agent"
    "ag_here_addr (w_agents w ! ?i) = int a"
    using net_ext_length [OF ext] same_agentD [OF net_ext_agent [OF ext i(1)]] by simp_all
  moreover have "nat (int N * int N + int a * int N + b) = N * N + a * N + nat b"
    using b by (simp add: nat_add_distrib nat_mult_distrib)
  ultimately have "send_link net_target n lN b w = Raza_send_c net_target ?i 2 lN 2 w"
    using a me len net_ext_node [OF ext] by (simp add: send_link_def the_node_def Let_def agent_at_def send_c3_def)
  moreover have "get_node_by_address (w_nodes w) (ag_here_addr (w_agents w ! ?i)) = Some n"
    "vec_get (nd_topo_links (w_nodes w ! n)) lN = Inr l"
    using i' me l net_ext_node [OF ext] by simp_all
  ultimately show ?thesis
    using Raza_send_c_msg [OF net_ext_pool [OF ext], of 2 ?i n lN l 2] by (simp add: a_def raza_flows_def)
qed

subsection \<open>One round of the node\<close>

text \<open>What a node should send, read off its table: one poll per link somebody wants \<dots>\<close>

definition wanted :: "fixed_links \<Rightarrow> bool" where
  "wanted fl \<longleftrightarrow> list_ex (\<lambda>nc. nc_count nc > 0) (fl_node_count fl)"

definition link_at :: "node \<Rightarrow> int \<Rightarrow> topo_link" where
  "link_at nd l = nd_topo_links nd ! nat l"

definition polls_due :: "nat \<Rightarrow> node \<Rightarrow> fixed_links list \<Rightarrow> (nat \<times> int \<times> int \<times> int) list" where
  "polls_due N nd fls =
     map (\<lambda>fl. (Suc (nat (nd_address nd) * N + nat (tl_n_start (link_at nd (fl_link_num fl)))), 3,
             fl_link_num fl, 2)) (filter wanted fls)"

text \<open>\<dots> and one report per link and node that wants it.\<close>

definition reports_due :: "nat \<Rightarrow> node \<Rightarrow> fixed_links list \<Rightarrow> (nat \<times> int \<times> int \<times> int) list" where
  "reports_due N nd fls =
     concat (map (\<lambda>fl. map (\<lambda>nc. (Suc (N * N + nat (nd_address nd) * N + nat (nc_node nc)), 2, fl_link_num fl,
                              st_no_flows (tl_stats (link_at nd (fl_link_num fl)))))
                      (filter (\<lambda>nc. nc_count nc > 0) (fl_node_count fl))) fls)"

definition subscribers_in_place :: "nat \<Rightarrow> fixed_links list \<Rightarrow> bool" where
  "subscribers_in_place N fls \<longleftrightarrow>
     (\<forall>fl \<in> set fls. \<forall>nc \<in> set (fl_node_count fl). 0 \<le> nc_node nc \<and> nat (nc_node nc) < N)"

lemma links_in_placeD:
  assumes "links_in_place N nd fls" and "fl \<in> set fls"
  shows "vec_get (nd_topo_links nd) (fl_link_num fl) = Inr (link_at nd (fl_link_num fl))"
    and "0 \<le> tl_n_start (link_at nd (fl_link_num fl))"
    and "nat (tl_n_start (link_at nd (fl_link_num fl))) < N"
proof -
  from assms obtain l where "vec_get (nd_topo_links nd) (fl_link_num fl) = Inr l" "0 \<le> tl_n_start l"
    "nat (tl_n_start l) < N" by (auto simp: links_in_place_def)
  then show "vec_get (nd_topo_links nd) (fl_link_num fl) = Inr (link_at nd (fl_link_num fl))"
    "0 \<le> tl_n_start (link_at nd (fl_link_num fl))"
    "nat (tl_n_start (link_at nd (fl_link_num fl))) < N"
    by (simp_all add: link_at_def vec_get_Inr)
qed

lemma concat_map_singleton_filter:
  "concat (map (\<lambda>x. if P x then [f x] else []) xs) = map f (filter P xs)"
  by (induction xs) auto

lemma fetch_stats_msgs:
  assumes ok: "pool_ok (w_pool w)" and pl: "node_in_place N n w"
    and fls: "my_fixed_links (w_nodes w ! n) = Inr fls" and lk: "links_in_place N (w_nodes w ! n) fls"
  shows "\<exists>w'. fetch_stats net_target n w = Inr w' \<and> net_ext w w' \<and>
    map ping_msg (new_msgs w w') = polls_due N (w_nodes w ! n) fls"
proof -
  let ?nd = "w_nodes w ! n"
  let ?m = "\<lambda>fl. (Suc (nat (nd_address ?nd) * N + nat (tl_n_start (link_at ?nd (fl_link_num fl)))), 3::int,
             fl_link_num fl, 2::int)"
  have me: "get_node_by_address (w_nodes w) (nd_address ?nd) = Some n"
    using pl by (simp add: node_in_place_def)
  have "\<exists>w'. rfold (\<lambda>fl w.
         if list_ex (\<lambda>nc. nc_count nc > 0) (fl_node_count fl)
         then rbind (the_node w (nd_address (w_nodes w ! n))) (\<lambda>me.
                rbind (vec_get (nd_topo_links (w_nodes w ! me)) (fl_link_num fl)) (\<lambda>l.
                  poll_link net_target n (fl_link_num fl) (tl_n_start l) w))
         else Inr w) fls w = Inr w' \<and> net_ext w w' \<and>
      map ping_msg (new_msgs w w') = concat (map (\<lambda>fl. if wanted fl then [?m fl] else []) fls)"
  proof (rule rfold_net [OF ok], goal_cases)
    case (1 fl w1)
    show ?case
    proof (cases "wanted fl")
      case True
      note l = links_in_placeD [OF lk 1(1)]
      from poll_link_msg [OF ok pl 1(2) l(2,3), of "fl_link_num fl"] True l(1) me net_ext_node [OF 1(2)]
      show ?thesis by (simp add: the_node_def wanted_def)
    next
      case False
      then show ?thesis using net_ext_refl [OF net_ext_pool [OF 1(2)]] by (auto simp: wanted_def)
    qed
  qed
  then show ?thesis
    using fls by (simp add: fetch_stats_def polls_due_def concat_map_singleton_filter)
qed

lemma send_stats_msgs:
  assumes ok: "pool_ok (w_pool w)" and pl: "node_in_place N n w"
    and fls: "my_fixed_links (w_nodes w ! n) = Inr fls" and lk: "links_in_place N (w_nodes w ! n) fls"
    and sb: "subscribers_in_place N fls"
  shows "\<exists>w'. send_stats net_target n w = Inr w' \<and> net_ext w w' \<and>
    map raza_msg (new_msgs w w') = reports_due N (w_nodes w ! n) fls"
proof -
  let ?nd = "w_nodes w ! n"
  let ?m = "\<lambda>fl nc. (Suc (N * N + nat (nd_address ?nd) * N + nat (nc_node nc)), 2::int, fl_link_num fl,
                              st_no_flows (tl_stats (link_at ?nd (fl_link_num fl))))"
  have "\<exists>w'. rfold (\<lambda>fl w.
         rfold (\<lambda>nc w. if nc_count nc > 0 then send_link net_target n (fl_link_num fl) (nc_node nc) w else Inr w)
           (fl_node_count fl) w) fls w = Inr w' \<and> net_ext w w' \<and>
      map raza_msg (new_msgs w w') =
        concat (map (\<lambda>fl. concat (map (\<lambda>nc. if nc_count nc > 0 then [?m fl nc] else []) (fl_node_count fl))) fls)"
  proof (rule rfold_net [OF ok], rule rfold_net, goal_cases)
    case (1 fl w1)
    show ?case by (rule net_ext_pool [OF 1(2)])
  next
    case (2 fl w1 nc w2)
    note ext = net_ext_trans(1) [OF 2(2,4)]
    show ?case
    proof (cases "nc_count nc > 0")
      case True
      from sb 2(1,3) have "0 \<le> nc_node nc" "nat (nc_node nc) < N" by (auto simp: subscribers_in_place_def)
      from send_link_msg [OF ok pl ext this links_in_placeD(1) [OF lk 2(1)]] True
      show ?thesis by simp
    next
      case False
      then show ?thesis using net_ext_refl [OF net_ext_pool [OF ext]] by auto
    qed
  qed
  then show ?thesis
    using fls by (simp add: send_stats_def reports_due_def concat_map_singleton_filter)
qed

lemma node_in_place_ext:
  assumes "node_in_place N n w" and "net_ext w w'"
  shows "node_in_place N n w'"
proof -
  have "agent_table N (w_agents w')"
    unfolding agent_table_def Let_def
  proof (intro conjI allI impI)
    show "1 + 2 * N * N \<le> length (w_agents w')"
      using assms net_ext_length [OF assms(2)] by (simp add: node_in_place_def agent_table_def)
  next
    fix a b
    assume ab: "a < N" "b < N"
    have t: "agent_table N (w_agents w)" using assms(1) by (simp add: node_in_place_def)
    from agent_table_ping [OF t ab] agent_table_raza [OF t ab] have
      "same_agent (w_agents w' ! Suc (a * N + b)) (w_agents w ! Suc (a * N + b))"
      "same_agent (w_agents w' ! Suc (N * N + a * N + b)) (w_agents w ! Suc (N * N + a * N + b))"
      using net_ext_agent [OF assms(2)] by blast+
    note this [THEN same_agentD]
    with agent_table_ping [OF t ab] agent_table_raza [OF t ab] show "ag_kind (w_agents w' ! Suc (a * N + b)) = Ping_Agent"
      "ag_here_addr (w_agents w' ! Suc (a * N + b)) = int a"
      "ag_dst_addr (w_agents w' ! Suc (a * N + b)) = int b"
      "ag_kind (w_agents w' ! Suc (N * N + a * N + b)) = Raza_Agent"
      "ag_here_addr (w_agents w' ! Suc (N * N + a * N + b)) = int a"
      "ag_dst_addr (w_agents w' ! Suc (N * N + a * N + b)) = int b"
      by simp_all
  qed
  then show ?thesis using assms(1) net_ext_node [OF assms(2)] by (simp add: node_in_place_def)
qed

lemma node_expire_net:
  assumes "pool_ok (w_pool w)" and "node_in_place N n w"
    and "my_fixed_links (w_nodes w ! n) = Inr fls" and "links_in_place N (w_nodes w ! n) fls"
    and "subscribers_in_place N fls"
  shows "\<exists>w2. node_expire net_target n w = Inr (w2\<lparr>w_resched := w_resched w @ [n]\<rparr>) \<and> net_ext w w2"
proof -
  from fetch_stats_msgs [OF assms(1-4)] obtain w1 where 1: "fetch_stats net_target n w = Inr w1"
    "net_ext w w1" by blast
  have "\<exists>w2. send_stats net_target n w1 = Inr w2 \<and> net_ext w1 w2 \<and>
    map raza_msg (new_msgs w1 w2) = reports_due N (w_nodes w1 ! n) fls"
    using assms(3-5) net_ext_node [OF 1(2)]
    by (intro send_stats_msgs net_ext_pool [OF 1(2)] node_in_place_ext [OF assms(2) 1(2)]) simp_all
  then obtain w2 where 2: "send_stats net_target n w1 = Inr w2" "net_ext w1 w2" by blast
  have "net_ext w w2" by (rule net_ext_trans(1) [OF 1(2) 2(2)])
  then show ?thesis
    using 1(1) 2(1) by (intro exI [of _ w2]) (simp add: node_expire_def net_ext_resched)
qed

text \<open>
  C1. One expiry of the node's timer. With the agents numbered as the script numbers them
  and the watched links in the topology, the node sends, in table order, exactly one poll
  per watched link that some node still wants, to the switch that link starts at, then
  exactly one report per link and wanting node, with the number of flows stored for that
  link; and it reschedules itself once.
\<close>

theorem node_expire_messages:
  assumes "pool_ok (w_pool w)" and "node_in_place N n w"
    and "my_fixed_links (w_nodes w ! n) = Inr fls" and "links_in_place N (w_nodes w ! n) fls"
    and "subscribers_in_place N fls"
  shows "\<exists>w1 w2. fetch_stats net_target n w = Inr w1 \<and> net_ext w w1 \<and>
    map ping_msg (new_msgs w w1) = polls_due N (w_nodes w ! n) fls \<and>
    net_ext w1 w2 \<and> map raza_msg (new_msgs w1 w2) = reports_due N (w_nodes w ! n) fls \<and>
    node_expire net_target n w = Inr (w2\<lparr>w_resched := w_resched w @ [n]\<rparr>)"
proof -
  from fetch_stats_msgs [OF assms(1-4)] obtain w1 where 1: "fetch_stats net_target n w = Inr w1"
    "net_ext w w1" "map ping_msg (new_msgs w w1) = polls_due N (w_nodes w ! n) fls" by blast
  have "\<exists>w2. send_stats net_target n w1 = Inr w2 \<and> net_ext w1 w2 \<and>
    map raza_msg (new_msgs w1 w2) = reports_due N (w_nodes w1 ! n) fls"
    using assms(3-5) net_ext_node [OF 1(2)]
    by (intro send_stats_msgs net_ext_pool [OF 1(2)] node_in_place_ext [OF assms(2) 1(2)]) simp_all
  then obtain w2 where "send_stats net_target n w1 = Inr w2" "net_ext w1 w2"
    "map raza_msg (new_msgs w1 w2) = reports_due N (w_nodes w ! n) fls"
    using net_ext_node [OF 1(2)] by auto
  moreover have "w_resched w2 = w_resched w"
    using net_ext_resched [OF 1(2)] net_ext_resched [OF \<open>net_ext w1 w2\<close>] by simp
  ultimately show ?thesis
    using 1 by (intro exI [of _ w1] exI [of _ w2]) (simp add: node_expire_def)
qed

text \<open>
  A network of two nodes joined by one link in each direction, with its agents in script
  order; node 0 watches link 0 for node 1.
\<close>

definition demo_agent :: "agent_kind \<Rightarrow> int \<Rightarrow> int \<Rightarrow> agent" where
  "demo_agent k a b = \<lparr>ag_kind = k, ag_here_addr = a, ag_here_port = 0, ag_dst_addr = b, ag_dst_port = 0,
     ag_size = 64, ag_type = 44, ag_fid = 0, ag_prio = 0, ag_defttl = 32, ag_seq = 0, ag_oneway = False\<rparr>"

definition demo_links :: "topo_link list" where
  "demo_links = [Topo_links 0 1 0 10, Topo_links 1 0 1 10]"

definition demo_fixed :: "fixed_links list" where
  "demo_fixed = [\<lparr>fl_link_num = 0, fl_node_count = [\<lparr>nc_node = 1, nc_count = 1\<rparr>]\<rparr>,
                 \<lparr>fl_link_num = 1, fl_node_count = [\<lparr>nc_node = 1, nc_count = 0\<rparr>]\<rparr>]"

definition demo_node :: "int \<Rightarrow> fixed_links list \<Rightarrow> node" where
  "demo_node a fls = \<lparr>nd_address = a, nd_nodeid = a, nd_poll_stat = 0, nd_topo_nodes = [0, 1],
     nd_topo_links = demo_links, nd_fixed_mappings = [\<lparr>fm_address = 0, fm_fixed_links = fls\<rparr>,
       \<lparr>fm_address = 1, fm_fixed_links = []\<rparr>], nd_num_flow = 0, nd_neighbor_list = []\<rparr>"

definition demo_world :: world where
  "demo_world = \<lparr>w_clock = 1, w_uidcnt = 0, w_pool = empty_pool,
     w_nodes = [demo_node 0 demo_fixed, demo_node 1 demo_fixed],
     w_agents = demo_agent Other_Agent 0 0 #
       [demo_agent Ping_Agent 0 0, demo_agent Ping_Agent 0 1, demo_agent Ping_Agent 1 0, demo_agent Ping_Agent 1 1,
        demo_agent Raza_Agent 0 0, demo_agent Raza_Agent 0 1, demo_agent Raza_Agent 1 0, demo_agent Raza_Agent 1 1],
     w_queues = [\<lparr>gq_cur_util = 1, gq_qlim = 50, gq_numFlows = 3, gq_byteLength = 1500\<rparr>,
                 \<lparr>gq_cur_util = 0, gq_qlim = 50, gq_numFlows = 0, gq_byteLength = 0\<rparr>],
     w_resched = [], w_tcl = [], w_out = []\<rparr>"

lemma all_less_2: "(\<forall>a < (2::nat). P a) \<longleftrightarrow> P 0 \<and> P 1"
  by (auto simp: less_2_cases_iff)

lemma demo_world_simps [simp]:
  "w_pool demo_world = empty_pool" "w_out demo_world = []" "w_resched demo_world = []"
  "w_nodes demo_world ! 0 = demo_node 0 demo_fixed" "length (w_nodes demo_world) = 2"
  "length (w_queues demo_world) = 2"
  by (simp_all add: demo_world_def)

lemma demo_node_in_place: "node_in_place 2 0 demo_world"
  by (simp add: node_in_place_def agent_table_def all_less_2 demo_world_def demo_node_def demo_agent_def
      Let_def)

theorem node_expire_messages_witness:
  "\<exists>w1 w2. fetch_stats net_target 0 demo_world = Inr w1 \<and>
     map ping_msg (new_msgs demo_world w1) = [(Suc 0, 3, 0, 2)] \<and>
     map raza_msg (new_msgs w1 w2) = [(Suc 5, 2, 0, 0)] \<and>
     node_expire net_target 0 demo_world = Inr (w2\<lparr>w_resched := [0]\<rparr>)"
proof -
  have fls: "my_fixed_links (w_nodes demo_world ! 0) = Inr demo_fixed"
    by (simp add: my_fixed_links_def demo_node_def vec_get_def)
  have lk: "links_in_place 2 (w_nodes demo_world ! 0) demo_fixed"
    by (simp add: links_in_place_def demo_fixed_def demo_node_def demo_links_def vec_get_def Topo_links_def)
  have sb: "subscribers_in_place 2 demo_fixed"
    by (simp add: subscribers_in_place_def demo_fixed_def)
  have "polls_due 2 (w_nodes demo_world ! 0) demo_fixed = [(Suc 0, 3, 0, 2)]"
    "reports_due 2 (w_nodes demo_world ! 0) demo_fixed = [(Suc 5, 2, 0, 0)]"
    by (simp_all add: polls_due_def reports_due_def wanted_def demo_fixed_def demo_node_def link_at_def
        demo_links_def Topo_links_def setStats_def)
  moreover obtain w1 w2 where "fetch_stats net_target 0 demo_world = Inr w1"
    "map ping_msg (new_msgs demo_world w1) = polls_due 2 (w_nodes demo_world ! 0) demo_fixed"
    "map raza_msg (new_msgs w1 w2) = reports_due 2 (w_nodes demo_world ! 0) demo_fixed"
    "node_expire net_target 0 demo_world = Inr (w2\<lparr>w_resched := w_resched demo_world @ [0]\<rparr>)"
    using node_expire_messages [OF _ demo_node_in_place fls lk sb] pool_ok_empty by auto
  ultimately show ?thesis
    by (intro exI [of _ w1] exI [of _ w2]) simp
qed

end
