(* ===== verification/RazaAgent.thy ===== *)
theory RazaAgent
  imports EndhostNode
begin

section \<open>The raza agent: who wants to hear about which link\<close>

text \<open>
  \<open>RazaAgent\<close> of apps/raza.cc. A host that starts a flow sends START for every link of
  its path to the host that watches that link, and STOP when the flow ends; the watching
  host counts, per link and asking host, the flows in progress, and a REPLY carries the
  statistics of a link back to the asker. The table is the node's \<open>fixed_mappings\<close>.
\<close>

abbreviation (input) START :: int where "START \<equiv> 1"
abbreviation (input) STOP :: int where "STOP \<equiv> 0"
abbreviation (input) REPLY :: int where "REPLY \<equiv> 2"

subsection \<open>The three nested loops over the table\<close>

text \<open>
  \<open>None\<close> is a loop that runs to its end; \<open>Some\<close> of the new table is a loop that
  returns from the handler. The innermost loop, over the hosts that asked:
\<close>

fun raza_counts :: "int \<Rightarrow> int \<Rightarrow> node_count list \<Rightarrow> node_count list option" where
  "raza_counts s from [] = None"
| "raza_counts s from (nc # ncs) =
     (if nc_node nc = from then
        if s = START then Some (nc\<lparr>nc_count := nc_count nc + 1\<rparr> # ncs)
        else if s = STOP then Some (nc\<lparr>nc_count := nc_count nc - 1\<rparr> # ncs)
        else map_option ((#) nc) (raza_counts s from ncs)
      else map_option ((#) nc) (raza_counts s from ncs))"

text \<open>The loop over the links of one entry; a STOP nobody asked for only prints.\<close>

fun raza_links :: "int \<Rightarrow> int \<Rightarrow> int \<Rightarrow> fixed_links list \<Rightarrow> fixed_links list option" where
  "raza_links s from link [] = None"
| "raza_links s from link (fl # fls) =
     (if fl_link_num fl = link then
        case raza_counts s from (fl_node_count fl) of
          Some ncs \<Rightarrow> Some (fl\<lparr>fl_node_count := ncs\<rparr> # fls)
        | None \<Rightarrow>
            if s = START then
              Some (fl\<lparr>fl_node_count := fl_node_count fl @ [\<lparr>nc_node = from, nc_count = 1\<rparr>]\<rparr> # fls)
            else if s = STOP then Some (fl # fls)
            else map_option ((#) fl) (raza_links s from link fls)
      else map_option ((#) fl) (raza_links s from link fls))"

fun raza_maps :: "int \<Rightarrow> int \<Rightarrow> int \<Rightarrow> int \<Rightarrow> fixed_mappings list \<Rightarrow> fixed_mappings list option" where
  "raza_maps s from link a [] = None"
| "raza_maps s from link a (fm # fms) =
     (if fm_address fm = a then
        case raza_links s from link (fm_fixed_links fm) of
          Some fls \<Rightarrow> Some (fm\<lparr>fm_fixed_links := fls\<rparr> # fms)
        | None \<Rightarrow> map_option ((#) fm) (raza_maps s from link a fms)
      else map_option ((#) fm) (raza_maps s from link a fms))"

subsection \<open>The handler\<close>

definition raza_recv_brdcast :: "target \<Rightarrow> nat \<Rightarrow> nat \<Rightarrow> hdr_raza \<Rightarrow> world \<Rightarrow> world res" where
  "raza_recv_brdcast tgt i p h w =
     (if rz_ret h = 0 then
        rbind (free_pkt p w) (\<lambda>w1. rbind (allocpkt i w1) (\<lambda>(q, w2).
          rbind (upd_pkt q (\<lambda>h. h\<lparr>hd_raza := (hd_raza h)\<lparr>rz_ret := 1\<rparr>,
                   hd_ip := (hd_ip h)\<lparr>ip_daddr := -1, ip_dport := ip_sport (hd_ip h)\<rparr>\<rparr>) w2) (tgt i q)))
      else free_pkt p w)"

text \<open>
  START and STOP. The first one to arrive starts the node's polling; then the table is
  updated for the asker, which is the peer \<open>dst_\<close> of this agent. Only a message about a
  link this host does not watch has its packet freed.
\<close>

definition raza_subscribe :: "target \<Rightarrow> nat \<Rightarrow> nat \<Rightarrow> hdr_raza \<Rightarrow> world \<Rightarrow> world res" where
  "raza_subscribe tgt i p h w =
     (let link = rz_link_num h; a = ag_here_addr (w_agents w ! i) in
      rbind (the_node w a) (\<lambda>k.
      rbind (if nd_poll_stat (w_nodes w ! k) = 0
             then node_expire tgt k (upd_node k (\<lambda>n. n\<lparr>nd_poll_stat := 1\<rparr>) w)
             else Inr w) (\<lambda>w1.
      rbind (get_pkt p w1) (\<lambda>h1.
        case raza_maps (rz_start (hd_raza h1)) (ag_dst_addr (w_agents w1 ! i)) link a
               (nd_fixed_mappings (w_nodes w1 ! k)) of
          Some fms \<Rightarrow> Inr (upd_node k (\<lambda>n. n\<lparr>nd_fixed_mappings := fms\<rparr>) w1)
        | None \<Rightarrow> free_pkt p w1))))"

definition raza_store_stats :: "hdr_raza \<Rightarrow> node \<Rightarrow> node res" where
  "raza_store_stats h n =
     (if rz_statDemanded h = NUMFLOWS then
        rbind (vec_upd (nd_topo_links n) (rz_link_num h)
                 (\<lambda>l. l\<lparr>tl_stats := setStats_Num (rz_utilization h) (rz_q_lim h) (rz_no_flows h) (tl_stats l)\<rparr>))
          (\<lambda>ls. Inr (n\<lparr>nd_topo_links := ls\<rparr>))
      else if rz_statDemanded h = QLEN then
        rbind (vec_upd (nd_topo_links n) (rz_link_num h)
                 (\<lambda>l. l\<lparr>tl_stats := setStats_Queue (rz_utilization h) (rz_q_lim h) (rz_q_len h) (tl_stats l)\<rparr>))
          (\<lambda>ls. Inr (n\<lparr>nd_topo_links := ls\<rparr>))
      else Inr n)"

definition raza_store :: "nat \<Rightarrow> nat \<Rightarrow> hdr_raza \<Rightarrow> world \<Rightarrow> world res" where
  "raza_store i p h w =
     (if rz_statDemanded h = NUMFLOWS \<or> rz_statDemanded h = QLEN then
        rbind (the_node w (ag_here_addr (w_agents w ! i))) (\<lambda>k.
          rbind (raza_store_stats h (w_nodes w ! k)) (\<lambda>n. free_pkt p (upd_node k (\<lambda>_. n) w)))
      else free_pkt p w)"

definition raza_report :: "nat \<Rightarrow> nat \<Rightarrow> nat \<Rightarrow> hdrs \<Rightarrow> world \<Rightarrow> world res" where
  "raza_report shift i p h w =
     (let from = ip_saddr (hd_ip h) div 2 ^ shift;
          g = hd_raza h;
          times = (if ag_oneway (w_agents w ! i)
            then [real_of_int (rz_seq g), (rz_rcv_time g - rz_send_time g) * 1000, (w_clock w - rz_rcv_time g) * 1000]
            else [(w_clock w - rz_send_time g) * 1000])
      in free_pkt p (w\<lparr>w_tcl := w_tcl w @ [(i, from, times)]\<rparr>))"

definition Raza_recv :: "target \<Rightarrow> nat \<Rightarrow> nat \<Rightarrow> nat \<Rightarrow> world \<Rightarrow> world res" where
  "Raza_recv tgt shift i p w =
     rbind (get_pkt p w) (\<lambda>h. let r = hd_raza h in
       if is_broadcast (ip_daddr (hd_ip h)) then raza_recv_brdcast tgt i p r w
       else if rz_ret r = 1 \<or> rz_ret r = 0 \<or> rz_start r = 1 \<or> rz_start r = 0
         then raza_subscribe tgt i p r w
       else if rz_ret r = 2 \<or> rz_start r = 2 then raza_store i p r w
       else raza_report shift i p h w)"

text \<open>\<open>RazaAgent::command\<close>.\<close>

definition raza_send :: "target \<Rightarrow> nat \<Rightarrow> world \<Rightarrow> world res" where
  "raza_send tgt i w =
     rbind (allocpkt i w) (\<lambda>(p, w1).
       rbind (upd_raza p (\<lambda>h. h\<lparr>rz_ret := 0, rz_seq := ag_seq (w_agents w1 ! i),
                rz_send_time := w_clock w1\<rparr>) w1) (\<lambda>w2.
         tgt i p (upd_agent i (\<lambda>a. a\<lparr>ag_seq := ag_seq a + 1\<rparr>) w2)))"

definition raza_brdcast :: "target \<Rightarrow> nat \<Rightarrow> world \<Rightarrow> world res" where
  "raza_brdcast tgt i w =
     rbind (allocpkt i w) (\<lambda>(p, w1).
       rbind (upd_pkt p (\<lambda>h. h\<lparr>hd_ip := (hd_ip h)\<lparr>ip_daddr := -1, ip_dport := ip_sport (hd_ip h)\<rparr>,
                hd_raza := (hd_raza h)\<lparr>rz_ret := 0\<rparr>\<rparr>) w1) (tgt i p))"

definition Raza_command :: "target \<Rightarrow> nat \<Rightarrow> string list \<Rightarrow> world \<Rightarrow> (tcl_result \<times> world) res" where
  "Raza_command tgt i argv w =
     (if length argv = 2 \<and> argv ! 1 = ''send'' then
        rbind (raza_send tgt i w) (\<lambda>w. Inr (TCL_OK, w))
      else if length argv = 2 \<and> argv ! 1 = ''start-WL-brdcast'' then
        rbind (raza_brdcast tgt i w) (\<lambda>w. Inr (TCL_OK, w))
      else if length argv = 2 \<and> argv ! 1 = ''oneway'' then
        Inr (TCL_OK, upd_agent i (\<lambda>a. a\<lparr>ag_oneway := True\<rparr>) w)
      else Inr (To_Base_Class, w))"

subsection \<open>The table as a map from links and hosts to counts\<close>

definition links_of :: "int \<Rightarrow> fixed_mappings list \<Rightarrow> fixed_links list" where
  "links_of a fms = concat (map fm_fixed_links (filter (\<lambda>fm. fm_address fm = a) fms))"

definition count_in :: "node_count list \<Rightarrow> int \<Rightarrow> int option" where
  "count_in ncs from = map_option nc_count (find (\<lambda>nc. nc_node nc = from) ncs)"

definition watches :: "int \<Rightarrow> fixed_mappings list \<Rightarrow> int \<Rightarrow> bool" where
  "watches a fms link \<longleftrightarrow> link \<in> fl_link_num ` set (links_of a fms)"

definition registry :: "int \<Rightarrow> fixed_mappings list \<Rightarrow> int \<times> int \<Rightarrow> int option" where
  "registry a fms = (\<lambda>(link, from).
     case find (\<lambda>fl. fl_link_num fl = link) (links_of a fms) of
       None \<Rightarrow> None | Some fl \<Rightarrow> count_in (fl_node_count fl) from)"

text \<open>What one message should do to the count of its link and asker.\<close>

definition count_after :: "int \<Rightarrow> int option \<Rightarrow> int option" where
  "count_after s c = (if s = START then Some (case c of None \<Rightarrow> 1 | Some n \<Rightarrow> n + 1)
                      else map_option (\<lambda>n. n - 1) c)"

definition count_step :: "int \<Rightarrow> int \<Rightarrow> int" where
  "count_step s n = (if s = START then n + 1 else n - 1)"

lemma raza_counts_spec:
  assumes "s = START \<or> s = STOP"
  shows "raza_counts s from ncs = (if count_in ncs from = None then None
     else Some (upd_first (\<lambda>nc. nc_node nc = from)
       (\<lambda>nc. nc\<lparr>nc_count := count_step s (nc_count nc)\<rparr>) ncs))"
  using assms by (induction ncs) (auto simp: count_in_def count_step_def)

lemma count_in_upd_first [simp]:
  "count_in (upd_first (\<lambda>nc. nc_node nc = from) (\<lambda>nc. nc\<lparr>nc_count := count_step s (nc_count nc)\<rparr>) ncs) x =
     (if x = from then map_option (count_step s) (count_in ncs from) else count_in ncs x)"
  by (induction ncs) (auto simp: count_in_def)

lemma count_in_snoc [simp]:
  "count_in ncs from = None \<Longrightarrow>
   count_in (ncs @ [\<lparr>nc_node = from, nc_count = c\<rparr>]) x = (if x = from then Some c else count_in ncs x)"
  by (induction ncs) (auto simp: count_in_def split: if_splits)

text \<open>The update of one link's list, and the loop over the links as the first match.\<close>

definition entry_after :: "int \<Rightarrow> int \<Rightarrow> fixed_links \<Rightarrow> fixed_links" where
  "entry_after s from fl =
     (case raza_counts s from (fl_node_count fl) of
        Some ncs \<Rightarrow> fl\<lparr>fl_node_count := ncs\<rparr>
      | None \<Rightarrow> if s = START then fl\<lparr>fl_node_count := fl_node_count fl @ [\<lparr>nc_node = from, nc_count = 1\<rparr>]\<rparr>
                else fl)"

lemma entry_after_num [simp]: "fl_link_num (entry_after s from fl) = fl_link_num fl"
  by (simp add: entry_after_def split: option.split)

lemma count_after_alt:
  "count_after s c = (case c of None \<Rightarrow> if s = START then Some 1 else None | Some n \<Rightarrow> Some (count_step s n))"
  by (simp add: count_after_def count_step_def split: option.split)

lemma count_in_entry_after:
  assumes "s = START \<or> s = STOP"
  shows "count_in (fl_node_count (entry_after s from fl)) x =
    (if x = from then count_after s (count_in (fl_node_count fl) from) else count_in (fl_node_count fl) x)"
  using assms
  by (auto simp: entry_after_def raza_counts_spec count_after_alt)

lemma raza_links_spec:
  assumes "s = START \<or> s = STOP"
  shows "raza_links s from link fls =
    (if link \<in> fl_link_num ` set fls
     then Some (upd_first (\<lambda>fl. fl_link_num fl = link) (entry_after s from) fls) else None)"
  using assms by (induction fls) (auto simp: entry_after_def split: option.split)

lemma raza_maps_links:
  assumes "s = START \<or> s = STOP"
  shows "(watches a fms link \<longrightarrow> (\<exists>fms'. raza_maps s from link a fms = Some fms' \<and>
      map fm_address fms' = map fm_address fms \<and>
      links_of a fms' = upd_first (\<lambda>fl. fl_link_num fl = link) (entry_after s from) (links_of a fms) \<and>
      (\<forall>b. b \<noteq> a \<longrightarrow> links_of b fms' = links_of b fms))) \<and>
    (\<not> watches a fms link \<longrightarrow> raza_maps s from link a fms = None)"
  using assms
proof (induction fms)
  case Nil
  then show ?case by (simp add: watches_def links_of_def)
next
  case (Cons fm fms)
  have app: "upd_first P f (xs @ ys) = (if \<exists>x \<in> set xs. P x then upd_first P f xs @ ys else xs @ upd_first P f ys)"
    for P and f :: "fixed_links \<Rightarrow> fixed_links" and xs ys
    by (induction xs) auto
  show ?case
  proof (cases "fm_address fm = a \<and> link \<in> fl_link_num ` set (fm_fixed_links fm)")
    case True
    then show ?thesis
      using Cons.prems by (auto simp: raza_links_spec links_of_def watches_def app)
  next
    case False
    then have w: "watches a (fm # fms) link \<longleftrightarrow> watches a fms link"
      by (auto simp: watches_def links_of_def)
    have r: "raza_maps s from link a (fm # fms) = map_option ((#) fm) (raza_maps s from link a fms)"
      using False Cons.prems by (auto simp: raza_links_spec)
    have l: "links_of a (fm # fms) = (if fm_address fm = a then fm_fixed_links fm else []) @ links_of a fms"
      for a fms by (simp add: links_of_def)
    show ?thesis
    proof (cases "watches a fms link")
      case True
      then obtain fms' where f: "raza_maps s from link a fms = Some fms'"
        "map fm_address fms' = map fm_address fms"
        "links_of a fms' = upd_first (\<lambda>fl. fl_link_num fl = link) (entry_after s from) (links_of a fms)"
        "\<forall>b. b \<noteq> a \<longrightarrow> links_of b fms' = links_of b fms"
        using Cons by blast
      then show ?thesis
        using True w r False by (auto simp: l app)
    next
      case nw: False
      then show ?thesis using Cons w r by simp
    qed
  qed
qed

text \<open>
  The table refines a map: a START or STOP about a link this host watches changes the count
  of that link and asker, and no other entry.
\<close>

lemma raza_maps_registry:
  assumes "s = START \<or> s = STOP"
  shows "case raza_maps s from link a fms of
      None \<Rightarrow> \<not> watches a fms link
    | Some fms' \<Rightarrow> watches a fms link \<and>
        registry a fms' = (registry a fms)((link, from) := count_after s (registry a fms (link, from))) \<and>
        (\<forall>b. b \<noteq> a \<longrightarrow> registry b fms' = registry b fms)"
proof (cases "watches a fms link")
  case False
  then show ?thesis using raza_maps_links [OF assms] by simp
next
  case True
  then obtain fms' where f: "raza_maps s from link a fms = Some fms'"
    "links_of a fms' = upd_first (\<lambda>fl. fl_link_num fl = link) (entry_after s from) (links_of a fms)"
    "\<forall>b. b \<noteq> a \<longrightarrow> links_of b fms' = links_of b fms"
    using raza_maps_links [OF assms] by blast
  from True obtain fl where fl: "find (\<lambda>fl. fl_link_num fl = link) (links_of a fms) = Some fl"
    by (cases "find (\<lambda>fl. fl_link_num fl = link) (links_of a fms)") (auto simp: watches_def find_None_key)
  have "registry a fms' (l, x) =
      ((registry a fms)((link, from) := count_after s (registry a fms (link, from)))) (l, x)" for l x
  proof (cases "l = link")
    case True
    then show ?thesis
      using f(2) fl count_in_entry_after [OF assms]
      by (simp add: registry_def find_upd_first)
  next
    case False
    then have "find (\<lambda>fl. fl_link_num fl = l) (links_of a fms') = find (\<lambda>fl. fl_link_num fl = l) (links_of a fms)"
      unfolding f(2) by (intro find_upd_first_other) auto
    with False show ?thesis by (simp add: registry_def)
  qed
  then have "registry a fms' = (registry a fms)((link, from) := count_after s (registry a fms (link, from)))"
    by (intro ext) (metis surj_pair)
  moreover have "\<forall>b. b \<noteq> a \<longrightarrow> registry b fms' = registry b fms"
    using f(3) by (auto simp: registry_def)
  ultimately show ?thesis using True f(1) by simp
qed

subsection \<open>A history of messages\<close>

text \<open>Messages as (status, asker, link), handled one after the other by the host at \<open>a\<close>.\<close>

definition raza_step :: "int \<Rightarrow> int \<times> int \<times> int \<Rightarrow> fixed_mappings list \<Rightarrow> fixed_mappings list" where
  "raza_step a e fms =
     (case e of (s, from, link) \<Rightarrow>
        (case raza_maps s from link a fms of None \<Rightarrow> fms | Some fms' \<Rightarrow> fms'))"

definition raza_run :: "int \<Rightarrow> (int \<times> int \<times> int) list \<Rightarrow> fixed_mappings list \<Rightarrow> fixed_mappings list" where
  "raza_run a es fms = fold (raza_step a) es fms"

definition is_subscription :: "int \<times> int \<times> int \<Rightarrow> bool" where
  "is_subscription e \<longleftrightarrow> fst e = START \<or> fst e = STOP"

lemma watches_step [simp]:
  assumes "is_subscription e"
  shows "watches a (raza_step a e fms) link = watches a fms link"
proof -
  obtain s f l where e: "e = (s, f, l)" by (cases e)
  with assms have s: "s = START \<or> s = STOP" by (simp add: is_subscription_def)
  show ?thesis
  proof (cases "watches a fms l")
    case False
    then show ?thesis using raza_maps_links [OF s, of a fms l f] by (simp add: raza_step_def e)
  next
    case True
    then obtain fms' where f: "raza_maps s f l a fms = Some fms'"
      "links_of a fms' = upd_first (\<lambda>fl. fl_link_num fl = l) (entry_after s f) (links_of a fms)"
      using raza_maps_links [OF s, of a fms l f] by blast
    have "map fl_link_num (links_of a fms') = map fl_link_num (links_of a fms)"
      unfolding f(2) by (rule map_upd_first_id) simp
    then have "fl_link_num ` set (links_of a fms') = fl_link_num ` set (links_of a fms)"
      by (metis list.set_map)
    then show ?thesis by (simp add: raza_step_def e f(1) watches_def)
  qed
qed

lemma watches_run:
  "\<forall>e \<in> set es. is_subscription e \<Longrightarrow> watches a (raza_run a es fms) link = watches a fms link"
  by (induction es arbitrary: fms) (simp_all add: raza_run_def)

lemma registry_step:
  assumes "is_subscription (s, f, l)" and "watches a fms link"
  shows "registry a (raza_step a (s, f, l) fms) (link, from) =
    (if l = link \<and> f = from then count_after s (registry a fms (link, from))
     else registry a fms (link, from))"
  using raza_maps_registry [of s a fms l f] assms
  by (auto simp: raza_step_def is_subscription_def split: option.splits)

definition starts_minus_stops :: "int \<Rightarrow> int \<Rightarrow> (int \<times> int \<times> int) list \<Rightarrow> int" where
  "starts_minus_stops from link es =
     int (count_list es (START, from, link)) - int (count_list es (STOP, from, link))"

text \<open>No STOP of an asker comes before its START: every prefix has at least as many STARTs.\<close>

definition well_nested :: "int \<Rightarrow> int \<Rightarrow> (int \<times> int \<times> int) list \<Rightarrow> bool" where
  "well_nested from link es \<longleftrightarrow> (\<forall>k \<le> length es. 0 \<le> starts_minus_stops from link (take k es))"

lemma well_nested_snoc:
  assumes "well_nested from link (es @ [e])"
  shows "well_nested from link es" and "0 \<le> starts_minus_stops from link (es @ [e])"
proof -
  have le: "0 \<le> starts_minus_stops from link (take k (es @ [e]))" if "k \<le> Suc (length es)" for k
    using assms that unfolding well_nested_def by simp
  show "well_nested from link es"
    unfolding well_nested_def
  proof (intro allI impI)
    fix k assume "k \<le> length es"
    then show "0 \<le> starts_minus_stops from link (take k es)" using le [of k] by simp
  qed
  show "0 \<le> starts_minus_stops from link (es @ [e])" using le [of "Suc (length es)"] by simp
qed

lemma starts_minus_stops_snoc:
  "starts_minus_stops from link (es @ [(s, f, l)]) =
     starts_minus_stops from link es +
       (if f = from \<and> l = link then if s = START then 1 else if s = STOP then -1 else 0 else 0)"
  by (simp add: starts_minus_stops_def)

lemma count_after_history:
  assumes "well_nested from link (es @ [(s, f, l)])" and "s = START \<or> s = STOP"
    and "r = (if (START, from, link) \<in> set es then Some (starts_minus_stops from link es) else None)"
  shows "(if l = link \<and> f = from then count_after s r else r) =
    (if (START, from, link) \<in> set (es @ [(s, f, l)]) then Some (starts_minus_stops from link (es @ [(s, f, l)])) else None)"
proof (cases "l = link \<and> f = from")
  case False
  then show ?thesis using assms(3) by (auto simp: starts_minus_stops_snoc)
next
  case True
  show ?thesis
  proof (cases "(START, from, link) \<in> set es")
    case before: True
    then show ?thesis using True assms(2,3) by (auto simp: starts_minus_stops_snoc count_after_def)
  next
    case first: False
    have none: "starts_minus_stops from link es \<le> 0"
      using first by (simp add: starts_minus_stops_def count_list_0_iff)
    have "0 \<le> starts_minus_stops from link es"
      using well_nested_snoc(1) [OF assms(1)] unfolding well_nested_def by (metis order_refl take_all)
    then have "starts_minus_stops from link es = 0" using none by simp
    moreover have "s \<noteq> STOP"
      using none well_nested_snoc(2) [OF assms(1)] True by (auto simp: starts_minus_stops_snoc)
    ultimately show ?thesis using True first assms(2,3) by (simp add: starts_minus_stops_snoc count_after_def)
  qed
qed

text \<open>
  C2. The counts are right over every history. Start from a host that has no entry for an
  asker on a link it watches; after any sequence of START and STOP messages from any hosts
  about any links, in which this asker never stops more flows than it started, the entry is
  the number of its flows in progress on that link, and absent when it never started one.
\<close>

theorem registry_counts_flows:
  assumes "\<forall>e \<in> set es. is_subscription e"
    and "watches a fms link" and "registry a fms (link, from) = None" and "well_nested from link es"
  shows "registry a (raza_run a es fms) (link, from) =
    (if (START, from, link) \<in> set es then Some (starts_minus_stops from link es) else None)"
  using assms(1,4)
proof (induction es rule: rev_induct)
  case Nil
  then show ?case using assms(3) by (simp add: raza_run_def)
next
  case (snoc e es)
  obtain s f l where e: "e = (s, f, l)" by (cases e)
  with snoc.prems have s: "is_subscription (s, f, l)" "s = START \<or> s = STOP"
    by (simp_all add: is_subscription_def)
  have IH: "registry a (raza_run a es fms) (link, from) =
    (if (START, from, link) \<in> set es then Some (starts_minus_stops from link es) else None)"
    using snoc well_nested_snoc(1) by simp
  have "registry a (raza_run a (es @ [e]) fms) (link, from) =
    (if l = link \<and> f = from then count_after s (registry a (raza_run a es fms) (link, from))
     else registry a (raza_run a es fms) (link, from))"
    using registry_step [OF s(1)] watches_run [of es a fms link] snoc.prems(1) assms(2)
    by (simp add: raza_run_def e)
  then show ?case
    using count_after_history [OF _ s(2) IH] snoc.prems(2) by (simp only: e)
qed

theorem registry_counts_flows_witness:
  "registry 0 (raza_run 0 [(1, 1, 0), (1, 2, 0), (1, 1, 0), (0, 1, 0)]
     [\<lparr>fm_address = 0, fm_fixed_links = [Fixed_links 0]\<rparr>]) (0, 1) = Some 1"
  using registry_counts_flows [of "[(1, 1, 0), (1, 2, 0), (1, 1, 0), (0, 1, 0)]" 0
      "[\<lparr>fm_address = 0, fm_fixed_links = [Fixed_links 0]\<rparr>]" 0 1]
  by (simp add: is_subscription_def watches_def links_of_def Fixed_links_def registry_def count_in_def
      well_nested_def starts_minus_stops_def le_Suc_eq all_conj_distrib numeral_eq_Suc)

subsection \<open>The handler on START and STOP\<close>

text \<open>
  While the node is polling already, a START or STOP changes one table entry and nothing
  else: if the host watches the link, the count of that link and asker moves as
  \<open>count_after\<close> says and no other count of any node does; the packet stays allocated.
  If it does not watch the link, the only effect is that the packet is freed.
\<close>

theorem Raza_recv_subscription:
  assumes "owned (w_pool w) p" and "hd_raza (bits_at (w_pool w) p) = r"
    and "\<not> is_broadcast (ip_daddr (hd_ip (bits_at (w_pool w) p)))"
    and "rz_start r = START \<or> rz_start r = STOP"
    and "get_node_by_address (w_nodes w) a = Some k" and "ag_here_addr (w_agents w ! i) = a"
    and "nd_poll_stat (w_nodes w ! k) \<noteq> 0" and "fms = nd_fixed_mappings (w_nodes w ! k)"
    and "from = ag_dst_addr (w_agents w ! i)" and "link = rz_link_num r"
  shows "if watches a fms link
    then \<exists>fms'. Raza_recv tgt shift i p w = Inr (upd_node k (\<lambda>n. n\<lparr>nd_fixed_mappings := fms'\<rparr>) w) \<and>
      registry a fms' = (registry a fms)((link, from) := count_after (rz_start r) (registry a fms (link, from))) \<and>
      (\<forall>b. b \<noteq> a \<longrightarrow> registry b fms' = registry b fms)
    else Raza_recv tgt shift i p w = Inr (w\<lparr>w_pool := release p (w_pool w)\<rparr>)"
proof -
  have "Raza_recv tgt shift i p w = raza_subscribe tgt i p r w"
    using assms(1-4) by (auto simp: Raza_recv_def Let_def)
  also have "\<dots> = (case raza_maps (rz_start r) from link a fms of
      Some fms' \<Rightarrow> Inr (upd_node k (\<lambda>n. n\<lparr>nd_fixed_mappings := fms'\<rparr>) w) | None \<Rightarrow> free_pkt p w)"
    using assms by (simp add: raza_subscribe_def the_node_def Let_def)
  finally have run: "Raza_recv tgt shift i p w = \<dots>" .
  show ?thesis
    using raza_maps_registry [OF assms(4), of a fms link "from"] assms(1)
    by (cases "raza_maps (rz_start r) from link a fms") (auto simp: run)
qed

text \<open>A world with a START for link 0 waiting at node 0's raza agent for peer 1.\<close>

definition sub_world :: "int \<Rightarrow> int \<Rightarrow> world" where
  "sub_world poll st = demo_world\<lparr>w_nodes := [(demo_node 0 demo_fixed)\<lparr>nd_poll_stat := poll\<rparr>, demo_node 1 demo_fixed],
     w_pool := \<lparr>po_mem = [new_packet\<lparr>ce_fflag := True, ce_bits := zero_hdrs\<lparr>hd_raza :=
       zero_raza\<lparr>rz_ret := st, rz_start := st, rz_statDemanded := 2\<rparr>\<rparr>\<rparr>], po_free = None\<rparr>\<rparr>"

lemma is_broadcast_0 [simp]: "\<not> is_broadcast 0"
  by (simp add: is_broadcast_def)

theorem Raza_recv_subscription_witness:
  "\<exists>fms'. Raza_recv net_target 0 6 0 (sub_world 1 1) =
       Inr (upd_node 0 (\<lambda>n. n\<lparr>nd_fixed_mappings := fms'\<rparr>) (sub_world 1 1)) \<and>
     registry 0 fms' (0, 1) = Some 2"
proof -
  let ?w = "sub_world 1 1"
  let ?fms = "nd_fixed_mappings (w_nodes ?w ! 0)"
  have a: "owned (w_pool ?w) 0" "bits_at (w_pool ?w) 0 = zero_hdrs\<lparr>hd_raza :=
       zero_raza\<lparr>rz_ret := 1, rz_start := 1, rz_statDemanded := 2\<rparr>\<rparr>"
    "get_node_by_address (w_nodes ?w) 0 = Some 0" "ag_here_addr (w_agents ?w ! 6) = 0"
    "nd_poll_stat (w_nodes ?w ! 0) \<noteq> 0" "ag_dst_addr (w_agents ?w ! 6) = 1"
    by (simp_all add: sub_world_def owned_def in_use_def bits_at_def new_packet_def demo_node_def
        demo_world_def demo_agent_def)
  have b: "watches 0 ?fms 0" "registry 0 ?fms (0, 1) = Some 1"
    by (simp_all add: sub_world_def demo_node_def demo_fixed_def watches_def links_of_def registry_def count_in_def)
  from Raza_recv_subscription [where tgt = "net_target" and shift = "0", OF a(1) refl _ _ a(3,4,5) refl refl refl]
    a(2,6) b
  show ?thesis by (auto simp: zero_hdrs_def zero_ip_def zero_raza_def count_after_def)
qed

end
