(* ===== verification/PollProtocol.thy ===== *)
theory PollProtocol
  imports RazaAgent
begin

section \<open>The polling protocol end to end\<close>

text \<open>
  Properties that span the agents, the node and the packet memory: a poll brings the
  statistics of the polled queue into the topology of the asker, the first subscription
  starts the polling of a node, and what the reuse of a freed packet does to the answers.
\<close>

subsection \<open>A poll and its answer\<close>

text \<open>
  C18. A poll round trip. Agent \<open>i\<close> polls link \<open>l\<close> for its number of flows, the
  network delivers the request to agent \<open>j\<close> (the queues and the clock may have changed
  meanwhile), the answer is delivered back to \<open>i\<close>. Then the topology of \<open>i\<close>'s node
  holds, for link \<open>l\<close>, the flow count, utilisation and limit the queue had when the
  request arrived; no other link and no other node changed, exactly one request and one
  answer were sent, and the answer's packet is free again.
\<close>

theorem poll_roundtrip:
  assumes "pool_ok (w_pool w)" and "i < length (w_agents w)"
    and "\<not> is_broadcast (ag_dst_addr (w_agents w ! i))"
    and "\<not> is_broadcast (ag_dst_addr (w_agents w ! j))" and "j \<noteq> i"
    and "get_node_by_address (w_nodes w) (ag_here_addr (w_agents w ! i)) = Some k"
    and "l < length (nd_topo_links (w_nodes w ! k))" and "l < length qs"
  shows "\<exists>p w1 w2 w3. Ping_send_c net_target i NUMFLOWS (int l) w = Inr w1 \<and>
    w_out w1 = w_out w @ [(i, p)] \<and>
    Ping_recv net_target shift j p (w1\<lparr>w_queues := qs, w_clock := t\<rparr>) = Inr w2 \<and>
    w_out w2 = w_out w @ [(i, p), (j, p)] \<and>
    Ping_recv net_target shift i p w2 = Inr w3 \<and>
    w_out w3 = w_out w2 \<and> \<not> in_use (w_pool w3) p \<and> pool_ok (w_pool w3) \<and>
    w_nodes w3 = (w_nodes w)[k := (w_nodes w ! k)\<lparr>nd_topo_links := (nd_topo_links (w_nodes w ! k))
      [l := (nd_topo_links (w_nodes w ! k) ! l)\<lparr>tl_stats :=
        setStats_Num (gq_cur_util (qs ! l)) (real_of_int (gq_qlim (qs ! l))) (gq_numFlows (qs ! l))
          (tl_stats (nd_topo_links (w_nodes w ! k) ! l))\<rparr>]\<rparr>]"
proof -
  from Ping_send_c_net [OF assms(1), of i NUMFLOWS "int l"] obtain p po where s:
    "Ping_send_c net_target i NUMFLOWS (int l) w = Inr (w\<lparr>w_uidcnt := w_uidcnt w + 1, w_pool := po,
      w_agents := (w_agents w)[i := (w_agents w ! i)\<lparr>ag_seq := ag_seq (w_agents w ! i) + 1\<rparr>],
      w_out := w_out w @ [(i, p)]\<rparr>)" "pool_ok po" "owned po p"
    "hd_ping (bits_at po p) = ping_request (ag_seq (w_agents w ! i)) (w_clock w) NUMFLOWS (int l) zero_ping"
    "ip_daddr (hd_ip (bits_at po p)) = ag_dst_addr (w_agents w ! i)" by blast
  define w1 where "w1 = w\<lparr>w_uidcnt := w_uidcnt w + 1, w_pool := po,
      w_agents := (w_agents w)[i := (w_agents w ! i)\<lparr>ag_seq := ag_seq (w_agents w ! i) + 1\<rparr>],
      w_out := w_out w @ [(i, p)]\<rparr>"
  define w1' where "w1' = w1\<lparr>w_queues := qs, w_clock := t\<rparr>"
  define h where "h = ping_request (ag_seq (w_agents w ! i)) (w_clock w) NUMFLOWS (int l) zero_ping"
  have h: "pg_ret h = 3" "pg_link_num h = int l" "pg_statDemanded h = NUMFLOWS"
    by (simp_all add: h_def ping_request_def)
  have w1': "w_pool w1' = po" "w_queues w1' = qs" "w_out w1' = w_out w @ [(i, p)]" "w_nodes w1' = w_nodes w"
    "w_agents w1' ! j = w_agents w ! j" "ag_here_addr (w_agents w1' ! i) = ag_here_addr (w_agents w ! i)"
    using assms(2,5) by (simp_all add: w1'_def w1_def)
  from Ping_recv_request_net [of w1' p h shift j] s assms(3,8) w1' h
  obtain po2 where a: "Ping_recv net_target shift j p w1' = Inr (w1'\<lparr>w_uidcnt := w_uidcnt w1' + 1,
      w_pool := po2, w_out := w_out w1' @ [(j, p)]\<rparr>)" "pool_ok po2" "owned po2 p"
    "hd_ping (bits_at po2 p) = ping_reply h (qs ! l) (w_clock w1')"
    "ip_daddr (hd_ip (bits_at po2 p)) = ag_dst_addr (w_agents w ! j)"
    by (auto simp: h_def)
  define w2 where "w2 = w1'\<lparr>w_uidcnt := w_uidcnt w1' + 1, w_pool := po2, w_out := w_out w1' @ [(j, p)]\<rparr>"
  define w3 where "w3 = upd_node k (\<lambda>n. n\<lparr>nd_topo_links := (nd_topo_links n)
      [l := (nd_topo_links n ! l)\<lparr>tl_stats :=
        setStats_Num (gq_cur_util (qs ! l)) (real_of_int (gq_qlim (qs ! l))) (gq_numFlows (qs ! l))
          (tl_stats (nd_topo_links n ! l))\<rparr>]\<rparr>) (w2\<lparr>w_pool := release p po2\<rparr>)"
  have run1: "Ping_send_c net_target i NUMFLOWS (int l) w = Inr w1"
    using s(1) by (simp add: w1_def)
  have run2: "Ping_recv net_target shift j p (w1\<lparr>w_queues := qs, w_clock := t\<rparr>) = Inr w2"
    using a(1) by (simp add: w1'_def [symmetric] w2_def)
  have run3: "Ping_recv net_target shift i p w2 = Inr w3"
    using Ping_recv_reply [of w2 p "ping_reply h (qs ! l) (w_clock w1')" i k net_target shift] a assms(4,6,7) w1' h
      ping_reply_numflows [OF h(3)]
    by (simp add: w2_def w3_def)
  have out: "w_out w1 = w_out w @ [(i, p)]" "w_out w2 = w_out w @ [(i, p), (j, p)]" "w_out w3 = w_out w2"
    "w_pool w3 = release p po2"
    using w1'(3) by (simp_all add: w1_def w2_def w3_def upd_node_def)
  have nodes: "w_nodes w3 = (w_nodes w)[k := (w_nodes w ! k)\<lparr>nd_topo_links := (nd_topo_links (w_nodes w ! k))
      [l := (nd_topo_links (w_nodes w ! k) ! l)\<lparr>tl_stats :=
        setStats_Num (gq_cur_util (qs ! l)) (real_of_int (gq_qlim (qs ! l))) (gq_numFlows (qs ! l))
          (tl_stats (nd_topo_links (w_nodes w ! k) ! l))\<rparr>]\<rparr>]"
    using w1'(4) by (simp add: w3_def w2_def upd_node_def)
  have pool: "\<not> in_use (w_pool w3) p" "pool_ok (w_pool w3)"
    using out(4) in_use_release [OF a(3)] a(2,3) by simp_all
  show ?thesis
    using run1 run2 run3 out(1-3) nodes pool by blast
qed

definition busy_queues :: "gqueue list" where
  "busy_queues = replicate 2 \<lparr>gq_cur_util = 1, gq_qlim = 50, gq_numFlows = 7, gq_byteLength = 1500\<rparr>"

theorem poll_roundtrip_witness:
  "\<exists>p w1 w2 w3. Ping_send_c net_target 2 2 (int 1) demo_world = Inr w1 \<and>
    Ping_recv net_target 0 3 p (w1\<lparr>w_queues := busy_queues, w_clock := 2\<rparr>) = Inr w2 \<and>
    Ping_recv net_target 0 2 p w2 = Inr w3 \<and>
    st_no_flows (tl_stats (nd_topo_links (w_nodes w3 ! 0) ! 1)) = 7"
proof -
  have pre: "get_node_by_address (w_nodes demo_world) (ag_here_addr (w_agents demo_world ! 2)) = Some 0"
    "\<not> is_broadcast (ag_dst_addr (w_agents demo_world ! 2))"
    "\<not> is_broadcast (ag_dst_addr (w_agents demo_world ! 3))"
    "1 < length (nd_topo_links (w_nodes demo_world ! 0))" "2 < length (w_agents demo_world)"
    "1 < length busy_queues" "(3::nat) \<noteq> 2" "pool_ok (w_pool demo_world)"
    by (simp_all add: demo_world_def demo_node_def demo_agent_def demo_links_def is_broadcast_def busy_queues_def)
  obtain p w1 w2 w3 where "Ping_send_c net_target 2 2 (int 1) demo_world = Inr w1"
    "Ping_recv net_target 0 3 p (w1\<lparr>w_queues := busy_queues, w_clock := 2\<rparr>) = Inr w2"
    "Ping_recv net_target 0 2 p w2 = Inr w3"
    "w_nodes w3 = (w_nodes demo_world)[0 := (w_nodes demo_world ! 0)\<lparr>nd_topo_links :=
      (nd_topo_links (w_nodes demo_world ! 0))[1 := (nd_topo_links (w_nodes demo_world ! 0) ! 1)\<lparr>tl_stats :=
        setStats_Num (gq_cur_util (busy_queues ! 1)) (real_of_int (gq_qlim (busy_queues ! 1)))
          (gq_numFlows (busy_queues ! 1)) (tl_stats (nd_topo_links (w_nodes demo_world ! 0) ! 1))\<rparr>]\<rparr>]"
    using poll_roundtrip [OF pre(8,5,2,3,7,1,4,6), of 0 2] by blast
  then show ?thesis
    using pre(4) by (intro exI [of _ p] exI [of _ w1] exI [of _ w2] exI [of _ w3])
      (simp add: setStats_Num_def busy_queues_def)
qed

subsection \<open>The first subscription starts the polling\<close>

text \<open>
  The polling of a node starts with the first START or STOP and is not started again:
  when such a message arrives at a node that is not polling, the node runs one round and
  reschedules itself exactly once, marks itself as polling, and then updates its table as it
  would have without the round.
\<close>

theorem first_subscription_starts_polling:
  assumes "pool_ok (w_pool w)" and "owned (w_pool w) p" and "hd_raza (bits_at (w_pool w) p) = r"
    and "\<not> is_broadcast (ip_daddr (hd_ip (bits_at (w_pool w) p)))"
    and "rz_start r = START \<or> rz_start r = STOP"
    and "i < length (w_agents w)" and "ag_here_addr (w_agents w ! i) = nd_address (w_nodes w ! k)"
    and "k < length (w_nodes w)" and "node_in_place N k w" and "nd_poll_stat (w_nodes w ! k) = 0"
    and "my_fixed_links (w_nodes w ! k) = Inr fls" and "links_in_place N (w_nodes w ! k) fls"
    and "subscribers_in_place N fls"
    and "watches (nd_address (w_nodes w ! k)) (nd_fixed_mappings (w_nodes w ! k)) (rz_link_num r)"
  shows "\<exists>w'. Raza_recv net_target shift i p w = Inr w' \<and> w_resched w' = w_resched w @ [k] \<and>
    nd_poll_stat (w_nodes w' ! k) = 1 \<and>
    raza_maps (rz_start r) (ag_dst_addr (w_agents w ! i)) (rz_link_num r) (nd_address (w_nodes w ! k))
      (nd_fixed_mappings (w_nodes w ! k)) = Some (nd_fixed_mappings (w_nodes w' ! k))"
proof -
  define u where "u = upd_node k (\<lambda>n. n\<lparr>nd_poll_stat := 1\<rparr>) w"
  have u: "w_pool u = w_pool w" "w_agents u = w_agents w" "w_resched u = w_resched w"
    "w_nodes u = (w_nodes w)[k := (w_nodes w ! k)\<lparr>nd_poll_stat := 1\<rparr>]"
    by (simp_all add: u_def upd_node_def)
  have "node_in_place N k u" "my_fixed_links (w_nodes u ! k) = Inr fls"
    "links_in_place N (w_nodes u ! k) fls"
    using assms(8,9,11,12) u by (simp_all add: node_in_place_def my_fixed_links_def links_in_place_def)
  from node_expire_net [OF _ this assms(13)] assms(1) u obtain w2 where e:
    "node_expire net_target k u = Inr (w2\<lparr>w_resched := w_resched w @ [k]\<rparr>)" "net_ext u w2" by auto
  have keep: "in_use (w_pool w2) p \<and> bits_at (w_pool w2) p = bits_at (w_pool w) p"
    using e(2) u(1) assms(2) by (simp add: net_ext_def pool_keeps_def owned_def)
  have nodes: "w_nodes w2 = w_nodes u" by (rule net_ext_node [OF e(2)])
  have dst: "ag_dst_addr (w_agents w2 ! i) = ag_dst_addr (w_agents w ! i)"
    using same_agentD [OF net_ext_agent [OF e(2)]] u(2) assms(6) by simp
  have get: "get_pkt p (w2\<lparr>w_resched := x\<rparr>) = Inr (bits_at (w_pool w) p)" for x
    using keep by (simp add: get_pkt_def get_hdrs_def in_use_def bits_at_def)
  have me: "get_node_by_address (w_nodes w) (nd_address (w_nodes w ! k)) = Some k"
    using assms(9) by (simp add: node_in_place_def)
  from raza_maps_links [OF assms(5)] assms(14) obtain fms' where m:
    "raza_maps (rz_start r) (ag_dst_addr (w_agents w ! i)) (rz_link_num r) (nd_address (w_nodes w ! k))
      (nd_fixed_mappings (w_nodes w ! k)) = Some fms'" by blast
  have "Raza_recv net_target shift i p w =
    Inr (upd_node k (\<lambda>n. n\<lparr>nd_fixed_mappings := fms'\<rparr>) (w2\<lparr>w_resched := w_resched w @ [k]\<rparr>))"
  proof -
    have "Raza_recv net_target shift i p w = raza_subscribe net_target i p r w"
      using assms(2-5) by (auto simp: Raza_recv_def Let_def)
    then show ?thesis
      using assms(3,7,8,10) me e(1) get nodes u(4) dst m
      by (simp add: raza_subscribe_def the_node_def Let_def u_def [symmetric])
  qed
  then show ?thesis
    using m nodes u(4) assms(8) by (simp add: upd_node_def)
qed

theorem first_subscription_starts_polling_witness:
  "\<exists>w'. Raza_recv net_target 0 6 0 (sub_world 0 1) = Inr w' \<and> w_resched w' = [0] \<and>
     nd_poll_stat (w_nodes w' ! 0) = 1"
proof -
  let ?w = "sub_world 0 1"
  let ?r = "zero_raza\<lparr>rz_ret := 1, rz_start := 1, rz_statDemanded := 2\<rparr>"
  have ok: "pool_ok (w_pool ?w)"
    unfolding pool_ok_def by (intro exI [of _ "[]"]) (simp add: sub_world_def new_packet_def pool_path_def in_use_def)
  have a: "owned (w_pool ?w) 0" "hd_raza (bits_at (w_pool ?w) 0) = ?r"
    "\<not> is_broadcast (ip_daddr (hd_ip (bits_at (w_pool ?w) 0)))" "rz_start ?r = START \<or> rz_start ?r = STOP"
    "6 < length (w_agents ?w)" "ag_here_addr (w_agents ?w ! 6) = nd_address (w_nodes ?w ! 0)"
    "0 < length (w_nodes ?w)" "nd_poll_stat (w_nodes ?w ! 0) = 0" "w_resched ?w = []"
    by (simp_all add: sub_world_def owned_def in_use_def bits_at_def new_packet_def demo_node_def
        demo_world_def demo_agent_def zero_hdrs_def zero_ip_def)
  have b: "node_in_place 2 0 ?w"
    by (simp add: sub_world_def node_in_place_def agent_table_def all_less_2 demo_world_def demo_node_def
        demo_agent_def Let_def)
  have c: "my_fixed_links (w_nodes ?w ! 0) = Inr demo_fixed"
    by (simp add: sub_world_def my_fixed_links_def demo_node_def vec_get_def)
  have d: "links_in_place 2 (w_nodes ?w ! 0) demo_fixed"
    by (simp add: sub_world_def links_in_place_def demo_fixed_def demo_node_def demo_links_def vec_get_def Topo_links_def)
  have e: "subscribers_in_place 2 demo_fixed"
    by (simp add: subscribers_in_place_def demo_fixed_def)
  have f: "watches (nd_address (w_nodes ?w ! 0)) (nd_fixed_mappings (w_nodes ?w ! 0)) (rz_link_num ?r)"
    by (simp add: sub_world_def demo_node_def demo_fixed_def watches_def links_of_def zero_raza_def)
  from first_subscription_starts_polling [OF ok a(1-7) b a(8) c d e f] a(9) show ?thesis by auto
qed

subsection \<open>What the reuse of a freed packet does\<close>

lemma stale_ping [simp]:
  assumes "freed (w_pool w) p"
  shows "get_pkt p w = Inr (bits_at (w_pool w) p)"
    and "upd_ping p f w = Inr (w\<lparr>w_pool := set_bits p (\<lambda>h. h\<lparr>hd_ping := f (hd_ping h)\<rparr>) (w_pool w)\<rparr>)"
  using freed_bound [OF assms] by (simp_all add: get_pkt_stale upd_ping_def upd_pkt_stale)

lemma allocpkt_freed_any:
  assumes "freed (w_pool w) p" and "ce_ref_count (po_mem (w_pool w) ! p) = 0"
  shows "\<exists>w'. allocpkt j w = Inr (p, w')"
  using allocpkt_freed [OF assms(1)] assms(2) by blast

lemma ref_count_kept [simp]:
  "ce_ref_count (po_mem (set_bits p f po) ! q) = ce_ref_count (po_mem po ! q)"
  "ce_ref_count (po_mem (release p po) ! q) = ce_ref_count (po_mem po ! q)"
  "ce_ref_count (po_mem (recycle p po) ! q) = ce_ref_count (po_mem po ! q)"
  by (cases "p < length (po_mem po)"; cases "q = p"; simp add: set_bits_def release_def recycle_def list_update_beyond)+

text \<open>
  C40. The echo of a plain ping is sent and freed at the same time: the packet handed to the
  network is on the free list, so the next packet any agent allocates is the same memory
  while the echo is still on its way.
\<close>

theorem plain_echo_is_freed:
  assumes "owned (w_pool w) p" and "hd_ping (bits_at (w_pool w) p) = h" and "pg_ret h = 0"
    and "\<not> is_broadcast (ip_daddr (hd_ip (bits_at (w_pool w) p)))" and "w_queues w \<noteq> []"
  shows "\<exists>w'. Ping_recv net_target shift i p w = Inr w' \<and> w_out w' = w_out w @ [(i, p)] \<and>
    \<not> in_use (w_pool w') p \<and> (\<forall>j. \<exists>w''. allocpkt j w' = Inr (p, w''))"
proof -
  have "Ping_recv net_target shift i p w = ping_echo net_target i p h w"
    using assms(1-4) by (simp add: Ping_recv_def ping_recv_plain_def)
  moreover obtain q qs where q: "w_queues w = q # qs" using assms(5) by (cases "w_queues w") auto
  moreover have "ce_ref_count (po_mem (w_pool w) ! p) = 0" using assms(1) by (simp add: owned_def)
  ultimately show ?thesis
    using assms(1) by (simp add: ping_echo_def updateStats_def net_target_def walk_for_def zero_hdrs_def zero_ping_def
        freed_not_in_use allocpkt_freed_any)
qed

theorem plain_echo_is_freed_witness:
  "\<exists>w'. Ping_recv net_target 0 2 0 (sub_world 0 0) = Inr w' \<and> w_out w' = [(2, 0)] \<and> \<not> in_use (w_pool w') 0"
proof -
  let ?w = "sub_world 0 0"
  have a: "owned (w_pool ?w) 0" "pg_ret (hd_ping (bits_at (w_pool ?w) 0)) = 0"
    "\<not> is_broadcast (ip_daddr (hd_ip (bits_at (w_pool ?w) 0)))" "w_queues ?w \<noteq> []" "w_out ?w = []"
    by (simp_all add: sub_world_def owned_def in_use_def bits_at_def new_packet_def
        demo_world_def zero_hdrs_def zero_ip_def zero_ping_def)
  from plain_echo_is_freed [OF a(1) refl a(2-4), of 0 2] a(5) show ?thesis by auto
qed

end
