(* ===== verification/Pathways.thy ===== *)
theory Pathways
  imports PacketPool
begin

section \<open>The pathway map: which links a flow has crossed\<close>

text \<open>
  \<open>PacketQueue::enque\<close> of queue/queue.cc records, before it links the packet into the
  queue, the number of this queue under the flow of the packet, in the global map
  \<open>pathway_global\<close>. The map is a \<open>std::map<char*, pathway_flow*>\<close>: ordered by the
  address of the key, and searched by comparing the 67 bytes the key points to. It is
  modelled as the list of its entries in address order, each with its address, the bytes
  of the key and the flow.
\<close>

subsection \<open>Keys\<close>

type_synonym key = "8 word list"

text \<open>\<open>concat\<close> (and its copy \<open>concat_\<close> in tcp/tcp.cc): an \<open>int\<close> stored in a \<open>char\<close>.\<close>

definition concat_key :: "int \<Rightarrow> int \<Rightarrow> int \<Rightarrow> int \<Rightarrow> key" where
  "concat_key src src_prt dst dst_prt =
     (replicate 67 0)[0 := word_of_int src, 16 := word_of_int src_prt,
        33 := word_of_int dst, 50 := word_of_int dst_prt]"

text \<open>\<open>compare_strings\<close>: the first difference among 67 bytes ends the loop.\<close>

fun compare_from :: "nat \<Rightarrow> key \<Rightarrow> key \<Rightarrow> bool" where
  "compare_from 0 x y = True"
| "compare_from (Suc n) x y = (if x ! (67 - Suc n) \<noteq> y ! (67 - Suc n) then False else compare_from n x y)"

definition compare_strings :: "key \<Rightarrow> key \<Rightarrow> bool" where
  "compare_strings x y = compare_from 67 x y"

lemma length_concat_key [simp]: "length (concat_key a b c d) = 67"
  by (simp add: concat_key_def)

lemma compare_from_iff:
  "n \<le> 67 \<Longrightarrow> compare_from n x y \<longleftrightarrow> (\<forall>i. 67 - n \<le> i \<and> i < 67 \<longrightarrow> x ! i = y ! i)"
proof (induction n)
  case 0
  then show ?case by auto
next
  case (Suc n)
  have "(\<forall>i. 67 - Suc n \<le> i \<and> i < 67 \<longrightarrow> x ! i = y ! i) \<longleftrightarrow>
    x ! (67 - Suc n) = y ! (67 - Suc n) \<and> (\<forall>i. 67 - n \<le> i \<and> i < 67 \<longrightarrow> x ! i = y ! i)"
  proof -
    have "67 - Suc n \<le> i \<longleftrightarrow> i = 67 - Suc n \<or> 67 - n \<le> i" for i
      using Suc.prems by auto
    then show ?thesis using Suc.prems by auto
  qed
  then show ?case using Suc by simp
qed

lemma compare_strings_iff [simp]:
  "length x = 67 \<Longrightarrow> length y = 67 \<Longrightarrow> compare_strings x y \<longleftrightarrow> x = y"
  by (auto simp: compare_strings_def compare_from_iff list_eq_iff_nth_eq)

subsection \<open>Recording\<close>

record pathway_flow =
  pf_src :: int
  pf_src_prt :: int
  pf_dst :: int
  pf_dst_prt :: int
  pf_links :: "int list"

type_synonym flow_map = "(nat \<times> key \<times> pathway_flow) list"

text \<open>\<open>std::map::insert\<close> under a key address: an address already present keeps its entry.\<close>

fun map_insert :: "nat \<Rightarrow> key \<Rightarrow> pathway_flow \<Rightarrow> flow_map \<Rightarrow> flow_map" where
  "map_insert a k f [] = [(a, k, f)]"
| "map_insert a k f ((b, l, g) # m) =
     (if a < b then (a, k, f) # (b, l, g) # m
      else if a = b then (b, l, g) # m
      else (b, l, g) # map_insert a k f m)"

text \<open>
  One entry of the search: \<open>updated\<close> also serves as the sign that the link is in the
  list already; a flow without any link cannot be appended to and only draws a complaint.
\<close>

definition record_entry :: "key \<Rightarrow> int \<Rightarrow> nat \<times> key \<times> pathway_flow \<Rightarrow> bool \<Rightarrow> (nat \<times> key \<times> pathway_flow) \<times> bool" where
  "record_entry key counter e updated =
     (case e of (a, k, f) \<Rightarrow>
        if compare_strings k key then
          let updated = updated \<or> list_ex (\<lambda>l. l = counter) (pf_links f) in
          ((a, k, if \<not> updated \<and> pf_links f \<noteq> [] then f\<lparr>pf_links := pf_links f @ [counter]\<rparr> else f), True)
        else (e, updated))"

fun record_search :: "key \<Rightarrow> int \<Rightarrow> flow_map \<Rightarrow> bool \<Rightarrow> flow_map \<times> bool" where
  "record_search key counter [] updated = ([], updated)"
| "record_search key counter (e # m) updated =
     (let (e', u) = record_entry key counter e updated;
          (m', v) = record_search key counter m u
      in (e' # m', v))"

definition new_flow :: "hdr_ip \<Rightarrow> int \<Rightarrow> pathway_flow" where
  "new_flow h counter = \<lparr>pf_src = ip_saddr h, pf_src_prt = ip_sport h, pf_dst = ip_daddr h,
     pf_dst_prt = ip_dport h, pf_links = [counter]\<rparr>"

definition key_of :: "hdr_ip \<Rightarrow> key" where
  "key_of h = concat_key (ip_saddr h) (ip_sport h) (ip_daddr h) (ip_dport h)"

text \<open>The map after a packet with header \<open>h\<close> entered queue \<open>counter\<close>; the new key is at \<open>a\<close>.\<close>

definition record_flow :: "nat \<Rightarrow> int \<Rightarrow> hdr_ip \<Rightarrow> flow_map option \<Rightarrow> flow_map option" where
  "record_flow a counter h pg =
     (case pg of
        Some m \<Rightarrow>
          let (m', updated) = record_search (key_of h) counter m False in
          Some (if updated then m' else map_insert a (key_of h) (new_flow h counter) m')
      | None \<Rightarrow> Some [(a, key_of h, new_flow h counter)])"

text \<open>
  The walk over the list of all packet queues: the position of this queue is the link
  number, and the list of queues is walked as far in parallel (\<open>nq\<close> queues), without
  using what is found there.
\<close>

fun record_walk :: "nat \<Rightarrow> nat \<Rightarrow> nat list \<Rightarrow> nat \<Rightarrow> nat \<Rightarrow> hdr_ip \<Rightarrow> flow_map option \<Rightarrow> flow_map option res" where
  "record_walk this counter [] nq a h pg = Inr pg"
| "record_walk this counter (q # qs) nq a h pg =
     (if q = this then
        if counter \<le> nq then record_walk this (Suc counter) qs nq a h (record_flow a (int counter) h pg)
        else Inl Null_Deref
      else record_walk this (Suc counter) qs nq a h pg)"

definition record_pathway :: "nat \<Rightarrow> nat list \<Rightarrow> nat \<Rightarrow> nat \<Rightarrow> hdr_ip \<Rightarrow> flow_map option \<Rightarrow> flow_map option res" where
  "record_pathway this pqs nq a h pg = record_walk this 0 pqs nq a h pg"

lemma record_walk_absent [simp]: "this \<notin> set qs \<Longrightarrow> record_walk this c qs nq a h pg = Inr pg"
  by (induction qs arbitrary: c) auto

lemma record_walk_at:
  assumes "distinct qs" and "k < length qs" and "c + k \<le> nq"
  shows "record_walk (qs ! k) c qs nq a h pg = Inr (record_flow a (int (c + k)) h pg)"
  using assms
proof (induction qs arbitrary: c k)
  case Nil
  then show ?case by simp
next
  case (Cons q qs)
  then show ?case
    by (cases k) (auto simp: nth_mem add.assoc)
qed

lemma record_pathway_at:
  "distinct pqs \<Longrightarrow> k < length pqs \<Longrightarrow> length pqs \<le> nq \<Longrightarrow>
   record_pathway (pqs ! k) pqs nq a h pg = Inr (record_flow a (int k) h pg)"
  using record_walk_at [of pqs k 0 nq a h pg] by (simp add: record_pathway_def)

subsection \<open>What the map holds\<close>

text \<open>
  A map in order: addresses ascend, every key has 67 bytes, no two keys hold the same
  bytes, and no flow is without links.
\<close>

definition keys_of :: "flow_map \<Rightarrow> key list" where
  "keys_of m = map (\<lambda>(a, k, f). k) m"

definition map_in_order :: "flow_map \<Rightarrow> bool" where
  "map_in_order m \<longleftrightarrow> sorted_wrt (<) (map fst m) \<and> distinct (keys_of m) \<and>
     (\<forall>(a, k, f) \<in> set m. length k = 67 \<and> pf_links f \<noteq> [] \<and> distinct (pf_links f))"

definition links_recorded :: "flow_map option \<Rightarrow> key \<Rightarrow> int list" where
  "links_recorded pg k = (case pg of None \<Rightarrow> [] | Some m \<Rightarrow>
     (case find (\<lambda>e. fst (snd e) = k) m of None \<Rightarrow> [] | Some e \<Rightarrow> pf_links (snd (snd e))))"

definition add_link :: "int \<Rightarrow> int list \<Rightarrow> int list" where
  "add_link c ls = (if c \<in> set ls then ls else ls @ [c])"

definition touch :: "key \<Rightarrow> int \<Rightarrow> nat \<times> key \<times> pathway_flow \<Rightarrow> nat \<times> key \<times> pathway_flow" where
  "touch key c e = (case e of (a, k, f) \<Rightarrow> if k = key then (a, k, f\<lparr>pf_links := add_link c (pf_links f)\<rparr>) else e)"

lemma touch_simps [simp]:
  "fst (touch key c e) = fst e" "fst (snd (touch key c e)) = fst (snd e)"
  by (auto simp: touch_def split: prod.splits)

lemma touch_hit: "touch key c (a, key, f) = (a, key, f\<lparr>pf_links := add_link c (pf_links f)\<rparr>)"
  by (simp add: touch_def)

lemma record_search_other:
  "key \<notin> set (keys_of m) \<Longrightarrow> \<forall>(a, k, f) \<in> set m. length k = 67 \<Longrightarrow> length key = 67 \<Longrightarrow>
   record_search key c m u = (m, u)"
  by (induction m) (auto simp: keys_of_def record_entry_def)

lemma touch_other: "key \<notin> set (keys_of m) \<Longrightarrow> map (touch key c) m = m"
  by (induction m) (auto simp: keys_of_def touch_def)

lemma record_search_touch:
  assumes "distinct (keys_of m)" and "\<forall>(a, k, f) \<in> set m. length k = 67 \<and> pf_links f \<noteq> []"
    and "length key = 67"
  shows "record_search key c m False = (map (touch key c) m, key \<in> set (keys_of m))"
  using assms
proof (induction m)
  case Nil
  then show ?case by (simp add: keys_of_def)
next
  case (Cons e m)
  obtain a k f where e: "e = (a, k, f)" by (cases e)
  show ?case
  proof (cases "k = key")
    case True
    then have "key \<notin> set (keys_of m)" using Cons.prems(1) e by (simp add: keys_of_def)
    moreover have "\<forall>(a, k, f) \<in> set m. length k = 67" using Cons.prems(2) by auto
    ultimately have "record_search key c m True = (m, True)" "map (touch key c) m = m"
      using record_search_other Cons.prems(3) touch_other by blast+
    then show ?thesis
      using True e Cons.prems by (cases "c \<in> set (pf_links f)")
        (auto simp: record_entry_def touch_hit add_link_def keys_of_def list_ex_iff Let_def)
  next
    case False
    then show ?thesis
      using Cons e by (auto simp: record_entry_def touch_def keys_of_def)
  qed
qed

lemma keys_of_touch [simp]: "keys_of (map (touch key c) m) = keys_of m"
  by (induction m) (auto simp: keys_of_def touch_def)

lemma entry_ok_touch:
  "length (fst (snd e)) = 67 \<and> pf_links (snd (snd e)) \<noteq> [] \<and> distinct (pf_links (snd (snd e))) \<Longrightarrow>
   length (fst (snd (touch key c e))) = 67 \<and> pf_links (snd (snd (touch key c e))) \<noteq> [] \<and>
   distinct (pf_links (snd (snd (touch key c e))))"
  by (cases e) (auto simp: touch_def add_link_def)

lemma map_in_order_alt:
  "map_in_order m \<longleftrightarrow> sorted_wrt (<) (map fst m) \<and> distinct (keys_of m) \<and>
     (\<forall>e \<in> set m. length (fst (snd e)) = 67 \<and> pf_links (snd (snd e)) \<noteq> [] \<and> distinct (pf_links (snd (snd e))))"
  by (auto simp: map_in_order_def)

lemma map_in_order_touch: "map_in_order m \<Longrightarrow> map_in_order (map (touch key c) m)"
  using entry_ok_touch [of _ key c] by (simp add: map_in_order_alt comp_def)

lemma record_search_in_order:
  assumes "map_in_order m" and "length key = 67"
  shows "record_search key c m False = (map (touch key c) m, key \<in> set (keys_of m))"
proof (rule record_search_touch [OF _ _ assms(2)])
  show "distinct (keys_of m)" using assms(1) by (simp add: map_in_order_def)
  show "\<forall>(a, k, f) \<in> set m. length k = 67 \<and> pf_links f \<noteq> []"
    using assms(1) by (auto simp: map_in_order_def)
qed

lemma set_map_insert: "a \<notin> fst ` set m \<Longrightarrow> set (map_insert a k f m) = insert (a, k, f) (set m)"
  by (induction m) (auto split: if_splits)

lemma map_insert_in_order:
  assumes "map_in_order m" and "a \<notin> fst ` set m" and "k \<notin> set (keys_of m)" and "length k = 67"
    and "pf_links f \<noteq> []" and "distinct (pf_links f)"
  shows "map_in_order (map_insert a k f m)"
proof -
  have sorted: "sorted_wrt (<) (map fst m) \<Longrightarrow> a \<notin> fst ` set m \<Longrightarrow> sorted_wrt (<) (map fst (map_insert a k f m))" for m
  proof (induction m)
    case Nil
    then show ?case by simp
  next
    case (Cons e m)
    then show ?case by (cases e) (auto simp: set_map_insert)
  qed
  have keys: "distinct (keys_of m) \<Longrightarrow> a \<notin> fst ` set m \<Longrightarrow> k \<notin> set (keys_of m) \<Longrightarrow> distinct (keys_of (map_insert a k f m))" for m
    by (induction m) (auto simp: keys_of_def set_map_insert)
  show ?thesis
    using assms sorted keys unfolding map_in_order_def by (simp add: set_map_insert)
qed

subsection \<open>One packet entering one queue\<close>

definition pathway_ok :: "flow_map option \<Rightarrow> bool" where
  "pathway_ok pg \<longleftrightarrow> (case pg of None \<Rightarrow> True | Some m \<Rightarrow> map_in_order m)"

definition addresses :: "flow_map option \<Rightarrow> nat set" where
  "addresses pg = (case pg of None \<Rightarrow> {} | Some m \<Rightarrow> fst ` set m)"

lemma find_touch:
  "find (\<lambda>e. fst (snd e) = k) (map (touch key c) m) = map_option (touch key c) (find (\<lambda>e. fst (snd e) = k) m)"
  by (induction m) simp_all

lemma find_key_map_insert:
  assumes "key \<notin> set (keys_of m)" and "a \<notin> fst ` set m"
  shows "find (\<lambda>e. fst (snd e) = k) (map_insert a key f m) =
    (if k = key then Some (a, key, f) else find (\<lambda>e. fst (snd e) = k) m)"
  using assms by (induction m) (auto simp: keys_of_def)

lemma find_key_None: "find (\<lambda>e. fst (snd e) = k) m = None \<longleftrightarrow> k \<notin> set (keys_of m)"
  by (induction m) (auto simp: keys_of_def)

lemma links_recorded_touch:
  "key \<in> set (keys_of m) \<Longrightarrow>
   links_recorded (Some (map (touch key c) m)) k =
     (if k = key then add_link c (links_recorded (Some m) k) else links_recorded (Some m) k)"
proof (cases "find (\<lambda>e. fst (snd e) = k) m")
  case None
  moreover assume "key \<in> set (keys_of m)"
  ultimately show ?thesis using find_key_None [of k m] by (auto simp: links_recorded_def find_touch)
next
  case (Some e)
  with find_SomeD [OF Some] show ?thesis
    by (cases e) (auto simp: links_recorded_def find_touch touch_def)
qed

lemma record_flow_spec:
  assumes "pathway_ok pg" and "a \<notin> addresses pg"
  shows "pathway_ok (record_flow a c h pg)"
    and "links_recorded (record_flow a c h pg) k =
      (if k = key_of h then add_link c (links_recorded pg k) else links_recorded pg k)"
    and "addresses (record_flow a c h pg) \<subseteq> insert a (addresses pg)"
proof -
  have new: "pf_links (new_flow h c) = [c]" "length (key_of h) = 67"
    by (simp_all add: new_flow_def key_of_def)
  consider (first) "pg = None" | (old) m where "pg = Some m" "key_of h \<in> set (keys_of m)"
    | (fresh) m where "pg = Some m" "key_of h \<notin> set (keys_of m)"
    by (cases pg) auto
  then have "pathway_ok (record_flow a c h pg) \<and> links_recorded (record_flow a c h pg) k =
      (if k = key_of h then add_link c (links_recorded pg k) else links_recorded pg k) \<and>
    addresses (record_flow a c h pg) \<subseteq> insert a (addresses pg)"
  proof cases
    case first
    then show ?thesis
      using new by (simp add: record_flow_def pathway_ok_def map_in_order_def keys_of_def links_recorded_def
          add_link_def addresses_def)
  next
    case old
    have "map_in_order m" using assms(1) old(1) by (simp add: pathway_ok_def)
    then have "record_search (key_of h) c m False = (map (touch (key_of h) c) m, True)"
      using record_search_in_order [of m "key_of h" c] new(2) old(2) by simp
    then have r: "record_flow a c h pg = Some (map (touch (key_of h) c) m)"
      using old by (simp add: record_flow_def)
    have "fst ` set (map (touch (key_of h) c) m) = fst ` set m"
      by (auto simp: image_image)
    then show ?thesis
      unfolding r using map_in_order_touch [of m] links_recorded_touch [OF old(2)] assms(1) old(1)
      by (auto simp: pathway_ok_def addresses_def)
  next
    case fresh
    have "map_in_order m" using assms(1) fresh(1) by (simp add: pathway_ok_def)
    then have "record_search (key_of h) c m False = (m, False)"
      using record_search_in_order [of m "key_of h" c] touch_other [OF fresh(2), of c] new(2) fresh(2) by simp
    then have r: "record_flow a c h pg = Some (map_insert a (key_of h) (new_flow h c) m)"
      using fresh by (simp add: record_flow_def)
    have na: "a \<notin> fst ` set m" using assms(2) fresh(1) by (simp add: addresses_def)
    have "map_in_order (map_insert a (key_of h) (new_flow h c) m)"
      using assms(1) fresh na new by (intro map_insert_in_order) (simp_all add: pathway_ok_def)
    moreover have "links_recorded (Some (map_insert a (key_of h) (new_flow h c) m)) k =
      (if k = key_of h then add_link c (links_recorded (Some m) k) else links_recorded (Some m) k)"
      using fresh(2) na find_key_None [of "key_of h" m] new(1)
      by (simp add: links_recorded_def find_key_map_insert add_link_def)
    ultimately show ?thesis
      unfolding r using fresh(1) set_map_insert [OF na] by (simp add: pathway_ok_def addresses_def)
  qed
  then show "pathway_ok (record_flow a c h pg)"
    "links_recorded (record_flow a c h pg) k =
      (if k = key_of h then add_link c (links_recorded pg k) else links_recorded pg k)"
    "addresses (record_flow a c h pg) \<subseteq> insert a (addresses pg)"
    by blast+
qed

subsection \<open>A history of packets\<close>

text \<open>
  Packets entering queues one after the other, as (queue, address of the new key, header);
  \<open>pqs\<close> is the list of all packet queues in construction order.
\<close>

definition record_all :: "nat list \<Rightarrow> nat \<Rightarrow> (nat \<times> nat \<times> hdr_ip) list \<Rightarrow> flow_map option \<Rightarrow> flow_map option res" where
  "record_all pqs nq es pg = rfold (\<lambda>(q, a, h). record_pathway q pqs nq a h) es pg"

text \<open>The links of the queues the packets with key \<open>k\<close> entered, each at its first time.\<close>

definition first_crossings :: "nat list \<Rightarrow> key \<Rightarrow> (nat \<times> nat \<times> hdr_ip) list \<Rightarrow> int list" where
  "first_crossings pqs k es =
     fold add_link (map (\<lambda>(q, a, h). int (length (takeWhile (\<lambda>x. x \<noteq> q) pqs)))
       (filter (\<lambda>(q, a, h). key_of h = k) es)) []"

lemma takeWhile_member: "q \<in> set xs \<Longrightarrow> length (takeWhile (\<lambda>x. x \<noteq> q) xs) < length xs"
  by (induction xs) auto

lemma record_pathway_member:
  assumes "distinct pqs" and "q \<in> set pqs" and "length pqs \<le> nq"
  shows "record_pathway q pqs nq a h pg = Inr (record_flow a (int (length (takeWhile (\<lambda>x. x \<noteq> q) pqs))) h pg)"
proof -
  let ?k = "length (takeWhile (\<lambda>x. x \<noteq> q) pqs)"
  have "?k < length pqs" using assms(2) by (rule takeWhile_member)
  moreover have "pqs ! ?k = q" using calculation nth_length_takeWhile by fastforce
  ultimately show ?thesis using record_pathway_at [OF assms(1) _ assms(3), of ?k a h pg] by simp
qed

lemma record_all_spec:
  assumes "distinct pqs" and "length pqs \<le> nq" and "\<forall>(q, a, h) \<in> set es. q \<in> set pqs"
    and "distinct (map (\<lambda>(q, a, h). a) es)"
  shows "\<exists>pg. record_all pqs nq es None = Inr pg \<and> pathway_ok pg \<and>
    (\<forall>k. links_recorded pg k = first_crossings pqs k es) \<and> addresses pg \<subseteq> (\<lambda>(q, a, h). a) ` set es"
  using assms(3,4)
proof (induction es rule: rev_induct)
  case Nil
  then show ?case
    by (simp add: record_all_def pathway_ok_def links_recorded_def first_crossings_def addresses_def)
next
  case (snoc e es)
  obtain q a h where e: "e = (q, a, h)" by (cases e)
  from snoc obtain pg where pg: "record_all pqs nq es None = Inr pg" "pathway_ok pg"
    "\<forall>k. links_recorded pg k = first_crossings pqs k es" "addresses pg \<subseteq> (\<lambda>(q, a, h). a) ` set es"
    by auto
  let ?c = "int (length (takeWhile (\<lambda>x. x \<noteq> q) pqs))"
  have "q \<in> set pqs" using snoc.prems(1) e by simp
  note r = record_pathway_member [OF assms(1) this assms(2), of a h pg]
  have "a \<notin> addresses pg" using pg(4) snoc.prems(2) e by (auto simp: rev_image_eqI)
  note s = record_flow_spec [OF pg(2) this, of ?c h]
  have "record_all pqs nq (es @ [e]) None = Inr (record_flow a ?c h pg)"
    using pg(1) r by (simp add: record_all_def rfold_append e)
  moreover have "addresses (record_flow a ?c h pg) \<subseteq> (\<lambda>(q, a, h). a) ` set (es @ [e])"
    using s(3) pg(4) e by auto
  moreover have "links_recorded (record_flow a ?c h pg) k = first_crossings pqs k (es @ [e])" for k
    using s(2) [of k] pg(3) e by (auto simp: first_crossings_def)
  ultimately show ?case using s(1) by blast
qed

text \<open>
  C37. What the pathway map holds after any history of packets: for every key, the numbers
  of exactly the queues that packets with this key entered, each once, in the order of the
  first crossings. A number is the position of the packet queue among all packet queues.
\<close>

theorem pathways_recorded:
  assumes "distinct pqs" and "length pqs \<le> nq" and "\<forall>(q, a, h) \<in> set es. q \<in> set pqs"
    and "distinct (map (\<lambda>(q, a, h). a) es)"
  shows "\<exists>pg. record_all pqs nq es None = Inr pg \<and>
    (\<forall>k. links_recorded pg k = first_crossings pqs k es \<and> distinct (links_recorded pg k))"
proof -
  obtain pg where pg: "record_all pqs nq es None = Inr pg" "pathway_ok pg"
    "\<forall>k. links_recorded pg k = first_crossings pqs k es"
    using record_all_spec [OF assms] by blast
  have "distinct (links_recorded pg k)" for k
    using pg(2) by (auto simp: pathway_ok_def map_in_order_def links_recorded_def
        split: option.splits dest!: find_SomeD)
  with pg show ?thesis by blast
qed

definition demo_hdr :: "int \<Rightarrow> int \<Rightarrow> hdr_ip" where
  "demo_hdr a b = zero_ip\<lparr>ip_saddr := a, ip_daddr := b\<rparr>"

theorem pathways_recorded_witness:
  "\<exists>pg. record_all [10, 11, 12] 3 [(10, 100, demo_hdr 0 1), (12, 101, demo_hdr 0 1), (10, 102, demo_hdr 0 1)] None
      = Inr pg \<and> links_recorded pg (key_of (demo_hdr 0 1)) = [0, 2]"
  using pathways_recorded [of "[10, 11, 12]" 3 "[(10, 100, demo_hdr 0 1), (12, 101, demo_hdr 0 1), (10, 102, demo_hdr 0 1)]"]
  by (auto simp: first_crossings_def add_link_def)

subsection \<open>When two flows share a key\<close>

text \<open>
  Two packets have the same key exactly when their addresses and ports agree modulo 256:
  an \<open>int\<close> is cut down to one \<open>char\<close>. Flows of hosts 256 apart are recorded as one.
\<close>

theorem key_collision:
  "key_of g = key_of h \<longleftrightarrow>
     ip_saddr g mod 256 = ip_saddr h mod 256 \<and> ip_sport g mod 256 = ip_sport h mod 256 \<and>
     ip_daddr g mod 256 = ip_daddr h mod 256 \<and> ip_dport g mod 256 = ip_dport h mod 256"
proof -
  have cut: "(word_of_int x :: 8 word) = word_of_int y \<longleftrightarrow> x mod 256 = y mod 256" for x y
    by (simp add: word_of_int_eq_iff take_bit_eq_mod)
  have nth: "key_of x ! 0 = word_of_int (ip_saddr x)" "key_of x ! 16 = word_of_int (ip_sport x)"
    "key_of x ! 33 = word_of_int (ip_daddr x)" "key_of x ! 50 = word_of_int (ip_dport x)" for x
    by (simp_all add: key_of_def concat_key_def)
  show ?thesis
    unfolding cut [symmetric]
  proof (intro iffI conjI)
    assume e: "key_of g = key_of h"
    show "(word_of_int (ip_saddr g) :: 8 word) = word_of_int (ip_saddr h)"
      "(word_of_int (ip_sport g) :: 8 word) = word_of_int (ip_sport h)"
      "(word_of_int (ip_daddr g) :: 8 word) = word_of_int (ip_daddr h)"
      "(word_of_int (ip_dport g) :: 8 word) = word_of_int (ip_dport h)"
      unfolding nth [symmetric] e by (rule refl)+
  qed (simp add: key_of_def concat_key_def)
qed

end
