(* ===== verification/TcpControl.thy ===== *)
theory TcpControl
  imports RazaAgent Pathways
begin

section \<open>The flow controller in the TCP agent\<close>

text \<open>
  The endhost controller of a flow, in tcp/tcp.cc. \<open>flow_start\<close> learns the path of the
  flow from the pathway map, counts the flow at every queue on the path, asks the hosts
  responsible for the links of the path for their statistics, and starts a timer that sets
  the window from those statistics every \<open>POLL_RATE\<close>; \<open>flow_end\<close> undoes this. The
  linked list \<open>flow_path\<close> is the list of its nodes (\<open>NULL\<close> the empty list), and the
  pointers \<open>prev_link\<close> and \<open>btnk\<close> into it are positions. \<open>double\<close>s are reals.
\<close>

record tcp =
  tc_self :: nat               \<comment> \<open>this agent's place in the list of agents\<close>
  tc_flow_path :: "int list"
  tc_prev_link :: "nat option"
  tc_btnk :: "nat option"
  tc_btnk_fix :: int
  tc_btnk_wait :: int
  tc_cwnd :: real
  tc_poll_off :: int
  tc_resched :: nat            \<comment> \<open>how often the timer was rescheduled\<close>

definition POLL_RATE :: real where "POLL_RATE = 3 / 10000"
definition HOST_PER_RACK :: int where "HOST_PER_RACK = 2"

definition tc_addr :: "tcp \<Rightarrow> world \<Rightarrow> int" where
  "tc_addr tc w = ag_here_addr (w_agents w ! tc_self tc)"

text \<open>The steps of a loop \<open>while (fp->next != NULL) { ... fp = fp->next; }\<close>.\<close>

fun hops :: "int list \<Rightarrow> (int \<times> int) list" where
  "hops (a # b # xs) = (a, b) # hops (b # xs)"
| "hops xs = []"

text \<open>Such a loop reads \<open>fp->next\<close> first: a null \<open>fp\<close> faults.\<close>

definition hops_from :: "int list \<Rightarrow> (int \<times> int) list res" where
  "hops_from xs = (if xs = [] then Inl Null_Deref else Inr (hops xs))"

definition on_link :: "int \<Rightarrow> int \<Rightarrow> topo_link \<Rightarrow> bool" where
  "on_link a b l \<longleftrightarrow> tl_n_start l = a \<and> tl_n_end l = b"

subsection \<open>Learning the path\<close>

text \<open>\<open>TcpAgent::install_path(int point)\<close>\<close>

definition install_point :: "world \<Rightarrow> int \<Rightarrow> tcp \<Rightarrow> tcp res" where
  "install_point w point tc =
     rbind (the_node w (tc_addr tc w)) (\<lambda>me.
       rbind (vec_get (nd_topo_links (w_nodes w ! me)) point) (\<lambda>l.
         Inr (tc\<lparr>tc_flow_path :=
           (if tc_flow_path tc = [] then [tl_n_start l] else tc_flow_path tc) @ [tl_n_end l]\<rparr>)))"

text \<open>\<open>TcpAgent::install_path()\<close>: follow the routing table \<open>lookup_flat\<close>; it may never arrive.\<close>

partial_function (option) route_from :: "(int \<Rightarrow> int \<Rightarrow> int) \<Rightarrow> int \<Rightarrow> int \<Rightarrow> int list option" where
  "route_from lookup_flat now dst =
     (if now = dst then Some [now]
      else Option.bind (route_from lookup_flat (lookup_flat now dst) dst) (\<lambda>ns. Some (now # ns)))"

definition install_path :: "(int \<Rightarrow> int \<Rightarrow> int) \<Rightarrow> world \<Rightarrow> tcp \<Rightarrow> tcp res" where
  "install_path lookup_flat w tc =
     (case route_from lookup_flat (tc_addr tc w) (ag_dst_addr (w_agents w ! tc_self tc)) of
        None \<Rightarrow> Inl Diverges
      | Some ns \<Rightarrow> Inr (tc\<lparr>tc_flow_path := ns, tc_prev_link := (if length ns > 1 then Some 1 else None),
                          tc_btnk := (if length ns > 1 then Some 1 else None)\<rparr>))"

text \<open>\<open>TcpAgent::print_pathway\<close>, which does more than print: it installs every recorded link.\<close>

definition own_key :: "tcp \<Rightarrow> world \<Rightarrow> key" where
  "own_key tc w = (let a = w_agents w ! tc_self tc in
     concat_key (ag_here_addr a) (ag_here_port a) (ag_dst_addr a) (ag_dst_port a))"

definition print_pathway :: "flow_map option \<Rightarrow> world \<Rightarrow> tcp \<Rightarrow> tcp res" where
  "print_pathway pg w tc =
     (case pg of None \<Rightarrow> Inr tc
      | Some m \<Rightarrow> rfold (\<lambda>(a, k, f) tc.
          if compare_strings (own_key tc w) k then rfold (install_point w) (pf_links f) tc else Inr tc) m tc)"

subsection \<open>Counting the flow at the queues\<close>

definition upd_queue :: "int \<Rightarrow> (gqueue \<Rightarrow> gqueue) \<Rightarrow> world \<Rightarrow> world res" where
  "upd_queue n f w = rbind (walk_until (w_queues w) n) (\<lambda>q.
     Inr (w\<lparr>w_queues := (w_queues w)[nat n := f q]\<rparr>))"

definition increment2 :: "int \<Rightarrow> world \<Rightarrow> world res" where
  "increment2 n = upd_queue n (\<lambda>q. q\<lparr>gq_numFlows := gq_numFlows q + 1\<rparr>)"

definition decrement2 :: "int \<Rightarrow> world \<Rightarrow> world res" where
  "decrement2 n = upd_queue n (\<lambda>q. q\<lparr>gq_numFlows := gq_numFlows q - 1\<rparr>)"

definition at_links :: "(int \<Rightarrow> world \<Rightarrow> world res) \<Rightarrow> tcp \<Rightarrow> world \<Rightarrow> world res" where
  "at_links f tc w =
     rbind (hops_from (tc_flow_path tc)) (\<lambda>hs.
       rfold (\<lambda>(a, b) w.
         rbind (the_node w (tc_addr tc w)) (\<lambda>me.
           rfold (\<lambda>l w. if on_link a b l then f (tl_link_num l) w else Inr w)
             (nd_topo_links (w_nodes w ! me)) w)) hs w)"

definition incrementFlows :: "tcp \<Rightarrow> world \<Rightarrow> world res" where
  "incrementFlows = at_links increment2"

definition decrementFlows :: "tcp \<Rightarrow> world \<Rightarrow> world res" where
  "decrementFlows = at_links decrement2"

subsection \<open>Asking for statistics\<close>

text \<open>The number of the first link from \<open>a\<close> to \<open>b\<close>, or the value the variable had.\<close>

definition link_number :: "topo_link list \<Rightarrow> int \<Rightarrow> int \<Rightarrow> int \<Rightarrow> int" where
  "link_number ls a b before = (case find (on_link a b) ls of Some l \<Rightarrow> tl_link_num l | None \<Rightarrow> before)"

definition update_edge :: "int \<Rightarrow> int \<Rightarrow> tcp \<Rightarrow> world \<Rightarrow> world res" where
  "update_edge start stop tc w =
     rbind (the_node w (tc_addr tc w)) (\<lambda>me.
       let n = w_nodes w ! me; link_num = link_number (nd_topo_links n) start stop (-1) in
       rbind (walk_for (w_queues w) link_num) (\<lambda>q.
         rbind (vec_upd (nd_topo_links n) link_num (\<lambda>l. l\<lparr>tl_stats :=
             setStats (gq_cur_util q) (real_of_int (gq_qlim q)) (gq_numFlows q) (real_of_int (gq_byteLength q))
               (tl_stats l)\<rparr>)) (\<lambda>ls.
           Inr (upd_node me (\<lambda>n. n\<lparr>nd_topo_links := ls\<rparr>) w))))"

definition tcp_fetch_stats :: "target \<Rightarrow> int \<Rightarrow> int \<Rightarrow> tcp \<Rightarrow> world \<Rightarrow> world res" where
  "tcp_fetch_stats tgt start stop tc w =
     (if start = tc_addr tc w then update_edge start stop tc w
      else rbind (the_node w (tc_addr tc w)) (\<lambda>me.
        let n = w_nodes w ! me;
            link_num = link_number (nd_topo_links n) start stop (-1);
            agent_num = tc_addr tc w * int (length (nd_topo_nodes n)) + start in
        rbind (agent_at w agent_num) (\<lambda>i. send_c2 tgt i 2 link_num w)))"

definition request_stats :: "target \<Rightarrow> int \<Rightarrow> int \<Rightarrow> int \<Rightarrow> tcp \<Rightarrow> world \<Rightarrow> world res" where
  "request_stats tgt link nd status tc w =
     rbind (the_node w (tc_addr tc w)) (\<lambda>me.
       let size = int (length (nd_topo_nodes (w_nodes w ! me)));
           agent_num = size * size + tc_addr tc w * size + nd in
       rbind (agent_at w agent_num) (\<lambda>i. send_c3 tgt i 2 link status w))"

subsection \<open>Registering the flow with the hosts of the rack\<close>

text \<open>
  The table of a link this host manages itself. The \<open>break\<close>s leave only the scan, so
  an entry of one flow is pushed whether or not one was found.
\<close>

definition own_counts :: "int \<Rightarrow> int \<Rightarrow> node_count list \<Rightarrow> node_count list" where
  "own_counts status a ncs =
     (if status = 1 then upd_first (\<lambda>nc. nc_node nc = a) (\<lambda>nc. nc\<lparr>nc_count := nc_count nc + 1\<rparr>) ncs
      else if status = 0 then upd_first (\<lambda>nc. nc_node nc = a) (\<lambda>nc. nc\<lparr>nc_count := nc_count nc - 1\<rparr>) ncs
      else ncs) @ [\<lparr>nc_node = a, nc_count = 1\<rparr>]"

definition own_link :: "int \<Rightarrow> int \<Rightarrow> nat \<Rightarrow> nat \<Rightarrow> node \<Rightarrow> node" where
  "own_link status a i j n =
     (let fm = nd_fixed_mappings n ! i; fl = fm_fixed_links fm ! j in
      n\<lparr>nd_fixed_mappings := (nd_fixed_mappings n)[i := fm\<lparr>fm_fixed_links := (fm_fixed_links fm)
          [j := fl\<lparr>fl_node_count := own_counts status a (fl_node_count fl)\<rparr>]\<rparr>]\<rparr>)"

definition init_entry :: "target \<Rightarrow> int \<Rightarrow> int \<Rightarrow> nat \<Rightarrow> tcp \<Rightarrow> nat \<Rightarrow> nat \<Rightarrow> world \<Rightarrow> world res" where
  "init_entry tgt status link_num me tc i j w =
     (let fm = nd_fixed_mappings (w_nodes w ! me) ! i in
      if fl_link_num (fm_fixed_links fm ! j) = link_num then
        if fm_address fm = tc_addr tc w
        then Inr (upd_node me (own_link status (tc_addr tc w) i j) w)
        else request_stats tgt link_num (fm_address fm) status tc w
      else Inr w)"

definition init_mapping :: "target \<Rightarrow> int \<Rightarrow> int \<Rightarrow> int \<Rightarrow> int \<Rightarrow> nat \<Rightarrow> tcp \<Rightarrow> nat \<Rightarrow> world \<Rightarrow> world res" where
  "init_mapping tgt status link_num start_node end_node me tc i w =
     (let fm = nd_fixed_mappings (w_nodes w ! me) ! i in
      if start_node \<le> fm_address fm \<and> fm_address fm \<le> end_node
      then rfold (init_entry tgt status link_num me tc i) [0..<length (fm_fixed_links fm)] w
      else Inr w)"

definition init_hop :: "target \<Rightarrow> int \<Rightarrow> int \<Rightarrow> int \<Rightarrow> tcp \<Rightarrow> int \<times> int \<Rightarrow> int \<times> world \<Rightarrow> (int \<times> world) res" where
  "init_hop tgt status start_node end_node tc h s =
     (case (h, s) of ((a, b), (before, w)) \<Rightarrow>
        rbind (the_node w (tc_addr tc w)) (\<lambda>me.
          let link_num = link_number (nd_topo_links (w_nodes w ! me)) a b before in
          rbind (rfold (init_mapping tgt status link_num start_node end_node me tc)
                   [0..<length (nd_fixed_mappings (w_nodes w ! me))] w) (\<lambda>w'.
            Inr (link_num, w'))))"

definition rack_start :: "int \<Rightarrow> int" where
  "rack_start a = (if a < HOST_PER_RACK then 0 else a - a mod HOST_PER_RACK)"

definition init_DHT :: "target \<Rightarrow> int \<Rightarrow> tcp \<Rightarrow> world \<Rightarrow> world res" where
  "init_DHT tgt status tc w =
     (if tc_flow_path tc = [] then Inl Null_Deref
      else rbind (hops_from (tl (tc_flow_path tc))) (\<lambda>hs.
        let start_node = rack_start (tc_addr tc w); end_node = start_node + HOST_PER_RACK - 1 in
        rbind (rfold (init_hop tgt status start_node end_node tc) hs (-1, w)) (\<lambda>(ln, w'). Inr w')))"

subsection \<open>Setting the window\<close>

definition share :: "topo_link \<Rightarrow> real" where
  "share l = tl_capacity l * 1000000000 / real_of_int (max 1 (st_no_flows (tl_stats l)))"

text \<open>
  The rate of the link from \<open>a\<close> to \<open>b\<close>, scanning without \<open>break\<close>: the last
  match counts, and without any the variable keeps its value, which may be none.
\<close>

definition link_rate :: "topo_link list \<Rightarrow> int \<Rightarrow> int \<Rightarrow> real option \<Rightarrow> real option" where
  "link_rate ls a b before = fold (\<lambda>l r. if on_link a b l then Some (share l) else r) ls before"

definition rate_less :: "real option \<Rightarrow> real option \<Rightarrow> bool res" where
  "rate_less x y = (case (x, y) of (Some a, Some b) \<Rightarrow> Inr (a < b) | _ \<Rightarrow> Inl Uninitialized)"

definition min_step :: "topo_link list \<Rightarrow> int \<times> int \<Rightarrow> real option \<times> real option \<Rightarrow> (real option \<times> real option) res" where
  "min_step ls h s =
     (case (h, s) of ((a, b), (rate2, rate)) \<Rightarrow>
        let rate2 = link_rate ls a b rate2 in
        rbind (rate_less rate2 rate) (\<lambda>less. Inr (rate2, if less then rate2 else rate)))"

text \<open>The part \<open>poll_dht\<close> and \<open>every_link_poll\<close> share: the rate over the whole path.\<close>

definition path_rate :: "tcp \<Rightarrow> world \<Rightarrow> real res" where
  "path_rate tc w =
     rbind (the_node w (tc_addr tc w)) (\<lambda>me.
       let ls = nd_topo_links (w_nodes w ! me) in
       case tc_flow_path tc of
         a # b # ns \<Rightarrow>
           rbind (rfold (min_step ls) (hops (a # b # ns)) (None, link_rate ls a b None)) (\<lambda>(r2, rate).
             case rate of Some r \<Rightarrow> Inr r | None \<Rightarrow> Inl Uninitialized)
       | _ \<Rightarrow> Inl Null_Deref)"

definition set_window :: "tcp \<Rightarrow> world \<Rightarrow> (tcp \<times> world) res" where
  "set_window tc w = rbind (path_rate tc w) (\<lambda>rate. Inr (tc\<lparr>tc_cwnd := rate * POLL_RATE / 1500\<rparr>, w))"

definition first_hop :: "tcp \<Rightarrow> (int \<times> int) res" where
  "first_hop tc = (case tc_flow_path tc of a # b # ns \<Rightarrow> Inr (a, b) | _ \<Rightarrow> Inl Null_Deref)"

definition poll_dht :: "target \<Rightarrow> tcp \<Rightarrow> world \<Rightarrow> (tcp \<times> world) res" where
  "poll_dht tgt tc w =
     rbind (first_hop tc) (\<lambda>(a, b). rbind (tcp_fetch_stats tgt a b tc w) (set_window tc))"

definition poll_per :: "target \<Rightarrow> tcp \<Rightarrow> world \<Rightarrow> world res" where
  "poll_per tgt tc w =
     rbind (hops_from (tc_flow_path tc)) (\<lambda>hs. rfold (\<lambda>(a, b). tcp_fetch_stats tgt a b tc) hs w)"

definition every_link_poll :: "target \<Rightarrow> tcp \<Rightarrow> world \<Rightarrow> (tcp \<times> world) res" where
  "every_link_poll tgt tc w = rbind (poll_per tgt tc w) (set_window tc)"

text \<open>\<open>TcpAgent::expire\<close>, and the commands \<open>flow_start\<close> and \<open>flow_end\<close>.\<close>

definition tcp_expire :: "target \<Rightarrow> tcp \<Rightarrow> world \<Rightarrow> (tcp \<times> world) res" where
  "tcp_expire tgt tc w =
     (if tc_poll_off tc = 0 then
        rbind (poll_dht tgt (tc\<lparr>tc_resched := tc_resched tc + 1\<rparr>) w) (\<lambda>(tc, w).
          Inr (if tc_poll_off tc = 1 then tc\<lparr>tc_cwnd := 0\<rparr> else tc, w))
      else Inr (tc, w))"

definition flow_start :: "target \<Rightarrow> flow_map option \<Rightarrow> tcp \<Rightarrow> world \<Rightarrow> (tcp \<times> world) res" where
  "flow_start tgt pg tc w =
     rbind (print_pathway pg w tc) (\<lambda>tc.
       rbind (incrementFlows tc w) (\<lambda>w1.
         rbind (init_DHT tgt 1 tc w1) (tcp_expire tgt tc)))"

definition flow_end :: "target \<Rightarrow> tcp \<Rightarrow> world \<Rightarrow> (tcp \<times> world) res" where
  "flow_end tgt tc w =
     (let tc = tc\<lparr>tc_cwnd := 0\<rparr> in
      rbind (decrementFlows tc w) (\<lambda>w1.
        rbind (init_DHT tgt 0 tc w1) (\<lambda>w2. Inr (tc\<lparr>tc_poll_off := 1\<rparr>, w2))))"

subsection \<open>The counts at the queues\<close>

definition path_links :: "topo_link list \<Rightarrow> (int \<times> int) list \<Rightarrow> int list" where
  "path_links ls hs = concat (map (\<lambda>(a, b). map tl_link_num (filter (on_link a b) ls)) hs)"

definition add_flows :: "int \<Rightarrow> gqueue \<Rightarrow> gqueue" where
  "add_flows d q = q\<lparr>gq_numFlows := gq_numFlows q + d\<rparr>"

definition my_links :: "tcp \<Rightarrow> world \<Rightarrow> topo_link list" where
  "my_links tc w = (case get_node_by_address (w_nodes w) (tc_addr tc w) of
     Some me \<Rightarrow> nd_topo_links (w_nodes w ! me) | None \<Rightarrow> [])"

definition crossed :: "tcp \<Rightarrow> world \<Rightarrow> int list" where
  "crossed tc w = path_links (my_links tc w) (hops (tc_flow_path tc))"

definition flow_in_place :: "tcp \<Rightarrow> world \<Rightarrow> bool" where
  "flow_in_place tc w \<longleftrightarrow> tc_flow_path tc \<noteq> [] \<and> get_node_by_address (w_nodes w) (tc_addr tc w) \<noteq> None \<and>
     (\<forall>n \<in> set (crossed tc w). 0 \<le> n \<and> n < int (length (w_queues w)))"

lemma increment2_alt: "increment2 n = upd_queue n (add_flows 1)"
  and decrement2_alt: "decrement2 n = upd_queue n (add_flows (-1))"
  by (simp_all add: increment2_def decrement2_def add_flows_def [abs_def])

lemma rfold_filter:
  "rfold (\<lambda>l w. if P l then f (g l) w else Inr w) ls w = rfold f (map g (filter P ls)) w"
proof (induction ls arbitrary: w)
  case Nil
  then show ?case by simp
next
  case (Cons l ls)
  then show ?case by (cases "f (g l) w") simp_all
qed

lemma upd_queue_frame:
  "upd_queue n f w = Inr w' \<Longrightarrow> w_nodes w' = w_nodes w \<and> w_agents w' = w_agents w"
  by (auto simp: upd_queue_def rbind_eq_Inr)

lemma rfold_upd_queue_frame:
  assumes "rfold (\<lambda>n. upd_queue n f) ns w = Inr w'"
  shows "w_nodes w' = w_nodes w \<and> w_agents w' = w_agents w"
  by (rule rfold_invariant [OF assms, where P = "\<lambda>u. w_nodes u = w_nodes w \<and> w_agents u = w_agents w"])
    (auto dest: upd_queue_frame)

lemma hop_links:
  assumes "get_node_by_address (w_nodes w) (tc_addr tc w) = Some me"
  shows "rfold (\<lambda>(a, b) w. rbind (the_node w (tc_addr tc w)) (\<lambda>me.
      rfold (\<lambda>l w. if on_link a b l then upd_queue (tl_link_num l) f w else Inr w) (nd_topo_links (w_nodes w ! me)) w)) hs w
    = rfold (\<lambda>n. upd_queue n f) (path_links (nd_topo_links (w_nodes w ! me)) hs) w"
  using assms
proof (induction hs arbitrary: w)
  case Nil
  then show ?case by (simp add: path_links_def)
next
  case (Cons h hs)
  obtain a b where h: "h = (a, b)" by (cases h)
  let ?ns = "map tl_link_num (filter (on_link a b) (nd_topo_links (w_nodes w ! me)))"
  have split: "path_links ls ((a, b) # hs) = map tl_link_num (filter (on_link a b) ls) @ path_links ls hs" for ls
    by (simp add: path_links_def)
  show ?case
  proof (cases "rfold (\<lambda>n. upd_queue n f) ?ns w")
    case (Inl e)
    then show ?thesis
      using Cons.prems by (simp add: h the_node_def split rfold_append rfold_filter [where f = "\<lambda>n. upd_queue n f"])
  next
    case (Inr w1)
    from rfold_upd_queue_frame [OF Inr] have "w_nodes w1 = w_nodes w" "tc_addr tc w1 = tc_addr tc w"
      by (simp_all add: tc_addr_def)
    then show ?thesis
      using Cons.IH [of w1] Cons.prems Inr
      by (simp add: h the_node_def split rfold_append rfold_filter [where f = "\<lambda>n. upd_queue n f"])
  qed
qed

lemma at_links_eq:
  assumes "flow_in_place tc w"
  shows "at_links (\<lambda>n. upd_queue n f) tc w = rfold (\<lambda>n. upd_queue n f) (crossed tc w) w"
proof -
  obtain me where me: "get_node_by_address (w_nodes w) (tc_addr tc w) = Some me"
    using assms by (auto simp: flow_in_place_def)
  show ?thesis
    using assms hop_links [OF me] me
    by (simp add: at_links_def hops_from_def flow_in_place_def crossed_def my_links_def)
qed

lemma rfold_add_flows:
  assumes "\<forall>n \<in> set ns. 0 \<le> n \<and> n < int (length (w_queues w))"
  shows "\<exists>qs. rfold (\<lambda>n. upd_queue n (add_flows d)) ns w = Inr (w\<lparr>w_queues := qs\<rparr>) \<and>
    length qs = length (w_queues w) \<and>
    (\<forall>q < length qs. qs ! q = add_flows (d * int (count_list ns (int q))) (w_queues w ! q))"
  using assms
proof (induction ns arbitrary: w)
  case Nil
  then show ?case by (intro exI [of _ "w_queues w"]) (simp add: add_flows_def)
next
  case (Cons n ns)
  let ?w = "w\<lparr>w_queues := (w_queues w)[nat n := add_flows d (w_queues w ! nat n)]\<rparr>"
  have n: "0 \<le> n" "n < int (length (w_queues w))" using Cons.prems by auto
  then have step: "upd_queue n (add_flows d) w = Inr ?w"
    by (simp add: upd_queue_def walk_until_def)
  have "\<forall>m \<in> set ns. 0 \<le> m \<and> m < int (length (w_queues ?w))" using Cons.prems by simp
  from Cons.IH [OF this] obtain qs where qs: "rfold (\<lambda>n. upd_queue n (add_flows d)) ns ?w = Inr (?w\<lparr>w_queues := qs\<rparr>)"
    "length qs = length (w_queues w)"
    "\<forall>q < length qs. qs ! q = add_flows (d * int (count_list ns (int q))) (w_queues ?w ! q)" by auto
  have "qs ! q = add_flows (d * int (count_list (n # ns) (int q))) (w_queues w ! q)" if "q < length qs" for q
    using qs(2,3) that n by (cases "int q = n") (auto simp: add_flows_def nth_list_update algebra_simps)
  with step qs(1,2) show ?case by auto
qed

text \<open>Flows starting (\<open>True\<close>) and ending, in any order.\<close>

definition tally_step :: "bool \<times> tcp \<Rightarrow> world \<Rightarrow> world res" where
  "tally_step e = (if fst e then incrementFlows (snd e) else decrementFlows (snd e))"

definition signed_crossings :: "world \<Rightarrow> (bool \<times> tcp) list \<Rightarrow> int \<Rightarrow> int" where
  "signed_crossings w es q = (\<Sum>(starts, tc) \<leftarrow> es.
     (if starts then 1 else -1) * int (count_list (crossed tc w) q))"

lemma crossed_queues [simp]: "crossed tc (w\<lparr>w_queues := qs\<rparr>) = crossed tc w"
  by (simp add: crossed_def my_links_def tc_addr_def split: option.split)

lemma flow_in_place_queues [simp]:
  "length qs = length (w_queues w) \<Longrightarrow> flow_in_place tc (w\<lparr>w_queues := qs\<rparr>) = flow_in_place tc w"
  by (simp add: flow_in_place_def tc_addr_def)

lemma tally_step_eq:
  assumes "flow_in_place tc w"
  shows "\<exists>qs. tally_step (b, tc) w = Inr (w\<lparr>w_queues := qs\<rparr>) \<and> length qs = length (w_queues w) \<and>
    (\<forall>q < length qs. qs ! q = add_flows (signed_crossings w [(b, tc)] (int q)) (w_queues w ! q))"
proof -
  have "tally_step (b, tc) w = rfold (\<lambda>n. upd_queue n (add_flows (if b then 1 else -1))) (crossed tc w) w"
    unfolding tally_step_def incrementFlows_def decrementFlows_def
    using at_links_eq [OF assms] by (auto simp: increment2_alt [abs_def] decrement2_alt [abs_def])
  then show ?thesis
    using rfold_add_flows [of "crossed tc w" w "if b then 1 else -1"] assms
    by (simp add: flow_in_place_def signed_crossings_def)
qed

lemma count_run_eq:
  assumes "\<forall>(b, tc) \<in> set es. flow_in_place tc w"
  shows "\<exists>qs. rfold tally_step es w = Inr (w\<lparr>w_queues := qs\<rparr>) \<and> length qs = length (w_queues w) \<and>
    (\<forall>q < length qs. qs ! q = add_flows (signed_crossings w es (int q)) (w_queues w ! q))"
  using assms
proof (induction es arbitrary: w)
  case Nil
  then show ?case by (intro exI [of _ "w_queues w"]) (simp add: add_flows_def signed_crossings_def)
next
  case (Cons e es)
  obtain b tc where e: "e = (b, tc)" by (cases e)
  have "flow_in_place tc w" using Cons.prems e by simp
  from tally_step_eq [OF this, of b] obtain qs where qs: "tally_step (b, tc) w = Inr (w\<lparr>w_queues := qs\<rparr>)"
    "length qs = length (w_queues w)"
    "\<forall>q < length qs. qs ! q = add_flows (signed_crossings w [(b, tc)] (int q)) (w_queues w ! q)" by blast
  have "\<forall>(b, tc) \<in> set es. flow_in_place tc (w\<lparr>w_queues := qs\<rparr>)" using Cons.prems qs(2) by auto
  from Cons.IH [OF this] obtain qs' where qs': "rfold tally_step es (w\<lparr>w_queues := qs\<rparr>) = Inr (w\<lparr>w_queues := qs'\<rparr>)"
    "length qs' = length qs"
    "\<forall>q < length qs'. qs' ! q = add_flows (signed_crossings (w\<lparr>w_queues := qs\<rparr>) es (int q)) (qs ! q)" by auto
  have "signed_crossings (w\<lparr>w_queues := qs\<rparr>) es q = signed_crossings w es q" for q
    by (simp add: signed_crossings_def)
  moreover have "signed_crossings w (e # es) q = signed_crossings w [(b, tc)] q + signed_crossings w es q" for q
    by (simp add: signed_crossings_def e)
  ultimately show ?case
    using qs qs' by (intro exI [of _ qs']) (simp add: e add_flows_def algebra_simps)
qed

text \<open>
  C6. The flow counts of the queues are right over every history. After flows have started
  and ended in any order, each along its own path, the count of every queue has moved by the
  starts minus the ends of flows crossing it (once per crossing), and nothing else of the
  queues, nodes, agents or packets has changed.
\<close>

theorem queues_count_flows:
  assumes "\<forall>(b, tc) \<in> set es. flow_in_place tc w"
  shows "\<exists>qs. rfold (\<lambda>(starts, tc). if starts then incrementFlows tc else decrementFlows tc) es w
      = Inr (w\<lparr>w_queues := qs\<rparr>) \<and> length qs = length (w_queues w) \<and>
    (\<forall>q < length qs. qs ! q = (w_queues w ! q)\<lparr>gq_numFlows := gq_numFlows (w_queues w ! q) +
       (\<Sum>(starts, tc) \<leftarrow> es. (if starts then 1 else -1) * int (count_list (crossed tc w) (int q)))\<rparr>)"
proof -
  have "(\<lambda>(starts, tc). if starts then incrementFlows tc else decrementFlows tc) = tally_step"
    by (auto simp: tally_step_def)
  then show ?thesis
    using count_run_eq [OF assms] by (simp add: add_flows_def signed_crossings_def)
qed

definition demo_tcp :: "nat \<Rightarrow> int list \<Rightarrow> tcp" where
  "demo_tcp i path = \<lparr>tc_self = i, tc_flow_path = path, tc_prev_link = None, tc_btnk = None, tc_btnk_fix = 10,
     tc_btnk_wait = 10, tc_cwnd = 0, tc_poll_off = 0, tc_resched = 0\<rparr>"

lemma demo_flow [simp]:
  "crossed (demo_tcp 0 [0, 1]) demo_world = [0]" "flow_in_place (demo_tcp 0 [0, 1]) demo_world"
  by (simp_all add: flow_in_place_def crossed_def my_links_def path_links_def demo_tcp_def demo_world_def demo_node_def
      demo_agent_def demo_links_def Topo_links_def on_link_def tc_addr_def)

theorem queues_count_flows_witness:
  "\<exists>qs. rfold (\<lambda>(starts, tc). if starts then incrementFlows tc else decrementFlows tc)
      [(True, demo_tcp 0 [0, 1]), (True, demo_tcp 0 [0, 1]), (False, demo_tcp 0 [0, 1])] demo_world
    = Inr (demo_world\<lparr>w_queues := qs\<rparr>) \<and> map gq_numFlows qs = [4, 0]"
proof -
  obtain qs where qs: "rfold (\<lambda>(starts, tc). if starts then incrementFlows tc else decrementFlows tc)
      [(True, demo_tcp 0 [0, 1]), (True, demo_tcp 0 [0, 1]), (False, demo_tcp 0 [0, 1])] demo_world
    = Inr (demo_world\<lparr>w_queues := qs\<rparr>)" "length qs = 2"
    "\<forall>q < 2. qs ! q = (w_queues demo_world ! q)\<lparr>gq_numFlows := gq_numFlows (w_queues demo_world ! q) +
       (\<Sum>(starts, tc) \<leftarrow> [(True, demo_tcp 0 [0, 1]), (True, demo_tcp 0 [0, 1]), (False, demo_tcp 0 [0, 1])].
         (if starts then 1 else -1) * int (count_list (crossed tc demo_world) (int q)))\<rparr>"
    using queues_count_flows [of "[(True, demo_tcp 0 [0, 1]), (True, demo_tcp 0 [0, 1]), (False, demo_tcp 0 [0, 1])]" demo_world]
    by auto
  then have "map gq_numFlows qs = [gq_numFlows (qs ! 0), gq_numFlows (qs ! 1)]"
    by (cases qs; cases "tl qs"; auto)
  moreover have "gq_numFlows (w_queues demo_world ! 0) = 3" "gq_numFlows (w_queues demo_world ! 1) = 0"
    by (simp_all add: demo_world_def)
  ultimately show ?thesis using qs by (intro exI [of _ qs] conjI) (simp_all add: all_less_2)
qed

subsection \<open>The window\<close>

text \<open>A hop has a link in the topology; the share used is that of its last link there.\<close>

definition linked :: "topo_link list \<Rightarrow> int \<times> int \<Rightarrow> bool" where
  "linked ls h \<longleftrightarrow> list_ex (on_link (fst h) (snd h)) ls"

definition hop_share :: "topo_link list \<Rightarrow> int \<times> int \<Rightarrow> real" where
  "hop_share ls h = share (last (filter (on_link (fst h) (snd h)) ls))"

lemma link_rate_linked: "linked ls (a, b) \<Longrightarrow> link_rate ls a b r = Some (hop_share ls (a, b))"
proof (induction ls rule: rev_induct)
  case Nil
  then show ?case by (simp add: linked_def)
next
  case (snoc l ls)
  then show ?case by (auto simp: linked_def link_rate_def hop_share_def)
qed

lemma rfold_min_step:
  "\<forall>h \<in> set hs. linked ls h \<Longrightarrow>
   \<exists>r2'. rfold (min_step ls) hs (r2, Some r) = Inr (r2', Some (fold min (map (hop_share ls) hs) r))"
proof (induction hs arbitrary: r2 r)
  case Nil
  then show ?case by simp
next
  case (Cons h hs)
  obtain a b where h: "h = (a, b)" by (cases h)
  have "linked ls (a, b)" using Cons.prems h by simp
  from link_rate_linked [OF this]
  have "min_step ls h (r2, Some r) = Inr (Some (hop_share ls h), Some (min (hop_share ls h) r))"
    by (auto simp: min_step_def h rate_less_def Let_def min_def)
  then show ?case using Cons by simp
qed

lemma fold_min_Min: "fold min xs r = Min (insert r (set xs))" for r :: real
  by (metis Min.set_eq_fold list.set(2))

lemma path_rate_eq:
  assumes "tc_flow_path tc = a # b # ns" and "get_node_by_address (w_nodes w) (tc_addr tc w) \<noteq> None"
    and "\<forall>h \<in> set (hops (tc_flow_path tc)). linked (my_links tc w) h"
  shows "path_rate tc w = Inr (Min (hop_share (my_links tc w) ` set (hops (tc_flow_path tc))))"
proof -
  obtain me where me: "get_node_by_address (w_nodes w) (tc_addr tc w) = Some me" using assms(2) by auto
  then have ls: "my_links tc w = nd_topo_links (w_nodes w ! me)" by (simp add: my_links_def)
  let ?ls = "nd_topo_links (w_nodes w ! me)"
  have "linked ?ls (a, b)" using assms(1,3) ls by simp
  note first = link_rate_linked [OF this]
  obtain r2 where "rfold (min_step ?ls) (hops (a # b # ns)) (None, Some (hop_share ?ls (a, b))) =
      Inr (r2, Some (fold min (map (hop_share ?ls) (hops (a # b # ns))) (hop_share ?ls (a, b))))"
    using rfold_min_step [of "hops (a # b # ns)" ?ls None] assms(1,3) ls by metis
  then have "path_rate tc w = Inr (fold min (map (hop_share ?ls) (hops (a # b # ns))) (hop_share ?ls (a, b)))"
    using me first assms(1) by (simp add: path_rate_def the_node_def Let_def)
  also have "\<dots> = Inr (Min (insert (hop_share ?ls (a, b)) (set (map (hop_share ?ls) (hops (a # b # ns))))))"
    by (simp only: fold_min_Min)
  also have "insert (hop_share ?ls (a, b)) (set (map (hop_share ?ls) (hops (a # b # ns)))) =
      hop_share ?ls ` set (hops (a # b # ns))" by auto
  finally show ?thesis using ls assms(1) by simp
qed

text \<open>
  C17. One turn of the timer of a flow whose first link is at its own host: the statistics of
  that link are refreshed from its queue, nothing is sent, the timer is rescheduled once,
  and the window is the smallest share (capacity over flow count) of the links of the path,
  times the polling interval, in packets of 1500 bytes.
\<close>

theorem tcp_expire_window:
  assumes "tc_poll_off tc = 0" and "tc_flow_path tc = tc_addr tc w # b # ns"
    and "get_node_by_address (w_nodes w) (tc_addr tc w) = Some me" and "ls = nd_topo_links (w_nodes w ! me)"
    and "me < length (w_nodes w)"
    and "find (on_link (tc_addr tc w) b) ls = Some l" and "tl_link_num l = int k"
    and "k < length ls" and "k < length (w_queues w)"
    and "\<forall>h \<in> set (hops (tc_flow_path tc)). linked ls h"
    and "ls' = ls[k := (ls ! k)\<lparr>tl_stats := setStats (gq_cur_util (w_queues w ! k)) (real_of_int (gq_qlim (w_queues w ! k)))
      (gq_numFlows (w_queues w ! k)) (real_of_int (gq_byteLength (w_queues w ! k))) (tl_stats (ls ! k))\<rparr>]"
  shows "tcp_expire tgt tc w = Inr
    (tc\<lparr>tc_resched := tc_resched tc + 1,
        tc_cwnd := Min (hop_share ls' ` set (hops (tc_flow_path tc))) * POLL_RATE / 1500\<rparr>,
     upd_node me (\<lambda>n. n\<lparr>nd_topo_links := ls'\<rparr>) w)"
proof -
  let ?w = "upd_node me (\<lambda>n. n\<lparr>nd_topo_links := ls'\<rparr>) w"
  let ?tc = "tc\<lparr>tc_resched := tc_resched tc + 1\<rparr>"
  have addr: "tc_addr ?tc ?w = tc_addr tc w" "tc_addr ?tc w = tc_addr tc w"
    by (simp_all add: tc_addr_def upd_node_def)
  have me: "get_node_by_address (w_nodes ?w) (tc_addr ?tc ?w) = Some me"
    using assms(3) addr(1) by (simp add: upd_node_def)
  have my: "my_links ?tc ?w = ls'"
    using me assms(5) by (simp add: my_links_def) (simp add: upd_node_def)
  have "list_ex (on_link x y) ls' \<longleftrightarrow> list_ex (on_link x y) ls" for x y
  proof -
    have "on_link x y (ls' ! i) = on_link x y (ls ! i)" "length ls' = length ls" for i
      unfolding assms(11) by (cases "i = k"; simp add: on_link_def assms(8))+
    then show ?thesis by (simp add: list_ex_length)
  qed
  then have linked: "\<forall>h \<in> set (hops (tc_flow_path ?tc)). linked (my_links ?tc ?w) h"
    unfolding my using assms(10) by (simp add: linked_def)
  have "update_edge (tc_addr tc w) b ?tc w = Inr ?w"
    using assms(3,4,6,7,8,9,11) addr(2)
    by (simp add: update_edge_def the_node_def link_number_def Let_def)
  then have "poll_dht tgt ?tc w = set_window ?tc ?w"
    using assms(2) addr(2) by (simp add: poll_dht_def first_hop_def tcp_fetch_stats_def)
  moreover have "path_rate ?tc ?w = Inr (Min (hop_share ls' ` set (hops (tc_flow_path tc))))"
    using path_rate_eq [of ?tc "tc_addr tc w" b ns ?w] assms(2) me linked unfolding my by simp
  ultimately show ?thesis
    using assms(1) by (simp add: tcp_expire_def set_window_def)
qed

theorem tcp_expire_window_witness:
  "\<exists>w'. tcp_expire net_target (demo_tcp 0 [0, 1]) demo_world =
    Inr ((demo_tcp 0 [0, 1])\<lparr>tc_cwnd := 2000 / 3, tc_resched := 1\<rparr>, w')"
proof -
  let ?ls = "nd_topo_links (w_nodes demo_world ! 0)"
  have pre: "tc_poll_off (demo_tcp 0 [0, 1]) = 0"
    "tc_flow_path (demo_tcp 0 [0, 1]) = tc_addr (demo_tcp 0 [0, 1]) demo_world # 1 # []"
    "get_node_by_address (w_nodes demo_world) (tc_addr (demo_tcp 0 [0, 1]) demo_world) = Some 0"
    "find (on_link (tc_addr (demo_tcp 0 [0, 1]) demo_world) 1) ?ls = Some (Topo_links 0 1 0 10)"
    "tl_link_num (Topo_links 0 1 0 10) = int 0" "0 < length ?ls" "0 < length (w_queues demo_world)"
    "\<forall>h \<in> set (hops (tc_flow_path (demo_tcp 0 [0, 1]))). linked ?ls h" "0 < length (w_nodes demo_world)"
    by (simp_all add: demo_tcp_def tc_addr_def demo_world_def demo_agent_def demo_node_def demo_links_def on_link_def
        Topo_links_def linked_def)
  have "hop_share (?ls[0 := (?ls ! 0)\<lparr>tl_stats := setStats (gq_cur_util (w_queues demo_world ! 0))
      (real_of_int (gq_qlim (w_queues demo_world ! 0))) (gq_numFlows (w_queues demo_world ! 0))
      (real_of_int (gq_byteLength (w_queues demo_world ! 0))) (tl_stats (?ls ! 0))\<rparr>]) (0, 1) = 10000000000 / 3"
    by (simp add: hop_share_def demo_node_def demo_links_def Topo_links_def on_link_def share_def setStats_def
        demo_world_def)
  then show ?thesis
    using tcp_expire_window [OF pre(1-3) refl pre(9,4-8) refl, of net_target]
    by (simp add: demo_tcp_def POLL_RATE_def)
qed

end
