(* ===== verification/FlowControl.thy ===== *)
theory FlowControl
  imports TcpControl
begin

section \<open>What the flow controllers achieve together\<close>

text \<open>
  Properties of the flow controller beyond one call: the rates of all flows against the
  capacity of a link, the path a flow learns from the pathway map, the entry of a link a
  host manages itself, and a flow that is started again after its end.
\<close>

subsection \<open>No link is oversubscribed\<close>

definition simple_links :: "topo_link list \<Rightarrow> bool" where
  "simple_links ls \<longleftrightarrow> distinct (map (\<lambda>l. (tl_n_start l, tl_n_end l)) ls)"

definition crosses :: "int \<Rightarrow> world \<Rightarrow> tcp \<Rightarrow> bool" where
  "crosses q w tc \<longleftrightarrow> q \<in> set (crossed tc w)"

definition rate_of :: "world \<Rightarrow> tcp \<Rightarrow> real" where
  "rate_of w tc = (case path_rate tc w of Inr r \<Rightarrow> r | Inl _ \<Rightarrow> 0)"

lemma filter_on_link_simple:
  "simple_links ls \<Longrightarrow> l \<in> set ls \<Longrightarrow> on_link a b l \<Longrightarrow> filter (on_link a b) ls = [l]"
proof (induction ls)
  case Nil
  then show ?case by simp
next
  case (Cons m ls)
  have none: "filter (on_link a b) ls = []" if "on_link a b m"
    using Cons.prems(1) that by (auto simp: simple_links_def on_link_def filter_empty_conv image_iff)
  show ?case
  proof (cases "l = m")
    case True
    then show ?thesis using none Cons.prems(3) by simp
  next
    case False
    then have "l \<in> set ls" using Cons.prems(2) by simp
    then have "\<not> on_link a b m" using none Cons.prems(3) by (auto simp: filter_empty_conv)
    then show ?thesis using Cons \<open>l \<in> set ls\<close> by (simp add: simple_links_def)
  qed
qed

lemma hop_share_simple:
  "simple_links ls \<Longrightarrow> l \<in> set ls \<Longrightarrow> on_link a b l \<Longrightarrow> hop_share ls (a, b) = share l"
  by (simp add: hop_share_def filter_on_link_simple)

lemma path_links_iff:
  "q \<in> set (path_links ls hs) \<longleftrightarrow> (\<exists>(a, b) \<in> set hs. \<exists>l \<in> set ls. on_link a b l \<and> tl_link_num l = q)"
  by (auto simp: path_links_def)

lemma rate_of_bound:
  assumes "tc_flow_path tc = a # b # ns" and "get_node_by_address (w_nodes w) (tc_addr tc w) \<noteq> None"
    and "\<forall>h \<in> set (hops (tc_flow_path tc)). linked (my_links tc w) h"
    and "simple_links (my_links tc w)" and "crosses q w tc"
  shows "\<exists>l \<in> set (my_links tc w). tl_link_num l = q \<and> rate_of w tc \<le> share l"
proof -
  from assms(5) obtain x y l where h: "(x, y) \<in> set (hops (tc_flow_path tc))" "l \<in> set (my_links tc w)"
    "on_link x y l" "tl_link_num l = q"
    by (auto simp: crosses_def crossed_def path_links_iff)
  have "rate_of w tc = Min (hop_share (my_links tc w) ` set (hops (tc_flow_path tc)))"
    using path_rate_eq [OF assms(1-3)] by (simp add: rate_of_def)
  also have "\<dots> \<le> hop_share (my_links tc w) (x, y)"
    using h(1) by (intro Min_le) auto
  also have "\<dots> = share l" by (rule hop_share_simple [OF assms(4) h(2,3)])
  finally show ?thesis using h by blast
qed

text \<open>A flow whose path of at least one hop lies in a topology with one link per hop.\<close>

definition routed :: "world \<Rightarrow> tcp \<Rightarrow> bool" where
  "routed w tc \<longleftrightarrow> length (tc_flow_path tc) \<ge> 2 \<and>
     get_node_by_address (w_nodes w) (tc_addr tc w) \<noteq> None \<and> simple_links (my_links tc w) \<and>
     (\<forall>h \<in> set (hops (tc_flow_path tc)). linked (my_links tc w) h)"

lemma sum_list_bound: "\<forall>x \<in> set xs. f x \<le> c \<Longrightarrow> sum_list (map f xs) \<le> real (length xs) * c"
  by (induction xs) (auto simp: algebra_simps)

text \<open>
  C7. Which links can be oversubscribed. Let the flows know the capacity \<open>c\<close> (in Gbit/s) of
  link \<open>q\<close>, and let \<open>known tc\<close> be the number of flows on it in the statistics flow
  \<open>tc\<close> has of the link, however old these are. The rates the flows crossing \<open>q\<close> compute
  from their own statistics of all their links sum to at most the sum of the shares
  \<open>c / known tc\<close>; and if no flow has a number smaller than the number of flows that do
  cross \<open>q\<close>, to at most the capacity.
\<close>

theorem no_oversubscription:
  assumes "\<forall>tc \<in> set flows. crosses q w tc \<longrightarrow> routed w tc" and "0 \<le> c"
    and "\<forall>tc \<in> set flows. crosses q w tc \<longrightarrow> (\<forall>l \<in> set (my_links tc w). tl_link_num l = q \<longrightarrow>
      tl_capacity l = c \<and> st_no_flows (tl_stats l) = known tc)"
  shows "(\<Sum>tc \<leftarrow> filter (crosses q w) flows. rate_of w tc) \<le>
      (\<Sum>tc \<leftarrow> filter (crosses q w) flows. c * 1000000000 / real_of_int (max 1 (known tc))) \<and>
    ((\<forall>tc \<in> set flows. crosses q w tc \<longrightarrow> int (length (filter (crosses q w) flows)) \<le> known tc) \<longrightarrow>
      (\<Sum>tc \<leftarrow> filter (crosses q w) flows. rate_of w tc) \<le> c * 1000000000)"
proof -
  let ?n = "length (filter (crosses q w) flows)"
  let ?s = "\<lambda>k. c * 1000000000 / real_of_int (max 1 k)"
  have rate: "rate_of w tc \<le> ?s (known tc)" if "tc \<in> set (filter (crosses q w) flows)" for tc
  proof -
    have tc: "tc \<in> set flows" "crosses q w tc" using that by auto
    then obtain a b ns where path: "tc_flow_path tc = a # b # ns"
      using assms(1) by (auto simp: routed_def Suc_le_length_iff numeral_2_eq_2)
    with tc assms(1) have "\<exists>l \<in> set (my_links tc w). tl_link_num l = q \<and> rate_of w tc \<le> share l"
      by (intro rate_of_bound [OF path]) (auto simp: routed_def)
    then show ?thesis using assms(3) tc by (auto simp: share_def)
  qed
  have "(\<Sum>tc \<leftarrow> filter (crosses q w) flows. rate_of w tc) \<le> c * 1000000000"
    if "\<forall>tc \<in> set flows. crosses q w tc \<longrightarrow> int ?n \<le> known tc"
  proof -
    have "?s (known tc) \<le> ?s (int ?n)" if "int ?n \<le> known tc" for tc
      using that assms(2) by (intro divide_left_mono mult_nonneg_nonneg mult_pos_pos) auto
    then have "\<forall>tc \<in> set (filter (crosses q w) flows). rate_of w tc \<le> ?s (int ?n)"
      using rate that by fastforce
    then have "(\<Sum>tc \<leftarrow> filter (crosses q w) flows. rate_of w tc) \<le> real ?n * ?s (int ?n)"
      by (rule sum_list_bound)
    also have "\<dots> \<le> c * 1000000000"
      using assms(2) by (cases "?n = 0") (simp_all add: max_def Suc_le_eq)
    finally show ?thesis .
  qed
  then show ?thesis using rate by (blast intro: sum_list_mono)
qed

definition flows_world :: "int \<Rightarrow> world" where
  "flows_world k = demo_world\<lparr>w_nodes :=
     [(demo_node 0 demo_fixed)\<lparr>nd_topo_links := [(Topo_links 0 1 0 10)\<lparr>tl_stats :=
        setStats 1 50 k 0 (tl_stats (Topo_links 0 1 0 10))\<rparr>]\<rparr>]\<rparr>"

lemma flows_world_links:
  "my_links (demo_tcp 0 [0, 1]) (flows_world k) = [(Topo_links 0 1 0 10)\<lparr>tl_stats :=
     setStats 1 50 k 0 (tl_stats (Topo_links 0 1 0 10))\<rparr>]"
  by (simp add: my_links_def flows_world_def tc_addr_def demo_tcp_def demo_world_def demo_agent_def demo_node_def)

lemma flows_world_routed:
  "crosses 0 (flows_world k) (demo_tcp 0 [0, 1])" "routed (flows_world k) (demo_tcp 0 [0, 1])"
  unfolding crosses_def crossed_def routed_def flows_world_links
  by (simp_all add: demo_tcp_def path_links_def on_link_def Topo_links_def simple_links_def linked_def)
    (simp add: flows_world_def tc_addr_def demo_world_def demo_agent_def demo_node_def)

theorem no_oversubscription_witness:
  "(\<Sum>tc \<leftarrow> [demo_tcp 0 [0, 1], demo_tcp 0 [0, 1]]. rate_of (flows_world 2) tc) \<le> 10000000000 \<and>
   (\<Sum>tc \<leftarrow> [demo_tcp 0 [0, 1], demo_tcp 0 [0, 1]]. rate_of (flows_world 1) tc) \<le> 20000000000"
  using no_oversubscription [of "[demo_tcp 0 [0, 1], demo_tcp 0 [0, 1]]" 0 "flows_world 2" 10 "\<lambda>_. 2"]
    no_oversubscription [of "[demo_tcp 0 [0, 1], demo_tcp 0 [0, 1]]" 0 "flows_world 1" 10 "\<lambda>_. 1"]
  by (simp add: flows_world_links flows_world_routed) (simp add: setStats_def Topo_links_def)

text \<open>
  The condition is needed. Two flows on a link of 10 Gbit/s that both still have the count 1,
  as between the start of the second and the next poll, take twice its capacity.
\<close>

theorem stale_count_oversubscribes:
  "(\<Sum>tc \<leftarrow> [demo_tcp 0 [0, 1], demo_tcp 0 [0, 1]]. rate_of (flows_world 1) tc) = 20000000000"
proof -
  have path: "tc_flow_path (demo_tcp 0 [0, 1]) = 0 # 1 # []" by (simp add: demo_tcp_def)
  have "path_rate (demo_tcp 0 [0, 1]) (flows_world 1) =
      Inr (Min (hop_share (my_links (demo_tcp 0 [0, 1]) (flows_world 1)) ` set (hops (tc_flow_path (demo_tcp 0 [0, 1])))))"
    using flows_world_routed(2) [of 1] by (intro path_rate_eq [OF path]) (simp_all add: routed_def)
  then show ?thesis
    unfolding flows_world_links by (simp add: rate_of_def path hop_share_def on_link_def share_def setStats_def Topo_links_def)
qed

subsection \<open>The path a flow learns\<close>

text \<open>\<open>ns\<close> are the nodes along the links numbered \<open>ks\<close> of the topology.\<close>

fun chain :: "topo_link list \<Rightarrow> int list \<Rightarrow> nat list \<Rightarrow> bool" where
  "chain ls [n] [] \<longleftrightarrow> True"
| "chain ls (a # b # ns) (k # ks) \<longleftrightarrow>
     k < length ls \<and> tl_n_start (ls ! k) = a \<and> tl_n_end (ls ! k) = b \<and> chain ls (b # ns) ks"
| "chain ls _ _ \<longleftrightarrow> False"

lemma install_points:
  assumes "get_node_by_address (w_nodes w) (tc_addr tc w) = Some me"
    and "chain (nd_topo_links (w_nodes w ! me)) (a # ns) ks" and "tc_flow_path tc \<noteq> []"
  shows "rfold (install_point w) (map int ks) tc = Inr (tc\<lparr>tc_flow_path := tc_flow_path tc @ ns\<rparr>)"
  using assms
proof (induction ks arbitrary: a ns tc)
  case Nil
  then show ?case by (cases ns) simp_all
next
  case (Cons k ks)
  then obtain b ns' where ns: "ns = b # ns'" by (cases ns) auto
  let ?tc = "tc\<lparr>tc_flow_path := tc_flow_path tc @ [b]\<rparr>"
  have "install_point w (int k) tc = Inr ?tc"
    using Cons.prems by (simp add: install_point_def the_node_def ns)
  moreover have "rfold (install_point w) (map int ks) ?tc = Inr (?tc\<lparr>tc_flow_path := tc_flow_path ?tc @ ns'\<rparr>)"
    using Cons.prems by (intro Cons.IH [of _ b]) (simp_all add: ns tc_addr_def)
  ultimately show ?case by (simp add: ns)
qed

lemma install_points_fresh:
  assumes "get_node_by_address (w_nodes w) (tc_addr tc w) = Some me"
    and "chain (nd_topo_links (w_nodes w ! me)) ns (k # ks)" and "tc_flow_path tc = []"
  shows "rfold (install_point w) (map int (k # ks)) tc = Inr (tc\<lparr>tc_flow_path := ns\<rparr>)"
proof -
  obtain a b ns' where ns: "ns = a # b # ns'"
    using assms(2) by (cases ns rule: remdups_adj.cases) auto
  let ?tc = "tc\<lparr>tc_flow_path := [a, b]\<rparr>"
  have "install_point w (int k) tc = Inr ?tc"
    using assms by (simp add: install_point_def the_node_def ns)
  moreover have "rfold (install_point w) (map int ks) ?tc = Inr (?tc\<lparr>tc_flow_path := tc_flow_path ?tc @ ns'\<rparr>)"
    using assms by (intro install_points [of w ?tc me b ns' ks]) (simp_all add: ns tc_addr_def)
  ultimately show ?thesis by (simp add: ns)
qed

lemma rfold_one_match:
  assumes "distinct (map g xs)" and "x \<in> set xs" and "P (g x)" and "\<And>y. y \<in> set xs \<Longrightarrow> P (g y) \<Longrightarrow> g y = g x"
  shows "rfold (\<lambda>y s. if P (g y) then f y s else Inr s) xs s = f x s"
  using assms
proof (induction xs arbitrary: s)
  case Nil
  then show ?case by simp
next
  case (Cons y xs)
  have skip: "rfold (\<lambda>y s. if P (g y) then f y s else Inr s) xs s = Inr s" if "\<forall>z \<in> set xs. \<not> P (g z)" for s
    using that by (induction xs) simp_all
  show ?case
  proof (cases "y = x")
    case True
    have "\<not> P (g z)" if "z \<in> set xs" for z
    proof -
      have "g z \<noteq> g x" using Cons.prems(1) that True by (auto simp: rev_image_eqI)
      then show ?thesis using Cons.prems(4) [of z] that by auto
    qed
    then have "\<forall>z \<in> set xs. \<not> P (g z)" by blast
    then have "rfold (\<lambda>y s. if P (g y) then f y s else Inr s) xs = Inr" using skip by (intro ext)
    then show ?thesis unfolding True using Cons.prems(3) by simp
  next
    case False
    then have "x \<in> set xs" using Cons.prems(2) by simp
    have "g y \<noteq> g x" using Cons.prems(1) \<open>x \<in> set xs\<close> by (auto simp: rev_image_eqI)
    then have no: "\<not> P (g y)" using Cons.prems(4) [of y] by auto
    have "rfold (\<lambda>y s. if P (g y) then f y s else Inr s) xs s = f x s"
    proof (rule Cons.IH)
      show "distinct (map g xs)" using Cons.prems(1) by simp
      show "g z = g x" if "z \<in> set xs" "P (g z)" for z using that by (intro Cons.prems(4)) simp_all
    qed (fact \<open>x \<in> set xs\<close> Cons.prems(3))+
    then show ?thesis using no by simp
  qed
qed

lemma print_pathway_entry:
  assumes "map_in_order m" and "links_recorded (Some m) (own_key tc w) = ls" and "ls \<noteq> []"
  shows "print_pathway (Some m) w tc = rfold (install_point w) ls tc"
proof -
  from assms(2,3) obtain e where e: "find (\<lambda>e. fst (snd e) = own_key tc w) m = Some e" "pf_links (snd (snd e)) = ls"
    by (auto simp: links_recorded_def split: option.splits)
  from find_SomeD [OF e(1)] have m: "e \<in> set m" "fst (snd e) = own_key tc w" by simp_all
  have len: "length (own_key tc w) = 67" by (simp add: own_key_def Let_def)
  have "print_pathway (Some m) w tc = rfold (\<lambda>e s. if compare_strings (own_key tc w) (fst (snd e))
      then rfold (install_point w) (pf_links (snd (snd e))) s else Inr s) m tc"
  proof -
    have "rfold (\<lambda>(a, k, f) s. if compare_strings (own_key s w) k
        then rfold (install_point w) (pf_links f) s else Inr s) m t =
      rfold (\<lambda>e s. if compare_strings (own_key t w) (fst (snd e))
        then rfold (install_point w) (pf_links (snd (snd e))) s else Inr s) m t" for t
    proof (induction m arbitrary: t)
      case Nil
      then show ?case by simp
    next
      case (Cons x m)
      obtain a k f where x: "x = (a, k, f)" by (cases x)
      have frame: "own_key s w = own_key t w" if "rfold (install_point w) xs t = Inr s" for xs s
        by (rule rfold_invariant [OF that, where P = "\<lambda>s. own_key s w = own_key t w"])
          (auto simp: install_point_def own_key_def rbind_eq_Inr)
      show ?case
      proof (cases "compare_strings (own_key t w) k")
        case True
        then show ?thesis using Cons frame x by (cases "rfold (install_point w) (pf_links f) t") simp_all
      next
        case False
        then show ?thesis using Cons x by simp
      qed
    qed
    then show ?thesis by (simp add: print_pathway_def)
  qed
  also have "\<dots> = rfold (install_point w) (pf_links (snd (snd e))) tc"
  proof (rule rfold_one_match [where g = "\<lambda>e. fst (snd e)" and x = e and
        P = "\<lambda>k. compare_strings (own_key tc w) k" and f = "\<lambda>e. rfold (install_point w) (pf_links (snd (snd e)))"])
    show "distinct (map (\<lambda>e. fst (snd e)) m)"
      using assms(1) by (simp add: map_in_order_def keys_of_def case_prod_beta')
    show "compare_strings (own_key tc w) (fst (snd e))" using m(2) len by simp
    show "fst (snd y) = fst (snd e)" if "y \<in> set m" "compare_strings (own_key tc w) (fst (snd y))" for y
      using that assms(1) m(2) len by (auto simp: map_in_order_alt)
  qed (rule m(1))
  finally show ?thesis using e(2) by simp
qed

text \<open>
  The path a flow learns is the route its packets took. If the packets recorded under
  the key of a flow crossed the queues of the links \<open>k # ks\<close>, in this order of first
  crossings, and these links lead through the nodes \<open>ns\<close>, then \<open>flow_start\<close> installs
  exactly \<open>ns\<close> in a flow without a path; in a flow that has a path already (because
  \<open>print_pathway\<close> ran before) it appends the route again.
\<close>

theorem learned_path:
  assumes "distinct pqs" and "length pqs \<le> nq" and "\<forall>(q, a, h) \<in> set es. q \<in> set pqs"
    and "distinct (map (\<lambda>(q, a, h). a) es)"
    and "first_crossings pqs (own_key tc w) es = map int (k # ks)"
    and "get_node_by_address (w_nodes w) (tc_addr tc w) = Some me"
    and "chain (nd_topo_links (w_nodes w ! me)) ns (k # ks)"
  shows "\<exists>pg. record_all pqs nq es None = Inr pg \<and>
    print_pathway pg w tc = Inr (tc\<lparr>tc_flow_path :=
      (if tc_flow_path tc = [] then ns else tc_flow_path tc @ tl ns)\<rparr>)"
proof -
  obtain pg where pg: "record_all pqs nq es None = Inr pg" "pathway_ok pg"
    "links_recorded pg (own_key tc w) = map int (k # ks)"
    using record_all_spec [OF assms(1-4)] assms(5) by metis
  then obtain m where m: "pg = Some m" by (cases pg) (auto simp: links_recorded_def)
  then have "print_pathway pg w tc = rfold (install_point w) (map int (k # ks)) tc"
    using print_pathway_entry [of m tc w] pg by (simp add: pathway_ok_def)
  moreover have "rfold (install_point w) (map int (k # ks)) tc = Inr (tc\<lparr>tc_flow_path :=
      (if tc_flow_path tc = [] then ns else tc_flow_path tc @ tl ns)\<rparr>)"
  proof (cases "tc_flow_path tc = []")
    case True
    then show ?thesis using install_points_fresh [OF assms(6,7)] by simp
  next
    case False
    obtain a ns' where "ns = a # ns'" using assms(7) by (cases ns) auto
    then show ?thesis using install_points [OF assms(6) _ False, of a ns' "k # ks"] assms(7) False by simp
  qed
  ultimately show ?thesis using pg(1) by auto
qed

theorem learned_path_witness:
  "\<exists>pg. record_all [10, 11] 2 [(10, 100, zero_ip\<lparr>ip_saddr := 0, ip_daddr := 0\<rparr>)] None = Inr pg \<and>
     print_pathway pg demo_world (demo_tcp 0 []) = Inr (demo_tcp 0 [0, 1])"
proof -
  have k: "own_key (demo_tcp 0 []) demo_world = key_of (zero_ip\<lparr>ip_saddr := 0, ip_daddr := 0\<rparr>)"
    by (simp add: own_key_def key_of_def demo_tcp_def demo_world_def demo_agent_def zero_ip_def)
  have c: "chain (nd_topo_links (w_nodes demo_world ! 0)) [0, 1] [0]"
    by (simp add: demo_node_def demo_links_def Topo_links_def)
  have a: "get_node_by_address (w_nodes demo_world) (tc_addr (demo_tcp 0 []) demo_world) = Some 0"
    by (simp add: tc_addr_def demo_world_def demo_agent_def demo_node_def demo_tcp_def)
  show ?thesis
    using learned_path [OF _ _ _ _ _ a c, of "[10, 11]" 2 "[(10, 100, zero_ip\<lparr>ip_saddr := 0, ip_daddr := 0\<rparr>)]"] k
    by (simp add: first_crossings_def add_link_def demo_tcp_def)
qed

subsection \<open>A flow that is started again\<close>

text \<open>
  What a script and the timer do with the controller of a flow, in any order and in any state
  of the rest of the simulator.
\<close>

inductive flow_step :: "tcp \<Rightarrow> tcp \<Rightarrow> bool" where
  started: "flow_start tgt pg tc w = Inr (tc', w') \<Longrightarrow> flow_step tc tc'"
| ended: "flow_end tgt tc w = Inr (tc', w') \<Longrightarrow> flow_step tc tc'"
| expired: "tcp_expire tgt tc w = Inr (tc', w') \<Longrightarrow> flow_step tc tc'"
| learned: "print_pathway pg w tc = Inr tc' \<Longrightarrow> flow_step tc tc'"
| routed_anew: "install_path lookup_flat w tc = Inr tc' \<Longrightarrow> flow_step tc tc'"

definition closed_since :: "tcp \<Rightarrow> tcp \<Rightarrow> bool" where
  "closed_since tc t \<longleftrightarrow> tc_poll_off t = 1 \<and> tc_cwnd t = 0 \<and> tc_resched t = tc_resched tc"

lemma install_point_closed: "install_point w n t = Inr t' \<Longrightarrow> closed_since tc t' = closed_since tc t"
  by (auto simp: install_point_def rbind_eq_Inr closed_since_def)

lemma print_pathway_closed:
  assumes "print_pathway pg w t = Inr t'" and "closed_since tc t"
  shows "closed_since tc t'"
proof (cases pg)
  case None
  then show ?thesis using assms by (simp add: print_pathway_def)
next
  case (Some m)
  have points: "closed_since tc u'" if "rfold (install_point w) ns u = Inr u'" "closed_since tc u" for ns u u'
    using that(2) install_point_closed by (intro rfold_invariant [OF that(1), where P = "closed_since tc"]) blast+
  from Some assms(1) have "rfold (\<lambda>(a, k, f) t. if compare_strings (own_key t w) k
      then rfold (install_point w) (pf_links f) t else Inr t) m t = Inr t'"
    by (simp add: print_pathway_def)
  then show ?thesis
    by (rule rfold_invariant [where P = "closed_since tc"]) (use assms(2) points in \<open>auto split: if_splits\<close>)
qed

lemma flow_end_closes: "flow_end tgt tc w = Inr (tc', w') \<Longrightarrow> closed_since tc tc'"
  by (auto simp: flow_end_def Let_def rbind_eq_Inr closed_since_def)

lemma flow_step_closed:
  assumes "flow_step t t'" and "closed_since tc t"
  shows "closed_since tc t'"
  using assms
proof (induction rule: flow_step.induct)
  case (started tgt pg t w t' w')
  then obtain t1 where "print_pathway pg w t = Inr t1" "t' = t1 \<or> tc_poll_off t1 = 0"
    by (auto simp: flow_start_def rbind_eq_Inr tcp_expire_def split: if_splits)
  moreover from this(1) have "closed_since tc t1" by (rule print_pathway_closed) (fact started.prems)
  ultimately show ?case by (auto simp: closed_since_def)
next
  case (ended tgt t w t' w')
  then show ?case using flow_end_closes [OF ended.hyps] by (simp add: closed_since_def)
next
  case (expired tgt t w t' w')
  then show ?case by (simp add: tcp_expire_def closed_since_def)
next
  case (learned pg w t t')
  then show ?case by (rule print_pathway_closed)
next
  case (routed_anew lookup_flat w t t')
  then show ?case by (auto simp: install_path_def closed_since_def split: option.splits)
qed

text \<open>
  C38. The controller never opens the window of a flow that has ended once: \<open>flow_end\<close>
  switches the timer off for good. Whatever the script and the timer do afterwards, however
  often the flow is started, ended or its timer expires and whatever the other parts of the
  simulator do in between, the window the controller sets stays zero, the timer stays off and
  it is not rescheduled.
\<close>

theorem restarted_flow_stays_closed:
  assumes "flow_end tgt tc w = Inr (tc1, w1)" and "flow_step\<^sup>*\<^sup>* tc1 tc2"
  shows "tc_cwnd tc2 = 0 \<and> tc_poll_off tc2 = 1 \<and> tc_resched tc2 = tc_resched tc"
proof -
  have "closed_since tc tc2"
    using assms(2)
  proof (induction rule: rtranclp_induct)
    case base
    show ?case by (rule flow_end_closes [OF assms(1)])
  next
    case (step t t')
    then show ?case by (blast intro: flow_step_closed)
  qed
  then show ?thesis by (simp add: closed_since_def)
qed

lemma demo_tcp_closed [simp]: "(demo_tcp i ns)\<lparr>tc_cwnd := 0\<rparr> = demo_tcp i ns"
  by (simp add: demo_tcp_def)

lemma demo_restart:
  assumes "length qs = length (w_queues demo_world)" and "t = (demo_tcp 0 [0, 1])\<lparr>tc_poll_off := 1\<rparr>"
  shows "\<exists>qs'. flow_start net_target None t (demo_world\<lparr>w_queues := qs\<rparr>) = Inr (t, demo_world\<lparr>w_queues := qs'\<rparr>)"
proof -
  have "flow_in_place t u = flow_in_place (demo_tcp 0 [0, 1]) u" for u
    by (simp add: flow_in_place_def crossed_def my_links_def tc_addr_def assms(2) cong: option.case_cong)
  then have "flow_in_place t (demo_world\<lparr>w_queues := qs\<rparr>)" using assms(1) by simp
  then obtain qs' where "incrementFlows t (demo_world\<lparr>w_queues := qs\<rparr>) = Inr (demo_world\<lparr>w_queues := qs'\<rparr>)"
    using tally_step_eq [of t "demo_world\<lparr>w_queues := qs\<rparr>" True] by (auto simp: tally_step_def)
  moreover have "init_DHT net_target 1 t w = Inr w" and "tc_poll_off t = 1" for w
    by (simp_all add: init_DHT_def hops_from_def assms(2) demo_tcp_def)
  ultimately show ?thesis by (simp add: flow_start_def print_pathway_def tcp_expire_def) blast
qed

theorem restarted_flow_stays_closed_witness:
  "\<exists>tc w1 tc2 w2 tc3 w3. flow_end net_target (demo_tcp 0 [0, 1]) demo_world = Inr (tc, w1) \<and>
     flow_start net_target None tc w1 = Inr (tc2, w2) \<and> tcp_expire net_target tc2 w2 = Inr (tc3, w3) \<and>
     tc_cwnd tc3 = 0 \<and> tc_poll_off tc3 = 1 \<and> tc_resched tc3 = 0"
proof -
  let ?t = "(demo_tcp 0 [0, 1])\<lparr>tc_poll_off := 1\<rparr>"
  obtain qs where q: "decrementFlows (demo_tcp 0 [0, 1]) demo_world = Inr (demo_world\<lparr>w_queues := qs\<rparr>)"
    "length qs = length (w_queues demo_world)"
    using tally_step_eq [of "demo_tcp 0 [0, 1]" demo_world False] by (auto simp: tally_step_def)
  then have 1: "flow_end net_target (demo_tcp 0 [0, 1]) demo_world = Inr (?t, demo_world\<lparr>w_queues := qs\<rparr>)"
    by (simp add: flow_end_def Let_def) (simp add: init_DHT_def hops_from_def demo_tcp_def)
  obtain qs' where 2: "flow_start net_target None ?t (demo_world\<lparr>w_queues := qs\<rparr>) = Inr (?t, demo_world\<lparr>w_queues := qs'\<rparr>)"
    using demo_restart [OF q(2) refl] by blast
  have 3: "tcp_expire net_target ?t (demo_world\<lparr>w_queues := qs'\<rparr>) = Inr (?t, demo_world\<lparr>w_queues := qs'\<rparr>)"
    by (simp add: tcp_expire_def)
  have "flow_step\<^sup>*\<^sup>* ?t ?t"
    using flow_step.started [OF 2] flow_step.expired [OF 3] by (meson rtranclp.simps)
  from restarted_flow_stays_closed [OF 1 this] 1 2 3 show ?thesis by (auto simp: demo_tcp_def)
qed

subsection \<open>A link the host manages itself\<close>

lemma allocpkt_frame:
  "allocpkt i w = Inr (p, w1) \<Longrightarrow> w_nodes w1 = w_nodes w \<and> w_agents w1 = w_agents w"
  by (auto simp: allocpkt_def initpkt_def upd_pkt_def on_pool_def rbind_eq_Inr)

lemma request_stats_frame:
  assumes "request_stats net_target link nd status tc w = Inr w'"
  shows "w_nodes w' = w_nodes w \<and> tc_addr tc' w' = tc_addr tc' w"
proof -
  have seq: "ag_here_addr ((xs[i := (xs ! i)\<lparr>ag_seq := n\<rparr>]) ! k) = ag_here_addr (xs ! k)" for xs i n k
    by (cases "k = i"; cases "i < length xs") (simp_all add: list_update_beyond)
  have "w_nodes w' = w_nodes w \<and> tc_addr tc' w' = tc_addr tc' w"
    if "Raza_send_c net_target i sd lN status w = Inr w'" for i sd lN
    using that by (auto simp: Raza_send_c_def rbind_eq_Inr net_target_def upd_agent_def upd_raza_def upd_pkt_def
        on_pool_def tc_addr_def seq dest!: allocpkt_frame split: prod.splits)
  then show ?thesis
    using assms by (auto simp: request_stats_def rbind_eq_Inr send_c3_def Let_def split: if_splits)
qed

text \<open>The shape of a table, which no registration changes, and the mark every registration leaves.\<close>

definition skeleton :: "node \<Rightarrow> (int \<times> int list) list" where
  "skeleton n = map (\<lambda>fm. (fm_address fm, map fl_link_num (fm_fixed_links fm))) (nd_fixed_mappings n)"

definition counts_at :: "node \<Rightarrow> nat \<Rightarrow> nat \<Rightarrow> node_count list" where
  "counts_at n i j = fl_node_count (fm_fixed_links (nd_fixed_mappings n ! i) ! j)"

definition marked :: "int \<Rightarrow> node_count list \<Rightarrow> bool" where
  "marked a ncs \<longleftrightarrow> ncs \<noteq> [] \<and> last ncs = \<lparr>nc_node = a, nc_count = 1\<rparr>"

lemma marked_own_counts [simp]: "marked a (own_counts status a ncs)"
  by (simp add: marked_def own_counts_def)

lemma skeleton_own_link [simp]: "skeleton (own_link status a i j n) = skeleton n"
  unfolding skeleton_def own_link_def Let_def
  by (simp add: map_update_id [where f = "fl_node_count_update (\<lambda>_. x)" for x]
      map_update_id [where f = "fm_fixed_links_update (\<lambda>_. x)" for x])

lemma own_link_frame [simp]:
  "nd_topo_links (own_link status a i j n) = nd_topo_links n" "nd_address (own_link status a i j n) = nd_address n"
  by (simp_all add: own_link_def Let_def)

lemma skeleton_nth:
  assumes "skeleton n = sk" and "i < length sk"
  shows "i < length (nd_fixed_mappings n)" and "fm_address (nd_fixed_mappings n ! i) = fst (sk ! i)"
    and "map fl_link_num (fm_fixed_links (nd_fixed_mappings n ! i)) = snd (sk ! i)"
  using assms by (auto simp: skeleton_def)

lemma counts_at_own_link:
  assumes "i < length (nd_fixed_mappings n)" and "j < length (fm_fixed_links (nd_fixed_mappings n ! i))"
  shows "counts_at (own_link status a i' j' n) i j =
    (if i' = i \<and> j' = j then own_counts status a (counts_at n i j) else counts_at n i j)"
  using assms by (cases "i' = i"; cases "j' = j") (simp_all add: counts_at_def own_link_def Let_def)

text \<open>Where a registration stands: the node, its links, and the shape of its table.\<close>

definition registering :: "tcp \<Rightarrow> int \<Rightarrow> nat \<Rightarrow> topo_link list \<Rightarrow> (int \<times> int list) list \<Rightarrow> world \<Rightarrow> bool" where
  "registering tc a me ls sk w \<longleftrightarrow> tc_addr tc w = a \<and> get_node_by_address (w_nodes w) a = Some me \<and>
     nd_topo_links (w_nodes w ! me) = ls \<and> skeleton (w_nodes w ! me) = sk"

lemma init_entry_step:
  assumes "registering tc a me ls sk w" and "init_entry net_target status q me tc i' j' w = Inr w'"
  shows "registering tc a me ls sk w'"
    and "i < length sk \<Longrightarrow> j < length (snd (sk ! i)) \<Longrightarrow> marked a (counts_at (w_nodes w ! me) i j) \<Longrightarrow>
      marked a (counts_at (w_nodes w' ! me) i j)"
    and "i' = i \<Longrightarrow> j' = j \<Longrightarrow> i < length sk \<Longrightarrow> j < length (snd (sk ! i)) \<Longrightarrow> fst (sk ! i) = a \<Longrightarrow>
      snd (sk ! i) ! j = q \<Longrightarrow> marked a (counts_at (w_nodes w' ! me) i j)"
proof -
  let ?n = "w_nodes w ! me"
  have w: "tc_addr tc w = a" "get_node_by_address (w_nodes w) a = Some me" "nd_topo_links ?n = ls" "skeleton ?n = sk"
    using assms(1) by (simp_all add: registering_def)
  have me: "me < length (w_nodes w)" using get_node_by_address_Some [OF w(2)] by simp
  have cases: "(w_nodes w' = w_nodes w \<and> tc_addr tc w' = a) \<or>
    (fm_address (nd_fixed_mappings ?n ! i') = a \<and> w' = upd_node me (own_link status a i' j') w)"
    using assms(2) w(1) request_stats_frame
    by (auto simp: init_entry_def Let_def split: if_splits)
  have own: "w_nodes (upd_node me (own_link status a i' j') w) ! me = own_link status a i' j' ?n"
    "tc_addr tc (upd_node me (own_link status a i' j') w) = a"
    "get_node_by_address (w_nodes (upd_node me (own_link status a i' j') w)) a = Some me"
    using w me by (simp_all add: upd_node_def tc_addr_def)
  show "registering tc a me ls sk w'"
    using cases w own by (auto simp: registering_def)
  have dom: "i < length (nd_fixed_mappings ?n)" "j < length (fm_fixed_links (nd_fixed_mappings ?n ! i))"
    "map fl_link_num (fm_fixed_links (nd_fixed_mappings ?n ! i)) = snd (sk ! i)"
    "fm_address (nd_fixed_mappings ?n ! i) = fst (sk ! i)"
    if "i < length sk" "j < length (snd (sk ! i))"
  proof -
    note n = skeleton_nth [OF w(4) that(1)]
    show "i < length (nd_fixed_mappings ?n)" "map fl_link_num (fm_fixed_links (nd_fixed_mappings ?n ! i)) = snd (sk ! i)"
      "fm_address (nd_fixed_mappings ?n ! i) = fst (sk ! i)" by (rule n)+
    show "j < length (fm_fixed_links (nd_fixed_mappings ?n ! i))" using that(2) n(3) by (metis length_map)
  qed
  show "marked a (counts_at (w_nodes w' ! me) i j)"
    if "i < length sk" "j < length (snd (sk ! i))" "marked a (counts_at ?n i j)"
    using cases own counts_at_own_link [OF dom(1,2) [OF that(1,2)]] that(3) by auto
  show "marked a (counts_at (w_nodes w' ! me) i j)"
    if "i' = i" "j' = j" "i < length sk" "j < length (snd (sk ! i))" "fst (sk ! i) = a" "snd (sk ! i) ! j = q"
  proof -
    note d = dom [OF that(3,4)]
    have "fl_link_num (fm_fixed_links (nd_fixed_mappings ?n ! i) ! j) = q"
      using d(2,3) that(6) by (metis nth_map)
    then have "w' = upd_node me (own_link status a i j) w"
      using assms(2) that(1,2,5) d(4) w(1) by (simp add: init_entry_def Let_def)
    then show ?thesis using own counts_at_own_link [OF d(1,2)] that(1,2) by simp
  qed
qed

lemma init_mapping_step:
  assumes "registering tc a me ls sk w"
    and "init_mapping net_target status q lo hi me tc i' w = Inr w'"
  shows "registering tc a me ls sk w'"
    and "i < length sk \<Longrightarrow> j < length (snd (sk ! i)) \<Longrightarrow> marked a (counts_at (w_nodes w ! me) i j) \<Longrightarrow>
      marked a (counts_at (w_nodes w' ! me) i j)"
    and "i' = i \<Longrightarrow> i < length sk \<Longrightarrow> j < length (snd (sk ! i)) \<Longrightarrow> fst (sk ! i) = a \<Longrightarrow> lo \<le> a \<Longrightarrow> a \<le> hi \<Longrightarrow>
      snd (sk ! i) ! j = q \<Longrightarrow> marked a (counts_at (w_nodes w' ! me) i j)"
proof -
  let ?I = "registering tc a me ls sk"
  let ?M = "\<lambda>w. marked a (counts_at (w_nodes w ! me) i j)"
  let ?fm = "nd_fixed_mappings (w_nodes w ! me) ! i'"
  have run: "w' = w \<or> rfold (init_entry net_target status q me tc i') [0..<length (fm_fixed_links ?fm)] w = Inr w'"
    using assms(2) by (auto simp: init_mapping_def Let_def split: if_splits)
  show "?I w'"
    using run
  proof
    assume "rfold (init_entry net_target status q me tc i') [0..<length (fm_fixed_links ?fm)] w = Inr w'"
    then show ?thesis by (rule rfold_invariant [where P = ?I]) (use assms(1) init_entry_step(1) in blast)+
  qed (use assms(1) in simp)
  show "?M w'" if m: "i < length sk" "j < length (snd (sk ! i))" "?M w"
    using run
  proof
    assume "rfold (init_entry net_target status q me tc i') [0..<length (fm_fixed_links ?fm)] w = Inr w'"
    then have "?I w' \<and> ?M w'"
    proof (rule rfold_invariant [where P = "\<lambda>w. ?I w \<and> ?M w"])
      show "?I w \<and> ?M w" using assms(1) m(3) by simp
      show "?I v \<and> ?M v" if "?I u \<and> ?M u" "init_entry net_target status q me tc i' k u = Inr v" for k u v
        using init_entry_step(1) [of tc a me ls sk u status q i' k v] init_entry_step(2) [of tc a me ls sk u status q i' k v i j] that m(1,2) by simp
    qed
    then show ?thesis by simp
  qed (use m(3) in simp)
  show "?M w'" if m: "i' = i" "i < length sk" "j < length (snd (sk ! i))" "fst (sk ! i) = a" "lo \<le> a" "a \<le> hi"
    "snd (sk ! i) ! j = q"
  proof -
    have sk: "skeleton (w_nodes w ! me) = sk" using assms(1) by (simp add: registering_def)
    note n = skeleton_nth [OF sk m(2)]
    have j: "j < length (fm_fixed_links ?fm)" using n(3) m(1,3) by (metis length_map)
    have r: "rfold (init_entry net_target status q me tc i) [0..<length (fm_fixed_links ?fm)] w = Inr w'"
      using assms(2) n(2) m by (simp add: init_mapping_def Let_def)
    have "?I w' \<and> ?M w'"
    proof (rule rfold_reaches [where I = ?I and P = ?M, OF r assms(1), where x = j])
      show "j \<in> set [0..<length (fm_fixed_links ?fm)]" using j by simp
      show "?I v" if "?I u" "init_entry net_target status q me tc i k u = Inr v" for k u v
        by (rule init_entry_step(1) [OF that])
      show "?M v" if "?I u" "init_entry net_target status q me tc i j u = Inr v" for u v
        by (rule init_entry_step(3) [OF that refl refl m(2-4,7)])
      show "?M v" if "?I u" "?M u" "init_entry net_target status q me tc i k u = Inr v" for k u v
        by (rule init_entry_step(2) [OF that(1,3) m(2,3) that(2)])
    qed
    then show ?thesis by simp
  qed
qed

lemma init_hop_step:
  assumes "registering tc a me ls sk (snd s)" and "init_hop net_target status lo hi tc h s = Inr s'"
  shows "registering tc a me ls sk (snd s')"
    and "i < length sk \<Longrightarrow> j < length (snd (sk ! i)) \<Longrightarrow> marked a (counts_at (w_nodes (snd s) ! me) i j) \<Longrightarrow>
      marked a (counts_at (w_nodes (snd s') ! me) i j)"
    and "find (on_link (fst h) (snd h)) ls = Some l \<Longrightarrow> tl_link_num l = q \<Longrightarrow>
      i < length sk \<Longrightarrow> j < length (snd (sk ! i)) \<Longrightarrow> fst (sk ! i) = a \<Longrightarrow> lo \<le> a \<Longrightarrow> a \<le> hi \<Longrightarrow>
      snd (sk ! i) ! j = q \<Longrightarrow> marked a (counts_at (w_nodes (snd s') ! me) i j)"
proof -
  let ?I = "registering tc a me ls sk"
  let ?M = "\<lambda>w. marked a (counts_at (w_nodes w ! me) i j)"
  obtain x y b w where s: "h = (x, y)" "s = (b, w)" by (cases h, cases s)
  let ?q = "link_number ls x y b"
  have I: "?I w" using assms(1) by (simp add: s)
  then have me: "get_node_by_address (w_nodes w) (tc_addr tc w) = Some me" "nd_topo_links (w_nodes w ! me) = ls"
    "skeleton (w_nodes w ! me) = sk"
    by (simp_all add: registering_def)
  from assms(2) me have run: "rfold (init_mapping net_target status ?q lo hi me tc)
      [0..<length (nd_fixed_mappings (w_nodes w ! me))] w = Inr (snd s')"
    by (auto simp: init_hop_def s the_node_def Let_def rbind_eq_Inr)
  show "?I (snd s')"
    by (rule rfold_invariant [OF run, where P = ?I]) (use I init_mapping_step(1) in blast)+
  show "?M (snd s')" if m: "i < length sk" "j < length (snd (sk ! i))" "?M (snd s)"
  proof -
    have "?I (snd s') \<and> ?M (snd s')"
    proof (rule rfold_invariant [OF run, where P = "\<lambda>w. ?I w \<and> ?M w"])
      show "?I w \<and> ?M w" using I m(3) s by simp
      show "?I v \<and> ?M v" if "?I u \<and> ?M u" "init_mapping net_target status ?q lo hi me tc k u = Inr v" for k u v
        using init_mapping_step(1) [of tc a me ls sk u status ?q lo hi k v] init_mapping_step(2) [of tc a me ls sk u status ?q lo hi k v i j] that m(1,2) by simp
    qed
    then show ?thesis by simp
  qed
  show "?M (snd s')" if m: "find (on_link (fst h) (snd h)) ls = Some l" "tl_link_num l = q" "i < length sk"
    "j < length (snd (sk ! i))" "fst (sk ! i) = a" "lo \<le> a" "a \<le> hi" "snd (sk ! i) ! j = q"
  proof -
    have q: "?q = q" using m(1,2) by (simp add: link_number_def s)
    have "?I (snd s') \<and> ?M (snd s')"
    proof (rule rfold_reaches [where I = ?I and P = ?M, OF run I, where x = i])
      show "i \<in> set [0..<length (nd_fixed_mappings (w_nodes w ! me))]" using skeleton_nth(1) [OF me(3) m(3)] by simp
      show "?I v" if "?I u" "init_mapping net_target status ?q lo hi me tc k u = Inr v" for k u v
        by (rule init_mapping_step(1) [OF that])
      show "?M v" if "?I u" "init_mapping net_target status ?q lo hi me tc i u = Inr v" for u v
        by (rule init_mapping_step(3) [OF that refl m(3-7)]) (simp add: q m(8))
      show "?M v" if "?I u" "?M u" "init_mapping net_target status ?q lo hi me tc k u = Inr v" for k u v
        by (rule init_mapping_step(2) [OF that(1,3) m(3,4) that(2)])
    qed
    then show ?thesis by simp
  qed
qed

lemma rack_start_own: "0 \<le> a \<Longrightarrow> rack_start a \<le> a \<and> a \<le> rack_start a + HOST_PER_RACK - 1"
  by (simp add: rack_start_def HOST_PER_RACK_def) presburger

text \<open>
  C39. A link the host manages itself is never given up. Whenever \<open>init_DHT\<close> returns, at
  the start or at the end of a flow, every own table entry for a link of the path (after the
  first hop) ends with an asker that is this host, with the count 1, so the timer goes on
  polling that link: the \<open>break\<close> that should have skipped the new entry only leaves the
  scan.
\<close>

theorem own_link_never_idle:
  assumes "init_DHT net_target status tc w = Inr w'"
    and "0 \<le> a" and "tc_addr tc w = a" and "get_node_by_address (w_nodes w) a = Some me"
    and "(x, y) \<in> set (hops (tl (tc_flow_path tc)))"
    and "find (on_link x y) (nd_topo_links (w_nodes w ! me)) = Some l"
    and "i < length (nd_fixed_mappings (w_nodes w ! me))" and "fm_address (nd_fixed_mappings (w_nodes w ! me) ! i) = a"
    and "j < length (fm_fixed_links (nd_fixed_mappings (w_nodes w ! me) ! i))"
    and "fl_link_num (fm_fixed_links (nd_fixed_mappings (w_nodes w ! me) ! i) ! j) = tl_link_num l"
  shows "\<exists>ncs. fl_node_count (fm_fixed_links (nd_fixed_mappings (w_nodes w' ! me) ! i) ! j) =
    ncs @ [\<lparr>nc_node = a, nc_count = 1\<rparr>]"
proof -
  let ?n = "w_nodes w ! me"
  let ?I = "\<lambda>s. registering tc a me (nd_topo_links ?n) (skeleton ?n) (snd s)"
  let ?M = "\<lambda>s. marked a (counts_at (w_nodes (snd s) ! me) i j)"
  have sk: "i < length (skeleton ?n)" "j < length (snd (skeleton ?n ! i))" "fst (skeleton ?n ! i) = a"
    "snd (skeleton ?n ! i) ! j = tl_link_num l"
    using assms(7-10) by (simp_all add: skeleton_def)
  note rack = rack_start_own [OF assms(2)]
  from assms(1,3) obtain s where s: "w' = snd s" "rfold (init_hop net_target status (rack_start a)
      (rack_start a + HOST_PER_RACK - 1) tc) (hops (tl (tc_flow_path tc))) (-1, w) = Inr s"
    by (auto simp: init_DHT_def rbind_eq_Inr hops_from_def Let_def split: if_splits)
  have "?I s \<and> ?M s"
  proof (rule rfold_reaches [OF s(2) _ assms(5), where I = ?I and P = ?M])
    show "?I (-1, w)" using assms(3,4) by (simp add: registering_def)
    show "?M t" if "?I u" "init_hop net_target status (rack_start a) (rack_start a + HOST_PER_RACK - 1) tc (x, y) u = Inr t" for u t
      using init_hop_step(3) [OF that, of l "tl_link_num l" i j] assms(6) sk rack by simp
    show "?M t" if "?I u" "?M u" "init_hop net_target status (rack_start a) (rack_start a + HOST_PER_RACK - 1) tc h u = Inr t"
      for h u t
      using init_hop_step(2) [OF that(1,3) sk(1,2) that(2)] .
    show "?I t" if "?I u" "init_hop net_target status (rack_start a) (rack_start a + HOST_PER_RACK - 1) tc h u = Inr t"
      for h u t
      by (rule init_hop_step(1) [OF that])
  qed
  then have "marked a (counts_at (w_nodes w' ! me) i j)" by (simp add: s(1))
  then show ?thesis unfolding marked_def counts_at_def by (metis append_butlast_last_id)
qed

definition idle_world :: world where
  "idle_world = demo_world\<lparr>w_nodes :=
     [demo_node 0 [\<lparr>fl_link_num = 0, fl_node_count = [\<lparr>nc_node = 0, nc_count = 0\<rparr>]\<rparr>], demo_node 1 demo_fixed]\<rparr>"

lemmas idle_simps = demo_tcp_def tc_addr_def idle_world_def demo_world_def demo_agent_def demo_node_def demo_links_def
  on_link_def Topo_links_def

text \<open>No host asks for the link before; the flow ends; and the host asks for it from then on.\<close>

theorem own_link_never_idle_witness:
  "\<not> list_ex (\<lambda>nc. nc_count nc > 0)
       (fl_node_count (fm_fixed_links (nd_fixed_mappings (w_nodes idle_world ! 0) ! 0) ! 0)) \<and>
   (\<exists>w' ncs. init_DHT net_target 0 (demo_tcp 0 [1, 0, 1]) idle_world = Inr w' \<and>
     fl_node_count (fm_fixed_links (nd_fixed_mappings (w_nodes w' ! 0) ! 0) ! 0) = ncs @ [\<lparr>nc_node = 0, nc_count = 1\<rparr>])"
proof -
  have pre: "tc_addr (demo_tcp 0 [1, 0, 1]) idle_world = 0" "get_node_by_address (w_nodes idle_world) 0 = Some 0"
    "(0, 1) \<in> set (hops (tl (tc_flow_path (demo_tcp 0 [1, 0, 1]))))"
    "find (on_link 0 1) (nd_topo_links (w_nodes idle_world ! 0)) = Some (Topo_links 0 1 0 10)"
    "0 < length (nd_fixed_mappings (w_nodes idle_world ! 0))"
    "fm_address (nd_fixed_mappings (w_nodes idle_world ! 0) ! 0) = 0"
    "0 < length (fm_fixed_links (nd_fixed_mappings (w_nodes idle_world ! 0) ! 0))"
    "fl_link_num (fm_fixed_links (nd_fixed_mappings (w_nodes idle_world ! 0) ! 0) ! 0) = tl_link_num (Topo_links 0 1 0 10)"
    by (simp_all add: idle_simps)
  have "\<exists>w'. init_DHT net_target 0 (demo_tcp 0 [1, 0, 1]) idle_world = Inr w'"
    by (simp add: init_DHT_def hops_from_def init_hop_def init_mapping_def init_entry_def the_node_def link_number_def
        idle_simps upd_node_def own_link_def rack_start_def HOST_PER_RACK_def Let_def)
  then obtain w' where w': "init_DHT net_target 0 (demo_tcp 0 [1, 0, 1]) idle_world = Inr w'" by blast
  have "\<not> list_ex (\<lambda>nc. nc_count nc > 0)
      (fl_node_count (fm_fixed_links (nd_fixed_mappings (w_nodes idle_world ! 0) ! 0) ! 0))"
    by (simp add: idle_simps)
  then show ?thesis using own_link_never_idle [OF w' _ pre] w' by auto
qed

end
