(* ===== verification/NodeTopology.thy ===== *)
theory NodeTopology
  imports EndhostWorld
begin

section \<open>Reading the topology: the constructor of a node\<close>

text \<open>
  Every \<open>Node\<close> of common/node.cc reads the whole topology when it is constructed: the
  nodes and links from \<open>out.txt\<close>, and from \<open>mapping.txt\<close> which host watches which
  links. The input streams are modelled with their state bits, because the loops depend
  on them; a loop that never reaches the end of its file is a value \<open>None\<close>. Numbers are
  unbounded; \<open>atof\<close> is modelled for decimal fractions (no exponents, hexadecimal
  numbers, infinities or NaNs).
\<close>

subsection \<open>Streams\<close>

record istream =
  is_rest :: string
  is_eof :: bool
  is_fail :: bool

definition opened :: "string option \<Rightarrow> istream" where
  "opened f = (case f of Some s \<Rightarrow> \<lparr>is_rest = s, is_eof = False, is_fail = False\<rparr>
     | None \<Rightarrow> \<lparr>is_rest = [], is_eof = False, is_fail = True\<rparr>)"

text \<open>\<open>std::getline\<close>: nothing is read, and the string kept, on a stream that is not good.\<close>

definition getline :: "char \<Rightarrow> istream \<Rightarrow> string \<Rightarrow> istream \<times> string" where
  "getline d st buf =
     (if is_eof st \<or> is_fail st then (st\<lparr>is_fail := True\<rparr>, buf)
      else let l = takeWhile (\<lambda>c. c \<noteq> d) (is_rest st) in
        case dropWhile (\<lambda>c. c \<noteq> d) (is_rest st) of
          [] \<Rightarrow> (st\<lparr>is_rest := [], is_eof := True, is_fail := (l = [])\<rparr>, l)
        | c # r \<Rightarrow> (st\<lparr>is_rest := r\<rparr>, l))"

abbreviation newline :: char where "newline \<equiv> CHR 0x0A"

definition is_space :: "char \<Rightarrow> bool" where
  "is_space c \<longleftrightarrow> c \<in> {CHR '' '', CHR 0x09, CHR 0x0A, CHR 0x0B, CHR 0x0C, CHR 0x0D}"

definition digit_value :: "char \<Rightarrow> int" where
  "digit_value c = int (of_char c) - 48"

definition is_digit :: "char \<Rightarrow> bool" where
  "is_digit c \<longleftrightarrow> 48 \<le> (of_char c :: nat) \<and> (of_char c :: nat) \<le> 57"

definition digits_value :: "string \<Rightarrow> int" where
  "digits_value s = foldl (\<lambda>n c. 10 * n + digit_value c) 0 s"

definition after_sign :: "string \<Rightarrow> string" where
  "after_sign s = (case s of [] \<Rightarrow> [] | c # r \<Rightarrow> if c = CHR ''-'' \<or> c = CHR ''+'' then r else s)"

definition is_negative :: "string \<Rightarrow> bool" where
  "is_negative s \<longleftrightarrow> (case s of [] \<Rightarrow> False | c # r \<Rightarrow> c = CHR ''-'')"

definition atoi :: "string \<Rightarrow> int" where
  "atoi s = (let t = dropWhile is_space s; n = digits_value (takeWhile is_digit (after_sign t)) in
     if is_negative t then - n else n)"

definition atof :: "string \<Rightarrow> real" where
  "atof s =
     (let t = dropWhile is_space s; u = after_sign t;
          i = takeWhile is_digit u; r = dropWhile is_digit u;
          f = (case r of [] \<Rightarrow> [] | c # r' \<Rightarrow> if c = CHR ''.'' then takeWhile is_digit r' else []);
          x = real_of_int (digits_value i) + real_of_int (digits_value f) / 10 ^ length f in
      if is_negative t then - x else x)"

subsection \<open>The mapping file\<close>

text \<open>The numbers of a line after its first token.\<close>

lemma getline_shorter:
  assumes "\<not> is_fail (fst (getline d st buf))"
  shows "length (is_rest (fst (getline d st buf))) < length (is_rest st)"
proof (cases "is_eof st \<or> is_fail st")
  case True
  then show ?thesis using assms by (simp add: getline_def)
next
  case False
  have "length (dropWhile (\<lambda>c. c \<noteq> d) (is_rest st)) \<le> length (is_rest st)" by (rule length_dropWhile_le)
  then show ?thesis
    using False assms by (cases "dropWhile (\<lambda>c. c \<noteq> d) (is_rest st)"; cases "is_rest st")
      (auto simp: getline_def Let_def split: if_splits)
qed

function read_links :: "istream \<Rightarrow> string \<Rightarrow> fixed_links list" where
  "read_links st token =
     (let (st', token') = getline CHR '' '' st token in
      if is_fail st' then [] else Fixed_links (atoi token') # read_links st' token')"
  by pat_completeness auto
termination
proof (relation "measure (\<lambda>(st, token). length (is_rest st))")
  fix st token x st' token'
  assume "x = getline CHR '' '' st token" "(st', token') = x" "\<not> is_fail st'"
  then show "((st', token'), (st, token)) \<in> measure (\<lambda>(st, token). length (is_rest st))"
    using getline_shorter [of "CHR '' ''" st token] by (metis case_prod_conv fst_conv in_measure)
qed simp

declare read_links.simps [simp del]

definition mapping_line :: "string \<Rightarrow> fixed_links list" where
  "mapping_line b = (let (st, token) = getline CHR '' '' (opened (Some b)) [] in read_links st token)"

text \<open>The loop over the lines; each makes an entry, numbered from zero, also an empty last one.\<close>

partial_function (option) mapping_loop ::
    "istream \<Rightarrow> string \<Rightarrow> int \<Rightarrow> fixed_mappings list \<Rightarrow> fixed_mappings list option" where
  "mapping_loop st b m fms =
     (if is_eof st then Some fms
      else mapping_loop (fst (getline newline st b)) (snd (getline newline st b)) (m + 1)
        (fms @ [\<lparr>fm_address = m, fm_fixed_links = mapping_line (snd (getline newline st b))\<rparr>]))"

definition read_mappings :: "string option \<Rightarrow> fixed_mappings list option" where
  "read_mappings f = mapping_loop (opened f) [] 0 []"

subsection \<open>The topology file\<close>

record topo_scan =
  ts_in :: istream
  ts_buffer :: string
  ts_is_node :: bool
  ts_nodes :: "int list"
  ts_links :: "topo_link list"

definition scan_getline :: "char \<Rightarrow> topo_scan \<Rightarrow> topo_scan" where
  "scan_getline d s = (let (st, b) = getline d (ts_in s) (ts_buffer s) in s\<lparr>ts_in := st, ts_buffer := b\<rparr>)"

text \<open>One turn of the loop, with its three \<open>continue\<close>s.\<close>

definition topo_step :: "topo_scan \<Rightarrow> topo_scan" where
  "topo_step s =
     (if ts_buffer s = [] then s
      else if ts_buffer s = ''Links'' \<and> ts_is_node s then s\<lparr>ts_is_node := False\<rparr>
      else if ts_is_node s then
        scan_getline newline (s\<lparr>ts_nodes := ts_nodes s @ [atoi (ts_buffer s)]\<rparr>)
      else
        let s1 = scan_getline CHR '' '' s in
        if ts_buffer s1 = [] then s1
        else let s2 = scan_getline CHR '' '' s1; s3 = scan_getline CHR '' '' s2; s4 = scan_getline newline s3 in
          s4\<lparr>ts_links := ts_links s4 @ [Topo_links (atoi (ts_buffer s1)) (atoi (ts_buffer s2))
               (atoi (ts_buffer s3)) (atof (ts_buffer s4))]\<rparr>)"

partial_function (option) topo_loop :: "topo_scan \<Rightarrow> (int list \<times> topo_link list) option" where
  "topo_loop s = (if is_eof (ts_in s) then Some (ts_nodes s, ts_links s) else topo_loop (topo_step s))"

definition read_topology :: "string option \<Rightarrow> (int list \<times> topo_link list) option" where
  "read_topology f = topo_loop (scan_getline newline
     \<lparr>ts_in = opened f, ts_buffer = [], ts_is_node = True, ts_nodes = [], ts_links = []\<rparr>)"

text \<open>\<open>Node::Node\<close>, which puts itself at the head of the static list of nodes.\<close>

definition new_node :: "string option \<Rightarrow> string option \<Rightarrow> world \<Rightarrow> world res" where
  "new_node out_txt mapping_txt w =
     (case read_mappings mapping_txt of
        None \<Rightarrow> Inl Diverges
      | Some fms \<Rightarrow>
          (case read_topology out_txt of
             None \<Rightarrow> Inl Diverges
           | Some (ns, ls) \<Rightarrow>
               Inr (w\<lparr>w_nodes := \<lparr>nd_address = -1, nd_nodeid = -1, nd_poll_stat = 0, nd_topo_nodes = ns,
                 nd_topo_links = ls, nd_fixed_mappings = fms, nd_num_flow = 0, nd_neighbor_list = []\<rparr> # w_nodes w\<rparr>)))"

subsection \<open>Files in good form\<close>

text \<open>A word can be read up to a blank or the end of its line.\<close>

definition word :: "string \<Rightarrow> bool" where
  "word s \<longleftrightarrow> s \<noteq> [] \<and> CHR '' '' \<notin> set s \<and> newline \<notin> set s"

definition link_line :: "string \<times> string \<times> string \<times> string \<Rightarrow> string" where
  "link_line l = (case l of (s, e, n, c) \<Rightarrow> s @ CHR '' '' # e @ CHR '' '' # n @ CHR '' '' # c @ [newline])"

definition link_words :: "string \<times> string \<times> string \<times> string \<Rightarrow> bool" where
  "link_words l = (case l of (s, e, n, c) \<Rightarrow> word s \<and> word e \<and> word n \<and> word c)"

definition link_of :: "string \<times> string \<times> string \<times> string \<Rightarrow> topo_link" where
  "link_of l = (case l of (s, e, n, c) \<Rightarrow> Topo_links (atoi s) (atoi e) (atoi n) (atof c))"

definition topology_file :: "string list \<Rightarrow> (string \<times> string \<times> string \<times> string) list \<Rightarrow> string" where
  "topology_file ns ls = concat (map (\<lambda>n. n @ [newline]) ns) @ ''Links'' @ [newline] @ concat (map link_line ls)"

lemma getline_word:
  assumes "d \<notin> set s" and "\<not> is_eof st" and "\<not> is_fail st" and "is_rest st = s @ d # r"
  shows "getline d st buf = (st\<lparr>is_rest := r\<rparr>, s)"
proof -
  have "\<forall>c \<in> set s. c \<noteq> d" using assms(1) by auto
  then have "takeWhile (\<lambda>c. c \<noteq> d) (s @ d # r) = s" "dropWhile (\<lambda>c. c \<noteq> d) (s @ d # r) = d # r"
    by (induction s) auto
  then show ?thesis using assms by (simp add: getline_def Let_def)
qed

lemma getline_end:
  "\<not> is_eof st \<Longrightarrow> \<not> is_fail st \<Longrightarrow> is_rest st = [] \<Longrightarrow>
   getline d st buf = (st\<lparr>is_rest := [], is_eof := True, is_fail := True\<rparr>, [])"
  by (simp add: getline_def)

abbreviation good :: "string \<Rightarrow> istream" where
  "good r \<equiv> \<lparr>is_rest = r, is_eof = False, is_fail = False\<rparr>"

lemma getline_good: "d \<notin> set s \<Longrightarrow> getline d (good (s @ d # r)) buf = (good r, s)"
  using getline_word [of d s "good (s @ d # r)" r buf] by simp

lemma topo_loop_links:
  assumes "\<forall>l \<in> set ls. link_words l" and "b \<noteq> []"
  shows "topo_loop \<lparr>ts_in = good (concat (map link_line ls)), ts_buffer = b, ts_is_node = False,
    ts_nodes = ns, ts_links = ks\<rparr> = Some (ns, ks @ map link_of ls)"
  using assms
proof (induction ls arbitrary: b ks)
  case Nil
  have "topo_step \<lparr>ts_in = good [], ts_buffer = b, ts_is_node = False, ts_nodes = ns, ts_links = ks\<rparr> =
    \<lparr>ts_in = \<lparr>is_rest = [], is_eof = True, is_fail = True\<rparr>, ts_buffer = [], ts_is_node = False,
      ts_nodes = ns, ts_links = ks\<rparr>"
    using Nil.prems(2) by (simp add: topo_step_def scan_getline_def getline_end)
  then show ?case by (simp add: topo_loop.simps)
next
  case (Cons l ls)
  obtain s e n c where l: "l = (s, e, n, c)" by (cases l)
  have w: "word s" "word e" "word n" "word c" using Cons.prems(1) by (simp_all add: l link_words_def)
  let ?r = "concat (map link_line ls)"
  have g: "getline CHR '' '' (good (s @ CHR '' '' # x)) b = (good x, s)"
    "getline CHR '' '' (good (e @ CHR '' '' # x)) b = (good x, e)"
    "getline CHR '' '' (good (n @ CHR '' '' # x)) b = (good x, n)"
    "getline newline (good (c @ newline # x)) b = (good x, c)" for x b
    using w by (auto simp: word_def intro!: getline_good)
  have "topo_step \<lparr>ts_in = good (link_line l @ ?r), ts_buffer = b, ts_is_node = False, ts_nodes = ns, ts_links = ks\<rparr> =
    \<lparr>ts_in = good ?r, ts_buffer = c, ts_is_node = False, ts_nodes = ns, ts_links = ks @ [link_of l]\<rparr>"
    using Cons.prems(2) w(1) by (simp add: topo_step_def scan_getline_def l link_line_def g word_def link_of_def)
  moreover have "c \<noteq> []" using w(4) by (simp add: word_def)
  ultimately show ?case
    using Cons.IH [of c "ks @ [link_of l]"] Cons.prems(1) by (simp add: topo_loop.simps [of "\<lparr>ts_in = good (_ @ _),
        ts_buffer = _, ts_is_node = _, ts_nodes = _, ts_links = _\<rparr>"])
qed

lemma topo_loop_nodes:
  assumes "\<forall>n \<in> set (b # ns). word n \<and> n \<noteq> ''Links''" and "\<forall>l \<in> set ls. link_words l"
  shows "topo_loop \<lparr>ts_in = good (topology_file ns ls), ts_buffer = b, ts_is_node = True,
    ts_nodes = ks, ts_links = []\<rparr> = Some (ks @ map atoi (b # ns), map link_of ls)"
  using assms
proof (induction ns arbitrary: b ks)
  case Nil
  let ?r = "concat (map link_line ls)"
  let ?s = "\<lparr>ts_in = good ?r, ts_buffer = ''Links'', ts_is_node = True, ts_nodes = ks @ [atoi b], ts_links = []\<rparr>"
  have "getline newline (good (''Links'' @ newline # ?r)) x = (good ?r, ''Links'')" for x
    by (rule getline_good) simp
  then have "topo_step \<lparr>ts_in = good (topology_file [] ls), ts_buffer = b, ts_is_node = True, ts_nodes = ks, ts_links = []\<rparr> = ?s"
    using Nil.prems(1) by (simp add: topo_step_def scan_getline_def topology_file_def word_def)
  moreover have "topo_step ?s = ?s\<lparr>ts_is_node := False\<rparr>" by (simp add: topo_step_def)
  moreover have "topo_loop (?s\<lparr>ts_is_node := False\<rparr>) = Some (ks @ [atoi b], map link_of ls)"
    using topo_loop_links [OF Nil.prems(2), of "''Links''" "ks @ [atoi b]" "[]"] by simp
  ultimately show ?case by (simp add: topo_loop.simps [of "\<lparr>ts_in = good _, ts_buffer = _, ts_is_node = True,
        ts_nodes = _, ts_links = _\<rparr>"])
next
  case (Cons n ns)
  have "newline \<notin> set n" using Cons.prems(1) by (simp add: word_def)
  then have "getline newline (good (n @ newline # x)) y = (good x, n)" for x y by (rule getline_good)
  then have "topo_step \<lparr>ts_in = good (topology_file (n # ns) ls), ts_buffer = b, ts_is_node = True, ts_nodes = ks, ts_links = []\<rparr> =
    \<lparr>ts_in = good (topology_file ns ls), ts_buffer = n, ts_is_node = True, ts_nodes = ks @ [atoi b], ts_links = []\<rparr>"
    using Cons.prems(1) by (simp add: topo_step_def scan_getline_def topology_file_def word_def)
  then show ?case
    using Cons.IH [of n "ks @ [atoi b]"] Cons.prems by (simp add: topo_loop.simps [of "\<lparr>ts_in = good _, ts_buffer = b,
        ts_is_node = True, ts_nodes = _, ts_links = _\<rparr>"])
qed

lemma read_topology_start:
  assumes "word b"
  shows "read_topology (Some (b @ newline # r)) = topo_loop \<lparr>ts_in = good r, ts_buffer = b,
    ts_is_node = True, ts_nodes = [], ts_links = []\<rparr>"
proof -
  have "getline newline (good (b @ newline # r)) [] = (good r, b)"
    using assms by (intro getline_good) (simp add: word_def)
  then show ?thesis by (simp add: read_topology_def opened_def scan_getline_def)
qed

text \<open>
  A topology file is read back. A file with a line per node (at least one), the line
  \<open>Links\<close> and a line of four words per link is read to its end, and gives the number of
  every node and, for every link, its two ends, its number and its capacity.
\<close>

theorem topology_read:
  assumes "\<forall>n \<in> set (b # ns). word n \<and> n \<noteq> ''Links''" and "\<forall>l \<in> set ls. link_words l"
  shows "read_topology (Some (topology_file (b # ns) ls)) = Some (map atoi (b # ns), map link_of ls)"
proof -
  have "topology_file (b # ns) ls = b @ newline # topology_file ns ls" by (simp add: topology_file_def)
  then show ?thesis
    using topo_loop_nodes [OF assms, of "[]"] assms(1) by (simp add: read_topology_start)
qed

theorem topology_read_witness:
  "read_topology (Some (topology_file [''0'', ''1''] [(''0'', ''1'', ''0'', ''10''), (''1'', ''0'', ''1'', ''2.5'')])) =
     Some ([0, 1], [Topo_links 0 1 0 10, Topo_links 1 0 1 (5 / 2)])"
proof -
  have v: "atoi ''0'' = 0" "atoi ''1'' = 1" "atof ''10'' = 10" "atof ''2.5'' = 5 / 2"
    by (simp_all add: atoi_def atof_def is_space_def after_sign_def is_negative_def digits_value_def digit_value_def
        is_digit_def Let_def)
  show ?thesis
    using topology_read [of "''0''" "[''1'']" "[(''0'', ''1'', ''0'', ''10''), (''1'', ''0'', ''1'', ''2.5'')]"] v
    by (simp add: word_def link_words_def link_of_def)
qed

subsection \<open>Files that are not\<close>

lemma topo_loop_stuck:
  assumes "topo_step s = s" and "\<not> is_eof (ts_in s)"
  shows "topo_loop s = None"
proof -
  have "topo_step s = s \<and> \<not> is_eof (ts_in s) \<longrightarrow> False" if "topo_loop s = Some y" for y
    by (rule topo_loop.raw_induct [OF _ that, where P = "\<lambda>s y. topo_step s = s \<and> \<not> is_eof (ts_in s) \<longrightarrow> False"])
      (auto split: if_splits)
  then show ?thesis using assms by (cases "topo_loop s") auto
qed

lemma topology_hangs_parts:
  "read_topology None = None"
  "\<lbrakk>\<forall>n \<in> set (b # ns). word n \<and> n \<noteq> ''Links''\<rbrakk> \<Longrightarrow>
    read_topology (Some (concat (map (\<lambda>n. n @ [newline]) (b # ns)) @ newline # r)) = None"
  "read_mappings None = None"
proof -
  show "read_topology None = None"
    by (simp add: read_topology_def opened_def scan_getline_def getline_def topo_loop_stuck topo_step_def)
next
  have loop: "topo_loop \<lparr>ts_in = good (concat (map (\<lambda>n. n @ [newline]) ns) @ newline # r), ts_buffer = b,
      ts_is_node = True, ts_nodes = ks, ts_links = []\<rparr> = None"
    if "\<forall>n \<in> set (b # ns). word n \<and> n \<noteq> ''Links''" for b ns ks
    using that
  proof (induction ns arbitrary: b ks)
    case Nil
    have "getline newline (good (newline # r)) b = (good r, [])"
      using getline_good [of newline "[]" r b] by simp
    then have "topo_step \<lparr>ts_in = good (newline # r), ts_buffer = b, ts_is_node = True, ts_nodes = ks, ts_links = []\<rparr> =
      \<lparr>ts_in = good r, ts_buffer = [], ts_is_node = True, ts_nodes = ks @ [atoi b], ts_links = []\<rparr>"
      using Nil.prems by (simp add: topo_step_def scan_getline_def word_def)
    then show ?case
      using topo_loop_stuck [of "\<lparr>ts_in = good r, ts_buffer = [], ts_is_node = True, ts_nodes = ks @ [atoi b], ts_links = []\<rparr>"]
      by (simp add: topo_loop.simps [of "\<lparr>ts_in = good (newline # _), ts_buffer = _, ts_is_node = _, ts_nodes = _, ts_links = _\<rparr>"]
          topo_step_def)
  next
    case (Cons n ns)
    have "newline \<notin> set n" using Cons.prems by (simp add: word_def)
    then have "getline newline (good (n @ newline # x)) y = (good x, n)" for x y by (rule getline_good)
    then have "topo_step \<lparr>ts_in = good (concat (map (\<lambda>n. n @ [newline]) (n # ns)) @ newline # r), ts_buffer = b,
        ts_is_node = True, ts_nodes = ks, ts_links = []\<rparr> =
      \<lparr>ts_in = good (concat (map (\<lambda>n. n @ [newline]) ns) @ newline # r), ts_buffer = n, ts_is_node = True,
        ts_nodes = ks @ [atoi b], ts_links = []\<rparr>"
      using Cons.prems by (simp add: topo_step_def scan_getline_def word_def)
    then show ?case
      using Cons.IH [of n "ks @ [atoi b]"] Cons.prems by (simp add: topo_loop.simps [of "\<lparr>ts_in = good _, ts_buffer = b,
          ts_is_node = True, ts_nodes = _, ts_links = _\<rparr>"])
  qed
  assume "\<forall>n \<in> set (b # ns). word n \<and> n \<noteq> ''Links''"
  then show "read_topology (Some (concat (map (\<lambda>n. n @ [newline]) (b # ns)) @ newline # r)) = None"
    using loop [of b ns "[]"] read_topology_start [of b "concat (map (\<lambda>n. n @ [newline]) ns) @ newline # r"] by simp
next
  have hang: "is_fail st \<and> \<not> is_eof st \<longrightarrow> False" if "mapping_loop st b m fms = Some y" for st b m fms y
    by (rule mapping_loop.raw_induct [OF _ that, where P = "\<lambda>st b m fms y. is_fail st \<and> \<not> is_eof st \<longrightarrow> False"])
      (fastforce simp: getline_def split: if_splits)
  then have "mapping_loop (opened None) b m fms = None" for b m fms
    using hang [of "opened None" b m fms] by (cases "mapping_loop (opened None) b m fms") (simp_all add: opened_def)
  then show "read_mappings None = None" by (simp add: read_mappings_def)
qed

text \<open>
  A missing topology file or an empty line among the nodes hangs the simulator: the
  loop of the constructor skips an empty buffer without reading on. A missing mapping file
  does the same, for its loop waits for an end of file that a stream that never opened
  does not reach.
\<close>

theorem topology_hangs:
  "read_topology None = None \<and> read_mappings None = None \<and>
   ((\<forall>n \<in> set (b # ns). word n \<and> n \<noteq> ''Links'') \<longrightarrow>
     read_topology (Some (concat (map (\<lambda>n. n @ [newline]) (b # ns)) @ newline # r)) = None)"
  using topology_hangs_parts by blast

theorem topology_hangs_witness:
  "read_topology None = None \<and> read_topology (Some (''0'' @ newline # newline # ''Links'' @ [newline])) = None"
  using topology_hangs [of "''0''" "[]" "''Links'' @ [newline]"] by (simp add: word_def)

subsection \<open>A mapping file in good form\<close>

definition blanks :: "string list \<Rightarrow> string" where
  "blanks ts = concat (map (\<lambda>t. CHR '' '' # t) ts)"

definition mapping_text :: "string \<times> string list \<Rightarrow> string" where
  "mapping_text e = (case e of (w, ts) \<Rightarrow> w @ blanks ts)"

definition mapping_words :: "string \<times> string list \<Rightarrow> bool" where
  "mapping_words e = (case e of (w, ts) \<Rightarrow> word w \<and> list_all word ts)"

definition at_tokens :: "string list \<Rightarrow> istream" where
  "at_tokens ts = (case ts of [] \<Rightarrow> \<lparr>is_rest = [], is_eof = True, is_fail = False\<rparr>
     | t # ts' \<Rightarrow> good (t @ blanks ts'))"

lemma getline_token:
  assumes "word t"
  shows "getline CHR '' '' (good (t @ blanks ts)) b = (at_tokens ts, t)"
proof -
  have t: "CHR '' '' \<notin> set t" "t \<noteq> []" using assms by (simp_all add: word_def)
  show ?thesis
  proof (cases ts)
    case Nil
    have w: "takeWhile (\<lambda>c. c \<noteq> CHR '' '') t = t" "dropWhile (\<lambda>c. c \<noteq> CHR '' '') t = []"
      using t(1) by (auto simp: takeWhile_eq_all_conv dropWhile_eq_Nil_conv)
    show ?thesis using t(2) by (simp add: Nil getline_def blanks_def at_tokens_def w Let_def)
  next
    case (Cons u us)
    then show ?thesis
      using getline_good [of "CHR '' ''" t "u @ blanks us" b] t(1) by (simp add: blanks_def at_tokens_def)
  qed
qed

lemma read_links_tokens:
  "list_all word ts \<Longrightarrow> read_links (at_tokens ts) b = map (\<lambda>t. Fixed_links (atoi t)) ts"
proof (induction ts arbitrary: b)
  case Nil
  have "getline CHR '' '' (at_tokens []) b = (\<lparr>is_rest = [], is_eof = True, is_fail = True\<rparr>, b)"
    by (simp add: at_tokens_def getline_def)
  then show ?case by (simp add: read_links.simps)
next
  case (Cons t ts)
  have "getline CHR '' '' (at_tokens (t # ts)) b = (at_tokens ts, t)"
    using Cons.prems by (simp add: at_tokens_def getline_token)
  moreover have "\<not> is_fail (at_tokens ts)" by (simp add: at_tokens_def split: list.split)
  ultimately show ?case using Cons by (simp add: read_links.simps [of "at_tokens (t # ts)"])
qed

lemma mapping_line_words:
  "mapping_words e \<Longrightarrow> mapping_line (mapping_text e) = map (\<lambda>t. Fixed_links (atoi t)) (snd e)"
  by (cases e) (simp add: mapping_line_def mapping_text_def mapping_words_def opened_def getline_token read_links_tokens)

lemma mapping_loop_lines:
  assumes "\<forall>e \<in> set es. mapping_words e"
  shows "mapping_loop (good (concat (map (\<lambda>e. mapping_text e @ [newline]) es))) b m fms =
    Some (fms @ map (\<lambda>(k, e). \<lparr>fm_address = m + int k, fm_fixed_links = map (\<lambda>t. Fixed_links (atoi t)) (snd e)\<rparr>)
      (enumerate 0 es) @ [\<lparr>fm_address = m + int (length es), fm_fixed_links = []\<rparr>])"
  using assms
proof (induction es arbitrary: b m fms)
  case Nil
  have "mapping_line [] = []"
    by (simp add: mapping_line_def opened_def getline_def read_links.simps)
  then show ?case
    by (simp add: mapping_loop.simps [of "good []"] getline_end) (simp add: mapping_loop.simps)
next
  case (Cons e es)
  have "newline \<notin> set (mapping_text e)"
    using Cons.prems by (cases e) (auto simp: mapping_text_def mapping_words_def blanks_def word_def list_all_iff)
  then have g: "getline newline (good (mapping_text e @ newline # x)) b = (good x, mapping_text e)" for x
    by (rule getline_good)
  have shift: "enumerate 0 (e # es) = (0, e) # map (\<lambda>(k, x). (Suc k, x)) (enumerate 0 es)"
    by (simp add: enumerate_Suc_eq apfst_def map_prod_def)
  show ?case
    unfolding shift
    using Cons.IH [of "mapping_text e" "m + 1"] Cons.prems
    by (simp add: mapping_loop.simps [of "good (_ @ _)"] g mapping_line_words case_prod_beta' comp_def algebra_simps)
qed

text \<open>
  A mapping file is read back, plus one entry. A file with a line per host, its name
  and the numbers of the links it watches, gives an entry per line, numbered from zero, with
  these links and no counts; the newline that ends the last line adds an entry without
  links for a host that is not there.
\<close>

theorem mappings_read:
  assumes "\<forall>e \<in> set es. mapping_words e"
  shows "read_mappings (Some (concat (map (\<lambda>e. mapping_text e @ [newline]) es))) =
    Some (map (\<lambda>(k, e). \<lparr>fm_address = int k, fm_fixed_links = map (\<lambda>t. Fixed_links (atoi t)) (snd e)\<rparr>)
      (enumerate 0 es) @ [\<lparr>fm_address = int (length es), fm_fixed_links = []\<rparr>])"
  using mapping_loop_lines [OF assms, of "[]" 0 "[]"] by (simp add: read_mappings_def opened_def)

theorem mappings_read_witness:
  "read_mappings (Some (concat (map (\<lambda>e. mapping_text e @ [newline]) [(''0'', [''1'', ''1'']), (''1'', [])]))) =
     Some [\<lparr>fm_address = 0, fm_fixed_links = [Fixed_links 1, Fixed_links 1]\<rparr>,
           \<lparr>fm_address = 1, fm_fixed_links = []\<rparr>, \<lparr>fm_address = 2, fm_fixed_links = []\<rparr>]"
proof -
  have v: "atoi ''1'' = 1"
    by (simp add: atoi_def is_space_def after_sign_def is_negative_def digits_value_def digit_value_def
        is_digit_def Let_def)
  show ?thesis
    using mappings_read [of "[(''0'', [''1'', ''1'']), (''1'', [])]"] v
    by (simp add: mapping_words_def word_def)
qed

end
