(* ===== verification/PacketQueue.thy ===== *)
theory PacketQueue
  imports Pathways "HOL-Library.Multiset"
begin

section \<open>The packet queue: a linked list through the packets\<close>

text \<open>
  \<open>PacketQueue\<close> of queue/queue.h and queue/queue.cc. The queue is threaded through the
  field \<open>next_\<close> of the packets, the same field the free list of the packet pool uses,
  so the operations act on the pool and on the head, tail and counters of the queue. A
  queue represents a list of packets; a locale states what its clients rely on.
\<close>

record pqueue =
  pq_head :: "nat option"
  pq_tail :: "nat option"
  pq_len :: int
  pq_bytes :: int

definition empty_pqueue :: pqueue where
  "empty_pqueue = \<lparr>pq_head = None, pq_tail = None, pq_len = 0, pq_bytes = 0\<rparr>"

type_synonym qstate = "pool \<times> pqueue"

definition next_of :: "pool \<Rightarrow> nat \<Rightarrow> nat option res" where
  "next_of po p = (if p < length (po_mem po) then Inr (ce_next (po_mem po ! p)) else Inl Out_Of_Range)"

definition set_next :: "nat \<Rightarrow> nat option \<Rightarrow> pool \<Rightarrow> pool res" where
  "set_next p x po =
     (if p < length (po_mem po) then Inr (po\<lparr>po_mem := (po_mem po)[p := (po_mem po ! p)\<lparr>ce_next := x\<rparr>]\<rparr>)
      else Inl Out_Of_Range)"

definition size_of :: "pool \<Rightarrow> nat \<Rightarrow> int" where
  "size_of po p = cm_size (hd_cmn (ce_bits (po_mem po ! p)))"

definition deref :: "nat option \<Rightarrow> nat res" where
  "deref x = (case x of None \<Rightarrow> Inl Null_Deref | Some p \<Rightarrow> Inr p)"

subsection \<open>Operations\<close>

text \<open>\<open>enque\<close> returns the previous tail.\<close>

definition pq_enque :: "nat \<Rightarrow> qstate \<Rightarrow> (nat option \<times> qstate) res" where
  "pq_enque p s = (case s of (po, q) \<Rightarrow>
     rbind (case pq_tail q of None \<Rightarrow> Inr (po, q\<lparr>pq_head := Some p, pq_tail := Some p\<rparr>)
            | Some t \<Rightarrow> rbind (set_next t (Some p) po) (\<lambda>po. Inr (po, q\<lparr>pq_tail := Some p\<rparr>))) (\<lambda>(po, q1).
       rbind (set_next p None po) (\<lambda>po.
         Inr (pq_tail q, (po, q1\<lparr>pq_len := pq_len q1 + 1, pq_bytes := pq_bytes q1 + size_of po p\<rparr>)))))"

text \<open>The whole of \<open>enque\<close>: first the pathway map, then the list.\<close>

definition pq_enque_recording ::
    "nat \<Rightarrow> nat list \<Rightarrow> nat \<Rightarrow> nat \<Rightarrow> nat \<Rightarrow> qstate \<times> flow_map option \<Rightarrow> (nat option \<times> qstate \<times> flow_map option) res" where
  "pq_enque_recording this pqs nq a p s = (case s of ((po, q), pg) \<Rightarrow>
     rbind (get_hdrs p po) (\<lambda>h.
       rbind (record_pathway this pqs nq a (hd_ip h) pg) (\<lambda>pg.
         rbind (pq_enque p (po, q)) (\<lambda>(pt, s). Inr (pt, s, pg)))))"

definition pq_deque :: "qstate \<Rightarrow> (nat option \<times> qstate) res" where
  "pq_deque s = (case s of (po, q) \<Rightarrow>
     (case pq_head q of
        None \<Rightarrow> Inr (None, s)
      | Some p \<Rightarrow> rbind (next_of po p) (\<lambda>x.
          let q1 = q\<lparr>pq_head := x\<rparr>;
              q2 = (if pq_tail q1 = Some p then q1\<lparr>pq_head := None, pq_tail := None\<rparr> else q1) in
          Inr (Some p, (po, q2\<lparr>pq_len := pq_len q2 - 1, pq_bytes := pq_bytes q2 - size_of po p\<rparr>)))))"

text \<open>\<open>lookup(n)\<close>; the loops run at most once per packet of the pool (\<open>fuel\<close>).\<close>

fun pq_walk :: "nat \<Rightarrow> pool \<Rightarrow> nat option \<Rightarrow> int \<Rightarrow> nat option res" where
  "pq_walk fuel po None n = Inr None"
| "pq_walk 0 po (Some p) n = Inl Diverges"
| "pq_walk (Suc fuel) po (Some p) n =
     (if n - 1 < 0 then Inr (Some p) else rbind (next_of po p) (\<lambda>x. pq_walk fuel po x (n - 1)))"

definition pq_lookup :: "int \<Rightarrow> qstate \<Rightarrow> nat option res" where
  "pq_lookup n s = (case s of (po, q) \<Rightarrow> pq_walk (length (po_mem po)) po (pq_head q) n)"

definition pq_enqueHead :: "nat \<Rightarrow> qstate \<Rightarrow> qstate res" where
  "pq_enqueHead p s = (case s of (po, q) \<Rightarrow>
     let q1 = (if pq_head q = None then q\<lparr>pq_tail := Some p\<rparr> else q) in
     rbind (set_next p (pq_head q1) po) (\<lambda>po.
       Inr (po, q1\<lparr>pq_head := Some p, pq_len := pq_len q1 + 1, pq_bytes := pq_bytes q1 + size_of po p\<rparr>)))"

text \<open>\<open>remove(target)\<close> walks with the packet before; the target must be in the queue.\<close>

fun pq_remove_from :: "nat \<Rightarrow> nat \<Rightarrow> nat option \<Rightarrow> nat option \<Rightarrow> qstate \<Rightarrow> qstate res" where
  "pq_remove_from fuel target pp None s = Inl Aborted"
| "pq_remove_from 0 target pp (Some p) s = Inl Diverges"
| "pq_remove_from (Suc fuel) target pp (Some p) (po, q) =
     rbind (next_of po p) (\<lambda>x.
       if p = target then
         (case pp of
            None \<Rightarrow> rbind (pq_deque (po, q)) (\<lambda>(_, s). Inr s)
          | Some b \<Rightarrow>
              let q1 = (if pq_tail q = Some p then q\<lparr>pq_tail := Some b\<rparr> else q) in
              rbind (set_next b x po) (\<lambda>po.
                Inr (po, q1\<lparr>pq_len := pq_len q1 - 1, pq_bytes := pq_bytes q1 - size_of po p\<rparr>)))
       else pq_remove_from fuel target (Some p) x (po, q))"

definition pq_remove :: "nat \<Rightarrow> qstate \<Rightarrow> qstate res" where
  "pq_remove target s = (case s of (po, q) \<Rightarrow>
     pq_remove_from (length (po_mem po)) target None (pq_head q) s)"

text \<open>\<open>remove(pkt, prev)\<close>, either of them possibly null.\<close>

definition pq_remove_after :: "nat option \<Rightarrow> nat option \<Rightarrow> qstate \<Rightarrow> qstate res" where
  "pq_remove_after pkt prev s = (case s of (po, q) \<Rightarrow>
     (case pkt of
        None \<Rightarrow> Inr s
      | Some p \<Rightarrow>
          if pq_head q = Some p then rbind (pq_deque s) (\<lambda>(_, s). Inr s)
          else rbind (deref prev) (\<lambda>b. rbind (next_of po p) (\<lambda>x. rbind (set_next b x po) (\<lambda>po.
            let q1 = (if pq_tail q = Some p then q\<lparr>pq_tail := Some b\<rparr> else q) in
            Inr (po, q1\<lparr>pq_len := pq_len q1 - 1, pq_bytes := pq_bytes q1 - size_of po p\<rparr>))))))"

text \<open>
  \<open>num_flows()\<close>: one record per combination of addresses and ports seen so far; the
  list it builds is returned, its length is the result.
\<close>

definition flow_of :: "pool \<Rightarrow> nat \<Rightarrow> int \<times> int \<times> int \<times> int" where
  "flow_of po p = (let h = hd_ip (ce_bits (po_mem po ! p)) in
     (ip_saddr h, ip_sport h, ip_daddr h, ip_dport h))"

fun pq_flows :: "nat \<Rightarrow> pool \<Rightarrow> nat option \<Rightarrow> (int \<times> int \<times> int \<times> int) list \<Rightarrow> (int \<times> int \<times> int \<times> int) list res" where
  "pq_flows fuel po None fs = Inr fs"
| "pq_flows 0 po (Some p) fs = Inl Diverges"
| "pq_flows (Suc fuel) po (Some p) fs =
     rbind (next_of po p) (\<lambda>x.
       pq_flows fuel po x (if list_ex (\<lambda>f. f = flow_of po p) fs then fs else flow_of po p # fs))"

definition pq_num_flows :: "qstate \<Rightarrow> int res" where
  "pq_num_flows s = (case s of (po, q) \<Rightarrow>
     rbind (pq_flows (length (po_mem po)) po (pq_head q) []) (\<lambda>fs. Inr (int (length fs))))"

subsection \<open>The list a queue represents\<close>

definition queued :: "qstate \<Rightarrow> nat list \<Rightarrow> bool" where
  "queued s xs = (case s of (po, q) \<Rightarrow>
     free_path (po_mem po) (pq_head q) xs \<and> distinct xs \<and>
     pq_tail q = (if xs = [] then None else Some (last xs)) \<and>
     pq_len q = int (length xs) \<and> pq_bytes q = sum_list (map (size_of po) xs))"

lemma queued_empty [simp]: "queued (po, empty_pqueue) []"
  by (simp add: queued_def empty_pqueue_def)

lemma size_of_set_next [simp]: "set_next p x po = Inr po' \<Longrightarrow> size_of po' r = size_of po r"
  by (cases "r = p") (auto simp: set_next_def size_of_def split: if_splits)

lemma set_next_Inr: "p < length (po_mem po) \<Longrightarrow> \<exists>po'. set_next p x po = Inr po' \<and>
    po_mem po' = (po_mem po)[p := (po_mem po ! p)\<lparr>ce_next := x\<rparr>] \<and> po_free po' = po_free po"
  by (simp add: set_next_def)

lemma free_path_last_upd:
  assumes "free_path m x (ys @ [t])" and "t \<notin> set ys" and "p < length m" and "t \<noteq> p" and "p \<notin> set ys"
  shows "free_path (m[t := (m ! t)\<lparr>ce_next := Some p\<rparr>, p := c\<lparr>ce_next := None\<rparr>]) x (ys @ [t, p])"
  using assms by (induction ys arbitrary: x) auto

lemma free_path_app:
  "free_path m x (xs @ [t]) \<Longrightarrow> ce_next (m ! t) = None"
  by (induction xs arbitrary: x) auto

lemma queued_bound: "queued (po, q) xs \<Longrightarrow> p \<in> set xs \<Longrightarrow> p < length (po_mem po)"
  by (auto simp: queued_def dest: free_path_bound)

lemma pq_enque_ok:
  assumes "queued (po, q) xs" and "p \<notin> set xs" and "p < length (po_mem po)"
  shows "\<exists>po' q'. pq_enque p (po, q) = Inr (pq_tail q, (po', q')) \<and> queued (po', q') (xs @ [p]) \<and>
    length (po_mem po') = length (po_mem po)"
proof (cases xs rule: rev_cases)
  case Nil
  obtain po' where po: "set_next p None po = Inr po'" "po_mem po' = (po_mem po)[p := (po_mem po ! p)\<lparr>ce_next := None\<rparr>]"
    using set_next_Inr [OF assms(3)] by blast
  then show ?thesis
    using assms Nil by (simp add: pq_enque_def queued_def)
next
  case (snoc ys t)
  have t: "t < length (po_mem po)" "t \<noteq> p" "t \<notin> set ys" "p \<notin> set ys"
    using assms snoc queued_bound [OF assms(1), of t] by (auto simp: queued_def)
  obtain po1 where po1: "set_next t (Some p) po = Inr po1"
    "po_mem po1 = (po_mem po)[t := (po_mem po ! t)\<lparr>ce_next := Some p\<rparr>]"
    using set_next_Inr [OF t(1)] by blast
  obtain po2 where po2: "set_next p None po1 = Inr po2"
    "po_mem po2 = (po_mem po1)[p := (po_mem po1 ! p)\<lparr>ce_next := None\<rparr>]"
    using set_next_Inr [of p po1 None] assms(3) po1(2) by auto
  have "size_of po2 = size_of po" using po1(1) po2(1) by (intro ext) simp
  moreover have "free_path (po_mem po2) (pq_head q) (ys @ [t, p])"
    using free_path_last_upd [of "po_mem po" "pq_head q" ys t p "po_mem po1 ! p"] assms t snoc po1(2) po2(2)
    by (simp add: queued_def)
  ultimately show ?thesis
    using assms snoc t po1 po2 by (simp add: pq_enque_def queued_def)
qed

lemma pq_deque_nil: "queued s [] \<Longrightarrow> pq_deque s = Inr (None, s)"
  by (cases s) (simp add: pq_deque_def queued_def)

lemma pq_deque_cons:
  assumes "queued (po, q) (p # xs)"
  shows "\<exists>q'. pq_deque (po, q) = Inr (Some p, (po, q')) \<and> queued (po, q') xs"
proof -
  have p: "pq_head q = Some p" "p < length (po_mem po)" "free_path (po_mem po) (ce_next (po_mem po ! p)) xs"
    using assms by (auto simp: queued_def)
  show ?thesis
  proof (cases xs)
    case Nil
    then show ?thesis using assms p by (simp add: pq_deque_def queued_def next_of_def)
  next
    case (Cons r rs)
    then have "last xs \<noteq> p" using assms by (auto simp: queued_def)
    then show ?thesis using assms p Cons by (simp add: pq_deque_def queued_def next_of_def)
  qed
qed

lemma free_path_drop:
  "free_path m x (ys @ zs) \<Longrightarrow> free_path m (if ys = [] then x else ce_next (m ! last ys)) zs"
  by (induction ys arbitrary: x) (auto split: if_splits)

lemma free_path_unlink:
  assumes "free_path m x (ys @ b # t # zs)" and "distinct (ys @ b # t # zs)"
  shows "free_path (m[b := (m ! b)\<lparr>ce_next := ce_next (m ! t)\<rparr>]) x (ys @ b # zs)"
  using assms by (induction ys arbitrary: x) auto

lemma queued_head: "queued (po, q) xs \<Longrightarrow> pq_head q = (case xs of [] \<Rightarrow> None | p # _ \<Rightarrow> Some p)"
  by (cases xs) (auto simp: queued_def)

lemma path_length: "free_path m x xs \<Longrightarrow> distinct xs \<Longrightarrow> length xs \<le> length m"
  using free_path_bound [of m x xs] card_mono [of "{..<length m}" "set xs"] distinct_card [of xs]
  by (metis card_lessThan finite_lessThan lessThan_iff subsetI)

lemma pq_walk_nth:
  assumes "free_path (po_mem po) x xs" and "length xs \<le> fuel"
  shows "pq_walk fuel po x n = Inr (if nat n < length xs then Some (xs ! nat n) else None)"
  using assms
proof (induction fuel arbitrary: x xs n)
  case 0
  then show ?case by simp
next
  case (Suc fuel)
  show ?case
  proof (cases xs)
    case Nil
    then show ?thesis using Suc.prems by simp
  next
    case (Cons p ys)
    show ?thesis
    proof (cases "n - 1 < 0")
      case True
      then show ?thesis using Suc.prems Cons by simp
    next
      case False
      then have n: "nat n = Suc (nat (n - 1))" by simp
      have "pq_walk fuel po (ce_next (po_mem po ! p)) (n - 1) =
        Inr (if nat (n - 1) < length ys then Some (ys ! nat (n - 1)) else None)"
        using Suc.prems Cons by (intro Suc.IH) auto
      then show ?thesis using Suc.prems Cons False by (simp add: next_of_def n)
    qed
  qed
qed

lemma pq_lookup_ok:
  assumes "queued s xs"
  shows "pq_lookup n s = Inr (if nat n < length xs then Some (xs ! nat n) else None)"
proof -
  obtain po q where s: "s = (po, q)" by (cases s)
  have "free_path (po_mem po) (pq_head q) xs" "distinct xs" using assms by (simp_all add: queued_def s)
  then show ?thesis
    using pq_walk_nth [OF _ path_length] by (simp add: pq_lookup_def s)
qed

lemma pq_enqueHead_ok:
  assumes "queued (po, q) xs" and "p \<notin> set xs" and "p < length (po_mem po)"
  shows "\<exists>s'. pq_enqueHead p (po, q) = Inr s' \<and> queued s' (p # xs)"
proof -
  obtain po' where po: "set_next p (pq_head q) po = Inr po'"
    "po_mem po' = (po_mem po)[p := (po_mem po ! p)\<lparr>ce_next := pq_head q\<rparr>]"
    using set_next_Inr [OF assms(3)] by blast
  have sz: "size_of po' = size_of po" using po(1) by (intro ext) simp
  have "queued (po', (if pq_head q = None then q\<lparr>pq_tail := Some p\<rparr> else q)\<lparr>pq_head := Some p,
      pq_len := pq_len q + 1, pq_bytes := pq_bytes q + size_of po p\<rparr>) (p # xs)"
    using assms po(2) sz queued_head [OF assms(1)] by (cases xs) (auto simp: queued_def)
  then show ?thesis
    using po(1) sz by (auto simp: pq_enqueHead_def Let_def)
qed

lemma pq_remove_from_ok:
  assumes "queued (po, q) (ys @ zs)" and "t \<in> set zs" and "length zs \<le> fuel"
    and "x = (case zs of [] \<Rightarrow> None | p # _ \<Rightarrow> Some p)"
  shows "\<exists>s'. pq_remove_from fuel t (if ys = [] then None else Some (last ys)) x (po, q) = Inr s' \<and>
    queued s' (ys @ remove1 t zs)"
  using assms
proof (induction fuel arbitrary: x ys zs)
  case 0
  then show ?case by simp
next
  case (Suc fuel)
  from Suc.prems(2) obtain p ps where zs: "zs = p # ps" by (cases zs) auto
  have path: "free_path (po_mem po) (pq_head q) (ys @ p # ps)" "distinct (ys @ p # ps)"
    using Suc.prems(1) by (simp_all add: queued_def zs)
  have p: "p < length (po_mem po)" by (rule free_path_bound [OF path(1)]) simp
  have nx: "ce_next (po_mem po ! p) = (case ps of [] \<Rightarrow> None | r # _ \<Rightarrow> Some r)"
    using free_path_drop [of "po_mem po" "pq_head q" "ys @ [p]" ps] path(1) by (cases ps) auto
  show ?case
  proof (cases "p = t")
    case False
    then have "\<exists>s'. pq_remove_from fuel t (if ys @ [p] = [] then None else Some (last (ys @ [p])))
        (ce_next (po_mem po ! p)) (po, q) = Inr s' \<and> queued s' ((ys @ [p]) @ remove1 t ps)"
      using Suc.prems zs nx by (intro Suc.IH) auto
    then show ?thesis using False Suc.prems(4) p by (simp add: zs next_of_def)
  next
    case True
    show ?thesis
    proof (cases ys rule: rev_cases)
      case Nil
      then obtain q' where "pq_deque (po, q) = Inr (Some p, (po, q'))" "queued (po, q') ps"
        using pq_deque_cons [of po q p ps] Suc.prems(1) zs by auto
      then show ?thesis using True Suc.prems(4) p Nil by (simp add: zs next_of_def)
    next
      case (snoc as b)
      have b: "b < length (po_mem po)" by (rule free_path_bound [OF path(1)]) (simp add: snoc)
      obtain po' where po: "set_next b (ce_next (po_mem po ! p)) po = Inr po'"
        "po_mem po' = (po_mem po)[b := (po_mem po ! b)\<lparr>ce_next := ce_next (po_mem po ! p)\<rparr>]"
        using set_next_Inr [OF b] by blast
      have sz: "size_of po' = size_of po" using po(1) by (intro ext) simp
      have path': "free_path (po_mem po') (pq_head q) (as @ b # ps)"
        using free_path_unlink [of "po_mem po" "pq_head q" as b p ps] path by (simp add: snoc po(2))
      have "pq_tail q = Some (last (p # ps))" using Suc.prems(1) by (simp add: queued_def zs)
      moreover have "last (p # ps) = p \<longleftrightarrow> ps = []" using path(2) by (cases ps rule: rev_cases) auto
      ultimately show ?thesis
        using True Suc.prems(1,4) p po(1) sz path' path(2)
        by (auto simp: zs next_of_def snoc queued_def Let_def)
    qed
  qed
qed

lemma pq_remove_from_absent:
  "free_path (po_mem po) x zs \<Longrightarrow> t \<notin> set zs \<Longrightarrow> length zs \<le> fuel \<Longrightarrow>
   pq_remove_from fuel t pp x (po, q) = Inl Aborted"
proof (induction fuel arbitrary: x pp zs)
  case 0
  then show ?case by simp
next
  case (Suc fuel)
  then show ?case by (cases zs) (auto simp: next_of_def)
qed

lemma pq_flows_ok:
  assumes "free_path (po_mem po) x xs" and "length xs \<le> fuel" and "distinct fs"
  shows "\<exists>fs'. pq_flows fuel po x fs = Inr fs' \<and> distinct fs' \<and> set fs' = set fs \<union> flow_of po ` set xs"
  using assms
proof (induction fuel arbitrary: x xs fs)
  case 0
  then show ?case by simp
next
  case (Suc fuel)
  show ?case
  proof (cases xs)
    case Nil
    then show ?thesis using Suc.prems by simp
  next
    case (Cons p ys)
    let ?fs = "if list_ex (\<lambda>f. f = flow_of po p) fs then fs else flow_of po p # fs"
    have d: "distinct ?fs" "set ?fs = insert (flow_of po p) (set fs)"
      using Suc.prems(3) by (auto simp: list_ex_iff)
    obtain fs' where "pq_flows fuel po (ce_next (po_mem po ! p)) ?fs = Inr fs'" "distinct fs'"
      "set fs' = set ?fs \<union> flow_of po ` set ys"
      using Suc.IH [of "ce_next (po_mem po ! p)" ys ?fs] Suc.prems Cons d(1) by auto
    then show ?thesis using Suc.prems(1) Cons d(2) by (auto simp: next_of_def)
  qed
qed

lemma packet_queue_parts:
  assumes "queued (po, q) xs"
  shows "pq_lookup n (po, q) = Inr (if nat n < length xs then Some (xs ! nat n) else None)"
    and "p < length (po_mem po) \<Longrightarrow> p \<notin> set xs \<Longrightarrow> \<exists>s'. pq_enqueHead p (po, q) = Inr s' \<and> queued s' (p # xs)"
    and "p \<in> set xs \<Longrightarrow> \<exists>s'. pq_remove p (po, q) = Inr s' \<and> queued s' (remove1 p xs)"
    and "p \<notin> set xs \<Longrightarrow> pq_remove p (po, q) = Inl Aborted"
    and "pq_num_flows (po, q) = Inr (int (card (flow_of po ` set xs)))"
proof -
  have path: "free_path (po_mem po) (pq_head q) xs" "distinct xs" using assms by (simp_all add: queued_def)
  note len = path_length [OF path]
  show "pq_lookup n (po, q) = Inr (if nat n < length xs then Some (xs ! nat n) else None)"
    by (rule pq_lookup_ok [OF assms])
  show "p < length (po_mem po) \<Longrightarrow> p \<notin> set xs \<Longrightarrow> \<exists>s'. pq_enqueHead p (po, q) = Inr s' \<and> queued s' (p # xs)"
    using pq_enqueHead_ok [OF assms] by blast
  show "p \<in> set xs \<Longrightarrow> \<exists>s'. pq_remove p (po, q) = Inr s' \<and> queued s' (remove1 p xs)"
    using pq_remove_from_ok [of po q "[]" xs p "length (po_mem po)"] assms len queued_head [OF assms]
    by (simp add: pq_remove_def)
  show "p \<notin> set xs \<Longrightarrow> pq_remove p (po, q) = Inl Aborted"
    using pq_remove_from_absent [OF path(1) _ len] by (simp add: pq_remove_def)
  obtain fs where "pq_flows (length (po_mem po)) po (pq_head q) [] = Inr fs" "distinct fs"
    "set fs = flow_of po ` set xs"
    using pq_flows_ok [OF path(1) len, of "[]"] by auto
  then show "pq_num_flows (po, q) = Inr (int (card (flow_of po ` set xs)))"
    using distinct_card [of fs] by (simp add: pq_num_flows_def)
qed

text \<open>
  The packet queue is a list. On a queue that represents the packets \<open>xs\<close>,
  \<open>lookup\<close> indexes the list, \<open>enqueHead\<close> conses a packet that is not in it,
  \<open>remove\<close> takes a packet out wherever it is and aborts on one that is not there, and
  \<open>num_flows\<close> is the number of different flows among the packets; the head, tail, length
  and byte count stay those of the list.
\<close>

theorem packet_queue_is_a_list:
  assumes "queued (po, q) xs"
  shows "pq_lookup n (po, q) = Inr (if nat n < length xs then Some (xs ! nat n) else None) \<and>
    (p < length (po_mem po) \<and> p \<notin> set xs \<longrightarrow>
      (\<exists>s'. pq_enqueHead p (po, q) = Inr s' \<and> queued s' (p # xs)) \<and> pq_remove p (po, q) = Inl Aborted) \<and>
    (p \<in> set xs \<longrightarrow> (\<exists>s'. pq_remove p (po, q) = Inr s' \<and> queued s' (remove1 p xs))) \<and>
    pq_num_flows (po, q) = Inr (int (card (flow_of po ` set xs)))"
  using packet_queue_parts [OF assms] by simp

text \<open>A pool of three packets in use, the first two of them in a queue.\<close>

definition demo_cell :: "nat option \<Rightarrow> int \<Rightarrow> int \<Rightarrow> cell" where
  "demo_cell x src sz = new_packet\<lparr>ce_next := x, ce_bits := zero_hdrs\<lparr>
     hd_cmn := zero_cmn\<lparr>cm_size := sz\<rparr>, hd_ip := zero_ip\<lparr>ip_saddr := src\<rparr>\<rparr>\<rparr>"

definition demo_queue :: qstate where
  "demo_queue = (\<lparr>po_mem = [demo_cell (Some 1) 7 100, demo_cell None 7 200, demo_cell None 8 300], po_free = None\<rparr>,
     \<lparr>pq_head = Some 0, pq_tail = Some 1, pq_len = 2, pq_bytes = 300\<rparr>)"

lemma demo_queued: "queued demo_queue [0, 1]"
  by (simp add: demo_queue_def queued_def size_of_def demo_cell_def)

theorem packet_queue_is_a_list_witness:
  "pq_lookup 1 demo_queue = Inr (Some 1) \<and>
   (\<exists>s. pq_enqueHead 2 demo_queue = Inr s \<and> queued s [2, 0, 1]) \<and>
   (\<exists>s. pq_remove 0 demo_queue = Inr s \<and> queued s [1]) \<and>
   pq_remove 2 demo_queue = Inl Aborted \<and> pq_num_flows demo_queue = Inr 1"
proof -
  obtain po q where d: "demo_queue = (po, q)" by (cases demo_queue)
  have f: "flow_of po ` set [0, 1] = {flow_of po 0}" "2 < length (po_mem po)"
    using d by (auto simp: demo_queue_def flow_of_def demo_cell_def Let_def)
  note t = packet_queue_is_a_list [OF demo_queued [unfolded d], folded d]
  show ?thesis using t [of 1 0] t [of 1 2] f by simp
qed

subsection \<open>The interface: first in, first out\<close>

datatype 'p queue_op = Enq 'p | Deq

fun run_queue :: "('p \<Rightarrow> 's \<Rightarrow> ('r \<times> 's) res) \<Rightarrow> ('s \<Rightarrow> ('p option \<times> 's) res) \<Rightarrow> 'p queue_op list \<Rightarrow> 's
    \<Rightarrow> ('p list \<times> 's) res" where
  "run_queue enq deq [] s = Inr ([], s)"
| "run_queue enq deq (Enq p # ops) s = rbind (enq p s) (\<lambda>(r, s). run_queue enq deq ops s)"
| "run_queue enq deq (Deq # ops) s =
     rbind (deq s) (\<lambda>(x, s). rbind (run_queue enq deq ops s) (\<lambda>(out, s).
       Inr ((case x of None \<Rightarrow> out | Some p \<Rightarrow> p # out), s)))"

fun arrivals :: "'p queue_op list \<Rightarrow> 'p list" where
  "arrivals [] = []"
| "arrivals (Enq p # ops) = p # arrivals ops"
| "arrivals (Deq # ops) = arrivals ops"

locale fifo_queue =
  fixes enq :: "'p \<Rightarrow> 's \<Rightarrow> ('r \<times> 's) res"
    and deq :: "'s \<Rightarrow> ('p option \<times> 's) res"
    and represents :: "'s \<Rightarrow> 'p list \<Rightarrow> bool"
    and known :: "'s \<Rightarrow> 'p \<Rightarrow> bool"
  assumes enq_ok: "represents s xs \<Longrightarrow> p \<notin> set xs \<Longrightarrow> known s p \<Longrightarrow>
      \<exists>r s'. enq p s = Inr (r, s') \<and> represents s' (xs @ [p]) \<and> known s' = known s"
    and deq_nil: "represents s [] \<Longrightarrow> deq s = Inr (None, s)"
    and deq_cons: "represents s (p # xs) \<Longrightarrow>
      \<exists>s'. deq s = Inr (Some p, s') \<and> represents s' xs \<and> known s' = known s"
begin

lemma run_fifo:
  assumes "represents s xs" and "distinct (xs @ arrivals ops)" and "\<forall>p \<in> set (arrivals ops). known s p"
  shows "\<exists>out s' ys. run_queue enq deq ops s = Inr (out, s') \<and> represents s' ys \<and> out @ ys = xs @ arrivals ops"
  using assms
proof (induction ops arbitrary: s xs)
  case Nil
  then show ?case by auto
next
  case (Cons op ops)
  show ?case
  proof (cases op)
    case (Enq p)
    then obtain r s1 where s1: "enq p s = Inr (r, s1)" "represents s1 (xs @ [p])" "known s1 = known s"
      using enq_ok [of s xs p] Cons.prems by auto
    have "\<exists>out s' ys. run_queue enq deq ops s1 = Inr (out, s') \<and> represents s' ys \<and> out @ ys = (xs @ [p]) @ arrivals ops"
      using Cons.prems s1 Enq by (intro Cons.IH) auto
    then show ?thesis using s1(1) Enq by auto
  next
    case Deq
    show ?thesis
    proof (cases xs)
      case Nil
      then show ?thesis using Cons.IH [of s "[]"] Cons.prems deq_nil [of s] Deq by auto
    next
      case (Cons p ps)
      then obtain s1 where s1: "deq s = Inr (Some p, s1)" "represents s1 ps" "known s1 = known s"
        using deq_cons [of s p ps] Cons.prems by auto
      have "\<exists>out s' ys. run_queue enq deq ops s1 = Inr (out, s') \<and> represents s' ys \<and> out @ ys = ps @ arrivals ops"
        using Cons.prems s1 Deq Cons by (intro Cons.IH) auto
      then show ?thesis using s1(1) Deq Cons by auto
    qed
  qed
qed

end

definition in_pool :: "qstate \<Rightarrow> nat \<Rightarrow> bool" where
  "in_pool s p \<longleftrightarrow> p < length (po_mem (fst s))"

interpretation pq: fifo_queue pq_enque pq_deque queued in_pool
proof
  fix s xs p
  assume "queued s xs" "p \<notin> set xs" "in_pool s p"
  then show "\<exists>r s'. pq_enque p s = Inr (r, s') \<and> queued s' (xs @ [p]) \<and> in_pool s' = in_pool s"
    using pq_enque_ok [of "fst s" "snd s" xs p] by (fastforce simp: in_pool_def)
next
  fix s assume "queued s []"
  then show "pq_deque s = Inr (None, s)" by (rule pq_deque_nil)
next
  fix s p xs assume "queued s (p # xs)"
  then show "\<exists>s'. pq_deque s = Inr (Some p, s') \<and> queued s' xs \<and> in_pool s' = in_pool s"
    using pq_deque_cons [of "fst s" "snd s" p xs] by (fastforce simp: in_pool_def)
qed

text \<open>
  First in, first out. Whatever sequence of \<open>enque\<close> and \<open>deque\<close> runs on the
  linked list, with packets of the pool each entering once, what came out followed by what
  is still in the queue is what was in it followed by what entered, in order: no packet is
  lost, duplicated or overtaken.
\<close>

theorem packet_queue_fifo:
  assumes "queued s xs" and "distinct (xs @ arrivals ops)" and "\<forall>p \<in> set (arrivals ops). in_pool s p"
  shows "\<exists>out s' ys. run_queue pq_enque pq_deque ops s = Inr (out, s') \<and> queued s' ys \<and>
    out @ ys = xs @ arrivals ops"
  by (rule pq.run_fifo [OF assms])

theorem packet_queue_fifo_witness:
  "\<exists>out s ys. run_queue pq_enque pq_deque [Deq, Enq 2, Deq] demo_queue = Inr (out, s) \<and> queued s ys \<and>
     out @ ys = [0, 1, 2]"
  using packet_queue_fifo [OF demo_queued, of "[Deq, Enq 2, Deq]"]
  by (simp add: in_pool_def demo_queue_def)

end
