(* ===== verification/DropTail.thy ===== *)
theory DropTail
  imports PacketQueue "HOL-Library.Sublist"
begin

section \<open>The queue in front of a link\<close>

text \<open>
  \<open>Queue\<close> of queue/queue.cc with the discipline \<open>DropTail\<close> of queue/drop-tail.cc: it
  hands packets to the link one at a time, blocks until the link calls \<open>resume\<close>, and
  drops when full. It also measures the utilisation of the link, which the controllers poll.
  A packet given to the target is appended to \<open>lk_sent\<close>, one given to \<open>drop\<close> to
  \<open>lk_dropped\<close>. The times and averages (\<open>double\<close>) are reals.
\<close>

record dtqueue =
  dt_q :: pqueue
  dt_qlim :: int
  dt_blocked :: bool
  dt_unblock_on_resume :: bool
  dt_drop_front :: bool
  dt_qib :: bool
  dt_mean_pktsize :: int
  dt_summarystats :: bool
  dt_true_ave :: real
  dt_total_time :: real
  dt_last_change :: real
  dt_old_util :: real
  dt_util_weight :: real
  dt_util_check_intv :: real
  dt_period_begin :: real
  dt_cur_util :: real
  dt_buf_slot :: nat
  dt_util_buf :: "real list"

record link =
  lk_pool :: pool
  lk_clock :: real
  lk_queue :: dtqueue
  lk_drop_target :: bool
  lk_sent :: "nat list"
  lk_dropped :: "nat list"

subsection \<open>Utilisation\<close>

text \<open>
  The loop that closes measurement periods runs at most \<open>util_records_\<close> times; the
  buffer has that many slots.
\<close>

fun close_periods :: "nat \<Rightarrow> real \<Rightarrow> real \<Rightarrow> real \<Rightarrow> real \<Rightarrow> dtqueue \<Rightarrow> dtqueue" where
  "close_periods 0 tot intv int_end link_state d = d"
| "close_periods (Suc guard) tot intv int_end link_state d =
     (if tot + intv > dt_util_check_intv d then
        close_periods guard tot (intv - dt_util_check_intv d) int_end link_state
          (d\<lparr>dt_period_begin := int_end, dt_cur_util := link_state,
             dt_buf_slot := (dt_buf_slot d + 1) mod length (dt_util_buf d),
             dt_util_buf := (dt_util_buf d)[dt_buf_slot d := dt_cur_util d]\<rparr>)
      else d)"

definition utilUpdate :: "real \<Rightarrow> real \<Rightarrow> bool \<Rightarrow> dtqueue \<Rightarrow> dtqueue" where
  "utilUpdate int_begin int_end blocked d =
     (let link_state = of_bool blocked;
          decay = exp (- dt_util_weight d * (int_end - int_begin));
          d1 = d\<lparr>dt_old_util := link_state + (dt_old_util d - link_state) * decay\<rparr> in
      if length (dt_util_buf d1) = 0 then d1
      else
        let intv = int_end - int_begin; tot = int_begin - dt_period_begin d1 in
        if intv \<noteq> 0 \<or> tot \<noteq> 0 then
          close_periods (length (dt_util_buf d1)) tot intv int_end link_state
            (d1\<lparr>dt_cur_util := (link_state * intv + dt_cur_util d1 * tot) / (intv + tot)\<rparr>)
        else d1)"

definition utilization :: "link \<Rightarrow> real \<times> link" where
  "utilization s =
     (let d = (utilUpdate (dt_last_change (lk_queue s)) (lk_clock s) (dt_blocked (lk_queue s)) (lk_queue s))
          \<lparr>dt_last_change := lk_clock s\<rparr>
      in (dt_old_util d, s\<lparr>lk_queue := d\<rparr>))"

definition peak_utilization :: "link \<Rightarrow> real \<times> link" where
  "peak_utilization s =
     (if length (dt_util_buf (lk_queue s)) = 0 then utilization s
      else let d = (utilUpdate (dt_last_change (lk_queue s)) (lk_clock s) (dt_blocked (lk_queue s)) (lk_queue s))
             \<lparr>dt_last_change := lk_clock s\<rparr>
        in (fold (\<lambda>u peak. if u > peak then u else peak) (dt_util_buf d) 0, s\<lparr>lk_queue := d\<rparr>))"

definition updateStats_queue :: "int \<Rightarrow> link \<Rightarrow> link" where
  "updateStats_queue queuesize s =
     (let d = lk_queue s; now = lk_clock s; newtime = now - dt_total_time d in
      if newtime > 0 then s\<lparr>lk_queue := d\<lparr>
        dt_true_ave := (dt_total_time d * dt_true_ave d + newtime * real_of_int queuesize) / now,
        dt_total_time := now\<rparr>\<rparr>
      else s)"

subsection \<open>The discipline\<close>

text \<open>\<open>Connector::drop\<close>\<close>

definition drop_packet :: "nat \<Rightarrow> link \<Rightarrow> link res" where
  "drop_packet p s =
     (let s1 = s\<lparr>lk_dropped := lk_dropped s @ [p]\<rparr> in
      if lk_drop_target s then Inr s1
      else rbind (packet_free p (lk_pool s1)) (\<lambda>po. Inr (s1\<lparr>lk_pool := po\<rparr>)))"

definition on_queue :: "(qstate \<Rightarrow> ('r \<times> qstate) res) \<Rightarrow> link \<Rightarrow> ('r \<times> link) res" where
  "on_queue f s = rbind (f (lk_pool s, dt_q (lk_queue s))) (\<lambda>(r, (po, q)).
     Inr (r, s\<lparr>lk_pool := po, lk_queue := (lk_queue s)\<lparr>dt_q := q\<rparr>\<rparr>))"

definition stats_first :: "link \<Rightarrow> link" where
  "stats_first s =
     (let d = lk_queue s in
      if dt_summarystats d
      then updateStats_queue (if dt_qib d then pq_bytes (dt_q d) else pq_len (dt_q d)) s else s)"

definition overflows :: "nat \<Rightarrow> link \<Rightarrow> bool" where
  "overflows p s =
     (let d = lk_queue s; qlimBytes = dt_qlim d * dt_mean_pktsize d in
      (\<not> dt_qib d \<and> pq_len (dt_q d) + 1 \<ge> dt_qlim d) \<or>
      (dt_qib d \<and> pq_bytes (dt_q d) + size_of (lk_pool s) p \<ge> qlimBytes))"

text \<open>
  \<open>enque\<close> and \<open>deque\<close>. What \<open>PacketQueue::enque\<close> first does to the pathway map touches neither
  the pool nor the queue and is left out here; it is \<open>pq_enque_recording\<close> (theory
  \<open>PacketQueue\<close>) and the subject of \<open>Pathways\<close>.
\<close>

definition DropTail_enque :: "nat \<Rightarrow> link \<Rightarrow> link res" where
  "DropTail_enque p s0 =
     (let s = stats_first s0 in
      if overflows p s then
        if dt_drop_front (lk_queue s) then
          rbind (on_queue (pq_enque p) s) (\<lambda>(pt, s). rbind (on_queue pq_deque s) (\<lambda>(pp, s).
            rbind (deref pp) (\<lambda>pp. drop_packet pp s)))
        else drop_packet p s
      else rbind (on_queue (pq_enque p) s) (\<lambda>(pt, s). Inr s))"

definition DropTail_deque :: "link \<Rightarrow> (nat option \<times> link) res" where
  "DropTail_deque s = on_queue pq_deque (stats_first s)"

text \<open>\<open>shrink_queue\<close>, whose loop runs at most once per packet in the queue (\<open>fuel\<close>).\<close>

definition too_long :: "link \<Rightarrow> bool" where
  "too_long s = (let d = lk_queue s; qlimBytes = dt_qlim d * dt_mean_pktsize d in
     (\<not> dt_qib d \<and> pq_len (dt_q d) > dt_qlim d) \<or> (dt_qib d \<and> pq_bytes (dt_q d) > qlimBytes))"

fun shrink_loop :: "nat \<Rightarrow> link \<Rightarrow> link res" where
  "shrink_loop 0 s = (if too_long s then Inl Diverges else Inr s)"
| "shrink_loop (Suc fuel) s =
     (if too_long s then
        rbind (if dt_drop_front (lk_queue s)
               then rbind (on_queue pq_deque s) (\<lambda>(pp, s). rbind (deref pp) (\<lambda>pp. drop_packet pp s))
               else rbind (deref (pq_tail (dt_q (lk_queue s)))) (\<lambda>pp.
                 rbind (on_queue (\<lambda>q. rbind (pq_remove pp q) (\<lambda>q. Inr ((), q))) s) (\<lambda>(_, s). drop_packet pp s)))
          (shrink_loop fuel)
      else Inr s)"

definition shrink_queue :: "link \<Rightarrow> link res" where
  "shrink_queue s = shrink_loop (length (po_mem (lk_pool s))) s"

subsection \<open>Serving the link\<close>

definition note_change :: "link \<Rightarrow> link" where
  "note_change s = s\<lparr>lk_queue := (utilUpdate (dt_last_change (lk_queue s)) (lk_clock s) (dt_blocked (lk_queue s)) (lk_queue s))
     \<lparr>dt_last_change := lk_clock s\<rparr>\<rparr>"

definition set_blocked :: "bool \<Rightarrow> link \<Rightarrow> link" where
  "set_blocked b s = s\<lparr>lk_queue := (lk_queue s)\<lparr>dt_blocked := b\<rparr>\<rparr>"

definition to_target :: "nat \<Rightarrow> link \<Rightarrow> link" where
  "to_target p s = s\<lparr>lk_sent := lk_sent s @ [p]\<rparr>"

definition Queue_recv :: "nat \<Rightarrow> link \<Rightarrow> link res" where
  "Queue_recv p s =
     rbind (DropTail_enque p s) (\<lambda>s.
       if \<not> dt_blocked (lk_queue s) then
         rbind (DropTail_deque s) (\<lambda>(p, s).
           case p of None \<Rightarrow> Inr s | Some p \<Rightarrow> Inr (to_target p (set_blocked True (note_change s))))
       else Inr s)"

definition Queue_resume :: "link \<Rightarrow> link res" where
  "Queue_resume s =
     rbind (DropTail_deque s) (\<lambda>(p, s).
       case p of
         Some p \<Rightarrow> Inr (to_target p s)
       | None \<Rightarrow> Inr (set_blocked (\<not> dt_unblock_on_resume (lk_queue s)) (note_change s)))"

fun reset_loop :: "nat \<Rightarrow> link \<Rightarrow> link res" where
  "reset_loop 0 s = Inl Diverges"
| "reset_loop (Suc fuel) s =
     rbind (DropTail_deque s) (\<lambda>(p, s).
       case p of None \<Rightarrow> Inr s | Some p \<Rightarrow> rbind (drop_packet p s) (reset_loop fuel))"

definition Queue_reset :: "link \<Rightarrow> link res" where
  "Queue_reset s = reset_loop (Suc (length (po_mem (lk_pool s))))
     (s\<lparr>lk_queue := (lk_queue s)\<lparr>dt_true_ave := 0, dt_total_time := 0\<rparr>\<rparr>)"

subsection \<open>What an operation does to the packets\<close>

text \<open>The packets in the queue are \<open>xs\<close>; \<open>same_rules\<close> keeps limit, mode and service state.\<close>

definition holds :: "link \<Rightarrow> nat list \<Rightarrow> bool" where
  "holds s xs \<longleftrightarrow> queued (lk_pool s, dt_q (lk_queue s)) xs"

definition same_rules :: "link \<Rightarrow> link \<Rightarrow> bool" where
  "same_rules s t \<longleftrightarrow> lk_drop_target t = lk_drop_target s \<and> dt_qlim (lk_queue t) = dt_qlim (lk_queue s) \<and>
     dt_qib (lk_queue t) = dt_qib (lk_queue s) \<and> dt_unblock_on_resume (lk_queue t) = dt_unblock_on_resume (lk_queue s) \<and>
     length (po_mem (lk_pool t)) = length (po_mem (lk_pool s))"

lemma same_rules_refl [simp]: "same_rules s s"
  by (simp add: same_rules_def)

lemma same_rules_trans: "same_rules s t \<Longrightarrow> same_rules t u \<Longrightarrow> same_rules s u"
  by (simp add: same_rules_def)

lemma close_periods_frame [simp]:
  "dt_q (close_periods g a b c l d) = dt_q d" "dt_qlim (close_periods g a b c l d) = dt_qlim d"
  "dt_qib (close_periods g a b c l d) = dt_qib d" "dt_blocked (close_periods g a b c l d) = dt_blocked d"
  "dt_unblock_on_resume (close_periods g a b c l d) = dt_unblock_on_resume d"
  by (induction g arbitrary: b d) simp_all

lemma utilUpdate_frame [simp]:
  "dt_q (utilUpdate a b l d) = dt_q d" "dt_qlim (utilUpdate a b l d) = dt_qlim d"
  "dt_qib (utilUpdate a b l d) = dt_qib d" "dt_blocked (utilUpdate a b l d) = dt_blocked d"
  "dt_unblock_on_resume (utilUpdate a b l d) = dt_unblock_on_resume d"
  by (simp_all add: utilUpdate_def Let_def)

lemma updateStats_queue_frame [simp]:
  "lk_pool (updateStats_queue n s) = lk_pool s" "dt_q (lk_queue (updateStats_queue n s)) = dt_q (lk_queue s)"
  "dt_blocked (lk_queue (updateStats_queue n s)) = dt_blocked (lk_queue s)"
  "lk_sent (updateStats_queue n s) = lk_sent s" "lk_dropped (updateStats_queue n s) = lk_dropped s"
  "same_rules s (updateStats_queue n s)"
  by (simp_all add: updateStats_queue_def same_rules_def Let_def)

lemma stats_first_frame [simp]:
  "lk_pool (stats_first s) = lk_pool s" "dt_q (lk_queue (stats_first s)) = dt_q (lk_queue s)"
  "dt_blocked (lk_queue (stats_first s)) = dt_blocked (lk_queue s)"
  "lk_sent (stats_first s) = lk_sent s" "lk_dropped (stats_first s) = lk_dropped s"
  "same_rules s (stats_first s)" "holds (stats_first s) xs = holds s xs"
  by (simp_all add: stats_first_def holds_def Let_def)

text \<open>The same served state, sent and dropped packets: what only the queue may change.\<close>

definition same_service :: "link \<Rightarrow> link \<Rightarrow> bool" where
  "same_service s t \<longleftrightarrow> dt_blocked (lk_queue t) = dt_blocked (lk_queue s) \<and> lk_sent t = lk_sent s \<and>
     lk_dropped t = lk_dropped s \<and> same_rules s t"

lemma on_queue_ok:
  assumes "f (lk_pool s, dt_q (lk_queue s)) = Inr (r, (po, q))"
    and "length (po_mem po) = length (po_mem (lk_pool s))"
  shows "\<exists>t. on_queue f s = Inr (r, t) \<and> lk_pool t = po \<and> dt_q (lk_queue t) = q \<and> same_service s t"
  using assms by (simp add: on_queue_def same_service_def same_rules_def)

lemma on_queue_enque:
  assumes "holds s xs" and "p \<notin> set xs" and "p < length (po_mem (lk_pool s))"
  shows "\<exists>r t. on_queue (pq_enque p) s = Inr (r, t) \<and> holds t (xs @ [p]) \<and> same_service s t"
proof -
  obtain po q where e: "pq_enque p (lk_pool s, dt_q (lk_queue s)) = Inr (pq_tail (dt_q (lk_queue s)), (po, q))"
    "queued (po, q) (xs @ [p])" "length (po_mem po) = length (po_mem (lk_pool s))"
    using pq_enque_ok [OF assms(1) [unfolded holds_def] assms(2,3)] by blast
  from on_queue_ok [where f = "pq_enque p" and s = s, OF e(1,3)] e(2) show ?thesis by (auto simp: holds_def)
qed

lemma on_queue_deque:
  assumes "holds s xs"
  shows "\<exists>t. on_queue pq_deque s = Inr (case xs of [] \<Rightarrow> None | p # _ \<Rightarrow> Some p, t) \<and> holds t (tl xs) \<and>
    same_service s t"
proof (cases xs)
  case Nil
  then have "pq_deque (lk_pool s, dt_q (lk_queue s)) = Inr (None, (lk_pool s, dt_q (lk_queue s)))"
    using assms pq_deque_nil by (simp add: holds_def)
  from on_queue_ok [where f = pq_deque and s = s, OF this refl] assms Nil show ?thesis by (auto simp: holds_def)
next
  case (Cons p ps)
  then obtain q where e: "pq_deque (lk_pool s, dt_q (lk_queue s)) = Inr (Some p, (lk_pool s, q))"
    "queued (lk_pool s, q) ps"
    using pq_deque_cons [of "lk_pool s" "dt_q (lk_queue s)" p ps] assms by (auto simp: holds_def)
  from on_queue_ok [where f = pq_deque and s = s, OF e(1) refl] e(2) Cons show ?thesis by (auto simp: holds_def)
qed

lemma DropTail_deque_ok:
  assumes "holds s xs"
  shows "\<exists>t. DropTail_deque s = Inr (case xs of [] \<Rightarrow> None | p # _ \<Rightarrow> Some p, t) \<and> holds t (tl xs) \<and>
    same_service s t"
proof -
  obtain t where "on_queue pq_deque (stats_first s) = Inr (case xs of [] \<Rightarrow> None | p # _ \<Rightarrow> Some p, t)"
    "holds t (tl xs)" "same_service (stats_first s) t"
    using on_queue_deque [of "stats_first s" xs] assms by auto
  then show ?thesis
    using same_rules_trans [OF stats_first_frame(6) [of s]]
    by (auto simp: DropTail_deque_def same_service_def)
qed

definition room :: "link \<Rightarrow> nat list \<Rightarrow> bool" where
  "room s xs \<longleftrightarrow> dt_qib (lk_queue s) \<or> int (length xs) \<le> max 0 (dt_qlim (lk_queue s) - 1)"

text \<open>
  \<open>DropTail::enque\<close>: the packet is queued, or a packet is dropped (itself or the one at the
  front); in both cases the queue keeps its order and the limit.
\<close>

lemma DropTail_enque_ok:
  assumes "holds s xs" and "p \<notin> set xs" and "p < length (po_mem (lk_pool s))"
    and "lk_drop_target s" and "room s xs"
  shows "\<exists>t ys ds. DropTail_enque p s = Inr t \<and> holds t ys \<and> lk_dropped t = lk_dropped s @ ds \<and>
    mset (xs @ [p]) = mset ys + mset ds \<and> subseq ys (xs @ [p]) \<and> room t ys \<and> same_rules s t \<and>
    lk_sent t = lk_sent s \<and> dt_blocked (lk_queue t) = dt_blocked (lk_queue s)"
proof -
  let ?s = "stats_first s"
  have s: "holds ?s xs" "p < length (po_mem (lk_pool ?s))" "lk_drop_target ?s" "room ?s xs"
    using assms stats_first_frame(6) [of s] by (simp_all add: same_rules_def room_def)
  obtain r t where t: "on_queue (pq_enque p) ?s = Inr (r, t)" "holds t (xs @ [p])" "same_service ?s t"
    using on_queue_enque [OF s(1) assms(2) s(2)] by blast
  have rules: "same_rules s t" using t(3) same_rules_trans [OF stats_first_frame(6)] by (simp add: same_service_def)
  show ?thesis
  proof (cases "overflows p ?s")
    case False
    have "room t (xs @ [p])"
    proof (cases "dt_qib (lk_queue ?s)")
      case True
      then show ?thesis using t(3) by (simp add: room_def same_service_def same_rules_def)
    next
      case no_bytes: False
      have "pq_len (dt_q (lk_queue ?s)) = int (length xs)" using assms(1) by (simp add: holds_def queued_def)
      then show ?thesis
        using False no_bytes t(3) by (simp add: overflows_def room_def same_service_def same_rules_def Let_def)
    qed
    then show ?thesis
      using False t rules
      by (intro exI [of _ t] exI [of _ "xs @ [p]"] exI [of _ "[]"]) (simp add: DropTail_enque_def same_service_def Let_def)
  next
    case full: True
    show ?thesis
    proof (cases "dt_drop_front (lk_queue ?s)")
      case False
      then have "DropTail_enque p s = Inr (?s\<lparr>lk_dropped := lk_dropped s @ [p]\<rparr>)"
        using full s(3) by (simp add: DropTail_enque_def drop_packet_def Let_def)
      moreover have "holds (?s\<lparr>lk_dropped := d\<rparr>) xs" "room (?s\<lparr>lk_dropped := d\<rparr>) xs" "same_rules s (?s\<lparr>lk_dropped := d\<rparr>)" for d
        using s(1,4) stats_first_frame(6) [of s] by (simp_all add: holds_def room_def same_rules_def)
      ultimately show ?thesis
        by (intro exI [of _ "?s\<lparr>lk_dropped := lk_dropped s @ [p]\<rparr>"] exI [of _ xs] exI [of _ "[p]"])
          (auto intro: subseq_append_le_same_iff [THEN iffD2] simp: subseq_rev_drop_many)
    next
      case True
      obtain u where u: "on_queue pq_deque t = Inr (Some (hd (xs @ [p])), u)" "holds u (tl (xs @ [p]))" "same_service t u"
        using on_queue_deque [OF t(2)] by (cases xs) auto
      have ru: "same_rules s u" using rules u(3) same_rules_trans by (auto simp: same_service_def)
      have "room u (tl (xs @ [p]))" using assms(5) ru by (cases xs) (auto simp: room_def same_rules_def)
      moreover have "DropTail_enque p s = Inr (u\<lparr>lk_dropped := lk_dropped s @ [hd (xs @ [p])]\<rparr>)"
        using full True t(1,3) u(1,3) s(3) stats_first_frame(5) [of s]
        by (simp add: DropTail_enque_def drop_packet_def deref_def same_service_def same_rules_def Let_def)
      moreover have "mset (xs @ [p]) = mset (tl (xs @ [p])) + mset [hd (xs @ [p])]" by (cases xs) auto
      moreover have "subseq (tl (xs @ [p])) (xs @ [p])" by (cases xs) (auto intro: list_emb_Cons)
      ultimately show ?thesis
        using u ru t(3)
        by (intro exI [of _ "u\<lparr>lk_dropped := lk_dropped s @ [hd (xs @ [p])]\<rparr>"] exI [of _ "tl (xs @ [p])"]
            exI [of _ "[hd (xs @ [p])]"]) (simp add: holds_def room_def same_rules_def same_service_def)
    qed
  qed
qed

subsection \<open>A history of arrivals and resumptions\<close>

text \<open>
  What happens to a link: a packet arrives at a time, or the link, which has transmitted the
  packet it was given, calls \<open>resume\<close> at a time.
\<close>

datatype link_event = Arrive real nat | Resume real

definition link_event_step :: "link_event \<Rightarrow> link \<Rightarrow> link res" where
  "link_event_step e s = (case e of Arrive t p \<Rightarrow> Queue_recv p (s\<lparr>lk_clock := t\<rparr>)
     | Resume t \<Rightarrow> Queue_resume (s\<lparr>lk_clock := t\<rparr>))"

fun arrived :: "link_event list \<Rightarrow> nat list" where
  "arrived [] = []"
| "arrived (Arrive t p # es) = p # arrived es"
| "arrived (Resume t # es) = arrived es"

fun resumed :: "link_event list \<Rightarrow> nat" where
  "resumed [] = 0"
| "resumed (Arrive t p # es) = resumed es"
| "resumed (Resume t # es) = Suc (resumed es)"

lemma note_change_frame [simp]:
  "lk_pool (note_change s) = lk_pool s" "dt_q (lk_queue (note_change s)) = dt_q (lk_queue s)"
  "dt_blocked (lk_queue (note_change s)) = dt_blocked (lk_queue s)" "lk_sent (note_change s) = lk_sent s"
  "lk_dropped (note_change s) = lk_dropped s" "same_rules s (note_change s)" "holds (note_change s) xs = holds s xs"
  by (simp_all add: note_change_def same_rules_def holds_def)

lemma set_blocked_frame [simp]:
  "lk_sent (set_blocked b s) = lk_sent s" "lk_dropped (set_blocked b s) = lk_dropped s"
  "dt_blocked (lk_queue (set_blocked b s)) = b" "same_rules s (set_blocked b s)"
  "holds (set_blocked b s) xs = holds s xs"
  by (simp_all add: set_blocked_def same_rules_def holds_def)

lemma to_target_frame [simp]:
  "lk_sent (to_target p s) = lk_sent s @ [p]" "lk_dropped (to_target p s) = lk_dropped s"
  "lk_queue (to_target p s) = lk_queue s" "same_rules s (to_target p s)" "holds (to_target p s) xs = holds s xs"
  by (simp_all add: to_target_def same_rules_def holds_def)

lemma room_rules: "same_rules s t \<Longrightarrow> room t xs = room s xs"
  by (simp add: room_def same_rules_def)

lemma room_tl: "room s xs \<Longrightarrow> room s (tl xs)"
  by (auto simp: room_def)

lemma same_rulesD:
  "same_rules s t \<Longrightarrow> lk_drop_target t = lk_drop_target s \<and> length (po_mem (lk_pool t)) = length (po_mem (lk_pool s)) \<and>
     dt_unblock_on_resume (lk_queue t) = dt_unblock_on_resume (lk_queue s)"
  by (simp add: same_rules_def)

text \<open>
  The invariant, with what has arrived, and the packets that are still to be counted as
  served: a blocked queue has one packet out, an unblocked one is empty.
\<close>

definition link_ok :: "nat list \<Rightarrow> nat \<Rightarrow> link \<Rightarrow> nat list \<Rightarrow> bool" where
  "link_ok arr n s xs \<longleftrightarrow> holds s xs \<and> room s xs \<and> lk_drop_target s \<and> dt_unblock_on_resume (lk_queue s) \<and>
     mset arr = mset (lk_sent s) + mset xs + mset (lk_dropped s) \<and> subseq (lk_sent s @ xs) arr \<and>
     (\<not> dt_blocked (lk_queue s) \<longrightarrow> xs = []) \<and>
     length (lk_sent s) \<le> n + (if dt_blocked (lk_queue s) then 1 else 0)"

lemma Queue_recv_ok:
  assumes "link_ok arr n s xs" and "p < length (po_mem (lk_pool s))" and "p \<notin> set arr"
  shows "\<exists>t ys. Queue_recv p s = Inr t \<and> link_ok (arr @ [p]) n t ys \<and> same_rules s t"
proof -
  note ok = assms(1) [unfolded link_ok_def]
  have "mset arr = mset (lk_sent s) + mset xs + mset (lk_dropped s)" using ok by simp
  from arg_cong [OF this, of set_mset] have "set xs \<subseteq> set arr" by auto
  then have "p \<notin> set xs" using assms(3) by auto
  then obtain t ys ds where t: "DropTail_enque p s = Inr t" "holds t ys" "lk_dropped t = lk_dropped s @ ds"
    "mset (xs @ [p]) = mset ys + mset ds" "subseq ys (xs @ [p])" "room t ys" "same_rules s t" "lk_sent t = lk_sent s"
    "dt_blocked (lk_queue t) = dt_blocked (lk_queue s)"
    using DropTail_enque_ok [of s xs p] ok assms(2) by blast
  have sub: "subseq (lk_sent s @ ys) (arr @ [p])"
  proof -
    have "subseq (lk_sent s @ ys) (lk_sent s @ xs @ [p])" using t(5) by (simp add: list_emb_append_mono)
    moreover have "subseq ((lk_sent s @ xs) @ [p]) (arr @ [p])" using ok by (intro list_emb_append_mono) simp_all
    ultimately show ?thesis by (metis append_assoc subseq_order.trans)
  qed
  have all: "mset (arr @ [p]) = mset (lk_sent s) + mset ys + mset (lk_dropped t)"
    using ok t(3,4) by (simp add: ac_simps)
  show ?thesis
  proof (cases "dt_blocked (lk_queue s)")
    case True
    then show ?thesis
      using t ok sub all same_rulesD [OF t(7)] by (auto simp: Queue_recv_def link_ok_def intro!: exI [of _ ys])
  next
    case False
    obtain u where u: "DropTail_deque t = Inr (case ys of [] \<Rightarrow> None | p # _ \<Rightarrow> Some p, u)" "holds u (tl ys)" "same_service t u"
      using DropTail_deque_ok [OF t(2)] by blast
    have ru: "same_rules s u" using t(7) u(3) same_rules_trans by (auto simp: same_service_def)
    have one: "length ys \<le> 1" using ok False t(5) list_emb_length [of _ ys "xs @ [p]"] by auto
    show ?thesis
    proof (cases ys)
      case Nil
      then show ?thesis
        using False t u ru ok sub all same_rulesD [OF ru] room_rules [OF ru]
        by (auto simp: Queue_recv_def link_ok_def same_service_def room_def intro!: exI [of _ "[]"])
    next
      case (Cons q qs)
      then have ys: "ys = [q]" using one by simp
      let ?v = "to_target q (set_blocked True (note_change u))"
      have rv: "same_rules s ?v" using ru by (meson same_rules_trans note_change_frame(6) set_blocked_frame(4) to_target_frame(4))
      have "Queue_recv q' s = Inr ?v" if "q' = p" for q'
        using False t(1,9) u(1) ys that by (simp add: Queue_recv_def)
      moreover have "link_ok (arr @ [p]) n ?v []"
        using ok False sub all u ys t(8) same_rulesD [OF rv]
        by (simp add: link_ok_def same_service_def room_def)
      ultimately show ?thesis using rv by blast
    qed
  qed
qed

lemma Queue_resume_ok:
  assumes "link_ok arr n s xs" and "dt_blocked (lk_queue s)"
  shows "\<exists>t ys. Queue_resume s = Inr t \<and> link_ok arr (Suc n) t ys \<and> same_rules s t"
proof -
  note ok = assms(1) [unfolded link_ok_def]
  obtain u where u: "DropTail_deque s = Inr (case xs of [] \<Rightarrow> None | p # _ \<Rightarrow> Some p, u)" "holds u (tl xs)" "same_service s u"
    using DropTail_deque_ok ok by blast
  have ru: "same_rules s u" using u(3) by (simp add: same_service_def)
  show ?thesis
  proof (cases xs)
    case Nil
    let ?v = "set_blocked (\<not> dt_unblock_on_resume (lk_queue u)) (note_change u)"
    have rv: "same_rules s ?v" using ru by (meson same_rules_trans note_change_frame(6) set_blocked_frame(4))
    have "link_ok arr (Suc n) ?v []"
      using ok u Nil assms(2) same_rulesD [OF rv] same_rulesD [OF ru] by (simp add: link_ok_def same_service_def room_def)
    then show ?thesis using u(1) Nil rv by (auto simp: Queue_resume_def)
  next
    case (Cons p ps)
    have rv: "same_rules s (to_target p u)" using ru same_rules_trans to_target_frame(4) by blast
    have "link_ok arr (Suc n) (to_target p u) ps"
      using ok u Cons assms(2) same_rulesD [OF rv] room_rules [OF rv] room_tl [of s xs]
      by (simp add: link_ok_def same_service_def)
    then show ?thesis using u(1) Cons rv by (auto simp: Queue_resume_def)
  qed
qed

text \<open>The histories that can happen: a link resumes only a queue that is blocked.\<close>

inductive link_run :: "link \<Rightarrow> link_event list \<Rightarrow> link \<Rightarrow> bool" where
  link_start: "link_run s [] s"
| link_arrive: "link_run s es t \<Longrightarrow> p \<notin> set (arrived es) \<Longrightarrow> p < length (po_mem (lk_pool t)) \<Longrightarrow>
    link_event_step (Arrive c p) t = Inr u \<Longrightarrow> link_run s (es @ [Arrive c p]) u"
| link_resume: "link_run s es t \<Longrightarrow> dt_blocked (lk_queue t) \<Longrightarrow>
    link_event_step (Resume c) t = Inr u \<Longrightarrow> link_run s (es @ [Resume c]) u"

inductive_cases link_run_snoc: "link_run s (es @ [e]) u"

lemma arrived_append [simp]: "arrived (es @ fs) = arrived es @ arrived fs"
  by (induction es rule: arrived.induct) simp_all

lemma resumed_append [simp]: "resumed (es @ fs) = resumed es + resumed fs"
  by (induction es rule: resumed.induct) simp_all

lemma clock_frame [simp]: "link_ok arr n (s\<lparr>lk_clock := c\<rparr>) xs = link_ok arr n s xs"
  by (simp add: link_ok_def holds_def room_def)

definition fresh_link :: "link \<Rightarrow> bool" where
  "fresh_link s \<longleftrightarrow> holds s [] \<and> lk_sent s = [] \<and> lk_dropped s = [] \<and> lk_drop_target s \<and>
     dt_unblock_on_resume (lk_queue s) \<and> \<not> dt_blocked (lk_queue s)"

lemma link_run_ok:
  assumes "link_run s es t" and "fresh_link s"
  shows "\<exists>xs. link_ok (arrived es) (resumed es) t xs"
  using assms
proof (induction rule: link_run.induct)
  case (link_start s)
  then show ?case by (auto simp: fresh_link_def link_ok_def room_def)
next
  case (link_arrive s es t p c u)
  then obtain xs where "link_ok (arrived es) (resumed es) (t\<lparr>lk_clock := c\<rparr>) xs" by auto
  from Queue_recv_ok [OF this, of p] link_arrive show ?case by (auto simp: link_event_step_def)
next
  case (link_resume s es t c u)
  then obtain xs where "link_ok (arrived es) (resumed es) (t\<lparr>lk_clock := c\<rparr>) xs" by auto
  from Queue_resume_ok [OF this] link_resume show ?case by (auto simp: link_event_step_def)
qed

text \<open>
  C8. What a drop-tail link has done after any history. Every packet that arrived was sent,
  is queued or was dropped, exactly once; what was sent and is queued is in the order of
  arrival; at most one more packet was sent than the link has finished; a queue that waits
  for nothing is empty; it holds fewer packets than its limit (in packet mode); and the next
  arrival or resumption does not fault.
\<close>

theorem link_history:
  assumes "link_run s es t" and "fresh_link s"
  shows "\<exists>xs. holds t xs \<and> mset (arrived es) = mset (lk_sent t) + mset xs + mset (lk_dropped t) \<and>
    subseq (lk_sent t @ xs) (arrived es) \<and> length (lk_sent t) \<le> Suc (resumed es) \<and>
    (\<not> dt_blocked (lk_queue t) \<longrightarrow> xs = []) \<and>
    (\<not> dt_qib (lk_queue t) \<longrightarrow> int (length xs) \<le> max 0 (dt_qlim (lk_queue t) - 1)) \<and>
    (\<forall>c p. p \<notin> set (arrived es) \<and> p < length (po_mem (lk_pool t)) \<longrightarrow>
      (\<exists>u. link_event_step (Arrive c p) t = Inr u)) \<and>
    (dt_blocked (lk_queue t) \<longrightarrow> (\<forall>c. \<exists>u. link_event_step (Resume c) t = Inr u))"
proof -
  obtain xs where xs: "link_ok (arrived es) (resumed es) t xs" using link_run_ok [OF assms] by blast
  have "\<exists>u. link_event_step (Arrive c p) t = Inr u"
    if "p \<notin> set (arrived es)" "p < length (po_mem (lk_pool t))" for c p
    using Queue_recv_ok [of "arrived es" "resumed es" "t\<lparr>lk_clock := c\<rparr>" xs p] xs that
    by (auto simp: link_event_step_def)
  moreover have "\<exists>u. link_event_step (Resume c) t = Inr u" if "dt_blocked (lk_queue t)" for c
    using Queue_resume_ok [of "arrived es" "resumed es" "t\<lparr>lk_clock := c\<rparr>" xs] xs that
    by (auto simp: link_event_step_def)
  moreover have "length (lk_sent t) \<le> Suc (resumed es)" "\<not> dt_blocked (lk_queue t) \<longrightarrow> xs = []"
    using xs by (auto simp: link_ok_def split: if_splits)
  ultimately show ?thesis
    using xs by (intro exI [of _ xs]) (auto simp: link_ok_def room_def)
qed

definition demo_link :: link where
  "demo_link = \<lparr>lk_pool = fst demo_queue, lk_clock = 0, lk_queue = \<lparr>dt_q = empty_pqueue, dt_qlim = 2,
     dt_blocked = False, dt_unblock_on_resume = True, dt_drop_front = False, dt_qib = False, dt_mean_pktsize = 500,
     dt_summarystats = False, dt_true_ave = 0, dt_total_time = 0, dt_last_change = 0, dt_old_util = 0,
     dt_util_weight = 1, dt_util_check_intv = 1, dt_period_begin = 0, dt_cur_util = 0, dt_buf_slot = 0,
     dt_util_buf = []\<rparr>, lk_drop_target = True, lk_sent = [], lk_dropped = []\<rparr>"

theorem link_history_witness:
  "\<exists>t xs. link_run demo_link [Arrive 0 0, Arrive 0 1] t \<and> mset [0, 1] = mset (lk_sent t) + mset xs + mset (lk_dropped t)"
proof -
  have f: "fresh_link demo_link" by (simp add: fresh_link_def demo_link_def holds_def)
  have r0: "link_run demo_link [] demo_link" by (rule link_start)
  obtain u where u: "link_event_step (Arrive 0 0) demo_link = Inr u"
    using Queue_recv_ok [of "[]" 0 "demo_link\<lparr>lk_clock := 0\<rparr>" "[]" 0] f
    by (auto simp: link_event_step_def link_ok_def fresh_link_def room_def demo_link_def demo_queue_def)
  have r1: "link_run demo_link ([] @ [Arrive 0 0]) u"
    by (rule link_arrive [OF r0 _ _ u]) (simp_all add: demo_link_def demo_queue_def)
  have pool: "length (po_mem (lk_pool u)) = 3"
    using Queue_recv_ok [of "[]" 0 "demo_link\<lparr>lk_clock := 0\<rparr>" "[]" 0] f u
    by (auto simp: link_event_step_def link_ok_def fresh_link_def room_def demo_link_def demo_queue_def same_rules_def)
  have "\<forall>c p. p \<notin> set (arrived ([] @ [Arrive 0 0])) \<and> p < length (po_mem (lk_pool u)) \<longrightarrow>
      (\<exists>v. link_event_step (Arrive c p) u = Inr v)"
    using link_history [OF r1 f] by blast
  then obtain t where t: "link_event_step (Arrive 0 1) u = Inr t"
    using pool by (metis append_Nil arrived.simps(1,2) numeral_3_eq_3 One_nat_def empty_iff lessI less_SucI list.set(1,2) insert_iff zero_neq_one)
  have r2: "link_run demo_link ([Arrive 0 0] @ [Arrive 0 1]) t"
    by (rule link_arrive [OF r1 [simplified] _ _ t]) (simp_all add: pool)
  then show ?thesis using link_history [OF r2 f] by auto
qed

subsection \<open>Utilisation stays a fraction\<close>

definition fraction :: "real \<Rightarrow> bool" where
  "fraction x \<longleftrightarrow> 0 \<le> x \<and> x \<le> 1"

lemma fraction_mix: "fraction x \<Longrightarrow> fraction y \<Longrightarrow> fraction d \<Longrightarrow> fraction (x + (y - x) * d)"
proof -
  assume a: "fraction x" "fraction y" "fraction d"
  have "x + (y - x) * d = x * (1 - d) + y * d" by (simp add: algebra_simps)
  moreover have "0 \<le> x * (1 - d) + y * d" using a by (simp add: fraction_def)
  moreover have "x * (1 - d) + y * d \<le> 1 * (1 - d) + 1 * d"
    using a by (intro add_mono mult_right_mono) (simp_all add: fraction_def)
  ultimately show ?thesis by (simp add: fraction_def)
qed

lemma fraction_ratio:
  assumes "fraction x" and "fraction y" and "0 \<le> a" and "0 \<le> b"
  shows "fraction ((x * a + y * b) / (a + b))"
proof (cases "a + b = 0")
  case True
  then show ?thesis by (simp add: fraction_def)
next
  case False
  then have pos: "0 < a + b" using assms by simp
  have "x * a + y * b \<le> 1 * a + 1 * b"
    using assms by (intro add_mono mult_right_mono) (simp_all add: fraction_def)
  then have "(x * a + y * b) / (a + b) \<le> 1" using pos by (simp add: divide_le_eq)
  moreover have "0 \<le> (x * a + y * b) / (a + b)"
    using assms pos by (intro divide_nonneg_pos add_nonneg_nonneg mult_nonneg_nonneg) (simp_all add: fraction_def)
  ultimately show ?thesis by (simp add: fraction_def)
qed

definition fractions :: "dtqueue \<Rightarrow> bool" where
  "fractions d \<longleftrightarrow> fraction (dt_old_util d) \<and> fraction (dt_cur_util d) \<and> (\<forall>u \<in> set (dt_util_buf d). fraction u)"

lemma close_periods_fractions:
  "fractions d \<Longrightarrow> fraction l \<Longrightarrow> fractions (close_periods g a b c l d)"
proof (induction g arbitrary: b d)
  case 0
  then show ?case by simp
next
  case (Suc g)
  have "fractions (d\<lparr>dt_period_begin := c, dt_cur_util := l,
      dt_buf_slot := (dt_buf_slot d + 1) mod length (dt_util_buf d),
      dt_util_buf := (dt_util_buf d)[dt_buf_slot d := dt_cur_util d]\<rparr>)"
    using Suc.prems set_update_subset_insert [of "dt_util_buf d"] by (auto simp: fractions_def)
  then show ?case using Suc by simp
qed

text \<open>
  The utilisation the controllers poll is a fraction. If the decayed, the current and
  all recorded utilisations lie between 0 and 1 and the times do not run backwards, they do
  so after a measurement.
\<close>

theorem utilisation_is_a_fraction:
  assumes "fractions d" and "0 \<le> dt_util_weight d" and "dt_period_begin d \<le> b" and "b \<le> e"
  shows "fractions (utilUpdate b e blocked d)"
proof -
  let ?l = "of_bool blocked :: real"
  have l: "fraction ?l" by (simp add: fraction_def)
  have "0 \<le> dt_util_weight d * (e - b)" using assms(2,4) by simp
  then have "fraction (exp (- (dt_util_weight d * (e - b))))" by (simp add: fraction_def)
  then have U: "fraction (?l + (dt_old_util d - ?l) * exp (- (dt_util_weight d * (e - b))))"
    using fraction_mix l assms(1) by (simp add: fractions_def)
  have C: "fraction ((?l * (e - b) + dt_cur_util d * (b - dt_period_begin d)) / ((e - b) + (b - dt_period_begin d)))"
    using assms l by (intro fraction_ratio) (simp_all add: fractions_def)
  define d1 where "d1 = d\<lparr>dt_old_util := ?l + (dt_old_util d - ?l) * exp (- dt_util_weight d * (e - b))\<rparr>"
  define d2 where "d2 = d1\<lparr>dt_cur_util := (?l * (e - b) + dt_cur_util d1 * (b - dt_period_begin d1)) / ((e - b) + (b - dt_period_begin d1))\<rparr>"
  have "fractions d1" using U assms(1) by (simp add: d1_def fractions_def)
  moreover from this have "fractions d2" using C by (cases blocked) (simp_all add: d2_def d1_def fractions_def)
  moreover have "utilUpdate b e blocked d = d1 \<or>
      (\<exists>n tot intv. utilUpdate b e blocked d = close_periods n tot intv e ?l d2)"
    unfolding utilUpdate_def Let_def d1_def [symmetric] d2_def [symmetric] by auto
  ultimately show ?thesis using close_periods_fractions [OF _ l] by auto
qed

theorem utilisation_is_a_fraction_witness:
  "fractions (utilUpdate 0 1 True (lk_queue demo_link))"
  using utilisation_is_a_fraction [of "lk_queue demo_link" 0 1 True]
  by (simp add: fractions_def fraction_def demo_link_def)

end
