(* ===== verification/EventHeap.thy ===== *)
theory EventHeap
  imports Prelude "HOL-Library.Multiset"
begin

section \<open>The binary heap of the scheduler\<close>

text \<open>
  \<open>Heap\<close> of common/heap.h and common/scheduler.cc: an array of elements ordered by time
  and, among equal times, by a running number of 32 bits. The array is the list of its
  first \<open>h_size\<close> elements; its capacity, which doubles when it is reached, is kept as a
  number. Pointers to events are numbers.
\<close>

record heap_elem =
  he_key :: real
  he_s_key :: "32 word"
  he_elem :: nat

record heap =
  h_elems :: "heap_elem list"
  h_s_key :: "32 word"
  h_maxsize :: nat

definition parent :: "nat \<Rightarrow> nat" where "parent i = (i - 1) div 2"
definition left :: "nat \<Rightarrow> nat" where "left i = i * 2 + 1"
definition right :: "nat \<Rightarrow> nat" where "right i = (i + 1) * 2"

definition key_less_than :: "heap_elem \<Rightarrow> heap_elem \<Rightarrow> bool" where
  "key_less_than a b \<longleftrightarrow> he_key a < he_key b \<or> (he_key a = he_key b \<and> he_s_key a < he_s_key b)"

definition swap :: "nat \<Rightarrow> nat \<Rightarrow> 'a list \<Rightarrow> 'a list" where
  "swap i j h = h[i := h ! j, j := h ! i]"

subsection \<open>Operations\<close>

definition new_heap :: heap where
  "new_heap = \<lparr>h_elems = [], h_s_key = 0, h_maxsize = 32\<rparr>"

text \<open>The loop of \<open>heap_insert\<close>: move parents down until the place for \<open>x\<close> is found.\<close>

function sift_up :: "heap_elem list \<Rightarrow> heap_elem \<Rightarrow> nat \<Rightarrow> heap_elem list" where
  "sift_up h x i =
     (if i > 0 \<and> key_less_than x (h ! parent i) then sift_up (h[i := h ! parent i]) x (parent i)
      else h[i := x])"
  by pat_completeness auto
termination
  by (relation "measure (\<lambda>(h, x, i). i)") (auto simp: parent_def)

declare sift_up.simps [simp del]

definition heap_insert :: "real \<Rightarrow> nat \<Rightarrow> heap \<Rightarrow> heap" where
  "heap_insert key e h =
     (let x = \<lparr>he_key = key, he_s_key = h_s_key h, he_elem = e\<rparr>; n = length (h_elems h) in
      \<lparr>h_elems = sift_up (h_elems h @ [x]) x n, h_s_key = h_s_key h + 1,
       h_maxsize = (if h_maxsize h = n then 2 * h_maxsize h else h_maxsize h)\<rparr>)"

text \<open>The loop of \<open>heap_extract_min\<close>.\<close>

definition smaller_child :: "heap_elem list \<Rightarrow> nat \<Rightarrow> nat" where
  "smaller_child h i =
     (if right i < length h then (if key_less_than (h ! left i) (h ! right i) then left i else right i)
      else if left i < length h then left i else i)"

lemma smaller_child_bounds:
  "smaller_child h i \<noteq> i \<Longrightarrow> i < length h \<Longrightarrow> i < smaller_child h i \<and> smaller_child h i < length h"
  by (auto simp: smaller_child_def left_def right_def split: if_splits)

function sift_down :: "heap_elem list \<Rightarrow> nat \<Rightarrow> heap_elem list" where
  "sift_down h i =
     (if i < length h then
        let x = smaller_child h i in
        if x \<noteq> i \<and> key_less_than (h ! x) (h ! i) then sift_down (swap i x h) x else h
      else h)"
  by pat_completeness auto
termination
  by (relation "measure (\<lambda>(h, i). length h - i)") (auto simp: swap_def dest: smaller_child_bounds)

declare sift_down.simps [simp del]

definition heap_extract_min :: "heap \<Rightarrow> nat option \<times> heap" where
  "heap_extract_min h =
     (if h_elems h = [] then (None, h)
      else (Some (he_elem (h_elems h ! 0)),
        h\<lparr>h_elems := sift_down (butlast ((h_elems h)[0 := last (h_elems h)])) 0\<rparr>))"

definition heap_min :: "heap \<Rightarrow> nat option" where
  "heap_min h = (if h_elems h = [] then None else Some (he_elem (h_elems h ! 0)))"

fun find_index :: "('a \<Rightarrow> bool) \<Rightarrow> 'a list \<Rightarrow> nat option" where
  "find_index P [] = None"
| "find_index P (x # xs) = (if P x then Some 0 else map_option Suc (find_index P xs))"

definition heap_member :: "nat \<Rightarrow> heap \<Rightarrow> nat option" where
  "heap_member e h = find_index (\<lambda>x. he_elem x = e) (h_elems h)"

text \<open>\<open>heap_delete\<close>: bring the element to the root without comparing, and extract it.\<close>

function to_root :: "heap_elem list \<Rightarrow> nat \<Rightarrow> heap_elem list" where
  "to_root h i = (if i = 0 then h else to_root (swap i (parent i) h) (parent i))"
  by pat_completeness auto
termination
  by (relation "measure (\<lambda>(h, i). i)") (auto simp: parent_def)

declare to_root.simps [simp del]

definition heap_delete :: "nat \<Rightarrow> heap \<Rightarrow> bool \<times> heap" where
  "heap_delete e h =
     (case heap_member e h of
        None \<Rightarrow> (False, h)
      | Some i \<Rightarrow> (True, snd (heap_extract_min (h\<lparr>h_elems := to_root (h_elems h) i\<rparr>))))"

subsection \<open>Order\<close>

definition hle :: "heap_elem \<Rightarrow> heap_elem \<Rightarrow> bool" where
  "hle a b \<longleftrightarrow> \<not> key_less_than b a"

lemma hle_refl [simp]: "hle a a"
  by (simp add: hle_def key_less_than_def)

lemma hle_trans [trans]: "hle a b \<Longrightarrow> hle b c \<Longrightarrow> hle a c"
  by (auto simp: hle_def key_less_than_def)

lemma hle_total: "hle a b \<or> hle b a"
  by (auto simp: hle_def key_less_than_def)

lemma less_hle: "key_less_than a b \<Longrightarrow> hle a b"
  by (auto simp: hle_def key_less_than_def)

lemma less_trans: "key_less_than a b \<Longrightarrow> key_less_than b c \<Longrightarrow> key_less_than a c"
  by (auto simp: key_less_than_def)

definition is_heap :: "heap_elem list \<Rightarrow> bool" where
  "is_heap h \<longleftrightarrow> (\<forall>j. 0 < j \<and> j < length h \<longrightarrow> hle (h ! parent j) (h ! j))"

text \<open>In order but for the element at \<open>i\<close>, whose children are below its parent.\<close>

definition heap_but :: "heap_elem list \<Rightarrow> nat \<Rightarrow> bool" where
  "heap_but h i \<longleftrightarrow> (\<forall>j. 0 < j \<and> j < length h \<and> j \<noteq> i \<and> parent j \<noteq> i \<longrightarrow> hle (h ! parent j) (h ! j)) \<and>
     (\<forall>j. 0 < j \<and> j < length h \<and> parent j = i \<and> 0 < i \<longrightarrow> hle (h ! parent i) (h ! j))"

lemma parent_less: "0 < j \<Longrightarrow> parent j < j"
  by (simp add: parent_def)

lemma parent_left [simp]: "parent (left i) = i" and parent_right [simp]: "parent (right i) = i"
  by (simp_all add: parent_def left_def right_def)

lemma children: "0 < j \<Longrightarrow> parent j = i \<longleftrightarrow> j = left i \<or> j = right i"
  unfolding parent_def left_def right_def by presburger

lemma is_heap_but: "is_heap h \<Longrightarrow> heap_but h i"
proof -
  assume h: "is_heap h"
  have "hle (h ! parent i) (h ! j)" if "0 < j" "j < length h" "parent j = i" "0 < i" for j
  proof -
    have "i < length h" using that parent_less [of j] by simp
    then have "hle (h ! parent i) (h ! i)" "hle (h ! i) (h ! j)" using h that by (auto simp: is_heap_def)
    then show ?thesis by (rule hle_trans)
  qed
  then show ?thesis using h by (simp add: heap_but_def is_heap_def)
qed

lemma mset_swap' [simp]: "i < length h \<Longrightarrow> j < length h \<Longrightarrow> mset (swap i j h) = mset h"
  unfolding swap_def by (rule mset_swap)

lemma length_swap [simp]: "length (swap i j h) = length h"
  by (simp add: swap_def)

lemma nth_swap: "i < length h \<Longrightarrow> j < length h \<Longrightarrow> k < length h \<Longrightarrow>
    swap i j h ! k = (if k = j then h ! i else if k = i then h ! j else h ! k)"
  by (simp add: swap_def nth_list_update)

lemma heap_min_first: "is_heap h \<Longrightarrow> i < length h \<Longrightarrow> hle (h ! 0) (h ! i)"
proof (induction i rule: less_induct)
  case (less i)
  show ?case
  proof (cases "i = 0")
    case False
    then have "hle (h ! 0) (h ! parent i)" using less parent_less [of i] by simp
    moreover have "hle (h ! parent i) (h ! i)" using less False by (simp add: is_heap_def)
    ultimately show ?thesis by (rule hle_trans)
  qed simp
qed

subsection \<open>Insertion keeps the heap\<close>

lemma sift_up_ok:
  assumes "i < length h" and "heap_but h i" and "\<forall>j. 0 < j \<and> j < length h \<and> parent j = i \<longrightarrow> hle x (h ! j)"
  shows "is_heap (sift_up h x i) \<and> mset (sift_up h x i) = mset (h[i := x])"
  using assms
proof (induction h x i rule: sift_up.induct)
  case (1 h x i)
  show ?case
  proof (cases "i > 0 \<and> key_less_than x (h ! parent i)")
    case True
    let ?p = "parent i" and ?h = "h[i := h ! parent i]"
    have p: "?p < i" "?p < length h" using True 1(2) parent_less [of i] by simp_all
    have ord: "hle (h ! parent j) (h ! j)" if "0 < j" "j < length h" "j \<noteq> i" "parent j \<noteq> i" for j
      using 1(3) that by (simp add: heap_but_def)
    have low: "hle (h ! ?p) (h ! j)" if "0 < j" "j < length h" "parent j = i" for j
      using 1(3) that True by (simp add: heap_but_def)
    have top: "hle (h ! parent ?p) (h ! ?p)" if "0 < ?p"
      using ord [of ?p] that p parent_less [of ?p] by simp
    have "heap_but ?h ?p"
      unfolding heap_but_def
    proof (intro conjI allI impI)
      fix j assume j: "0 < j \<and> j < length ?h \<and> j \<noteq> ?p \<and> parent j \<noteq> ?p"
      then have "j \<noteq> i" by auto
      then show "hle (?h ! parent j) (?h ! j)"
        using j 1(2) low [of j] ord [of j] by (cases "parent j = i") auto
    next
      fix j assume j: "0 < j \<and> j < length ?h \<and> parent j = ?p \<and> 0 < ?p"
      have "hle (h ! parent ?p) (?h ! j)"
        using j 1(2) top ord [of j] p hle_trans [of "h ! parent ?p" "h ! ?p" "h ! j"]
        by (cases "j = i") auto
      then show "hle (?h ! parent ?p) (?h ! j)" using p parent_less [of ?p] j by auto
    qed
    moreover have "hle x (?h ! j)" if "0 < j" "j < length ?h" "parent j = ?p" for j
    proof -
      have x: "hle x (h ! ?p)" using True less_hle by simp
      show ?thesis
      proof (cases "j = i")
        case True
        then show ?thesis using x 1(2) by simp
      next
        case False
        then have "hle (h ! ?p) (h ! j)" using ord [of j] that p by simp
        then show ?thesis using False x hle_trans by simp
      qed
    qed
    ultimately have IH: "is_heap (sift_up ?h x ?p) \<and> mset (sift_up ?h x ?p) = mset (?h[?p := x])"
      using 1(1) [OF True] p by simp
    have "?h[?p := x] = swap ?p i (h[i := x])"
      using p 1(2) by (auto simp: swap_def nth_list_update intro!: nth_equalityI)
    then have "mset (?h[?p := x]) = mset (h[i := x])" using p 1(2) by simp
    then show ?thesis using IH True by (simp add: sift_up.simps [of h x i])
  next
    case False
    have "is_heap (h[i := x])"
      unfolding is_heap_def
    proof (intro allI impI)
      fix j assume j: "0 < j \<and> j < length (h[i := x])"
      have pj: "parent j \<noteq> j" using parent_less [of j] j by simp
      show "hle (h[i := x] ! parent j) (h[i := x] ! j)"
      proof (cases "j = i")
        case True
        then show ?thesis using False j pj 1(2) parent_less [of i] by (auto simp: hle_def)
      next
        case ji: False
        then show ?thesis
          using 1(2-4) j by (cases "parent j = i") (auto simp: heap_but_def)
      qed
    qed
    then show ?thesis using False by (auto simp: sift_up.simps [of h x i])
  qed
qed

lemma heap_insert_ok:
  assumes "is_heap (h_elems h)"
  shows "is_heap (h_elems (heap_insert key e h))"
    and "mset (h_elems (heap_insert key e h)) =
      add_mset \<lparr>he_key = key, he_s_key = h_s_key h, he_elem = e\<rparr> (mset (h_elems h))"
proof -
  let ?x = "\<lparr>he_key = key, he_s_key = h_s_key h, he_elem = e\<rparr>"
  let ?h = "h_elems h @ [?x]"
  have no: "\<not> (0 < j \<and> j < length ?h \<and> parent j = length (h_elems h))" for j
    using parent_less [of j] by auto
  have "heap_but ?h (length (h_elems h))"
    unfolding heap_but_def
  proof (intro conjI allI impI)
    fix j assume j: "0 < j \<and> j < length ?h \<and> j \<noteq> length (h_elems h) \<and> parent j \<noteq> length (h_elems h)"
    then have "j < length (h_elems h)" "parent j < length (h_elems h)" using parent_less [of j] by auto
    then show "hle (?h ! parent j) (?h ! j)" using assms j by (simp add: is_heap_def nth_append)
  qed (use no in blast)
  then have "is_heap (sift_up ?h ?x (length (h_elems h))) \<and>
      mset (sift_up ?h ?x (length (h_elems h))) = mset (?h[length (h_elems h) := ?x])"
    using no by (intro sift_up_ok) auto
  then show "is_heap (h_elems (heap_insert key e h))"
    "mset (h_elems (heap_insert key e h)) = add_mset ?x (mset (h_elems h))"
    by (simp_all add: heap_insert_def Let_def)
qed

subsection \<open>Extraction and deletion keep the heap\<close>

lemma smaller_child_le:
  assumes "0 < j" "j < length h" "parent j = i"
  shows "hle (h ! smaller_child h i) (h ! j)"
proof (cases "right i < length h")
  case True
  let ?l = "h ! left i" and ?r = "h ! right i"
  have x: "h ! smaller_child h i = (if key_less_than ?l ?r then ?l else ?r)"
    using True by (simp add: smaller_child_def)
  have "hle (h ! smaller_child h i) ?l \<and> hle (h ! smaller_child h i) ?r"
  proof (cases "key_less_than ?l ?r")
    case True
    then show ?thesis using less_hle by (simp only: x if_True hle_refl simp_thms)
  next
    case False
    then show ?thesis by (simp only: x if_False hle_refl) (simp only: hle_def simp_thms not_False_eq_True)
  qed
  moreover have "j = left i \<or> j = right i" using children assms(1,3) by simp
  ultimately show ?thesis by auto
next
  case False
  then have "j = left i" using children [of j i] assms by auto
  then show ?thesis using False assms by (simp add: smaller_child_def)
qed

lemma child_below:
  assumes "\<not> key_less_than (h ! smaller_child h i) (h ! i)" "0 < j" "j < length h" "parent j = i"
  shows "hle (h ! i) (h ! j)"
proof -
  have "hle (h ! i) (h ! smaller_child h i)" using assms(1) by (simp add: hle_def)
  then show ?thesis using smaller_child_le [OF assms(2-4)] by (rule hle_trans)
qed

lemma parent_smaller_child: "smaller_child h i \<noteq> i \<Longrightarrow> parent (smaller_child h i) = i"
  by (auto simp: smaller_child_def)

lemma heap_but_is_heap:
  assumes "heap_but h i" "0 < i \<Longrightarrow> i < length h \<Longrightarrow> hle (h ! parent i) (h ! i)"
    "\<And>j. 0 < j \<Longrightarrow> j < length h \<Longrightarrow> parent j = i \<Longrightarrow> hle (h ! i) (h ! j)"
  shows "is_heap h"
  unfolding is_heap_def
proof (intro allI impI)
  fix j assume "0 < j \<and> j < length h"
  then show "hle (h ! parent j) (h ! j)"
    using assms by (cases "j = i"; cases "parent j = i") (auto simp: heap_but_def)
qed

lemma sift_down_ok:
  assumes "heap_but h i" "0 < i \<longrightarrow> i < length h \<longrightarrow> hle (h ! parent i) (h ! i)"
  shows "is_heap (sift_down h i) \<and> mset (sift_down h i) = mset h"
  using assms
proof (induction h i rule: sift_down.induct)
  case (1 h i)
  let ?x = "smaller_child h i"
  show ?case
  proof (cases "i < length h \<and> ?x \<noteq> i \<and> key_less_than (h ! ?x) (h ! i)")
    case True
    let ?h = "swap i ?x h"
    have x: "i < ?x" "?x < length h" "parent ?x = i"
      using True smaller_child_bounds parent_smaller_child by blast+
    have ord: "hle (h ! parent j) (h ! j)" if "0 < j" "j < length h" "j \<noteq> i" "parent j \<noteq> i" for j
      using 1(2) that by (simp add: heap_but_def)
    have low: "hle (h ! parent i) (h ! ?x)" if "0 < i"
      using 1(2) x that by (simp add: heap_but_def)
    have nth: "?h ! k = (if k = ?x then h ! i else if k = i then h ! ?x else h ! k)" if "k < length h" for k
      using that x by (intro nth_swap) auto
    have "heap_but ?h ?x"
      unfolding heap_but_def length_swap
    proof (intro conjI allI impI)
      fix j assume j: "0 < j \<and> j < length h \<and> j \<noteq> ?x \<and> parent j \<noteq> ?x"
      then have pj: "parent j < length h" "parent j \<noteq> j" using parent_less [of j] by auto
      consider "j = i" | "j \<noteq> i" "parent j = i" | "j \<noteq> i" "parent j \<noteq> i" by blast
      then show "hle (?h ! parent j) (?h ! j)"
      proof cases
        case 1
        then have "hle (h ! parent i) (h ! ?x)" using low j by simp
        then show ?thesis using 1 j pj x by (auto simp: nth)
      next
        case 2
        then have "hle (h ! ?x) (h ! j)" using smaller_child_le j by blast
        then show ?thesis using 2 j pj by (auto simp: nth)
      next
        case 3
        then show ?thesis using ord [of j] j pj by (auto simp: nth)
      qed
    next
      fix j assume j: "0 < j \<and> j < length h \<and> parent j = ?x \<and> 0 < ?x"
      then have "?x < j" using parent_less [of j] by simp
      then have "hle (h ! ?x) (h ! j)" using ord [of j] j x by simp
      then show "hle (?h ! parent ?x) (?h ! j)" using j x \<open>?x < j\<close> by (simp add: nth)
    qed
    moreover have "hle (?h ! parent ?x) (?h ! ?x)" using True x less_hle by (simp add: nth)
    ultimately have "is_heap (sift_down ?h ?x) \<and> mset (sift_down ?h ?x) = mset ?h"
      using 1(1) True by blast
    then show ?thesis using True x by (simp add: sift_down.simps [of h i] Let_def)
  next
    case False
    have "hle (h ! i) (h ! j)" if j: "0 < j" "j < length h" "parent j = i" for j
    proof -
      have "i < length h" using parent_less [of j] j by simp
      moreover have "\<not> key_less_than (h ! i) (h ! i)" by (simp add: key_less_than_def)
      ultimately have "\<not> key_less_than (h ! ?x) (h ! i)" using False by auto
      then show ?thesis using child_below j by blast
    qed
    then have "is_heap h" using 1(2,3) by (intro heap_but_is_heap [of h i]) auto
    then show ?thesis using False by (auto simp: sift_down.simps [of h i] Let_def)
  qed
qed

lemma extract_min_ok:
  assumes "h_elems h \<noteq> []" "heap_but (h_elems h) 0"
  shows "is_heap (h_elems (snd (heap_extract_min h)))"
    and "mset (h_elems (snd (heap_extract_min h))) = mset (h_elems h) - {#h_elems h ! 0#}"
proof -
  let ?h = "h_elems h"
  let ?b = "butlast (?h[0 := last ?h])"
  have "heap_but ?b 0"
    unfolding heap_but_def
  proof (intro conjI allI impI)
    fix j assume j: "0 < j \<and> j < length ?b \<and> j \<noteq> 0 \<and> parent j \<noteq> 0"
    then show "hle (?b ! parent j) (?b ! j)"
      using assms(2) parent_less [of j] by (auto simp: heap_but_def nth_butlast)
  qed simp
  moreover have "mset ?b = mset ?h - {#?h ! 0#}"
  proof (cases ?h rule: rev_cases)
    case Nil
    then show ?thesis using assms(1) by simp
  next
    case (snoc ys y)
    then show ?thesis by (cases ys) simp_all
  qed
  ultimately show "is_heap (h_elems (snd (heap_extract_min h)))"
    "mset (h_elems (snd (heap_extract_min h))) = mset ?h - {#?h ! 0#}"
    using assms(1) sift_down_ok [of ?b 0] by (simp_all add: heap_extract_min_def)
qed

lemma to_root_ok:
  assumes "i < length h" "heap_but h i"
  shows "heap_but (to_root h i) 0 \<and> mset (to_root h i) = mset h \<and> to_root h i ! 0 = h ! i"
  using assms
proof (induction h i rule: to_root.induct)
  case (1 h i)
  show ?case
  proof (cases "i = 0")
    case True
    then show ?thesis using 1(3) by (simp add: to_root.simps [of h])
  next
    case False
    let ?p = "parent i" and ?h = "swap i (parent i) h"
    have p: "?p < i" "?p < length h" using False 1(2) parent_less [of i] by simp_all
    have ord: "hle (h ! parent j) (h ! j)" if "0 < j" "j < length h" "j \<noteq> i" "parent j \<noteq> i" for j
      using 1(3) that by (simp add: heap_but_def)
    have low: "hle (h ! ?p) (h ! j)" if "0 < j" "j < length h" "parent j = i" for j
      using 1(3) that False by (simp add: heap_but_def)
    have nth: "?h ! k = (if k = ?p then h ! i else if k = i then h ! ?p else h ! k)" if "k < length h" for k
      using that p 1(2) by (intro nth_swap) auto
    have "heap_but ?h ?p"
      unfolding heap_but_def length_swap
    proof (intro conjI allI impI)
      fix j assume j: "0 < j \<and> j < length h \<and> j \<noteq> ?p \<and> parent j \<noteq> ?p"
      then have "j \<noteq> i" "parent j < length h" using parent_less [of j] by auto
      then show "hle (?h ! parent j) (?h ! j)"
        using j low [of j] ord [of j] by (cases "parent j = i") (auto simp: nth)
    next
      fix j assume j: "0 < j \<and> j < length h \<and> parent j = ?p \<and> 0 < ?p"
      have pp: "parent ?p < ?p" using j parent_less by blast
      have top: "hle (h ! parent ?p) (h ! ?p)" using ord [of ?p] j p pp by simp
      then have "hle (h ! parent ?p) (h ! j)" if "j \<noteq> i"
        using ord [of j] j p that hle_trans by simp
      moreover have "j \<noteq> ?p" using parent_less [of j] j by auto
      ultimately show "hle (?h ! parent ?p) (?h ! j)" using top j p pp by (auto simp: nth)
    qed
    then have "heap_but (to_root ?h ?p) 0 \<and> mset (to_root ?h ?p) = mset ?h \<and> to_root ?h ?p ! 0 = ?h ! ?p"
      using 1(1) False p by simp
    then show ?thesis using False p 1(2) by (simp add: to_root.simps [of h i] nth)
  qed
qed

end
