(* ===== verification/Scheduler.thy ===== *)
theory Scheduler
  imports EventHeap
begin

section \<open>The event scheduler\<close>

text \<open>
  \<open>Scheduler\<close>, \<open>ListScheduler\<close> and \<open>HeapScheduler\<close> of common/scheduler.h and
  common/scheduler.cc. Events are objects at addresses, which are numbers; \<open>sc_events\<close>
  is the memory that holds them. The virtual functions of the abstract class are a record of
  operations, its table of virtual functions: the operations of the base class call the
  queue through it. The locale \<open>event_queue\<close> is the contract of that table: a queue
  represents the list of the pending events in the order of their dispatch. A handler is a
  parameter: a function of its number, the event, the clock and a state of its own to the
  calls it makes to the scheduler, in their order. The loop of \<open>run\<close> may go on for ever;
  \<open>run_steps n\<close> is the state after at most \<open>n\<close> of its iterations.
\<close>

subsection \<open>State\<close>

record event =
  ev_handler :: nat
  ev_time :: real
  ev_uid :: int

type_synonym events = "nat \<Rightarrow> event"

record 'q event_ops =
  op_insert :: "events \<Rightarrow> nat \<Rightarrow> 'q \<Rightarrow> 'q res"
  op_cancel :: "events \<Rightarrow> nat \<Rightarrow> 'q \<Rightarrow> (events \<times> 'q) res"
  op_lookup :: "events \<Rightarrow> int \<Rightarrow> 'q \<Rightarrow> nat option"
  op_deque :: "events \<Rightarrow> 'q \<Rightarrow> (nat option \<times> 'q) res"

record 'q sched =
  sc_clock :: real
  sc_halted :: bool
  sc_uid :: int
  sc_events :: events
  sc_queue :: 'q

datatype action = Do_Schedule "nat option" nat real | Do_Cancel nat | Do_Halt

type_synonym 's handlers = "nat \<Rightarrow> nat \<Rightarrow> real \<Rightarrow> 's \<Rightarrow> 's \<times> action list"

definition new_event :: event where
  "new_event = \<lparr>ev_handler = 0, ev_time = 0, ev_uid = 0\<rparr>"

definition new_sched :: "'q \<Rightarrow> 'q sched" where
  "new_sched q = \<lparr>sc_clock = 0, sc_halted = False, sc_uid = 1, sc_events = (\<lambda>_. new_event), sc_queue = q\<rparr>"

subsection \<open>The base class\<close>

text \<open>\<open>uid_++\<close> on a signed integer of 64 bits.\<close>

definition next_uid :: "int \<Rightarrow> int" where
  "next_uid u = (if u = 2 ^ 63 - 1 then - (2 ^ 63) else u + 1)"

definition schedule :: "'q event_ops \<Rightarrow> nat option \<Rightarrow> nat \<Rightarrow> real \<Rightarrow> 'q sched \<Rightarrow> 'q sched res" where
  "schedule ops h e delay s =
     (case h of
        None \<Rightarrow> Inl Aborted
      | Some k \<Rightarrow>
          if ev_uid (sc_events s e) > 0 then Inl Aborted
          else if sc_uid s < 0 then Inl Aborted
          else
            (let evs = (sc_events s)(e := \<lparr>ev_handler = k, ev_time = sc_clock s + delay, ev_uid = sc_uid s\<rparr>)
             in rbind (op_insert ops evs e (sc_queue s))
                  (\<lambda>q. Inr (s\<lparr>sc_uid := next_uid (sc_uid s), sc_events := evs, sc_queue := q\<rparr>))))"

definition cancel :: "'q event_ops \<Rightarrow> nat \<Rightarrow> 'q sched \<Rightarrow> 'q sched res" where
  "cancel ops e s =
     rbind (op_cancel ops (sc_events s) e (sc_queue s))
       (\<lambda>(evs, q). Inr (s\<lparr>sc_events := evs, sc_queue := q\<rparr>))"

fun perform :: "'q event_ops \<Rightarrow> action \<Rightarrow> 'q sched \<Rightarrow> 'q sched res" where
  "perform ops (Do_Schedule h e d) s = schedule ops h e d s"
| "perform ops (Do_Cancel e) s = cancel ops e s"
| "perform ops Do_Halt s = Inr (s\<lparr>sc_halted := True\<rparr>)"

fun_cases perform_cases: "perform ops a s = Inr t"

definition set_uid :: "nat \<Rightarrow> int \<Rightarrow> events \<Rightarrow> events" where
  "set_uid e u evs = evs(e := (evs e)\<lparr>ev_uid := u\<rparr>)"

definition dispatch ::
  "'q event_ops \<Rightarrow> 's handlers \<Rightarrow> nat \<Rightarrow> real \<Rightarrow> 'q sched \<times> 's \<Rightarrow> ('q sched \<times> 's) res" where
  "dispatch ops hnd p t = (\<lambda>(s, st).
     if t < sc_clock s then Inl Aborted
     else
       (case hnd (ev_handler (sc_events s p)) p t st of
          (st', acts) \<Rightarrow>
            rbind (rfold (perform ops) acts
                (s\<lparr>sc_clock := t, sc_events := set_uid p (- ev_uid (sc_events s p)) (sc_events s)\<rparr>))
              (\<lambda>s'. Inr (s', st'))))"

text \<open>The loop of \<open>run\<close>, with a log of the time, number and address of what it dispatches.\<close>

type_synonym dispatched = "real \<times> int \<times> nat"

fun run_steps :: "nat \<Rightarrow> 'q event_ops \<Rightarrow> 's handlers \<Rightarrow> 'q sched \<times> 's \<times> dispatched list \<Rightarrow>
    ('q sched \<times> 's \<times> dispatched list) res" where
  "run_steps 0 ops hnd c = Inr c"
| "run_steps (Suc n) ops hnd (s, st, lg) =
     (if sc_halted s then Inr (s, st, lg)
      else
        (case op_deque ops (sc_events s) (sc_queue s) of
           Inl f \<Rightarrow> Inl f
         | Inr (None, q) \<Rightarrow> Inr (s\<lparr>sc_queue := q\<rparr>, st, lg)
         | Inr (Some p, q) \<Rightarrow>
             rbind (dispatch ops hnd p (ev_time (sc_events s p)) (s\<lparr>sc_queue := q\<rparr>, st))
               (\<lambda>(s', st'). run_steps n ops hnd
                  (s', st', lg @ [(ev_time (sc_events s p), ev_uid (sc_events s p), p)]))))"

text \<open>\<open>reset\<close> and the commands of \<open>Scheduler::command\<close> that change the state;
  \<open>e\<close> is the object that \<open>new AtEvent\<close> returns and 0 the handler \<open>at_handler\<close>.\<close>

definition sched_reset :: "'q sched \<Rightarrow> 'q sched" where
  "sched_reset s = s\<lparr>sc_clock := 0\<rparr>"

datatype sched_cmd = Cmd_Halt | Cmd_Cancel int | Cmd_At_Now nat | Cmd_At nat real

datatype cmd_reply = Tcl_Ok | Tcl_Uid int | Tcl_Past

definition schedule_at :: "'q event_ops \<Rightarrow> nat \<Rightarrow> real \<Rightarrow> 'q sched \<Rightarrow> (cmd_reply \<times> 'q sched) res" where
  "schedule_at ops e delay s =
     rbind (schedule ops (Some 0) e delay (s\<lparr>sc_events := (sc_events s)(e := new_event)\<rparr>))
       (\<lambda>s'. Inr (Tcl_Uid (ev_uid (sc_events s' e)), s'))"

fun sched_command :: "'q event_ops \<Rightarrow> sched_cmd \<Rightarrow> 'q sched \<Rightarrow> (cmd_reply \<times> 'q sched) res" where
  "sched_command ops Cmd_Halt s = Inr (Tcl_Ok, s\<lparr>sc_halted := True\<rparr>)"
| "sched_command ops (Cmd_Cancel u) s =
     (case op_lookup ops (sc_events s) u (sc_queue s) of
        None \<Rightarrow> Inr (Tcl_Ok, s)
      | Some p \<Rightarrow> rbind (cancel ops p s) (\<lambda>s'. Inr (Tcl_Ok, s')))"
| "sched_command ops (Cmd_At_Now e) s = schedule_at ops e 0 s"
| "sched_command ops (Cmd_At e t) s =
     (let delay = (if t < 0 then - t else t - sc_clock s) in
      if delay < 0 then Inr (Tcl_Past, s) else schedule_at ops e delay s)"

definition cmd_run :: "nat \<Rightarrow> 'q event_ops \<Rightarrow> 's handlers \<Rightarrow> 'q sched \<times> 's \<Rightarrow>
    ('q sched \<times> 's \<times> dispatched list) res" where
  "cmd_run n ops hnd = (\<lambda>(s, st). run_steps n ops hnd (sched_reset s, st, []))"

definition cmd_resume :: "nat \<Rightarrow> 'q event_ops \<Rightarrow> 's handlers \<Rightarrow> 'q sched \<times> 's \<Rightarrow>
    ('q sched \<times> 's \<times> dispatched list) res" where
  "cmd_resume n ops hnd = (\<lambda>(s, st). run_steps n ops hnd (s\<lparr>sc_halted := False\<rparr>, st, []))"

text \<open>\<open>dumpq\<close> removes and prints what is left.\<close>

fun dumpq :: "nat \<Rightarrow> 'q event_ops \<Rightarrow> events \<Rightarrow> 'q \<Rightarrow> (nat list \<times> 'q) res" where
  "dumpq 0 ops evs q = Inr ([], q)"
| "dumpq (Suc n) ops evs q =
     (case op_deque ops evs q of
        Inl f \<Rightarrow> Inl f
      | Inr (None, q') \<Rightarrow> Inr ([], q')
      | Inr (Some p, q') \<Rightarrow> rbind (dumpq n ops evs q') (\<lambda>(ps, q''). Inr (p # ps, q'')))"

subsection \<open>The list scheduler\<close>

text \<open>The list of events linked by \<open>next_\<close> from \<open>queue_\<close> is a list of addresses.\<close>

fun place :: "('a \<Rightarrow> real) \<Rightarrow> 'a \<Rightarrow> 'a list \<Rightarrow> 'a list" where
  "place f e [] = [e]"
| "place f e (p # ps) = (if f e < f p then e # p # ps else p # place f e ps)"

definition list_insert :: "events \<Rightarrow> nat \<Rightarrow> nat list \<Rightarrow> nat list" where
  "list_insert evs e q = place (\<lambda>p. ev_time (evs p)) e q"

fun list_unlink :: "nat \<Rightarrow> nat list \<Rightarrow> nat list res" where
  "list_unlink e [] = Inl Aborted"
| "list_unlink e (p # ps) = (if p = e then Inr ps else rbind (list_unlink e ps) (\<lambda>qs. Inr (p # qs)))"

definition list_cancel :: "events \<Rightarrow> nat \<Rightarrow> nat list \<Rightarrow> (events \<times> nat list) res" where
  "list_cancel evs e q =
     (if ev_uid (evs e) \<le> 0 then Inr (evs, q)
      else rbind (list_unlink e q) (\<lambda>q'. Inr (set_uid e (- ev_uid (evs e)) evs, q')))"

definition list_lookup :: "events \<Rightarrow> int \<Rightarrow> nat list \<Rightarrow> nat option" where
  "list_lookup evs u q = find (\<lambda>p. ev_uid (evs p) = u) q"

definition list_deque :: "nat list \<Rightarrow> nat option \<times> nat list" where
  "list_deque q = (case q of [] \<Rightarrow> (None, q) | e # q' \<Rightarrow> (Some e, q'))"

definition list_ops :: "nat list event_ops" where
  "list_ops = \<lparr>op_insert = (\<lambda>evs e q. Inr (list_insert evs e q)), op_cancel = list_cancel, op_lookup = list_lookup,
     op_deque = (\<lambda>evs q. Inr (list_deque q))\<rparr>"

subsection \<open>The heap scheduler\<close>

definition heap_sched_insert :: "events \<Rightarrow> nat \<Rightarrow> heap \<Rightarrow> heap" where
  "heap_sched_insert evs e h = heap_insert (ev_time (evs e)) e h"

definition heap_sched_cancel :: "events \<Rightarrow> nat \<Rightarrow> heap \<Rightarrow> (events \<times> heap) res" where
  "heap_sched_cancel evs e h =
     (if ev_uid (evs e) \<le> 0 then Inr (evs, h)
      else Inr (set_uid e (- ev_uid (evs e)) evs, snd (heap_delete e h)))"

text \<open>\<open>heap_iter_init\<close> and \<open>heap_iter\<close> visit the array from its first element.\<close>

definition heap_sched_lookup :: "events \<Rightarrow> int \<Rightarrow> heap \<Rightarrow> nat option" where
  "heap_sched_lookup evs u h = find (\<lambda>p. ev_uid (evs p) = u) (map he_elem (h_elems h))"

definition heap_ops :: "heap event_ops" where
  "heap_ops = \<lparr>op_insert = (\<lambda>evs e h. Inr (heap_sched_insert evs e h)), op_cancel = heap_sched_cancel,
     op_lookup = heap_sched_lookup, op_deque = (\<lambda>evs h. Inr (heap_extract_min h))\<rparr>"

subsection \<open>The order of the queue\<close>

lemma set_place [simp]: "set (place f e xs) = insert e (set xs)"
  by (induction xs) auto

lemma length_place [simp]: "length (place f e xs) = Suc (length xs)"
  by (induction xs) auto

lemma mset_place [simp]: "mset (place f e xs) = add_mset e (mset xs)"
  by (induction xs) auto

lemma distinct_place [simp]: "distinct (place f e xs) \<longleftrightarrow> e \<notin> set xs \<and> distinct xs"
  by (induction xs) auto

lemma map_place: "(\<And>y. y \<in> insert e (set xs) \<Longrightarrow> g (k y) = f y) \<Longrightarrow> map k (place f e xs) = place g (k e) (map k xs)"
  by (induction xs) auto

lemma place_cong: "(\<And>y. y \<in> insert e (set xs) \<Longrightarrow> f y = g y) \<Longrightarrow> place f e xs = place g e xs"
  using map_place [of e xs g id f] by simp

lemma sorted_place:
  assumes "sorted_wrt R xs"
    and "\<And>y. y \<in> set xs \<Longrightarrow> f y \<le> f e \<Longrightarrow> R y e"
    and "\<And>y. y \<in> set xs \<Longrightarrow> f e < f y \<Longrightarrow> R e y"
    and "\<And>y z. R y z \<Longrightarrow> f y \<le> f z"
  shows "sorted_wrt R (place f e xs)"
  using assms(1-3)
proof (induction xs)
  case Nil
  then show ?case by simp
next
  case (Cons x xs)
  show ?case
  proof (cases "f e < f x")
    case True
    then have "\<forall>y\<in>set (x # xs). f e < f y" using Cons.prems(1) assms(4) by fastforce
    then have "\<forall>y\<in>set (x # xs). R e y" using Cons.prems(3) by blast
    then show ?thesis using True Cons.prems(1) by simp
  next
    case False
    then have "R x e" "sorted_wrt R (place f e xs)" using Cons by auto
    then show ?thesis using False Cons.prems(1) by auto
  qed
qed

lemma sorted_wrt_remove1: "sorted_wrt R xs \<Longrightarrow> sorted_wrt R (remove1 x xs)"
proof (induction xs)
  case (Cons y ys)
  then show ?case using set_remove1_subset [of x ys] by auto
qed simp

lemma list_unlink_in: "e \<in> set xs \<Longrightarrow> list_unlink e xs = Inr (remove1 e xs)"
  by (induction xs) auto

text \<open>Placing one element after the other is a stable sort.\<close>

lemma sorted_place_le:
  "sorted_wrt (\<lambda>x y. f x \<le> f y) xs \<Longrightarrow> sorted_wrt (\<lambda>x y. f x \<le> f y) (place f e xs)"
  by (rule sorted_place) auto

lemma remove1_place: "e \<notin> set xs \<Longrightarrow> remove1 e (place f e xs) = xs"
  by (induction xs) auto

lemma fold_place_sorts: "fold (place f) es [] = sort_key f es"
proof (rule sym, rule properties_for_sort_key)
  have ms: "mset (fold (place f) es xs) = mset es + mset xs" for xs
    by (induction es arbitrary: xs) auto
  then show "mset (fold (place f) es []) = mset es" by simp
  have srt: "sorted_wrt (\<lambda>x y. f x \<le> f y) xs \<Longrightarrow> sorted_wrt (\<lambda>x y. f x \<le> f y) (fold (place f) es xs)" for xs
    by (induction es arbitrary: xs) (simp_all add: sorted_place_le)
  then show "sorted (map f (fold (place f) es []))" by (simp add: sorted_map)
  have flt: "filter (\<lambda>x. f k = f x) (place f e xs) = filter (\<lambda>x. f k = f x) xs @ (if f k = f e then [e] else [])"
    if "sorted_wrt (\<lambda>x y. f x \<le> f y) xs" for k e xs
    using that
  proof (induction xs)
    case (Cons x xs)
    then have "filter (\<lambda>y. f e = f y) xs = []" if "f e < f x" using that by (auto simp: filter_empty_conv)
    then show ?case using Cons by auto
  qed simp
  have "filter (\<lambda>x. f k = f x) (fold (place f) es xs) = filter (\<lambda>x. f k = f x) xs @ filter (\<lambda>x. f k = f x) es"
    if "sorted_wrt (\<lambda>x y. f x \<le> f y) xs" for k xs
    using that
  proof (induction es arbitrary: xs)
    case (Cons e es)
    have "sorted_wrt (\<lambda>x y. f x \<le> f y) (place f e xs)" using Cons.prems by (rule sorted_place_le)
    then show ?case using Cons.IH [of "place f e xs"] flt [OF Cons.prems] by simp
  qed simp
  then show "filter (\<lambda>x. f k = f x) (fold (place f) es []) = filter (\<lambda>x. f k = f x) es" for k by simp
qed

subsection \<open>The contract of an event queue\<close>

text \<open>Pending events are due by time and, at equal times, by number.\<close>

definition before :: "dispatched \<Rightarrow> dispatched \<Rightarrow> bool" where
  "before a b \<longleftrightarrow> fst a < fst b \<or> (fst a = fst b \<and> fst (snd a) < fst (snd b))"

definition stamp :: "events \<Rightarrow> nat \<Rightarrow> dispatched" where
  "stamp evs p = (ev_time (evs p), ev_uid (evs p), p)"

definition ordered :: "events \<Rightarrow> nat list \<Rightarrow> bool" where
  "ordered evs xs \<longleftrightarrow> sorted_wrt (\<lambda>p q. before (stamp evs p) (stamp evs q)) xs"

lemma ordered_Nil [simp]: "ordered evs []"
  by (simp add: ordered_def)

text \<open>
  \<open>rep evs q xs\<close>: the queue \<open>q\<close> holds the events \<open>xs\<close>, in the order of their
  dispatch. \<open>room n q\<close>: \<open>n\<close> more events can be inserted. \<open>okt t\<close>: an event may be due
  at \<open>t\<close>; what is said of the queue holds when all events are due at such times.
\<close>

locale event_queue =
  fixes ops :: "'q event_ops"
    and rep :: "events \<Rightarrow> 'q \<Rightarrow> nat list \<Rightarrow> bool"
    and room :: "nat \<Rightarrow> 'q \<Rightarrow> bool"
    and okt :: "real \<Rightarrow> bool"
  assumes okt_up: "okt t \<Longrightarrow> t \<le> t' \<Longrightarrow> okt t'"
    and rep_distinct: "rep evs q xs \<Longrightarrow> distinct xs"
    and rep_frame: "rep evs q xs \<Longrightarrow> (\<And>p. p \<in> set xs \<Longrightarrow> ev_time (evs' p) = ev_time (evs p)) \<Longrightarrow> rep evs' q xs"
    and insert_place: "rep evs q xs \<Longrightarrow> e \<notin> set xs \<Longrightarrow> room (Suc n) q \<Longrightarrow> okt (ev_time (evs e)) \<Longrightarrow>
      \<exists>q'. op_insert ops evs e q = Inr q' \<and> rep evs q' (place (\<lambda>p. ev_time (evs p)) e xs) \<and> room n q'"
    and deque_nil: "rep evs q [] \<Longrightarrow> op_deque ops evs q = Inr (None, q)"
    and deque_cons: "rep evs q (x # xs) \<Longrightarrow>
      \<exists>q'. op_deque ops evs q = Inr (Some x, q') \<and> rep evs q' xs \<and> (\<forall>n. room n q \<longrightarrow> room n q')"
    and cancel_idle: "ev_uid (evs e) \<le> 0 \<Longrightarrow> op_cancel ops evs e q = Inr (evs, q)"
    and cancel_pending: "rep evs q xs \<Longrightarrow> ordered evs xs \<Longrightarrow> e \<in> set xs \<Longrightarrow> 0 < ev_uid (evs e) \<Longrightarrow>
      \<exists>q'. op_cancel ops evs e q = Inr (set_uid e (- ev_uid (evs e)) evs, q') \<and>
        rep evs q' (remove1 e xs) \<and> (\<forall>n. room n q \<longrightarrow> room n q')"
    and lookup_find: "rep evs q xs \<Longrightarrow> inj_on (\<lambda>p. ev_uid (evs p)) (set xs) \<Longrightarrow>
      op_lookup ops evs u q = find (\<lambda>p. ev_uid (evs p) = u) xs"

text \<open>Pending events are exactly those of a positive number; their numbers are in use.\<close>

definition numbered :: "events \<Rightarrow> int \<Rightarrow> nat list \<Rightarrow> bool" where
  "numbered evs u xs \<longleftrightarrow> 0 < u \<and> (\<forall>p. 0 < ev_uid (evs p) \<longleftrightarrow> p \<in> set xs) \<and>
     inj_on (\<lambda>p. ev_uid (evs p)) (set xs) \<and> (\<forall>p\<in>set xs. ev_uid (evs p) < u) \<and> distinct xs"

lemma numbered_schedule:
  assumes "numbered evs u xs" "0 \<le> next_uid u" "\<not> 0 < ev_uid (evs e)"
  shows "numbered (evs(e := \<lparr>ev_handler = k, ev_time = t, ev_uid = u\<rparr>)) (next_uid u) (place f e xs)"
    and "next_uid u = u + 1"
proof -
  have e: "e \<notin> set xs" using assms(1,3) by (auto simp: numbered_def)
  show n: "next_uid u = u + 1" using assms(2) by (simp add: next_uid_def split: if_splits)
  have lt: "ev_uid (evs p) < u" if "p \<in> set xs" for p
    using assms(1) that by (simp add: numbered_def)
  have "inj_on (\<lambda>p. ev_uid (evs p)) (set xs)" using assms(1) by (simp add: numbered_def)
  then have "inj_on (\<lambda>p. ev_uid ((evs(e := \<lparr>ev_handler = k, ev_time = t, ev_uid = u\<rparr>)) p)) (insert e (set xs))"
    using e by (auto simp: inj_on_def dest: lt)
  moreover have "ev_uid (evs p) < u + 1" if "p \<in> set xs" for p using lt [OF that] by simp
  ultimately show "numbered (evs(e := \<lparr>ev_handler = k, ev_time = t, ev_uid = u\<rparr>)) (next_uid u) (place f e xs)"
    using assms(1) e by (auto simp: numbered_def n)
qed

lemma numbered_remove:
  assumes "numbered evs u xs" "e \<in> set xs"
  shows "numbered (set_uid e (- ev_uid (evs e)) evs) u (remove1 e xs)"
proof -
  have d: "distinct xs" "set (remove1 e xs) = set xs - {e}" using assms(1) by (simp_all add: numbered_def)
  have "inj_on (\<lambda>p. ev_uid (set_uid e (- ev_uid (evs e)) evs p)) (set xs - {e})"
    using assms(1) by (auto simp: numbered_def inj_on_def set_uid_def)
  moreover have "0 < ev_uid (evs e)" using assms unfolding numbered_def by blast
  then have "\<not> ev_uid (evs e) < 0" by simp
  ultimately show ?thesis using assms d by (auto simp: numbered_def set_uid_def)
qed

lemma ordered_schedule:
  assumes "numbered evs u xs" "ordered evs xs" "\<not> 0 < ev_uid (evs e)"
    and "evs' = evs(e := \<lparr>ev_handler = k, ev_time = t, ev_uid = u\<rparr>)"
  shows "ordered evs' (place (\<lambda>p. ev_time (evs' p)) e xs)"
proof -
  have e: "e \<notin> set xs" using assms(1,3) by (auto simp: numbered_def)
  have st: "stamp evs' p = stamp evs p" if "p \<in> set xs" for p
    using that e assms(4) by (auto simp: stamp_def)
  have lt: "ev_uid (evs p) < u" if "p \<in> set xs" for p using assms(1) that by (simp add: numbered_def)
  have "sorted_wrt (\<lambda>x y. before (stamp evs' x) (stamp evs' y)) xs"
    by (rule sorted_wrt_mono_rel [OF _ assms(2) [unfolded ordered_def]]) (simp add: st)
  then show ?thesis unfolding ordered_def
  proof (rule sorted_place)
    fix y assume y: "y \<in> set xs" "ev_time (evs' y) \<le> ev_time (evs' e)"
    then show "before (stamp evs' y) (stamp evs' e)"
      using lt [OF y(1)] e assms(4) by (auto simp: before_def stamp_def)
  qed (auto simp: before_def stamp_def)
qed

lemma ordered_remove:
  assumes "ordered evs xs" "distinct xs"
  shows "ordered (set_uid e v evs) (remove1 e xs)"
proof -
  have st: "stamp (set_uid e v evs) p = stamp evs p" if "p \<in> set (remove1 e xs)" for p
    using that assms(2) by (auto simp: stamp_def set_uid_def)
  show ?thesis unfolding ordered_def
    by (rule sorted_wrt_mono_rel [OF _ sorted_wrt_remove1 [OF assms(1) [unfolded ordered_def]]]) (simp add: st)
qed

context event_queue
begin

lemma dumpq_all: "rep evs q xs \<Longrightarrow> length xs < n \<Longrightarrow> \<exists>q'. dumpq n ops evs q = Inr (xs, q')"
proof (induction n arbitrary: q xs)
  case 0
  then show ?case by simp
next
  case (Suc n)
  show ?case
  proof (cases xs)
    case Nil
    then show ?thesis using deque_nil Suc.prems(1) by simp
  next
    case (Cons x ys)
    then obtain q' where "op_deque ops evs q = Inr (Some x, q')" "rep evs q' ys" using deque_cons Suc.prems(1) by blast
    then show ?thesis using Suc.IH [of q' ys] Suc.prems(2) Cons by auto
  qed
qed

lemma insert_all:
  assumes "rep evs q xs" "distinct (es @ xs)" "room (length es) q" "\<forall>e\<in>set es. okt (ev_time (evs e))"
  shows "\<exists>q'. rfold (op_insert ops evs) es q = Inr q' \<and> rep evs q' (fold (place (\<lambda>p. ev_time (evs p))) es xs)"
  using assms
proof (induction es arbitrary: q xs)
  case Nil
  then show ?case by simp
next
  case (Cons e es)
  obtain q1 where q1: "op_insert ops evs e q = Inr q1" "rep evs q1 (place (\<lambda>p. ev_time (evs p)) e xs)" "room (length es) q1"
    using insert_place [of evs q xs e "length es"] Cons.prems by auto
  then show ?case using Cons.IH [OF q1(2) _ q1(3)] Cons.prems by auto
qed

end

subsection \<open>Every event queue runs as the list does\<close>

text \<open>Numbers only grow while the signed 64-bit counter does not wrap.\<close>

lemma schedule_uid:
  "schedule ops h e d s = Inr s' \<Longrightarrow> 0 \<le> sc_uid s' \<Longrightarrow> 0 \<le> sc_uid s \<and> sc_uid s \<le> sc_uid s'"
  by (auto simp: schedule_def Let_def next_uid_def rbind_eq_Inr split: option.splits if_splits)

lemma perform_uid:
  "perform ops a s = Inr s' \<Longrightarrow> 0 \<le> sc_uid s' \<Longrightarrow> 0 \<le> sc_uid s \<and> sc_uid s \<le> sc_uid s'"
  by (cases a) (auto simp: cancel_def rbind_eq_Inr dest: schedule_uid split: prod.splits)

lemma performs_uid:
  "rfold (perform ops) acts s = Inr s' \<Longrightarrow> 0 \<le> sc_uid s' \<Longrightarrow> 0 \<le> sc_uid s \<and> sc_uid s \<le> sc_uid s'"
proof (induction acts arbitrary: s)
  case Nil
  then show ?case by simp
next
  case (Cons a acts)
  then obtain s1 where "perform ops a s = Inr s1" "rfold (perform ops) acts s1 = Inr s'"
    by (auto simp: rbind_eq_Inr)
  then show ?case using Cons.IH [of s1] Cons.prems(2) perform_uid [of ops a s s1] by auto
qed

lemma dispatch_uid:
  "dispatch ops hnd p t (s, st) = Inr (s', st') \<Longrightarrow> 0 \<le> sc_uid s' \<Longrightarrow> 0 \<le> sc_uid s \<and> sc_uid s \<le> sc_uid s'"
  by (fastforce simp: dispatch_def rbind_eq_Inr dest: performs_uid split: if_splits prod.splits)

lemma run_uid:
  "run_steps n ops hnd (s, st, lg) = Inr (s', st', lg') \<Longrightarrow> 0 \<le> sc_uid s' \<Longrightarrow>
   0 \<le> sc_uid s \<and> sc_uid s \<le> sc_uid s'"
proof (induction n arbitrary: s st lg)
  case 0
  then show ?case by simp
next
  case (Suc n)
  consider "sc_halted s" | q where "\<not> sc_halted s" "op_deque ops (sc_events s) (sc_queue s) = Inr (None, q)"
    | p q where "\<not> sc_halted s" "op_deque ops (sc_events s) (sc_queue s) = Inr (Some p, q)"
    using Suc.prems(1) by (cases "sc_halted s") (auto split: sum.splits option.splits)
  then show ?case
  proof cases
    case 1
    then show ?thesis using Suc.prems by simp
  next
    case 2
    then show ?thesis using Suc.prems by auto
  next
    case (3 p q)
    then obtain s1 st1 where s1:
      "dispatch ops hnd p (ev_time (sc_events s p)) (s\<lparr>sc_queue := q\<rparr>, st) = Inr (s1, st1)"
      "run_steps n ops hnd (s1, st1, lg @ [(ev_time (sc_events s p), ev_uid (sc_events s p), p)]) = Inr (s', st', lg')"
      using Suc.prems(1) by (auto simp: rbind_eq_Inr)
    then show ?thesis using Suc.IH [OF s1(2) Suc.prems(2)] dispatch_uid [OF s1(1)] by auto
  qed
qed

text \<open>Handlers that never schedule with a negative delay.\<close>

definition forward :: "'s handlers \<Rightarrow> bool" where
  "forward hnd \<longleftrightarrow> (\<forall>k e c st h e' d. Do_Schedule h e' d \<in> set (snd (hnd k e c st)) \<longrightarrow> 0 \<le> d)"

text \<open>A scheduler and the list scheduler in the same state.\<close>

context event_queue
begin

definition agree :: "int \<Rightarrow> 'q sched \<Rightarrow> nat list sched \<Rightarrow> bool" where
  "agree K s l \<longleftrightarrow> sc_clock s = sc_clock l \<and> sc_halted s = sc_halted l \<and> sc_uid s = sc_uid l \<and>
     sc_events s = sc_events l \<and> rep (sc_events l) (sc_queue s) (sc_queue l) \<and>
     numbered (sc_events l) (sc_uid l) (sc_queue l) \<and> ordered (sc_events l) (sc_queue l) \<and>
     room (nat (K - sc_uid l)) (sc_queue s) \<and> okt (sc_clock l)"

definition on_time :: "action list \<Rightarrow> real \<Rightarrow> bool" where
  "on_time acts t \<longleftrightarrow> (\<forall>h e d. Do_Schedule h e d \<in> set acts \<longrightarrow> okt (t + d))"

lemma on_time_Cons [simp]: "on_time (a # acts) t \<longleftrightarrow> (\<forall>h e d. a = Do_Schedule h e d \<longrightarrow> okt (t + d)) \<and> on_time acts t"
  by (auto simp: on_time_def)

lemma perform_agree:
  assumes "agree K s l" "perform list_ops a l = Inr l'" "0 \<le> sc_uid l'" "sc_uid l' \<le> K"
    and "\<And>h e d. a = Do_Schedule h e d \<Longrightarrow> okt (sc_clock l + d)"
  shows "\<exists>s'. perform ops a s = Inr s' \<and> agree K s' l'"
proof (cases a)
  case (Do_Schedule h e d)
  obtain k where h: "h = Some k" and c: "\<not> ev_uid (sc_events l e) > 0" "\<not> sc_uid l < 0"
    using assms(2) by (auto simp: Do_Schedule schedule_def split: option.splits if_splits)
  let ?evs = "(sc_events l)(e := \<lparr>ev_handler = k, ev_time = sc_clock l + d, ev_uid = sc_uid l\<rparr>)"
  let ?f = "\<lambda>p. ev_time (?evs p)"
  have l': "l' = l\<lparr>sc_uid := next_uid (sc_uid l), sc_events := ?evs, sc_queue := place ?f e (sc_queue l)\<rparr>"
    using assms(2) h c by (simp add: Do_Schedule schedule_def Let_def list_ops_def list_insert_def)
  have s: "sc_events s = sc_events l" "sc_uid s = sc_uid l" "sc_clock s = sc_clock l" "sc_halted s = sc_halted l"
    and nb: "numbered (sc_events l) (sc_uid l) (sc_queue l)" and od: "ordered (sc_events l) (sc_queue l)"
    and rp: "rep (sc_events l) (sc_queue s) (sc_queue l)"
    and rm: "room (nat (K - sc_uid l)) (sc_queue s)"
    using assms(1) by (simp_all add: agree_def)
  note nm = numbered_schedule(1) [OF nb _ c(1), of k "sc_clock l + d" ?f]
  have u: "next_uid (sc_uid l) = sc_uid l + 1" using numbered_schedule(2) [OF nb _ c(1)] assms(3) l' by simp
  have e: "e \<notin> set (sc_queue l)" using nb c(1) by (auto simp: numbered_def)
  have "rep ?evs (sc_queue s) (sc_queue l)" using e by (intro rep_frame [OF rp]) auto
  moreover have "room (Suc (nat (K - (sc_uid l + 1)))) (sc_queue s)"
    using rm assms(4) l' u by (simp add: Suc_nat_eq_nat_zadd1)
  moreover have "okt (ev_time (?evs e))" using assms(5) [OF Do_Schedule] by simp
  ultimately obtain q where "op_insert ops ?evs e (sc_queue s) = Inr q" "rep ?evs q (place ?f e (sc_queue l))"
    "room (nat (K - (sc_uid l + 1))) q"
    using insert_place e by blast
  then show ?thesis using c s h nm assms(1,3) u ordered_schedule [OF nb od c(1) refl, of k "sc_clock l + d"]
    by (simp add: Do_Schedule schedule_def Let_def agree_def l')
next
  case (Do_Cancel e)
  show ?thesis
  proof (cases "0 < ev_uid (sc_events l e)")
    case True
    then have e: "e \<in> set (sc_queue l)" using assms(1) by (simp add: agree_def numbered_def)
    let ?evs = "set_uid e (- ev_uid (sc_events l e)) (sc_events l)"
    have l': "l' = l\<lparr>sc_events := ?evs, sc_queue := remove1 e (sc_queue l)\<rparr>"
      using assms(2) True list_unlink_in [OF e] by (simp add: Do_Cancel cancel_def list_ops_def list_cancel_def)
    obtain q' where q': "op_cancel ops (sc_events l) e (sc_queue s) = Inr (?evs, q')"
      "rep (sc_events l) q' (remove1 e (sc_queue l))" "room (nat (K - sc_uid l)) q'"
      using cancel_pending [of "sc_events l" "sc_queue s" "sc_queue l" e] assms(1) e True by (auto simp: agree_def)
    have "rep ?evs q' (remove1 e (sc_queue l))" by (rule rep_frame [OF q'(2)]) (simp add: set_uid_def)
    then show ?thesis
      using assms(1) q' numbered_remove [of "sc_events l" "sc_uid l" "sc_queue l" e] e
        ordered_remove [of "sc_events l" "sc_queue l" e]
        rep_distinct [of "sc_events l" "sc_queue s" "sc_queue l"]
      by (simp add: Do_Cancel cancel_def agree_def l')
  next
    case False
    then show ?thesis
      using assms(1,2) cancel_idle [of "sc_events l" e]
      by (simp add: Do_Cancel cancel_def agree_def list_ops_def list_cancel_def)
  qed
next
  case Do_Halt
  then show ?thesis using assms by (auto simp: agree_def)
qed

lemma perform_clock: "perform list_ops a l = Inr l' \<Longrightarrow> sc_clock l' = sc_clock l"
  by (cases a) (auto simp: schedule_def cancel_def Let_def rbind_eq_Inr split: option.splits if_splits prod.splits)

lemma performs_agree:
  assumes "agree K s l" "rfold (perform list_ops) acts l = Inr l'" "0 \<le> sc_uid l'" "sc_uid l' \<le> K"
    and "on_time acts (sc_clock l)"
  shows "\<exists>s'. rfold (perform ops) acts s = Inr s' \<and> agree K s' l'"
  using assms
proof (induction acts arbitrary: s l)
  case Nil
  then show ?case by simp
next
  case (Cons a acts)
  then obtain l1 where l1: "perform list_ops a l = Inr l1" "rfold (perform list_ops) acts l1 = Inr l'"
    by (auto simp: rbind_eq_Inr)
  have "0 \<le> sc_uid l1" "sc_uid l1 \<le> K" using performs_uid [OF l1(2)] Cons.prems(3,4) by auto
  then obtain s1 where s1: "perform ops a s = Inr s1" "agree K s1 l1"
    using perform_agree [OF Cons.prems(1) l1(1)] Cons.prems(5) by auto
  then show ?case using Cons.IH [OF s1(2) l1(2) Cons.prems(3,4)] perform_clock [OF l1(1)] Cons.prems(5) by simp
qed

text \<open>Handlers never schedule in the past, unless every time is allowed.\<close>

definition mannered :: "'s handlers \<Rightarrow> bool" where
  "mannered hnd \<longleftrightarrow> forward hnd \<or> (\<forall>t. okt t)"

lemma mannered_on_time: "mannered hnd \<Longrightarrow> hnd k e c st = (st', acts) \<Longrightarrow> okt t \<Longrightarrow> on_time acts t"
  unfolding mannered_def forward_def on_time_def by (metis okt_up le_add_same_cancel1 snd_conv)

lemma dispatch_agree:
  assumes "agree K s l" "sc_queue l = p # ys" "op_deque ops (sc_events l) (sc_queue s) = Inr (Some p, q)"
    and "dispatch list_ops hnd p t (l\<lparr>sc_queue := ys\<rparr>, st) = Inr (l', st')" "0 \<le> sc_uid l'" "sc_uid l' \<le> K"
    and "mannered hnd"
  shows "\<exists>s'. dispatch ops hnd p t (s\<lparr>sc_queue := q\<rparr>, st) = Inr (s', st') \<and> agree K s' l'"
proof -
  let ?evs = "set_uid p (- ev_uid (sc_events l p)) (sc_events l)"
  obtain st2 acts where hd: "hnd (ev_handler (sc_events l p)) p t st = (st2, acts)" by fastforce
  have t: "\<not> t < sc_clock l" using assms(4) by (auto simp: dispatch_def)
  have run: "rfold (perform list_ops) acts (l\<lparr>sc_queue := ys, sc_clock := t, sc_events := ?evs\<rparr>) = Inr l'"
    and st2: "st2 = st'"
    using assms(4) hd t by (simp_all add: dispatch_def rbind_eq_Inr)
  have rp: "rep (sc_events l) (sc_queue s) (p # ys)" and rm: "room (nat (K - sc_uid l)) (sc_queue s)"
    using assms(1,2) by (simp_all add: agree_def)
  from deque_cons [OF rp] obtain q' where "op_deque ops (sc_events l) (sc_queue s) = Inr (Some p, q')"
    "rep (sc_events l) q' ys" "\<forall>n. room n (sc_queue s) \<longrightarrow> room n q'" by blast
  then have "rep (sc_events l) q ys" "room (nat (K - sc_uid l)) q" using rm assms(3) by simp_all
  moreover from this(1) have "rep ?evs q ys" by (rule rep_frame [of "sc_events l"]) (auto simp: set_uid_def)
  moreover have okt: "okt t" using okt_up [of "sc_clock l" t] assms(1) t by (simp add: agree_def)
  ultimately have "agree K (s\<lparr>sc_queue := q, sc_clock := t, sc_events := ?evs\<rparr>)
      (l\<lparr>sc_queue := ys, sc_clock := t, sc_events := ?evs\<rparr>)"
    using assms(1,2) numbered_remove [of "sc_events l" "sc_uid l" "sc_queue l" p]
      ordered_remove [of "sc_events l" "sc_queue l" p] rep_distinct [OF rp] by (simp add: agree_def)
  from performs_agree [OF this run assms(5,6)] mannered_on_time [OF assms(7) hd okt] obtain s' where
    "rfold (perform ops) acts (s\<lparr>sc_queue := q, sc_clock := t, sc_events := ?evs\<rparr>) = Inr s'" "agree K s' l'"
    by auto
  then show ?thesis using assms(1) hd t st2 by (simp add: dispatch_def agree_def)
qed

lemma run_agree:
  assumes "agree K s l" "run_steps n list_ops hnd (l, st, lg) = Inr (l', st', lg')"
    "0 \<le> sc_uid l'" "sc_uid l' \<le> K" "mannered hnd"
  shows "\<exists>s'. run_steps n ops hnd (s, st, lg) = Inr (s', st', lg') \<and> agree K s' l'"
  using assms(1-4)
proof (induction n arbitrary: s l st lg)
  case 0
  then show ?case by simp
next
  case (Suc n)
  have eq: "sc_halted s = sc_halted l" "sc_events s = sc_events l" using Suc.prems(1) by (simp_all add: agree_def)
  show ?case
  proof (cases "sc_halted l")
    case True
    then show ?thesis using Suc.prems eq by auto
  next
    case run: False
    show ?thesis
    proof (cases "sc_queue l")
      case Nil
      then have "op_deque ops (sc_events l) (sc_queue s) = Inr (None, sc_queue s)"
        using Suc.prems(1) by (intro deque_nil [of "sc_events l"]) (simp add: agree_def)
      moreover have "l' = l" "st' = st" "lg' = lg"
        using Suc.prems(2) run Nil by (auto simp: list_ops_def list_deque_def)
      ultimately show ?thesis using Suc.prems(1) run eq by simp
    next
      case (Cons p ys)
      let ?e = "(ev_time (sc_events l p), ev_uid (sc_events l p), p)"
      obtain l1 st1 where l1:
        "dispatch list_ops hnd p (ev_time (sc_events l p)) (l\<lparr>sc_queue := ys\<rparr>, st) = Inr (l1, st1)"
        "run_steps n list_ops hnd (l1, st1, lg @ [?e]) = Inr (l', st', lg')"
        using Suc.prems(2) run Cons by (auto simp: list_ops_def list_deque_def rbind_eq_Inr)
      have u: "0 \<le> sc_uid l1" "sc_uid l1 \<le> K" using run_uid [OF l1(2)] Suc.prems(3,4) by auto
      obtain q where q: "op_deque ops (sc_events l) (sc_queue s) = Inr (Some p, q)"
        using deque_cons Suc.prems(1) Cons by (metis agree_def)
      obtain s1 where s1: "dispatch ops hnd p (ev_time (sc_events l p)) (s\<lparr>sc_queue := q\<rparr>, st) = Inr (s1, st1)"
        "agree K s1 l1"
        using dispatch_agree [OF Suc.prems(1) Cons q l1(1) u assms(5)] by blast
      show ?thesis using Suc.IH [OF s1(2) l1(2) Suc.prems(3,4)] s1(1) q run eq by simp
    qed
  qed
qed

end

subsection \<open>Both schedulers keep the contract\<close>

definition list_rep :: "events \<Rightarrow> nat list \<Rightarrow> nat list \<Rightarrow> bool" where
  "list_rep evs q xs \<longleftrightarrow> q = xs \<and> distinct xs"

text \<open>A queue that takes events of any time.\<close>

locale total_queue = event_queue ops rep room "\<lambda>_. True"
  for ops :: "'q event_ops" and rep :: "events \<Rightarrow> 'q \<Rightarrow> nat list \<Rightarrow> bool" and room :: "nat \<Rightarrow> 'q \<Rightarrow> bool"
begin

lemma always [simp]: "on_time acts t" "mannered hnd"
  by (simp_all add: on_time_def mannered_def)

end

interpretation lsq: total_queue list_ops list_rep "\<lambda>_ _. True"
  by unfold_locales
    (auto simp: list_rep_def list_ops_def list_insert_def list_deque_def list_cancel_def list_lookup_def list_unlink_in)

text \<open>
  The elements of the heap in the order of their keys. The running numbers stay below
  \<open>h_s_key\<close> for as long as that counter does not wrap.
\<close>

definition heap_rep :: "events \<Rightarrow> heap \<Rightarrow> nat list \<Rightarrow> bool" where
  "heap_rep evs h xs \<longleftrightarrow> is_heap (h_elems h) \<and>
     (\<exists>ys. mset ys = mset (h_elems h) \<and> sorted_wrt key_less_than ys \<and> map he_elem ys = xs \<and> distinct xs \<and>
        (\<forall>y\<in>set ys. he_s_key y < h_s_key h \<and> he_key y = ev_time (evs (he_elem y))))"

lemma heap_repE:
  assumes "heap_rep evs h xs"
  obtains ys where "is_heap (h_elems h)" "mset ys = mset (h_elems h)" "sorted_wrt key_less_than ys"
    "map he_elem ys = xs" "distinct xs"
    "\<forall>y\<in>set ys. he_s_key y < h_s_key h \<and> he_key y = ev_time (evs (he_elem y))"
  using assms unfolding heap_rep_def by blast

definition heap_room :: "nat \<Rightarrow> heap \<Rightarrow> bool" where
  "heap_room n h \<longleftrightarrow> unat (h_s_key h) + n < 2 ^ 32"

lemma heap_min_is_first:
  assumes "is_heap h" "mset (y # ys) = mset h" "sorted_wrt key_less_than (y # ys)"
  shows "h \<noteq> [] \<and> h ! 0 = y"
proof -
  have ne: "h \<noteq> []" using assms(2) by auto
  have st: "set h = insert y (set ys)" using assms(2) by (metis list.simps(15) set_mset_mset)
  then have m: "h ! 0 \<in> insert y (set ys)" using ne nth_mem [of 0 h] by auto
  obtain i where "i < length h" "h ! i = y" using st by (metis in_set_conv_nth insertI1)
  then have "hle (h ! 0) y" using heap_min_first [OF assms(1)] by blast
  then have "h ! 0 \<notin> set ys" using assms(3) by (auto simp: hle_def)
  then show ?thesis using m ne by blast
qed

lemma extract_min_fields:
  "h_s_key (snd (heap_extract_min h)) = h_s_key h"
  "h_elems h \<noteq> [] \<Longrightarrow> fst (heap_extract_min h) = Some (he_elem (h_elems h ! 0))"
  by (simp_all add: heap_extract_min_def)

lemma heap_deque:
  assumes "heap_rep evs h (x # xs)"
  shows "\<exists>h'. heap_extract_min h = (Some x, h') \<and> heap_rep evs h' xs \<and> h_s_key h' = h_s_key h"
proof -
  obtain zs where zs: "is_heap (h_elems h)" "mset zs = mset (h_elems h)" "sorted_wrt key_less_than zs"
    "map he_elem zs = x # xs" "distinct (x # xs)"
    "\<forall>y\<in>set zs. he_s_key y < h_s_key h \<and> he_key y = ev_time (evs (he_elem y))"
    using assms by (rule heap_repE)
  then obtain y ys where y: "zs = y # ys" "he_elem y = x" "map he_elem ys = xs" by (cases zs) auto
  note z = zs [unfolded y(1)]
  let ?h = "snd (heap_extract_min h)"
  have f: "h_elems h \<noteq> []" "h_elems h ! 0 = y" using heap_min_is_first [OF z(1-3)] by auto
  note ok = extract_min_ok [OF f(1) is_heap_but [OF z(1)]]
  have "mset (h_elems ?h) = mset ys" using ok(2) f(2) z(2) [symmetric] by simp
  then have "heap_rep evs ?h xs"
    using ok(1) z(3,5,6) y(3) by (auto simp: heap_rep_def extract_min_fields intro!: exI [of _ ys])
  moreover have "heap_extract_min h = (Some x, ?h)"
    using extract_min_fields(2) [OF f(1)] f(2) y(2) by (metis prod.collapse)
  ultimately show ?thesis using extract_min_fields(1) by blast
qed

lemma heap_place:
  assumes "heap_rep evs h xs" "e \<notin> set xs" "heap_room (Suc n) h"
  shows "heap_rep evs (heap_sched_insert evs e h) (place (\<lambda>p. ev_time (evs p)) e xs) \<and>
    heap_room n (heap_sched_insert evs e h)"
proof -
  let ?x = "\<lparr>he_key = ev_time (evs e), he_s_key = h_s_key h, he_elem = e\<rparr>"
  let ?h = "heap_insert (ev_time (evs e)) e h"
  obtain ys where ys: "is_heap (h_elems h)" "mset ys = mset (h_elems h)" "sorted_wrt key_less_than ys"
    "map he_elem ys = xs" "distinct xs"
    "\<forall>y\<in>set ys. he_s_key y < h_s_key h \<and> he_key y = ev_time (evs (he_elem y))"
    using assms(1) by (rule heap_repE)
  have k: "unat (h_s_key h + 1) = unat (h_s_key h) + 1" "h_s_key ?h = h_s_key h + 1"
    using assms(3) by (simp_all add: heap_room_def unat_word_ariths heap_insert_def Let_def)
  have lt: "h_s_key h < h_s_key h + 1" using k(1) by (simp add: word_less_nat_alt)
  let ?ys = "place he_key ?x ys"
  have "sorted_wrt key_less_than ?ys"
    using ys(3,6) by (intro sorted_place) (auto simp: key_less_than_def)
  moreover have "map he_elem ?ys = place (\<lambda>p. ev_time (evs p)) e xs"
    using map_place [of ?x ys "\<lambda>p. ev_time (evs p)" he_elem he_key] ys(4,6) by fastforce
  moreover have "mset ?ys = mset (h_elems ?h)" using heap_insert_ok(2) [OF ys(1)] ys(2) by simp
  moreover have "\<forall>y\<in>set ?ys. he_s_key y < h_s_key ?h \<and> he_key y = ev_time (evs (he_elem y))"
    using ys(6) lt k(2) by (auto intro: less_trans)
  moreover have "is_heap (h_elems ?h)" using heap_insert_ok(1) [OF ys(1)] .
  moreover have "distinct (place (\<lambda>p. ev_time (evs p)) e xs)" using ys(5) assms(2) by simp
  ultimately have "heap_rep evs ?h (place (\<lambda>p. ev_time (evs p)) e xs)" unfolding heap_rep_def by blast
  moreover have "heap_room n ?h" using assms(3) k by (simp add: heap_room_def)
  ultimately show ?thesis by (simp add: heap_sched_insert_def)
qed

lemma find_index_Some: "find_index P xs = Some i \<Longrightarrow> i < length xs \<and> P (xs ! i)"
  by (induction xs arbitrary: i) (auto split: if_splits)

lemma find_index_None: "find_index P xs = None \<longleftrightarrow> (\<forall>x\<in>set xs. \<not> P x)"
  by (induction xs) auto

lemma map_remove1: "inj_on f (insert x (set xs)) \<Longrightarrow> map f (remove1 x xs) = remove1 (f x) (map f xs)"
  by (induction xs) (auto simp: inj_on_def)

lemma heap_delete_rep:
  assumes "heap_rep evs h xs" "e \<in> set xs"
  shows "heap_rep evs (snd (heap_delete e h)) (remove1 e xs) \<and> h_s_key (snd (heap_delete e h)) = h_s_key h"
proof -
  obtain ys where ys: "is_heap (h_elems h)" "mset ys = mset (h_elems h)" "sorted_wrt key_less_than ys"
    "map he_elem ys = xs" "distinct xs"
    "\<forall>y\<in>set ys. he_s_key y < h_s_key h \<and> he_key y = ev_time (evs (he_elem y))"
    using assms(1) by (rule heap_repE)
  have st: "set ys = set (h_elems h)" using ys(2) by (metis set_mset_mset)
  have "find_index (\<lambda>x. he_elem x = e) (h_elems h) \<noteq> None"
    using assms(2) ys(4) st by (auto simp: find_index_None)
  then obtain i where i: "find_index (\<lambda>x. he_elem x = e) (h_elems h) = Some i" by blast
  then have y: "i < length (h_elems h)" "he_elem (h_elems h ! i) = e" using find_index_Some by blast+
  let ?y = "h_elems h ! i" and ?t = "to_root (h_elems h) i"
  let ?g = "h\<lparr>h_elems := ?t\<rparr>"
  let ?h = "snd (heap_extract_min ?g)"
  have t: "heap_but ?t 0" "mset ?t = mset (h_elems h)" "?t ! 0 = ?y"
    using to_root_ok [OF y(1) is_heap_but [OF ys(1)]] by auto
  have ne: "?t \<noteq> []" using t(2) y(1) by (metis length_0_conv less_nat_zero_code size_mset)
  have ok: "is_heap (h_elems ?h)" "mset (h_elems ?h) = mset ?t - {#?t ! 0#}"
    using extract_min_ok [of ?g] t(1) ne by simp_all
  have "?y \<in> set ys" using st y(1) by simp
  moreover have "inj_on he_elem (set ys)" using ys(4,5) by (metis distinct_map)
  ultimately have "map he_elem (remove1 ?y ys) = remove1 e xs"
    using map_remove1 [of he_elem ?y ys] ys(4) y(2) by (simp add: insert_absorb)
  moreover have "mset (remove1 ?y ys) = mset (h_elems ?h)" using ok(2) t(2,3) ys(2) by simp
  moreover have "sorted_wrt key_less_than (remove1 ?y ys)" using ys(3) by (rule sorted_wrt_remove1)
  moreover have "\<forall>y\<in>set (remove1 ?y ys). he_s_key y < h_s_key ?h \<and> he_key y = ev_time (evs (he_elem y))"
    using ys(6) set_remove1_subset [of ?y ys] by (auto simp: extract_min_fields)
  moreover have "distinct (remove1 e xs)" using ys(5) by simp
  ultimately have "heap_rep evs ?h (remove1 e xs)" using ok(1) unfolding heap_rep_def by blast
  then show ?thesis using i by (simp add: heap_delete_def heap_member_def extract_min_fields)
qed

lemma find_unique:
  assumes "set xs = set ys" "inj_on f (set xs)"
  shows "find (\<lambda>p. f p = u) xs = find (\<lambda>p. f p = u) ys"
proof (cases "find (\<lambda>p. f p = u) xs")
  case None
  then show ?thesis using assms(1) by (metis find_None_iff)
next
  case (Some x)
  then have x: "x \<in> set xs" "f x = u" using find_SomeD [OF Some] by auto
  then obtain y where y: "find (\<lambda>p. f p = u) ys = Some y"
    using assms(1) by (cases "find (\<lambda>p. f p = u) ys") (auto simp: find_None_iff)
  then have "y \<in> set xs" "f y = u" using find_SomeD [OF y] assms(1) by auto
  then have "x = y" using x assms(2) by (metis inj_onD)
  then show ?thesis using Some y by simp
qed

lemma heap_rep_empty: "heap_rep evs h [] \<Longrightarrow> h_elems h = []"
  by (erule heap_repE) simp

lemma heap_rep_frame:
  fixes evs evs' :: events
  assumes "heap_rep evs h xs" "\<And>p. p \<in> set xs \<Longrightarrow> ev_time (evs' p) = ev_time (evs p)"
  shows "heap_rep evs' h xs"
  using assms unfolding heap_rep_def by fastforce

lemma heap_lookup:
  assumes "heap_rep evs h xs" "inj_on (\<lambda>p. ev_uid (evs p)) (set xs)"
  shows "heap_sched_lookup evs u h = find (\<lambda>p. ev_uid (evs p) = u) xs"
proof -
  obtain ys where ys: "mset ys = mset (h_elems h)" "map he_elem ys = xs" using assms(1) by (rule heap_repE)
  then have "set xs = set (map he_elem (h_elems h))" by (metis mset_map set_mset_mset)
  from find_unique [OF this assms(2)] show ?thesis by (simp add: heap_sched_lookup_def)
qed

interpretation hsq: total_queue heap_ops heap_rep heap_room
proof unfold_locales
  fix evs evs' :: events and q xs assume "heap_rep evs q xs" "\<And>p. p \<in> set xs \<Longrightarrow> ev_time (evs' p) = ev_time (evs p)"
  then show "heap_rep evs' q xs" by (rule heap_rep_frame)
next
  fix evs q xs e n assume "heap_rep evs q xs" "e \<notin> set xs" "heap_room (Suc n) q"
  then show "\<exists>q'. op_insert heap_ops evs e q = Inr q' \<and> heap_rep evs q' (place (\<lambda>p. ev_time (evs p)) e xs) \<and>
      heap_room n q'"
    using heap_place by (simp add: heap_ops_def)
next
  fix evs q x xs assume "heap_rep evs q (x # xs)"
  from heap_deque [OF this] show "\<exists>q'. op_deque heap_ops evs q = Inr (Some x, q') \<and> heap_rep evs q' xs \<and>
      (\<forall>n. heap_room n q \<longrightarrow> heap_room n q')"
    by (auto simp: heap_ops_def heap_room_def)
next
  fix evs q xs e assume "heap_rep evs q xs" "ordered evs xs" "e \<in> set xs" "0 < ev_uid (evs e)"
  with heap_delete_rep [of evs q xs e]
  show "\<exists>q'. op_cancel heap_ops evs e q = Inr (set_uid e (- ev_uid (evs e)) evs, q') \<and>
      heap_rep evs q' (remove1 e xs) \<and> (\<forall>n. heap_room n q \<longrightarrow> heap_room n q')"
    by (auto simp: heap_ops_def heap_room_def heap_sched_cancel_def)
next
  fix evs q xs u assume "heap_rep evs q xs" "inj_on (\<lambda>p. ev_uid (evs p)) (set xs)"
  then show "op_lookup heap_ops evs u q = find (\<lambda>p. ev_uid (evs p) = u) xs"
    using heap_lookup by (simp add: heap_ops_def)
qed (auto simp: heap_ops_def heap_sched_cancel_def heap_extract_min_def heap_rep_def dest: heap_rep_empty)

lemma heap_rep_new: "heap_rep evs new_heap []" and heap_room_new: "n < 2 ^ 32 \<Longrightarrow> heap_room n new_heap"
  by (simp_all add: heap_rep_def heap_room_def new_heap_def is_heap_def)

subsection \<open>The order of dispatch\<close>

text \<open>What was dispatched and what is pending form one timeline.\<close>

definition timeline :: "dispatched list \<Rightarrow> nat list sched \<Rightarrow> bool" where
  "timeline lg l \<longleftrightarrow> numbered (sc_events l) (sc_uid l) (sc_queue l) \<and>
     sorted_wrt before (lg @ map (stamp (sc_events l)) (sc_queue l)) \<and>
     (\<forall>a\<in>set lg. fst a \<le> sc_clock l \<and> fst (snd a) < sc_uid l)"

definition none_late :: "nat list sched \<Rightarrow> bool" where
  "none_late l \<longleftrightarrow> (\<forall>p\<in>set (sc_queue l). sc_clock l \<le> ev_time (sc_events l p))"

lemma timeline_schedule:
  assumes "timeline lg l" "schedule list_ops h e d l = Inr l'" "0 \<le> d" "0 \<le> sc_uid l'"
  shows "timeline lg l'"
proof -
  obtain k where h: "h = Some k" and c: "\<not> ev_uid (sc_events l e) > 0"
    using assms(2) by (auto simp: schedule_def split: option.splits if_splits)
  let ?evs = "(sc_events l)(e := \<lparr>ev_handler = k, ev_time = sc_clock l + d, ev_uid = sc_uid l\<rparr>)"
  let ?q = "place (\<lambda>p. ev_time (?evs p)) e (sc_queue l)"
  have l': "l' = l\<lparr>sc_uid := next_uid (sc_uid l), sc_events := ?evs, sc_queue := ?q\<rparr>"
    using assms(2) h c by (simp add: schedule_def Let_def list_ops_def list_insert_def split: if_splits)
  have tl: "numbered (sc_events l) (sc_uid l) (sc_queue l)"
    "sorted_wrt before lg" "sorted_wrt before (map (stamp (sc_events l)) (sc_queue l))"
    "\<forall>a\<in>set lg. \<forall>p\<in>set (sc_queue l). before a (stamp (sc_events l) p)"
    "\<forall>a\<in>set lg. fst a \<le> sc_clock l \<and> fst (snd a) < sc_uid l"
    using assms(1) by (auto simp: timeline_def sorted_wrt_append)
  have nx: "0 \<le> next_uid (sc_uid l)" using assms(4) l' by simp
  note u = numbered_schedule(2) [OF tl(1) nx c]
  have e: "e \<notin> set (sc_queue l)" using tl(1) c by (auto simp: numbered_def)
  have st: "stamp ?evs p = stamp (sc_events l) p" if "p \<in> set (sc_queue l)" for p
    using that e by (auto simp: stamp_def)
  have lt: "ev_uid (sc_events l p) < sc_uid l" if "p \<in> set (sc_queue l)" for p
    using tl(1) that by (simp add: numbered_def)
  have "ordered (sc_events l) (sc_queue l)" using tl(3) by (simp add: ordered_def sorted_wrt_map)
  from ordered_schedule [OF tl(1) this c refl]
  have "sorted_wrt (\<lambda>x y. before (stamp ?evs x) (stamp ?evs y)) ?q" by (simp add: ordered_def)
  moreover have "before a (stamp ?evs p)" if "a \<in> set lg" "p \<in> insert e (set (sc_queue l))" for a p
  proof (cases "p = e")
    case True
    then show ?thesis using tl(5) that(1) assms(3) by (fastforce simp: before_def stamp_def)
  next
    case False
    then show ?thesis using tl(4) that st by simp
  qed
  ultimately have "sorted_wrt before (lg @ map (stamp ?evs) ?q)"
    using tl(2) by (auto simp: sorted_wrt_append sorted_wrt_map)
  moreover have "\<forall>a\<in>set lg. fst (snd a) < sc_uid l + 1" using tl(5) by fastforce
  ultimately show ?thesis
    using numbered_schedule(1) [OF tl(1) nx c] tl(5) u unfolding timeline_def l' by simp
qed

lemma timeline_remove:
  assumes "timeline lg l" "e \<in> set (sc_queue l)"
  shows "timeline lg (l\<lparr>sc_events := set_uid e (- ev_uid (sc_events l e)) (sc_events l), sc_queue := remove1 e (sc_queue l)\<rparr>)"
proof -
  let ?evs = "set_uid e (- ev_uid (sc_events l e)) (sc_events l)"
  have d: "distinct (sc_queue l)" and nb: "numbered (sc_events l) (sc_uid l) (sc_queue l)"
    using assms(1) by (simp_all add: timeline_def numbered_def)
  then have s: "set (remove1 e (sc_queue l)) = set (sc_queue l) - {e}" by simp
  have "map (stamp ?evs) (remove1 e (sc_queue l)) = map (stamp (sc_events l)) (remove1 e (sc_queue l))"
    using s by (auto simp: stamp_def set_uid_def)
  moreover have "sorted_wrt before (lg @ map (stamp (sc_events l)) (remove1 e (sc_queue l)))"
    using assms(1) s by (auto simp: timeline_def sorted_wrt_append sorted_wrt_map intro: sorted_wrt_remove1)
  ultimately have "sorted_wrt before (lg @ map (stamp ?evs) (remove1 e (sc_queue l)))" by (simp only:)
  then show ?thesis
    using assms numbered_remove [OF nb assms(2)] s by (simp add: timeline_def)
qed

lemma timeline_perform:
  assumes "timeline lg l" "perform list_ops a l = Inr l'" "0 \<le> sc_uid l'" "\<And>h e d. a = Do_Schedule h e d \<Longrightarrow> 0 \<le> d"
  shows "timeline lg l'"
proof (cases a)
  case (Do_Schedule h e d)
  then show ?thesis using assms timeline_schedule [of lg l h e d l'] by simp
next
  case (Do_Cancel e)
  show ?thesis
  proof (cases "0 < ev_uid (sc_events l e)")
    case True
    then have e: "e \<in> set (sc_queue l)" using assms(1) by (simp add: timeline_def numbered_def)
    then show ?thesis
      using assms(2) True timeline_remove [OF assms(1) e] list_unlink_in [OF e]
      by (auto simp: Do_Cancel cancel_def list_ops_def list_cancel_def)
  next
    case False
    then show ?thesis
      using assms(1,2) by (auto simp: Do_Cancel cancel_def list_ops_def list_cancel_def timeline_def)
  qed
next
  case Do_Halt
  then show ?thesis using assms by (auto simp: timeline_def)
qed

lemma timeline_performs:
  assumes "timeline lg l" "rfold (perform list_ops) acts l = Inr l'" "0 \<le> sc_uid l'"
    "\<And>h e d. Do_Schedule h e d \<in> set acts \<Longrightarrow> 0 \<le> d"
  shows "timeline lg l'"
  using assms
proof (induction acts arbitrary: l)
  case Nil
  then show ?case by simp
next
  case (Cons a acts)
  then obtain l1 where l1: "perform list_ops a l = Inr l1" "rfold (perform list_ops) acts l1 = Inr l'"
    by (auto simp: rbind_eq_Inr)
  have "timeline lg l1"
    using timeline_perform [OF Cons.prems(1) l1(1)] performs_uid [OF l1(2) Cons.prems(3)] Cons.prems(4) by auto
  then show ?case using Cons.IH l1(2) Cons.prems(3,4) by auto
qed

lemma none_late_perform:
  assumes "none_late l" "perform list_ops a l = Inr l'" "\<And>h e d. a = Do_Schedule h e d \<Longrightarrow> 0 \<le> d"
  shows "none_late l'"
proof (cases a)
  case (Do_Cancel e)
  show ?thesis
  proof (cases "0 < ev_uid (sc_events l e) \<and> e \<in> set (sc_queue l)")
    case True
    then show ?thesis
      using assms list_unlink_in [of e "sc_queue l"] set_remove1_subset [of e "sc_queue l"]
      by (auto simp: Do_Cancel none_late_def cancel_def list_ops_def list_cancel_def set_uid_def)
  next
    case False
    have "list_unlink e xs = Inl Aborted" if "e \<notin> set xs" for xs using that by (induction xs) auto
    then show ?thesis
      using assms(1,2) False by (auto simp: Do_Cancel none_late_def cancel_def list_ops_def list_cancel_def split: if_splits)
  qed
qed (use assms in \<open>auto simp: none_late_def schedule_def Let_def list_ops_def list_insert_def split: option.splits if_splits\<close>)

text \<open>A handler runs at any time from that of its event on: the real-time scheduler is late.\<close>

lemma timeline_dispatch:
  assumes "timeline lg l" "sc_queue l = p # ys" "ev_time (sc_events l p) \<le> t"
    and "dispatch list_ops hnd p t (l\<lparr>sc_queue := ys\<rparr>, st) = Inr (l', st')" "0 \<le> sc_uid l'"
    and "forward hnd"
  shows "timeline (lg @ [stamp (sc_events l) p]) l' \<and> (t = ev_time (sc_events l p) \<longrightarrow> none_late l')"
proof -
  let ?evs = "set_uid p (- ev_uid (sc_events l p)) (sc_events l)"
  let ?l = "l\<lparr>sc_queue := ys, sc_clock := t, sc_events := ?evs\<rparr>"
  obtain st2 acts where hd: "hnd (ev_handler (sc_events l p)) p t st = (st2, acts)" by fastforce
  have t: "\<not> t < sc_clock l" using assms(4) by (auto simp: dispatch_def)
  have run: "rfold (perform list_ops) acts ?l = Inr l'"
    using assms(4) hd t by (simp add: dispatch_def rbind_eq_Inr)
  have fw: "0 \<le> d" if "Do_Schedule h e d \<in> set acts" for h e d
    using assms(6) hd that unfolding forward_def by (metis snd_conv)
  have tl: "numbered (sc_events l) (sc_uid l) (p # ys)"
    "sorted_wrt before (lg @ stamp (sc_events l) p # map (stamp (sc_events l)) ys)"
    "\<forall>a\<in>set lg. fst a \<le> sc_clock l \<and> fst (snd a) < sc_uid l"
    using assms(1,2) by (simp_all add: timeline_def)
  have p: "p \<notin> set ys" "ev_uid (sc_events l p) < sc_uid l" using tl(1) by (simp_all add: numbered_def)
  have "map (stamp ?evs) ys = map (stamp (sc_events l)) ys" using p(1) by (auto simp: stamp_def set_uid_def)
  then have "sorted_wrt before ((lg @ [stamp (sc_events l) p]) @ map (stamp ?evs) ys)"
    using tl(2) by (simp only: append.assoc append.simps)
  moreover have "numbered ?evs (sc_uid l) ys" using numbered_remove [OF tl(1), of p] by simp
  moreover have "\<forall>a\<in>set (lg @ [stamp (sc_events l) p]). fst a \<le> t \<and> fst (snd a) < sc_uid l"
    using tl(3) t p(2) assms(3) by (fastforce simp: stamp_def)
  ultimately have "timeline (lg @ [stamp (sc_events l) p]) ?l" by (simp add: timeline_def)
  then have tl': "timeline (lg @ [stamp (sc_events l) p]) l'"
    using timeline_performs [OF _ run assms(5)] fw by blast
  have "ev_time (sc_events l p) \<le> ev_time (?evs y)" if "y \<in> set ys" for y
    using tl(2) that by (fastforce simp: sorted_wrt_append before_def stamp_def set_uid_def)
  then have "none_late ?l" if "t = ev_time (sc_events l p)" using that by (simp add: none_late_def)
  then have "none_late l'" if "t = ev_time (sc_events l p)"
    using rfold_invariant [OF run, of none_late] none_late_perform fw that by blast
  then show ?thesis using tl' by blast
qed

lemma timeline_run:
  assumes "timeline lg l" "none_late l" "run_steps n list_ops hnd (l, st, lg) = Inr (l', st', lg')" "0 \<le> sc_uid l'"
    and "forward hnd"
  shows "timeline lg' l' \<and> none_late l'"
  using assms(1-4)
proof (induction n arbitrary: l st lg)
  case 0
  then show ?case by simp
next
  case (Suc n)
  consider "sc_halted l \<or> sc_queue l = []" | p ys where "\<not> sc_halted l" "sc_queue l = p # ys"
    by (meson neq_Nil_conv)
  then show ?case
  proof cases
    case 1
    then show ?thesis
      using Suc.prems by (cases "sc_halted l") (auto simp: list_ops_def list_deque_def timeline_def none_late_def)
  next
    case 2
    then obtain l1 st1 where l1:
      "dispatch list_ops hnd p (ev_time (sc_events l p)) (l\<lparr>sc_queue := ys\<rparr>, st) = Inr (l1, st1)"
      "run_steps n list_ops hnd (l1, st1, lg @ [stamp (sc_events l) p]) = Inr (l', st', lg')"
      using Suc.prems(3) by (auto simp: list_ops_def list_deque_def rbind_eq_Inr stamp_def)
    have "0 \<le> sc_uid l1" using run_uid [OF l1(2) Suc.prems(4)] by simp
    from timeline_dispatch [OF Suc.prems(1) 2(2) order_refl l1(1) this assms(5)]
    show ?thesis using Suc.IH l1(2) Suc.prems(4) by blast
  qed
qed

lemma timeline_new: "timeline [] (new_sched [])"
  by (simp add: timeline_def new_sched_def numbered_def new_event_def)

text \<open>
  C16. Events are dispatched in the order of their times and, at equal times, in the order in
  which they were scheduled. Let events be scheduled or cancelled by \<open>acts\<close> in a new
  \<open>ListScheduler\<close>, and let \<open>run\<close> make any number of iterations with handlers that
  schedule and cancel as they like but never with a negative delay: then the log is strictly
  ordered by time and number, everything still pending is due no earlier than the
  clock, and exactly the pending events have a positive number.
\<close>

theorem dispatch_order:
  assumes "rfold (perform list_ops) acts (new_sched []) = Inr l"
    and "run_steps n list_ops hnd (l, st, []) = Inr (l', st', lg)" and "0 \<le> sc_uid l'"
    and "\<And>h e d. Do_Schedule h e d \<in> set acts \<Longrightarrow> 0 \<le> d"
    and "forward hnd"
  shows "sorted_wrt before lg \<and> (\<forall>p\<in>set (sc_queue l'). sc_clock l' \<le> ev_time (sc_events l' p)) \<and>
    (\<forall>a\<in>set lg. fst a \<le> sc_clock l') \<and> (\<forall>p. 0 < ev_uid (sc_events l' p) \<longleftrightarrow> p \<in> set (sc_queue l'))"
proof -
  have "0 \<le> sc_uid l" using run_uid [OF assms(2,3)] by simp
  then have "timeline [] l" using timeline_performs [OF timeline_new assms(1)] assms(4) by blast
  moreover have "none_late (new_sched [])" by (simp add: none_late_def new_sched_def)
  then have "none_late l" using rfold_invariant [OF assms(1), of none_late] none_late_perform assms(4) by blast
  ultimately have "timeline lg l' \<and> none_late l'" using timeline_run [OF _ _ assms(2,3)] assms(5) by blast
  then show ?thesis by (auto simp: timeline_def none_late_def sorted_wrt_append numbered_def)
qed

text \<open>A handler that schedules the event 2 again after half a second, once.\<close>

definition demo_handlers :: "nat handlers" where
  "demo_handlers k e c st = (if e = 2 \<and> st = 0 then (1, [Do_Schedule (Some 7) 2 (1/2), Do_Cancel 3]) else (st, []))"

definition demo_acts :: "action list" where
  "demo_acts = [Do_Schedule (Some 7) 1 1, Do_Schedule (Some 7) 2 (1/2), Do_Schedule (Some 7) 3 1, Do_Schedule (Some 7) 4 1]"

definition demo_sched :: "nat list sched" where
  "demo_sched = \<lparr>sc_clock = 0, sc_halted = False, sc_uid = 5,
     sc_events = (\<lambda>_. new_event)(1 := \<lparr>ev_handler = 7, ev_time = 1, ev_uid = 1\<rparr>,
       2 := \<lparr>ev_handler = 7, ev_time = 1/2, ev_uid = 2\<rparr>, 3 := \<lparr>ev_handler = 7, ev_time = 1, ev_uid = 3\<rparr>,
       4 := \<lparr>ev_handler = 7, ev_time = 1, ev_uid = 4\<rparr>), sc_queue = [2, 1, 3, 4]\<rparr>"

lemma demo_boot: "rfold (perform list_ops) demo_acts (new_sched []) = Inr demo_sched"
  by (simp add: demo_acts_def demo_sched_def new_sched_def schedule_def list_ops_def list_insert_def Let_def
    next_uid_def new_event_def)

lemma demo_run: "\<exists>l'. run_steps 10 list_ops demo_handlers (demo_sched, 0, []) =
   Inr (l', 1, [(1/2, 2, 2), (1, 1, 1), (1, 4, 4), (1, 5, 2)]) \<and> sc_uid l' = 6 \<and> sc_queue l' = []"
  by (simp add: demo_sched_def eval_nat_numeral schedule_def cancel_def list_ops_def list_insert_def list_deque_def
    list_cancel_def dispatch_def demo_handlers_def set_uid_def Let_def next_uid_def new_event_def)

lemma demo_forward: "forward demo_handlers"
  by (auto simp: forward_def demo_handlers_def split: if_splits)

theorem dispatch_order_witness:
  "\<exists>l'. run_steps 10 list_ops demo_handlers (demo_sched, 0, []) =
     Inr (l', 1, [(1/2, 2, 2), (1, 1, 1), (1, 4, 4), (1, 5, 2)]) \<and>
   sorted_wrt before [(1/2, 2, 2), (1, 1, 1), (1, 4, 4), (1, 5, 2)] \<and> 1 \<le> sc_clock l'"
proof -
  obtain l' where run: "run_steps 10 list_ops demo_handlers (demo_sched, 0, []) =
      Inr (l', 1, [(1/2, 2, 2), (1, 1, 1), (1, 4, 4), (1, 5, 2)])" and u: "sc_uid l' = 6"
    using demo_run by blast
  have "0 \<le> d" if "Do_Schedule h e d \<in> set demo_acts" for h e d using that by (auto simp: demo_acts_def)
  with dispatch_order [OF demo_boot run _ _ demo_forward] u run show ?thesis by fastforce
qed

text \<open>
  C9. The heap scheduler runs as the list scheduler does. Whatever a program schedules and
  cancels in a new \<open>ListScheduler\<close> and however long it runs there, a new
  \<open>HeapScheduler\<close> dispatches the same events at the same times in the same order, and
  ends with the same clock, counter and pending events, provided that no more than
  $2^{32} - 1$ events were scheduled: \<open>h_s_key\<close> is an unsigned int.
\<close>

theorem heap_runs_like_list:
  assumes "rfold (perform list_ops) acts (new_sched []) = Inr l"
    and "run_steps n list_ops hnd (l, st, []) = Inr (l', st', lg)" and "0 \<le> sc_uid l'" and "sc_uid l' \<le> 2 ^ 32"
  shows "\<exists>s s'. rfold (perform heap_ops) acts (new_sched new_heap) = Inr s \<and>
    run_steps n heap_ops hnd (s, st, []) = Inr (s', st', lg) \<and> sc_clock s' = sc_clock l' \<and>
    sc_halted s' = sc_halted l' \<and> sc_uid s' = sc_uid l' \<and> sc_events s' = sc_events l' \<and>
    (\<exists>h. dumpq (Suc (length (sc_queue l'))) heap_ops (sc_events l') (sc_queue s') = Inr (sc_queue l', h))"
proof -
  have u: "0 \<le> sc_uid l" "sc_uid l \<le> 2 ^ 32" using run_uid [OF assms(2,3)] assms(4) by auto
  have "hsq.agree (2 ^ 32) (new_sched new_heap) (new_sched [])"
    using heap_rep_new heap_room_new
    by (simp add: hsq.agree_def new_sched_def numbered_def new_event_def)
  from hsq.performs_agree [OF this assms(1) u hsq.always(1)] obtain s where
    s: "rfold (perform heap_ops) acts (new_sched new_heap) = Inr s" "hsq.agree (2 ^ 32) s l" by blast
  from hsq.run_agree [OF s(2) assms(2-4) hsq.always(2)] obtain s' where
    s': "run_steps n heap_ops hnd (s, st, []) = Inr (s', st', lg)" "hsq.agree (2 ^ 32) s' l'" by blast
  have "\<exists>h. dumpq (Suc (length (sc_queue l'))) heap_ops (sc_events l') (sc_queue s') = Inr (sc_queue l', h)"
    using s'(2) by (intro hsq.dumpq_all [of "sc_events l'"]) (simp_all add: hsq.agree_def)
  then show ?thesis using s s' by (auto simp: hsq.agree_def)
qed

theorem heap_runs_like_list_witness:
  "\<exists>s s'. rfold (perform heap_ops) demo_acts (new_sched new_heap) = Inr s \<and>
    run_steps 10 heap_ops demo_handlers (s, 0, []) = Inr (s', 1, [(1/2, 2, 2), (1, 1, 1), (1, 4, 4), (1, 5, 2)])"
proof -
  obtain l' where run: "run_steps 10 list_ops demo_handlers (demo_sched, 0, []) =
      Inr (l', 1, [(1/2, 2, 2), (1, 1, 1), (1, 4, 4), (1, 5, 2)])" and u: "sc_uid l' = 6"
    using demo_run by blast
  show ?thesis using heap_runs_like_list [OF demo_boot run] u by auto
qed

text \<open>
  A heap sorts, and keeps the order of equal keys: what is inserted and then extracted
  until nothing is left is the stable sort by time of what was inserted.
\<close>

theorem heap_sorts:
  assumes "distinct es" and "length es < 2 ^ 32" and "length es < n"
  shows "\<exists>h h'. rfold (op_insert heap_ops evs) es new_heap = Inr h \<and>
    dumpq n heap_ops evs h = Inr (sort_key (\<lambda>p. ev_time (evs p)) es, h')"
proof -
  let ?f = "\<lambda>p. ev_time (evs p)"
  have len: "length (fold (place f) es xs) = length es + length xs" for f :: "nat \<Rightarrow> real" and xs
    by (induction es arbitrary: xs) auto
  obtain h where h: "rfold (op_insert heap_ops evs) es new_heap = Inr h" "heap_rep evs h (fold (place ?f) es [])"
    using hsq.insert_all [of evs new_heap "[]" es] assms heap_rep_new heap_room_new by auto
  from hsq.dumpq_all [OF h(2)] len [of ?f "[]"] assms(3) h(1)
  show ?thesis by (simp add: fold_place_sorts)
qed

theorem heap_sorts_witness:
  "\<exists>h h'. rfold (op_insert heap_ops
     ((\<lambda>_. new_event)(1 := \<lparr>ev_handler = 7, ev_time = 3, ev_uid = 1\<rparr>, 3 := \<lparr>ev_handler = 7, ev_time = 2, ev_uid = 1\<rparr>)))
     [1, 2, 3, 4] new_heap = Inr h \<and>
   dumpq 5 heap_ops ((\<lambda>_. new_event)(1 := \<lparr>ev_handler = 7, ev_time = 3, ev_uid = 1\<rparr>, 3 := \<lparr>ev_handler = 7, ev_time = 2, ev_uid = 1\<rparr>))
     h = Inr ([2, 4, 3, 1], h')"
  using heap_sorts [of "[1, 2, 3, 4]" 5 "(\<lambda>_. new_event)(1 := \<lparr>ev_handler = 7, ev_time = 3, ev_uid = 1\<rparr>,
    3 := \<lparr>ev_handler = 7, ev_time = 2, ev_uid = 1\<rparr>)"]
  by (simp add: new_event_def del: rfold.simps)

text \<open>
  The running number that keeps equal keys in order has 32 bits and wraps: of two events
  of the same time inserted when it is at its maximum, the second is extracted first.
\<close>

theorem heap_tie_break_wraps:
  "heap_min (heap_insert t b (heap_insert t a (new_heap\<lparr>h_s_key := - 1\<rparr>))) = Some b"
proof -
  have "(0 :: 32 word) < - 1" unfolding word_gt_0 by simp
  then show ?thesis
    by (simp add: heap_insert_def heap_min_def new_heap_def Let_def sift_up.simps parent_def key_less_than_def)
qed

text \<open>
  The commands of the scheduler. \<open>at t\<close> schedules at the time \<open>t\<close>, or \<open>- t\<close>
  from now if \<open>t\<close> is negative, and refuses the past without a change; \<open>cancel\<close> of
  the number it returned removes just that event.
\<close>

theorem at_and_cancel:
  assumes "timeline [] l" and "ev_uid (sc_events l e) \<le> 0" and "sc_uid l < 2 ^ 63 - 1"
  shows "(0 \<le> t \<and> t < sc_clock l \<longrightarrow> sched_command list_ops (Cmd_At e t) l = Inr (Tcl_Past, l)) \<and>
    (t < 0 \<or> sc_clock l \<le> t \<longrightarrow>
      (\<exists>l1 l2. sched_command list_ops (Cmd_At e t) l = Inr (Tcl_Uid (sc_uid l), l1) \<and>
         ev_time (sc_events l1 e) = (if t < 0 then sc_clock l - t else t) \<and> set (sc_queue l1) = insert e (set (sc_queue l)) \<and>
         sched_command list_ops (Cmd_Cancel (sc_uid l)) l1 = Inr (Tcl_Ok, l2) \<and> sc_queue l2 = sc_queue l))"
proof (intro conjI impI)
  assume "0 \<le> t \<and> t < sc_clock l"
  then show "sched_command list_ops (Cmd_At e t) l = Inr (Tcl_Past, l)" by simp
next
  assume t: "t < 0 \<or> sc_clock l \<le> t"
  have nb: "numbered (sc_events l) (sc_uid l) (sc_queue l)" using assms(1) by (simp add: timeline_def)
  have "\<not> 0 < ev_uid (sc_events l e)" using assms(2) by simp
  then have e: "e \<notin> set (sc_queue l)" using nb by (simp add: numbered_def)
  have lt: "ev_uid (sc_events l p) < sc_uid l" if "p \<in> set (sc_queue l)" for p
    using nb that by (simp add: numbered_def)
  have u: "0 < sc_uid l" "\<not> sc_uid l < 0" using nb by (simp_all add: numbered_def)
  let ?d = "if t < 0 then - t else t - sc_clock l"
  let ?evs = "(sc_events l)(e := \<lparr>ev_handler = 0, ev_time = sc_clock l + ?d, ev_uid = sc_uid l\<rparr>)"
  let ?q = "list_insert ?evs e (sc_queue l)"
  let ?l = "l\<lparr>sc_uid := next_uid (sc_uid l), sc_events := ?evs, sc_queue := ?q\<rparr>"
  have at: "sched_command list_ops (Cmd_At e t) l = Inr (Tcl_Uid (sc_uid l), ?l)"
    using t u by (auto simp: schedule_at_def schedule_def new_event_def Let_def list_ops_def)
  have q: "set ?q = insert e (set (sc_queue l))" "remove1 e ?q = sc_queue l"
    using remove1_place [OF e] by (simp_all add: list_insert_def)
  have "find (\<lambda>p. ev_uid (?evs p) = sc_uid l) ?q = Some e"
  proof -
    have iff: "ev_uid (?evs p) = sc_uid l \<longleftrightarrow> p = e" if "p \<in> set ?q" for p
      using that lt [of p] e q(1) by (cases "p = e") auto
    obtain y where y: "find (\<lambda>p. ev_uid (?evs p) = sc_uid l) ?q = Some y"
      using iff q(1) by (cases "find (\<lambda>p. ev_uid (?evs p) = sc_uid l) ?q") (auto simp: find_None_iff)
    then show ?thesis using find_SomeD [OF y] iff by auto
  qed
  let ?l2 = "?l\<lparr>sc_events := set_uid e (- sc_uid l) ?evs, sc_queue := sc_queue l\<rparr>"
  have "list_lookup ?evs (sc_uid l) ?q = Some e" using \<open>find _ ?q = Some e\<close> by (simp add: list_lookup_def)
  moreover have "list_unlink e ?q = Inr (sc_queue l)" using q list_unlink_in [of e ?q] by simp
  ultimately have cl: "sched_command list_ops (Cmd_Cancel (sc_uid l)) ?l = Inr (Tcl_Ok, ?l2)"
    using u by (simp add: list_ops_def cancel_def list_cancel_def)
  show "\<exists>l1 l2. sched_command list_ops (Cmd_At e t) l = Inr (Tcl_Uid (sc_uid l), l1) \<and>
      ev_time (sc_events l1 e) = (if t < 0 then sc_clock l - t else t) \<and> set (sc_queue l1) = insert e (set (sc_queue l)) \<and>
      sched_command list_ops (Cmd_Cancel (sc_uid l)) l1 = Inr (Tcl_Ok, l2) \<and> sc_queue l2 = sc_queue l"
    by (rule exI [of _ ?l], rule exI [of _ ?l2], intro conjI at cl)
      (use q(1) in \<open>simp_all\<close>)
qed

theorem at_and_cancel_witness:
  "\<exists>l1 l2. sched_command list_ops (Cmd_At 5 (- 2)) (new_sched []) = Inr (Tcl_Uid 1, l1) \<and>
    ev_time (sc_events l1 5) = 2 \<and> sched_command list_ops (Cmd_Cancel 1) l1 = Inr (Tcl_Ok, l2) \<and> sc_queue l2 = []"
  using at_and_cancel [OF timeline_new, of 5 "- 2"] by (auto simp: new_sched_def new_event_def)

end
