(* ===== verification/Timer.thy ===== *)
theory Timer
  imports Scheduler
begin

section \<open>Timers\<close>

text \<open>
  \<open>TimerHandler\<close> of common/timer-handler.h and common/timer-handler.cc on a scheduler: the
  timer owns one event object and keeps a status. \<open>expire\<close> is virtual: the operations
  it performs on its own timer are a list, the argument of \<open>timer_handle\<close>. The relation
  \<open>timer_step\<close> is the life of a timer among the other events of the simulation.
\<close>

datatype timer_status = TIMER_IDLE | TIMER_PENDING | TIMER_HANDLING

record timer =
  tm_status :: timer_status
  tm_event :: nat
  tm_handler :: nat

type_synonym 'q timed = "timer \<times> 'q sched"

definition new_timer :: "nat \<Rightarrow> nat \<Rightarrow> timer" where
  "new_timer e h = \<lparr>tm_status = TIMER_IDLE, tm_event = e, tm_handler = h\<rparr>"

text \<open>\<open>_sched\<close> and \<open>_cancel\<close> with the status that each caller stores after them.\<close>

definition sched_event :: "'q event_ops \<Rightarrow> real \<Rightarrow> 'q timed \<Rightarrow> 'q timed res" where
  "sched_event ops d = (\<lambda>(tm, s).
     rbind (schedule ops (Some (tm_handler tm)) (tm_event tm) d s)
       (\<lambda>s'. Inr (tm\<lparr>tm_status := TIMER_PENDING\<rparr>, s')))"

definition cancel_event :: "'q event_ops \<Rightarrow> 'q timed \<Rightarrow> 'q timed res" where
  "cancel_event ops = (\<lambda>(tm, s). rbind (cancel ops (tm_event tm) s) (\<lambda>s'. Inr (tm\<lparr>tm_status := TIMER_IDLE\<rparr>, s')))"

definition timer_cancel :: "'q event_ops \<Rightarrow> 'q timed \<Rightarrow> 'q timed res" where
  "timer_cancel ops c = (if tm_status (fst c) \<noteq> TIMER_PENDING then Inl Aborted else cancel_event ops c)"

definition timer_force_cancel :: "'q event_ops \<Rightarrow> 'q timed \<Rightarrow> 'q timed res" where
  "timer_force_cancel ops c = (if tm_status (fst c) = TIMER_PENDING then cancel_event ops c else Inr c)"

definition timer_sched :: "'q event_ops \<Rightarrow> real \<Rightarrow> 'q timed \<Rightarrow> 'q timed res" where
  "timer_sched ops d c = (if tm_status (fst c) \<noteq> TIMER_IDLE then Inl Aborted else sched_event ops d c)"

definition timer_resched :: "'q event_ops \<Rightarrow> real \<Rightarrow> 'q timed \<Rightarrow> 'q timed res" where
  "timer_resched ops d c =
     rbind (if tm_status (fst c) = TIMER_PENDING then cancel_event ops c else Inr c) (sched_event ops d)"

datatype timer_op = T_Sched real | T_Resched real | T_Cancel | T_Force_Cancel

fun timer_do :: "'q event_ops \<Rightarrow> timer_op \<Rightarrow> 'q timed \<Rightarrow> 'q timed res" where
  "timer_do ops (T_Sched d) c = timer_sched ops d c"
| "timer_do ops (T_Resched d) c = timer_resched ops d c"
| "timer_do ops T_Cancel c = timer_cancel ops c"
| "timer_do ops T_Force_Cancel c = timer_force_cancel ops c"

definition timer_handle :: "'q event_ops \<Rightarrow> timer_op list \<Rightarrow> 'q timed \<Rightarrow> 'q timed res" where
  "timer_handle ops expire = (\<lambda>(tm, s).
     if tm_status tm \<noteq> TIMER_PENDING then Inl Aborted
     else rbind (rfold (timer_do ops) expire (tm\<lparr>tm_status := TIMER_HANDLING\<rparr>, s))
       (\<lambda>(tm', s'). Inr (if tm_status tm' = TIMER_HANDLING then tm'\<lparr>tm_status := TIMER_IDLE\<rparr> else tm', s')))"

text \<open>The event at the head of the queue is taken out for its dispatch.\<close>

definition take_next :: "'q event_ops \<Rightarrow> 'q sched \<Rightarrow> (nat \<times> 'q sched) option" where
  "take_next ops s =
     (case op_deque ops (sc_events s) (sc_queue s) of
        Inl _ \<Rightarrow> None
      | Inr (None, _) \<Rightarrow> None
      | Inr (Some p, q) \<Rightarrow>
          if ev_time (sc_events s p) < sc_clock s then None
          else Some (p, s\<lparr>sc_clock := ev_time (sc_events s p),
            sc_events := set_uid p (- ev_uid (sc_events s p)) (sc_events s), sc_queue := q\<rparr>))"

inductive timer_step :: "'q event_ops \<Rightarrow> 'q timed \<Rightarrow> 'q timed \<Rightarrow> bool" for ops :: "'q event_ops" where
  call: "timer_do ops a c = Inr c' \<Longrightarrow> timer_step ops c c'"
| fire: "take_next ops s = Some (tm_event tm, s1) \<Longrightarrow> timer_handle ops expire (tm, s1) = Inr c' \<Longrightarrow>
    timer_step ops (tm, s) c'"
| other_event: "take_next ops s = Some (p, s1) \<Longrightarrow> p \<noteq> tm_event tm \<Longrightarrow> timer_step ops (tm, s) (tm, s1)"
| other_call: "perform ops a s = Inr s1 \<Longrightarrow> (\<And>h e d. a = Do_Schedule h e d \<Longrightarrow> e \<noteq> tm_event tm) \<Longrightarrow>
    a \<noteq> Do_Cancel (tm_event tm) \<Longrightarrow> timer_step ops (tm, s) (tm, s1)"

inductive_cases timer_stepE: "timer_step ops c c'"

subsection \<open>The numbers of the scheduler along a step\<close>

lemma cancel_uid: "cancel ops e s = Inr s' \<Longrightarrow> sc_uid s' = sc_uid s"
  by (auto simp: cancel_def rbind_eq_Inr split: prod.splits)

lemma sched_event_uid:
  "sched_event ops d c = Inr c' \<Longrightarrow> 0 \<le> sc_uid (snd c') \<Longrightarrow>
   0 \<le> sc_uid (snd c) \<and> sc_uid (snd c) \<le> sc_uid (snd c')"
  by (cases c) (auto simp: sched_event_def rbind_eq_Inr dest: schedule_uid)

lemma cancel_event_uid: "cancel_event ops c = Inr c' \<Longrightarrow> sc_uid (snd c') = sc_uid (snd c)"
  by (cases c) (auto simp: cancel_event_def rbind_eq_Inr dest: cancel_uid)

lemma timer_resched_uid:
  assumes "timer_resched ops d c = Inr c'" "0 \<le> sc_uid (snd c')"
  shows "0 \<le> sc_uid (snd c) \<and> sc_uid (snd c) \<le> sc_uid (snd c')"
proof -
  obtain c1 where c1: "(if tm_status (fst c) = TIMER_PENDING then cancel_event ops c else Inr c) = Inr c1"
    "sched_event ops d c1 = Inr c'"
    using assms(1) by (auto simp: timer_resched_def rbind_eq_Inr)
  then have "sc_uid (snd c1) = sc_uid (snd c)"
    using cancel_event_uid [of ops c c1] by (auto split: if_splits)
  then show ?thesis using sched_event_uid [OF c1(2) assms(2)] by simp
qed

lemma timer_do_uid:
  "timer_do ops a c = Inr c' \<Longrightarrow> 0 \<le> sc_uid (snd c') \<Longrightarrow>
   0 \<le> sc_uid (snd c) \<and> sc_uid (snd c) \<le> sc_uid (snd c')"
  by (cases a) (auto simp: timer_sched_def timer_cancel_def timer_force_cancel_def
      dest: sched_event_uid cancel_event_uid timer_resched_uid split: if_splits)

lemma timer_dos_uid:
  "rfold (timer_do ops) as c = Inr c' \<Longrightarrow> 0 \<le> sc_uid (snd c') \<Longrightarrow>
   0 \<le> sc_uid (snd c) \<and> sc_uid (snd c) \<le> sc_uid (snd c')"
proof (induction as arbitrary: c)
  case Nil
  then show ?case by simp
next
  case (Cons a as)
  then obtain c1 where "timer_do ops a c = Inr c1" "rfold (timer_do ops) as c1 = Inr c'"
    by (auto simp: rbind_eq_Inr)
  then show ?case using Cons.IH [of c1] Cons.prems(2) timer_do_uid [of ops a c c1] by auto
qed

lemma take_next_uid: "take_next ops s = Some (p, s1) \<Longrightarrow> sc_uid s1 = sc_uid s"
  by (auto simp: take_next_def split: sum.splits prod.splits option.splits if_splits)

lemma timer_step_uid:
  "timer_step ops c c' \<Longrightarrow> 0 \<le> sc_uid (snd c') \<Longrightarrow>
   0 \<le> sc_uid (snd c) \<and> sc_uid (snd c) \<le> sc_uid (snd c')"
proof (induction rule: timer_step.induct)
  case (call a c c')
  then show ?case using timer_do_uid by blast
next
  case (fire s tm s1 expire c')
  obtain tm2 s2 where "rfold (timer_do ops) expire (tm\<lparr>tm_status := TIMER_HANDLING\<rparr>, s1) = Inr (tm2, s2)"
    "snd c' = s2"
    using fire(2) by (auto simp: timer_handle_def rbind_eq_Inr split: if_splits)
  then show ?case using timer_dos_uid fire.prems take_next_uid [OF fire(1)] by fastforce
next
  case (other_event s p s1 tm)
  then show ?case using take_next_uid by fastforce
next
  case (other_call a s s1 tm)
  then show ?case using perform_uid by fastforce
qed

lemma timer_handle_Inr:
  "timer_handle ops expire (tm, s) = Inr c' \<longleftrightarrow> tm_status tm = TIMER_PENDING \<and>
     (\<exists>tm2 s2. rfold (timer_do ops) expire (tm\<lparr>tm_status := TIMER_HANDLING\<rparr>, s) = Inr (tm2, s2) \<and>
        c' = (if tm_status tm2 = TIMER_HANDLING then tm2\<lparr>tm_status := TIMER_IDLE\<rparr> else tm2, s2))"
  by (auto simp: timer_handle_def rbind_eq_Inr)

text \<open>Timers under the contract of the queue, simulated on the list.\<close>

context total_queue
begin

lemma schedule_agree:
  assumes "agree K s l" "schedule ops (Some h) e d s = Inr s'" "0 \<le> sc_uid s'" "sc_uid s' \<le> K"
  shows "\<exists>l'. agree K s' l' \<and> set (sc_queue l') = insert e (set (sc_queue l)) \<and>
    ev_time (sc_events s' e) = sc_clock s + d"
proof -
  have eq: "sc_events s = sc_events l" "sc_uid s = sc_uid l" "sc_clock s = sc_clock l"
    using assms(1) by (simp_all add: agree_def)
  have c: "\<not> 0 < ev_uid (sc_events s e)" "\<not> sc_uid s < 0"
    using assms(2) by (auto simp: schedule_def split: if_splits)
  then obtain l' where l': "schedule list_ops (Some h) e d l = Inr l'"
    using eq by (auto simp: schedule_def Let_def list_ops_def)
  have u: "sc_uid l' = sc_uid s'" and q: "set (sc_queue l') = insert e (set (sc_queue l))"
    and t: "ev_time (sc_events s' e) = sc_clock s + d"
    using l' assms(2) c eq by (auto simp: schedule_def Let_def list_ops_def list_insert_def rbind_eq_Inr)
  have "perform list_ops (Do_Schedule (Some h) e d) l = Inr l'" using l' by simp
  from perform_agree [OF assms(1) this] u assms(3,4) have "\<exists>s2. schedule ops (Some h) e d s = Inr s2 \<and> agree K s2 l'"
    by simp
  then show ?thesis using q t assms(2) by auto
qed

lemma cancel_agree:
  assumes "agree K s l" "sc_uid l \<le> K"
  shows "\<exists>s' l'. cancel ops e s = Inr s' \<and> agree K s' l' \<and> set (sc_queue l') = set (sc_queue l) - {e} \<and>
    sc_uid s' = sc_uid s \<and> sc_clock s' = sc_clock s"
proof -
  have nb: "numbered (sc_events l) (sc_uid l) (sc_queue l)" using assms(1) by (simp add: agree_def)
  obtain l' where l': "cancel list_ops e l = Inr l'" "set (sc_queue l') = set (sc_queue l) - {e}"
    "sc_uid l' = sc_uid l" "sc_clock l' = sc_clock l"
  proof (cases "0 < ev_uid (sc_events l e)")
    case True
    then have "e \<in> set (sc_queue l)" "distinct (sc_queue l)" using nb by (simp_all add: numbered_def)
    then show thesis
      using that True list_unlink_in [of e "sc_queue l"] by (simp add: cancel_def list_ops_def list_cancel_def)
  next
    case False
    then have "e \<notin> set (sc_queue l)" using nb by (simp add: numbered_def)
    then show thesis using that False by (simp add: cancel_def list_ops_def list_cancel_def)
  qed
  have "0 \<le> sc_uid l'" using nb l'(3) by (simp add: numbered_def)
  with perform_agree [OF assms(1), of "Do_Cancel e" l'] l' assms(2) obtain s' where
    s': "cancel ops e s = Inr s'" "agree K s' l'" by auto
  have "sc_uid s' = sc_uid s" "sc_clock s' = sc_clock s" using s'(2) assms(1) l'(3,4) by (simp_all add: agree_def)
  then show ?thesis using s' l' by blast
qed

definition timer_ok :: "int \<Rightarrow> 'q timed \<Rightarrow> bool" where
  "timer_ok K c \<longleftrightarrow> (\<exists>l. agree K (snd c) l \<and>
     (tm_status (fst c) = TIMER_PENDING \<longleftrightarrow> tm_event (fst c) \<in> set (sc_queue l)))"

lemma sched_event_ok:
  assumes "timer_ok K c" "sched_event ops d c = Inr c'" "0 \<le> sc_uid (snd c')" "sc_uid (snd c') \<le> K"
  shows "timer_ok K c'"
proof -
  obtain tm s where c: "c = (tm, s)" by fastforce
  then obtain s' where s': "schedule ops (Some (tm_handler tm)) (tm_event tm) d s = Inr s'"
    "c' = (tm\<lparr>tm_status := TIMER_PENDING\<rparr>, s')"
    using assms(2) by (auto simp: sched_event_def rbind_eq_Inr)
  obtain l where "agree K s l" using assms(1) c by (auto simp: timer_ok_def)
  from schedule_agree [OF this s'(1)] s'(2) assms(3,4) show ?thesis by (auto simp: timer_ok_def)
qed

lemma cancel_event_ok:
  assumes "timer_ok K c" "sc_uid (snd c) \<le> K"
  shows "\<exists>c'. cancel_event ops c = Inr c' \<and> timer_ok K c' \<and> tm_status (fst c') = TIMER_IDLE \<and>
    sc_uid (snd c') = sc_uid (snd c) \<and> sc_clock (snd c') = sc_clock (snd c) \<and>
    tm_event (fst c') = tm_event (fst c)"
proof -
  obtain tm s where c: "c = (tm, s)" by fastforce
  obtain l where l: "agree K s l" using assms(1) c by (auto simp: timer_ok_def)
  have "sc_uid l \<le> K" using l assms(2) c by (simp add: agree_def)
  from cancel_agree [OF l this, of "tm_event tm"] c show ?thesis by (auto simp: cancel_event_def timer_ok_def)
qed

lemma timer_do_ok:
  assumes "timer_ok K c" "timer_do ops a c = Inr c'" "0 \<le> sc_uid (snd c')" "sc_uid (snd c') \<le> K"
  shows "timer_ok K c'"
proof -
  have "sc_uid (snd c) \<le> K" using timer_do_uid [OF assms(2,3)] assms(4) by simp
  note cancelled = cancel_event_ok [OF assms(1) this]
  show ?thesis
  proof (cases a)
    case (T_Resched d)
    then obtain c1 where c1: "(if tm_status (fst c) = TIMER_PENDING then cancel_event ops c else Inr c) = Inr c1"
      "sched_event ops d c1 = Inr c'"
      using assms(2) by (auto simp: timer_resched_def rbind_eq_Inr)
    then have "timer_ok K c1" using cancelled assms(1) by (auto split: if_splits)
    then show ?thesis using sched_event_ok c1(2) assms(3,4) by blast
  qed (use assms cancelled sched_event_ok in
    \<open>auto simp: timer_sched_def timer_cancel_def timer_force_cancel_def split: if_splits\<close>)
qed

lemma timer_dos_ok:
  assumes "timer_ok K c" "rfold (timer_do ops) as c = Inr c'" "0 \<le> sc_uid (snd c')" "sc_uid (snd c') \<le> K"
  shows "timer_ok K c'"
  using assms
proof (induction as arbitrary: c)
  case Nil
  then show ?case by simp
next
  case (Cons a as)
  then obtain c1 where c1: "timer_do ops a c = Inr c1" "rfold (timer_do ops) as c1 = Inr c'"
    by (auto simp: rbind_eq_Inr)
  have "0 \<le> sc_uid (snd c1)" "sc_uid (snd c1) \<le> K" using timer_dos_uid [OF c1(2) Cons.prems(3)] Cons.prems(4) by auto
  then show ?case using Cons.IH timer_do_ok [OF Cons.prems(1) c1(1)] c1(2) Cons.prems(3,4) by blast
qed

lemma take_next_agree:
  assumes "agree K s l" "take_next ops s = Some (p, s1)"
  shows "\<exists>l1. agree K s1 l1 \<and> p \<in> set (sc_queue l) \<and> set (sc_queue l1) = set (sc_queue l) - {p}"
proof -
  have rp: "rep (sc_events l) (sc_queue s) (sc_queue l)" and rm: "room (nat (K - sc_uid l)) (sc_queue s)"
    and nb: "numbered (sc_events l) (sc_uid l) (sc_queue l)" and eq: "sc_events s = sc_events l"
    using assms(1) by (simp_all add: agree_def)
  obtain q where q: "op_deque ops (sc_events l) (sc_queue s) = Inr (Some p, q)"
    "s1 = s\<lparr>sc_clock := ev_time (sc_events s p), sc_events := set_uid p (- ev_uid (sc_events s p)) (sc_events s), sc_queue := q\<rparr>"
    using assms(2) eq by (auto simp: take_next_def split: sum.splits prod.splits option.splits if_splits)
  obtain x ys where l: "sc_queue l = x # ys"
    using deque_nil rp q(1) by (cases "sc_queue l") auto
  from deque_cons [OF rp [unfolded l]] q(1) have x: "x = p" "rep (sc_events l) q ys" and
    "\<forall>n. room n (sc_queue s) \<longrightarrow> room n q" by auto
  then have rm': "room (nat (K - sc_uid l)) q" using rm by blast
  let ?evs = "set_uid p (- ev_uid (sc_events l p)) (sc_events l)"
  have "rep ?evs q ys" by (rule rep_frame [OF x(2)]) (simp add: set_uid_def)
  moreover have "numbered ?evs (sc_uid l) ys" using numbered_remove [OF nb, of p] l x(1) by simp
  moreover have "ordered ?evs ys"
    using ordered_remove [of "sc_events l" "sc_queue l" p] rep_distinct [OF rp] assms(1) l x(1) by (simp add: agree_def)
  ultimately have "agree K s1 (l\<lparr>sc_clock := ev_time (sc_events l p), sc_events := ?evs, sc_queue := ys\<rparr>)"
    using assms(1) q(2) rm' eq by (simp add: agree_def)
  then show ?thesis using l x(1) nb by (fastforce simp: numbered_def)
qed

lemma timer_step_ok:
  assumes "timer_step ops c c'" "timer_ok K c" "0 \<le> sc_uid (snd c')" "sc_uid (snd c') \<le> K"
  shows "timer_ok K c'"
  using assms
proof (induction rule: timer_step.induct)
  case (call a c c')
  then show ?case using timer_do_ok by blast
next
  case (fire s tm s1 expire c')
  then obtain l where l: "agree K s l" by (auto simp: timer_ok_def)
  obtain l1 where l1: "agree K s1 l1" "tm_event tm \<notin> set (sc_queue l1)"
    using take_next_agree [OF l fire(1)] by auto
  obtain tm2 s2 where r: "rfold (timer_do ops) expire (tm\<lparr>tm_status := TIMER_HANDLING\<rparr>, s1) = Inr (tm2, s2)"
    and c': "c' = (if tm_status tm2 = TIMER_HANDLING then tm2\<lparr>tm_status := TIMER_IDLE\<rparr> else tm2, s2)"
    using fire(2) unfolding timer_handle_Inr by blast
  have "timer_ok K (tm\<lparr>tm_status := TIMER_HANDLING\<rparr>, s1)" using l1 by (auto simp: timer_ok_def)
  then have "timer_ok K (tm2, s2)" using timer_dos_ok [OF _ r] fire(4,5) c' by simp
  then show ?case using c' by (auto simp: timer_ok_def)
next
  case (other_event s p s1 tm)
  then obtain l where l: "agree K s l" "tm_status tm = TIMER_PENDING \<longleftrightarrow> tm_event tm \<in> set (sc_queue l)"
    by (auto simp: timer_ok_def)
  from take_next_agree [OF l(1) other_event(1)] l(2) other_event(2) show ?case by (auto simp: timer_ok_def)
next
  case (other_call a s s1 tm)
  then obtain l where l: "agree K s l" "tm_status tm = TIMER_PENDING \<longleftrightarrow> tm_event tm \<in> set (sc_queue l)"
    by (auto simp: timer_ok_def)
  show ?case
  proof (cases a)
    case (Do_Schedule h e d)
    then obtain k where "schedule ops (Some k) e d s = Inr s1"
      using other_call(1) by (cases h) (auto simp: schedule_def)
    from schedule_agree [OF l(1) this] other_call(2) [OF Do_Schedule] other_call(5,6) l(2) show ?thesis
      by (auto simp: timer_ok_def)
  next
    case (Do_Cancel e)
    have "sc_uid l \<le> K" using perform_uid [OF other_call(1)] other_call(5,6) l(1) by (simp add: agree_def)
    from cancel_agree [OF l(1) this, of e] other_call(1,3) l(2) Do_Cancel show ?thesis by (auto simp: timer_ok_def)
  next
    case Do_Halt
    have "agree K (s\<lparr>sc_halted := True\<rparr>) (l\<lparr>sc_halted := True\<rparr>)" using l(1) by (simp add: agree_def)
    then show ?thesis using Do_Halt other_call(1) l(2) by (auto simp: timer_ok_def)
  qed
qed

lemma timer_reach_ok:
  "(timer_step ops)\<^sup>*\<^sup>* c c' \<Longrightarrow> timer_ok K c \<Longrightarrow> 0 \<le> sc_uid (snd c') \<Longrightarrow> sc_uid (snd c') \<le> K \<Longrightarrow> timer_ok K c'"
proof (induction rule: rtranclp_induct)
  case base
  then show ?case by simp
next
  case (step c1 c2)
  have "0 \<le> sc_uid (snd c1)" "sc_uid (snd c1) \<le> K" using timer_step_uid [OF step(2)] step.prems by auto
  then show ?case using step timer_step_ok by blast
qed

lemma timer_resched_ok:
  assumes "timer_ok K (tm, s)" "sc_uid s < K" "K < 2 ^ 63"
  shows "\<exists>s'. timer_resched ops d (tm, s) = Inr (tm\<lparr>tm_status := TIMER_PENDING\<rparr>, s') \<and>
    ev_time (sc_events s' (tm_event tm)) = sc_clock s + d \<and> timer_ok K (tm\<lparr>tm_status := TIMER_PENDING\<rparr>, s')"
proof -
  have le: "sc_uid (snd (tm, s)) \<le> K" using assms(2) by simp
  obtain tm1 s1 where c1: "(if tm_status tm = TIMER_PENDING then cancel_event ops (tm, s) else Inr (tm, s)) = Inr (tm1, s1)"
    and ok: "timer_ok K (tm1, s1)" "tm_status tm1 \<noteq> TIMER_PENDING" "sc_uid s1 = sc_uid s" "sc_clock s1 = sc_clock s"
    and tm1: "tm1\<lparr>tm_status := TIMER_PENDING\<rparr> = tm\<lparr>tm_status := TIMER_PENDING\<rparr>"
    using cancel_event_ok [OF assms(1) le] assms(1)
    by (cases "tm_status tm = TIMER_PENDING") (auto simp: cancel_event_def rbind_eq_Inr)
  have ev: "tm_event tm1 = tm_event tm" "tm_handler tm1 = tm_handler tm"
    using arg_cong [OF tm1, of tm_event] arg_cong [OF tm1, of tm_handler] by simp_all
  obtain l where l: "agree K s1 l" "tm_event tm \<notin> set (sc_queue l)"
    using ok(1,2) ev by (auto simp: timer_ok_def)
  have nb: "numbered (sc_events s1) (sc_uid s1) (sc_queue l)" using l(1) by (simp add: agree_def)
  have eq: "sc_uid l = sc_uid s1" "sc_events l = sc_events s1" using l(1) by (simp_all add: agree_def)
  have "\<not> 0 < ev_uid (sc_events s1 (tm_event tm))" "0 < sc_uid s1" using nb l(2) by (auto simp: numbered_def)
  then obtain l2 where l2: "perform list_ops (Do_Schedule (Some (tm_handler tm)) (tm_event tm) d) l = Inr l2"
    "sc_uid l2 = sc_uid s1 + 1"
    using eq ok(3) assms(2,3) by (auto simp: schedule_def Let_def next_uid_def list_ops_def)
  have "0 \<le> sc_uid l2" "sc_uid l2 \<le> K" using l2(2) \<open>0 < sc_uid s1\<close> ok(3) assms(2) by auto
  from perform_agree [OF l(1) l2(1) this] obtain s2 where s2:
    "schedule ops (Some (tm_handler tm)) (tm_event tm) d s1 = Inr s2" "sc_uid s2 = sc_uid s1 + 1"
    using l2(2) by (auto simp: agree_def)
  have u: "0 \<le> sc_uid s2" "sc_uid s2 \<le> K" using s2(2) \<open>0 < sc_uid s1\<close> ok(3) assms(2) by auto
  have r: "timer_resched ops d (tm, s) = Inr (tm\<lparr>tm_status := TIMER_PENDING\<rparr>, s2)"
    using c1 s2(1) tm1 ev by (simp add: timer_resched_def sched_event_def)
  have "timer_ok K (tm\<lparr>tm_status := TIMER_PENDING\<rparr>, s2)"
    using schedule_agree [OF l(1) s2(1) u] by (auto simp: timer_ok_def)
  then show ?thesis using r schedule_agree [OF l(1) s2(1) u] ok(4) by auto
qed

end

lemma heap_member_rep:
  assumes "heap_rep evs h xs"
  shows "heap_member e h \<noteq> None \<longleftrightarrow> e \<in> set xs"
proof -
  obtain ys where "mset ys = mset (h_elems h)" "map he_elem ys = xs" using assms by (rule heap_repE)
  then have "set xs = he_elem ` set (h_elems h)" by (metis list.set_map set_mset_mset)
  then show ?thesis by (auto simp: heap_member_def find_index_None)
qed

lemma timer_queued:
  assumes "hsq.timer_ok K (tm, s)"
  shows "(tm_status tm = TIMER_PENDING \<longleftrightarrow> heap_member (tm_event tm) (sc_queue s) \<noteq> None) \<and>
    (tm_status tm = TIMER_PENDING \<longleftrightarrow> 0 < ev_uid (sc_events s (tm_event tm)))"
  using assms heap_member_rep by (fastforce simp: hsq.timer_ok_def hsq.agree_def numbered_def)

lemma timer_reach_heap:
  assumes "(timer_step heap_ops)\<^sup>*\<^sup>* (new_timer e h, new_sched new_heap) c"
    and "0 \<le> sc_uid (snd c)" and "sc_uid (snd c) \<le> 2 ^ 32"
  shows "hsq.timer_ok (2 ^ 32) c"
proof -
  have "hsq.agree (2 ^ 32) (new_sched new_heap) (new_sched [])"
    using heap_rep_new heap_room_new
    by (simp add: hsq.agree_def new_sched_def numbered_def new_event_def)
  then have "hsq.timer_ok (2 ^ 32) (new_timer e h, new_sched new_heap)"
    by (auto simp: hsq.timer_ok_def new_timer_def new_sched_def)
  then show ?thesis using hsq.timer_reach_ok [OF assms(1)] assms(2,3) by blast
qed

text \<open>
  C19. A timer is pending exactly when its event is in the queue. Whatever sequence of
  operations a timer goes through on a heap scheduler (its own calls, its expiry with any calls
  made there, and the scheduling, cancelling and dispatch of other events), its status is
  \<open>TIMER_PENDING\<close> just when its event is in the heap, once; so \<open>resched\<close> never
  aborts, and leaves the event due \<open>d\<close> from now.
\<close>

theorem timer_pending_iff_queued:
  assumes "(timer_step heap_ops)\<^sup>*\<^sup>* (new_timer e h, new_sched new_heap) (tm, s)"
    and "0 \<le> sc_uid s" and "sc_uid s < 2 ^ 32"
  shows "(tm_status tm = TIMER_PENDING \<longleftrightarrow> heap_member (tm_event tm) (sc_queue s) \<noteq> None) \<and>
    (tm_status tm = TIMER_PENDING \<longleftrightarrow> 0 < ev_uid (sc_events s (tm_event tm))) \<and>
    (\<exists>s'. timer_resched heap_ops d (tm, s) = Inr (tm\<lparr>tm_status := TIMER_PENDING\<rparr>, s') \<and>
       ev_time (sc_events s' (tm_event tm)) = sc_clock s + d \<and>
       heap_member (tm_event tm) (sc_queue s') \<noteq> None)"
proof -
  from timer_reach_heap [OF assms(1)] assms(2,3) have ok: "hsq.timer_ok (2 ^ 32) (tm, s)" by simp
  obtain s' where s': "timer_resched heap_ops d (tm, s) = Inr (tm\<lparr>tm_status := TIMER_PENDING\<rparr>, s')"
    "ev_time (sc_events s' (tm_event tm)) = sc_clock s + d"
    "hsq.timer_ok (2 ^ 32) (tm\<lparr>tm_status := TIMER_PENDING\<rparr>, s')"
    using hsq.timer_resched_ok [OF ok assms(3)] by auto
  then show ?thesis using timer_queued [OF ok] timer_queued [OF s'(3)] by auto
qed

theorem timer_pending_iff_queued_witness:
  "\<exists>s s'. timer_do heap_ops (T_Resched 2) (new_timer 5 9, new_sched new_heap) =
     Inr ((new_timer 5 9)\<lparr>tm_status := TIMER_PENDING\<rparr>, s) \<and>
   heap_member 5 (sc_queue s) \<noteq> None \<and>
   timer_resched heap_ops 3 ((new_timer 5 9)\<lparr>tm_status := TIMER_PENDING\<rparr>, s) =
     Inr ((new_timer 5 9)\<lparr>tm_status := TIMER_PENDING\<rparr>, s') \<and> ev_time (sc_events s' 5) = 3"
proof -
  obtain s where s: "timer_do heap_ops (T_Resched 2) (new_timer 5 9, new_sched new_heap) =
      Inr ((new_timer 5 9)\<lparr>tm_status := TIMER_PENDING\<rparr>, s)" and u: "sc_uid s = 2" and c: "sc_clock s = 0"
    by (simp add: timer_resched_def sched_event_def schedule_def new_timer_def new_sched_def new_event_def next_uid_def Let_def heap_ops_def)
  have "(timer_step heap_ops)\<^sup>*\<^sup>* (new_timer 5 9, new_sched new_heap) ((new_timer 5 9)\<lparr>tm_status := TIMER_PENDING\<rparr>, s)"
    using timer_step.call [OF s] by (rule r_into_rtranclp)
  from timer_pending_iff_queued [OF this, of 3] u c s show ?thesis by (auto simp: new_timer_def)
qed

end
