(* ===== verification/CArith.thy ===== *)
theory CArith
  imports Prelude
begin

section \<open>Arithmetic of C\<close>

text \<open>
  The conversions and operators of C whose meaning differs from those of HOL, and the states
  of the Quick-Start header, which sender and sink share.
\<close>

text \<open>The conversion of a \<open>double\<close> to \<open>int\<close>, towards zero.\<close>

definition c_trunc :: "real \<Rightarrow> int" where
  "c_trunc x = (if 0 \<le> x then \<lfloor>x\<rfloor> else \<lceil>x\<rceil>)"

text \<open>Division towards zero and its remainder, which has the sign of the first argument.\<close>

definition c_quot :: "int \<Rightarrow> int \<Rightarrow> int" where
  "c_quot x y = sgn x * sgn y * (\<bar>x\<bar> div \<bar>y\<bar>)"

definition c_div :: "int \<Rightarrow> int \<Rightarrow> int res" where
  "c_div x y = (if y = 0 then Inl Div_Zero else Inr (c_quot x y))"

definition c_mod :: "int \<Rightarrow> int \<Rightarrow> int" where
  "c_mod x y = (if 0 \<le> x then x mod \<bar>y\<bar> else - ((- x) mod \<bar>y\<bar>))"

text \<open>\<open>fmod\<close>.\<close>

definition c_fmod :: "real \<Rightarrow> real \<Rightarrow> real" where
  "c_fmod x y = x - y * of_int (c_trunc (x / y))"

text \<open>\<open>pow\<close> for a base that is not negative.\<close>

definition c_pow :: "real \<Rightarrow> real \<Rightarrow> real" where
  "c_pow x y = (if y = 0 then 1 else x powr y)"

datatype qs_state = QS_DISABLE | QS_REQUEST | QS_RESPONSE

end
