(* ===== verification/CalendarQueue.thy ===== *)
theory CalendarQueue
  imports Scheduler CArith
begin

section \<open>The calendar queue\<close>

text \<open>
  \<open>CalendarScheduler\<close> of common/scheduler.h and common/scheduler.cc, the scheduler that
  the simulator uses by default. An event is hashed by its time into one of \<open>nbuckets_\<close>
  days of width \<open>width_\<close>; each bucket is a doubly linked ring, here the list of its events
  from \<open>list_\<close> on, whose last element is the one that \<open>list_->prev_\<close> points to. The
  queue adapts the number of buckets and their width to what it holds. Its sizes and counters
  are integers without overflow, its times real numbers. The loop that looks for the next
  event has fuel for one round of the buckets.
\<close>

subsection \<open>State\<close>

record calendar =
  cl_min_bin_width :: real
  cl_adjust :: nat
  cl_time_to_newwidth :: nat
  cl_head_search :: nat
  cl_insert_search :: nat
  cl_round_num :: int
  cl_gap_num :: int
  cl_last_time :: real
  cl_avg_gap :: real
  cl_width :: real
  cl_diff0 :: real
  cl_diff1 :: real
  cl_diff2 :: real
  cl_stat_qsize :: int
  cl_nbuckets :: int
  cl_lastbucket :: int
  cl_top_threshold :: int
  cl_bot_threshold :: int
  cl_buckets :: "(nat list \<times> int) list"
  cl_qsize :: int
  cl_clock :: real

definition cal_hash :: "calendar \<Rightarrow> real \<Rightarrow> int" where
  "cal_hash c t = c_trunc (c_fmod (t / cl_width c) (of_int (cl_nbuckets c)))"

definition reinit :: "int \<Rightarrow> real \<Rightarrow> real \<Rightarrow> calendar \<Rightarrow> calendar" where
  "reinit nbuck bwidth start c =
     (let c1 = c\<lparr>cl_buckets := replicate (nat nbuck) ([], 0), cl_width := bwidth, cl_nbuckets := nbuck,
                cl_qsize := 0, cl_stat_qsize := 0\<rparr> in
      c1\<lparr>cl_lastbucket := cal_hash c1 start,
         cl_diff0 := bwidth * of_int nbuck / 2, cl_diff1 := bwidth * of_int nbuck / 2 + bwidth,
         cl_diff2 := bwidth * of_int nbuck,
         cl_bot_threshold := drop_bit 1 nbuck - 2, cl_top_threshold := push_bit 1 nbuck\<rparr>)"

text \<open>The constructor; without adjustment what it leaves uninitialised is never used.\<close>

definition new_calendar :: "nat \<Rightarrow> real \<Rightarrow> calendar" where
  "new_calendar adj minw = reinit 4 1 0
     \<lparr>cl_min_bin_width = minw, cl_adjust = adj, cl_time_to_newwidth = adj, cl_head_search = 0, cl_insert_search = 0,
      cl_round_num = 0, cl_gap_num = 0, cl_last_time = -2, cl_avg_gap = -2, cl_width = 0, cl_diff0 = 0, cl_diff1 = 0,
      cl_diff2 = 0, cl_stat_qsize = 0, cl_nbuckets = 0, cl_lastbucket = 0, cl_top_threshold = 0,
      cl_bot_threshold = 0, cl_buckets = [], cl_qsize = 0, cl_clock = 0\<rparr>"

subsection \<open>Insertion\<close>

text \<open>
  Before the events of the same time: the bucket then, and the event that follows. This is
  how a bucket is refilled from its end, so that the order of equal times is kept.
\<close>

definition link_before :: "events \<Rightarrow> nat \<Rightarrow> nat list \<Rightarrow> nat list \<times> nat" where
  "link_before evs e xs =
     (if ev_time (evs e) > ev_time (evs (last xs)) then (xs @ [e], hd xs)
      else let as = dropWhile (\<lambda>p. ev_time (evs e) > ev_time (evs p)) xs in
        (takeWhile (\<lambda>p. ev_time (evs e) > ev_time (evs p)) xs @ e # as, hd as))"

definition cal_insert2 :: "events \<Rightarrow> nat \<Rightarrow> calendar \<Rightarrow> calendar res" where
  "cal_insert2 evs e c =
     (let i = cal_hash c (ev_time (evs e)) in
      rbind (vec_get (cl_buckets c) i) (\<lambda>(xs, n).
        let (ys, uniq) =
              (if xs = [] then ([e], True)
               else case link_before evs e xs of (ys, next) \<Rightarrow> (ys, ev_time (evs next) \<noteq> ev_time (evs e))) in
        rbind (vec_upd (cl_buckets c) i (\<lambda>_. (ys, if uniq then n + 1 else n))) (\<lambda>bs.
          Inr (c\<lparr>cl_buckets := bs, cl_stat_qsize := (if uniq then cl_stat_qsize c + 1 else cl_stat_qsize c),
                 cl_qsize := cl_qsize c + 1\<rparr>))))"

subsection \<open>The width and the number of buckets\<close>

text \<open>The index of the bucket with the most different times.\<close>

definition fullest :: "(nat list \<times> int) list \<Rightarrow> int" where
  "fullest bs = fold (\<lambda>i m. if snd (bs ! nat i) > snd (bs ! nat m) then i else m) [1 .. int (length bs) - 1] 0"

definition sample_width :: "events \<Rightarrow> int \<Rightarrow> calendar \<Rightarrow> real res" where
  "sample_width evs newsize c =
     rbind (vec_get (cl_buckets c) (fullest (cl_buckets c))) (\<lambda>(xs, nsamples).
       if nsamples \<le> 4 then Inr (cl_width c)
       else if xs = [] then Inl Null_Deref
       else let nw = ev_time (evs (last xs)) - ev_time (evs (hd xs)) in
         if \<not> nw > 0 then Inl Aborted
         else Inr (nw / of_int (if newsize < nsamples then newsize else nsamples) * 4))"

definition newwidth :: "events \<Rightarrow> int \<Rightarrow> calendar \<Rightarrow> (real \<times> calendar) res" where
  "newwidth evs newsize c =
     (let c1 = (if cl_adjust c \<noteq> 0 then c\<lparr>cl_time_to_newwidth := cl_adjust c\<rparr> else c) in
      if cl_adjust c \<noteq> 0 \<and> cl_avg_gap c > 0 then Inr (cl_avg_gap c * 4, c1)
      else rbind (sample_width evs newsize c1) (\<lambda>w. Inr (w, c1)))"

text \<open>The events move to new buckets, each old bucket from its end.\<close>

definition rehash :: "events \<Rightarrow> int \<Rightarrow> real \<Rightarrow> real \<Rightarrow> calendar \<Rightarrow> calendar res" where
  "rehash evs newsize bwidth start c =
     rbind (rfold (\<lambda>(xs, _). rfold (cal_insert2 evs) (rev xs)) (cl_buckets c) (reinit newsize bwidth start c)) (\<lambda>c1.
       Inr (c1\<lparr>cl_head_search := 0, cl_insert_search := 0, cl_round_num := 0\<rparr>))"

definition snoopy_width :: "calendar \<Rightarrow> real" where
  "snoopy_width c =
     (let b = (if cl_head_search c \<noteq> 0 then of_nat (cl_head_search c) else 1) in
      sqrt (if cl_insert_search c \<noteq> 0 then b / of_nat (cl_insert_search c) else b) * cl_width c)"

definition cal_resize :: "events \<Rightarrow> int \<Rightarrow> real \<Rightarrow> calendar \<Rightarrow> calendar res" where
  "cal_resize evs newsize start c =
     (if newsize = cl_nbuckets c then
        if snoopy_width c < cl_min_bin_width c then
          if cl_time_to_newwidth c > 0 then
            Inr (c\<lparr>cl_time_to_newwidth := cl_time_to_newwidth c - 1, cl_head_search := 0, cl_insert_search := 0,
                   cl_round_num := 0\<rparr>)
          else rbind (newwidth evs newsize c) (\<lambda>(w, c1). rehash evs newsize w start c1)
        else rehash evs newsize (snoopy_width c) start c
      else rbind (newwidth evs newsize c) (\<lambda>(w, c1). rehash evs (if newsize < 4 then 4 else newsize) w start c1))"

text \<open>After the events of the same time: the bucket, whether the time is new, and the steps of the search.\<close>

definition link_after :: "events \<Rightarrow> nat \<Rightarrow> nat list \<Rightarrow> nat list \<times> bool \<times> nat" where
  "link_after evs e xs =
     (if ev_time (evs e) < ev_time (evs (hd xs)) then (e # xs, True, 0)
      else
        let k = length (takeWhile (\<lambda>p. ev_time (evs e) < ev_time (evs p)) (rev xs)); m = length xs - k in
        (take m xs @ e # drop m xs, ev_time (evs (xs ! (m - 1))) < ev_time (evs e), k))"

definition cal_insert :: "events \<Rightarrow> nat \<Rightarrow> calendar \<Rightarrow> calendar res" where
  "cal_insert evs e c0 =
     (let t = ev_time (evs e);
          c = (if cl_clock c0 > t then c0\<lparr>cl_clock := t, cl_lastbucket := cal_hash c0 t\<rparr> else c0);
          i = cal_hash c t in
      rbind (vec_get (cl_buckets c) i) (\<lambda>(xs, n).
        let (ys, uniq, steps) = (if xs = [] then ([e], True, 0) else case link_after evs e xs of (ys, u, k) \<Rightarrow> (ys, u, k + 1)) in
        rbind (vec_upd (cl_buckets c) i (\<lambda>_. (ys, if uniq then n + 1 else n))) (\<lambda>bs.
          let c1 = c\<lparr>cl_buckets := bs, cl_stat_qsize := (if uniq then cl_stat_qsize c + 1 else cl_stat_qsize c),
                     cl_qsize := cl_qsize c + 1, cl_insert_search := cl_insert_search c + steps\<rparr> in
          if cl_stat_qsize c1 > cl_top_threshold c1 then cal_resize evs (push_bit 1 (cl_nbuckets c1)) (cl_clock c1) c1
          else Inr c1)))"

subsection \<open>The next event\<close>

text \<open>One use of the macro \<open>CAL_DEQUEUE\<close>: an event within the year, or the least one so far.\<close>

datatype probe = Hit int nat nat | Go int "(int \<times> nat) option" nat

definition cal_probe :: "events \<Rightarrow> calendar \<Rightarrow> real \<Rightarrow> int \<Rightarrow> (int \<times> nat) option \<Rightarrow> nat \<Rightarrow> probe res" where
  "cal_probe evs c diff i m n =
     (let i' = (if i + 1 = cl_nbuckets c then 0 else i + 1) in
      rbind (vec_get (cl_buckets c) i) (\<lambda>(xs, _).
        Inr (case xs of
               [] \<Rightarrow> Go i' m (n + 1)
             | e # _ \<Rightarrow>
                 if ev_time (evs e) - cl_clock c < diff then Hit i e (n + 1)
                 else if m = None \<or> ev_time (evs (snd (the m))) > ev_time (evs e) then Go i' (Some (i, e)) (n + 1)
                 else Go i' m (n + 1))))"

text \<open>The bucket that is left is not tested; the least event is taken.\<close>

definition cal_last :: "events \<Rightarrow> calendar \<Rightarrow> int \<Rightarrow> (int \<times> nat) option \<Rightarrow> nat \<Rightarrow> (int \<times> nat \<times> nat) res" where
  "cal_last evs c i m n =
     rbind (vec_get (cl_buckets c) i) (\<lambda>(xs, _).
       case m of
         None \<Rightarrow> (case xs of [] \<Rightarrow> Inl Null_Deref | e # _ \<Rightarrow> Inr (i, e, n))
       | Some (j, f) \<Rightarrow>
           (case xs of
              [] \<Rightarrow> Inr (j, f, n)
            | e # _ \<Rightarrow> if ev_time (evs f) < ev_time (evs e) then Inr (j, f, n) else Inr (i, e, n)))"

fun cal_scan :: "nat \<Rightarrow> events \<Rightarrow> calendar \<Rightarrow> int \<Rightarrow> int \<Rightarrow> (int \<times> nat) option \<Rightarrow> nat \<Rightarrow> (int \<times> nat \<times> nat) res" where
  "cal_scan 0 evs c dec i m n = Inl Diverges"
| "cal_scan (Suc k) evs c dec i m n =
     (if i = dec then cal_last evs c i m n
      else rbind (cal_probe evs c (cl_diff2 c) i m n) (\<lambda>r.
        case r of Hit l e n' \<Rightarrow> Inr (l, e, n') | Go i' m' n' \<Rightarrow> cal_scan k evs c dec i' m' n'))"

definition cal_find :: "events \<Rightarrow> calendar \<Rightarrow> (int \<times> nat \<times> nat) res" where
  "cal_find evs c =
     (let dec = (if cl_lastbucket c \<noteq> 0 then cl_lastbucket c - 1 else cl_nbuckets c - 1) in
      rbind (cal_probe evs c (cl_diff0 c) (cl_lastbucket c) None 0) (\<lambda>r0.
        case r0 of Hit l e n \<Rightarrow> Inr (l, e, n)
        | Go i1 m1 n1 \<Rightarrow>
            rbind (cal_probe evs c (cl_diff1 c) i1 m1 n1) (\<lambda>r1.
              case r1 of Hit l e n \<Rightarrow> Inr (l, e, n)
              | Go i2 m2 n2 \<Rightarrow> cal_scan (nat (cl_nbuckets c)) evs c dec i2 m2 n2)))"

definition cal_head :: "events \<Rightarrow> calendar \<Rightarrow> (nat option \<times> calendar) res" where
  "cal_head evs c =
     (if cl_qsize c = 0 then Inr (None, c)
      else rbind (cal_find evs c) (\<lambda>(l, e, n).
        Inr (Some e, c\<lparr>cl_head_search := cl_head_search c + n, cl_lastbucket := l, cl_clock := ev_time (evs e)\<rparr>)))"

text \<open>The width is reconsidered once in a window of as many departures as there are events.\<close>

definition cal_adapt :: "events \<Rightarrow> nat \<Rightarrow> calendar \<Rightarrow> calendar res" where
  "cal_adapt evs e c =
     (if cl_adjust c = 0 then Inr c
      else if cl_last_time c < 0 then Inr (c\<lparr>cl_last_time := ev_time (evs e)\<rparr>)
      else
        let c1 = c\<lparr>cl_gap_num := cl_gap_num c + 1\<rparr> in
        if cl_gap_num c1 \<ge> cl_qsize c1 then
          let c2 = c1\<lparr>cl_avg_gap := (ev_time (evs e) - cl_last_time c1) / of_int (cl_gap_num c1), cl_gap_num := 0,
                      cl_last_time := ev_time (evs e), cl_round_num := cl_round_num c1 + 1\<rparr> in
          if cl_round_num c2 > 20 \<and>
             (cl_head_search c2 > push_bit 1 (cl_insert_search c2) \<or> cl_insert_search c2 > push_bit 1 (cl_head_search c2)) then
            rbind (cal_resize evs (cl_nbuckets c2) (cl_clock c2) c2) (\<lambda>c3. Inr (c3\<lparr>cl_round_num := 0\<rparr>))
          else if cl_round_num c2 > 100 then Inr (c2\<lparr>cl_round_num := 0, cl_head_search := 0, cl_insert_search := 0\<rparr>)
          else Inr c2
        else Inr c1)"

definition cal_unlink_head :: "events \<Rightarrow> nat \<Rightarrow> calendar \<Rightarrow> calendar res" where
  "cal_unlink_head evs e c =
     (let l = cl_lastbucket c in
      rbind (vec_get (cl_buckets c) l) (\<lambda>(xs, n).
        let uniq = (tl xs = [] \<or> ev_time (evs (hd (tl xs))) \<noteq> ev_time (evs e)) in
        rbind (vec_upd (cl_buckets c) l (\<lambda>_. (tl xs, if uniq then n - 1 else n))) (\<lambda>bs.
          Inr (c\<lparr>cl_buckets := bs, cl_stat_qsize := (if uniq then cl_stat_qsize c - 1 else cl_stat_qsize c),
                 cl_qsize := cl_qsize c - 1\<rparr>))))"

definition cal_deque :: "events \<Rightarrow> calendar \<Rightarrow> (nat option \<times> calendar) res" where
  "cal_deque evs c =
     rbind (cal_head evs c) (\<lambda>(h, c1).
       case h of
         None \<Rightarrow> Inr (None, c1)
       | Some e \<Rightarrow>
           rbind (cal_adapt evs e c1) (\<lambda>c2.
             rbind (cal_unlink_head evs e c2) (\<lambda>c3.
               rbind (if cl_stat_qsize c3 < cl_bot_threshold c3
                      then cal_resize evs (drop_bit 1 (cl_nbuckets c3)) (cl_clock c3) c3 else Inr c3) (\<lambda>c4.
                 Inr (Some e, c4)))))"

subsection \<open>Cancellation and lookup\<close>

text \<open>
  The event is unlinked from its ring; its neighbours tell whether its time was unique. The
  assertions on the counts and the list are kept.
\<close>

definition ring_unique :: "events \<Rightarrow> nat \<Rightarrow> nat list \<Rightarrow> bool" where
  "ring_unique evs e xs =
     (let k = length (takeWhile (\<lambda>p. p \<noteq> e) xs); n = length xs in
      n = 1 \<or> (ev_time (evs (xs ! ((k + 1) mod n))) \<noteq> ev_time (evs e) \<and>
               ev_time (evs (xs ! ((k + n - 1) mod n))) \<noteq> ev_time (evs e)))"

definition cal_cancel :: "events \<Rightarrow> nat \<Rightarrow> calendar \<Rightarrow> (events \<times> calendar) res" where
  "cal_cancel evs e c =
     (if ev_uid (evs e) \<le> 0 then Inr (evs, c)
      else
        let i = cal_hash c (ev_time (evs e)) in
        rbind (vec_get (cl_buckets c) i) (\<lambda>(xs, n).
          if e \<notin> set xs then Inl Null_Deref
          else
            let uniq = ring_unique evs e xs; n' = (if uniq then n - 1 else n);
                st = (if uniq then cl_stat_qsize c - 1 else cl_stat_qsize c) in
            if uniq \<and> (st < 0 \<or> n' < 0) then Inl Aborted
            else if n' = 0 \<and> remove1 e xs \<noteq> [] then Inl Aborted
            else rbind (vec_upd (cl_buckets c) i (\<lambda>_. (remove1 e xs, n'))) (\<lambda>bs.
              Inr (set_uid e (- ev_uid (evs e)) evs,
                   c\<lparr>cl_buckets := bs, cl_stat_qsize := st, cl_qsize := cl_qsize c - 1\<rparr>))))"

definition cal_lookup :: "events \<Rightarrow> int \<Rightarrow> calendar \<Rightarrow> nat option" where
  "cal_lookup evs u c = find (\<lambda>p. ev_uid (evs p) = u) (concat (map fst (cl_buckets c)))"

definition cal_ops :: "calendar event_ops" where
  "cal_ops = \<lparr>op_insert = cal_insert, op_cancel = cal_cancel, op_lookup = cal_lookup, op_deque = cal_deque\<rparr>"

subsection \<open>Days\<close>

definition day :: "calendar \<Rightarrow> real \<Rightarrow> int" where
  "day c t = \<lfloor>t / cl_width c\<rfloor>"

text \<open>The fields that the width and the number of buckets determine.\<close>

definition frame_ok :: "calendar \<Rightarrow> bool" where
  "frame_ok c \<longleftrightarrow> 0 < cl_width c \<and> 4 \<le> cl_nbuckets c \<and> length (cl_buckets c) = nat (cl_nbuckets c) \<and>
     cl_diff0 c = cl_width c * of_int (cl_nbuckets c) / 2 \<and>
     cl_diff1 c = cl_width c * of_int (cl_nbuckets c) / 2 + cl_width c \<and>
     cl_diff2 c = cl_width c * of_int (cl_nbuckets c) \<and> 0 \<le> cl_clock c \<and>
     cl_bot_threshold c = drop_bit 1 (cl_nbuckets c) - 2 \<and> cl_top_threshold c = push_bit 1 (cl_nbuckets c)"

lemma frame_okD:
  assumes "frame_ok c"
  shows "0 < cl_width c" "4 \<le> cl_nbuckets c" "length (cl_buckets c) = nat (cl_nbuckets c)" "0 \<le> cl_clock c"
  using assms by (simp_all add: frame_ok_def)

lemma cal_hash_day:
  assumes "0 < cl_width c" "0 < cl_nbuckets c" "0 \<le> t"
  shows "cal_hash c t = day c t mod cl_nbuckets c"
proof -
  let ?x = "t / cl_width c" and ?n = "cl_nbuckets c"
  have "0 \<le> ?x / of_int ?n" using assms by simp
  then have "c_trunc (?x / of_int ?n) = \<lfloor>?x / of_int ?n\<rfloor>" by (simp only: c_trunc_def if_True)
  also have "\<dots> = \<lfloor>?x\<rfloor> div ?n" by (rule floor_divide_real_eq_div) (use assms(2) in simp)
  finally have tr: "c_trunc (?x / of_int ?n) = \<lfloor>?x\<rfloor> div ?n" .
  have f: "\<lfloor>c_fmod ?x (of_int ?n)\<rfloor> = \<lfloor>?x\<rfloor> mod ?n"
  proof -
    have "c_fmod ?x (of_int ?n) = ?x - of_int (?n * (\<lfloor>?x\<rfloor> div ?n))" by (simp only: c_fmod_def tr of_int_mult)
    then have "\<lfloor>c_fmod ?x (of_int ?n)\<rfloor> = \<lfloor>?x\<rfloor> - ?n * (\<lfloor>?x\<rfloor> div ?n)" by (simp only: floor_diff_of_int)
    then show ?thesis by (simp add: minus_mult_div_eq_mod)
  qed
  then have "0 \<le> \<lfloor>c_fmod ?x (of_int ?n)\<rfloor>" using assms(2) by simp
  then have "c_trunc (c_fmod ?x (of_int ?n)) = \<lfloor>c_fmod ?x (of_int ?n)\<rfloor>" by (simp add: c_trunc_def)
  then show ?thesis using f by (simp add: cal_hash_def day_def)
qed

lemma day_mono: "0 < cl_width c \<Longrightarrow> s \<le> t \<Longrightarrow> day c s \<le> day c t"
  unfolding day_def by (intro floor_mono divide_right_mono) simp_all

lemma day_bounds:
  assumes "0 < cl_width c"
  shows "of_int (day c t) * cl_width c \<le> t" and "t < (of_int (day c t) + 1) * cl_width c"
proof -
  have "of_int (day c t) \<le> t / cl_width c" "t / cl_width c < of_int (day c t) + 1"
    by (simp_all add: day_def)
  then show "of_int (day c t) * cl_width c \<le> t" and "t < (of_int (day c t) + 1) * cl_width c"
    using assms by (simp_all add: field_simps)
qed

lemma hash_range:
  assumes "frame_ok c" "0 \<le> t"
  shows "0 \<le> cal_hash c t" "cal_hash c t < cl_nbuckets c" "nat (cal_hash c t) < length (cl_buckets c)"
proof -
  show "0 \<le> cal_hash c t" "cal_hash c t < cl_nbuckets c" using frame_okD [OF assms(1)] assms(2) by (simp_all add: cal_hash_day)
  then show "nat (cal_hash c t) < length (cl_buckets c)" using frame_okD [OF assms(1)] by simp
qed

subsection \<open>The buckets are the pending events, by their hash\<close>

abbreviation tm :: "events \<Rightarrow> nat \<Rightarrow> real" where
  "tm evs p \<equiv> ev_time (evs p)"

definition bucket_of :: "events \<Rightarrow> calendar \<Rightarrow> nat list \<Rightarrow> nat \<Rightarrow> nat list" where
  "bucket_of evs c xs i = filter (\<lambda>p. cal_hash c (tm evs p) = int i) xs"

definition n_times :: "events \<Rightarrow> nat list \<Rightarrow> int" where
  "n_times evs xs = int (card (tm evs ` set xs))"

definition holds :: "events \<Rightarrow> calendar \<Rightarrow> nat list \<Rightarrow> bool" where
  "holds evs c xs \<longleftrightarrow> frame_ok c \<and> cl_qsize c = int (length xs) \<and> cl_stat_qsize c = n_times evs xs \<and>
     (\<forall>i < length (cl_buckets c). cl_buckets c ! i = (bucket_of evs c xs i, n_times evs (bucket_of evs c xs i)))"

definition cal_rep :: "events \<Rightarrow> calendar \<Rightarrow> nat list \<Rightarrow> bool" where
  "cal_rep evs c xs \<longleftrightarrow> holds evs c xs \<and> distinct xs \<and> sorted_wrt (\<lambda>p q. tm evs p \<le> tm evs q) xs \<and>
     (\<forall>p\<in>set xs. cl_clock c \<le> tm evs p) \<and> cl_lastbucket c = cal_hash c (cl_clock c)"

lemma bucket_of_nth: "holds evs c xs \<Longrightarrow> i < length (cl_buckets c) \<Longrightarrow>
    cl_buckets c ! i = (bucket_of evs c xs i, n_times evs (bucket_of evs c xs i))"
  by (simp add: holds_def)

lemma bucket_get:
  assumes "holds evs c xs" "0 \<le> t"
  shows "vec_get (cl_buckets c) (cal_hash c t) =
    Inr (bucket_of evs c xs (nat (cal_hash c t)), n_times evs (bucket_of evs c xs (nat (cal_hash c t))))"
proof -
  have f: "frame_ok c" using assms(1) by (simp add: holds_def)
  show ?thesis
    using hash_range [OF f assms(2)] bucket_of_nth [OF assms(1), of "nat (cal_hash c t)"] by (simp add: vec_get_def)
qed

lemma bucket_upd:
  assumes "frame_ok c" "0 \<le> t"
  shows "vec_upd (cl_buckets c) (cal_hash c t) (\<lambda>_. b) = Inr ((cl_buckets c)[nat (cal_hash c t) := b])"
  using hash_range [OF assms] by (simp add: vec_upd_def)

lemma n_times_Cons: "n_times evs (e # xs) = (if tm evs e \<in> tm evs ` set xs then n_times evs xs else n_times evs xs + 1)"
  by (simp add: n_times_def card_insert_if)

text \<open>Adding an event adds it to its bucket, and a new time to the counts.\<close>

lemma holds_add:
  assumes "holds evs c xs" "0 \<le> tm evs e" "set zs = insert e (set xs)" "length zs = Suc (length xs)"
    and "\<And>i. int i \<noteq> cal_hash c (tm evs e) \<Longrightarrow> bucket_of evs c zs i = bucket_of evs c xs i"
    and "ys = bucket_of evs c zs (nat (cal_hash c (tm evs e)))"
    and "uniq \<longleftrightarrow> tm evs e \<notin> tm evs ` set xs"
    and "n = n_times evs (bucket_of evs c xs (nat (cal_hash c (tm evs e))))"
  shows "holds evs (c\<lparr>cl_buckets := (cl_buckets c)[nat (cal_hash c (tm evs e)) := (ys, if uniq then n + 1 else n)],
      cl_stat_qsize := (if uniq then cl_stat_qsize c + 1 else cl_stat_qsize c), cl_qsize := cl_qsize c + 1\<rparr>) zs"
proof -
  let ?h = "cal_hash c (tm evs e)" and ?i = "nat (cal_hash c (tm evs e))"
  let ?c = "c\<lparr>cl_buckets := (cl_buckets c)[?i := (ys, if uniq then n + 1 else n)],
      cl_stat_qsize := (if uniq then cl_stat_qsize c + 1 else cl_stat_qsize c), cl_qsize := cl_qsize c + 1\<rparr>"
  have f: "frame_ok c" using assms(1) by (simp add: holds_def)
  note h = hash_range [OF f assms(2)]
  have hs: "cal_hash ?c t = cal_hash c t" for t by (simp add: cal_hash_def)
  have b: "bucket_of evs ?c ys i = bucket_of evs c ys i" for ys i by (simp only: bucket_of_def hs)
  have total: "n_times evs zs = (if uniq then n_times evs xs + 1 else n_times evs xs)"
    unfolding n_times_def assms(3,7) by (simp add: card_insert_if)
  have "set ys = insert e (set (bucket_of evs c xs ?i))" using assms(3,6) h(1) by (auto simp: bucket_of_def)
  moreover have "tm evs e \<in> tm evs ` set (bucket_of evs c xs ?i) \<longleftrightarrow> tm evs e \<in> tm evs ` set xs"
  proof
    assume "tm evs e \<in> tm evs ` set xs"
    then obtain q where q: "q \<in> set xs" "tm evs q = tm evs e" by auto
    then have "q \<in> set (bucket_of evs c xs ?i)" using h(1) by (simp add: bucket_of_def)
    then show "tm evs e \<in> tm evs ` set (bucket_of evs c xs ?i)" using q(2) by (metis imageI)
  qed (auto simp: bucket_of_def)
  ultimately have part: "n_times evs ys = (if uniq then n + 1 else n)"
    unfolding n_times_def assms(7,8) by (simp add: card_insert_if)
  have "cl_buckets ?c ! i = (bucket_of evs c zs i, n_times evs (bucket_of evs c zs i))" if "i < length (cl_buckets c)" for i
  proof (cases "i = ?i")
    case True
    then show ?thesis using that part assms(6) by simp
  next
    case False
    then have "int i \<noteq> ?h" by auto
    then show ?thesis using False that assms(5) bucket_of_nth [OF assms(1) that] by simp
  qed
  moreover have "frame_ok ?c" using f by (simp add: frame_ok_def)
  ultimately show ?thesis using assms(1,4) total b by (simp add: holds_def)
qed

subsection \<open>Insertion into a bucket\<close>

abbreviation in_order :: "events \<Rightarrow> nat list \<Rightarrow> bool" where
  "in_order evs xs \<equiv> sorted_wrt (\<lambda>p q. tm evs p \<le> tm evs q) xs"

lemma in_order_filter: "in_order evs xs \<Longrightarrow> in_order evs (filter P xs)"
  by (rule sorted_wrt_filter)

lemma filter_place:
  assumes "in_order evs xs"
  shows "filter P (place (tm evs) e xs) = (if P e then place (tm evs) e (filter P xs) else filter P xs)"
  using assms
proof (induction xs)
  case Nil
  then show ?case by simp
next
  case (Cons x xs)
  show ?case
  proof (cases "tm evs e < tm evs x")
    case True
    then have "\<forall>y\<in>set xs. tm evs e < tm evs y" using Cons.prems by force
    then have "\<forall>y\<in>set (filter P xs). tm evs e < tm evs y" by simp
    then have "place (tm evs) e (filter P xs) = e # filter P xs" by (cases "filter P xs") auto
    then show ?thesis using True by simp
  next
    case False
    then show ?thesis using Cons by simp
  qed
qed

lemma place_split:
  assumes "\<forall>p\<in>set as. f p \<le> f e" "\<forall>p\<in>set bs. f e < f p"
  shows "place f e (as @ bs) = as @ e # bs"
  using assms
proof (induction as)
  case Nil
  then show ?case by (cases bs) auto
qed (auto simp: not_less)

lemma in_order_split:
  fixes t :: real
  assumes "in_order evs xs"
  defines "k \<equiv> length (takeWhile (\<lambda>p. t < tm evs p) (rev xs))"
  shows "\<forall>p\<in>set (take (length xs - k) xs). tm evs p \<le> t" "\<forall>p\<in>set (drop (length xs - k) xs). t < tm evs p"
proof -
  let ?as = "takeWhile (\<lambda>p. t < tm evs p) (rev xs)" and ?bs = "dropWhile (\<lambda>p. t < tm evs p) (rev xs)"
  have eq: "xs = rev ?bs @ rev ?as" by (metis rev_append rev_rev_ident takeWhile_dropWhile_id)
  have lb: "length (rev ?bs) = length xs - k" using arg_cong [OF eq, of length] by (simp add: k_def)
  have "take (length xs - k) xs = rev ?bs" by (subst (2) eq, subst lb [symmetric]) simp
  moreover have "drop (length xs - k) xs = rev ?as" by (subst (2) eq, subst lb [symmetric]) simp
  moreover have "\<forall>p\<in>set ?as. t < tm evs p" by (auto dest: set_takeWhileD)
  moreover have "\<forall>p\<in>set ?bs. tm evs p \<le> t"
  proof (cases ?bs)
    case (Cons b bs)
    then have b: "tm evs b \<le> t" using hd_dropWhile [of "\<lambda>p. t < tm evs p" "rev xs"] by auto
    have "in_order evs (rev bs @ [b] @ rev ?as)" using assms(1) eq Cons by (metis append.assoc rev.simps(2))
    then have "\<forall>p\<in>set bs. tm evs p \<le> tm evs b" by (auto simp: sorted_wrt_append)
    then show ?thesis using Cons b by force
  next
    case Nil
    then show ?thesis by (simp only: list.set) simp
  qed
  ultimately show "\<forall>p\<in>set (take (length xs - k) xs). tm evs p \<le> t" "\<forall>p\<in>set (drop (length xs - k) xs). t < tm evs p"
    by simp_all
qed

lemma link_after_place:
  assumes "in_order evs xs" "xs \<noteq> []"
  shows "\<exists>k. link_after evs e xs = (place (tm evs) e xs, tm evs e \<notin> tm evs ` set xs, k)"
proof (cases "tm evs e < tm evs (hd xs)")
  case True
  then have "\<forall>p\<in>set xs. tm evs e < tm evs p" using assms by (cases xs) force+
  then have "tm evs e \<notin> tm evs ` set xs" by force
  then show ?thesis using True assms(2) by (cases xs) (auto simp: link_after_def)
next
  case False
  define m where "m = length xs - length (takeWhile (\<lambda>p. tm evs e < tm evs p) (rev xs))"
  note sp = in_order_split [OF assms(1), of "tm evs e", folded m_def]
  have eq: "xs = take m xs @ drop m xs" by simp
  have pl: "place (tm evs) e xs = take m xs @ e # drop m xs" using place_split [OF sp] by simp
  have "take m xs \<noteq> []"
  proof
    assume "take m xs = []"
    then have "drop m xs = xs" using eq by (metis append_Nil)
    then show False using sp(2) False assms(2) by (metis hd_in_set)
  qed
  then have m: "0 < m" "m \<le> length xs" by (auto simp: m_def)
  then have last: "xs ! (m - 1) = last (take m xs)" using last_conv_nth [OF \<open>take m xs \<noteq> []\<close>] by (simp add: min_def)
  have "tm evs (last (take m xs)) < tm evs e \<longleftrightarrow> tm evs e \<notin> tm evs ` set xs"
  proof
    assume lt: "tm evs (last (take m xs)) < tm evs e"
    have "in_order evs (butlast (take m xs) @ [last (take m xs)])"
      using \<open>take m xs \<noteq> []\<close> sorted_wrt_take [OF assms(1)] by simp
    then have "\<forall>p\<in>set (butlast (take m xs)). tm evs p \<le> tm evs (last (take m xs))" by (simp add: sorted_wrt_append)
    then have "\<forall>p\<in>set (take m xs). tm evs p < tm evs e"
      using lt \<open>take m xs \<noteq> []\<close> by (metis append_butlast_last_id in_set_butlastD order_le_less_trans set_append Un_iff list.set(1,2) empty_iff insert_iff)
    moreover have "set xs = set (take m xs) \<union> set (drop m xs)" by (metis eq set_append)
    ultimately show "tm evs e \<notin> tm evs ` set xs" using sp(2) by fastforce
  next
    assume "tm evs e \<notin> tm evs ` set xs"
    moreover have "last (take m xs) \<in> set (take m xs)" using \<open>take m xs \<noteq> []\<close> by simp
    ultimately show "tm evs (last (take m xs)) < tm evs e"
      using sp(1) by (metis in_set_takeD imageI order_le_imp_less_or_eq)
  qed
  then show ?thesis using False pl last by (auto simp: link_after_def Let_def m_def)
qed

lemma link_before_split:
  assumes "\<forall>p\<in>set as. tm evs p < tm evs e" "\<forall>p\<in>set bs. tm evs e \<le> tm evs p" "in_order evs bs" "as @ bs \<noteq> []"
  shows "\<exists>next. link_before evs e (as @ bs) = (as @ e # bs, next) \<and> (tm evs next \<noteq> tm evs e \<longleftrightarrow> tm evs e \<notin> tm evs ` set (as @ bs))"
proof (cases bs)
  case Nil
  then have "as \<noteq> []" using assms(4) by simp
  then have "last as \<in> set as" "hd as \<in> set as" by simp_all
  then show ?thesis using Nil assms(1) by (force simp: link_before_def)
next
  case (Cons b bs')
  have "last (as @ bs) \<in> set bs" using Cons by simp
  then have "\<not> tm evs e > tm evs (last (as @ bs))" using assms(2) by auto
  moreover have "takeWhile (\<lambda>p. tm evs e > tm evs p) (as @ bs) = as" "dropWhile (\<lambda>p. tm evs e > tm evs p) (as @ bs) = bs"
    using assms(1,2) Cons by (auto simp: takeWhile_append dropWhile_append)
  moreover have "tm evs b \<noteq> tm evs e \<longleftrightarrow> tm evs e \<notin> tm evs ` set (as @ bs)"
    using assms(1,2,3) Cons by force
  ultimately show ?thesis using Cons by (auto simp: link_before_def Let_def)
qed

subsection \<open>Refilling the buckets\<close>

text \<open>What the steps of the queue leave alone.\<close>

definition same_shape :: "calendar \<Rightarrow> calendar \<Rightarrow> bool" where
  "same_shape c c' \<longleftrightarrow> cl_width c' = cl_width c \<and> cl_nbuckets c' = cl_nbuckets c \<and> cl_clock c' = cl_clock c \<and>
     cl_lastbucket c' = cl_lastbucket c"

lemma same_shape_refl [simp]: "same_shape c c"
  by (simp add: same_shape_def)

lemma same_shape_trans: "same_shape a b \<Longrightarrow> same_shape b c \<Longrightarrow> same_shape a c"
  by (simp add: same_shape_def)

lemma same_shape_hash: "same_shape c c' \<Longrightarrow> cal_hash c' t = cal_hash c t"
  by (simp add: same_shape_def cal_hash_def)

lemma insert2_holds:
  assumes "holds evs c (filter Q (us @ e # vs))" "in_order evs (us @ e # vs)" "distinct (us @ e # vs)" "0 \<le> tm evs e" "\<not> Q e"
    and "\<forall>q\<in>set us. Q q \<longrightarrow> tm evs q \<noteq> tm evs e"
  shows "\<exists>c'. cal_insert2 evs e c = Inr c' \<and> holds evs c' (filter (\<lambda>p. Q p \<or> p = e) (us @ e # vs)) \<and> same_shape c c'"
proof -
  let ?xs = "filter Q (us @ e # vs)" and ?zs = "filter (\<lambda>p. Q p \<or> p = e) (us @ e # vs)"
  let ?i = "nat (cal_hash c (tm evs e))" and ?H = "\<lambda>p. cal_hash c (tm evs p) = cal_hash c (tm evs e)"
  have fr: "frame_ok c" using assms(1) by (simp add: holds_def)
  have i: "int ?i = cal_hash c (tm evs e)" using hash_range(1) [OF fr assms(4)] by simp
  have eqs: "filter (\<lambda>p. Q p \<or> p = e) us = filter Q us" "filter (\<lambda>p. Q p \<or> p = e) vs = filter Q vs"
    using assms(3,5) by (auto intro!: filter_cong)
  have zs: "?zs = filter Q us @ e # filter Q vs" and xs: "?xs = filter Q us @ filter Q vs" using eqs assms(5) by simp_all
  define as where "as = filter ?H (filter Q us)"
  define bs where "bs = filter ?H (filter Q vs)"
  have old: "bucket_of evs c ?xs ?i = as @ bs" and new: "bucket_of evs c ?zs ?i = as @ e # bs"
    unfolding bucket_of_def i zs xs by (simp_all add: as_def bs_def)
  have as: "\<forall>p\<in>set as. tm evs p < tm evs e" using assms(2,6) by (force simp: as_def sorted_wrt_append)
  have bs: "\<forall>p\<in>set bs. tm evs e \<le> tm evs p" "in_order evs bs"
    using assms(2) by (auto simp: bs_def sorted_wrt_append intro!: in_order_filter)
  have uniq: "tm evs e \<in> tm evs ` set (as @ bs) \<longleftrightarrow> tm evs e \<in> tm evs ` set ?xs"
    unfolding xs as_def bs_def by (auto simp: image_iff)
  obtain ys u where yu: "(if as @ bs = [] then ([e], True)
      else case link_before evs e (as @ bs) of (ys, next) \<Rightarrow> (ys, tm evs next \<noteq> tm evs e)) = (ys, u)"
    "ys = as @ e # bs" "u \<longleftrightarrow> tm evs e \<notin> tm evs ` set ?xs"
  proof (cases "as @ bs = []")
    case True
    then have "tm evs e \<notin> tm evs ` set ?xs" using uniq by simp
    then show thesis using that True by simp
  next
    case False
    from link_before_split [OF as bs False] obtain nx where
      nx: "link_before evs e (as @ bs) = (as @ e # bs, nx)"
      "tm evs nx \<noteq> tm evs e \<longleftrightarrow> tm evs e \<notin> tm evs ` set (as @ bs)" by blast
    have u: "tm evs nx \<noteq> tm evs e \<longleftrightarrow> tm evs e \<notin> tm evs ` set ?xs" by (rule trans [OF nx(2)]) (simp only: uniq)
    show thesis by (rule that [OF _ refl u]) (use False nx(1) in auto)
  qed
  let ?n = "n_times evs (as @ bs)"
  let ?c = "c\<lparr>cl_buckets := (cl_buckets c)[?i := (ys, if u then ?n + 1 else ?n)],
      cl_stat_qsize := (if u then cl_stat_qsize c + 1 else cl_stat_qsize c), cl_qsize := cl_qsize c + 1\<rparr>"
  have "cal_insert2 evs e c = Inr ?c"
    unfolding cal_insert2_def Let_def bucket_get [OF assms(1,4)] rbind_Inr prod.case old yu(1)
      bucket_upd [OF fr assms(4)] ..
  moreover have "holds evs ?c ?zs"
  proof (rule holds_add [OF assms(1,4)])
    show "set ?zs = insert e (set ?xs)" unfolding zs xs by auto
    show "length ?zs = Suc (length ?xs)" unfolding zs xs by simp
    show "bucket_of evs c ?zs j = bucket_of evs c ?xs j" if "int j \<noteq> cal_hash c (tm evs e)" for j
      using that unfolding bucket_of_def zs xs by auto
    show "ys = bucket_of evs c ?zs ?i" by (simp only: new yu(2))
    show "u \<longleftrightarrow> tm evs e \<notin> tm evs ` set ?xs" by (rule yu(3))
    show "?n = n_times evs (bucket_of evs c ?xs ?i)" by (simp only: old)
  qed
  moreover have "same_shape c ?c" by (simp add: same_shape_def)
  ultimately show ?thesis by blast
qed

lemma refill_bucket:
  assumes "in_order evs xs" "distinct xs" "\<forall>p\<in>set xs. 0 \<le> tm evs p"
    and "\<And>p q. tm evs p = tm evs q \<Longrightarrow> P p = P q" "\<And>p. P p \<Longrightarrow> \<not> Q p"
  shows "filter P xs = rs @ ss \<Longrightarrow> holds evs c (filter (\<lambda>p. Q p \<or> p \<in> set ss) xs) \<Longrightarrow>
    \<exists>c'. rfold (cal_insert2 evs) (rev rs) c = Inr c' \<and> holds evs c' (filter (\<lambda>p. Q p \<or> P p) xs) \<and> same_shape c c'"
proof (induction rs arbitrary: ss c rule: rev_induct)
  case Nil
  have "set ss = {p \<in> set xs. P p}" using arg_cong [OF Nil.prems(1), of set] by simp
  then have "filter (\<lambda>p. Q p \<or> p \<in> set ss) xs = filter (\<lambda>p. Q p \<or> P p) xs"
    by (intro filter_cong refl) auto
  then show ?case using Nil.prems(2) by (intro exI [of _ c]) simp
next
  case (snoc e rs)
  have e: "e \<in> set (filter P xs)" using snoc.prems(1) by simp
  then have ex: "e \<in> set xs" "P e" by simp_all
  then obtain us vs where xs: "xs = us @ e # vs" by (meson split_list)
  have "filter P us @ e # filter P vs = rs @ e # ss" using snoc.prems(1) ex(2) xs by simp
  moreover have "e \<notin> set (filter P us)" "e \<notin> set (filter P vs)" using assms(2) xs by auto
  ultimately have ss: "ss = filter P vs"
  proof -
    have "distinct (filter P xs)" using assms(2) by simp
    then have "e \<notin> set rs" using snoc.prems(1) by simp
    then show ?thesis using \<open>filter P us @ e # filter P vs = rs @ e # ss\<close> \<open>e \<notin> set (filter P us)\<close>
        \<open>e \<notin> set (filter P vs)\<close>
      by (simp add: append_Cons_eq_iff)
  qed
  have nq: "\<not> (Q e \<or> e \<in> set ss)" using assms(5) [OF ex(2)] \<open>e \<notin> set (filter P vs)\<close> ss by simp
  have early: "\<forall>q\<in>set us. Q q \<or> q \<in> set ss \<longrightarrow> tm evs q \<noteq> tm evs e"
  proof (intro ballI impI notI)
    fix q assume q: "q \<in> set us" "Q q \<or> q \<in> set ss" "tm evs q = tm evs e"
    then have "P q" using assms(4) ex(2) by blast
    then have "q \<in> set ss" using q(2) assms(5) by blast
    then have "q \<in> set vs" using ss by simp
    then show False using q(1) assms(2) xs by auto
  qed
  obtain c1 where c1: "cal_insert2 evs e c = Inr c1" "same_shape c c1"
    "holds evs c1 (filter (\<lambda>p. (Q p \<or> p \<in> set ss) \<or> p = e) xs)"
    using insert2_holds [of evs c "\<lambda>p. Q p \<or> p \<in> set ss" us e vs] snoc.prems(2) assms(1,2,3) nq early ex(1) unfolding xs by auto
  have "filter (\<lambda>p. (Q p \<or> p \<in> set ss) \<or> p = e) xs = filter (\<lambda>p. Q p \<or> p \<in> set (e # ss)) xs"
    by (intro filter_cong refl) auto
  then obtain c2 where c2: "rfold (cal_insert2 evs) (rev rs) c1 = Inr c2" "holds evs c2 (filter (\<lambda>p. Q p \<or> P p) xs)" "same_shape c1 c2"
    using snoc.IH [of "e # ss" c1] snoc.prems(1) c1(3) by auto
  then show ?case using c1(1) c2(1,2) same_shape_trans [OF c1(2) c2(3)] by auto
qed

lemma refill_all:
  assumes "holds evs c xs" "in_order evs xs" "distinct xs" "\<forall>p\<in>set xs. 0 \<le> tm evs p"
  shows "n \<le> length (cl_buckets c) \<Longrightarrow> holds evs d [] \<Longrightarrow>
    \<exists>d'. rfold (\<lambda>(ys, _). rfold (cal_insert2 evs) (rev ys)) (take n (cl_buckets c)) d = Inr d' \<and>
      holds evs d' (filter (\<lambda>p. cal_hash c (tm evs p) < int n) xs) \<and> same_shape d d'"
proof (induction n)
  case 0
  have fr: "frame_ok c" using assms(1) by (simp add: holds_def)
  have "filter (\<lambda>p. cal_hash c (tm evs p) < int 0) xs = []"
    using hash_range(1) [OF fr] assms(4) by (auto simp: filter_empty_conv not_less)
  then show ?case using 0 by (intro exI [of _ d]) simp
next
  case (Suc n)
  then obtain d1 where d1: "rfold (\<lambda>(ys, _). rfold (cal_insert2 evs) (rev ys)) (take n (cl_buckets c)) d = Inr d1"
    "holds evs d1 (filter (\<lambda>p. cal_hash c (tm evs p) < int n) xs)" "same_shape d d1" by auto
  have n: "n < length (cl_buckets c)" using Suc.prems(1) by simp
  have b: "cl_buckets c ! n = (bucket_of evs c xs n, n_times evs (bucket_of evs c xs n))" by (rule bucket_of_nth [OF assms(1) n])
  have "\<exists>d2. rfold (cal_insert2 evs) (rev (bucket_of evs c xs n)) d1 = Inr d2 \<and>
    holds evs d2 (filter (\<lambda>p. cal_hash c (tm evs p) < int n \<or> cal_hash c (tm evs p) = int n) xs) \<and> same_shape d1 d2"
    by (rule refill_bucket [OF assms(2,3,4), where ss = "[]"]) (use d1(2) in \<open>auto simp: bucket_of_def\<close>)
  then obtain d2 where d2: "rfold (cal_insert2 evs) (rev (bucket_of evs c xs n)) d1 = Inr d2" "same_shape d1 d2"
    "holds evs d2 (filter (\<lambda>p. cal_hash c (tm evs p) < int n \<or> cal_hash c (tm evs p) = int n) xs)" by blast
  have "filter (\<lambda>p. cal_hash c (tm evs p) < int n \<or> cal_hash c (tm evs p) = int n) xs = filter (\<lambda>p. cal_hash c (tm evs p) < int (Suc n)) xs"
    by (intro filter_cong refl) auto
  then show ?case using d1(1) d2(1,3) same_shape_trans [OF d1(3) d2(2)] n b by (auto simp: take_Suc_conv_app_nth rfold_append)
qed

lemma reinit_holds:
  assumes "4 \<le> nb" "0 < w" "0 \<le> cl_clock c"
  shows "holds evs (reinit nb w s c) []" and "cl_lastbucket (reinit nb w s c) = cal_hash (reinit nb w s c) s"
    and "cl_clock (reinit nb w s c) = cl_clock c"
  using assms by (auto simp: reinit_def Let_def holds_def frame_ok_def bucket_of_def n_times_def cal_hash_def)

lemma rehash_holds:
  assumes "holds evs c xs" "in_order evs xs" "distinct xs" "\<forall>p\<in>set xs. cl_clock c \<le> tm evs p" "4 \<le> nb" "0 < w"
  shows "\<exists>c'. rehash evs nb w (cl_clock c) c = Inr c' \<and> cal_rep evs c' xs \<and> cl_clock c' = cl_clock c"
proof -
  have fr: "frame_ok c" using assms(1) by (simp add: holds_def)
  have nn: "\<forall>p\<in>set xs. 0 \<le> tm evs p" using assms(4) frame_okD(4) [OF fr] by force
  let ?d = "reinit nb w (cl_clock c) c"
  have d: "holds evs ?d []" "cl_lastbucket ?d = cal_hash ?d (cl_clock c)" "cl_clock ?d = cl_clock c"
    by (rule reinit_holds [OF assms(5,6) frame_okD(4) [OF fr]])+
  obtain c' where c': "rfold (\<lambda>(ys, _). rfold (cal_insert2 evs) (rev ys)) (cl_buckets c) ?d = Inr c'" "same_shape ?d c'"
    "holds evs c' (filter (\<lambda>p. cal_hash c (tm evs p) < int (length (cl_buckets c))) xs)"
    using refill_all [OF assms(1-3) nn, of "length (cl_buckets c)", OF _ d(1)] by auto
  have "filter (\<lambda>p. cal_hash c (tm evs p) < int (length (cl_buckets c))) xs = xs"
    using hash_range(2) [OF fr] nn frame_okD [OF fr] by (auto simp: filter_id_conv)
  then have h: "holds evs c' xs" using c'(3) by simp
  have k: "cl_clock c' = cl_clock c" "cl_lastbucket c' = cal_hash c' (cl_clock c')"
    using c'(2) d(2,3) same_shape_hash [OF c'(2)] by (simp_all add: same_shape_def)
  let ?c = "c'\<lparr>cl_head_search := 0, cl_insert_search := 0, cl_round_num := 0\<rparr>"
  have hs: "cal_hash ?c t = cal_hash c' t" for t by (simp add: cal_hash_def)
  have "holds evs ?c xs" using h unfolding holds_def bucket_of_def hs by (simp add: frame_ok_def)
  then have "cal_rep evs ?c xs" using assms(2-4) k unfolding cal_rep_def hs by simp
  moreover have "rehash evs nb w (cl_clock c) c = Inr ?c" using c'(1) by (simp add: rehash_def)
  ultimately show ?thesis using k(1) by (intro exI [of _ ?c]) simp
qed

end
