(* ===== verification/CalendarOrder.thy ===== *)
theory CalendarOrder
  imports CalendarQueue
begin

section \<open>The calendar queue keeps the order\<close>

text \<open>
  The operations of \<open>CalendarQueue\<close> meet the contract of an event queue: whatever the
  width and the number of its buckets, and however they adapt, the calendar holds the pending
  events in the order of their times and, at equal times, of their insertion. What a program
  does with the default scheduler is therefore what it does with the list.
\<close>

subsection \<open>Resizing\<close>

text \<open>Only the counters of the adaptation differ.\<close>

definition same_queue :: "calendar \<Rightarrow> calendar \<Rightarrow> bool" where
  "same_queue c c' \<longleftrightarrow> cl_width c' = cl_width c \<and> cl_nbuckets c' = cl_nbuckets c \<and> cl_clock c' = cl_clock c \<and>
     cl_lastbucket c' = cl_lastbucket c \<and> cl_buckets c' = cl_buckets c \<and> cl_qsize c' = cl_qsize c \<and>
     cl_stat_qsize c' = cl_stat_qsize c \<and> cl_diff0 c' = cl_diff0 c \<and> cl_diff1 c' = cl_diff1 c \<and> cl_diff2 c' = cl_diff2 c \<and>
     cl_bot_threshold c' = cl_bot_threshold c \<and> cl_top_threshold c' = cl_top_threshold c"

lemma same_queue_rep:
  assumes "same_queue c c'" "cal_rep evs c xs"
  shows "cal_rep evs c' xs"
proof -
  have h: "cal_hash c' t = cal_hash c t" for t using assms(1) by (simp add: same_queue_def cal_hash_def)
  show ?thesis
    using assms unfolding cal_rep_def holds_def bucket_of_def h by (simp add: same_queue_def frame_ok_def)
qed

lemma cal_repD:
  assumes "cal_rep evs c xs"
  shows "holds evs c xs" "distinct xs" "in_order evs xs" "\<forall>p\<in>set xs. cl_clock c \<le> tm evs p"
    "cl_lastbucket c = cal_hash c (cl_clock c)" "frame_ok c"
  using assms by (simp_all add: cal_rep_def holds_def)

lemma cal_rep_nonneg: "cal_rep evs c xs \<Longrightarrow> p \<in> set xs \<Longrightarrow> 0 \<le> tm evs p"
  using cal_repD(4,6) frame_okD(4) by fastforce

lemma fold_pick: "fold (\<lambda>i m. if P i m then i else m) is m \<in> insert m (set is)"
  by (induction "is" arbitrary: m) auto

lemma fullest_range:
  assumes "bs \<noteq> []"
  shows "0 \<le> fullest bs \<and> fullest bs < int (length bs)"
proof -
  have "fullest bs \<in> insert 0 (set [1 .. int (length bs) - 1])" unfolding fullest_def by (rule fold_pick)
  then show ?thesis using assms by auto
qed

lemma spread_out:
  assumes "in_order evs xs" "1 < n_times evs xs"
  shows "xs \<noteq> []" "tm evs (hd xs) < tm evs (last xs)"
proof -
  show ne: "xs \<noteq> []" using assms(2) by (auto simp: n_times_def)
  show "tm evs (hd xs) < tm evs (last xs)"
  proof (rule ccontr)
    assume "\<not> tm evs (hd xs) < tm evs (last xs)"
    moreover have "tm evs (hd xs) \<le> tm evs p" if "p \<in> set xs" for p using assms(1) ne that by (cases xs) auto
    moreover have "tm evs p \<le> tm evs (last xs)" if "p \<in> set xs" for p
    proof -
      have "in_order evs (butlast xs @ [last xs])" using assms(1) ne by simp
      then have "\<forall>q\<in>set (butlast xs). tm evs q \<le> tm evs (last xs)" by (simp add: sorted_wrt_append)
      then show ?thesis using that ne by (metis append_butlast_last_id order_refl rotate1.simps(2) set_ConsD set_rotate1)
    qed
    ultimately have "tm evs ` set xs \<subseteq> {tm evs (hd xs)}" by force
    then have "card (tm evs ` set xs) \<le> 1" by (metis card.empty card_insert_disjoint card_mono empty_iff finite.emptyI finite.insertI One_nat_def)
    then show False using assms(2) by (simp add: n_times_def)
  qed
qed

lemma newwidth_ok:
  assumes "cal_rep evs c xs" "0 < ns"
  shows "\<exists>w c1. newwidth evs ns c = Inr (w, c1) \<and> 0 < w \<and> same_queue c c1"
proof -
  define c1 where "c1 = (if cl_adjust c \<noteq> 0 then c\<lparr>cl_time_to_newwidth := cl_adjust c\<rparr> else c)"
  have sq: "same_queue c c1" by (simp add: c1_def same_queue_def)
  note rep = same_queue_rep [OF sq assms(1)]
  have h: "holds evs c1 xs" and f: "frame_ok c1" using cal_repD [OF rep] by simp_all
  have ne: "cl_buckets c1 \<noteq> []" using frame_okD [OF f] by auto
  let ?k = "fullest (cl_buckets c1)"
  let ?b = "bucket_of evs c1 xs (nat ?k)"
  have k: "0 \<le> ?k" "nat ?k < length (cl_buckets c1)" using fullest_range [OF ne] by auto
  have get: "vec_get (cl_buckets c1) ?k = Inr (?b, n_times evs ?b)"
    using k bucket_of_nth [OF h k(2)] by (simp add: vec_get_def)
  have srt: "in_order evs ?b" unfolding bucket_of_def by (rule in_order_filter [OF cal_repD(3) [OF rep]])
  have "\<exists>w. sample_width evs ns c1 = Inr w \<and> 0 < w"
  proof (cases "n_times evs ?b \<le> 4")
    case True
    then show ?thesis using get frame_okD(1) [OF f] by (simp add: sample_width_def)
  next
    case False
    then have "1 < n_times evs ?b" by simp
    note sp = spread_out [OF srt this]
    then show ?thesis using False get assms(2)
      by (simp add: sample_width_def Let_def divide_pos_pos)
  qed
  then obtain w where w: "sample_width evs ns c1 = Inr w" "0 < w" by blast
  show ?thesis
  proof (cases "cl_adjust c \<noteq> 0 \<and> cl_avg_gap c > 0")
    case True
    then show ?thesis using sq by (simp add: newwidth_def c1_def Let_def)
  next
    case False
    then have "newwidth evs ns c = Inr (w, c1)" using w(1) by (simp only: newwidth_def Let_def c1_def [symmetric] if_False rbind_Inr)
    then show ?thesis using sq w(2) by blast
  qed
qed

lemma rehash_ok:
  assumes "cal_rep evs c xs" "4 \<le> nb" "0 < w"
  shows "\<exists>c'. rehash evs nb w (cl_clock c) c = Inr c' \<and> cal_rep evs c' xs \<and> cl_clock c' = cl_clock c"
  using rehash_holds [OF cal_repD(1,3,2,4) [OF assms(1)] assms(2,3)] .

lemma resize_ok:
  assumes "cal_rep evs c xs" "2 \<le> ns"
  shows "\<exists>c'. cal_resize evs ns (cl_clock c) c = Inr c' \<and> cal_rep evs c' xs \<and> cl_clock c' = cl_clock c"
proof -
  have f: "frame_ok c" using cal_repD(6) [OF assms(1)] .
  obtain w c1 where w: "newwidth evs ns c = Inr (w, c1)" "0 < w" "same_queue c c1"
    using newwidth_ok [OF assms(1), of ns] assms(2) by auto
  have k: "cl_clock c1 = cl_clock c" using w(3) by (simp add: same_queue_def)
  have new: "\<exists>c'. rehash evs nb w (cl_clock c) c1 = Inr c' \<and> cal_rep evs c' xs \<and> cl_clock c' = cl_clock c" if "4 \<le> nb" for nb
    using rehash_ok [OF same_queue_rep [OF w(3) assms(1)] that w(2)] by (simp add: k)
  show ?thesis
  proof (cases "ns = cl_nbuckets c")
    case True
    then have ns: "4 \<le> ns" using frame_okD [OF f] by simp
    show ?thesis
    proof (cases "snoopy_width c < cl_min_bin_width c")
      case low: True
      let ?c = "c\<lparr>cl_time_to_newwidth := cl_time_to_newwidth c - 1, cl_head_search := 0, cl_insert_search := 0, cl_round_num := 0\<rparr>"
      have "same_queue c ?c" by (simp add: same_queue_def)
      then have "cal_rep evs ?c xs" by (rule same_queue_rep [OF _ assms(1)])
      then show ?thesis using True low new [OF ns] w(1) by (auto simp: cal_resize_def)
    next
      case False
      have "0 < snoopy_width c" using frame_okD(1) [OF f] by (simp add: snoopy_width_def Let_def)
      then show ?thesis using True False rehash_ok [OF assms(1) ns] by (simp add: cal_resize_def)
    qed
  next
    case False
    have "\<exists>c'. rehash evs (if ns < 4 then 4 else ns) w (cl_clock c) c1 = Inr c' \<and> cal_rep evs c' xs \<and> cl_clock c' = cl_clock c"
      by (rule new) simp
    then show ?thesis using False w(1) by (simp add: cal_resize_def)
  qed
qed

subsection \<open>Insertion\<close>

lemma insert_ok:
  assumes "cal_rep evs c0 xs" "e \<notin> set xs" "0 \<le> tm evs e"
  shows "\<exists>c'. cal_insert evs e c0 = Inr c' \<and> cal_rep evs c' (place (tm evs) e xs)"
proof -
  define c where "c = (if cl_clock c0 > tm evs e then c0\<lparr>cl_clock := tm evs e, cl_lastbucket := cal_hash c0 (tm evs e)\<rparr> else c0)"
  have hs: "cal_hash c t = cal_hash c0 t" for t by (simp add: c_def cal_hash_def)
  have rep: "cal_rep evs c xs" and le: "cl_clock c \<le> tm evs e"
    using assms(1,3) unfolding cal_rep_def holds_def bucket_of_def hs by (auto simp: c_def frame_ok_def)
  note D = cal_repD [OF rep]
  let ?i = "nat (cal_hash c (tm evs e))"
  define b where "b = bucket_of evs c xs ?i"
  have srt: "in_order evs b" unfolding b_def bucket_of_def by (rule in_order_filter [OF D(3)])
  have i: "int ?i = cal_hash c (tm evs e)" using hash_range(1) [OF D(6) assms(3)] by simp
  have new: "bucket_of evs c (place (tm evs) e xs) ?i = place (tm evs) e b"
    unfolding b_def bucket_of_def filter_place [OF D(3)] i by simp
  have uniq: "tm evs e \<in> tm evs ` set b \<longleftrightarrow> tm evs e \<in> tm evs ` set xs"
    unfolding b_def bucket_of_def i by (auto simp: image_iff)
  obtain k where k: "(if b = [] then ([e], True, 0) else case link_after evs e b of (ys, u, k) \<Rightarrow> (ys, u, k + 1)) =
      (place (tm evs) e b, tm evs e \<notin> tm evs ` set xs, k)"
  proof (cases "b = []")
    case True
    then show thesis using that uniq by simp
  next
    case False
    obtain k where "link_after evs e b = (place (tm evs) e b, tm evs e \<notin> tm evs ` set b, k)"
      using link_after_place [OF srt False] by blast
    then show thesis using that False uniq by simp
  qed
  define c1 where "c1 = c\<lparr>cl_buckets := (cl_buckets c)[?i := (place (tm evs) e b, if tm evs e \<notin> tm evs ` set xs then n_times evs b + 1 else n_times evs b)],
      cl_stat_qsize := (if tm evs e \<notin> tm evs ` set xs then cl_stat_qsize c + 1 else cl_stat_qsize c), cl_qsize := cl_qsize c + 1\<rparr>"
  define c2 where "c2 = c1\<lparr>cl_insert_search := cl_insert_search c + k\<rparr>"
  have "holds evs c1 (place (tm evs) e xs)" unfolding c1_def
  proof (rule holds_add [OF D(1) assms(3)])
    show "bucket_of evs c (place (tm evs) e xs) j = bucket_of evs c xs j" if "int j \<noteq> cal_hash c (tm evs e)" for j
      using that unfolding bucket_of_def filter_place [OF D(3)] by auto
    show "place (tm evs) e b = bucket_of evs c (place (tm evs) e xs) ?i" by (simp only: new)
    show "n_times evs b = n_times evs (bucket_of evs c xs ?i)" by (simp only: b_def)
  qed simp_all
  moreover have "cal_hash c1 t = cal_hash c t" for t by (simp add: c1_def cal_hash_def)
  moreover have "cl_clock c1 = cl_clock c" "cl_lastbucket c1 = cl_lastbucket c" by (simp_all add: c1_def)
  ultimately have "cal_rep evs c1 (place (tm evs) e xs)"
    using D assms(2) le by (auto simp: cal_rep_def sorted_place_le)
  moreover have "same_queue c1 c2" by (simp add: c2_def same_queue_def)
  ultimately have rep2: "cal_rep evs c2 (place (tm evs) e xs)" using same_queue_rep by blast
  have step: "cal_insert evs e c0 = (if cl_stat_qsize c2 > cl_top_threshold c2
      then cal_resize evs (push_bit 1 (cl_nbuckets c2)) (cl_clock c2) c2 else Inr c2)"
    unfolding cal_insert_def Let_def c_def [symmetric] bucket_get [OF D(1) assms(3)] b_def [symmetric] rbind_Inr prod.case k
      bucket_upd [OF D(6) assms(3)]
    by (simp add: c2_def c1_def)
  have "2 \<le> push_bit 1 (cl_nbuckets c2)" using frame_okD(2) [OF cal_repD(6) [OF rep2]] by simp
  from resize_ok [OF rep2 this] show ?thesis using rep2 step by auto
qed

subsection \<open>The next event\<close>

lemma mod_window:
  fixes n :: int
  assumes "a mod n = (d + j) mod n" "d \<le> a" "a < d + j + n" "0 \<le> j" "j < n"
  shows "a = d + j"
proof -
  have "n dvd (a - (d + j))" using assms(1) by (simp add: mod_eq_dvd_iff)
  then obtain q where q: "a - (d + j) = n * q" by (elim dvdE)
  have "q < 1"
  proof (rule ccontr)
    assume "\<not> q < 1"
    then have "n * 1 \<le> n * q" using assms(4,5) by (intro mult_left_mono) auto
    then show False using q assms(3) by simp
  qed
  moreover have "- 1 < q"
  proof (rule ccontr)
    assume "\<not> - 1 < q"
    then have "n * q \<le> n * (- 1)" using assms(4,5) by (intro mult_left_mono) auto
    then show False using q assms(2,5) by simp
  qed
  ultimately have "q = 0" by simp
  then show ?thesis using q by simp
qed

text \<open>The bucket that the probe number \<open>j\<close> looks at, and what is known before it.\<close>

definition spot :: "calendar \<Rightarrow> int \<Rightarrow> int" where
  "spot c j = (cl_lastbucket c + j) mod cl_nbuckets c"

definition searched :: "events \<Rightarrow> calendar \<Rightarrow> nat list \<Rightarrow> int \<Rightarrow> (int \<times> nat) option \<Rightarrow> bool" where
  "searched evs c xs j m \<longleftrightarrow>
     (\<forall>p\<in>set xs. day c (cl_clock c) + j \<le> day c (tm evs p)) \<and>
     ((\<exists>i. 0 \<le> i \<and> i < j \<and> spot c i = cal_hash c (tm evs (hd xs))) \<longrightarrow> m = Some (cal_hash c (tm evs (hd xs)), hd xs)) \<and>
     (\<not> (\<exists>i. 0 \<le> i \<and> i < j \<and> spot c i = cal_hash c (tm evs (hd xs))) \<longrightarrow> (\<forall>l f. m = Some (l, f) \<longrightarrow> tm evs (hd xs) < tm evs f))"

lemma spot_day:
  assumes "cal_rep evs c xs"
  shows "spot c j = (day c (cl_clock c) + j) mod cl_nbuckets c"
proof -
  note f = frame_okD [OF cal_repD(6) [OF assms]]
  show ?thesis using cal_repD(5) [OF assms] f by (simp add: spot_def cal_hash_day mod_simps)
qed

lemma spot_inj: "cal_rep evs c xs \<Longrightarrow> spot c i = spot c j \<Longrightarrow> 0 \<le> i \<Longrightarrow> i < cl_nbuckets c \<Longrightarrow> 0 \<le> j \<Longrightarrow> j < cl_nbuckets c \<Longrightarrow> i = j"
  using mod_window [of "day c (cl_clock c) + i" "cl_nbuckets c" "day c (cl_clock c)" j] by (simp add: spot_day)

lemma spot_step:
  assumes "cal_rep evs c xs"
  shows "(if spot c j + 1 = cl_nbuckets c then 0 else spot c j + 1) = spot c (j + 1)"
proof -
  have n: "0 < cl_nbuckets c" using frame_okD(2) [OF cal_repD(6) [OF assms]] by simp
  have "(spot c j + 1) mod cl_nbuckets c = spot c (j + 1)" by (simp add: spot_def mod_simps ac_simps)
  moreover have "0 \<le> spot c j" "spot c j < cl_nbuckets c" using n by (simp_all add: spot_def)
  ultimately show ?thesis by (auto simp: zmod_trivial_iff)
qed

lemma spot_get:
  assumes "cal_rep evs c xs"
  shows "vec_get (cl_buckets c) (spot c j) =
    Inr (bucket_of evs c xs (nat (spot c j)), n_times evs (bucket_of evs c xs (nat (spot c j))))"
proof -
  note f = frame_okD [OF cal_repD(6) [OF assms]]
  have "0 \<le> spot c j" "spot c j < cl_nbuckets c" using f by (simp_all add: spot_def)
  moreover from this have "nat (spot c j) < length (cl_buckets c)" using f by simp
  ultimately show ?thesis using bucket_of_nth [OF cal_repD(1) [OF assms]] by (simp add: vec_get_def)
qed

lemma spot_nonneg: "cal_rep evs c xs \<Longrightarrow> 0 \<le> spot c j"
  using frame_okD(2) [OF cal_repD(6)] by (force simp: spot_def)

text \<open>The first event of a bucket is the first of all if it hashes there.\<close>

lemma bucket_head:
  assumes "cal_rep evs c (x # xs)" "bucket_of evs c (x # xs) (nat (spot c j)) = e # ys"
  shows "cal_hash c (tm evs e) = spot c j" "e \<in> set (x # xs)" "tm evs x \<le> tm evs e"
    "cal_hash c (tm evs x) = spot c j \<Longrightarrow> e = x"
    "cal_hash c (tm evs x) \<noteq> spot c j \<Longrightarrow> tm evs x < tm evs e"
    "\<And>p. p \<in> set (x # xs) \<Longrightarrow> cal_hash c (tm evs p) = spot c j \<Longrightarrow> tm evs e \<le> tm evs p"
proof -
  have i: "int (nat (spot c j)) = spot c j" using spot_nonneg [OF assms(1)] by simp
  let ?F = "filter (\<lambda>p. cal_hash c (tm evs p) = spot c j) (x # xs)"
  have F: "?F = e # ys" using assms(2) by (simp only: bucket_of_def i)
  then have "e \<in> set ?F" by simp
  then show e: "cal_hash c (tm evs e) = spot c j" "e \<in> set (x # xs)" by (simp_all only: set_filter mem_Collect_eq)
  show le: "tm evs x \<le> tm evs e" using cal_repD(3) [OF assms(1)] e(2) by auto
  show "e = x" if "cal_hash c (tm evs x) = spot c j" using F that by simp
  show "tm evs x < tm evs e" if "cal_hash c (tm evs x) \<noteq> spot c j" using le that e(1) by (metis order_le_less)
  show "tm evs e \<le> tm evs p" if "p \<in> set (x # xs)" "cal_hash c (tm evs p) = spot c j" for p
  proof -
    have "p \<in> set (e # ys)" using that unfolding F [symmetric] by auto
    moreover have "in_order evs (e # ys)" using in_order_filter [OF cal_repD(3) [OF assms(1)]] F by metis
    ultimately show ?thesis by auto
  qed
qed

lemma bucket_nil:
  assumes "cal_rep evs c xs" "bucket_of evs c xs (nat (spot c j)) = []" "p \<in> set xs"
  shows "cal_hash c (tm evs p) \<noteq> spot c j"
  using assms(2,3) spot_nonneg [OF assms(1), of j] by (auto simp: bucket_of_def filter_empty_conv)

lemma day_of_head:
  assumes "cal_rep evs c (x # xs)" "bucket_of evs c (x # xs) (nat (spot c j)) = e # ys" "0 \<le> j" "j < cl_nbuckets c"
    and "\<forall>p\<in>set (x # xs). day c (cl_clock c) + j \<le> day c (tm evs p)"
    and "cl_width c * of_int (j + 1) \<le> diff" "diff \<le> cl_width c * of_int (j + cl_nbuckets c - 1)"
  shows "tm evs e - cl_clock c < diff \<longleftrightarrow> day c (tm evs e) = day c (cl_clock c) + j"
proof -
  note f = frame_okD [OF cal_repD(6) [OF assms(1)]]
  note bh = bucket_head [OF assms(1,2)]
  have e0: "0 \<le> tm evs e" by (rule cal_rep_nonneg [OF assms(1) bh(2)])
  show ?thesis
  proof
    assume "tm evs e - cl_clock c < diff"
    then have "tm evs e < cl_clock c + cl_width c * of_int (j + cl_nbuckets c - 1)" using assms(7) by simp
    then have "tm evs e / cl_width c < cl_clock c / cl_width c + of_int (j + cl_nbuckets c - 1)"
      using f(1) by (simp add: field_simps)
    then have "day c (tm evs e) \<le> day c (cl_clock c) + (j + cl_nbuckets c - 1)"
      unfolding day_def by linarith
    moreover have "day c (tm evs e) mod cl_nbuckets c = (day c (cl_clock c) + j) mod cl_nbuckets c"
      using bh(1) spot_day [OF assms(1)] e0 f by (simp add: cal_hash_day)
    moreover have "day c (cl_clock c) + j \<le> day c (tm evs e)" using assms(5) bh(2) by blast
    ultimately show "day c (tm evs e) = day c (cl_clock c) + j"
      using assms(3,4) by (intro mod_window [of _ "cl_nbuckets c"]) auto
  next
    assume d: "day c (tm evs e) = day c (cl_clock c) + j"
    have "tm evs e < (of_int (day c (cl_clock c) + j) + 1) * cl_width c" using day_bounds(2) [OF f(1), of "tm evs e"] d by simp
    moreover have "of_int (day c (cl_clock c)) * cl_width c \<le> cl_clock c" by (rule day_bounds(1) [OF f(1)])
    ultimately have "tm evs e - cl_clock c < cl_width c * of_int (j + 1)" by (simp add: algebra_simps)
    then show "tm evs e - cl_clock c < diff" using assms(6) by simp
  qed
qed

lemma probe_step:
  assumes "cal_rep evs c (x # xs)" "searched evs c (x # xs) j m" "0 \<le> j" "j < cl_nbuckets c"
    and "cl_width c * of_int (j + 1) \<le> diff" "diff \<le> cl_width c * of_int (j + cl_nbuckets c - 1)"
  shows "cal_probe evs c diff (spot c j) m n = Inr (Hit (cal_hash c (tm evs x)) x (n + 1)) \<or>
    (\<exists>m'. cal_probe evs c diff (spot c j) m n = Inr (Go (spot c (j + 1)) m' (n + 1)) \<and> searched evs c (x # xs) (j + 1) m')"
proof -
  note f = frame_okD [OF cal_repD(6) [OF assms(1)]]
  let ?D = "day c (cl_clock c)" and ?h = "cal_hash c (tm evs x)"
  let ?b = "bucket_of evs c (x # xs) (nat (spot c j))"
  have days: "\<forall>p\<in>set (x # xs). ?D + j \<le> day c (tm evs p)" using assms(2) by (simp add: searched_def)
  have hash: "cal_hash c (tm evs p) = day c (tm evs p) mod cl_nbuckets c" if "p \<in> set (x # xs)" for p
    using cal_hash_day f cal_rep_nonneg [OF assms(1) that] by simp
  have before: "(\<exists>i. 0 \<le> i \<and> i < j + 1 \<and> spot c i = ?h) \<longleftrightarrow> (\<exists>i. 0 \<le> i \<and> i < j \<and> spot c i = ?h) \<or> spot c j = ?h"
    using assms(3) by (metis less_add_one order_less_le zless_add1_eq)
  have apart: "\<not> (\<exists>i. 0 \<le> i \<and> i < j \<and> spot c i = ?h)" if "spot c j = ?h"
    using that spot_inj [OF assms(1)] assms(3,4) by (metis order_less_irrefl order_less_trans)
  show ?thesis
  proof (cases ?b)
    case Nil
    have no: "cal_hash c (tm evs p) \<noteq> spot c j" if "p \<in> set (x # xs)" for p using bucket_nil [OF assms(1) Nil that] .
    have "?D + (j + 1) \<le> day c (tm evs p)" if "p \<in> set (x # xs)" for p
    proof -
      have "day c (tm evs p) \<noteq> ?D + j" using no [OF that] hash [OF that] spot_day [OF assms(1), of j] by auto
      then show ?thesis using days that by force
    qed
    moreover have "spot c j \<noteq> ?h" using no [of x] by simp
    ultimately have "searched evs c (x # xs) (j + 1) m" using assms(2) before by (simp add: searched_def)
    then show ?thesis using Nil by (simp add: cal_probe_def Let_def spot_get [OF assms(1)] spot_step [OF assms(1)])
  next
    case (Cons e ys)
    note bh = bucket_head [OF assms(1) Cons]
    note dh = day_of_head [OF assms(1) Cons assms(3,4) days assms(5,6)]
    show ?thesis
    proof (cases "tm evs e - cl_clock c < diff")
      case True
      then have "day c (tm evs e) = ?D + j" using dh by simp
      moreover have "day c (tm evs x) \<le> day c (tm evs e)" by (rule day_mono [OF f(1) bh(3)])
      moreover have "?D + j \<le> day c (tm evs x)" using days by simp
      ultimately have "?h = spot c j" using hash [of x] spot_day [OF assms(1)] by simp
      then show ?thesis using True Cons bh(4) by (simp add: cal_probe_def Let_def spot_get [OF assms(1)])
    next
      case False
      then have ne: "day c (tm evs e) \<noteq> ?D + j" using dh by simp
      have "?D + (j + 1) \<le> day c (tm evs p)" if p: "p \<in> set (x # xs)" for p
      proof -
        have "day c (tm evs p) \<noteq> ?D + j"
        proof
          assume d: "day c (tm evs p) = ?D + j"
          then have "cal_hash c (tm evs p) = spot c j" using hash [OF p] spot_day [OF assms(1)] by simp
          then have "day c (tm evs e) \<le> ?D + j" using day_mono [OF f(1) bh(6) [OF p]] d by simp
          then show False using days bh(2) ne by force
        qed
        then show ?thesis using days p by force
      qed
      then have days': "\<forall>p\<in>set (x # xs). ?D + (j + 1) \<le> day c (tm evs p)" by blast
      define m' where "m' = (if m = None \<or> tm evs (snd (the m)) > tm evs e then Some (spot c j, e) else m)"
      have "cal_probe evs c diff (spot c j) m n = Inr (Go (spot c (j + 1)) m' (n + 1))"
        using False Cons by (simp add: cal_probe_def Let_def spot_get [OF assms(1)] spot_step [OF assms(1)] m'_def)
      moreover have "searched evs c (x # xs) (j + 1) m'"
      proof (cases "spot c j = ?h")
        case True
        then have "\<forall>l f. m = Some (l, f) \<longrightarrow> tm evs x < tm evs f" using assms(2) apart unfolding searched_def list.sel by blast
        then have "m' = Some (?h, x)" using bh(4) True by (cases m) (auto simp: m'_def)
        then show ?thesis using days' True before by (simp add: searched_def)
      next
        case no: False
        then have lt: "tm evs x < tm evs e" using bh(5) by simp
        show ?thesis
        proof (cases "\<exists>i. 0 \<le> i \<and> i < j \<and> spot c i = ?h")
          case True
          then have "m = Some (?h, x)" using assms(2) unfolding searched_def list.sel by blast
          then have "m' = Some (?h, x)" using lt by (simp add: m'_def)
          then show ?thesis using days' True before by (simp add: searched_def)
        next
          case False
          then have "\<forall>l f. m = Some (l, f) \<longrightarrow> tm evs x < tm evs f" using assms(2) unfolding searched_def list.sel by blast
          then have "\<forall>l f. m' = Some (l, f) \<longrightarrow> tm evs x < tm evs f" using lt by (simp add: m'_def)
          then show ?thesis using days' False no unfolding searched_def list.sel before by blast
        qed
      qed
      ultimately show ?thesis by blast
    qed
  qed
qed

text \<open>After a year without a hit the bucket that is left decides.\<close>

lemma last_bucket:
  assumes "cal_rep evs c (x # xs)" "searched evs c (x # xs) (cl_nbuckets c - 1) m"
  shows "cal_last evs c (spot c (cl_nbuckets c - 1)) m n = Inr (cal_hash c (tm evs x), x, n)"
proof -
  note f = frame_okD [OF cal_repD(6) [OF assms(1)]]
  let ?h = "cal_hash c (tm evs x)" and ?j = "cl_nbuckets c - 1"
  let ?b = "bucket_of evs c (x # xs) (nat (spot c ?j))"
  have x: "0 \<le> ?h" "?h < cl_nbuckets c" using hash_range [OF cal_repD(6) [OF assms(1)] cal_rep_nonneg [OF assms(1)]] by simp_all
  have hit: "spot c ((?h - cl_lastbucket c) mod cl_nbuckets c) = ?h" using x by (simp add: spot_def mod_simps)
  show ?thesis
  proof (cases "spot c ?j = ?h")
    case True
    have "\<not> (\<exists>i. 0 \<le> i \<and> i < ?j \<and> spot c i = ?h)"
      using True spot_inj [OF assms(1)] f(2) by (smt (verit))
    then have m: "\<forall>l g. m = Some (l, g) \<longrightarrow> tm evs x < tm evs g"
      using assms(2) unfolding searched_def list.sel by blast
    show ?thesis
    proof (cases ?b)
      case Nil
      then show ?thesis using bucket_nil [OF assms(1) Nil, of x] True by simp
    next
      case (Cons e ys)
      then have b: "?b = x # ys" using bucket_head(4) [OF assms(1) Cons] True by simp
      have "cal_last evs c (spot c ?j) m n = Inr (spot c ?j, x, n)"
        using m unfolding cal_last_def spot_get [OF assms(1)] b by (cases m) auto
      then show ?thesis by (simp only: True)
    qed
  next
    case False
    let ?i = "(?h - cl_lastbucket c) mod cl_nbuckets c"
    have "0 \<le> ?i" "?i < cl_nbuckets c" using f(2) by simp_all
    then have "0 \<le> ?i \<and> ?i < ?j" using False hit by (cases "?i = ?j") auto
    then have m: "m = Some (?h, x)" using assms(2) hit unfolding searched_def list.sel by blast
    show ?thesis
    proof (cases ?b)
      case Nil
      then show ?thesis using m by (simp add: cal_last_def spot_get [OF assms(1)])
    next
      case (Cons e ys)
      then have "tm evs x < tm evs e" using bucket_head(5) [OF assms(1) Cons] False by simp
      then show ?thesis using Cons m by (simp add: cal_last_def spot_get [OF assms(1)])
    qed
  qed
qed

lemma scan_ok:
  assumes "cal_rep evs c (x # xs)"
  shows "searched evs c (x # xs) j m \<Longrightarrow> 2 \<le> j \<Longrightarrow> j < cl_nbuckets c \<Longrightarrow> nat (cl_nbuckets c - j) \<le> k \<Longrightarrow>
    \<exists>n'. cal_scan k evs c (spot c (cl_nbuckets c - 1)) (spot c j) m n = Inr (cal_hash c (tm evs x), x, n')"
proof (induction k arbitrary: j m n)
  case 0
  then show ?case by simp
next
  case (Suc k)
  have fo: "frame_ok c" using cal_repD(6) [OF assms] .
  note f = frame_okD [OF fo]
  show ?case
  proof (cases "j = cl_nbuckets c - 1")
    case True
    then show ?thesis using last_bucket [OF assms] Suc.prems(1) by simp
  next
    case False
    then have ne: "spot c j \<noteq> spot c (cl_nbuckets c - 1)" using spot_inj [OF assms, of j "cl_nbuckets c - 1"] Suc.prems f(2) by auto
    have d: "cl_diff2 c = cl_width c * of_int (cl_nbuckets c)" using fo by (simp add: frame_ok_def)
    have "cl_width c * of_int (j + 1) \<le> cl_diff2 c" "cl_diff2 c \<le> cl_width c * of_int (j + cl_nbuckets c - 1)"
      unfolding d using f(1) Suc.prems(2,3) by (intro mult_left_mono; simp)+
    from probe_step [OF assms Suc.prems(1) _ Suc.prems(3) this, of n]
    consider "cal_probe evs c (cl_diff2 c) (spot c j) m n = Inr (Hit (cal_hash c (tm evs x)) x (n + 1))"
      | m' where "cal_probe evs c (cl_diff2 c) (spot c j) m n = Inr (Go (spot c (j + 1)) m' (n + 1))" "searched evs c (x # xs) (j + 1) m'"
      using Suc.prems(2) by auto
    then show ?thesis
    proof cases
      case 1
      then show ?thesis using ne by simp
    next
      case 2
      then show ?thesis using ne Suc.IH [OF 2(2), of "n + 1"] Suc.prems False by auto
    qed
  qed
qed

lemma searched_start: "cal_rep evs c (x # xs) \<Longrightarrow> searched evs c (x # xs) 0 None"
  using cal_repD(4) frame_okD(1) [OF cal_repD(6)] by (fastforce simp: searched_def intro: day_mono)

lemma find_ok:
  assumes "cal_rep evs c (x # xs)"
  shows "\<exists>n. cal_find evs c = Inr (cal_hash c (tm evs x), x, n)"
proof -
  have fo: "frame_ok c" using cal_repD(6) [OF assms] .
  note f = frame_okD [OF fo]
  let ?h = "cal_hash c (tm evs x)" and ?nb = "cl_nbuckets c"
  have d: "cl_diff0 c = cl_width c * (of_int ?nb / 2)" "cl_diff1 c = cl_width c * (of_int ?nb / 2 + 1)"
    using fo by (simp_all add: frame_ok_def algebra_simps)
  have nb: "(4::real) \<le> of_int ?nb" using f(2) by simp
  have start: "spot c 0 = cl_lastbucket c" "0 \<le> cl_lastbucket c" "cl_lastbucket c < ?nb"
    using cal_repD(5) [OF assms] hash_range [OF fo f(4)] f by (simp_all add: spot_def)
  have dec: "(if cl_lastbucket c \<noteq> 0 then cl_lastbucket c - 1 else ?nb - 1) = spot c (?nb - 1)"
  proof (cases "cl_lastbucket c = 0")
    case True
    have "(?nb - 1) mod ?nb = ?nb - 1" by (rule mod_pos_pos_trivial) (use f(2) in auto)
    then show ?thesis by (simp only: spot_def True add_0_left simp_thms if_False)
  next
    case False
    have "spot c (?nb - 1) = (cl_lastbucket c - 1 + ?nb) mod ?nb" by (simp add: spot_def algebra_simps)
    then show ?thesis using False start by simp
  qed
  have "cl_width c * of_int (0 + 1) \<le> cl_diff0 c" "cl_diff0 c \<le> cl_width c * of_int (0 + ?nb - 1)"
    unfolding d using f(1) nb by (intro mult_left_mono; simp)+
  from probe_step [OF assms searched_start [OF assms] _ _ this, of 0]
  consider "cal_probe evs c (cl_diff0 c) (cl_lastbucket c) None 0 = Inr (Hit ?h x 1)"
    | m1 where "cal_probe evs c (cl_diff0 c) (cl_lastbucket c) None 0 = Inr (Go (spot c 1) m1 1)" "searched evs c (x # xs) 1 m1"
    using f(2) start(1) by auto
  then show ?thesis
  proof cases
    case 1
    then show ?thesis by (simp add: cal_find_def Let_def)
  next
    case (2 m1)
    have "cl_width c * of_int (1 + 1) \<le> cl_diff1 c" "cl_diff1 c \<le> cl_width c * of_int (1 + ?nb - 1)"
      unfolding d using f(1) nb by (intro mult_left_mono; simp)+
    from probe_step [OF assms 2(2) _ _ this, of 1]
    consider "cal_probe evs c (cl_diff1 c) (spot c 1) m1 1 = Inr (Hit ?h x 2)"
      | m2 where "cal_probe evs c (cl_diff1 c) (spot c 1) m1 1 = Inr (Go (spot c 2) m2 2)" "searched evs c (x # xs) 2 m2"
      using f(2) by auto
    then show ?thesis
    proof cases
      case 1
      then show ?thesis using 2 by (simp add: cal_find_def Let_def)
    next
      case (2 m2)
      have "nat (?nb - 2) \<le> nat ?nb" by (rule nat_mono) simp
      from scan_ok [OF assms 2(2) _ _ this, of 2] f(2) obtain n' where
        "cal_scan (nat ?nb) evs c (spot c (?nb - 1)) (spot c 2) m2 2 = Inr (?h, x, n')" by auto
      then show ?thesis using 2(1) \<open>cal_probe evs c (cl_diff0 c) (cl_lastbucket c) None 0 = _\<close>
        by (simp only: cal_find_def Let_def dec rbind_Inr probe.case) simp
    qed
  qed
qed

lemma head_nil: "cal_rep evs c [] \<Longrightarrow> cal_head evs c = Inr (None, c)"
  by (simp add: cal_head_def cal_rep_def holds_def)

lemma head_cons:
  assumes "cal_rep evs c (x # xs)"
  shows "\<exists>c'. cal_head evs c = Inr (Some x, c') \<and> cal_rep evs c' (x # xs) \<and> cl_clock c' = tm evs x"
proof -
  obtain n where n: "cal_find evs c = Inr (cal_hash c (tm evs x), x, n)" using find_ok [OF assms] by blast
  let ?c = "c\<lparr>cl_head_search := cl_head_search c + n, cl_lastbucket := cal_hash c (tm evs x), cl_clock := tm evs x\<rparr>"
  have "cl_qsize c \<noteq> 0" using cal_repD(1) [OF assms] by (simp add: holds_def)
  then have "cal_head evs c = Inr (Some x, ?c)" using n by (simp add: cal_head_def)
  moreover have hs: "cal_hash ?c t = cal_hash c t" for t by (simp add: cal_hash_def)
  have "cal_rep evs ?c (x # xs)"
    using assms cal_rep_nonneg [OF assms, of x] unfolding cal_rep_def holds_def bucket_of_def hs
    by (simp add: frame_ok_def)
  ultimately show ?thesis by (intro exI [of _ ?c]) simp
qed

subsection \<open>Removal\<close>

lemma filter_remove1_distinct: "distinct xs \<Longrightarrow> filter P (remove1 e xs) = remove1 e (filter P xs)"
  by (simp add: distinct_remove1_removeAll removeAll_filter_not_eq conj_commute)

lemma n_times_remove:
  assumes "distinct xs" "e \<in> set xs" "uniq \<longleftrightarrow> tm evs e \<notin> tm evs ` (set xs - {e})"
  shows "n_times evs (remove1 e xs) = (if uniq then n_times evs xs - 1 else n_times evs xs)"
proof -
  have "set xs = insert e (set xs - {e})" using assms(2) by blast
  then have "tm evs ` set xs = insert (tm evs e) (tm evs ` (set xs - {e}))" by (metis image_insert)
  then have "card (tm evs ` set xs) = (if uniq then Suc (card (tm evs ` (set xs - {e}))) else card (tm evs ` (set xs - {e})))"
    using assms(3) by (simp add: insert_absorb)
  then show ?thesis using assms(1) by (simp add: n_times_def)
qed

lemma holds_remove:
  assumes "holds evs c xs" "distinct xs" "e \<in> set xs" "0 \<le> tm evs e"
    and "b = bucket_of evs c xs (nat (cal_hash c (tm evs e)))"
    and "uniq \<longleftrightarrow> tm evs e \<notin> tm evs ` (set b - {e})"
  shows "holds evs (c\<lparr>cl_buckets := (cl_buckets c)[nat (cal_hash c (tm evs e)) := (remove1 e b, if uniq then n_times evs b - 1 else n_times evs b)],
      cl_stat_qsize := (if uniq then cl_stat_qsize c - 1 else cl_stat_qsize c), cl_qsize := cl_qsize c - 1\<rparr>) (remove1 e xs)"
proof -
  let ?h = "cal_hash c (tm evs e)" and ?i = "nat (cal_hash c (tm evs e))"
  let ?c = "c\<lparr>cl_buckets := (cl_buckets c)[?i := (remove1 e b, if uniq then n_times evs b - 1 else n_times evs b)],
      cl_stat_qsize := (if uniq then cl_stat_qsize c - 1 else cl_stat_qsize c), cl_qsize := cl_qsize c - 1\<rparr>"
  have f: "frame_ok c" using assms(1) by (simp add: holds_def)
  have i: "int ?i = ?h" using hash_range(1) [OF f assms(4)] by simp
  have hs: "cal_hash ?c t = cal_hash c t" for t by (simp add: cal_hash_def)
  have bo: "bucket_of evs ?c ys j = bucket_of evs c ys j" for ys j by (simp only: bucket_of_def hs)
  have b: "distinct b" "e \<in> set b" using assms(2,3) hash_range(1) [OF f assms(4)] by (simp_all add: assms(5) bucket_of_def)
  have all: "uniq \<longleftrightarrow> tm evs e \<notin> tm evs ` (set xs - {e})"
    unfolding assms(6) assms(5) bucket_of_def i by (auto simp: image_iff)
  have rm: "bucket_of evs c (remove1 e xs) j = remove1 e (bucket_of evs c xs j)" for j
    unfolding bucket_of_def by (rule filter_remove1_distinct [OF assms(2)])
  have "cl_buckets ?c ! j = (bucket_of evs c (remove1 e xs) j, n_times evs (bucket_of evs c (remove1 e xs) j))"
    if "j < length (cl_buckets c)" for j
  proof (cases "j = ?i")
    case True
    then show ?thesis using that n_times_remove [OF b assms(6)] assms(5) rm by simp
  next
    case False
    then have "int j \<noteq> ?h" by auto
    then have "e \<notin> set (bucket_of evs c xs j)" by (simp add: bucket_of_def)
    then show ?thesis using False that rm bucket_of_nth [OF assms(1) that] by (simp add: remove1_idem)
  qed
  moreover have "n_times evs (remove1 e xs) = (if uniq then n_times evs xs - 1 else n_times evs xs)"
    by (rule n_times_remove [OF assms(2,3) all])
  moreover have "frame_ok ?c" using f by (simp add: frame_ok_def)
  moreover have "int (length (remove1 e xs)) = int (length xs) - 1"
    using assms(3) length_pos_if_in_set [OF assms(3)] by (auto simp: length_remove1 int_ops(6))
  ultimately show ?thesis using assms(1) bo by (simp add: holds_def)
qed

lemma rep_remove:
  assumes "cal_rep evs c xs" "holds evs c' (remove1 e xs)" "same_shape c c'"
  shows "cal_rep evs c' (remove1 e xs)"
proof -
  have "in_order evs (remove1 e xs)"
    using cal_repD(2,3) [OF assms(1)] by (simp add: distinct_remove1_removeAll removeAll_filter_not_eq in_order_filter)
  moreover have "cl_clock c' = cl_clock c" "cl_lastbucket c' = cl_lastbucket c" "cal_hash c' t = cal_hash c t" for t
    using assms(3) same_shape_hash [OF assms(3)] by (simp_all add: same_shape_def)
  ultimately show ?thesis using assms(2) cal_repD [OF assms(1)] by (auto simp: cal_rep_def dest: notin_set_remove1)
qed

lemma adapt_ok:
  assumes "cal_rep evs c xs"
  shows "\<exists>c'. cal_adapt evs e c = Inr c' \<and> cal_rep evs c' xs \<and> cl_clock c' = cl_clock c"
proof -
  have same: "cal_rep evs c' xs \<and> cl_clock c' = cl_clock c" if "same_queue c c'" for c'
    using same_queue_rep [OF that assms] that by (simp add: same_queue_def)
  define c1 where "c1 = c\<lparr>cl_gap_num := cl_gap_num c + 1\<rparr>"
  define c2 where "c2 = c1\<lparr>cl_avg_gap := (ev_time (evs e) - cl_last_time c1) / of_int (cl_gap_num c1), cl_gap_num := 0,
    cl_last_time := ev_time (evs e), cl_round_num := cl_round_num c1 + 1\<rparr>"
  have s: "same_queue c c1" "same_queue c c2" "same_queue c (c\<lparr>cl_last_time := tm evs e\<rparr>)"
    "same_queue c (c2\<lparr>cl_round_num := 0, cl_head_search := 0, cl_insert_search := 0\<rparr>)" "same_queue c c"
    by (simp_all add: c1_def c2_def same_queue_def)
  note r = s [THEN same]
  have "2 \<le> cl_nbuckets c2" using frame_okD(2) [OF cal_repD(6), of evs c2 xs] r(2) by simp
  then obtain c3 where c3: "cal_resize evs (cl_nbuckets c2) (cl_clock c2) c2 = Inr c3" "cal_rep evs c3 xs" "cl_clock c3 = cl_clock c2"
    using resize_ok r(2) by blast
  have "same_queue c3 (c3\<lparr>cl_round_num := 0\<rparr>)" by (simp add: same_queue_def)
  then have "cal_rep evs (c3\<lparr>cl_round_num := 0\<rparr>) xs" using same_queue_rep c3(2) by blast
  then show ?thesis
    using r c3 unfolding cal_adapt_def Let_def c1_def [symmetric] c2_def [symmetric] by simp
qed

lemma deque_ok:
  assumes "cal_rep evs c (x # xs)"
  shows "\<exists>c'. cal_deque evs c = Inr (Some x, c') \<and> cal_rep evs c' xs"
proof -
  obtain c1 where c1: "cal_head evs c = Inr (Some x, c1)" "cal_rep evs c1 (x # xs)" "cl_clock c1 = tm evs x"
    using head_cons [OF assms] by blast
  obtain c2 where c2: "cal_adapt evs x c1 = Inr c2" "cal_rep evs c2 (x # xs)" "cl_clock c2 = tm evs x"
    using adapt_ok [OF c1(2)] c1(3) by metis
  note D = cal_repD [OF c2(2)]
  have x0: "0 \<le> tm evs x" by (rule cal_rep_nonneg [OF c2(2)]) simp
  have l: "cl_lastbucket c2 = cal_hash c2 (tm evs x)" using D(5) c2(3) by simp
  define b where "b = bucket_of evs c2 (x # xs) (nat (cal_hash c2 (tm evs x)))"
  obtain ys where ys: "b = x # ys" using hash_range(1) [OF D(6) x0] by (simp add: b_def bucket_of_def)
  have srt: "in_order evs (x # ys)" unfolding ys [symmetric] b_def bucket_of_def by (rule in_order_filter [OF D(3)])
  have "distinct b" unfolding b_def bucket_of_def by (rule distinct_filter [OF D(2)])
  then have x: "x \<notin> set ys" using ys by simp
  define u where "u \<longleftrightarrow> tl b = [] \<or> ev_time (evs (hd (tl b))) \<noteq> ev_time (evs x)"
  have u: "u \<longleftrightarrow> tm evs x \<notin> tm evs ` (set b - {x})"
    using srt x by (cases ys) (force simp: u_def ys)+
  define c3 where "c3 = c2\<lparr>cl_buckets := (cl_buckets c2)[nat (cal_hash c2 (tm evs x)) := (remove1 x b, if u then n_times evs b - 1 else n_times evs b)],
      cl_stat_qsize := (if u then cl_stat_qsize c2 - 1 else cl_stat_qsize c2), cl_qsize := cl_qsize c2 - 1\<rparr>"
  have "holds evs c3 (remove1 x (x # xs))" unfolding c3_def
    by (rule holds_remove [OF D(1,2) _ x0 b_def u]) simp
  then have rep: "cal_rep evs c3 xs" using rep_remove [OF c2(2), of c3 x] by (simp add: c3_def same_shape_def)
  have "cal_unlink_head evs x c2 = Inr c3"
    unfolding cal_unlink_head_def Let_def l bucket_get [OF D(1) x0] b_def [symmetric] rbind_Inr prod.case u_def [symmetric]
      bucket_upd [OF D(6) x0]
    by (simp add: c3_def ys)
  then have step: "cal_deque evs c = rbind (if cl_stat_qsize c3 < cl_bot_threshold c3
      then cal_resize evs (drop_bit 1 (cl_nbuckets c3)) (cl_clock c3) c3 else Inr c3) (\<lambda>c4. Inr (Some x, c4))"
    using c1(1) c2(1) by (simp add: cal_deque_def)
  have "2 \<le> drop_bit 1 (cl_nbuckets c3)" using frame_okD(2) [OF cal_repD(6) [OF rep]] by (simp add: drop_bit_eq_div)
  from resize_ok [OF rep this] show ?thesis using rep step by auto
qed

subsection \<open>Cancellation and lookup\<close>

lemma sorted_ends:
  assumes "in_order evs xs" "xs \<noteq> []"
  shows "\<forall>p\<in>set xs. tm evs (hd xs) \<le> tm evs p \<and> tm evs p \<le> tm evs (last xs)"
proof
  fix p assume p: "p \<in> set xs"
  have "in_order evs (butlast xs @ [last xs])" using assms by simp
  then have "\<forall>q\<in>set (butlast xs). tm evs q \<le> tm evs (last xs)" by (simp add: sorted_wrt_append)
  moreover have "set xs = insert (last xs) (set (butlast xs))"
    using assms(2) by (metis append_butlast_last_id list.simps(15) rotate1.simps(2) set_rotate1)
  ultimately have "tm evs p \<le> tm evs (last xs)" using p by auto
  moreover have "tm evs (hd xs) \<le> tm evs p" using assms p by (cases xs) auto
  ultimately show "tm evs (hd xs) \<le> tm evs p \<and> tm evs p \<le> tm evs (last xs)" by blast
qed

text \<open>The neighbours in the ring tell whether the time occurs once.\<close>

lemma ring_unique_iff:
  assumes "in_order evs xs" "distinct xs" "e \<in> set xs"
  shows "ring_unique evs e xs \<longleftrightarrow> tm evs e \<notin> tm evs ` (set xs - {e})"
proof -
  obtain us vs where xs: "xs = us @ e # vs" by (meson split_list assms(3))
  have e: "e \<notin> set us" "e \<notin> set vs" using assms(2) by (simp_all add: xs)
  have k: "length (takeWhile (\<lambda>p. p \<noteq> e) xs) = length us" using e by (simp add: xs takeWhile_append)
  have rest: "set xs - {e} = set us \<union> set vs" using e by (auto simp: xs)
  have us: "in_order evs us" "\<forall>p\<in>set us. tm evs p \<le> tm evs e" and vs: "in_order evs vs" "\<forall>p\<in>set vs. tm evs e \<le> tm evs p"
    using assms(1) by (auto simp: xs sorted_wrt_append)
  show ?thesis
  proof (cases "us = [] \<and> vs = []")
    case True
    then show ?thesis by (simp add: ring_unique_def xs)
  next
    case False
    let ?n = "length xs" and ?k = "length us"
    have nx: "xs ! ((?k + 1) mod ?n) = (if vs \<noteq> [] then hd vs else hd us)"
    proof (cases "vs = []")
      case True
      then show ?thesis using False by (cases us) (simp_all add: xs)
    next
      case ne: False
      then have "(?k + 1) mod ?n = ?k + 1" by (simp add: xs)
      then show ?thesis using ne by (simp add: xs nth_append hd_conv_nth)
    qed
    have pv: "xs ! ((?k + ?n - 1) mod ?n) = (if us \<noteq> [] then last us else last vs)"
    proof (cases "us = []")
      case True
      then have "(?k + ?n - 1) mod ?n = ?n - 1" by (simp add: xs)
      then show ?thesis using True False by (simp add: xs last_conv_nth nth_Cons')
    next
      case ne: False
      then obtain l where l: "?k = Suc l" by (cases us) auto
      have "(?k + ?n - 1) mod ?n = l" by (simp add: l) (simp add: xs l)
      then show ?thesis using ne l by (simp add: xs nth_append last_conv_nth)
    qed
    have "ring_unique evs e xs \<longleftrightarrow> tm evs (if vs \<noteq> [] then hd vs else hd us) \<noteq> tm evs e \<and> tm evs (if us \<noteq> [] then last us else last vs) \<noteq> tm evs e"
      unfolding ring_unique_def Let_def k nx pv using False by (auto simp: xs)
    also have "\<dots> \<longleftrightarrow> tm evs e \<notin> tm evs ` (set us \<union> set vs)"
    proof
      assume un: "tm evs (if vs \<noteq> [] then hd vs else hd us) \<noteq> tm evs e \<and> tm evs (if us \<noteq> [] then last us else last vs) \<noteq> tm evs e"
      show "tm evs e \<notin> tm evs ` (set us \<union> set vs)"
      proof
        assume "tm evs e \<in> tm evs ` (set us \<union> set vs)"
        then obtain q where q: "tm evs q = tm evs e" "q \<in> set us \<or> q \<in> set vs" by auto
        then show False
        proof (elim disjE)
          assume "q \<in> set us"
          then have ne: "us \<noteq> []" by auto
          then have "tm evs q \<le> tm evs (last us)" "tm evs (last us) \<le> tm evs e"
            using sorted_ends [OF us(1)] us(2) \<open>q \<in> set us\<close> by auto
          then show False using q(1) un ne by auto
        next
          assume "q \<in> set vs"
          then have ne: "vs \<noteq> []" by auto
          then have "tm evs (hd vs) \<le> tm evs q" "tm evs e \<le> tm evs (hd vs)"
            using sorted_ends [OF vs(1)] vs(2) \<open>q \<in> set vs\<close> by auto
          then show False using q(1) un ne by auto
        qed
      qed
    next
      assume notin: "tm evs e \<notin> tm evs ` (set us \<union> set vs)"
      have ne: "tm evs q \<noteq> tm evs e" if "q \<in> set us \<or> q \<in> set vs" for q
      proof
        assume "tm evs q = tm evs e"
        moreover have "tm evs q \<in> tm evs ` (set us \<union> set vs)" using that by (intro imageI) auto
        ultimately show False using notin by simp
      qed
      show "tm evs (if vs \<noteq> [] then hd vs else hd us) \<noteq> tm evs e \<and> tm evs (if us \<noteq> [] then last us else last vs) \<noteq> tm evs e"
        using False by (auto intro!: ne)
    qed
    finally show ?thesis by (simp only: rest)
  qed
qed

lemma cancel_ok:
  assumes "cal_rep evs c xs" "e \<in> set xs" "0 < ev_uid (evs e)"
  shows "\<exists>c'. cal_cancel evs e c = Inr (set_uid e (- ev_uid (evs e)) evs, c') \<and> cal_rep evs c' (remove1 e xs)"
proof -
  note D = cal_repD [OF assms(1)]
  have e0: "0 \<le> tm evs e" by (rule cal_rep_nonneg [OF assms(1,2)])
  let ?i = "nat (cal_hash c (tm evs e))"
  define b where "b = bucket_of evs c xs ?i"
  have b: "in_order evs b" "distinct b" "e \<in> set b"
    using in_order_filter [OF D(3)] D(2) assms(2) hash_range(1) [OF D(6) e0] by (simp_all add: b_def bucket_of_def)
  define u where "u = ring_unique evs e b"
  note u = ring_unique_iff [OF b, folded u_def]
  define c1 where "c1 = c\<lparr>cl_buckets := (cl_buckets c)[?i := (remove1 e b, if u then n_times evs b - 1 else n_times evs b)],
      cl_stat_qsize := (if u then cl_stat_qsize c - 1 else cl_stat_qsize c), cl_qsize := cl_qsize c - 1\<rparr>"
  have h: "holds evs c1 (remove1 e xs)" unfolding c1_def by (rule holds_remove [OF D(1,2) assms(2) e0 b_def u])
  then have rep: "cal_rep evs c1 (remove1 e xs)" using rep_remove [OF assms(1)] by (simp add: c1_def same_shape_def)
  have n: "(if u then n_times evs b - 1 else n_times evs b) = n_times evs (remove1 e b)"
    using n_times_remove [OF b(2,3) u] by simp
  have st: "(if u then cl_stat_qsize c - 1 else cl_stat_qsize c) = n_times evs (remove1 e xs)"
    using h by (simp add: holds_def c1_def)
  have pos: "0 \<le> n_times evs ys" for ys by (simp add: n_times_def)
  have nil: "n_times evs ys = 0 \<longleftrightarrow> ys = []" for ys by (simp add: n_times_def)
  have c1: "c1 = c\<lparr>cl_buckets := (cl_buckets c)[?i := (remove1 e b, n_times evs (remove1 e b))],
      cl_stat_qsize := n_times evs (remove1 e xs), cl_qsize := cl_qsize c - 1\<rparr>" by (simp only: c1_def n st)
  have no: "\<not> ev_uid (evs e) \<le> 0" "\<not> e \<notin> set b" "\<not> (u \<and> (n_times evs (remove1 e xs) < 0 \<or> n_times evs (remove1 e b) < 0))"
      "\<not> (n_times evs (remove1 e b) = 0 \<and> remove1 e b \<noteq> [])"
    using assms(3) b(3) pos [of "remove1 e b"] pos [of "remove1 e xs"] nil [of "remove1 e b"] by simp_all
  have "cal_cancel evs e c = Inr (set_uid e (- ev_uid (evs e)) evs, c1)"
    by (simp only: cal_cancel_def Let_def bucket_get [OF D(1) e0] b_def [symmetric] rbind_Inr prod.case u_def [symmetric]
      bucket_upd [OF D(6) e0] n st c1 no if_False)
  then show ?thesis using rep by blast
qed

lemma lookup_ok:
  assumes "cal_rep evs c xs" "inj_on (\<lambda>p. ev_uid (evs p)) (set xs)"
  shows "cal_lookup evs u c = find (\<lambda>p. ev_uid (evs p) = u) xs"
proof -
  note D = cal_repD [OF assms(1)]
  note f = frame_okD [OF D(6)]
  have "cl_buckets c = map (\<lambda>i. (bucket_of evs c xs i, n_times evs (bucket_of evs c xs i))) [0..<length (cl_buckets c)]"
    by (rule nth_equalityI) (simp_all add: bucket_of_nth [OF D(1)])
  then have "map fst (cl_buckets c) = map (bucket_of evs c xs) [0..<length (cl_buckets c)]"
    by (metis (no_types, lifting) fst_conv list.map_comp map_cong o_apply)
  then have "set (concat (map fst (cl_buckets c))) = (\<Union>i<length (cl_buckets c). set (bucket_of evs c xs i))" by auto
  also have "\<dots> = set xs"
  proof -
    have "p \<in> set (bucket_of evs c xs (nat (cal_hash c (tm evs p))))" "nat (cal_hash c (tm evs p)) < length (cl_buckets c)" if "p \<in> set xs" for p
      using that hash_range [OF D(6) cal_rep_nonneg [OF assms(1) that]] by (simp_all add: bucket_of_def)
    then show ?thesis by (fastforce simp: bucket_of_def)
  qed
  finally show ?thesis unfolding cal_lookup_def by (rule find_unique [OF sym, OF _ assms(2), symmetric])
qed

lemma cal_rep_frame:
  assumes "cal_rep evs c xs" "\<And>p. p \<in> set xs \<Longrightarrow> tm evs' p = tm evs p"
  shows "cal_rep evs' c xs"
proof -
  have b: "bucket_of evs' c xs i = bucket_of evs c xs i" for i
    unfolding bucket_of_def by (intro filter_cong refl) (simp add: assms(2))
  have t: "n_times evs' ys = n_times evs ys" if "set ys \<subseteq> set xs" for ys
    unfolding n_times_def using that assms(2) by (metis (no_types, lifting) image_cong subsetD)
  have "set (bucket_of evs c xs i) \<subseteq> set xs" for i by (auto simp: bucket_of_def)
  moreover have "in_order evs' xs"
    by (rule sorted_wrt_mono_rel [OF _ cal_repD(3) [OF assms(1)]]) (simp add: assms(2))
  ultimately show ?thesis using assms t b by (simp add: cal_rep_def holds_def)
qed

interpretation csq: event_queue cal_ops cal_rep "\<lambda>_ _. True" "\<lambda>t. 0 \<le> t"
proof unfold_locales
  fix t t' :: real assume "0 \<le> t" "t \<le> t'"
  then show "0 \<le> t'" by simp
next
  fix evs q xs assume "cal_rep evs q xs"
  then show "distinct xs" by (rule cal_repD(2))
next
  fix evs evs' :: events and q xs assume "cal_rep evs q xs" "\<And>p. p \<in> set xs \<Longrightarrow> tm evs' p = tm evs p"
  then show "cal_rep evs' q xs" by (rule cal_rep_frame)
next
  fix evs q xs e assume "cal_rep evs q xs" "e \<notin> set xs" "0 \<le> tm evs e"
  then show "\<exists>q'. op_insert cal_ops evs e q = Inr q' \<and> cal_rep evs q' (place (tm evs) e xs) \<and> True"
    using insert_ok by (simp add: cal_ops_def)
next
  fix evs q assume "cal_rep evs q []"
  then show "op_deque cal_ops evs q = Inr (None, q)" by (simp add: cal_ops_def cal_deque_def head_nil)
next
  fix evs q x xs assume "cal_rep evs q (x # xs)"
  then show "\<exists>q'. op_deque cal_ops evs q = Inr (Some x, q') \<and> cal_rep evs q' xs \<and> (\<forall>n::nat. True \<longrightarrow> True)"
    using deque_ok by (simp add: cal_ops_def)
next
  fix evs :: events and e q assume "ev_uid (evs e) \<le> 0"
  then show "op_cancel cal_ops evs e q = Inr (evs, q)" by (simp add: cal_ops_def cal_cancel_def)
next
  fix evs :: events and q xs e assume "cal_rep evs q xs" "ordered evs xs" "e \<in> set xs" "0 < ev_uid (evs e)"
  then show "\<exists>q'. op_cancel cal_ops evs e q = Inr (set_uid e (- ev_uid (evs e)) evs, q') \<and>
      cal_rep evs q' (remove1 e xs) \<and> (\<forall>n::nat. True \<longrightarrow> True)"
    using cancel_ok by (simp add: cal_ops_def)
next
  fix evs :: events and q xs u assume "cal_rep evs q xs" "inj_on (\<lambda>p. ev_uid (evs p)) (set xs)"
  then show "op_lookup cal_ops evs u q = find (\<lambda>p. ev_uid (evs p) = u) xs" by (simp add: cal_ops_def lookup_ok)
qed

lemma cal_rep_new: "cal_rep evs (new_calendar adj minw) []"
  by (simp add: new_calendar_def reinit_def Let_def cal_rep_def holds_def frame_ok_def bucket_of_def n_times_def cal_hash_def)

lemma calendar_agrees:
  assumes "rfold (perform list_ops) acts (new_sched []) = Inr l"
    and "run_steps n list_ops hnd (l, st, []) = Inr (l', st', lg)" and "0 \<le> sc_uid l'"
    and "\<And>h e d. Do_Schedule h e d \<in> set acts \<Longrightarrow> 0 \<le> d"
    and "forward hnd"
  obtains s s' where "rfold (perform cal_ops) acts (new_sched (new_calendar adj minw)) = Inr s"
    "run_steps n cal_ops hnd (s, st, []) = Inr (s', st', lg)" "csq.agree (sc_uid l') s' l'"
proof -
  have u: "0 \<le> sc_uid l" "sc_uid l \<le> sc_uid l'" using run_uid [OF assms(2,3)] by auto
  have "csq.agree (sc_uid l') (new_sched (new_calendar adj minw)) (new_sched [])"
    using cal_rep_new by (simp add: csq.agree_def new_sched_def numbered_def new_event_def)
  moreover have "csq.on_time acts (sc_clock (new_sched []))" using assms(4) by (simp add: csq.on_time_def new_sched_def)
  ultimately obtain s where
    s: "rfold (perform cal_ops) acts (new_sched (new_calendar adj minw)) = Inr s" "csq.agree (sc_uid l') s l"
    using csq.performs_agree [OF _ assms(1) u] by blast
  have "csq.mannered hnd" using assms(5) by (simp add: csq.mannered_def)
  then obtain s' where
    s': "run_steps n cal_ops hnd (s, st, []) = Inr (s', st', lg)" "csq.agree (sc_uid l') s' l'"
    using csq.run_agree [OF s(2) assms(2,3)] by blast
  show thesis using that s s' by blast
qed

text \<open>
  C10. The calendar queue, which the simulator uses unless told otherwise, runs as the list
  scheduler does. Whatever a program schedules, never with a negative delay, and cancels in a
  new \<open>ListScheduler\<close> and however long it runs there, a new \<open>CalendarScheduler\<close> with any
  setting of its adaptation dispatches the same events at the same times in the same order,
  and ends with the same clock, counter and pending events: no assertion on its counts or its
  width fails, and no search for the next event goes round without end.
\<close>

theorem calendar_runs_like_list:
  assumes "rfold (perform list_ops) acts (new_sched []) = Inr l"
    and "run_steps n list_ops hnd (l, st, []) = Inr (l', st', lg)" and "0 \<le> sc_uid l'"
    and "\<And>h e d. Do_Schedule h e d \<in> set acts \<Longrightarrow> 0 \<le> d"
    and "forward hnd"
  shows "\<exists>s s'. rfold (perform cal_ops) acts (new_sched (new_calendar adj minw)) = Inr s \<and>
    run_steps n cal_ops hnd (s, st, []) = Inr (s', st', lg) \<and> sc_clock s' = sc_clock l' \<and>
    sc_halted s' = sc_halted l' \<and> sc_uid s' = sc_uid l' \<and> sc_events s' = sc_events l' \<and>
    (\<exists>c. dumpq (Suc (length (sc_queue l'))) cal_ops (sc_events l') (sc_queue s') = Inr (sc_queue l', c))"
proof -
  obtain s s' where s: "rfold (perform cal_ops) acts (new_sched (new_calendar adj minw)) = Inr s"
    "run_steps n cal_ops hnd (s, st, []) = Inr (s', st', lg)" "csq.agree (sc_uid l') s' l'"
    using calendar_agrees [OF assms] .
  have "\<exists>c. dumpq (Suc (length (sc_queue l'))) cal_ops (sc_events l') (sc_queue s') = Inr (sc_queue l', c)"
    using s(3) by (intro csq.dumpq_all [of "sc_events l'"]) (simp_all add: csq.agree_def)
  then show ?thesis using s by (auto simp: csq.agree_def)
qed

theorem calendar_runs_like_list_witness:
  "\<exists>s s'. rfold (perform cal_ops) demo_acts (new_sched (new_calendar 0 (1 / 10 ^ 18))) = Inr s \<and>
    run_steps 10 cal_ops demo_handlers (s, 0, []) = Inr (s', 1, [(1/2, 2, 2), (1, 1, 1), (1, 4, 4), (1, 5, 2)])"
proof -
  obtain l' where run: "run_steps 10 list_ops demo_handlers (demo_sched, 0, []) =
      Inr (l', 1, [(1/2, 2, 2), (1, 1, 1), (1, 4, 4), (1, 5, 2)])" and u: "sc_uid l' = 6"
    using demo_run by blast
  have "0 \<le> d" if "Do_Schedule h e d \<in> set demo_acts" for h e d using that by (auto simp: demo_acts_def)
  with calendar_runs_like_list [OF demo_boot run _ _ demo_forward] u show ?thesis by fastforce
qed

text \<open>
  C25. The calendar is well formed after every run: it has at least four buckets of positive
  width, each bucket holds exactly the pending events that hash to it, in the order of their
  dispatch, with the number of their different times, and the two sizes of the queue count the
  pending events and their different times.
\<close>

theorem calendar_well_formed:
  assumes "rfold (perform list_ops) acts (new_sched []) = Inr l"
    and "run_steps n list_ops hnd (l, st, []) = Inr (l', st', lg)" and "0 \<le> sc_uid l'"
    and "\<And>h e d. Do_Schedule h e d \<in> set acts \<Longrightarrow> 0 \<le> d"
    and "forward hnd"
  shows "\<exists>s s' c. rfold (perform cal_ops) acts (new_sched (new_calendar adj minw)) = Inr s \<and>
    run_steps n cal_ops hnd (s, st, []) = Inr (s', st', lg) \<and> c = sc_queue s' \<and>
    0 < cl_width c \<and> 4 \<le> cl_nbuckets c \<and> length (cl_buckets c) = nat (cl_nbuckets c) \<and>
    cl_qsize c = int (length (sc_queue l')) \<and> cl_stat_qsize c = int (card (tm (sc_events l') ` set (sc_queue l'))) \<and>
    in_order (sc_events l') (sc_queue l') \<and>
    (\<forall>i < length (cl_buckets c). let b = filter (\<lambda>p. cal_hash c (tm (sc_events l') p) = int i) (sc_queue l') in
      cl_buckets c ! i = (b, int (card (tm (sc_events l') ` set b))))"
proof -
  obtain s s' where s: "rfold (perform cal_ops) acts (new_sched (new_calendar adj minw)) = Inr s"
    "run_steps n cal_ops hnd (s, st, []) = Inr (s', st', lg)" "csq.agree (sc_uid l') s' l'"
    using calendar_agrees [OF assms] .
  have rep: "cal_rep (sc_events l') (sc_queue s') (sc_queue l')" using s(3) by (simp add: csq.agree_def)
  note D = cal_repD [OF rep]
  have "holds (sc_events l') (sc_queue s') (sc_queue l')" by (rule D(1))
  then show ?thesis
    using s(1,2) D(3) frame_okD [OF D(6)] by (intro exI [of _ s] exI [of _ s'] exI [of _ "sc_queue s'"])
      (simp add: holds_def bucket_of_def n_times_def Let_def)
qed

theorem calendar_well_formed_witness:
  "\<exists>s s'. rfold (perform cal_ops) demo_acts (new_sched (new_calendar 0 (1 / 10 ^ 18))) = Inr s \<and>
    run_steps 10 cal_ops demo_handlers (s, 0, []) = Inr (s', 1, [(1/2, 2, 2), (1, 1, 1), (1, 4, 4), (1, 5, 2)]) \<and>
    4 \<le> cl_nbuckets (sc_queue s') \<and> cl_qsize (sc_queue s') = 0 \<and> cl_stat_qsize (sc_queue s') = 0"
proof -
  obtain l' where run: "run_steps 10 list_ops demo_handlers (demo_sched, 0, []) =
      Inr (l', 1, [(1/2, 2, 2), (1, 1, 1), (1, 4, 4), (1, 5, 2)])" and u: "sc_uid l' = 6" and q: "sc_queue l' = []"
    using demo_run by blast
  have "0 \<le> d" if "Do_Schedule h e d \<in> set demo_acts" for h e d using that by (auto simp: demo_acts_def)
  with calendar_well_formed [OF demo_boot run _ _ demo_forward] u q show ?thesis by fastforce
qed

end
