(* ===== verification/LinkDelay.thy ===== *)
theory LinkDelay
  imports Timer CalendarOrder
begin

section \<open>Links with delay\<close>

text \<open>
  \<open>LinkDelay\<close> of link/delay.h and link/delay.cc on a scheduler. A packet is an event, so a
  packet and an event have the same address. The queue \<open>itq_\<close> of the packets in transit
  on a dynamic link is the list it represents (theory \<open>PacketQueue\<close>). The packet size is
  an argument, as are the handlers. What \<open>send\<close> and \<open>drop\<close> hand on is logged.
\<close>

record link_delay =
  ld_bandwidth :: real
  ld_delay :: real
  ld_dynamic :: bool
  ld_avoidReordering :: bool
  ld_latest_time :: real
  ld_intr :: nat                    \<comment> \<open>the address of the event intr_\<close>
  ld_self :: nat                    \<comment> \<open>the link itself as a handler\<close>
  ld_target :: nat                  \<comment> \<open>the target as a handler\<close>
  ld_itq :: "nat list option"
  ld_total :: "int list"            \<comment> \<open>the counters of pktintran\<close>
  ld_sent :: "nat list"
  ld_dropped :: "nat list"

definition new_link_delay :: "real \<Rightarrow> real \<Rightarrow> bool \<Rightarrow> nat \<Rightarrow> nat \<Rightarrow> nat \<Rightarrow> link_delay" where
  "new_link_delay bandwidth delay avoid intr self target =
     \<lparr>ld_bandwidth = bandwidth, ld_delay = delay, ld_dynamic = False, ld_avoidReordering = avoid,
      ld_latest_time = 0, ld_intr = intr, ld_self = self, ld_target = target, ld_itq = None,
      ld_total = [0, 0, 0, 0], ld_sent = [], ld_dropped = []\<rparr>"

definition txtime :: "int \<Rightarrow> link_delay \<Rightarrow> real" where
  "txtime sz ld = 8 * real_of_int sz / ld_bandwidth ld"

text \<open>\<open>isDynamic\<close>\<close>

definition make_dynamic :: "link_delay \<Rightarrow> link_delay" where
  "make_dynamic ld = ld\<lparr>ld_dynamic := True, ld_itq := Some []\<rparr>"

definition set_time :: "nat \<Rightarrow> real \<Rightarrow> events \<Rightarrow> events" where
  "set_time e t evs = evs(e := (evs e)\<lparr>ev_time := t\<rparr>)"

text \<open>The part of \<open>recv\<close> that schedules the packet.\<close>

definition schedule_packet ::
  "'q event_ops \<Rightarrow> real \<Rightarrow> nat \<Rightarrow> link_delay \<times> 'q sched \<Rightarrow> (link_delay \<times> 'q sched) res" where
  "schedule_packet ops txt p = (\<lambda>(ld, s).
     if ld_dynamic ld then
       (case ld_itq ld of
          None \<Rightarrow> Inl Null_Deref
        | Some q \<Rightarrow>
            rbind (schedule ops (Some (ld_self ld)) p (txt + ld_delay ld)
                (s\<lparr>sc_events := set_time p (txt + ld_delay ld) (sc_events s)\<rparr>))
              (\<lambda>s'. Inr (ld\<lparr>ld_itq := Some (q @ [p])\<rparr>, s')))
     else if ld_avoidReordering ld then
       (let now = sc_clock s in
        if txt + ld_delay ld < ld_latest_time ld - now \<and> ld_latest_time ld > 0 then
          let latest = ld_latest_time ld + txt in
          rbind (schedule ops (Some (ld_target ld)) p (latest - now) s)
            (\<lambda>s'. Inr (ld\<lparr>ld_latest_time := latest\<rparr>, s'))
        else
          rbind (schedule ops (Some (ld_target ld)) p (txt + ld_delay ld) s)
            (\<lambda>s'. Inr (ld\<lparr>ld_latest_time := now + txt + ld_delay ld\<rparr>, s')))
     else rbind (schedule ops (Some (ld_target ld)) p (txt + ld_delay ld) s) (\<lambda>s'. Inr (ld, s')))"

definition LinkDelay_recv ::
  "'q event_ops \<Rightarrow> int \<Rightarrow> nat \<Rightarrow> nat option \<Rightarrow> link_delay \<times> 'q sched \<Rightarrow> (link_delay \<times> 'q sched) res" where
  "LinkDelay_recv ops sz p h c =
     (let txt = txtime sz (fst c) in
      rbind (schedule_packet ops txt p c) (\<lambda>(ld, s).
        rbind (schedule ops h (ld_intr ld) txt s) (\<lambda>s'. Inr (ld, s'))))"

definition LinkDelay_send :: "nat \<Rightarrow> link_delay \<Rightarrow> link_delay" where
  "LinkDelay_send p ld = ld\<lparr>ld_sent := ld_sent ld @ [p]\<rparr>"

definition LinkDelay_handle :: "nat \<Rightarrow> link_delay \<times> 'q sched \<Rightarrow> (link_delay \<times> 'q sched) res" where
  "LinkDelay_handle e = (\<lambda>(ld, s).
     case ld_itq ld of
       None \<Rightarrow> Inl Null_Deref
     | Some [] \<Rightarrow> Inl Null_Deref
     | Some (p # q) \<Rightarrow>
         if ev_time (sc_events s p) = ev_time (sc_events s e)
         then Inr (LinkDelay_send p (ld\<lparr>ld_itq := Some q\<rparr>), s) else Inl Aborted)"

fun kill_all :: "'q event_ops \<Rightarrow> nat list \<Rightarrow> link_delay \<times> 'q sched \<Rightarrow> (link_delay \<times> 'q sched) res" where
  "kill_all ops [] (ld, s) = Inr (ld\<lparr>ld_itq := Some []\<rparr>, s)"
| "kill_all ops (p # q) (ld, s) =
     rbind (cancel ops p s) (\<lambda>s'. kill_all ops q (ld\<lparr>ld_dropped := ld_dropped ld @ [p]\<rparr>, s'))"

definition LinkDelay_reset :: "'q event_ops \<Rightarrow> link_delay \<times> 'q sched \<Rightarrow> (link_delay \<times> 'q sched) res" where
  "LinkDelay_reset ops = (\<lambda>(ld, s).
     case ld_itq ld of None \<Rightarrow> Inr (ld, s) | Some q \<Rightarrow> if q = [] then Inr (ld, s) else kill_all ops q (ld, s))"

text \<open>
  The command \<open>pktintran\<close> counts the packets in transit by kind, from the last to the
  first. The headers it reads are an argument. \<open>total_\<close> has no value before the first call;
  the model starts it at zero.
\<close>

record intran_hdr =
  ih_flowid :: int
  ih_saddr :: int
  ih_daddr :: int
  ih_mcast_src :: int
  ih_mcast_group :: int

definition count_packet :: "int \<Rightarrow> int \<Rightarrow> intran_hdr \<Rightarrow> int list \<Rightarrow> int list" where
  "count_packet src grp h t =
     (let reg = 1; prune = 30; graft = 31; data = 0; up = \<lambda>i. t[i := t ! i + 1] in
      if ih_flowid h = prune then (if ih_saddr h = src \<and> ih_daddr h = grp then up 0 else t)
      else if ih_flowid h = graft then (if ih_saddr h = src \<and> ih_daddr h = grp then up 1 else t)
      else if ih_flowid h = reg then (if ih_mcast_src h = src + 1 \<and> ih_mcast_group h = grp then up 2 else t)
      else if ih_flowid h = data then (if ih_saddr h = src + 1 \<and> ih_daddr h = grp then up 3 else t)
      else t)"

definition pktintran :: "(nat \<Rightarrow> intran_hdr) \<Rightarrow> int \<Rightarrow> int \<Rightarrow> link_delay \<Rightarrow> link_delay res" where
  "pktintran hdr src grp ld =
     (if \<not> ld_dynamic ld then Inr (ld\<lparr>ld_total := [0, 0, 0, 0]\<rparr>)
      else
        (case ld_itq ld of
           None \<Rightarrow> Inl Null_Deref
         | Some q \<Rightarrow> Inr (ld\<lparr>ld_total := fold (\<lambda>p. count_packet src grp (hdr p)) (rev q) [0, 0, 0, 0]\<rparr>)))"

subsection \<open>Arrival times\<close>

lemma schedule_Inr:
  "schedule ops h e d s = Inr s' \<Longrightarrow>
   ev_time (sc_events s' e) = sc_clock s + d \<and> sc_clock s' = sc_clock s \<and>
   (\<forall>p. p \<noteq> e \<longrightarrow> sc_events s' p = sc_events s p)"
  by (auto simp: schedule_def Let_def simp: rbind_eq_Inr split: option.splits if_splits)

text \<open>
  The time at which the packet is due, and what it does to \<open>latest_time_\<close>.
\<close>

definition due :: "real \<Rightarrow> real \<Rightarrow> link_delay \<Rightarrow> real" where
  "due now txt ld =
     (if \<not> ld_dynamic ld \<and> ld_avoidReordering ld \<and> now + txt + ld_delay ld < ld_latest_time ld \<and> ld_latest_time ld > 0
      then ld_latest_time ld + txt else now + txt + ld_delay ld)"

lemma schedule_packet_due:
  assumes "schedule_packet ops txt p (ld, s) = Inr (ld', s')"
  shows "ev_time (sc_events s' p) = due (sc_clock s) txt ld" and "sc_clock s' = sc_clock s"
    and "ld_intr ld' = ld_intr ld" and "ld_avoidReordering ld' = ld_avoidReordering ld"
    and "ld_dynamic ld' = ld_dynamic ld"
    and "\<not> ld_dynamic ld \<Longrightarrow> ld_avoidReordering ld \<Longrightarrow> ld_latest_time ld' = ev_time (sc_events s' p)"
  using assms
  by (auto simp: schedule_packet_def due_def rbind_eq_Inr Let_def algebra_simps
      split: if_splits option.splits dest!: schedule_Inr)

lemma LinkDelay_recv_times:
  assumes "LinkDelay_recv ops sz p h (ld, s) = Inr (ld', s')" and "p \<noteq> ld_intr ld"
  shows "ev_time (sc_events s' p) = due (sc_clock s) (txtime sz ld) ld"
    and "ev_time (sc_events s' (ld_intr ld)) = sc_clock s + txtime sz ld"
    and "sc_clock s' = sc_clock s" and "ld_avoidReordering ld' = ld_avoidReordering ld"
    and "ld_dynamic ld' = ld_dynamic ld" and "ld_intr ld' = ld_intr ld"
    and "\<not> ld_dynamic ld \<Longrightarrow> ld_avoidReordering ld \<Longrightarrow> ld_latest_time ld' = ev_time (sc_events s' p)"
proof -
  obtain ld1 s1 where 1: "schedule_packet ops (txtime sz ld) p (ld, s) = Inr (ld1, s1)"
    "schedule ops h (ld_intr ld1) (txtime sz ld) s1 = Inr s'" "ld' = ld1"
    using assms(1) by (auto simp: LinkDelay_recv_def rbind_eq_Inr Let_def)
  note due = schedule_packet_due [OF 1(1)]
  note intr = schedule_Inr [OF 1(2)]
  show "ev_time (sc_events s' p) = due (sc_clock s) (txtime sz ld) ld"
    "ev_time (sc_events s' (ld_intr ld)) = sc_clock s + txtime sz ld"
    "sc_clock s' = sc_clock s" "ld_avoidReordering ld' = ld_avoidReordering ld"
    "ld_dynamic ld' = ld_dynamic ld" "ld_intr ld' = ld_intr ld"
    using due(1-5) intr assms(2) 1(3) by auto
  show "\<not> ld_dynamic ld \<Longrightarrow> ld_avoidReordering ld \<Longrightarrow> ld_latest_time ld' = ev_time (sc_events s' p)"
    using due(3,6) intr assms(2) 1(3) by auto
qed

text \<open>
  A history of packets on one link: between them the scheduler does anything that does not
  turn its clock back, and the script may set the bandwidth and the delay anew.
\<close>

inductive delay_run :: "'q event_ops \<Rightarrow> link_delay \<Rightarrow> real \<Rightarrow> (nat \<times> real) list \<Rightarrow> bool" for ops :: "'q event_ops" where
  start: "delay_run ops (new_link_delay b d True intr self target) 0 []"
| change: "delay_run ops ld t ds \<Longrightarrow> 0 \<le> d \<Longrightarrow> 0 < b \<Longrightarrow>
    delay_run ops (ld\<lparr>ld_bandwidth := b, ld_delay := d\<rparr>) t ds"
| packet: "delay_run ops ld t ds \<Longrightarrow> t \<le> sc_clock s \<Longrightarrow> 0 \<le> sz \<Longrightarrow> 0 < ld_bandwidth ld \<Longrightarrow> 0 \<le> ld_delay ld \<Longrightarrow>
    p \<noteq> ld_intr ld \<Longrightarrow> LinkDelay_recv ops sz p h (ld, s) = Inr (ld', s') \<Longrightarrow>
    delay_run ops ld' (sc_clock s) (ds @ [(p, ev_time (sc_events s' p))])"

lemma delay_run_latest:
  assumes "delay_run ops ld t ds"
  shows "\<not> ld_dynamic ld \<and> ld_avoidReordering ld \<and> 0 \<le> t \<and> 0 \<le> ld_latest_time ld \<and>
    sorted (map snd ds) \<and> (\<forall>d \<in> set ds. snd d \<le> ld_latest_time ld)"
  using assms
proof (induction rule: delay_run.induct)
  case (start b d intr self target)
  then show ?case by (simp add: new_link_delay_def)
next
  case (change ld t ds d b)
  then show ?case by simp
next
  case (packet ld t ds s sz p h ld' s')
  let ?txt = "txtime sz ld"
  have tx: "0 \<le> ?txt" using packet.hyps(3,4) by (simp add: txtime_def)
  note times = LinkDelay_recv_times [OF packet.hyps(7,6)]
  have le: "ld_latest_time ld \<le> ld_latest_time ld'" and pos: "0 \<le> ld_latest_time ld'"
    and eq: "ld_latest_time ld' = ev_time (sc_events s' p)"
    using packet.IH packet.hyps(2,5) tx times by (auto simp: due_def)
  have "\<forall>d \<in> set ds. snd d \<le> ev_time (sc_events s' p)" using packet.IH le eq by fastforce
  then show ?case
    using packet.IH packet.hyps(2) le pos eq times(4,5) by (auto simp: sorted_append)
qed

context event_queue
begin

text \<open>What \<open>schedule\<close> does on a scheduler that keeps the laws of the event queue.\<close>

definition pending :: "'q sched \<Rightarrow> nat list \<Rightarrow> nat \<Rightarrow> bool" where
  "pending s xs n \<longleftrightarrow> rep (sc_events s) (sc_queue s) xs \<and> numbered (sc_events s) (sc_uid s) xs \<and> room n (sc_queue s)"

lemma schedule_pending:
  assumes "pending s xs (Suc n)" and "\<not> 0 < ev_uid (sc_events s e)" and "sc_uid s < 2 ^ 63 - 1" and "okt (sc_clock s + d)"
  shows "\<exists>s' xs'. schedule ops (Some k) e d s = Inr s' \<and> pending s' xs' n \<and> set xs' = insert e (set xs) \<and>
    sc_uid s' = sc_uid s + 1 \<and> sc_clock s' = sc_clock s \<and>
    sc_events s' = (sc_events s)(e := \<lparr>ev_handler = k, ev_time = sc_clock s + d, ev_uid = sc_uid s\<rparr>)"
proof -
  have nb: "numbered (sc_events s) (sc_uid s) xs" and rp: "rep (sc_events s) (sc_queue s) xs" and rm: "room (Suc n) (sc_queue s)"
    using assms(1) by (simp_all add: pending_def)
  have u: "0 < sc_uid s" using nb by (simp add: numbered_def)
  then have nx: "next_uid (sc_uid s) = sc_uid s + 1" using assms(3) by (simp add: next_uid_def)
  have e: "e \<notin> set xs" using nb assms(2) by (auto simp: numbered_def)
  let ?evs = "(sc_events s)(e := \<lparr>ev_handler = k, ev_time = sc_clock s + d, ev_uid = sc_uid s\<rparr>)"
  let ?f = "\<lambda>p. ev_time (?evs p)"
  have "rep ?evs (sc_queue s) xs" using e by (intro rep_frame [OF rp]) auto
  then obtain q where q: "op_insert ops ?evs e (sc_queue s) = Inr q" "rep ?evs q (place ?f e xs)" "room n q"
    using insert_place [of ?evs "sc_queue s" xs e n] e rm assms(4) by auto
  have "numbered ?evs (sc_uid s + 1) (place ?f e xs)"
    using numbered_schedule(1) [OF nb _ assms(2), of k "sc_clock s + d" ?f] u nx by simp
  then show ?thesis
    using q u nx assms(2)
    by (intro exI [of _ "s\<lparr>sc_uid := sc_uid s + 1, sc_events := ?evs, sc_queue := q\<rparr>"] exI [of _ "place ?f e xs"])
      (simp add: schedule_def Let_def pending_def)
qed

end

lemma set_time_uid [simp]: "ev_uid (set_time p t evs x) = ev_uid (evs x)"
  by (simp add: set_time_def)

lemma numbered_set_time [simp]: "numbered (set_time p t evs) u xs = numbered evs u xs"
  by (simp add: numbered_def)

text \<open>The link after a packet, and the handler that gets the packet when its time comes.\<close>

definition link_took :: "real \<Rightarrow> real \<Rightarrow> nat \<Rightarrow> link_delay \<Rightarrow> link_delay" where
  "link_took now txt p ld =
     (if ld_dynamic ld then ld\<lparr>ld_itq := map_option (\<lambda>q. q @ [p]) (ld_itq ld)\<rparr>
      else if ld_avoidReordering ld then ld\<lparr>ld_latest_time := due now txt ld\<rparr>
      else ld)"

definition hands_to :: "link_delay \<Rightarrow> nat" where
  "hands_to ld = (if ld_dynamic ld then ld_self ld else ld_target ld)"

lemma schedule_packet_cases:
  assumes "ld_dynamic ld \<longrightarrow> ld_itq ld \<noteq> None"
  shows "schedule_packet ops txt p (ld, s) =
    rbind (schedule ops (Some (hands_to ld)) p (due (sc_clock s) txt ld - sc_clock s)
        (s\<lparr>sc_events := (if ld_dynamic ld then set_time p (txt + ld_delay ld) (sc_events s) else sc_events s)\<rparr>))
      (\<lambda>s'. Inr (link_took (sc_clock s) txt p ld, s'))"
proof -
  have "txt + ld_delay ld < ld_latest_time ld - sc_clock s \<longleftrightarrow> sc_clock s + txt + ld_delay ld < ld_latest_time ld"
    by (simp add: less_diff_eq algebra_simps)
  then show ?thesis using assms
    by (auto simp: schedule_packet_def link_took_def hands_to_def due_def Let_def split: option.splits)
qed

lemma due_later: "0 \<le> txt \<Longrightarrow> 0 \<le> ld_delay ld \<Longrightarrow> now \<le> due now txt ld"
  by (auto simp: due_def)

text \<open>
  C33. What a link does with a packet, on any scheduler that keeps the laws of the event queue
  (as the list, heap, calendar and splay schedulers do). When neither the packet nor the event
  \<open>intr_\<close> of the link is pending, \<open>recv\<close> returns and makes both pending and changes no other
  event. \<open>intr_\<close> is for the queue, after the time of transmission. The packet of a dynamic
  link is for the link itself and is appended to those in transit, that of another link is for
  the target. It is due after the time of transmission and the delay; only when
  the link avoids reordering, is not dynamic, and the packet before it is due later
  than that, it is due one time of transmission after that packet. A link that avoids
  reordering remembers when the packet is due.
\<close>

theorem link_delivers:
  assumes "event_queue ops rep room okt"
    and "rep (sc_events s) (sc_queue s) xs" and "numbered (sc_events s) (sc_uid s) xs"
    and "room (Suc (Suc n)) (sc_queue s)" and "okt (sc_clock s)" and "sc_uid s < 2 ^ 63 - 2"
    and "\<not> 0 < ev_uid (sc_events s p)" and "\<not> 0 < ev_uid (sc_events s (ld_intr ld))" and "p \<noteq> ld_intr ld"
    and "0 \<le> sz" and "0 < ld_bandwidth ld" and "0 \<le> ld_delay ld" and "ld_dynamic ld \<longrightarrow> ld_itq ld \<noteq> None"
  shows "\<exists>s' xs'. LinkDelay_recv ops sz p (Some h) (ld, s) = Inr (link_took (sc_clock s) (txtime sz ld) p ld, s') \<and>
    rep (sc_events s') (sc_queue s') xs' \<and> numbered (sc_events s') (sc_uid s') xs' \<and> room n (sc_queue s') \<and>
    set xs' = {p, ld_intr ld} \<union> set xs \<and> sc_clock s' = sc_clock s \<and>
    ev_time (sc_events s' p) = due (sc_clock s) (txtime sz ld) ld \<and> ev_handler (sc_events s' p) = hands_to ld \<and>
    ev_time (sc_events s' (ld_intr ld)) = sc_clock s + txtime sz ld \<and> ev_handler (sc_events s' (ld_intr ld)) = h \<and>
    (\<forall>e. e \<notin> {p, ld_intr ld} \<longrightarrow> sc_events s' e = sc_events s e)"
proof -
  let ?t = "txtime sz ld" and ?now = "sc_clock s"
  define evs where "evs = (if ld_dynamic ld then set_time p (?t + ld_delay ld) (sc_events s) else sc_events s)"
  let ?s = "s\<lparr>sc_events := evs\<rparr>"
  have evs: "ev_uid (evs e) = ev_uid (sc_events s e)" "e \<noteq> p \<Longrightarrow> evs e = sc_events s e" "numbered evs = numbered (sc_events s)" for e
    by (simp add: evs_def, simp add: evs_def set_time_def, simp add: evs_def fun_eq_iff)
  have t: "0 \<le> ?t" using assms(10,11) by (simp add: txtime_def)
  have times: "okt (due ?now ?t ld)" "okt (?now + ?t)"
    using event_queue.okt_up [OF assms(1,5)] due_later [OF t assms(12)] t by simp_all
  have p: "p \<notin> set xs" using assms(3,7) by (auto simp: numbered_def)
  have "rep evs (sc_queue s) xs"
    using p evs(2) by (intro event_queue.rep_frame [OF assms(1,2)]) metis
  then have "event_queue.pending rep room ?s xs (Suc (Suc n))"
    using assms(3,4) evs(3) by (simp add: event_queue.pending_def [OF assms(1)])
  from event_queue.schedule_pending [OF assms(1) this, of p "due ?now ?t ld - ?now" "hands_to ld"] obtain s1 xs1 where
    s1: "schedule ops (Some (hands_to ld)) p (due ?now ?t ld - ?now) ?s = Inr s1" "event_queue.pending rep room s1 xs1 (Suc n)"
      "set xs1 = insert p (set xs)" "sc_uid s1 = sc_uid s + 1" "sc_clock s1 = ?now"
      "sc_events s1 = evs(p := \<lparr>ev_handler = hands_to ld, ev_time = due ?now ?t ld, ev_uid = sc_uid s\<rparr>)"
    using assms(6,7) times(1) evs(1) by auto
  from event_queue.schedule_pending [OF assms(1) s1(2), of "ld_intr ld" ?t h] obtain s2 xs2 where
    s2: "schedule ops (Some h) (ld_intr ld) ?t s1 = Inr s2" "event_queue.pending rep room s2 xs2 n"
      "set xs2 = insert (ld_intr ld) (set xs1)" "sc_clock s2 = ?now"
      "sc_events s2 = (sc_events s1)(ld_intr ld := \<lparr>ev_handler = h, ev_time = ?now + ?t, ev_uid = sc_uid s + 1\<rparr>)"
    using s1(4-6) assms(6,8,9) times(2) evs(1) by auto
  have "ld_intr (link_took ?now ?t p ld) = ld_intr ld" by (simp add: link_took_def)
  then have "LinkDelay_recv ops sz p (Some h) (ld, s) = Inr (link_took ?now ?t p ld, s2)"
    using s1(1) s2(1) assms(13) by (simp add: LinkDelay_recv_def schedule_packet_cases flip: evs_def)
  moreover have "\<forall>e. e \<notin> {p, ld_intr ld} \<longrightarrow> sc_events s2 e = sc_events s e"
    by (simp add: s1(6) s2(5) evs(2))
  ultimately show ?thesis
    using s1(3,6) s2 assms(9) by (intro exI [of _ s2] exI [of _ xs2]) (auto simp: event_queue.pending_def [OF assms(1)])
qed

text \<open>On the calendar: a dynamic link, one that avoids reordering and holds a packet back, and a plain one.\<close>

theorem link_delivers_witness:
  "let ld = new_link_delay 8000 (1/2) True 5 6 7; s = new_sched (new_calendar 0 (1 / 10 ^ 18)) in
   (\<exists>s'. LinkDelay_recv cal_ops 1000 1 (Some 8) (make_dynamic ld, s) = Inr ((make_dynamic ld)\<lparr>ld_itq := Some [1]\<rparr>, s') \<and>
      ev_time (sc_events s' 1) = 3/2 \<and> ev_handler (sc_events s' 1) = 6 \<and> ev_time (sc_events s' 5) = 1) \<and>
   (\<exists>s'. LinkDelay_recv cal_ops 1000 1 (Some 8) (ld\<lparr>ld_latest_time := 4\<rparr>, s) = Inr (ld\<lparr>ld_latest_time := 5\<rparr>, s') \<and>
      ev_time (sc_events s' 1) = 5 \<and> ev_handler (sc_events s' 1) = 7 \<and> ev_time (sc_events s' 5) = 1) \<and>
   (\<exists>s'. LinkDelay_recv cal_ops 1000 1 (Some 8) (ld\<lparr>ld_avoidReordering := False\<rparr>, s) = Inr (ld\<lparr>ld_avoidReordering := False\<rparr>, s') \<and>
      ev_time (sc_events s' 1) = 3/2 \<and> ev_handler (sc_events s' 1) = 7 \<and> ev_time (sc_events s' 5) = 1)"
proof -
  let ?s = "new_sched (new_calendar 0 (1 / 10 ^ 18))" and ?ld = "new_link_delay 8000 (1/2) True 5 6 7"
  have rep: "cal_rep (sc_events ?s) (sc_queue ?s) []" by (simp add: new_sched_def cal_rep_new)
  have ev: "numbered (sc_events ?s) (sc_uid ?s) []" "sc_clock ?s = 0" "sc_uid ?s < 2 ^ 63 - 2" "ev_uid (sc_events ?s e) = 0" for e
    by (simp_all add: new_sched_def numbered_def new_event_def)
  have run: "\<exists>s'. LinkDelay_recv cal_ops 1000 1 (Some 8) (l, ?s) = Inr (link_took 0 1 1 l, s') \<and>
      ev_time (sc_events s' 1) = due 0 1 l \<and> ev_handler (sc_events s' 1) = hands_to l \<and> ev_time (sc_events s' 5) = 1"
    if "ld_intr l = 5" "ld_bandwidth l = 8000" "ld_delay l = 1/2" "ld_dynamic l \<longrightarrow> ld_itq l \<noteq> None" for l
  proof -
    have "txtime 1000 l = 1" using that(2) by (simp add: txtime_def)
    then show ?thesis
      using link_delivers [OF csq.event_queue_axioms rep ev(1), of 1 l 1000 8] ev that by auto
  qed
  show ?thesis
    using run [of "make_dynamic ?ld"] run [of "?ld\<lparr>ld_latest_time := 4\<rparr>"] run [of "?ld\<lparr>ld_avoidReordering := False\<rparr>"]
    by (simp add: Let_def new_link_delay_def make_dynamic_def due_def link_took_def hands_to_def)
qed

text \<open>
  A link that avoids reordering keeps the order: however its bandwidth and delay are
  changed between packets, the packets are due in the order in which they were handed to it.
\<close>

theorem no_reordering:
  assumes "delay_run ops ld t ds"
  shows "sorted (map snd ds)"
  using delay_run_latest [OF assms] by blast

lemma demo_delay_run: "\<exists>ld. delay_run list_ops ld 1 [(1, 6), (2, 7)]"
proof -
  let ?ld = "new_link_delay 8 5 True 5 6 7"
  obtain ld1 s1 where 1: "LinkDelay_recv list_ops 1 1 (Some 8) (?ld, new_sched []) = Inr (ld1, s1)"
    "ev_time (sc_events s1 1) = 6" "ld1 = ?ld\<lparr>ld_latest_time := 6\<rparr>"
    by (simp add: LinkDelay_recv_def schedule_packet_def new_link_delay_def txtime_def schedule_def list_ops_def
        new_sched_def new_event_def Let_def next_uid_def)
  have "delay_run list_ops ld1 (sc_clock (new_sched [] :: nat list sched)) ([] @ [(1, ev_time (sc_events s1 1))])"
    by (rule delay_run.packet [OF delay_run.start _ _ _ _ _ 1(1)])
      (simp_all add: new_link_delay_def new_sched_def)
  then have run: "delay_run list_ops (ld1\<lparr>ld_bandwidth := 8, ld_delay := 0\<rparr>) 0 [(1, 6)]"
    using delay_run.change [of list_ops ld1 0 "[(1, 6)]" 0 8] 1(2) by (simp add: new_sched_def)
  obtain ld2 s2 where 2: "LinkDelay_recv list_ops 1 2 (Some 8) (ld1\<lparr>ld_bandwidth := 8, ld_delay := 0\<rparr>,
      (new_sched [])\<lparr>sc_clock := 1\<rparr>) = Inr (ld2, s2)" "ev_time (sc_events s2 2) = 7"
    by (simp add: 1(3) LinkDelay_recv_def schedule_packet_def new_link_delay_def txtime_def schedule_def list_ops_def
        new_sched_def new_event_def Let_def next_uid_def)
  have "delay_run list_ops ld2 (sc_clock ((new_sched [] :: nat list sched)\<lparr>sc_clock := 1\<rparr>)) ([(1, 6)] @ [(2, ev_time (sc_events s2 2))])"
    by (rule delay_run.packet [OF run _ _ _ _ _ 2(1)]) (simp_all add: 1(3) new_link_delay_def)
  then show ?thesis using 2(2) by auto
qed

theorem no_reordering_witness:
  "\<exists>ld. delay_run list_ops ld 1 [(1, 6), (2, 7)] \<and> sorted [6 :: real, 7]"
  using demo_delay_run no_reordering [where ds = "[(1, 6), (2, 7)]"] by fastforce

text \<open>
  A dynamic link without this care aborts the simulator: if the delay is cut while a
  packet is in transit, so that the next one is due earlier, the event of the second packet
  finds the first at the head of \<open>itq_\<close> and the assertion of \<open>handle\<close> fails.
\<close>

theorem dynamic_link_overtaken:
  assumes "ld_dynamic ld" and "ld_itq ld = Some (p # qs)" and "q \<noteq> p" and "ld_intr ld \<notin> {p, q}"
    and "LinkDelay_recv ops sz q h (ld, s) = Inr (ld', s')"
    and "sc_clock s + txtime sz ld + ld_delay ld < ev_time (sc_events s p)"
  shows "LinkDelay_handle q (ld', s') = Inl Aborted"
proof -
  obtain s1 where s1: "schedule ops (Some (ld_self ld)) q (txtime sz ld + ld_delay ld)
      (s\<lparr>sc_events := set_time q (txtime sz ld + ld_delay ld) (sc_events s)\<rparr>) = Inr s1"
    "ld' = ld\<lparr>ld_itq := Some (p # qs @ [q])\<rparr>" "schedule ops h (ld_intr ld) (txtime sz ld) s1 = Inr s'"
    using assms(1,2,5) by (auto simp: LinkDelay_recv_def schedule_packet_def rbind_eq_Inr Let_def)
  have "ev_time (sc_events s' q) = sc_clock s + txtime sz ld + ld_delay ld"
    using schedule_Inr [OF s1(1)] schedule_Inr [OF s1(3)] assms(4) by auto
  moreover have "ev_time (sc_events s' p) = ev_time (sc_events s p)"
    using schedule_Inr [OF s1(1)] schedule_Inr [OF s1(3)] assms(3,4) by (auto simp: set_time_def)
  ultimately show ?thesis using assms(6) s1(2) by (simp add: LinkDelay_handle_def)
qed

theorem dynamic_link_overtaken_witness:
  "\<exists>ld s ld' s'. LinkDelay_recv list_ops 1 2 (Some 8) (ld, s) = Inr (ld', s') \<and> LinkDelay_handle 2 (ld', s') = Inl Aborted"
proof -
  let ?ld = "(new_link_delay 8 1 False 5 6 7)\<lparr>ld_dynamic := True, ld_itq := Some [1]\<rparr>"
  let ?s = "(new_sched [])\<lparr>sc_events := (\<lambda>_. new_event)(1 := \<lparr>ev_handler = 6, ev_time = 9, ev_uid = 0\<rparr>)\<rparr>"
  obtain ld' s' where "LinkDelay_recv list_ops 1 2 (Some 8) (?ld, ?s) = Inr (ld', s')"
    by (simp add: LinkDelay_recv_def schedule_packet_def new_link_delay_def txtime_def schedule_def list_ops_def
        new_sched_def new_event_def Let_def next_uid_def set_time_def)
  with dynamic_link_overtaken [OF _ _ _ _ this, of 1 "[]"] show ?thesis
    by (auto simp: new_link_delay_def new_sched_def txtime_def)
qed

subsection \<open>Counting what is in transit\<close>

lemma count_packet_four:
  "count_packet src grp h [a, b, c, d] =
     [a + of_bool (ih_flowid h = 30 \<and> ih_saddr h = src \<and> ih_daddr h = grp),
      b + of_bool (ih_flowid h = 31 \<and> ih_saddr h = src \<and> ih_daddr h = grp),
      c + of_bool (ih_flowid h = 1 \<and> ih_mcast_src h = src + 1 \<and> ih_mcast_group h = grp),
      d + of_bool (ih_flowid h = 0 \<and> ih_saddr h = src + 1 \<and> ih_daddr h = grp)]"
  by (simp add: count_packet_def Let_def numeral_2_eq_2 numeral_3_eq_3)

lemma count_packets:
  "length t = 4 \<Longrightarrow> fold (\<lambda>p. count_packet src grp (hdr p)) ps t =
     [t ! 0 + int (length (filter (\<lambda>p. ih_flowid (hdr p) = 30 \<and> ih_saddr (hdr p) = src \<and> ih_daddr (hdr p) = grp) ps)),
      t ! 1 + int (length (filter (\<lambda>p. ih_flowid (hdr p) = 31 \<and> ih_saddr (hdr p) = src \<and> ih_daddr (hdr p) = grp) ps)),
      t ! 2 + int (length (filter (\<lambda>p. ih_flowid (hdr p) = 1 \<and> ih_mcast_src (hdr p) = src + 1 \<and> ih_mcast_group (hdr p) = grp) ps)),
      t ! 3 + int (length (filter (\<lambda>p. ih_flowid (hdr p) = 0 \<and> ih_saddr (hdr p) = src + 1 \<and> ih_daddr (hdr p) = grp) ps))]"
proof (induction ps arbitrary: t)
  case Nil
  then show ?case by (auto simp: numeral_eq_Suc length_Suc_conv)
next
  case (Cons p ps)
  obtain a b c d where t: "t = [a, b, c, d]" using Cons.prems by (auto simp: numeral_eq_Suc length_Suc_conv)
  have "length (count_packet src grp (hdr p) t) = 4" by (simp add: t count_packet_four)
  from Cons.IH [OF this] show ?case by (simp add: t count_packet_four numeral_2_eq_2 numeral_3_eq_3)
qed

text \<open>The counters after \<open>pktintran\<close> are the numbers of the packets of each kind in transit.\<close>

theorem pktintran_counts:
  assumes "ld_dynamic ld" "ld_itq ld = Some q"
  defines "number P \<equiv> int (length (filter P q))"
  shows "pktintran hdr src grp ld = Inr (ld\<lparr>ld_total :=
     [number (\<lambda>p. ih_flowid (hdr p) = 30 \<and> ih_saddr (hdr p) = src \<and> ih_daddr (hdr p) = grp),
      number (\<lambda>p. ih_flowid (hdr p) = 31 \<and> ih_saddr (hdr p) = src \<and> ih_daddr (hdr p) = grp),
      number (\<lambda>p. ih_flowid (hdr p) = 1 \<and> ih_mcast_src (hdr p) = src + 1 \<and> ih_mcast_group (hdr p) = grp),
      number (\<lambda>p. ih_flowid (hdr p) = 0 \<and> ih_saddr (hdr p) = src + 1 \<and> ih_daddr (hdr p) = grp)]\<rparr>)"
  using assms count_packets [of "[0, 0, 0, 0]" src grp hdr "rev q"]
  by (simp add: pktintran_def rev_filter [symmetric] numeral_2_eq_2 numeral_3_eq_3)

end
