(* ===== verification/Acker.thy ===== *)
theory Acker
  imports Prelude
begin

unbundle bit_operations_syntax

section \<open>The receive window of a TCP sink\<close>

text \<open>
  \<open>Acker\<close> of tcp/tcp-sink.h and tcp/tcp-sink.cc. The window is a circular array
  \<open>seen_\<close> of the sizes of the packets received, indexed by the sequence number masked with
  \<open>wndmask_\<close>; it doubles when a packet lies too far ahead. What it means is a map from
  sequence numbers to sizes: \<open>represents a m\<close>. Sequence numbers are integers that do not
  overflow. The loop that advances over the packets in order ends at the first empty slot; in
  an array without one it does not end, and its value is \<open>None\<close>.
\<close>

record acker =
  ak_next :: int
  ak_maxseen :: int
  ak_wndmask :: int
  ak_ecn_unacked :: int
  ak_seen :: "int list"
  ak_ts_to_echo :: real
  ak_is_dup :: bool
  ak_last_ack_sent :: int

definition MWS :: int where "MWS = 64"
definition MWM :: int where "MWM = MWS - 1"

text \<open>\<open>is_dup_\<close> is not initialised by the constructor; \<open>update\<close> sets it before any use.\<close>

definition new_acker :: acker where
  "new_acker = \<lparr>ak_next = 0, ak_maxseen = 0, ak_wndmask = MWM, ak_ecn_unacked = 0, ak_seen = replicate (nat MWS) 0,
     ak_ts_to_echo = 0, ak_is_dup = False, ak_last_ack_sent = 0\<rparr>"

definition Acker_reset :: "'x acker_scheme \<Rightarrow> 'x acker_scheme" where
  "Acker_reset a = a\<lparr>ak_next := 0, ak_maxseen := 0, ak_seen := replicate (nat (ak_wndmask a + 1)) 0\<rparr>"

definition Seqno :: "'x acker_scheme \<Rightarrow> int" where
  "Seqno a = ak_next a - 1"

text \<open>A slot of the array and its update.\<close>

definition slot :: "int \<Rightarrow> int \<Rightarrow> nat" where
  "slot m i = nat (i AND m)"

definition seen_at :: "'x acker_scheme \<Rightarrow> int \<Rightarrow> int" where
  "seen_at a i = ak_seen a ! slot (ak_wndmask a) i"

definition set_seen :: "int \<Rightarrow> int \<Rightarrow> 'x acker_scheme \<Rightarrow> 'x acker_scheme" where
  "set_seen i n a = a\<lparr>ak_seen := (ak_seen a)[slot (ak_wndmask a) i := n]\<rparr>"

definition resize_buffers :: "int \<Rightarrow> 'x acker_scheme \<Rightarrow> 'x acker_scheme" where
  "resize_buffers sz a =
     a\<lparr>ak_wndmask := sz - 1,
       ak_seen := fold (\<lambda>i xs. xs[slot (sz - 1) i := seen_at a i]) [ak_next a .. ak_maxseen a + 1] (replicate (nat sz) 0)\<rparr>"

definition update_ts :: "int \<Rightarrow> real \<Rightarrow> bool \<Rightarrow> 'x acker_scheme \<Rightarrow> 'x acker_scheme" where
  "update_ts seqno ts rfc1323 a =
     (if rfc1323 \<and> seqno = ak_last_ack_sent a + 1 then a\<lparr>ak_ts_to_echo := ts\<rparr>
      else if ts \<ge> ak_ts_to_echo a \<and> seqno \<le> ak_last_ack_sent a + 1 then a\<lparr>ak_ts_to_echo := ts\<rparr>
      else a)"

text \<open>The loop that makes room; the mask of a real buffer is not negative.\<close>

function make_room :: "int \<Rightarrow> 'x acker_scheme \<Rightarrow> 'x acker_scheme" where
  "make_room seq a =
     (if seq + 1 - ak_next a \<ge> ak_wndmask a \<and> 0 \<le> ak_wndmask a
      then make_room seq (resize_buffers ((ak_wndmask a + 1) * 2) a) else a)"
  by pat_completeness auto
termination
  by (relation "measure (\<lambda>(seq, a). nat (seq + 2 - ak_next a - ak_wndmask a))") (auto simp: resize_buffers_def)

declare make_room.simps [simp del]

definition mark_new :: "int \<Rightarrow> int \<Rightarrow> 'x acker_scheme \<Rightarrow> 'x acker_scheme" where
  "mark_new seq numBytes a =
     (let a1 = fold (\<lambda>i. set_seen i 0) [ak_maxseen a + 1 .. seq - 1] a in
      set_seen (seq + 1) 0 (set_seen seq numBytes (a1\<lparr>ak_maxseen := seq\<rparr>)))"

partial_function (option) advance :: "'x acker_scheme \<Rightarrow> int \<Rightarrow> int \<Rightarrow> (int \<times> int) option" where
  "advance a next n = (if seen_at a next \<noteq> 0 then advance a (next + 1) (n + seen_at a next) else Some (next, n))"

declare advance.simps [code]

definition Acker_update :: "int \<Rightarrow> int \<Rightarrow> 'x acker_scheme \<Rightarrow> (int \<times> 'x acker_scheme) res" where
  "Acker_update seq numBytes a0 =
     (let a = make_room seq (a0\<lparr>ak_is_dup := False\<rparr>);
          just_marked = seq > ak_maxseen a;
          a1 = (if just_marked then mark_new seq numBytes a else a);
          next = ak_next a1;
          a2 = (if seq < next then a1\<lparr>ak_is_dup := True\<rparr> else a1) in
      if seq \<ge> next \<and> seq \<le> ak_maxseen a2 then
        let a3 = (if seen_at a2 seq \<noteq> 0 \<and> \<not> just_marked then a2\<lparr>ak_is_dup := True\<rparr> else a2);
            a4 = set_seen seq numBytes a3 in
        (case advance a4 next 0 of
           None \<Rightarrow> Inl Diverges
         | Some (next', n) \<Rightarrow> Inr (n, a4\<lparr>ak_next := next'\<rparr>))
      else Inr (0, a2))"

subsection \<open>What the array means\<close>

definition mask_ok :: "'x acker_scheme \<Rightarrow> bool" where
  "mask_ok a \<longleftrightarrow> (\<exists>k. ak_wndmask a = 2 ^ k - 1) \<and> length (ak_seen a) = nat (ak_wndmask a + 1)"

definition size_at :: "(int \<rightharpoonup> int) \<Rightarrow> int \<Rightarrow> int" where
  "size_at m i = (case m i of None \<Rightarrow> 0 | Some n \<Rightarrow> n)"

text \<open>
  \<open>m\<close> is what was received: everything before \<open>next_\<close> but not \<open>next_\<close> itself, nothing
  beyond \<open>maxseen_\<close>, and in between what the array says; the slot after \<open>maxseen_\<close> is empty.
\<close>

definition represents :: "'x acker_scheme \<Rightarrow> (int \<rightharpoonup> int) \<Rightarrow> bool" where
  "represents a m \<longleftrightarrow> mask_ok a \<and> 0 \<le> ak_next a \<and> ak_next a \<le> ak_maxseen a + 1 \<and>
     ak_maxseen a + 1 - ak_next a \<le> ak_wndmask a \<and>
     (\<forall>i \<in> dom m. 0 \<le> i \<and> i \<le> ak_maxseen a \<and> 0 < size_at m i) \<and>
     (\<forall>i. 0 \<le> i \<and> i < ak_next a \<longrightarrow> i \<in> dom m) \<and> ak_next a \<notin> dom m \<and>
     (\<forall>i. ak_next a \<le> i \<and> i \<le> ak_maxseen a + 1 \<longrightarrow> seen_at a i = size_at m i)"

lemma represents_bound: "represents a m \<Longrightarrow> i \<in> dom m \<Longrightarrow> i \<le> ak_maxseen a"
  by (simp add: represents_def)

lemma slot_mod: "slot (2 ^ k - 1) i = nat (i mod 2 ^ k)"
  by (simp add: slot_def flip: mask_eq_exp_minus_1 take_bit_eq_mask take_bit_eq_mod)

lemma slot_less: "slot (2 ^ k - 1) i < nat (2 ^ k)"
  by (simp add: slot_mod nat_less_iff)

lemma slot_inj:
  assumes "slot (2 ^ k - 1) i = slot (2 ^ k - 1) j" and "\<bar>i - j\<bar> < 2 ^ k"
  shows "i = j"
proof -
  have "i mod 2 ^ k = j mod 2 ^ k" using assms(1) by (simp add: slot_mod eq_nat_nat_iff)
  then have "2 ^ k dvd i - j" by (simp add: mod_eq_dvd_iff)
  then show ?thesis using assms(2) zdvd_imp_le [of "2 ^ k" "\<bar>i - j\<bar>"] by fastforce
qed

lemma seen_set:
  assumes "mask_ok a" and "\<bar>i - j\<bar> \<le> ak_wndmask a"
  shows "seen_at (set_seen i n a) j = (if i = j then n else seen_at a j)"
proof -
  obtain k where k: "ak_wndmask a = 2 ^ k - 1" "length (ak_seen a) = nat (2 ^ k)"
    using assms(1) by (auto simp: mask_ok_def)
  have "slot (ak_wndmask a) i < length (ak_seen a)" "slot (ak_wndmask a) j < length (ak_seen a)"
    using slot_less k by simp_all
  moreover have "slot (ak_wndmask a) i = slot (ak_wndmask a) j \<longleftrightarrow> i = j"
    using slot_inj [of k i j] assms(2) k(1) by auto
  ultimately show ?thesis by (simp add: seen_at_def set_seen_def nth_list_update)
qed

lemma mask_pos: "mask_ok a \<Longrightarrow> 0 \<le> ak_wndmask a"
  by (auto simp: mask_ok_def)

lemma set_seen_frame [simp]:
  "ak_next (set_seen i n a) = ak_next a" "ak_maxseen (set_seen i n a) = ak_maxseen a"
  "ak_wndmask (set_seen i n a) = ak_wndmask a" "ak_is_dup (set_seen i n a) = ak_is_dup a"
  "mask_ok (set_seen i n a) = mask_ok a"
  by (simp_all add: set_seen_def mask_ok_def)

lemma seen_frame [simp]:
  "seen_at (a\<lparr>ak_is_dup := d\<rparr>) i = seen_at a i" "seen_at (a\<lparr>ak_maxseen := n\<rparr>) i = seen_at a i"
  "seen_at (a\<lparr>ak_next := n\<rparr>) i = seen_at a i" "mask_ok (a\<lparr>ak_is_dup := d\<rparr>) = mask_ok a"
  "mask_ok (a\<lparr>ak_maxseen := n\<rparr>) = mask_ok a" "mask_ok (a\<lparr>ak_next := n\<rparr>) = mask_ok a"
  "represents (a\<lparr>ak_is_dup := d\<rparr>) m = represents a m"
  by (simp_all add: seen_at_def mask_ok_def represents_def)

subsection \<open>Growing the array\<close>

lemma fold_other:
  "(\<And>i. i \<in> set L \<Longrightarrow> sl i \<noteq> s) \<Longrightarrow> fold (\<lambda>i xs. xs[sl i := f i]) L xs ! s = xs ! s"
  by (induction L arbitrary: xs) auto

lemma fold_slots:
  assumes "j \<in> set L" and "\<And>i. i \<in> set L \<Longrightarrow> sl i = sl j \<Longrightarrow> i = j" and "sl j < length xs"
  shows "fold (\<lambda>i xs. xs[sl i := f i]) L xs ! sl j = f j"
  using assms
proof (induction L arbitrary: xs)
  case Nil
  then show ?case by simp
next
  case (Cons i L)
  show ?case
  proof (cases "j \<in> set L")
    case True
    then show ?thesis using Cons by simp
  next
    case False
    then have "\<And>k. k \<in> set L \<Longrightarrow> sl k \<noteq> sl j" using Cons.prems(2) by (metis list.set_intros(2))
    moreover have "i = j" using False Cons.prems(1) by simp
    ultimately show ?thesis using Cons.prems(3) by (simp add: fold_other)
  qed
qed

lemma length_fold_slots [simp]: "length (fold (\<lambda>i xs. xs[sl i := f i]) L xs) = length xs"
  by (induction L arbitrary: xs) auto

lemma resize_represents:
  assumes "represents a m"
  shows "represents (resize_buffers ((ak_wndmask a + 1) * 2) a) m"
proof -
  obtain k where k: "ak_wndmask a = 2 ^ k - 1" using assms by (auto simp: represents_def mask_ok_def)
  define sz where "sz = (ak_wndmask a + 1) * 2"
  define b where "b = resize_buffers sz a"
  have sz: "sz = 2 ^ Suc k" using k by (simp add: sz_def)
  have len: "length (ak_seen b) = nat sz" by (simp add: b_def resize_buffers_def)
  have fields: "ak_wndmask b = 2 ^ Suc k - 1" "ak_next b = ak_next a" "ak_maxseen b = ak_maxseen a"
    using sz by (simp_all add: b_def resize_buffers_def)
  have "mask_ok b" using len fields(1) sz by (auto simp: mask_ok_def intro!: exI [of _ "Suc k"])
  moreover have "seen_at b j = seen_at a j" if j: "ak_next a \<le> j" "j \<le> ak_maxseen a + 1" for j
  proof -
    have width: "ak_maxseen a + 1 - ak_next a < 2 ^ Suc k"
      using assms k by (simp add: represents_def)
    have "seen_at b j = fold (\<lambda>i xs. xs[slot (2 ^ Suc k - 1) i := seen_at a i]) [ak_next a..ak_maxseen a + 1]
        (replicate (nat sz) 0) ! slot (2 ^ Suc k - 1) j"
      using sz unfolding seen_at_def [of b] fields(1) by (simp add: b_def resize_buffers_def)
    also have "\<dots> = seen_at a j"
    proof (rule fold_slots)
      show "slot (2 ^ Suc k - 1) j < length (replicate (nat sz) (0 :: int))"
        using slot_less [of "Suc k" j] sz by simp
      fix i assume i: "i \<in> set [ak_next a..ak_maxseen a + 1]" "slot (2 ^ Suc k - 1) i = slot (2 ^ Suc k - 1) j"
      then have "\<bar>i - j\<bar> < 2 ^ Suc k" using j width by auto
      then show "i = j" by (rule slot_inj [OF i(2)])
    qed (use j in simp)
    finally show ?thesis .
  qed
  moreover have "ak_maxseen a + 1 - ak_next a \<le> 2 ^ Suc k - 1" using assms k by (simp add: represents_def)
  ultimately have "represents b m" using assms unfolding represents_def by (simp add: fields)
  then show ?thesis by (simp add: b_def sz_def)
qed

lemma make_room_ok:
  assumes "represents a m"
  shows "represents (make_room seq a) m \<and> seq + 1 - ak_next (make_room seq a) < ak_wndmask (make_room seq a) \<and>
    ak_next (make_room seq a) = ak_next a \<and> ak_maxseen (make_room seq a) = ak_maxseen a \<and>
    ak_is_dup (make_room seq a) = ak_is_dup a"
  using assms
proof (induction seq a rule: make_room.induct)
  case (1 seq a)
  have pos: "0 \<le> ak_wndmask a" using 1(2) by (auto simp: represents_def mask_ok_def)
  show ?case
  proof (cases "seq + 1 - ak_next a \<ge> ak_wndmask a")
    case True
    let ?a = "resize_buffers ((ak_wndmask a + 1) * 2) a"
    have "ak_next ?a = ak_next a" "ak_maxseen ?a = ak_maxseen a" "ak_is_dup ?a = ak_is_dup a"
      by (simp_all add: resize_buffers_def)
    then show ?thesis
      using 1(1) [OF _ resize_represents [OF 1(2)]] True pos by (simp add: make_room.simps [of seq a])
  next
    case False
    then show ?thesis using 1(2) by (simp add: make_room.simps [of seq a])
  qed
qed

subsection \<open>A packet beyond the last\<close>

lemma fold_clear_frame [simp]:
  "ak_next (fold (\<lambda>i. set_seen i 0) L a) = ak_next a" "ak_maxseen (fold (\<lambda>i. set_seen i 0) L a) = ak_maxseen a"
  "ak_wndmask (fold (\<lambda>i. set_seen i 0) L a) = ak_wndmask a" "mask_ok (fold (\<lambda>i. set_seen i 0) L a) = mask_ok a"
  "ak_is_dup (fold (\<lambda>i. set_seen i 0) L a) = ak_is_dup a"
  by (induction L arbitrary: a) simp_all

lemma fold_clear:
  assumes "mask_ok a" and "\<And>i. i \<in> set L \<Longrightarrow> \<bar>i - j\<bar> \<le> ak_wndmask a"
  shows "seen_at (fold (\<lambda>i. set_seen i 0) L a) j = (if j \<in> set L then 0 else seen_at a j)"
  using assms
proof (induction L arbitrary: a)
  case Nil
  then show ?case by simp
next
  case (Cons i L)
  then show ?case using seen_set [of a i j 0] mask_pos [of a] by (cases "i = j") auto
qed

text \<open>The window from \<open>next_\<close> to the slot after \<open>M\<close> says what \<open>m\<close> does.\<close>

definition window :: "'x acker_scheme \<Rightarrow> (int \<rightharpoonup> int) \<Rightarrow> int \<Rightarrow> bool" where
  "window a m M \<longleftrightarrow> mask_ok a \<and> M + 1 - ak_next a \<le> ak_wndmask a \<and>
     (\<forall>i. ak_next a \<le> i \<and> i \<le> M + 1 \<longrightarrow> seen_at a i = size_at m i)"

lemma size_at_upd: "size_at (m(i \<mapsto> n)) j = (if i = j then n else size_at m j)"
  by (simp add: size_at_def)

lemma size_at_pos: "represents a m \<Longrightarrow> size_at m i \<noteq> 0 \<longleftrightarrow> i \<in> dom m"
  by (fastforce simp: represents_def size_at_def split: option.splits)

lemma window_set:
  assumes "window a m M" and "ak_next a \<le> i" and "i \<le> M + 1"
  shows "window (set_seen i n a) (m(i \<mapsto> n)) M"
proof -
  have "seen_at (set_seen i n a) j = size_at (m(i \<mapsto> n)) j" if "ak_next a \<le> j" "j \<le> M + 1" for j
  proof -
    have "\<bar>i - j\<bar> \<le> ak_wndmask a" using assms that by (auto simp: window_def)
    then show ?thesis using assms(1) that seen_set [of a i j n] by (simp add: window_def size_at_upd)
  qed
  then show ?thesis using assms(1) by (simp add: window_def)
qed

lemma mark_new_window:
  assumes "represents a m" and "ak_maxseen a < seq" and "seq + 1 - ak_next a \<le> ak_wndmask a"
  shows "window (mark_new seq n a) (m(seq \<mapsto> n)) seq \<and> ak_next (mark_new seq n a) = ak_next a \<and>
    ak_maxseen (mark_new seq n a) = seq \<and> ak_is_dup (mark_new seq n a) = ak_is_dup a"
proof -
  let ?c = "(fold (\<lambda>i. set_seen i 0) [ak_maxseen a + 1..seq - 1] a)\<lparr>ak_maxseen := seq\<rparr>"
  have mk: "mask_ok a" "ak_next a \<le> ak_maxseen a + 1" using assms(1) by (simp_all add: represents_def)
  have clear: "seen_at ?c j = (if ak_maxseen a < j \<and> j < seq then 0 else seen_at a j)"
    if "ak_next a \<le> j" "j \<le> seq + 1" for j
  proof -
    have bound: "\<bar>i - j\<bar> \<le> ak_wndmask a" if "i \<in> set [ak_maxseen a + 1..seq - 1]" for i
      using that \<open>ak_next a \<le> j\<close> \<open>j \<le> seq + 1\<close> assms(3) mk(2) by (auto simp: abs_le_iff)
    have "seen_at ?c j = (if j \<in> set [ak_maxseen a + 1..seq - 1] then 0 else seen_at a j)"
      using fold_clear [OF mk(1) bound] by (simp only: seen_frame)
    then show ?thesis by auto
  qed
  have after: "seen_at (set_seen (seq + 1) 0 (set_seen seq n ?c)) j =
      (if j = seq + 1 then 0 else if j = seq then n else seen_at ?c j)" if "ak_next a \<le> j" "j \<le> seq + 1" for j
  proof -
    have "\<bar>seq + 1 - j\<bar> \<le> ak_wndmask ?c" "\<bar>seq - j\<bar> \<le> ak_wndmask ?c"
      using that assms(2,3) mk(2) by (auto simp: abs_le_iff)
    then show ?thesis using seen_set [of "set_seen seq n ?c" "seq + 1" j 0] seen_set [of ?c seq j n] mk(1) by auto
  qed
  have none: "m j = None" if "ak_maxseen a < j" for j
    using represents_bound [OF assms(1), of j] that by (cases "m j") auto
  have mk_eq: "mark_new seq n a = set_seen (seq + 1) 0 (set_seen seq n ?c)"
    by (simp add: mark_new_def Let_def)
  have "seen_at (mark_new seq n a) j = size_at (m(seq \<mapsto> n)) j" if j: "ak_next a \<le> j" "j \<le> seq + 1" for j
  proof (cases "j \<le> ak_maxseen a")
    case True
    then have "seen_at a j = size_at m j" using assms(1) j(1) by (simp add: represents_def)
    then show ?thesis
      using True assms(2) unfolding mk_eq after [OF j] clear [OF j] by (simp add: size_at_upd)
  next
    case False
    then show ?thesis
      using j none [of j] none [of "seq + 1"] assms(2) unfolding mk_eq after [OF j] clear [OF j]
      by (auto simp: size_at_def)
  qed
  then show ?thesis using mk(1) assms(3) by (simp add: window_def) (simp add: mark_new_def Let_def)
qed

subsection \<open>Advancing\<close>

lemma advance_ok:
  assumes "\<And>i. n \<le> i \<Longrightarrow> i \<le> M + 1 \<Longrightarrow> seen_at a i = size_at m i" and "n \<le> M + 1"
    and "size_at m (M + 1) = 0"
  shows "\<exists>n'. advance a n c = Some (n', c + (\<Sum>i\<in>{n..<n'}. size_at m i)) \<and> n \<le> n' \<and> n' \<le> M + 1 \<and>
    size_at m n' = 0 \<and> (\<forall>i. n \<le> i \<and> i < n' \<longrightarrow> size_at m i \<noteq> 0)"
  using assms
proof (induction "nat (M + 1 - n)" arbitrary: n c rule: less_induct)
  case less
  show ?case
  proof (cases "size_at m n = 0")
    case True
    then have "advance a n c = Some (n, c)" using less.prems by (simp add: advance.simps)
    then show ?thesis using True less.prems by (intro exI [of _ n]) auto
  next
    case False
    then have lt: "n < M + 1" using less.prems(2,3) by (cases "n = M + 1") auto
    then obtain n' where n': "advance a (n + 1) (c + size_at m n) =
        Some (n', c + size_at m n + (\<Sum>i\<in>{n + 1..<n'}. size_at m i))" "n + 1 \<le> n'" "n' \<le> M + 1"
      "size_at m n' = 0" "\<forall>i. n + 1 \<le> i \<and> i < n' \<longrightarrow> size_at m i \<noteq> 0"
      using less.hyps [of "n + 1" "c + size_at m n"] less.prems by auto
    have "{n..<n'} = insert n {n + 1..<n'}" using n'(2) by auto
    then have sum: "(\<Sum>i\<in>{n..<n'}. size_at m i) = size_at m n + (\<Sum>i\<in>{n + 1..<n'}. size_at m i)" by simp
    have "advance a n c = advance a (n + 1) (c + size_at m n)"
      using False less.prems by (subst advance.simps) simp
    moreover have "\<forall>i. n \<le> i \<and> i < n' \<longrightarrow> size_at m i \<noteq> 0"
    proof (intro allI impI)
      fix i assume "n \<le> i \<and> i < n'"
      then show "size_at m i \<noteq> 0" using n'(5) False by (cases "i = n") auto
    qed
    ultimately show ?thesis using n' sum by (intro exI [of _ n']) (simp add: add.assoc)
  qed
qed

text \<open>The map after a packet: what lies before \<open>next_\<close> is not recorded again.\<close>

definition received :: "'x acker_scheme \<Rightarrow> (int \<rightharpoonup> int) \<Rightarrow> int \<Rightarrow> int \<Rightarrow> (int \<rightharpoonup> int)" where
  "received a m seq n = (if seq < ak_next a then m else m(seq \<mapsto> n))"

lemma update_window:
  assumes "window b m M" and "represents a m0" and "ak_next b = ak_next a" and "ak_maxseen b = M"
    and "m = received a m0 seq n" and "ak_next a \<le> M + 1" and "ak_next a \<le> seq" and "seq \<le> M" and "ak_maxseen a \<le> M" and "0 < n"
  shows "\<exists>next'. advance b (ak_next a) 0 = Some (next', \<Sum>i\<in>{ak_next a..<next'}. size_at m i) \<and>
    ak_next a \<le> next' \<and> represents (b\<lparr>ak_next := next'\<rparr>) m"
proof -
  have m: "m = m0(seq \<mapsto> n)" using assms(5,7) by (simp add: received_def)
  have dom0: "0 \<le> i \<and> i \<le> ak_maxseen a \<and> 0 < size_at m0 i" if "i \<in> dom m0" for i
    using assms(2) that by (simp add: represents_def)
  have n0: "0 \<le> ak_next a" using assms(2) by (simp add: represents_def)
  have dom: "0 \<le> i \<and> i \<le> M \<and> 0 < size_at m i" if "i \<in> dom m" for i
  proof (cases "i = seq")
    case False
    then have "i \<in> dom m0" using that by (simp add: m)
    then show ?thesis using dom0 [of i] False assms(9) by (auto simp: m size_at_upd)
  qed (use assms(7,8,10) n0 in \<open>simp add: m size_at_upd\<close>)
  have zero: "size_at m i = 0 \<longleftrightarrow> i \<notin> dom m" for i
    using dom [of i] by (cases "m i") (auto simp: size_at_def)
  have "M + 1 \<notin> dom m" using dom [of "M + 1"] by auto
  moreover have win: "\<And>i. ak_next a \<le> i \<Longrightarrow> i \<le> M + 1 \<Longrightarrow> seen_at b i = size_at m i"
    using assms(1,3) by (simp add: window_def)
  ultimately obtain next' where adv: "advance b (ak_next a) 0 = Some (next', 0 + (\<Sum>i\<in>{ak_next a..<next'}. size_at m i))"
    "ak_next a \<le> next'" "next' \<le> M + 1" "size_at m next' = 0" "\<forall>i. ak_next a \<le> i \<and> i < next' \<longrightarrow> size_at m i \<noteq> 0"
    using advance_ok [of "ak_next a" M b m 0] assms(6) zero by blast
  have "i \<in> dom m" if "0 \<le> i" "i < next'" for i
  proof (cases "i < ak_next a")
    case True
    then show ?thesis using assms(2) that by (auto simp: represents_def m)
  next
    case False
    then show ?thesis using adv(5) that zero by auto
  qed
  then have "represents (b\<lparr>ak_next := next'\<rparr>) m"
    using adv(2-4) dom zero assms(1,3,4) n0 win by (auto simp: represents_def window_def)
  then show ?thesis using adv(1,2) by auto
qed

lemma Acker_update_ok:
  assumes "represents a m" and "0 \<le> seq" and "0 < n"
  shows "\<exists>a'. Acker_update seq n a =
      Inr (\<Sum>i\<in>{ak_next a..<ak_next a'}. size_at (received a m seq n) i, a') \<and>
    represents a' (received a m seq n) \<and> ak_next a \<le> ak_next a' \<and> ak_is_dup a' = (seq \<in> dom m)"
proof -
  define r where "r = make_room seq (a\<lparr>ak_is_dup := False\<rparr>)"
  have "represents (a\<lparr>ak_is_dup := False\<rparr>) m" using assms(1) by simp
  from make_room_ok [OF this, of seq] have r: "represents r m" "seq + 1 - ak_next r < ak_wndmask r"
    "ak_next r = ak_next a" "ak_maxseen r = ak_maxseen a" "\<not> ak_is_dup r" by (simp_all add: r_def)
  have le: "ak_next r \<le> ak_maxseen r + 1" using r(1) by (simp add: represents_def)
  have win: "window r m (ak_maxseen r)" using r(1) by (simp add: represents_def window_def)
  have old: "received r m seq n = received a m seq n" by (simp add: received_def r(3))
  show ?thesis
  proof (cases "ak_maxseen r < seq")
    case True
    let ?b = "set_seen seq n (mark_new seq n r)"
    have mk: "window (mark_new seq n r) (m(seq \<mapsto> n)) seq" "ak_next (mark_new seq n r) = ak_next r"
      "ak_maxseen (mark_new seq n r) = seq" "ak_is_dup (mark_new seq n r) = ak_is_dup r"
      using mark_new_window [OF r(1) True] r(2) by auto
    have ge: "ak_next r \<le> seq" using le True by simp
    have rm: "m(seq \<mapsto> n) = received r m seq n" using ge by (simp add: received_def)
    have "window ?b (m(seq \<mapsto> n)) seq" using window_set [OF mk(1), of seq n] mk(2) ge by simp
    then have "\<exists>next'. advance ?b (ak_next r) 0 = Some (next', \<Sum>i\<in>{ak_next r..<next'}. size_at (m(seq \<mapsto> n)) i) \<and>
        ak_next r \<le> next' \<and> represents (?b\<lparr>ak_next := next'\<rparr>) (m(seq \<mapsto> n))"
      by (rule update_window [where M = seq and ?m0.0 = m and seq = seq and n = n])
        (use r(1) mk(2,3) ge True assms(3) rm in simp_all)
    then obtain next' where n': "advance ?b (ak_next r) 0 = Some (next', \<Sum>i\<in>{ak_next r..<next'}. size_at (received r m seq n) i)"
      "ak_next r \<le> next'" "represents (?b\<lparr>ak_next := next'\<rparr>) (received r m seq n)"
      unfolding rm by blast
    have "seq \<notin> dom m" using represents_bound [OF r(1), of seq] True by (cases "m seq") auto
    moreover have "Acker_update seq n a = Inr (\<Sum>i\<in>{ak_next r..<next'}. size_at (received r m seq n) i, ?b\<lparr>ak_next := next'\<rparr>)"
      using True ge mk n'(1) by (simp add: Acker_update_def Let_def flip: r_def)
    moreover have "ak_is_dup (?b\<lparr>ak_next := next'\<rparr>) = False" using mk(4) r(5) by simp
    ultimately show ?thesis
      using n'(2,3) unfolding r(3) old by (intro exI [of _ "?b\<lparr>ak_next := next'\<rparr>"]) simp
  next
    case not_new: False
    show ?thesis
    proof (cases "seq < ak_next r")
      case True
      then have "seq \<in> dom m" using r(1) assms(2) by (simp add: represents_def)
      moreover have "Acker_update seq n a = Inr (0, r\<lparr>ak_is_dup := True\<rparr>)"
        using True not_new by (simp add: Acker_update_def Let_def flip: r_def)
      ultimately show ?thesis using True r(1,3) by (auto simp: received_def)
    next
      case False
      let ?d = "if seen_at r seq \<noteq> 0 then r\<lparr>ak_is_dup := True\<rparr> else r"
      let ?b = "set_seen seq n ?d"
      have d: "window ?d m (ak_maxseen r)" "ak_next ?d = ak_next r" "ak_maxseen ?d = ak_maxseen r"
        using win by (simp_all add: window_def)
      have rm: "m(seq \<mapsto> n) = received r m seq n" using False by (simp add: received_def)
      have "window ?b (m(seq \<mapsto> n)) (ak_maxseen r)" using window_set [OF d(1), of seq n] d(2) False not_new by simp
      then have "\<exists>next'. advance ?b (ak_next r) 0 = Some (next', \<Sum>i\<in>{ak_next r..<next'}. size_at (m(seq \<mapsto> n)) i) \<and>
          ak_next r \<le> next' \<and> represents (?b\<lparr>ak_next := next'\<rparr>) (m(seq \<mapsto> n))"
        by (rule update_window [where M = "ak_maxseen r" and ?m0.0 = m and seq = seq and n = n])
          (use r(1) d(2,3) False not_new assms(3) le rm in simp_all)
      then obtain next' where n': "advance ?b (ak_next r) 0 = Some (next', \<Sum>i\<in>{ak_next r..<next'}. size_at (received r m seq n) i)"
        "ak_next r \<le> next'" "represents (?b\<lparr>ak_next := next'\<rparr>) (received r m seq n)"
        unfolding rm by blast
      have dup: "seen_at r seq \<noteq> 0 \<longleftrightarrow> seq \<in> dom m"
        using win False not_new size_at_pos [OF r(1)] by (simp add: window_def)
      have "Acker_update seq n a = Inr (\<Sum>i\<in>{ak_next r..<next'}. size_at (received r m seq n) i, ?b\<lparr>ak_next := next'\<rparr>)"
        using False not_new n'(1) d(2,3) by (auto simp: Acker_update_def Let_def simp flip: r_def)
      moreover have "ak_is_dup (?b\<lparr>ak_next := next'\<rparr>) = (seq \<in> dom m)" using dup r(5) by simp
      ultimately show ?thesis
        using n'(2,3) unfolding r(3) old by (intro exI [of _ "?b\<lparr>ak_next := next'\<rparr>"]) simp
    qed
  qed
qed

text \<open>What a derived class adds to the acker is not touched.\<close>

lemma set_seen_more [simp]: "acker.more (set_seen i n a) = acker.more a"
  by (simp add: set_seen_def)

lemma make_room_more: "acker.more (make_room seq a) = acker.more a"
proof (induction seq a rule: make_room.induct)
  case (1 seq a)
  then show ?case by (subst make_room.simps) (auto simp: resize_buffers_def)
qed

lemma mark_new_more: "acker.more (mark_new seq n a) = acker.more a"
proof -
  have "acker.more (fold (\<lambda>i. set_seen i 0) is a) = acker.more a" for "is" by (induction "is" arbitrary: a) simp_all
  then show ?thesis by (simp add: mark_new_def Let_def)
qed

lemma Acker_update_more: "Acker_update seq n a = Inr (k, a') \<Longrightarrow> acker.more a' = acker.more a"
  by (auto simp: Acker_update_def Let_def make_room_more mark_new_more split: if_splits option.splits)

subsection \<open>Every history of packets\<close>

definition acker_step :: "int \<times> int \<Rightarrow> int \<times> acker \<Rightarrow> (int \<times> acker) res" where
  "acker_step = (\<lambda>(seq, n) (d, a). rbind (Acker_update seq n a) (\<lambda>(k, a'). Inr (d + k, a')))"

lemma represents_new: "represents new_acker Map.empty"
proof -
  have "mask_ok new_acker" by (auto simp: mask_ok_def new_acker_def MWM_def MWS_def intro!: exI [of _ 6])
  moreover have "seen_at new_acker i = 0" if "0 \<le> i" "i \<le> 1" for i
  proof -
    have "slot MWM i < 64" using slot_less [of 6 i] by (simp add: MWM_def MWS_def)
    then show ?thesis by (simp add: seen_at_def new_acker_def MWS_def)
  qed
  ultimately show ?thesis by (simp add: represents_def new_acker_def MWM_def MWS_def size_at_def)
qed

lemma acker_steps:
  assumes "represents a m" and "\<And>i. i \<in> dom m \<Longrightarrow> size_at m i = f i" and "d = (\<Sum>i\<in>{0..<ak_next a}. f i)"
    and "\<And>seq n. (seq, n) \<in> set ps \<Longrightarrow> 0 \<le> seq \<and> n = f seq \<and> 0 < n"
  shows "\<exists>a' m'. rfold acker_step ps (d, a) = Inr (\<Sum>i\<in>{0..<ak_next a'}. f i, a') \<and> represents a' m' \<and>
    dom m' = dom m \<union> fst ` set ps"
  using assms
proof (induction ps arbitrary: a m d)
  case Nil
  then show ?case by auto
next
  case (Cons e ps)
  obtain seq n where e: "e = (seq, n)" by fastforce
  then have sn: "0 \<le> seq" "n = f seq" "0 < n" using Cons.prems(4) by auto
  let ?m = "received a m seq n"
  obtain a1 where a1: "Acker_update seq n a = Inr (\<Sum>i\<in>{ak_next a..<ak_next a1}. size_at ?m i, a1)"
    "represents a1 ?m" "ak_next a \<le> ak_next a1"
    using Acker_update_ok [OF Cons.prems(1) sn(1,3)] by blast
  have old: "i \<in> dom m" if "0 \<le> i" "i < ak_next a" for i
    using Cons.prems(1) that by (simp add: represents_def)
  have dom: "dom ?m = insert seq (dom m)" using old sn(1) by (auto simp: received_def)
  have f: "size_at ?m i = f i" if "i \<in> dom ?m" for i
    using that Cons.prems(2) [of i] sn(2) old [OF sn(1)]
    by (cases "seq < ak_next a") (auto simp: received_def size_at_upd)
  have "(\<Sum>i\<in>{ak_next a..<ak_next a1}. size_at ?m i) = (\<Sum>i\<in>{ak_next a..<ak_next a1}. f i)"
  proof (rule sum.cong)
    fix i assume "i \<in> {ak_next a..<ak_next a1}"
    moreover have "0 \<le> ak_next a" using Cons.prems(1) by (simp add: represents_def)
    ultimately have "i \<in> dom ?m" using a1(2) by (simp add: represents_def)
    then show "size_at ?m i = f i" by (rule f)
  qed simp
  moreover have "{0..<ak_next a1} = {0..<ak_next a} \<union> {ak_next a..<ak_next a1}"
    using a1(3) Cons.prems(1) by (auto simp: represents_def)
  ultimately have "d + (\<Sum>i\<in>{ak_next a..<ak_next a1}. size_at ?m i) = (\<Sum>i\<in>{0..<ak_next a1}. f i)"
    using Cons.prems(3) by (simp add: sum.union_disjoint)
  moreover have "0 \<le> s \<and> n = f s \<and> 0 < n" if "(s, n) \<in> set ps" for s n
    by (rule Cons.prems(4)) (use that in simp)
  note Cons.IH [OF a1(2) f refl this]
  ultimately have "\<exists>a' m'. rfold acker_step ps (d + (\<Sum>i\<in>{ak_next a..<ak_next a1}. size_at ?m i), a1) =
      Inr (\<Sum>i\<in>{0..<ak_next a'}. f i, a') \<and> represents a' m' \<and> dom m' = dom ?m \<union> fst ` set ps"
    by simp
  then show ?case using a1(1) dom by (auto simp: e acker_step_def)
qed

text \<open>
  C20. The receiver delivers the stream in order, once. Whatever packets arrive, in any order
  and any number of times, each sequence number with a size of its own: the sequence number
  acknowledged is the last one before the first gap, and the bytes delivered so far are
  exactly those of the packets up to it. No packet, however far ahead, overflows the buffer.
\<close>

theorem receiver_history:
  assumes "\<And>seq n. (seq, n) \<in> set ps \<Longrightarrow> 0 \<le> seq \<and> n = f seq \<and> 0 < n"
  shows "\<exists>a. rfold acker_step ps (0, new_acker) = Inr (\<Sum>i\<in>{0..Seqno a}. f i, a) \<and>
    {0..Seqno a} \<subseteq> fst ` set ps \<and> Seqno a + 1 \<notin> fst ` set ps"
proof -
  have "ak_next new_acker = 0" by (simp add: new_acker_def)
  then obtain a m where a: "rfold acker_step ps (0, new_acker) = Inr (\<Sum>i\<in>{0..<ak_next a}. f i, a)"
    "represents a m" "dom m = fst ` set ps"
    using acker_steps [OF represents_new, of f 0 ps] assms by auto
  have "{0..<ak_next a} = {0..Seqno a}" by (auto simp: Seqno_def)
  moreover have "{0..<ak_next a} \<subseteq> dom m" "ak_next a \<notin> dom m" using a(2) by (auto simp: represents_def)
  ultimately show ?thesis using a(1,3) by (auto simp: Seqno_def)
qed

theorem receiver_history_witness:
  "\<exists>a. rfold acker_step [(1, 3), (0, 2), (5, 9), (1, 3), (200, 9)] (0, new_acker) = Inr (\<Sum>i\<in>{0..Seqno a}. (if i = 0 then 2 else if i = 1 then 3 else 9), a) \<and>
    Seqno a + 1 \<notin> {0, 1, 5, 200}"
proof -
  have "0 \<le> seq \<and> n = (if seq = 0 then 2 else if seq = 1 then 3 else 9) \<and> 0 < n"
    if "(seq, n) \<in> set [(1, 3), (0, 2), (5, 9), (1, 3), (200, 9)]" for seq n :: int
    using that by auto
  from receiver_history [OF this] obtain a where
    "rfold acker_step [(1, 3), (0, 2), (5, 9), (1, 3), (200, 9)] (0, new_acker) =
       Inr (\<Sum>i\<in>{0..Seqno a}. (if i = 0 then 2 else if i = 1 then 3 else 9), a)"
    "Seqno a + 1 \<notin> fst ` set [(1, 3), (0, 2), (5, 9), (1, 3), (200, 9 :: int)]" by blast
  then show ?thesis by (intro exI [of _ a]) (simp del: rfold.simps)
qed

end
