(* ===== verification/TcpSink.thy ===== *)
theory TcpSink
  imports Acker Timer CArith "HOL-Library.Multiset"
begin

section \<open>TCP sinks\<close>

text \<open>
  \<open>TcpSink\<close> and \<open>DelAckSink\<close> of tcp/tcp-sink.h and tcp/tcp-sink.cc. The headers of a
  packet that the sink reads are a record; a packet is its address with that record. What the
  sink hands on is logged: the acknowledgements it sends, the bytes it delivers to the
  application, the packets it frees. \<open>append_ack\<close> is virtual and an argument: the plain
  \<open>Acker\<close> appends nothing, the \<open>Sacker\<close> (theory \<open>Sacker\<close>) appends blocks.
\<close>

record data_pkt =
  dp_seqno :: int
  dp_ts :: real
  dp_size :: int
  dp_flowid :: int
  dp_ttl :: int
  dp_ect :: bool
  dp_ce :: bool
  dp_ecnecho :: bool
  dp_cong_action :: bool
  dp_qs_flag :: qs_state
  dp_qs_ttl :: int
  dp_qs_rate :: int

record ack_pkt =
  ap_seqno :: int
  ap_ts :: real
  ap_ts_echo :: real
  ap_flowid :: int
  ap_ect :: bool
  ap_ecnecho :: int
  ap_qs :: "(qs_state \<times> int \<times> int) option"
  ap_sack :: "(int \<times> int) list"
  ap_size :: int

type_synonym 'x append_ack = "'x acker_scheme \<Rightarrow> ack_pkt \<Rightarrow> int \<Rightarrow> (ack_pkt \<times> 'x acker_scheme) res"

record 'x tcp_sink =
  ts_acker :: "'x acker_scheme"
  ts_save :: "(nat \<times> data_pkt) option"
  ts_echo_bugfix :: bool
  ts_echo_rfc1323 :: bool
  ts_qs_enabled :: bool
  ts_RFC2581_immediate_ack :: bool
  ts_SYN_immediate_ack :: bool
  ts_ecn_syn :: bool
  ts_bytes :: int
  ts_lastreset :: real
  ts_acks :: "ack_pkt list"
  ts_delivered :: "int list"
  ts_freed :: "nat list"

definition new_sink :: "'x acker_scheme \<Rightarrow> 'x tcp_sink" where
  "new_sink a = \<lparr>ts_acker = a, ts_save = None, ts_echo_bugfix = False, ts_echo_rfc1323 = False, ts_qs_enabled = False,
     ts_RFC2581_immediate_ack = True, ts_SYN_immediate_ack = True, ts_ecn_syn = False, ts_bytes = 0, ts_lastreset = 0,
     ts_acks = [], ts_delivered = [], ts_freed = []\<rparr>"

definition append_none :: "unit append_ack" where
  "append_none a h old = Inr (h, a)"

subsection \<open>Acknowledging\<close>

definition quickstart_reply :: "'x tcp_sink \<Rightarrow> data_pkt \<Rightarrow> (qs_state \<times> int \<times> int) option" where
  "quickstart_reply s p =
     (if \<not> ts_qs_enabled s then None
      else if dp_seqno p = 0 \<and> dp_qs_flag p = QS_REQUEST
      then Some (QS_RESPONSE, c_mod (dp_ttl p - dp_qs_ttl p) 256, dp_qs_rate p)
      else Some (QS_DISABLE, 0, 0))"

text \<open>A test \<open>sf != 0 && ...\<close> on the flags of the packet that waits.\<close>

definition saved_is :: "(data_pkt \<Rightarrow> bool) \<Rightarrow> data_pkt option \<Rightarrow> bool" where
  "saved_is P sf = (case sf of None \<Rightarrow> False | Some q \<Rightarrow> P q)"

definition note_ecn :: "data_pkt \<Rightarrow> data_pkt option \<Rightarrow> 'x acker_scheme \<Rightarrow> 'x acker_scheme" where
  "note_ecn p sf a =
     (let a1 = (if saved_is dp_cong_action sf \<or> dp_cong_action p then a\<lparr>ak_ecn_unacked := 0\<rparr> else a) in
      if saved_is (\<lambda>q. dp_ect q \<and> dp_ce q) sf \<or> (dp_ect p \<and> dp_ce p) then a1\<lparr>ak_ecn_unacked := 1\<rparr> else a1)"

definition echo_ecn :: "'x tcp_sink \<Rightarrow> data_pkt \<Rightarrow> data_pkt option \<Rightarrow> 'x acker_scheme \<Rightarrow> ack_pkt \<Rightarrow> ack_pkt" where
  "echo_ecn s p sf a h =
     (let h1 = (if saved_is dp_ect sf \<or> dp_ect p then h\<lparr>ap_ecnecho := ak_ecn_unacked a\<rparr> else h) in
      if (\<not> dp_ect p \<and> dp_ecnecho p) \<or> saved_is (\<lambda>q. \<not> dp_ect q \<and> dp_ecnecho q) sf
      then h1\<lparr>ap_ect := ap_ect h1 \<or> ts_ecn_syn s, ap_ecnecho := 1\<rparr>
      else h1)"

definition TcpSink_ack :: "'x append_ack \<Rightarrow> real \<Rightarrow> data_pkt \<Rightarrow> 'x tcp_sink \<Rightarrow> 'x tcp_sink res" where
  "TcpSink_ack app now p s =
     (let a = ts_acker s; sf = map_option snd (ts_save s);
          h = \<lparr>ap_seqno = Seqno a, ap_ts = now, ap_ts_echo = (if ts_echo_bugfix s then ak_ts_to_echo a else dp_ts p),
               ap_flowid = dp_flowid p, ap_ect = False, ap_ecnecho = 0, ap_qs = quickstart_reply s p, ap_sack = [],
               ap_size = 0\<rparr>;
          a1 = note_ecn p sf a in
      rbind (app a1 (echo_ecn s p sf a1 h) (dp_seqno p)) (\<lambda>(h', a2).
        Inr (s\<lparr>ts_acker := a2\<lparr>ak_last_ack_sent := ap_seqno h'\<rparr>, ts_acks := ts_acks s @ [h']\<rparr>)))"

definition free_data :: "nat \<Rightarrow> 'x tcp_sink \<Rightarrow> 'x tcp_sink" where
  "free_data i s = s\<lparr>ts_freed := ts_freed s @ [i]\<rparr>"

text \<open>The part of \<open>recv\<close> that both sinks share: the timestamp, the window, the delivery.\<close>

definition sink_accept :: "data_pkt \<Rightarrow> 'x tcp_sink \<Rightarrow> 'x tcp_sink res" where
  "sink_accept p s =
     rbind (Acker_update (dp_seqno p) (dp_size p) (update_ts (dp_seqno p) (dp_ts p) (ts_echo_rfc1323 s) (ts_acker s)))
       (\<lambda>(n, a). Inr (if n \<noteq> 0 then s\<lparr>ts_acker := a, ts_bytes := ts_bytes s + n, ts_delivered := ts_delivered s @ [n]\<rparr>
                      else s\<lparr>ts_acker := a\<rparr>))"

definition TcpSink_recv :: "'x append_ack \<Rightarrow> real \<Rightarrow> nat \<times> data_pkt \<Rightarrow> 'x tcp_sink \<Rightarrow> 'x tcp_sink res" where
  "TcpSink_recv app now = (\<lambda>(i, p) s.
     if dp_ts p < ts_lastreset s then Inr (free_data i s)
     else rbind (sink_accept p s) (\<lambda>s1. rbind (TcpSink_ack app now p s1) (\<lambda>s2. Inr (free_data i s2))))"

definition TcpSink_reset :: "real \<Rightarrow> 'x tcp_sink \<Rightarrow> 'x tcp_sink" where
  "TcpSink_reset now s = s\<lparr>ts_acker := Acker_reset (ts_acker s), ts_save := None, ts_lastreset := now\<rparr>"

subsection \<open>Delayed acknowledgements\<close>

type_synonym ('x, 'q) delack = "'x tcp_sink \<times> 'q timed"

definition ack_now :: "'x append_ack \<Rightarrow> 'q event_ops \<Rightarrow> nat \<times> data_pkt \<Rightarrow> ('x, 'q) delack \<Rightarrow> ('x, 'q) delack res" where
  "ack_now app ops = (\<lambda>(i, p) (s, c).
     rbind (if tm_status (fst c) = TIMER_PENDING then timer_cancel ops c else Inr c) (\<lambda>c1.
       rbind (TcpSink_ack app (sc_clock (snd c1)) p s) (\<lambda>s1.
         let s2 = (case ts_save s1 of None \<Rightarrow> s1 | Some (j, q) \<Rightarrow> (free_data j s1)\<lparr>ts_save := None\<rparr>) in
         Inr (free_data i s2, c1))))"

definition DelAck_recv ::
  "'x append_ack \<Rightarrow> 'q event_ops \<Rightarrow> real \<Rightarrow> nat \<times> data_pkt \<Rightarrow> ('x, 'q) delack \<Rightarrow> ('x, 'q) delack res" where
  "DelAck_recv app ops interval = (\<lambda>(i, p) (s, c).
     if dp_ts p < ts_lastreset s then Inr (free_data i s, c)
     else rbind (sink_accept p s) (\<lambda>s1.
       if tm_status (fst c) \<noteq> TIMER_PENDING \<and> dp_seqno p = Seqno (ts_acker s1) then
         if ts_RFC2581_immediate_ack s1 \<and> dp_seqno p < ak_maxseen (ts_acker s1) then ack_now app ops (i, p) (s1, c)
         else if ts_SYN_immediate_ack s1 \<and> dp_seqno p = 0 then ack_now app ops (i, p) (s1, c)
         else rbind (timer_resched ops interval c) (\<lambda>c1. Inr (s1\<lparr>ts_save := Some (i, p)\<rparr>, c1))
       else ack_now app ops (i, p) (s1, c)))"

definition DelAck_timeout :: "'x append_ack \<Rightarrow> real \<Rightarrow> 'x tcp_sink \<Rightarrow> 'x tcp_sink res" where
  "DelAck_timeout app now s =
     (case ts_save s of None \<Rightarrow> Inr s
      | Some (i, p) \<Rightarrow> rbind (TcpSink_ack app now p s) (\<lambda>s1. Inr (free_data i (s1\<lparr>ts_save := None\<rparr>))))"

text \<open>The timer expires: its handler calls \<open>timeout\<close>, which does not touch the timer.\<close>

definition DelAck_expire :: "'x append_ack \<Rightarrow> 'q event_ops \<Rightarrow> ('x, 'q) delack \<Rightarrow> ('x, 'q) delack res" where
  "DelAck_expire app ops = (\<lambda>(s, c).
     rbind (timer_handle ops [] c) (\<lambda>c1. rbind (DelAck_timeout app (sc_clock (snd c)) s) (\<lambda>s1. Inr (s1, c1))))"

definition DelAck_reset :: "'q event_ops \<Rightarrow> ('x, 'q) delack \<Rightarrow> ('x, 'q) delack res" where
  "DelAck_reset ops = (\<lambda>(s, c).
     rbind (if tm_status (fst c) = TIMER_PENDING then timer_cancel ops c else Inr c)
       (\<lambda>c1. Inr (TcpSink_reset (sc_clock (snd c1)) s, c1)))"

subsection \<open>What the plain sink acknowledges\<close>

lemma represents_frame [simp]:
  "represents (a\<lparr>ak_ts_to_echo := t\<rparr>) m = represents a m"
  "represents (a\<lparr>ak_ecn_unacked := n\<rparr>) m = represents a m"
  "represents (a\<lparr>ak_last_ack_sent := l\<rparr>) m = represents a m"
  by (simp_all add: represents_def mask_ok_def seen_at_def)

lemma update_ts_frame [simp]:
  "represents (update_ts q t r a) m = represents a m" "ak_next (update_ts q t r a) = ak_next a"
  by (simp_all add: update_ts_def)

lemma note_ecn_frame [simp]:
  "represents (note_ecn p sf a) m = represents a m" "ak_next (note_ecn p sf a) = ak_next a"
  by (simp_all add: note_ecn_def Let_def)

lemma echo_ecn_frame [simp]: "ap_seqno (echo_ecn s p sf a h) = ap_seqno h"
  by (simp add: echo_ecn_def Let_def)

definition good_pkt :: "data_pkt \<Rightarrow> bool" where
  "good_pkt p \<longleftrightarrow> 0 \<le> dp_seqno p \<and> 0 < dp_size p"

lemma sink_accept_ok:
  assumes "represents (ts_acker s) m" and "good_pkt p"
  shows "\<exists>s1. sink_accept p s = Inr s1 \<and>
    represents (ts_acker s1) (received (ts_acker s) m (dp_seqno p) (dp_size p)) \<and> ak_next (ts_acker s) \<le> ak_next (ts_acker s1) \<and>
    ts_bytes s1 = ts_bytes s + (\<Sum>i\<in>{ak_next (ts_acker s)..<ak_next (ts_acker s1)}.
      size_at (received (ts_acker s) m (dp_seqno p) (dp_size p)) i) \<and>
    ts_freed s1 = ts_freed s \<and> ts_save s1 = ts_save s \<and> ts_acks s1 = ts_acks s \<and> ts_lastreset s1 = ts_lastreset s"
proof -
  let ?u = "update_ts (dp_seqno p) (dp_ts p) (ts_echo_rfc1323 s) (ts_acker s)"
  have "received ?u m = received (ts_acker s) m" by (intro ext) (simp add: received_def)
  then obtain a where a: "Acker_update (dp_seqno p) (dp_size p) ?u = Inr (\<Sum>i\<in>{ak_next (ts_acker s)..<ak_next a}.
      size_at (received (ts_acker s) m (dp_seqno p) (dp_size p)) i, a)"
    "represents a (received (ts_acker s) m (dp_seqno p) (dp_size p))" "ak_next (ts_acker s) \<le> ak_next a"
    using Acker_update_ok [of ?u m "dp_seqno p" "dp_size p"] assms by (auto simp: good_pkt_def)
  then show ?thesis by (simp add: sink_accept_def)
qed

lemma sink_accept_more: "sink_accept p s = Inr s1 \<Longrightarrow> acker.more (ts_acker s1) = acker.more (ts_acker s)"
proof -
  let ?u = "update_ts (dp_seqno p) (dp_ts p) (ts_echo_rfc1323 s) (ts_acker s)"
  assume "sink_accept p s = Inr s1"
  then obtain n a where a: "Acker_update (dp_seqno p) (dp_size p) ?u = Inr (n, a)" "ts_acker s1 = a"
    by (auto simp: sink_accept_def rbind_eq_Inr split: if_splits)
  have "acker.more ?u = acker.more (ts_acker s)" by (simp add: update_ts_def)
  then show ?thesis using Acker_update_more [OF a(1)] a(2) by simp
qed

lemma TcpSink_ack_ok:
  "TcpSink_ack append_none now p s = Inr s1 \<Longrightarrow>
   \<exists>h. ap_seqno h = Seqno (ts_acker s) \<and> ts_acks s1 = ts_acks s @ [h] \<and> ts_freed s1 = ts_freed s \<and>
     ts_save s1 = ts_save s \<and> ts_bytes s1 = ts_bytes s \<and> ts_lastreset s1 = ts_lastreset s \<and>
     (\<forall>m. represents (ts_acker s1) m = represents (ts_acker s) m) \<and> ak_next (ts_acker s1) = ak_next (ts_acker s)"
  by (auto simp: TcpSink_ack_def append_none_def Let_def)

lemma TcpSink_ack_total: "\<exists>s1. TcpSink_ack append_none now p s = Inr s1"
  by (simp add: TcpSink_ack_def append_none_def Let_def)

text \<open>A history of arrivals: the time, the address and the headers of each.\<close>

definition sink_run :: "'x append_ack \<Rightarrow> (real \<times> nat \<times> data_pkt) list \<Rightarrow> 'x tcp_sink \<Rightarrow> 'x tcp_sink res" where
  "sink_run app = rfold (\<lambda>(now, ip). TcpSink_recv app now ip)"

definition seqnos :: "(real \<times> nat \<times> data_pkt) list \<Rightarrow> int set" where
  "seqnos ps = (\<lambda>(now, i, p). dp_seqno p) ` set ps"

definition cumulative :: "int \<Rightarrow> int set \<Rightarrow> bool" where
  "cumulative n S \<longleftrightarrow> {0..n} \<subseteq> S \<and> n + 1 \<notin> S"

lemma represents_cumulative: "represents a m \<Longrightarrow> cumulative (Seqno a) (dom m)"
  by (auto simp: represents_def cumulative_def Seqno_def)

lemma dom_received:
  assumes "represents a m" and "0 \<le> seq"
  shows "dom (received a m seq n) = insert seq (dom m)"
proof -
  have "seq \<in> dom m" if "seq < ak_next a" using assms that by (simp add: represents_def)
  then show ?thesis by (auto simp: received_def)
qed

lemma sink_run_ok:
  assumes "\<And>now i p. (now, i, p) \<in> set ps \<Longrightarrow> good_pkt p \<and> ts_lastreset s \<le> dp_ts p"
    and "represents (ts_acker s) m"
  shows "\<exists>s'. sink_run append_none ps s = Inr s' \<and> (\<exists>hs. ts_acks s' = ts_acks s @ hs \<and> length hs = length ps \<and>
      (\<forall>k < length ps. cumulative (ap_seqno (hs ! k)) (dom m \<union> seqnos (take (Suc k) ps)))) \<and>
    ts_freed s' = ts_freed s @ map (\<lambda>(now, i, p). i) ps"
  using assms
proof (induction ps arbitrary: s m)
  case Nil
  then show ?case by (simp add: sink_run_def)
next
  case (Cons e ps)
  obtain now i p where e: "e = (now, i, p)" by (cases e)
  have p: "good_pkt p" "\<not> dp_ts p < ts_lastreset s" using Cons.prems(1) [of now i p] by (auto simp: e)
  let ?m = "received (ts_acker s) m (dp_seqno p) (dp_size p)"
  obtain s1 where s1: "sink_accept p s = Inr s1" "represents (ts_acker s1) ?m"
    "ts_freed s1 = ts_freed s" "ts_acks s1 = ts_acks s" "ts_lastreset s1 = ts_lastreset s"
    using sink_accept_ok [OF Cons.prems(2) p(1)] by blast
  obtain s2 where s2: "TcpSink_ack append_none now p s1 = Inr s2" using TcpSink_ack_total by blast
  then obtain h where h: "ap_seqno h = Seqno (ts_acker s1)" "ts_acks s2 = ts_acks s1 @ [h]" "ts_freed s2 = ts_freed s1"
    "ts_lastreset s2 = ts_lastreset s1" "represents (ts_acker s2) ?m"
    using TcpSink_ack_ok [OF s2] s1(2) by blast
  let ?s = "free_data i s2"
  have recv: "TcpSink_recv append_none now (i, p) s = Inr ?s" using p s1(1) s2 by (simp add: TcpSink_recv_def)
  have dom: "dom ?m = insert (dp_seqno p) (dom m)"
    using dom_received [OF Cons.prems(2)] p(1) by (simp add: good_pkt_def)
  have "good_pkt q \<and> ts_lastreset ?s \<le> dp_ts q" if "(t, j, q) \<in> set ps" for t j q
    using Cons.prems(1) [of t j q] that h(4) s1(5) by (simp add: free_data_def)
  moreover have "represents (ts_acker ?s) ?m" using h(5) by (simp add: free_data_def)
  ultimately obtain s' hs where s': "sink_run append_none ps ?s = Inr s'" "ts_acks s' = ts_acks ?s @ hs" "length hs = length ps"
    "\<forall>k < length ps. cumulative (ap_seqno (hs ! k)) (dom ?m \<union> seqnos (take (Suc k) ps))"
    "ts_freed s' = ts_freed ?s @ map (\<lambda>(now, i, p). i) ps"
    using Cons.IH [of ?s ?m] by blast
  have "cumulative (ap_seqno ((h # hs) ! k)) (dom m \<union> seqnos (take (Suc k) (e # ps)))" if "k < length (e # ps)" for k
  proof (cases k)
    case 0
    then show ?thesis using represents_cumulative [OF s1(2)] h(1) dom by (simp add: seqnos_def e)
  next
    case (Suc j)
    then show ?thesis using s'(4) that dom by (auto simp: seqnos_def e)
  qed
  moreover have "sink_run append_none (e # ps) s = Inr s'" using s'(1) recv by (simp add: sink_run_def e)
  moreover have "ts_acks s' = ts_acks s @ h # hs" using s'(2) h(2) s1(4) by (simp add: free_data_def)
  moreover have "ts_freed s' = ts_freed s @ map (\<lambda>(now, i, p). i) (e # ps)"
    using s'(5) h(3) s1(3) by (simp add: free_data_def e)
  ultimately show ?case using s'(3) by (intro exI [of _ s'] conjI exI [of _ "h # hs"]) auto
qed

text \<open>
  A sink acknowledges every packet once, cumulatively: after any history of packets the
  acknowledgement sent for each one carries the last sequence number before the first gap in
  what had arrived by then, and every packet has been freed, once and in order.
\<close>

theorem sink_acknowledges:
  assumes "\<And>now i p. (now, i, p) \<in> set ps \<Longrightarrow> good_pkt p \<and> 0 \<le> dp_ts p"
  shows "\<exists>s. sink_run append_none ps (new_sink new_acker) = Inr s \<and> length (ts_acks s) = length ps \<and>
    (\<forall>k < length ps. cumulative (ap_seqno (ts_acks s ! k)) (seqnos (take (Suc k) ps))) \<and>
    ts_freed s = map (\<lambda>(now, i, p). i) ps"
proof -
  have "\<And>now i p. (now, i, p) \<in> set ps \<Longrightarrow> good_pkt p \<and> ts_lastreset (new_sink new_acker) \<le> dp_ts p"
    using assms by (simp add: new_sink_def)
  moreover have "represents (ts_acker (new_sink new_acker)) Map.empty"
    using represents_new by (simp add: new_sink_def)
  ultimately show ?thesis using sink_run_ok [of ps "new_sink new_acker" Map.empty] by (auto simp: new_sink_def)
qed

definition demo_pkt :: "int \<Rightarrow> data_pkt" where
  "demo_pkt n = \<lparr>dp_seqno = n, dp_ts = 1, dp_size = 1000, dp_flowid = 0, dp_ttl = 32, dp_ect = False, dp_ce = False,
     dp_ecnecho = False, dp_cong_action = False, dp_qs_flag = QS_DISABLE, dp_qs_ttl = 0, dp_qs_rate = 0\<rparr>"

theorem sink_acknowledges_witness:
  "\<exists>s. sink_run append_none [(1, 7, demo_pkt 1), (2, 8, demo_pkt 0)] (new_sink new_acker) = Inr s \<and>
    cumulative (ap_seqno (ts_acks s ! 0)) {1} \<and> cumulative (ap_seqno (ts_acks s ! 1)) {0, 1} \<and> ts_freed s = [7, 8]"
proof -
  define ps where "ps = [(1 :: real, 7 :: nat, demo_pkt 1), (2, 8, demo_pkt 0)]"
  have good: "good_pkt p \<and> 0 \<le> dp_ts p" if "(now, i, p) \<in> set ps" for now i p
    using that by (auto simp: ps_def demo_pkt_def good_pkt_def)
  have "\<exists>s. sink_run append_none ps (new_sink new_acker) = Inr s \<and> length (ts_acks s) = length ps \<and>
      (\<forall>k < length ps. cumulative (ap_seqno (ts_acks s ! k)) (seqnos (take (Suc k) ps))) \<and>
      ts_freed s = map (\<lambda>(now, i, p). i) ps"
    by (rule sink_acknowledges) (rule good)
  then obtain s where
    s: "sink_run append_none ps (new_sink new_acker) = Inr s" "ts_freed s = map (\<lambda>(now, i, p). i) ps"
    and acks: "\<forall>k < length ps. cumulative (ap_seqno (ts_acks s ! k)) (seqnos (take (Suc k) ps))" by blast
  have "seqnos (take (Suc 0) ps) = {1}" "seqnos (take (Suc 1) ps) = {0, 1}" "length ps = 2"
    by (auto simp: seqnos_def demo_pkt_def ps_def)
  then have "cumulative (ap_seqno (ts_acks s ! 0)) {1}" "cumulative (ap_seqno (ts_acks s ! 1)) {0, 1}"
    using acks [rule_format, of 0] acks [rule_format, of 1] by simp_all
  moreover have "ts_freed s = [7, 8]" using s(2) by (simp add: ps_def)
  ultimately show ?thesis using s(1) unfolding ps_def by blast
qed

subsection \<open>The life of a delaying sink\<close>

text \<open>
  A sink that delays its acknowledgements among the other events of the simulation: packets
  arrive, its timer expires, other events are scheduled, cancelled and dispatched. The list
  collects the packets that arrived.
\<close>

inductive delack_run :: "'q event_ops \<Rightarrow> real \<Rightarrow> (unit, 'q) delack \<Rightarrow> (nat \<times> data_pkt) list \<Rightarrow> (unit, 'q) delack \<Rightarrow> bool"
  for ops :: "'q event_ops" and interval :: real and d0 :: "(unit, 'q) delack" where
  start: "delack_run ops interval d0 [] d0"
| arrive: "delack_run ops interval d0 ps d \<Longrightarrow> good_pkt p \<Longrightarrow> 0 \<le> dp_ts p \<Longrightarrow>
    DelAck_recv append_none ops interval (i, p) d = Inr d' \<Longrightarrow> delack_run ops interval d0 (ps @ [(i, p)]) d'"
| expires: "delack_run ops interval d0 ps (s, (tm, sc)) \<Longrightarrow> take_next ops sc = Some (tm_event tm, sc1) \<Longrightarrow>
    DelAck_expire append_none ops (s, (tm, sc1)) = Inr d' \<Longrightarrow> delack_run ops interval d0 ps d'"
| another_event: "delack_run ops interval d0 ps (s, (tm, sc)) \<Longrightarrow> take_next ops sc = Some (e, sc1) \<Longrightarrow> e \<noteq> tm_event tm \<Longrightarrow>
    delack_run ops interval d0 ps (s, (tm, sc1))"
| another_call: "delack_run ops interval d0 ps (s, (tm, sc)) \<Longrightarrow> perform ops a sc = Inr sc1 \<Longrightarrow>
    (\<And>h e x. a = Do_Schedule h e x \<Longrightarrow> e \<noteq> tm_event tm) \<Longrightarrow> a \<noteq> Do_Cancel (tm_event tm) \<Longrightarrow>
    delack_run ops interval d0 ps (s, (tm, sc1))"

definition saved :: "'x tcp_sink \<Rightarrow> nat list" where
  "saved s = (case ts_save s of None \<Rightarrow> [] | Some (i, p) \<Rightarrow> [i])"

text \<open>What holds of the sink itself, whatever the scheduler does.\<close>

definition delack_inv :: "(nat \<times> data_pkt) list \<Rightarrow> (unit, 'q) delack \<Rightarrow> bool" where
  "delack_inv ps = (\<lambda>(s, (tm, sc)).
     tm_status tm \<noteq> TIMER_HANDLING \<and> (tm_status tm = TIMER_PENDING \<longleftrightarrow> ts_save s \<noteq> None) \<and> ts_lastreset s = 0 \<and>
     (\<exists>m. represents (ts_acker s) m \<and> dom m = (\<lambda>(i, p). dp_seqno p) ` set ps) \<and>
     map fst ps = ts_freed s @ saved s \<and>
     (ts_save s = None \<longrightarrow> ps \<noteq> [] \<longrightarrow>
        ts_acks s \<noteq> [] \<and> cumulative (ap_seqno (last (ts_acks s))) ((\<lambda>(i, p). dp_seqno p) ` set ps)))"

lemma ack_now_Inr:
  assumes "ack_now append_none ops (i, p) (s, c) = Inr (s', c')"
    and "represents (ts_acker s) m"
  shows "(c' = c \<and> tm_status (fst c) \<noteq> TIMER_PENDING \<or> timer_do ops T_Cancel c = Inr c' \<and> tm_status (fst c') = TIMER_IDLE) \<and>
    ts_save s' = None \<and> ts_freed s' = ts_freed s @ saved s @ [i] \<and> ts_lastreset s' = ts_lastreset s \<and>
    represents (ts_acker s') m \<and> ts_acks s' \<noteq> [] \<and> cumulative (ap_seqno (last (ts_acks s'))) (dom m)"
proof -
  obtain c1 s1 where c1: "(if tm_status (fst c) = TIMER_PENDING then timer_cancel ops c else Inr c) = Inr c1"
    and s1: "TcpSink_ack append_none (sc_clock (snd c1)) p s = Inr s1" and c': "c' = c1"
    and s': "s' = free_data i (case ts_save s1 of None \<Rightarrow> s1 | Some (j, q) \<Rightarrow> (free_data j s1)\<lparr>ts_save := None\<rparr>)"
    using assms(1) by (auto simp: ack_now_def rbind_eq_Inr Let_def)
  have "c1 = c \<and> tm_status (fst c) \<noteq> TIMER_PENDING \<or> timer_do ops T_Cancel c = Inr c1 \<and> tm_status (fst c1) = TIMER_IDLE"
  proof (cases "tm_status (fst c) = TIMER_PENDING")
    case True
    then show ?thesis using c1 by (cases c) (auto simp: timer_cancel_def cancel_event_def rbind_eq_Inr)
  qed (use c1 in simp)
  moreover obtain h where "ap_seqno h = Seqno (ts_acker s)" "ts_acks s1 = ts_acks s @ [h]" "ts_freed s1 = ts_freed s"
    "ts_save s1 = ts_save s" "ts_lastreset s1 = ts_lastreset s" "represents (ts_acker s1) m"
    using TcpSink_ack_ok [OF s1] assms(2) by blast
  ultimately show ?thesis using represents_cumulative [OF assms(2)] unfolding c' s'
    by (cases "ts_save s") (auto simp: saved_def free_data_def)
qed

lemma DelAck_recv_timer:
  assumes "DelAck_recv append_none ops interval (i, p) (s, c) = Inr (s', c')" and "represents (ts_acker s) m" and "good_pkt p"
  shows "c' = c \<or> (\<exists>a. timer_do ops a c = Inr c')"
proof (cases "dp_ts p < ts_lastreset s")
  case True
  then show ?thesis using assms(1) by (simp add: DelAck_recv_def)
next
  case False
  obtain s1 where s1: "sink_accept p s = Inr s1" "represents (ts_acker s1) (received (ts_acker s) m (dp_seqno p) (dp_size p))"
    using sink_accept_ok [OF assms(2,3)] by blast
  show ?thesis
  proof (cases "ack_now append_none ops (i, p) (s1, c) = Inr (s', c')")
    case True
    then show ?thesis using ack_now_Inr [OF True s1(2)] by blast
  next
    case no: False
    then have "timer_resched ops interval c = Inr c'"
      using assms(1) s1(1) False by (auto simp: DelAck_recv_def rbind_eq_Inr split: if_splits)
    then show ?thesis by (intro disjI2 exI [of _ "T_Resched interval"]) simp
  qed
qed

lemma DelAck_recv_inv:
  assumes "delack_inv ps (s, c)" and "good_pkt p" and "0 \<le> dp_ts p"
    and "DelAck_recv append_none ops interval (i, p) (s, c) = Inr d'"
  shows "delack_inv (ps @ [(i, p)]) d'"
proof -
  obtain s' c' where d': "d' = (s', c')" by (cases d')
  obtain tm sc where c: "c = (tm, sc)" by (cases c)
  obtain m where m: "represents (ts_acker s) m" "dom m = (\<lambda>(i, p). dp_seqno p) ` set ps"
    using assms(1) by (auto simp: delack_inv_def c)
  have st: "tm_status tm \<noteq> TIMER_HANDLING" "tm_status tm = TIMER_PENDING \<longleftrightarrow> ts_save s \<noteq> None" "ts_lastreset s = 0"
    "map fst ps = ts_freed s @ saved s"
    using assms(1) by (simp_all add: delack_inv_def c)
  let ?m = "received (ts_acker s) m (dp_seqno p) (dp_size p)"
  obtain s1 where s1: "sink_accept p s = Inr s1" "represents (ts_acker s1) ?m" "ts_freed s1 = ts_freed s" "ts_save s1 = ts_save s"
    "ts_lastreset s1 = 0"
    using sink_accept_ok [OF m(1) assms(2)] st(3) by metis
  have dom: "dom ?m = (\<lambda>(i, p). dp_seqno p) ` set (ps @ [(i, p)])"
    using dom_received [OF m(1)] assms(2) m(2) by (auto simp: good_pkt_def)
  have sv: "saved s1 = saved s" by (simp add: saved_def s1(4))
  show ?thesis
  proof (cases "ack_now append_none ops (i, p) (s1, c) = Inr (s', c')")
    case True
    note ack = ack_now_Inr [OF True s1(2)]
    have "tm_status (fst c') = TIMER_IDLE" using ack st(1) c by (cases "tm_status tm") auto
    then show ?thesis using ack dom st(4) s1(3,5) sv
      by (cases c') (auto simp: delack_inv_def d' saved_def intro!: exI [of _ ?m])
  next
    case no: False
    then have r: "timer_resched ops interval c = Inr c'" "s' = s1\<lparr>ts_save := Some (i, p)\<rparr>" "tm_status tm \<noteq> TIMER_PENDING"
      using assms(3,4) s1(1) st(3) by (auto simp: DelAck_recv_def rbind_eq_Inr d' c split: if_splits)
    have "tm_status (fst c') = TIMER_PENDING"
      using r(1) by (auto simp: timer_resched_def sched_event_def rbind_eq_Inr c)
    moreover have "saved s = []" using st(2) r(3) by (cases "ts_save s") (simp_all add: saved_def)
    ultimately show ?thesis using r(2) s1 st(4) dom
      by (cases c') (auto simp: delack_inv_def d' saved_def intro!: exI [of _ ?m])
  qed
qed

lemma DelAck_expire_inv:
  assumes "delack_inv ps (s, (tm, sc))" and "DelAck_expire append_none ops (s, (tm, sc1)) = Inr (s', (tm', sc'))"
  shows "delack_inv ps (s', (tm', sc'))" and "timer_handle ops [] (tm, sc1) = Inr (tm', sc')"
proof -
  obtain s1 where h: "timer_handle ops [] (tm, sc1) = Inr (tm', sc')" and t: "DelAck_timeout append_none (sc_clock sc1) s = Inr s'"
    using assms(2) by (auto simp: DelAck_expire_def rbind_eq_Inr)
  show "timer_handle ops [] (tm, sc1) = Inr (tm', sc')" by (rule h)
  have p: "tm_status tm = TIMER_PENDING" and tm': "tm_status tm' = TIMER_IDLE" using h by (auto simp: timer_handle_Inr)
  obtain m where m: "represents (ts_acker s) m" "dom m = (\<lambda>(i, p). dp_seqno p) ` set ps"
    using assms(1) by (auto simp: delack_inv_def)
  obtain i p where sv: "ts_save s = Some (i, p)" using assms(1) p by (auto simp: delack_inv_def)
  obtain s2 where s2: "TcpSink_ack append_none (sc_clock sc1) p s = Inr s2" "s' = free_data i (s2\<lparr>ts_save := None\<rparr>)"
    using t sv by (auto simp: DelAck_timeout_def rbind_eq_Inr)
  obtain h where "ap_seqno h = Seqno (ts_acker s)" "ts_acks s2 = ts_acks s @ [h]" "ts_freed s2 = ts_freed s"
    "ts_lastreset s2 = ts_lastreset s" "represents (ts_acker s2) m"
    using TcpSink_ack_ok [OF s2(1)] m(1) by blast
  then show "delack_inv ps (s', (tm', sc'))" using assms(1) sv s2(2) tm' represents_cumulative [OF m(1)] m(2)
    by (auto simp: delack_inv_def saved_def free_data_def intro!: exI [of _ m])
qed

lemma delack_run_inv:
  assumes "delack_run ops interval d0 ps d" and "delack_inv [] d0"
  shows "delack_inv ps d \<and> (timer_step ops)\<^sup>*\<^sup>* (snd d0) (snd d)"
  using assms
proof (induction rule: delack_run.induct)
  case start
  then show ?case by simp
next
  case (arrive ps d p i d')
  obtain s c where d: "d = (s, c)" by (cases d)
  obtain s' c' where d': "d' = (s', c')" by (cases d')
  have inv: "delack_inv ps (s, c)" using arrive.IH arrive.prems d by simp
  then obtain m where m: "represents (ts_acker s) m" by (cases c) (auto simp: delack_inv_def)
  have "c' = c \<or> (\<exists>a. timer_do ops a c = Inr c')"
    using DelAck_recv_timer [OF _ m arrive.hyps(2)] arrive.hyps(4) by (simp add: d d')
  then have "(timer_step ops)\<^sup>*\<^sup>* c c'" using timer_step.call r_into_rtranclp by (metis rtranclp.rtrancl_refl)
  then show ?case
    using arrive.IH arrive.prems DelAck_recv_inv [OF inv arrive.hyps(2,3)] arrive.hyps(4) by (auto simp: d d')
next
  case (expires ps s tm sc sc1 d')
  obtain s' tm' sc' where d': "d' = (s', (tm', sc'))" by (metis surj_pair)
  have inv: "delack_inv ps (s, (tm, sc))" and reach: "(timer_step ops)\<^sup>*\<^sup>* (snd d0) (tm, sc)" using expires.IH expires.prems by simp_all
  have "timer_step ops (tm, sc) (tm', sc')"
    using timer_step.fire [OF expires.hyps(2)] DelAck_expire_inv(2) [OF inv] expires.hyps(3) d' by blast
  then show ?case using DelAck_expire_inv(1) [OF inv] expires.hyps(3) reach by (auto simp: d' intro: rtranclp.rtrancl_into_rtrancl)
next
  case (another_event ps s tm sc e sc1)
  have "timer_step ops (tm, sc) (tm, sc1)" by (rule timer_step.other_event [OF another_event.hyps(2,3)])
  moreover have "delack_inv ps (s, (tm, sc1))" using another_event.IH another_event.prems by (simp add: delack_inv_def)
  ultimately show ?case using another_event.IH another_event.prems by (auto intro: rtranclp.rtrancl_into_rtrancl)
next
  case (another_call ps s tm sc a sc1)
  have "timer_step ops (tm, sc) (tm, sc1)" by (rule timer_step.other_call [OF another_call.hyps(2-4)])
  moreover have "delack_inv ps (s, (tm, sc1))" using another_call.IH another_call.prems by (simp add: delack_inv_def)
  ultimately show ?case using another_call.IH another_call.prems by (auto intro: rtranclp.rtrancl_into_rtrancl)
qed

context total_queue
begin

lemma DelAck_recv_total:
  assumes "timer_ok K c" and "sc_uid (snd c) < K" and "K < 2 ^ 63" and "represents (ts_acker s) m" and "good_pkt p"
  shows "\<exists>d'. DelAck_recv append_none ops interval (i, p) (s, c) = Inr d'"
proof -
  obtain s1 where s1: "sink_accept p s = Inr s1" using sink_accept_ok [OF assms(4,5)] by blast
  obtain tm sc where c: "c = (tm, sc)" by (cases c)
  have "\<exists>c1. (if tm_status (fst c) = TIMER_PENDING then timer_cancel ops c else Inr c) = Inr c1"
    using cancel_event_ok [OF assms(1)] assms(2) by (auto simp: timer_cancel_def)
  then obtain c1 where c1: "(if tm_status (fst c) = TIMER_PENDING then timer_cancel ops c else Inr c) = Inr c1" by blast
  obtain s2 where "TcpSink_ack append_none (sc_clock (snd c1)) p s1 = Inr s2" using TcpSink_ack_total by blast
  then have ack: "\<exists>d'. ack_now append_none ops (i, p) (s1, c) = Inr d'" using c1 by (simp add: ack_now_def Let_def)
  obtain c2 where "timer_resched ops interval c = Inr c2"
    using timer_resched_ok [of K tm sc interval] assms(1-3) c by auto
  then show ?thesis using ack s1 by (simp add: DelAck_recv_def)
qed

end

text \<open>
  C26. A delaying sink holds at most one packet, and holds one exactly while its timer is in
  the scheduler: whatever packets arrive and whatever other events are scheduled, cancelled
  and dispatched between them on a heap scheduler, the packets that arrived are those freed so
  far, each once and in order, and the one held; when none is held the last acknowledgement
  covers all that arrived; and no arriving packet aborts the simulation.
\<close>

theorem delayed_acks:
  assumes "delack_run heap_ops interval (new_sink new_acker, (new_timer e h, new_sched new_heap)) ps (s, (tm, sc))"
    and "0 \<le> sc_uid sc" and "sc_uid sc < 2 ^ 32" and "good_pkt p"
  shows "map fst ps = ts_freed s @ saved s \<and> (saved s \<noteq> [] \<longleftrightarrow> heap_member (tm_event tm) (sc_queue sc) \<noteq> None) \<and>
    (saved s = [] \<longrightarrow> ps \<noteq> [] \<longrightarrow> cumulative (ap_seqno (last (ts_acks s))) ((\<lambda>(i, p). dp_seqno p) ` set ps)) \<and>
    (\<exists>d'. DelAck_recv append_none heap_ops interval (i, p) (s, (tm, sc)) = Inr d')"
proof -
  have "delack_inv [] (new_sink new_acker, (new_timer e h, new_sched new_heap))"
    using represents_new by (auto simp: delack_inv_def new_sink_def new_timer_def saved_def)
  from delack_run_inv [OF assms(1) this] have inv: "delack_inv ps (s, (tm, sc))"
    and reach: "(timer_step heap_ops)\<^sup>*\<^sup>* (new_timer e h, new_sched new_heap) (tm, sc)" by simp_all
  have ok: "hsq.timer_ok (2 ^ 32) (tm, sc)" using timer_reach_heap [OF reach] assms(2,3) by simp
  obtain m where "represents (ts_acker s) m" using inv by (auto simp: delack_inv_def)
  from hsq.DelAck_recv_total [OF ok _ _ this assms(4)] assms(3)
  have "\<exists>d'. DelAck_recv append_none heap_ops interval (i, p) (s, (tm, sc)) = Inr d'" by simp
  moreover have "saved s \<noteq> [] \<longleftrightarrow> ts_save s \<noteq> None" by (auto simp: saved_def split: option.splits)
  ultimately show ?thesis using inv timer_queued [OF ok] unfolding delack_inv_def by (cases "ts_save s") simp_all
qed

theorem delayed_acks_witness:
  "\<exists>s. DelAck_recv append_none heap_ops 1 (7, demo_pkt 0) (new_sink new_acker, (new_timer 5 9, new_sched new_heap)) =
      Inr (s, (new_timer 5 9, new_sched new_heap)) \<and> [7] = ts_freed s @ saved s \<and>
    (\<exists>d'. DelAck_recv append_none heap_ops 1 (8, demo_pkt 1) (s, (new_timer 5 9, new_sched new_heap)) = Inr d')"
proof -
  let ?d = "(new_sink new_acker, (new_timer 5 9, new_sched new_heap))"
  have good: "good_pkt (demo_pkt 0)" "good_pkt (demo_pkt 1)" "0 \<le> dp_ts (demo_pkt 0)" by (simp_all add: good_pkt_def demo_pkt_def)
  have uid: "0 \<le> sc_uid (new_sched new_heap)" "sc_uid (new_sched new_heap) < 2 ^ 32" by (simp_all add: new_sched_def)
  have rep: "represents (ts_acker (new_sink new_acker)) Map.empty" using represents_new by (simp add: new_sink_def)
  obtain s1 where s1: "sink_accept (demo_pkt 0) (new_sink new_acker) = Inr s1" using sink_accept_ok [OF rep good(1)] by blast
  then have flag: "ts_SYN_immediate_ack s1" by (auto simp: sink_accept_def rbind_eq_Inr new_sink_def split: if_splits)
  from delayed_acks [OF delack_run.start uid good(1)] obtain d' where
    d': "DelAck_recv append_none heap_ops 1 (7, demo_pkt 0) ?d = Inr d'" by blast
  then have ack: "ack_now append_none heap_ops (7, demo_pkt 0) (s1, snd ?d) = Inr d'"
    using s1 flag by (auto simp: DelAck_recv_def demo_pkt_def new_sink_def split: if_splits)
  then have "snd d' = (new_timer 5 9, new_sched new_heap)"
    by (auto simp: ack_now_def rbind_eq_Inr Let_def new_timer_def)
  then obtain s where s: "d' = (s, (new_timer 5 9, new_sched new_heap))" by (cases d') simp
  have "delack_run heap_ops 1 ?d ([] @ [(7, demo_pkt 0)]) (s, (new_timer 5 9, new_sched new_heap))"
    using delack_run.arrive [OF delack_run.start good(1,3)] d' s by blast
  from delayed_acks [OF this uid good(2)] show ?thesis using d' s by auto
qed

end
