(* ===== verification/Sacker.thy ===== *)
theory Sacker
  imports TcpSink
begin

section \<open>Selective acknowledgements\<close>

text \<open>
  \<open>Sacker\<close> and \<open>SackStack\<close> of tcp/tcp-sink.cc: the receiver that appends to each
  acknowledgement the blocks it holds beyond the first gap, the most recent one first. The
  acker is extended by the number of blocks, the flag of the sink that asks for blocks of
  duplicates and the stack, \<open>None\<close> before \<open>configure\<close>; the entries of the stack are a
  vector. \<open>append_ack\<close> is the argument of the sink in theory \<open>TcpSink\<close>.
\<close>

record sack_stack =
  st_size :: int
  st_cnt :: int
  st_sfe :: "(int \<times> int) list"

definition new_stack :: "int \<Rightarrow> sack_stack" where
  "new_stack sz = \<lparr>st_size = sz, st_cnt = 0, st_sfe = replicate (nat sz) (-1, -1)\<rparr>"

definition stack_reset :: "sack_stack \<Rightarrow> sack_stack res" where
  "stack_reset st =
     rbind (rfold (\<lambda>i xs. vec_upd xs i (\<lambda>_. (-1, -1))) [0 .. st_cnt st - 1] (st_sfe st))
       (\<lambda>xs. Inr (st\<lparr>st_cnt := 0, st_sfe := xs\<rparr>))"

definition push :: "int \<Rightarrow> sack_stack \<Rightarrow> sack_stack res" where
  "push n st =
     (let cnt = (if st_cnt st \<ge> st_size st then st_size st - 1 else st_cnt st) in
      rbind (rfold (\<lambda>i xs. rbind (vec_get xs i) (\<lambda>x. vec_upd xs (i + 1) (\<lambda>_. x))) (rev [n .. cnt - 1]) (st_sfe st))
        (\<lambda>xs. Inr (st\<lparr>st_cnt := cnt + 1, st_sfe := xs\<rparr>)))"

definition pop :: "int \<Rightarrow> sack_stack \<Rightarrow> sack_stack res" where
  "pop n st =
     rbind (rfold (\<lambda>i xs. rbind (vec_get xs (i + 1)) (\<lambda>x. vec_upd xs i (\<lambda>_. x))) [n .. st_cnt st - 2] (st_sfe st)) (\<lambda>xs.
       rbind (vec_upd xs (max n (st_cnt st - 1)) (\<lambda>_. (-1, -1))) (\<lambda>ys.
         Inr (st\<lparr>st_cnt := st_cnt st - 1, st_sfe := ys\<rparr>)))"

record sacker = acker +
  sk_base_nblocks :: int
  sk_dsacks :: bool
  sk_stack :: "sack_stack option"

definition NSA :: int where "NSA = 3"

definition new_sacker :: sacker where
  "new_sacker = acker.extend new_acker \<lparr>sk_base_nblocks = -1, sk_dsacks = False, sk_stack = None\<rparr>"

text \<open>\<open>configure\<close> with the two variables of the sink it reads, and the change of the first.\<close>

definition Sacker_configure :: "int \<Rightarrow> bool \<Rightarrow> sacker \<Rightarrow> sacker" where
  "Sacker_configure nblocks dsacks a =
     (let n = (if nblocks > NSA then NSA else nblocks) in
      a\<lparr>sk_base_nblocks := n, sk_dsacks := dsacks, sk_stack := Some (new_stack n)\<rparr>)"

definition Sacker_trace :: "int \<Rightarrow> sacker \<Rightarrow> sacker" where
  "Sacker_trace v a =
     (let n = (if v > NSA then NSA else v) in a\<lparr>sk_base_nblocks := n, sk_stack := Some (new_stack n)\<rparr>)"

definition the_stack :: "sacker \<Rightarrow> sack_stack res" where
  "the_stack a = (case sk_stack a of None \<Rightarrow> Inl Null_Deref | Some st \<Rightarrow> Inr st)"

definition Sacker_reset :: "sacker \<Rightarrow> sacker res" where
  "Sacker_reset a = rbind (rbind (the_stack a) stack_reset) (\<lambda>st. Inr (Acker_reset (a\<lparr>sk_stack := Some st\<rparr>)))"

subsection \<open>The blocks of an acknowledgement\<close>

text \<open>The two scans for a hole, to the right from the packet and to the left from there.\<close>

definition right_edge :: "'x acker_scheme \<Rightarrow> int \<Rightarrow> int" where
  "right_edge a old = (case find (\<lambda>i. seen_at a i = 0) [old .. ak_maxseen a] of None \<Rightarrow> ak_maxseen a + 1 | Some i \<Rightarrow> i)"

definition left_edge :: "'x acker_scheme \<Rightarrow> int \<Rightarrow> int" where
  "left_edge a sack_r =
     (case find (\<lambda>i. seen_at a i = 0) (rev [Seqno a + 1 .. sack_r - 1]) of None \<Rightarrow> -1 | Some i \<Rightarrow> i + 1)"

text \<open>A block is stored in the header, which has room for \<open>NSA + 1\<close>.\<close>

definition put_block :: "int \<times> int \<Rightarrow> (int \<times> int) list \<Rightarrow> (int \<times> int) list res" where
  "put_block b bs = (if int (length bs) \<le> NSA then Inr (bs @ [b]) else Inl Out_Of_Range)"

partial_function (option) older_blocks ::
  "int \<Rightarrow> int \<Rightarrow> int \<times> int \<Rightarrow> int \<Rightarrow> (int \<times> int) list \<Rightarrow> sack_stack \<Rightarrow> ((int \<times> int) list \<times> sack_stack) res option" where
  "older_blocks base maxseen b k bs st =
     (if int (length bs) < base then
        (case vec_get (st_sfe st) k of
           Inl e \<Rightarrow> Some (Inl e)
         | Inr (l, r) \<Rightarrow>
             if l < 0 \<or> r < 0 \<or> r > maxseen + 1 then Some (Inr (bs, st))
             else if fst b \<le> l \<and> snd b \<ge> r then
               (case pop k st of Inl e \<Rightarrow> Some (Inl e) | Inr st' \<Rightarrow> older_blocks base maxseen b k bs st')
             else
               (case put_block (l, r) bs of Inl e \<Rightarrow> Some (Inl e) | Inr bs' \<Rightarrow> older_blocks base maxseen b (k + 1) bs' st))
      else Some (Inr (bs, st)))"

declare older_blocks.simps [code]

definition put_recent :: "int \<times> int \<Rightarrow> sack_stack \<Rightarrow> sack_stack res" where
  "put_recent b st =
     rbind (push 0 st) (\<lambda>st1. rbind (vec_upd (st_sfe st1) 0 (\<lambda>_. b)) (\<lambda>xs. Inr (st1\<lparr>st_sfe := xs\<rparr>)))"

definition sack_blocks :: "sacker \<Rightarrow> int \<Rightarrow> ((int \<times> int) list \<times> sacker) res" where
  "sack_blocks a old =
     rbind (if sk_dsacks a \<and> ak_is_dup a then put_block (old, old + 1) [] else Inr []) (\<lambda>b0.
       if int (length b0) \<ge> sk_base_nblocks a then Inr (b0, a)
       else
         let sack_r = right_edge a old; sack_l = (if old \<le> Seqno a then 0 else left_edge a sack_r) in
         rbind (if old \<le> Seqno a then Inr b0 else put_block (sack_l, sack_r) b0) (\<lambda>b1.
           rbind (the_stack a) (\<lambda>st.
             rbind (case older_blocks (sk_base_nblocks a) (ak_maxseen a) (sack_l, sack_r) 0 b1 st of
                      None \<Rightarrow> Inl Diverges | Some r \<Rightarrow> r) (\<lambda>(bs, st1).
               rbind (if old > Seqno a then put_recent (sack_l, sack_r) st1 else Inr st1) (\<lambda>st2.
                 Inr (bs, a\<lparr>sk_stack := Some st2\<rparr>))))))"

definition Sacker_append_ack :: "sacker \<Rightarrow> ack_pkt \<Rightarrow> int \<Rightarrow> (ack_pkt \<times> sacker) res" where
  "Sacker_append_ack a h old =
     rbind
       (if old < 0 then Inr ([], a)
        else rbind (if Seqno a \<ge> ak_maxseen a then rbind (the_stack a) (\<lambda>st. Inr (st_cnt st \<noteq> 0)) else Inr False) (\<lambda>c.
          if c then rbind (rbind (the_stack a) stack_reset) (\<lambda>st. Inr ([], a\<lparr>sk_stack := Some st\<rparr>))
          else if (Seqno a < ak_maxseen a \<or> ak_is_dup a) \<and> sk_base_nblocks a > 0 then sack_blocks a old
          else Inr ([], a)))
       (\<lambda>(bs, a'). Inr (h\<lparr>ap_sack := bs, ap_size := ap_size h + int (length bs) * 8\<rparr>, a'))"

subsection \<open>The stack\<close>

text \<open>A stack that holds the blocks \<open>bs\<close>, the rest of its entries marked as empty.\<close>

definition stack_of :: "sack_stack \<Rightarrow> (int \<times> int) list \<Rightarrow> bool" where
  "stack_of st bs \<longleftrightarrow> st_cnt st = int (length bs) \<and> int (length bs) \<le> st_size st \<and>
     st_sfe st = bs @ replicate (nat (st_size st) - length bs) (-1, -1)"

lemma stack_of_new: "0 \<le> n \<Longrightarrow> stack_of (new_stack n) []"
  by (simp add: stack_of_def new_stack_def)

lemma vec_upd_at: "vec_upd (xs @ y # ys) (int (length xs)) f = Inr (xs @ f y # ys)"
  by (simp add: vec_upd_def list_update_append)

lemma clear_entries:
  "n \<le> length xs \<Longrightarrow> rfold (\<lambda>i xs. vec_upd xs i (\<lambda>_. e)) [0 .. int n - 1] xs = Inr (replicate n e @ drop n xs)"
proof (induction n)
  case 0
  then show ?case by simp
next
  case (Suc n)
  have "[0 .. int (Suc n) - 1] = [0 .. int n - 1] @ [int n]" using upto_rec2 [of 0 "int n"] by simp
  moreover have "drop n xs = xs ! n # drop (Suc n) xs" using Suc.prems by (simp add: Cons_nth_drop_Suc)
  ultimately show ?case using Suc by (simp add: rfold_append list_update_append replicate_app_Cons_same)
qed

lemma stack_reset_ok:
  assumes "stack_of st bs"
  shows "\<exists>st'. stack_reset st = Inr st' \<and> stack_of st' [] \<and> st_size st' = st_size st"
proof -
  let ?n = "length bs"
  have "rfold (\<lambda>i xs. vec_upd xs i (\<lambda>_. (-1, -1))) [0 .. int ?n - 1] (st_sfe st) =
      Inr (replicate ?n (-1, -1) @ drop ?n (st_sfe st))"
    using assms by (intro clear_entries) (simp add: stack_of_def)
  then show ?thesis
    using assms by (auto simp: stack_reset_def stack_of_def simp flip: replicate_add)
qed

lemma shift_up:
  assumes "k < length xs"
  shows "rfold (\<lambda>i xs. rbind (vec_get xs i) (\<lambda>x. vec_upd xs (i + 1) (\<lambda>_. x))) (rev [0 .. int k - 1]) xs =
    Inr (take 1 xs @ take k xs @ drop (k + 1) xs)"
  using assms
proof (induction k arbitrary: xs)
  case 0
  then show ?case by (cases xs) simp_all
next
  case (Suc k)
  have split: "rev [0 .. int (Suc k) - 1] = int k # rev [0 .. int k - 1]" using upto_rec2 [of 0 "int k"] by simp
  define ys where "ys = xs[Suc k := xs ! k]"
  have "vec_upd xs (int k + 1) (\<lambda>_. xs ! k) = Inr ys"
    using Suc.prems by (simp add: vec_upd_def ys_def nat_add_distrib)
  moreover have "take 1 ys @ take k ys @ drop (k + 1) ys = take 1 xs @ take (Suc k) xs @ drop (Suc k + 1) xs"
  proof -
    have "drop (Suc k) ys = xs ! k # drop (Suc (Suc k)) xs"
      using Suc.prems by (simp add: ys_def drop_update_swap flip: Cons_nth_drop_Suc)
    moreover have "take (Suc k) xs = take k xs @ [xs ! k]" using Suc.prems by (simp add: take_Suc_conv_app_nth)
    ultimately show ?thesis using Suc.prems by (simp add: ys_def take_update_swap list_update_beyond)
  qed
  moreover have "k < length ys" using Suc.prems by (simp add: ys_def)
  ultimately show ?case using Suc.IH [of ys] Suc.prems unfolding split by simp
qed

lemma shift_down:
  assumes "n + j < length xs"
  shows "rfold (\<lambda>i xs. rbind (vec_get xs (i + 1)) (\<lambda>x. vec_upd xs i (\<lambda>_. x))) [int n .. int n + int j - 1] xs =
    Inr (take n xs @ take j (drop (n + 1) xs) @ drop (n + j) xs)"
  using assms
proof (induction j)
  case 0
  then show ?case by simp
next
  case (Suc j)
  have split: "[int n .. int n + int (Suc j) - 1] = [int n .. int n + int j - 1] @ [int n + int j]"
    using upto_rec2 [of "int n" "int n + int j"] by simp
  define ys where "ys = take n xs @ take j (drop (n + 1) xs) @ drop (n + j) xs"
  have len: "length ys = length xs" using Suc.prems by (simp add: ys_def)
  have at: "ys ! (n + j + 1) = xs ! (n + j + 1)" using Suc.prems by (simp add: ys_def nth_append)
  have "vec_get ys (int n + int j + 1) = Inr (xs ! (n + j + 1))"
    using vec_get_nat [of "n + j + 1" ys] Suc.prems len at by (simp add: algebra_simps)
  moreover have "vec_upd ys (int n + int j) (\<lambda>_. xs ! (n + j + 1)) = Inr (ys[n + j := xs ! (n + j + 1)])"
    using vec_upd_nat [of "n + j" ys] Suc.prems len by (simp add: algebra_simps)
  moreover have "ys[n + j := xs ! (n + j + 1)] = take n xs @ take (Suc j) (drop (n + 1) xs) @ drop (n + Suc j) xs"
  proof -
    have "drop (n + j) xs = xs ! (n + j) # drop (Suc (n + j)) xs" using Suc.prems by (simp add: Cons_nth_drop_Suc)
    moreover have "take (Suc j) (drop (n + 1) xs) = take j (drop (n + 1) xs) @ [xs ! (n + j + 1)]"
      using Suc.prems by (simp add: take_Suc_conv_app_nth)
    ultimately show ?thesis using Suc.prems by (simp add: ys_def list_update_append)
  qed
  moreover have "rfold (\<lambda>i xs. rbind (vec_get xs (i + 1)) (\<lambda>x. vec_upd xs i (\<lambda>_. x))) [int n .. int n + int j - 1] xs = Inr ys"
    unfolding ys_def by (rule Suc.IH) (use Suc.prems in simp)
  ultimately show ?case unfolding split rfold_append by simp
qed

lemma put_recent_ok:
  assumes "stack_of st bs" and "1 \<le> st_size st"
  shows "\<exists>st'. put_recent b st = Inr st' \<and> stack_of st' (b # take (nat (st_size st) - 1) bs) \<and> st_size st' = st_size st"
proof -
  define k where "k = min (length bs) (nat (st_size st) - 1)"
  have cnt: "(if st_cnt st \<ge> st_size st then st_size st - 1 else st_cnt st) = int k"
    and len: "length (st_sfe st) = nat (st_size st)" and k: "k < length (st_sfe st)"
    using assms by (auto simp: stack_of_def k_def)
  have bs: "take k (st_sfe st) = take (nat (st_size st) - 1) bs"
    using assms by (auto simp: stack_of_def k_def min_def)
  have rest: "drop (k + 1) (st_sfe st) = replicate (nat (st_size st) - (k + 1)) (-1, -1)"
    using assms by (auto simp: stack_of_def k_def min_def)
  have "push 0 st = Inr (st\<lparr>st_cnt := int k + 1, st_sfe := take 1 (st_sfe st) @ take k (st_sfe st) @ drop (k + 1) (st_sfe st)\<rparr>)"
    using shift_up [OF k] by (simp add: push_def cnt)
  moreover obtain x xs where x: "st_sfe st = x # xs" using k by (cases "st_sfe st") auto
  ultimately have put: "put_recent b st = Inr (st\<lparr>st_cnt := int k + 1, st_sfe := b # take k (st_sfe st) @ drop (k + 1) (st_sfe st)\<rparr>)"
    by (simp add: put_recent_def vec_upd_def)
  have "length (take (nat (st_size st) - 1) bs) = k" by (simp add: k_def)
  then have "stack_of (st\<lparr>st_cnt := int k + 1, st_sfe := b # take k (st_sfe st) @ drop (k + 1) (st_sfe st)\<rparr>)
      (b # take (nat (st_size st) - 1) bs)"
    using k len rest by (simp add: stack_of_def bs nat_less_iff)
  then show ?thesis using put by simp
qed

lemma pop_ok:
  assumes "stack_of st bs" and "k < length bs"
  shows "\<exists>st'. pop (int k) st = Inr st' \<and> stack_of st' (take k bs @ drop (Suc k) bs) \<and> st_size st' = st_size st"
proof -
  define j where "j = length bs - 1 - k"
  let ?xs = "st_sfe st"
  have len: "length ?xs = nat (st_size st)" "length bs \<le> nat (st_size st)" using assms(1) by (auto simp: stack_of_def)
  have kj: "int k + int j - 1 = st_cnt st - 2" "k + j = length bs - 1" "max (int k) (st_cnt st - 1) = int (length bs - 1)"
    using assms by (auto simp: stack_of_def j_def)
  have "k + j < length ?xs" using len kj(2) assms(2) by simp
  from shift_down [OF this] have sh: "rfold (\<lambda>i xs. rbind (vec_get xs (i + 1)) (\<lambda>x. vec_upd xs i (\<lambda>_. x))) [int k .. st_cnt st - 2] ?xs =
      Inr (take k ?xs @ take j (drop (k + 1) ?xs) @ drop (k + j) ?xs)"
    by (simp add: kj(1))
  let ?bs = "take k bs @ drop (Suc k) bs"
  have "take k ?xs = take k bs" "take j (drop (k + 1) ?xs) = drop (Suc k) bs"
    using assms by (auto simp: stack_of_def j_def)
  moreover have "drop (k + j) ?xs = (bs ! (k + j)) # replicate (nat (st_size st) - length bs) (-1, -1)"
  proof -
    have "drop (k + j) bs = [bs ! (k + j)]" using assms(2) kj(2)
      by (metis Cons_nth_drop_Suc Suc_diff_1 diff_less drop_all gr_implies_not_zero length_greater_0_conv less_one list.size(3) order_refl)
    then show ?thesis using assms kj(2) by (simp add: stack_of_def)
  qed
  ultimately have sh': "rfold (\<lambda>i xs. rbind (vec_get xs (i + 1)) (\<lambda>x. vec_upd xs i (\<lambda>_. x))) [int k .. st_cnt st - 2] ?xs =
      Inr (?bs @ (bs ! (k + j)) # replicate (nat (st_size st) - length bs) (-1, -1))"
    using sh by simp
  have lb: "length ?bs = length bs - 1" using assms(2) by simp
  have "vec_upd (?bs @ (bs ! (k + j)) # replicate (nat (st_size st) - length bs) (-1, -1)) (int (length bs - 1)) (\<lambda>_. (-1, -1)) =
      Inr (?bs @ (-1, -1) # replicate (nat (st_size st) - length bs) (-1, -1))"
    unfolding lb [symmetric] by (rule vec_upd_at)
  then have "pop (int k) st = Inr (st\<lparr>st_cnt := st_cnt st - 1, st_sfe := ?bs @ (-1, -1) # replicate (nat (st_size st) - length bs) (-1, -1)\<rparr>)"
    by (simp only: pop_def sh' rbind_Inr kj(3))
  moreover have "(-1, -1) # replicate (nat (st_size st) - length bs) (-1, -1) = replicate (nat (st_size st) - length ?bs) (-1 :: int, -1 :: int)"
    using assms(2) len(2) lb by (simp flip: replicate_Suc add: Suc_diff_le)
  ultimately show ?thesis using assms lb by (simp add: stack_of_def)
qed

subsection \<open>What the blocks are\<close>

lemma find_upto_Some:
  assumes "find P [i .. j] = Some x"
  shows "i \<le> x \<and> x \<le> j \<and> P x \<and> (\<forall>y. i \<le> y \<and> y < x \<longrightarrow> \<not> P y)"
  using assms
proof (induction i j rule: upto.induct)
  case (1 i j)
  show ?case
  proof (cases "i \<le> j \<and> \<not> P i")
    case True
    then have "find P [i + 1 .. j] = Some x" using 1 by (simp add: upto_rec1)
    from 1(1) [OF _ this] True have ih: "i + 1 \<le> x \<and> x \<le> j \<and> P x \<and> (\<forall>y. i + 1 \<le> y \<and> y < x \<longrightarrow> \<not> P y)" by simp
    have "\<not> P y" if "i \<le> y" "y < x" for y using ih that True by (cases "y = i") auto
    then show ?thesis using ih by auto
  next
    case False
    then show ?thesis using 1(2) by (cases "i \<le> j") (auto simp: upto_rec1)
  qed
qed

lemma find_rev_upto_Some:
  "find P (rev [i .. j]) = Some x \<Longrightarrow> i \<le> x \<and> x \<le> j \<and> P x \<and> (\<forall>y. x < y \<and> y \<le> j \<longrightarrow> \<not> P y)"
proof (induction "nat (j - i + 1)" arbitrary: j)
  case 0
  then show ?case by simp
next
  case (Suc n)
  then have le: "i \<le> j" by simp
  then have split: "rev [i .. j] = j # rev [i .. j - 1]" by (simp add: upto_rec2)
  show ?case
  proof (cases "P j")
    case True
    then show ?thesis using Suc.prems split le by auto
  next
    case False
    then have ih: "i \<le> x \<and> x \<le> j - 1 \<and> P x \<and> (\<forall>y. x < y \<and> y \<le> j - 1 \<longrightarrow> \<not> P y)"
      using Suc.hyps(1) [of "j - 1"] Suc.hyps(2) Suc.prems split by simp
    have "\<not> P y" if "x < y" "y \<le> j" for y using ih that False by (cases "y = j") auto
    then show ?thesis using ih by auto
  qed
qed

text \<open>A block of what was received, as large as it can be.\<close>

definition run_of :: "int set \<Rightarrow> int \<times> int \<Rightarrow> bool" where
  "run_of S b \<longleftrightarrow> 0 \<le> fst b \<and> fst b < snd b \<and> {fst b..<snd b} \<subseteq> S"

definition maximal_run :: "int set \<Rightarrow> int \<Rightarrow> int \<times> int \<Rightarrow> bool" where
  "maximal_run S q b \<longleftrightarrow> run_of S b \<and> fst b \<le> q \<and> q < snd b \<and> fst b - 1 \<notin> S \<and> snd b \<notin> S"

lemma seen_iff: "represents a m \<Longrightarrow> ak_next a \<le> i \<Longrightarrow> i \<le> ak_maxseen a + 1 \<Longrightarrow> seen_at a i \<noteq> 0 \<longleftrightarrow> i \<in> dom m"
  using size_at_pos [of a m i] by (simp add: represents_def)

lemma right_edge_ok:
  assumes "represents a m" and "old \<in> dom m" and "Seqno a < old"
  shows "old < right_edge a old \<and> right_edge a old \<le> ak_maxseen a + 1 \<and> right_edge a old \<notin> dom m \<and>
    {old..<right_edge a old} \<subseteq> dom m"
proof -
  have old: "ak_next a \<le> old" "old \<le> ak_maxseen a" using represents_bound [OF assms(1,2)] assms(3) by (simp_all add: Seqno_def)
  have seen: "seen_at a i \<noteq> 0 \<longleftrightarrow> i \<in> dom m" if "old \<le> i" "i \<le> ak_maxseen a" for i
    using seen_iff [OF assms(1), of i] old that by simp
  show ?thesis
  proof (cases "find (\<lambda>i. seen_at a i = 0) [old .. ak_maxseen a]")
    case None
    then have "\<forall>i \<in> {old..ak_maxseen a}. seen_at a i \<noteq> 0" by (auto simp: find_None_iff)
    then have "{old..<ak_maxseen a + 1} \<subseteq> dom m" using seen by fastforce
    moreover have "ak_maxseen a + 1 \<notin> dom m" using represents_bound [OF assms(1), of "ak_maxseen a + 1"] by fastforce
    ultimately show ?thesis using None old by (simp add: right_edge_def)
  next
    case (Some r)
    from find_upto_Some [OF this] have r: "old \<le> r" "r \<le> ak_maxseen a" "seen_at a r = 0" "\<forall>y. old \<le> y \<and> y < r \<longrightarrow> seen_at a y \<noteq> 0"
      by auto
    have "r \<noteq> old" using r(3) seen [of old] assms(2) old by auto
    moreover have "{old..<r} \<subseteq> dom m" using r seen by fastforce
    ultimately show ?thesis using Some r seen [of r] by (simp add: right_edge_def)
  qed
qed

lemma first_block_maximal:
  assumes "represents a m" and "old \<in> dom m" and "Seqno a < old"
  shows "maximal_run (dom m) old (left_edge a (right_edge a old), right_edge a old)"
proof -
  let ?r = "right_edge a old"
  have r: "old < ?r" "?r \<le> ak_maxseen a + 1" "?r \<notin> dom m" "{old..<?r} \<subseteq> dom m" using right_edge_ok [OF assms] by auto
  have n: "ak_next a \<le> old" "ak_next a \<notin> dom m" "0 \<le> ak_next a" using assms by (auto simp: Seqno_def represents_def)
  have seen: "seen_at a i \<noteq> 0 \<longleftrightarrow> i \<in> dom m" if "ak_next a \<le> i" "i < ?r" for i
    using seen_iff [OF assms(1), of i] r(2) that by simp
  have "find (\<lambda>i. seen_at a i = 0) (rev [Seqno a + 1 .. ?r - 1]) \<noteq> None"
    using seen [of "ak_next a"] n r(1) by (auto simp: find_None_iff Seqno_def intro!: bexI [of _ "ak_next a"])
  then obtain h where h: "find (\<lambda>i. seen_at a i = 0) (rev [Seqno a + 1 .. ?r - 1]) = Some h" by blast
  from find_rev_upto_Some [OF h] have hh: "ak_next a \<le> h" "h < ?r" "seen_at a h = 0" "\<forall>y. h < y \<and> y < ?r \<longrightarrow> seen_at a y \<noteq> 0"
    by (auto simp: Seqno_def)
  have "h \<notin> dom m" using hh seen [of h] by simp
  moreover have "h < old" using calculation r(4) hh(2) by (cases "h < old") (auto simp: subset_iff)
  moreover have "i \<in> dom m" if "h < i" "i < ?r" for i using hh(1,4) that seen [of i] by simp
  then have "{h + 1..<?r} \<subseteq> dom m" by (intro subsetI) simp
  ultimately show ?thesis using r n h hh(1) by (simp add: maximal_run_def run_of_def left_edge_def)
qed

lemma older_blocks_ok:
  assumes "stack_of st bs" and "st_size st = base" and "base \<le> NSA" and "k \<le> length b0"
    and "\<And>c. c \<in> set bs \<Longrightarrow> 0 \<le> fst c \<and> 0 \<le> snd c \<and> snd c \<le> M + 1"
  shows "\<exists>xs bs' st'. older_blocks base M b (int k) b0 st = Some (Inr (b0 @ xs, st')) \<and> set xs \<subseteq> set bs \<and>
    set bs' \<subseteq> set bs \<and> stack_of st' bs' \<and> st_size st' = base \<and> (int (length b0) \<le> base \<longrightarrow> int (length (b0 @ xs)) \<le> base)"
  using assms
proof (induction "nat (base - int (length b0)) + length bs" arbitrary: k b0 bs st rule: less_induct)
  case less
  note ih = less.hyps
  show ?case
  proof (cases "int (length b0) < base")
    case False
    then show ?thesis using less.prems by (subst older_blocks.simps) auto
  next
    case lt: True
    have len: "length (st_sfe st) = nat base" using less.prems(1,2) by (auto simp: stack_of_def)
    have kb: "k < length (st_sfe st)" using less.prems(4) lt len by linarith
    show ?thesis
    proof (cases "k < length bs")
      case False
      then have "st_sfe st ! k = (-1, -1)" using less.prems(1) kb by (simp add: stack_of_def nth_append)
      then show ?thesis using lt kb less.prems by (subst older_blocks.simps) auto
    next
      case True
      obtain l r where lr: "bs ! k = (l, r)" by fastforce
      then have "st_sfe st ! k = (l, r)" using less.prems(1) True by (simp add: stack_of_def nth_append)
      then have get: "vec_get (st_sfe st) (int k) = Inr (l, r)" using kb by simp
      have ok: "0 \<le> l \<and> 0 \<le> r \<and> r \<le> M + 1" using less.prems(5) [OF nth_mem [OF True]] lr by simp
      show ?thesis
      proof (cases "fst b \<le> l \<and> r \<le> snd b")
        case covered: True
        obtain st1 where st1: "pop (int k) st = Inr st1" "stack_of st1 (take k bs @ drop (Suc k) bs)" "st_size st1 = base"
          using pop_ok [OF less.prems(1) True] less.prems(2) by auto
        have eq: "older_blocks base M b (int k) b0 st = older_blocks base M b (int k) b0 st1"
          using lt get ok covered st1(1) by (subst older_blocks.simps) simp
        have sub: "set (take k bs @ drop (Suc k) bs) \<subseteq> set bs" using set_take_subset set_drop_subset by fastforce
        have "\<exists>xs bs' st'. older_blocks base M b (int k) b0 st1 = Some (Inr (b0 @ xs, st')) \<and>
            set xs \<subseteq> set (take k bs @ drop (Suc k) bs) \<and> set bs' \<subseteq> set (take k bs @ drop (Suc k) bs) \<and> stack_of st' bs' \<and>
            st_size st' = base \<and> (int (length b0) \<le> base \<longrightarrow> int (length (b0 @ xs)) \<le> base)"
          by (rule ih [OF _ st1(2,3) less.prems(3,4)]) (use True sub less.prems(5) in auto)
        then show ?thesis unfolding eq using sub by blast
      next
        case kept: False
        have "put_block (l, r) b0 = Inr (b0 @ [(l, r)])" using lt less.prems(3) by (simp add: put_block_def)
        then have eq: "older_blocks base M b (int k) b0 st = older_blocks base M b (int (Suc k)) (b0 @ [(l, r)]) st"
          using lt get ok kept by (subst older_blocks.simps) (auto simp: add.commute)
        have inl: "(l, r) \<in> set bs" using True lr nth_mem by metis
        have "\<exists>xs bs' st'. older_blocks base M b (int (Suc k)) (b0 @ [(l, r)]) st = Some (Inr ((b0 @ [(l, r)]) @ xs, st')) \<and>
            set xs \<subseteq> set bs \<and> set bs' \<subseteq> set bs \<and> stack_of st' bs' \<and> st_size st' = base \<and>
            (int (length (b0 @ [(l, r)])) \<le> base \<longrightarrow> int (length ((b0 @ [(l, r)]) @ xs)) \<le> base)"
          by (rule ih [OF _ less.prems(1-3)]) (use lt less.prems(4,5) in auto)
        then obtain xs bs' st' where "older_blocks base M b (int (Suc k)) (b0 @ [(l, r)]) st = Some (Inr ((b0 @ [(l, r)]) @ xs, st'))"
          "set xs \<subseteq> set bs" "set bs' \<subseteq> set bs" "stack_of st' bs'" "st_size st' = base"
          "int (length (b0 @ [(l, r)])) \<le> base \<longrightarrow> int (length ((b0 @ [(l, r)]) @ xs)) \<le> base" by blast
        then show ?thesis unfolding eq using inl lt
          by (intro exI [of _ "(l, r) # xs"] exI [of _ bs'] exI [of _ st']) auto
      qed
    qed
  qed
qed

definition sack_ok :: "sacker \<Rightarrow> int set \<Rightarrow> bool" where
  "sack_ok a S \<longleftrightarrow> 1 \<le> sk_base_nblocks a \<and> sk_base_nblocks a \<le> NSA \<and> (sk_dsacks a \<longrightarrow> 2 \<le> sk_base_nblocks a) \<and>
     (\<exists>st bs. sk_stack a = Some st \<and> stack_of st bs \<and> st_size st = sk_base_nblocks a \<and> (\<forall>c \<in> set bs. run_of S c))"

lemma sack_ok_mono: "sack_ok a S \<Longrightarrow> S \<subseteq> T \<Longrightarrow> sack_ok a T"
  by (fastforce simp: sack_ok_def run_of_def)

lemma sack_blocks_ok:
  assumes "represents a m" and "sack_ok a (dom m)" and "old \<in> dom m"
  shows "\<exists>bs st. sack_blocks a old = Inr (bs, a\<lparr>sk_stack := st\<rparr>) \<and> sack_ok (a\<lparr>sk_stack := st\<rparr>) (dom m) \<and>
    (\<forall>c \<in> set bs. run_of (dom m) c) \<and> int (length bs) \<le> sk_base_nblocks a \<and>
    (Seqno a < old \<longrightarrow> (\<exists>c \<in> set bs. maximal_run (dom m) old c))"
proof -
  obtain st bs where st: "sk_stack a = Some st" "stack_of st bs" "st_size st = sk_base_nblocks a" "\<forall>c \<in> set bs. run_of (dom m) c"
    and base: "1 \<le> sk_base_nblocks a" "sk_base_nblocks a \<le> NSA" "sk_dsacks a \<longrightarrow> 2 \<le> sk_base_nblocks a"
    using assms(2) by (auto simp: sack_ok_def)
  have old0: "0 \<le> old" using assms(1,3) by (simp add: represents_def)
  define b0 where "b0 = (if sk_dsacks a \<and> ak_is_dup a then [(old, old + 1)] else [])"
  define rr where "rr = right_edge a old"
  define ll where "ll = (if old \<le> Seqno a then 0 else left_edge a rr)"
  define b1 where "b1 = (if old \<le> Seqno a then b0 else b0 @ [(ll, rr)])"
  have b0: "int (length b0) < sk_base_nblocks a" "length b0 \<le> 1" "\<forall>c \<in> set b0. run_of (dom m) c"
    using base assms(3) old0 by (auto simp: b0_def run_of_def)
  have max: "maximal_run (dom m) old (ll, rr)" if "Seqno a < old"
    using first_block_maximal [OF assms(1,3) that] that by (simp add: ll_def rr_def)
  have b1: "int (length b1) \<le> sk_base_nblocks a" "\<forall>c \<in> set b1. run_of (dom m) c"
    using b0 max by (auto simp: b1_def maximal_run_def)
  have bound: "0 \<le> fst c \<and> 0 \<le> snd c \<and> snd c \<le> ak_maxseen a + 1" if "c \<in> set bs" for c
  proof -
    have c: "0 \<le> fst c" "fst c < snd c" "snd c - 1 \<in> dom m" using st(4) that by (auto simp: run_of_def subset_iff)
    show ?thesis using c represents_bound [OF assms(1) c(3)] by simp
  qed
  obtain xs bs' st1 where ob: "older_blocks (sk_base_nblocks a) (ak_maxseen a) (ll, rr) 0 b1 st = Some (Inr (b1 @ xs, st1))"
    and sub: "set xs \<subseteq> set bs" "set bs' \<subseteq> set bs" and st1: "stack_of st1 bs'" "st_size st1 = sk_base_nblocks a"
    and len: "int (length (b1 @ xs)) \<le> sk_base_nblocks a"
    using older_blocks_ok [OF st(2,3) base(2), of 0 b1 "ak_maxseen a" "(ll, rr)"] bound b1(1) by auto
  obtain st2 bs2 where st2: "(if old > Seqno a then put_recent (ll, rr) st1 else Inr st1) = Inr st2" "stack_of st2 bs2"
    "st_size st2 = sk_base_nblocks a" "\<forall>c \<in> set bs2. run_of (dom m) c"
  proof (cases "old > Seqno a")
    case True
    then obtain st2 where "put_recent (ll, rr) st1 = Inr st2" "stack_of st2 ((ll, rr) # take (nat (st_size st1) - 1) bs')"
      "st_size st2 = st_size st1"
      using put_recent_ok [OF st1(1), of "(ll, rr)"] base(1) st1(2) by auto
    moreover have "\<forall>c \<in> set ((ll, rr) # take (nat (st_size st1) - 1) bs'). run_of (dom m) c"
      using max [OF True] sub(2) st(4) by (auto simp: maximal_run_def dest: in_set_takeD)
    ultimately show thesis using that True st1(2) by simp
  next
    case False
    then show thesis using that st1 sub(2) st(4) by auto
  qed
  have put0: "(if sk_dsacks a \<and> ak_is_dup a then put_block (old, old + 1) [] else Inr []) = Inr b0"
    by (simp add: b0_def put_block_def NSA_def)
  have put1: "(if old \<le> Seqno a then Inr b0 else put_block (ll, rr) b0) = Inr b1"
    using b0(2) by (auto simp: b1_def put_block_def NSA_def)
  have "sack_blocks a old = Inr (b1 @ xs, a\<lparr>sk_stack := Some st2\<rparr>)"
    unfolding sack_blocks_def put0 rbind_Inr Let_def rr_def [symmetric] ll_def [symmetric] put1
    using b0(1) st(1) ob st2(1) by (simp add: the_stack_def)
  moreover have "sack_ok (a\<lparr>sk_stack := Some st2\<rparr>) (dom m)" using st2(2-4) base by (auto simp: sack_ok_def)
  moreover have "\<forall>c \<in> set (b1 @ xs). run_of (dom m) c" using b1(2) sub(1) st(4) by auto
  moreover have "Seqno a < old \<longrightarrow> (\<exists>c \<in> set (b1 @ xs). maximal_run (dom m) old c)"
    using max by (auto simp: b1_def)
  ultimately show ?thesis using len by blast
qed

lemma Sacker_append_ack_ok:
  assumes "represents a m" and "sack_ok a (dom m)" and "old \<in> dom m"
  shows "\<exists>bs st. Sacker_append_ack a h old =
      Inr (h\<lparr>ap_sack := bs, ap_size := ap_size h + int (length bs) * 8\<rparr>, a\<lparr>sk_stack := st\<rparr>) \<and>
    sack_ok (a\<lparr>sk_stack := st\<rparr>) (dom m) \<and>
    (\<forall>c \<in> set bs. run_of (dom m) c) \<and> int (length bs) \<le> sk_base_nblocks a \<and>
    (Seqno a < old \<longrightarrow> (\<exists>c \<in> set bs. maximal_run (dom m) old c))"
proof -
  obtain st bs where st: "sk_stack a = Some st" "stack_of st bs" "st_size st = sk_base_nblocks a" "\<forall>c \<in> set bs. run_of (dom m) c"
    and base: "1 \<le> sk_base_nblocks a" "sk_base_nblocks a \<le> NSA" "sk_dsacks a \<longrightarrow> 2 \<le> sk_base_nblocks a"
    using assms(2) by (auto simp: sack_ok_def)
  have old: "0 \<le> old" "old \<le> ak_maxseen a" using assms(1,3) represents_bound by (auto simp: represents_def)
  have same: "a\<lparr>sk_stack := Some st\<rparr> = a" using st(1) by simp
  consider (reset) "Seqno a \<ge> ak_maxseen a" "st_cnt st \<noteq> 0" | (none) "\<not> (Seqno a \<ge> ak_maxseen a \<and> st_cnt st \<noteq> 0)"
      "\<not> (Seqno a < ak_maxseen a \<or> ak_is_dup a)" | (blocks) "\<not> (Seqno a \<ge> ak_maxseen a \<and> st_cnt st \<noteq> 0)" "Seqno a < ak_maxseen a \<or> ak_is_dup a"
    by blast
  then show ?thesis
  proof cases
    case reset
    obtain st' where st': "stack_reset st = Inr st'" "stack_of st' []" "st_size st' = st_size st"
      using stack_reset_ok [OF st(2)] by blast
    have "sack_ok (a\<lparr>sk_stack := Some st'\<rparr>) (dom m)" using st' st(3) base by (auto simp: sack_ok_def)
    moreover have "Sacker_append_ack a h old = Inr (h\<lparr>ap_sack := [], ap_size := ap_size h\<rparr>, a\<lparr>sk_stack := Some st'\<rparr>)"
      using old(1) reset st(1) st'(1) by (simp add: Sacker_append_ack_def the_stack_def)
    ultimately show ?thesis using reset(1) old(2) base(1) by (intro exI [of _ "[]"] exI [of _ "Some st'"]) simp
  next
    case none
    then have "Sacker_append_ack a h old = Inr (h\<lparr>ap_sack := [], ap_size := ap_size h\<rparr>, a\<lparr>sk_stack := Some st\<rparr>)"
      using old(1) st(1) by (auto simp: Sacker_append_ack_def the_stack_def)
    then show ?thesis using none old(2) base(1) assms(2) same by (intro exI [of _ "[]"] exI [of _ "Some st"]) simp
  next
    case blocks
    obtain cs st' where cs: "sack_blocks a old = Inr (cs, a\<lparr>sk_stack := st'\<rparr>)" "sack_ok (a\<lparr>sk_stack := st'\<rparr>) (dom m)"
      "\<forall>c \<in> set cs. run_of (dom m) c" "int (length cs) \<le> sk_base_nblocks a"
      "Seqno a < old \<longrightarrow> (\<exists>c \<in> set cs. maximal_run (dom m) old c)"
      using sack_blocks_ok [OF assms] by blast
    have no: "(if Seqno a \<ge> ak_maxseen a then rbind (the_stack a) (\<lambda>st. Inr (st_cnt st \<noteq> 0)) else Inr False) = Inr False"
      using blocks(1) st(1) by (simp add: the_stack_def)
    have "\<not> old < 0" "(Seqno a < ak_maxseen a \<or> ak_is_dup a) \<and> sk_base_nblocks a > 0" using blocks(2) base(1) old(1) by auto
    then have "Sacker_append_ack a h old = Inr (h\<lparr>ap_sack := cs, ap_size := ap_size h + int (length cs) * 8\<rparr>, a\<lparr>sk_stack := st'\<rparr>)"
      unfolding Sacker_append_ack_def no by (simp add: cs(1))
    then show ?thesis using cs(2-5) by (intro exI [of _ cs] exI [of _ st']) simp
  qed
qed

subsection \<open>Every history of packets\<close>

lemma sack_ok_more: "acker.more a = acker.more b \<Longrightarrow> sack_ok a S = sack_ok b S"
  by (cases a; cases b) (simp add: sack_ok_def)

lemma represents_stack [simp]: "represents (a\<lparr>sk_stack := st\<rparr>) m = represents a m"
  by (simp add: represents_def mask_ok_def seen_at_def)

lemma represents_configured: "represents (Sacker_configure n d new_sacker) Map.empty"
  using represents_new
  by (simp add: represents_def mask_ok_def seen_at_def Sacker_configure_def Let_def new_sacker_def acker.extend_def)

lemma sack_ok_configured:
  assumes "1 \<le> n" and "d \<longrightarrow> 2 \<le> n"
  shows "sack_ok (Sacker_configure n d new_sacker) S"
proof -
  let ?n = "if n > NSA then NSA else n"
  have "stack_of (new_stack ?n) []" using assms(1) by (intro stack_of_new) (simp add: NSA_def)
  then show ?thesis using assms by (auto simp: sack_ok_def Sacker_configure_def NSA_def new_stack_def)
qed

text \<open>What an acknowledgement sent for the packet \<open>q\<close> says when \<open>S\<close> has been received.\<close>

definition sack_says :: "int set \<Rightarrow> int \<Rightarrow> ack_pkt \<Rightarrow> bool" where
  "sack_says S q h \<longleftrightarrow> cumulative (ap_seqno h) S \<and> (\<forall>c \<in> set (ap_sack h). run_of S c) \<and> int (length (ap_sack h)) \<le> NSA \<and>
     (ap_seqno h < q \<longrightarrow> (\<exists>c \<in> set (ap_sack h). maximal_run S q c))"

lemma sack_recv_ok:
  assumes "represents (ts_acker s) m" and "sack_ok (ts_acker s) (dom m)" and "good_pkt p" and "ts_lastreset s \<le> dp_ts p"
  shows "\<exists>s' h m'. TcpSink_recv Sacker_append_ack now (i, p) s = Inr s' \<and> ts_acks s' = ts_acks s @ [h] \<and>
    ts_lastreset s' = ts_lastreset s \<and> represents (ts_acker s') m' \<and> dom m' = insert (dp_seqno p) (dom m) \<and>
    sack_ok (ts_acker s') (dom m') \<and> sack_says (dom m') (dp_seqno p) h"
proof -
  let ?m = "received (ts_acker s) m (dp_seqno p) (dp_size p)"
  obtain s1 where s1: "sink_accept p s = Inr s1" "represents (ts_acker s1) ?m" "ts_acks s1 = ts_acks s" "ts_lastreset s1 = ts_lastreset s"
    using sink_accept_ok [OF assms(1,3)] by blast
  have dom: "dom ?m = insert (dp_seqno p) (dom m)" using dom_received [OF assms(1)] assms(3) by (simp add: good_pkt_def)
  have "sack_ok (ts_acker s1) (dom m)" using sack_ok_more [OF sink_accept_more [OF s1(1)]] assms(2) by blast
  then have ok: "sack_ok (ts_acker s1) (dom ?m)" by (rule sack_ok_mono) (use dom in blast)
  define a where "a = note_ecn p (map_option snd (ts_save s1)) (ts_acker s1)"
  define h where "h = echo_ecn s1 p (map_option snd (ts_save s1)) a
    \<lparr>ap_seqno = Seqno (ts_acker s1), ap_ts = now, ap_ts_echo = (if ts_echo_bugfix s1 then ak_ts_to_echo (ts_acker s1) else dp_ts p),
     ap_flowid = dp_flowid p, ap_ect = False, ap_ecnecho = 0, ap_qs = quickstart_reply s1 p, ap_sack = [], ap_size = 0\<rparr>"
  have "acker.more a = acker.more (ts_acker s1)" by (simp add: a_def note_ecn_def Let_def)
  then have oka: "sack_ok a (dom ?m)" using sack_ok_more ok by blast
  have ra: "represents a ?m" "Seqno a = Seqno (ts_acker s1)" using s1(2) by (simp_all add: a_def Seqno_def)
  have hs: "ap_seqno h = Seqno a" using ra(2) by (simp add: h_def)
  obtain bs st where app: "Sacker_append_ack a h (dp_seqno p) =
      Inr (h\<lparr>ap_sack := bs, ap_size := ap_size h + int (length bs) * 8\<rparr>, a\<lparr>sk_stack := st\<rparr>)"
    "sack_ok (a\<lparr>sk_stack := st\<rparr>) (dom ?m)" "\<forall>c \<in> set bs. run_of (dom ?m) c" "int (length bs) \<le> sk_base_nblocks a"
    "Seqno a < dp_seqno p \<longrightarrow> (\<exists>c \<in> set bs. maximal_run (dom ?m) (dp_seqno p) c)"
    using Sacker_append_ack_ok [OF ra(1) oka, of "dp_seqno p" h] dom by blast
  let ?h = "h\<lparr>ap_sack := bs, ap_size := ap_size h + int (length bs) * 8\<rparr>"
  let ?s = "free_data i (s1\<lparr>ts_acker := (a\<lparr>sk_stack := st\<rparr>)\<lparr>ak_last_ack_sent := ap_seqno ?h\<rparr>, ts_acks := ts_acks s1 @ [?h]\<rparr>)"
  have "TcpSink_ack Sacker_append_ack now p s1 = rbind (Sacker_append_ack a h (dp_seqno p)) (\<lambda>(h', a2).
      Inr (s1\<lparr>ts_acker := a2\<lparr>ak_last_ack_sent := ap_seqno h'\<rparr>, ts_acks := ts_acks s1 @ [h']\<rparr>))"
    by (simp add: TcpSink_ack_def Let_def a_def h_def)
  then have recv: "TcpSink_recv Sacker_append_ack now (i, p) s = Inr ?s"
    using assms(4) s1(1) by (simp add: TcpSink_recv_def app(1))
  have "sack_ok ((a\<lparr>sk_stack := st\<rparr>)\<lparr>ak_last_ack_sent := ap_seqno ?h\<rparr>) (dom ?m)"
    using app(2) by (subst sack_ok_more [of _ "a\<lparr>sk_stack := st\<rparr>"]) simp_all
  moreover have "represents ((a\<lparr>sk_stack := st\<rparr>)\<lparr>ak_last_ack_sent := ap_seqno ?h\<rparr>) ?m" using ra(1) by simp
  moreover have "sack_says (dom ?m) (dp_seqno p) ?h"
    using app(3-5) oka represents_cumulative [OF ra(1)] hs by (simp add: sack_says_def sack_ok_def)
  ultimately show ?thesis using recv dom s1(3,4)
    by (intro exI [of _ ?s] exI [of _ ?h] exI [of _ ?m]) (simp add: free_data_def)
qed

lemma sack_run_ok:
  assumes "\<And>now i p. (now, i, p) \<in> set ps \<Longrightarrow> good_pkt p \<and> ts_lastreset s \<le> dp_ts p"
    and "represents (ts_acker s) m" and "sack_ok (ts_acker s) (dom m)"
  shows "\<exists>s' hs. sink_run Sacker_append_ack ps s = Inr s' \<and> ts_acks s' = ts_acks s @ hs \<and> length hs = length ps \<and>
    (\<forall>k < length ps. sack_says (dom m \<union> seqnos (take (Suc k) ps)) (dp_seqno (snd (snd (ps ! k)))) (hs ! k))"
  using assms
proof (induction ps arbitrary: s m)
  case Nil
  then show ?case by (simp add: sink_run_def)
next
  case (Cons e ps)
  obtain now i p where e: "e = (now, i, p)" by (cases e)
  have p: "good_pkt p" "ts_lastreset s \<le> dp_ts p" using Cons.prems(1) [of now i p] by (auto simp: e)
  obtain s1 h m1 where s1: "TcpSink_recv Sacker_append_ack now (i, p) s = Inr s1" "ts_acks s1 = ts_acks s @ [h]"
    "ts_lastreset s1 = ts_lastreset s" "represents (ts_acker s1) m1" "dom m1 = insert (dp_seqno p) (dom m)"
    "sack_ok (ts_acker s1) (dom m1)" "sack_says (dom m1) (dp_seqno p) h"
    using sack_recv_ok [OF Cons.prems(2,3) p, of now i] by blast
  have "good_pkt q \<and> ts_lastreset s1 \<le> dp_ts q" if "(t, j, q) \<in> set ps" for t j q
    using Cons.prems(1) [of t j q] that s1(3) by simp
  then obtain s' hs where s': "sink_run Sacker_append_ack ps s1 = Inr s'" "ts_acks s' = ts_acks s1 @ hs" "length hs = length ps"
    "\<forall>k < length ps. sack_says (dom m1 \<union> seqnos (take (Suc k) ps)) (dp_seqno (snd (snd (ps ! k)))) (hs ! k)"
    using Cons.IH [of s1 m1] s1(4,6) by blast
  have "sack_says (dom m \<union> seqnos (take (Suc k) (e # ps))) (dp_seqno (snd (snd ((e # ps) ! k)))) ((h # hs) ! k)"
    if "k < length (e # ps)" for k
  proof (cases k)
    case 0
    then show ?thesis using s1(5,7) by (simp add: seqnos_def e)
  next
    case (Suc j)
    have "dom m \<union> seqnos (take (Suc k) (e # ps)) = dom m1 \<union> seqnos (take (Suc j) ps)"
      using s1(5) by (auto simp: seqnos_def e Suc)
    then show ?thesis using s'(4) that Suc by simp
  qed
  moreover have "sink_run Sacker_append_ack (e # ps) s = Inr s'" using s'(1) s1(1) by (simp add: sink_run_def e)
  ultimately show ?case using s'(2,3) s1(2) by (intro exI [of _ s'] exI [of _ "h # hs"]) auto
qed

text \<open>
  C24. Selective acknowledgements tell the truth and the news. After any history of packets, in
  any order and with any duplicates, the acknowledgement sent for each packet is cumulative,
  carries at most three blocks, every block is a run of packets that had arrived by then, and
  when the packet lies beyond the first gap one of the blocks is the largest run around it.
\<close>

theorem sack_history:
  assumes "\<And>now i p. (now, i, p) \<in> set ps \<Longrightarrow> good_pkt p \<and> 0 \<le> dp_ts p"
    and "1 \<le> n" and "d \<Longrightarrow> 2 \<le> n"
  shows "\<exists>s. sink_run Sacker_append_ack ps (new_sink (Sacker_configure n d new_sacker)) = Inr s \<and>
    length (ts_acks s) = length ps \<and>
    (\<forall>k < length ps. sack_says (seqnos (take (Suc k) ps)) (dp_seqno (snd (snd (ps ! k)))) (ts_acks s ! k))"
proof -
  let ?s = "new_sink (Sacker_configure n d new_sacker)"
  have "good_pkt p \<and> ts_lastreset ?s \<le> dp_ts p" if "(now, i, p) \<in> set ps" for now i p
    using assms(1) [OF that] by (simp add: new_sink_def)
  moreover have "represents (ts_acker ?s) Map.empty" "sack_ok (ts_acker ?s) (dom Map.empty)"
    using represents_configured sack_ok_configured assms(2,3) by (simp_all add: new_sink_def)
  ultimately show ?thesis using sack_run_ok [of ps ?s Map.empty] by (auto simp: new_sink_def)
qed

theorem sack_history_witness:
  "\<exists>s. sink_run Sacker_append_ack [(1, 7, demo_pkt 0), (2, 8, demo_pkt 3), (3, 9, demo_pkt 2)]
       (new_sink (Sacker_configure 3 True new_sacker)) = Inr s \<and>
     length (ts_acks s) = 3 \<and> sack_says {0, 2, 3} 2 (ts_acks s ! 2)"
proof -
  define ps where "ps = [(1 :: real, 7 :: nat, demo_pkt 0), (2, 8, demo_pkt 3), (3, 9, demo_pkt 2)]"
  have good: "good_pkt p \<and> 0 \<le> dp_ts p" if "(now, i, p) \<in> set ps" for now i p
    using that by (auto simp: ps_def demo_pkt_def good_pkt_def)
  have "\<exists>s. sink_run Sacker_append_ack ps (new_sink (Sacker_configure 3 True new_sacker)) = Inr s \<and>
      length (ts_acks s) = length ps \<and>
      (\<forall>k < length ps. sack_says (seqnos (take (Suc k) ps)) (dp_seqno (snd (snd (ps ! k)))) (ts_acks s ! k))"
    by (rule sack_history, rule good) simp_all
  then obtain s where s: "sink_run Sacker_append_ack ps (new_sink (Sacker_configure 3 True new_sacker)) = Inr s"
    "length (ts_acks s) = length ps"
    "\<forall>k < length ps. sack_says (seqnos (take (Suc k) ps)) (dp_seqno (snd (snd (ps ! k)))) (ts_acks s ! k)" by blast
  have "length ps = 3" "seqnos (take (Suc 2) ps) = {0, 2, 3}" "dp_seqno (snd (snd (ps ! 2))) = 2"
    by (auto simp: ps_def seqnos_def demo_pkt_def)
  then have "sack_says {0, 2, 3} 2 (ts_acks s ! 2)" using s(3) [rule_format, of 2] by simp
  then show ?thesis using s(1,2) \<open>length ps = 3\<close> unfolding ps_def by auto
qed

text \<open>
  A reset does not clear the stack: \<open>Acker::reset\<close> is not virtual, so
  \<open>TcpSink::reset\<close> never reaches \<open>Sacker::reset\<close>. Two packets arrive, the sink
  is reset, one packet of the new connection arrives: its acknowledgement reports, beside the
  block of that packet, a block of the old connection, of a packet that has not arrived.
\<close>

theorem stale_blocks:
  "map_sum id (\<lambda>s. map ap_sack (ts_acks s))
     (rbind (sink_run Sacker_append_ack [(1, 7, demo_pkt 0), (2, 8, demo_pkt 2)] (new_sink (Sacker_configure 3 False new_sacker)))
       (\<lambda>s. sink_run Sacker_append_ack [(3, 9, (demo_pkt 5)\<lparr>dp_ts := 3\<rparr>)] (TcpSink_reset 2 s))) =
   Inr [[], [(2, 3)], [(5, 6), (2, 3)]]"
  by code_simp

end
