(* ===== verification/TcpRtt.thy ===== *)
theory TcpRtt
  imports CArith
begin

unbundle bit_operations_syntax

section \<open>The round-trip-time estimator\<close>

text \<open>
  The retransmission timer's estimate in tcp/tcp.h and tcp/tcp.cc: \<open>rtt_init\<close>,
  \<open>rtt_update\<close>, \<open>rtt_timeout\<close> and \<open>rtt_backoff\<close> of \<open>TcpAgent\<close>.
  The smoothed values are fixed-point integers shifted by \<open>T_SRTT_BITS\<close> and
  \<open>T_RTTVAR_BITS\<close>; they are integers without overflow, except the variable \<open>delta\<close>,
  which the code declares \<open>short\<close> and which wraps at 16 bits. Shifts by a negative number are
  undefined in C and do not occur for the configurations considered. The clock granularity
  and the other bound variables are fields, as \<open>boot_time_\<close> is.
\<close>

record tcp_rtt =
  rt_rtt :: int
  rt_srtt :: int
  rt_rttvar :: int
  rt_backoff :: int
  rt_rtxcur :: real
  rt_use_rtt :: bool
  rt_SRTT_BITS :: nat
  rt_RTTVAR_BITS :: nat
  rt_rttvar_exp :: nat
  rt_srtt_init :: int
  rt_rttvar_init :: int
  rt_rtxcur_init :: real
  rt_tick :: real
  rt_minrto :: real
  rt_maxrto :: real
  rt_boot_time :: real
  rt_rfc2988 :: bool
  rt_ts_option :: bool

text \<open>The conversion of an \<open>int\<close> to \<open>short\<close>.\<close>

definition c_short :: "int \<Rightarrow> int" where
  "c_short x = signed_take_bit 15 x"

definition rtt_init :: "'x tcp_rtt_scheme \<Rightarrow> 'x tcp_rtt_scheme" where
  "rtt_init r = r\<lparr>rt_rtt := 0,
     rt_srtt := push_bit (rt_SRTT_BITS r) (c_trunc (of_int (rt_srtt_init r) / rt_tick r)),
     rt_rttvar := push_bit (rt_RTTVAR_BITS r) (c_trunc (of_int (rt_rttvar_init r) / rt_tick r)),
     rt_rtxcur := rt_rtxcur_init r, rt_backoff := 1\<rparr>"

definition rtt_timeout :: "'x tcp_rtt_scheme \<Rightarrow> (real \<times> 'x tcp_rtt_scheme) res" where
  "rtt_timeout r =
     (let t0 =
        (if rt_rfc2988 r then
           (if rt_rtxcur r < rt_minrto r \<and> \<not> rt_use_rtt r then rt_minrto r * of_int (rt_backoff r)
            else rt_rtxcur r * of_int (rt_backoff r))
         else (let t = rt_rtxcur r * of_int (rt_backoff r) in if t < rt_minrto r then rt_minrto r else t));
        t1 = (if t0 > rt_maxrto r then rt_maxrto r else t0) in
      if t1 < 2 * rt_tick r then
        if t1 < 0 then Inl Aborted
        else Inr (if rt_use_rtt r \<and> t1 < rt_tick r then rt_tick r else 2 * rt_tick r, r\<lparr>rt_use_rtt := False\<rparr>)
      else Inr (t1, r\<lparr>rt_use_rtt := False\<rparr>))"

text \<open>The measurement in ticks, and the update of the estimate by it.\<close>

definition measure_rtt :: "real \<Rightarrow> real \<Rightarrow> 'x tcp_rtt_scheme \<Rightarrow> int" where
  "measure_rtt now tao r =
     (let m = (if rt_ts_option r then c_trunc (tao / rt_tick r + 1 / 2)
               else c_trunc ((tao + c_fmod (now - tao + rt_boot_time r) (rt_tick r)) / rt_tick r)) in
      if m < 1 then 1 else m)"

definition smooth :: "int \<Rightarrow> 'x tcp_rtt_scheme \<Rightarrow> 'x tcp_rtt_scheme" where
  "smooth m r =
     (if rt_srtt r \<noteq> 0 then
        let d1 = c_short (m - drop_bit (rt_SRTT_BITS r) (rt_srtt r));
            s = rt_srtt r + d1;
            d2 = (if d1 < 0 then c_short (- d1) else d1);
            d3 = c_short (d2 - drop_bit (rt_RTTVAR_BITS r) (rt_rttvar r));
            v = rt_rttvar r + d3 in
        r\<lparr>rt_srtt := (if s \<le> 0 then 1 else s), rt_rttvar := (if v \<le> 0 then 1 else v)\<rparr>
      else r\<lparr>rt_srtt := push_bit (rt_SRTT_BITS r) m, rt_rttvar := push_bit (rt_RTTVAR_BITS r - 1) m\<rparr>)"

definition set_rtxcur :: "'x tcp_rtt_scheme \<Rightarrow> 'x tcp_rtt_scheme" where
  "set_rtxcur r =
     r\<lparr>rt_rtxcur := of_int (drop_bit (rt_SRTT_BITS r)
        (push_bit (rt_rttvar_exp r + rt_SRTT_BITS r - rt_RTTVAR_BITS r) (rt_rttvar r) + rt_srtt r)) * rt_tick r\<rparr>"

definition rtt_update :: "real \<Rightarrow> real \<Rightarrow> 'x tcp_rtt_scheme \<Rightarrow> 'x tcp_rtt_scheme" where
  "rtt_update now tao r =
     (let m = measure_rtt now tao r in set_rtxcur (smooth m (r\<lparr>rt_rtt := m\<rparr>)))"

definition rtt_backoff :: "'x tcp_rtt_scheme \<Rightarrow> 'x tcp_rtt_scheme res" where
  "rtt_backoff r =
     rbind
       (if rt_backoff r < 64 then Inr (True, r)
        else if rt_rfc2988 r then rbind (rtt_timeout r) (\<lambda>(t, r'). Inr (t < rt_maxrto r', r'))
        else Inr (False, r))
       (\<lambda>(more, r1).
         let r2 = (if more then r1\<lparr>rt_backoff := 2 * rt_backoff r1\<rparr> else r1) in
         Inr (if rt_backoff r2 > 8
              then r2\<lparr>rt_rttvar := rt_rttvar r2 + drop_bit (rt_SRTT_BITS r2) (rt_srtt r2), rt_srtt := 0\<rparr> else r2))"

subsection \<open>The bounds of the timeout\<close>

definition rtt_ok :: "'x tcp_rtt_scheme \<Rightarrow> bool" where
  "rtt_ok r \<longleftrightarrow> 0 \<le> rt_srtt r \<and> 0 \<le> rt_rttvar r \<and> 1 \<le> rt_backoff r \<and> 0 \<le> rt_rtxcur r \<and>
     0 < rt_tick r \<and> 0 \<le> rt_minrto r \<and> 0 \<le> rt_maxrto r"

lemma c_trunc_nonneg: "0 \<le> x \<Longrightarrow> 0 \<le> c_trunc x"
  by (simp add: c_trunc_def)

lemma rtt_init_ok:
  assumes "0 < rt_tick r" "0 \<le> rt_minrto r" "0 \<le> rt_maxrto r"
    and "0 \<le> rt_srtt_init r" "0 \<le> rt_rttvar_init r" "0 \<le> rt_rtxcur_init r"
  shows "rtt_ok (rtt_init r)"
  using assms by (simp add: rtt_ok_def rtt_init_def c_trunc_nonneg push_bit_eq_mult)

lemma measure_pos: "1 \<le> measure_rtt now tao r"
  by (simp add: measure_rtt_def Let_def)

lemma smooth_ok: "rtt_ok r \<Longrightarrow> 1 \<le> m \<Longrightarrow> rtt_ok (smooth m r)"
  by (simp add: rtt_ok_def smooth_def Let_def push_bit_eq_mult)

lemma set_rtxcur_ok:
  assumes "rtt_ok r"
  shows "rtt_ok (set_rtxcur r)"
proof -
  have "0 \<le> drop_bit (rt_SRTT_BITS r) (push_bit (rt_rttvar_exp r + rt_SRTT_BITS r - rt_RTTVAR_BITS r) (rt_rttvar r) + rt_srtt r)"
    using assms by (simp add: rtt_ok_def push_bit_eq_mult)
  then show ?thesis using assms by (simp add: rtt_ok_def set_rtxcur_def)
qed

lemma rtt_update_ok: "rtt_ok r \<Longrightarrow> rtt_ok (rtt_update now tao r)"
proof -
  assume "rtt_ok r"
  then have "rtt_ok (r\<lparr>rt_rtt := measure_rtt now tao r\<rparr>)" by (simp add: rtt_ok_def)
  then show ?thesis unfolding rtt_update_def Let_def by (intro set_rtxcur_ok smooth_ok measure_pos)
qed

lemma rtt_timeout_ok:
  assumes "rtt_ok r"
  shows "\<exists>t. rtt_timeout r = Inr (t, r\<lparr>rt_use_rtt := False\<rparr>) \<and>
    (if rt_use_rtt r then rt_tick r else 2 * rt_tick r) \<le> t \<and> t \<le> max (rt_maxrto r) (2 * rt_tick r) \<and>
    (\<not> rt_use_rtt r \<longrightarrow> min (rt_minrto r) (rt_maxrto r) \<le> t)"
proof -
  have b: "1 \<le> (of_int (rt_backoff r) :: real)" using assms by (simp add: rtt_ok_def)
  have "0 \<le> rt_rtxcur r * of_int (rt_backoff r)" "0 \<le> rt_minrto r * of_int (rt_backoff r)"
    "rt_minrto r \<le> rt_minrto r * of_int (rt_backoff r)" "rt_rtxcur r \<le> rt_rtxcur r * of_int (rt_backoff r)"
    using assms b mult_left_mono [OF b, of "rt_minrto r"] mult_left_mono [OF b, of "rt_rtxcur r"]
    by (auto simp: rtt_ok_def)
  then show ?thesis using assms by (auto simp: rtt_timeout_def rtt_ok_def Let_def)
qed

lemma rtt_backoff_ok:
  assumes "rtt_ok r"
  shows "\<exists>r'. rtt_backoff r = Inr r' \<and> rtt_ok r' \<and> rt_backoff r \<le> rt_backoff r'"
proof -
  obtain more r1 where r1: "(if rt_backoff r < 64 then Inr (True, r)
        else if rt_rfc2988 r then rbind (rtt_timeout r) (\<lambda>(t, r'). Inr (t < rt_maxrto r', r'))
        else Inr (False, r)) = Inr (more, r1)" and eq: "r1 = r \<or> r1 = r\<lparr>rt_use_rtt := False\<rparr>"
  proof (cases "rt_backoff r < 64 \<or> \<not> rt_rfc2988 r")
    case True
    then show thesis using that [of "rt_backoff r < 64" r] by auto
  next
    case False
    moreover obtain t where "rtt_timeout r = Inr (t, r\<lparr>rt_use_rtt := False\<rparr>)" using rtt_timeout_ok [OF assms] by blast
    ultimately show thesis using that [of "t < rt_maxrto r" "r\<lparr>rt_use_rtt := False\<rparr>"] by simp
  qed
  have ok: "rtt_ok r1" "rt_backoff r1 = rt_backoff r" using eq assms by (auto simp: rtt_ok_def)
  have "0 \<le> drop_bit (rt_SRTT_BITS r1) (rt_srtt r1)" using ok(1) by (simp add: rtt_ok_def)
  then show ?thesis using ok unfolding rtt_backoff_def r1 by (auto simp: rtt_ok_def Let_def)
qed

text \<open>Every history of measurements, backoffs and timeouts.\<close>

datatype rtt_op = Measure real real | Backoff | Timeout

fun rtt_do :: "rtt_op \<Rightarrow> 'x tcp_rtt_scheme \<Rightarrow> 'x tcp_rtt_scheme res" where
  "rtt_do (Measure now tao) r = Inr (rtt_update now tao r)"
| "rtt_do Backoff r = rtt_backoff r"
| "rtt_do Timeout r = rbind (rtt_timeout r) (\<lambda>(t, r'). Inr r')"

definition same_config :: "'x tcp_rtt_scheme \<Rightarrow> 'x tcp_rtt_scheme \<Rightarrow> bool" where
  "same_config r r' \<longleftrightarrow> rt_tick r' = rt_tick r \<and> rt_minrto r' = rt_minrto r \<and> rt_maxrto r' = rt_maxrto r"

lemma rtt_timeout_same: "rtt_timeout r = Inr (t, r') \<Longrightarrow> r' = r\<lparr>rt_use_rtt := False\<rparr>"
  by (auto simp: rtt_timeout_def Let_def split: if_splits)

lemma rtt_backoff_same: "rtt_backoff r = Inr r' \<Longrightarrow> same_config r r'"
  by (auto simp: rtt_backoff_def rbind_eq_Inr Let_def same_config_def dest!: rtt_timeout_same split: if_splits)

lemma rtt_update_same: "same_config r (rtt_update now tao r)"
  by (simp add: rtt_update_def set_rtxcur_def smooth_def Let_def same_config_def)

lemma rtt_do_ok:
  assumes "rtt_ok r"
  shows "\<exists>r'. rtt_do x r = Inr r' \<and> rtt_ok r' \<and> same_config r r'"
proof (cases x)
  case (Measure now tao)
  then show ?thesis using rtt_update_ok [OF assms] rtt_update_same by auto
next
  case Backoff
  then show ?thesis using rtt_backoff_ok [OF assms] rtt_backoff_same by auto
next
  case Timeout
  then show ?thesis using rtt_timeout_ok [OF assms] assms by (auto simp: rtt_ok_def same_config_def)
qed

lemma rtt_dos_ok:
  "rtt_ok r \<Longrightarrow> \<exists>r'. rfold rtt_do xs r = Inr r' \<and> rtt_ok r' \<and> same_config r r'"
proof (induction xs arbitrary: r)
  case Nil
  then show ?case by (simp add: same_config_def)
next
  case (Cons x xs)
  obtain r1 where "rtt_do x r = Inr r1" "rtt_ok r1" "same_config r r1" using rtt_do_ok [OF Cons.prems] by blast
  then show ?case using Cons.IH [of r1] by (auto simp: same_config_def)
qed

text \<open>
  C28. The retransmission timeout stays within its bounds and the sender never exits on a
  negative one: after any history of measurements, right or wrong, of backoffs and of timeouts,
  the timeout lies between two clock ticks (one, for a timeout from the handshake) and the
  larger of \<open>maxrto_\<close> and two ticks, and is at least \<open>minrto_\<close> otherwise. The scaled
  estimates are integers: a measurement of some \<open>2 ^ 27\<close> ticks would overflow those of the code.
\<close>

theorem timeout_bounds:
  assumes "0 < rt_tick r" "0 \<le> rt_minrto r" "0 \<le> rt_maxrto r"
    and "0 \<le> rt_srtt_init r" "0 \<le> rt_rttvar_init r" "0 \<le> rt_rtxcur_init r"
  shows "\<exists>r' t. rfold rtt_do xs (rtt_init r) = Inr r' \<and> rtt_timeout r' = Inr (t, r'\<lparr>rt_use_rtt := False\<rparr>) \<and>
    (if rt_use_rtt r' then rt_tick r else 2 * rt_tick r) \<le> t \<and> t \<le> max (rt_maxrto r) (2 * rt_tick r) \<and>
    (\<not> rt_use_rtt r' \<longrightarrow> min (rt_minrto r) (rt_maxrto r) \<le> t)"
proof -
  have conf: "same_config r (rtt_init r)" by (simp add: same_config_def rtt_init_def)
  obtain r' where r': "rfold rtt_do xs (rtt_init r) = Inr r'" "rtt_ok r'" "same_config (rtt_init r) r'"
    using rtt_dos_ok [OF rtt_init_ok [OF assms]] by blast
  then show ?thesis using rtt_timeout_ok [OF r'(2)] conf by (auto simp: same_config_def)
qed

text \<open>The values the repository configures, with timestamps.\<close>

definition demo_rtt :: tcp_rtt where
  "demo_rtt = \<lparr>rt_rtt = 0, rt_srtt = 0, rt_rttvar = 0, rt_backoff = 1, rt_rtxcur = 0, rt_use_rtt = False,
     rt_SRTT_BITS = 3, rt_RTTVAR_BITS = 2, rt_rttvar_exp = 2, rt_srtt_init = 0, rt_rttvar_init = 12, rt_rtxcur_init = 3,
     rt_tick = 1 / 100, rt_minrto = 1 / 5, rt_maxrto = 60, rt_boot_time = 0, rt_rfc2988 = True, rt_ts_option = True\<rparr>"

theorem timeout_bounds_witness:
  "\<exists>r' t. rfold rtt_do [Backoff, Measure 1 (1 / 2), Backoff] (rtt_init demo_rtt) = Inr r' \<and>
     rtt_timeout r' = Inr (t, r'\<lparr>rt_use_rtt := False\<rparr>) \<and> t \<le> 60"
proof -
  have "max (rt_maxrto demo_rtt) (2 * rt_tick demo_rtt) = 60" by (simp add: demo_rtt_def)
  then show ?thesis using timeout_bounds [of demo_rtt "[Backoff, Measure 1 (1 / 2), Backoff]"]
    by (auto simp: demo_rtt_def)
qed

subsection \<open>A steady round trip\<close>

text \<open>The update on integers when \<open>delta\<close> does not wrap, in the standard configuration.\<close>

definition est :: "int \<Rightarrow> int \<times> int \<Rightarrow> int \<times> int" where
  "est m = (\<lambda>(s, v). (s + m - s div 8, max 1 (v + \<bar>m - s div 8\<bar> - v div 4)))"

abbreviation B16 :: int where "B16 \<equiv> 32767"

definition narrow :: "int \<times> int \<Rightarrow> bool" where
  "narrow = (\<lambda>(s, v). 1 \<le> s \<and> s \<le> 8 * B16 + 7 \<and> 0 \<le> v \<and> v \<le> 4 * B16)"

definition standard :: "'x tcp_rtt_scheme \<Rightarrow> bool" where
  "standard r \<longleftrightarrow> rt_SRTT_BITS r = 3 \<and> rt_RTTVAR_BITS r = 2 \<and> rt_rttvar_exp r = 2"

lemma c_short_id: "- 32768 \<le> x \<Longrightarrow> x \<le> B16 \<Longrightarrow> c_short x = x"
  by (simp add: c_short_def signed_take_bit_int_eq_self)

lemma c_short_wraps: "2 ^ 15 \<le> x \<Longrightarrow> x < 2 ^ 16 \<Longrightarrow> c_short x = x - 2 ^ 16"
proof -
  assume x: "2 ^ 15 \<le> x" "x < 2 ^ 16"
  have "(x + 32768) mod 65536 = (x + 32768 - 65536) mod 65536" by (rule minus_mod_self2 [symmetric])
  also have "\<dots> = x + 32768 - 65536" by (rule mod_pos_pos_trivial) (use x in simp_all)
  finally show ?thesis by (simp add: c_short_def signed_take_bit_eq_take_bit_shift take_bit_eq_mod)
qed

lemma est_narrow: "narrow sv \<Longrightarrow> 1 \<le> m \<Longrightarrow> m \<le> B16 \<Longrightarrow> narrow (est m sv)"
proof -
  assume a: "narrow sv" "1 \<le> m" "m \<le> B16"
  obtain s v where sv: "sv = (s, v)" by fastforce
  define q p where "q = s div 8" and "p = v div 4"
  have q: "8 * q \<le> s" "s \<le> 8 * q + 7" and p: "4 * p \<le> v" "v \<le> 4 * p + 3" by (simp_all add: q_def p_def)
  have n: "1 \<le> s" "s \<le> 8 * B16 + 7" "0 \<le> v" "v \<le> 4 * B16" using a(1) by (simp_all add: narrow_def sv)
  have "v - p \<le> 3 * B16" using n(3,4) p by presburger
  moreover have "\<bar>m - q\<bar> \<le> B16" using q n(1,2) a(2,3) by linarith
  ultimately have "v + \<bar>m - q\<bar> - p \<le> 4 * B16" by linarith
  moreover have "1 \<le> s + m - q" "s + m - q \<le> 8 * B16 + 7" using q n(1,2) a(2,3) by linarith+
  ultimately show ?thesis by (simp add: narrow_def est_def sv q_def p_def le_max_iff_disj)
qed

lemma smooth_est:
  assumes "standard r" and "narrow (rt_srtt r, rt_rttvar r)" and "1 \<le> m" and "m \<le> B16"
  shows "rt_srtt (smooth m r) = fst (est m (rt_srtt r, rt_rttvar r))"
    and "rt_rttvar (smooth m r) = snd (est m (rt_srtt r, rt_rttvar r))"
proof -
  have n: "1 \<le> rt_srtt r" "rt_srtt r \<le> 8 * B16 + 7" "0 \<le> rt_rttvar r" "rt_rttvar r \<le> 4 * B16"
    using assms(2) by (simp_all add: narrow_def)
  let ?d = "m - rt_srtt r div 8"
  have d: "- 32767 \<le> ?d" "?d \<le> B16" using n(1,2) assms(3,4) by presburger+
  then have d1: "c_short ?d = ?d" and ad: "(if ?d < 0 then c_short (- ?d) else ?d) = \<bar>?d\<bar>"
    by (simp_all add: c_short_id)
  have "- 32767 \<le> \<bar>?d\<bar> - rt_rttvar r div 4" "\<bar>?d\<bar> - rt_rttvar r div 4 \<le> B16" using d n(3,4) by presburger+
  then have d3: "c_short (\<bar>?d\<bar> - rt_rttvar r div 4) = \<bar>?d\<bar> - rt_rttvar r div 4" by (simp add: c_short_id)
  have pos: "\<not> rt_srtt r + ?d \<le> 0" using n(1) assms(3) by presburger
  have bits: "drop_bit 3 (rt_srtt r) = rt_srtt r div 8" "drop_bit 2 (rt_rttvar r) = rt_rttvar r div 4"
    by (simp_all add: drop_bit_eq_div)
  have "smooth m r = r\<lparr>rt_srtt := rt_srtt r + ?d,
      rt_rttvar := (if rt_rttvar r + (\<bar>?d\<bar> - rt_rttvar r div 4) \<le> 0 then 1 else rt_rttvar r + (\<bar>?d\<bar> - rt_rttvar r div 4))\<rparr>"
    using n(1) assms(1) pos by (simp only: smooth_def standard_def bits d1 ad d3 Let_def if_False simp_thms) simp
  then show "rt_srtt (smooth m r) = fst (est m (rt_srtt r, rt_rttvar r))"
    "rt_rttvar (smooth m r) = snd (est m (rt_srtt r, rt_rttvar r))"
    by (auto simp: est_def max_def)
qed

text \<open>How far the estimate is from its rest.\<close>

definition pot :: "int \<Rightarrow> int \<times> int \<Rightarrow> nat" where
  "pot m = (\<lambda>(s, v).
     if s div 8 = m then (if v = 0 then 1 else nat (v - 3))
     else nat (if s div 8 < m then 8 * m - s else s - 8 * m - 7) + nat (4 * B16 + 1))"

lemma rest_small: "1 \<le> w \<Longrightarrow> w \<le> 4 * B16 \<Longrightarrow> (if w = 0 then 1 else nat (w - 3)) < nat (4 * B16 + 1)"
  by simp

lemma pot_decreases:
  assumes "narrow sv" and "1 \<le> m" and "m \<le> B16" and "pot m sv \<noteq> 0"
  shows "pot m (est m sv) < pot m sv"
proof -
  obtain s v where sv: "sv = (s, v)" by fastforce
  define s' v' where "s' = s + m - s div 8" and "v' = max 1 (v + \<bar>m - s div 8\<bar> - v div 4)"
  have n: "1 \<le> s" "s \<le> 8 * B16 + 7" "0 \<le> v" "v \<le> 4 * B16" using assms(1) by (simp_all add: narrow_def sv)
  have v: "1 \<le> v'" "v' \<le> 4 * B16" using est_narrow [OF assms(1-3)] by (auto simp: narrow_def est_def sv v'_def)
  have rest: "(if v' = 0 then 1 else nat (v' - 3)) < nat (4 * B16 + 1)" using v by (rule rest_small)
  have E: "est m sv = (s', v')" by (simp add: est_def sv s'_def v'_def)
  consider (band) "s div 8 = m" | (below) "s div 8 < m" | (above) "m < s div 8" by linarith
  then show ?thesis
  proof cases
    case band
    have "v = 0 \<or> 4 \<le> v" using assms(4) n(3) band by (auto simp: pot_def sv split: if_splits)
    moreover have "v - v div 4 < v" "3 \<le> v - v div 4" if "4 \<le> v" using that by presburger+
    ultimately show ?thesis using band unfolding E by (auto simp: pot_def sv s'_def v'_def max_def)
  next
    case below
    have "8 * (s div 8) \<le> s" "s \<le> 8 * (s div 8) + 7" by simp_all
    then have s: "s < s'" "s' \<le> 8 * m" unfolding s'_def using below by linarith+
    have "s' div 8 \<le> 8 * m div 8" using s(2) by (rule zdiv_mono1) simp
    then have lt: "\<not> m < s' div 8" "s' div 8 \<noteq> m \<longrightarrow> s' div 8 < m" by simp_all
    show ?thesis
    proof (cases "s' div 8 = m")
      case True
      then show ?thesis using below rest unfolding E by (simp add: pot_def sv)
    next
      case False
      then have "s' div 8 < m" using lt by simp
      moreover have "nat (8 * m - s') < nat (8 * m - s)" using s by linarith
      ultimately show ?thesis using below unfolding E by (simp add: pot_def sv)
    qed
  next
    case above
    have "8 * (s div 8) \<le> s" "s \<le> 8 * (s div 8) + 7" by simp_all
    then have s: "s' < s" "8 * m + 7 \<le> s'" unfolding s'_def using above by linarith+
    show ?thesis
    proof (cases "s' div 8 = m")
      case True
      then show ?thesis using above rest unfolding E by (simp add: pot_def sv)
    next
      case False
      moreover have "8 * m div 8 \<le> s' div 8" by (rule zdiv_mono1) (use s(2) in simp_all)
      then have "\<not> s' div 8 < m" by simp
      moreover have "nat (s' - 8 * m - 7) < nat (s - 8 * m - 7)" using s above by linarith
      ultimately show ?thesis using above unfolding E by (simp add: pot_def sv)
    qed
  qed
qed

lemma pot_rest:
  assumes "narrow sv" and "pot m sv = 0"
  shows "fst sv div 8 = m \<and> 1 \<le> snd sv \<and> snd sv \<le> 3" and "est m sv = sv"
proof -
  obtain s v where sv: "sv = (s, v)" by fastforce
  have "s div 8 = m" "1 \<le> v" "v \<le> 3" using assms by (auto simp: narrow_def pot_def sv split: if_splits)
  then show "fst sv div 8 = m \<and> 1 \<le> snd sv \<and> snd sv \<le> 3" "est m sv = sv" by (auto simp: sv est_def)
qed

lemma pot_step: "narrow sv \<Longrightarrow> 1 \<le> m \<Longrightarrow> m \<le> B16 \<Longrightarrow> pot m (est m sv) \<le> pot m sv - 1"
  using pot_decreases [of sv m] pot_rest(2) [of sv m] by (cases "pot m sv = 0") auto

lemma pot_bound: "narrow sv \<Longrightarrow> 1 \<le> m \<Longrightarrow> m \<le> B16 \<Longrightarrow> pot m sv \<le> 12 * 2 ^ 15 - 1"
  by (cases sv) (auto simp: pot_def narrow_def)

lemma set_rtxcur_measure: "measure_rtt now tao (set_rtxcur r) = measure_rtt now tao r"
  by (simp add: measure_rtt_def set_rtxcur_def)

text \<open>An update by a measurement of \<open>m\<close> ticks.\<close>

lemma update_estimate:
  assumes "standard r" and "rt_srtt r = 0 \<or> narrow (rt_srtt r, rt_rttvar r)" and "measure_rtt now tao r = m"
    and "1 \<le> m" and "m \<le> B16"
  shows "(rt_srtt (rtt_update now tao r), rt_rttvar (rtt_update now tao r)) =
      (if rt_srtt r = 0 then (8 * m, 2 * m) else est m (rt_srtt r, rt_rttvar r))"
    and "standard (rtt_update now tao r)" and "rt_tick (rtt_update now tao r) = rt_tick r"
    and "measure_rtt t u (rtt_update now tao r) = measure_rtt t u r"
    and "rt_rtxcur (rtt_update now tao r) =
      of_int (rt_rttvar (rtt_update now tao r) + rt_srtt (rtt_update now tao r) div 8) * rt_tick r"
proof -
  let ?r = "r\<lparr>rt_rtt := m\<rparr>"
  have u: "rtt_update now tao r = set_rtxcur (smooth m ?r)" using assms(3) by (simp add: rtt_update_def Let_def)
  have std: "standard ?r" using assms(1) by (simp add: standard_def)
  have zero: "smooth m ?r = ?r\<lparr>rt_srtt := 8 * m, rt_rttvar := 2 * m\<rparr>" if "rt_srtt r = 0"
    using std that by (simp add: smooth_def standard_def push_bit_eq_mult)
  show "(rt_srtt (rtt_update now tao r), rt_rttvar (rtt_update now tao r)) =
      (if rt_srtt r = 0 then (8 * m, 2 * m) else est m (rt_srtt r, rt_rttvar r))"
    using assms(2) zero smooth_est [OF std _ assms(4,5)] by (auto simp: u set_rtxcur_def)
  have frame: "standard (smooth m ?r)" "rt_tick (smooth m ?r) = rt_tick r" "measure_rtt t u (smooth m ?r) = measure_rtt t u r"
    using std by (simp_all add: smooth_def standard_def measure_rtt_def Let_def)
  then show "standard (rtt_update now tao r)" "rt_tick (rtt_update now tao r) = rt_tick r"
    "measure_rtt t u (rtt_update now tao r) = measure_rtt t u r"
    by (simp_all add: u set_rtxcur_measure) (simp_all add: set_rtxcur_def standard_def)
  show "rt_rtxcur (rtt_update now tao r) =
      of_int (rt_rttvar (rtt_update now tao r) + rt_srtt (rtt_update now tao r) div 8) * rt_tick r"
    using frame by (simp add: u set_rtxcur_def standard_def push_bit_eq_mult drop_bit_eq_div)
qed

definition updates :: "(real \<times> real) list \<Rightarrow> 'x tcp_rtt_scheme \<Rightarrow> 'x tcp_rtt_scheme" where
  "updates = fold (\<lambda>(now, tao). rtt_update now tao)"

lemma updates_pot:
  assumes "standard r" and "narrow (rt_srtt r, rt_rttvar r)" and "1 \<le> m" and "m \<le> B16"
    and "\<forall>(now, tao) \<in> set ms. measure_rtt now tao r = m"
  shows "narrow (rt_srtt (updates ms r), rt_rttvar (updates ms r)) \<and> rt_tick (updates ms r) = rt_tick r \<and>
    pot m (rt_srtt (updates ms r), rt_rttvar (updates ms r)) \<le> pot m (rt_srtt r, rt_rttvar r) - length ms \<and>
    (ms \<noteq> [] \<longrightarrow> rt_rtxcur (updates ms r) = of_int (rt_rttvar (updates ms r) + rt_srtt (updates ms r) div 8) * rt_tick r)"
  using assms(1,2,5)
proof (induction ms arbitrary: r)
  case Nil
  then show ?case by (simp add: updates_def)
next
  case (Cons e ms)
  obtain now tao where e: "e = (now, tao)" by fastforce
  let ?r = "rtt_update now tao r"
  have pos: "rt_srtt r \<noteq> 0" using Cons.prems(2) by (simp add: narrow_def)
  have m: "measure_rtt now tao r = m" using Cons.prems(3) by (simp add: e)
  note up = update_estimate [OF Cons.prems(1) disjI2 [OF Cons.prems(2)] m assms(3,4)]
  have est: "(rt_srtt ?r, rt_rttvar ?r) = est m (rt_srtt r, rt_rttvar r)" using up(1) pos by simp
  have nar: "narrow (rt_srtt ?r, rt_rttvar ?r)" unfolding est by (rule est_narrow [OF Cons.prems(2) assms(3,4)])
  have ms: "\<forall>(now, tao) \<in> set ms. measure_rtt now tao ?r = m" using Cons.prems(3) up(4) by auto
  have step: "pot m (rt_srtt ?r, rt_rttvar ?r) \<le> pot m (rt_srtt r, rt_rttvar r) - 1"
    unfolding est by (rule pot_step [OF Cons.prems(2) assms(3,4)])
  have u: "updates (e # ms) r = updates ms ?r" by (simp add: updates_def e)
  have ih: "narrow (rt_srtt (updates ms ?r), rt_rttvar (updates ms ?r)) \<and> rt_tick (updates ms ?r) = rt_tick ?r \<and>
      pot m (rt_srtt (updates ms ?r), rt_rttvar (updates ms ?r)) \<le> pot m (rt_srtt ?r, rt_rttvar ?r) - length ms \<and>
      (ms \<noteq> [] \<longrightarrow> rt_rtxcur (updates ms ?r) = of_int (rt_rttvar (updates ms ?r) + rt_srtt (updates ms ?r) div 8) * rt_tick ?r)"
    by (rule Cons.IH [OF up(2) nar ms])
  have "rt_rtxcur (updates ms ?r) = of_int (rt_rttvar (updates ms ?r) + rt_srtt (updates ms ?r) div 8) * rt_tick r"
  proof (cases "ms = []")
    case True
    then show ?thesis using up(5) by (simp add: updates_def)
  next
    case False
    then show ?thesis using ih up(3) by simp
  qed
  then show ?case using ih step up(3) unfolding u by auto
qed

text \<open>
  C27. On a path with a steady round trip the estimate settles: in the standard configuration,
  from a fresh connection or any sane estimate, after at most 12 * 2^15 measurements of
  \<open>m\<close> ticks each (less than 2^15) the smoothed estimate is exactly \<open>m\<close>, the
  deviation at most three quarters of a tick, and the timeout value one to three ticks more
  than the round trip.
\<close>

theorem steady_rtt:
  assumes "standard r" and "rt_srtt r = 0 \<or> narrow (rt_srtt r, rt_rttvar r)" and "1 \<le> m" and "m \<le> B16"
    and "\<forall>(now, tao) \<in> set ms. measure_rtt now tao r = m" and "12 * 2 ^ 15 \<le> length ms"
  shows "drop_bit 3 (rt_srtt (updates ms r)) = m \<and> rt_rttvar (updates ms r) \<in> {1..3} \<and>
    rt_rtxcur (updates ms r) = of_int (m + rt_rttvar (updates ms r)) * rt_tick r"
proof -
  obtain now tao ms' where ms: "ms = (now, tao) # ms'" using assms(6) by (cases ms) auto
  let ?r = "rtt_update now tao r"
  have m: "measure_rtt now tao r = m" using assms(5) by (simp add: ms)
  note up = update_estimate [OF assms(1,2) m assms(3,4)]
  have nar: "narrow (rt_srtt ?r, rt_rttvar ?r)"
    using up(1) assms(2-4) est_narrow [of _ m] by (auto simp: narrow_def split: if_splits)
  have all: "\<forall>(now, tao) \<in> set ms'. measure_rtt now tao ?r = m" using assms(5) up(4) by (auto simp: ms)
  have len: "12 * 2 ^ 15 - 1 \<le> length ms'" "ms' \<noteq> []" using assms(6) by (auto simp: ms)
  have u: "updates ms r = updates ms' ?r" by (simp add: updates_def ms)
  note fin = updates_pot [OF up(2) nar assms(3,4) all]
  have "pot m (rt_srtt (updates ms r), rt_rttvar (updates ms r)) = 0"
    using fin pot_bound [OF nar assms(3,4)] len(1) unfolding u by linarith
  from pot_rest(1) [OF _ this] fin len(2) up(3) show ?thesis unfolding u
    by (auto simp: drop_bit_eq_div add.commute)
qed

theorem steady_rtt_witness:
  "drop_bit 3 (rt_srtt (updates (replicate (12 * 2 ^ 15) (1, 1 / 2)) demo_rtt)) = 50"
proof -
  have "measure_rtt 1 (1 / 2) demo_rtt = 50"
    by (simp add: measure_rtt_def demo_rtt_def c_trunc_def Let_def)
  then show ?thesis using steady_rtt [of demo_rtt 50 "replicate (12 * 2 ^ 15) (1, 1 / 2)"]
    by (simp add: standard_def demo_rtt_def)
qed

text \<open>
  A round trip that grows by 2^15 ticks or more lowers the estimate: \<open>delta\<close> is a
  \<open>short\<close>, the difference wraps to a negative number, and the smoothed round trip falls
  although the measurement exceeds it.
\<close>

theorem delta_wraps:
  assumes "1 < rt_srtt r" and "measure_rtt now tao r - drop_bit (rt_SRTT_BITS r) (rt_srtt r) \<in> {2 ^ 15..<2 ^ 16}"
  shows "rt_srtt (rtt_update now tao r) < rt_srtt r"
proof -
  let ?d = "measure_rtt now tao r - drop_bit (rt_SRTT_BITS r) (rt_srtt r)"
  have "c_short ?d = ?d - 2 ^ 16" using assms(2) by (intro c_short_wraps) simp_all
  then have "c_short ?d < 0" using assms(2) by simp
  then show ?thesis using assms(1) by (simp add: rtt_update_def set_rtxcur_def smooth_def Let_def)
qed

theorem delta_wraps_witness:
  "rt_srtt (rtt_update 500 400 (demo_rtt\<lparr>rt_srtt := 8 * 50, rt_rttvar := 4\<rparr>)) < 8 * 50"
proof -
  have "measure_rtt 500 400 (demo_rtt\<lparr>rt_srtt := 8 * 50, rt_rttvar := 4\<rparr>) = 40000"
    by (simp add: measure_rtt_def demo_rtt_def c_trunc_def Let_def)
  then show ?thesis using delta_wraps [of "demo_rtt\<lparr>rt_srtt := 8 * 50, rt_rttvar := 4\<rparr>" 500 400]
    by (simp add: demo_rtt_def drop_bit_eq_div)
qed

end
