(* ===== verification/TcpSender.thy ===== *)
theory TcpSender
  imports TcpRtt
begin

section \<open>The TCP sender\<close>

text \<open>
  The sending side of \<open>TcpAgent\<close> in tcp/tcp.h and tcp/tcp.cc: its state, the window, the
  reaction to congestion, the timers, the quiescence option and the output of packets; theory
  \<open>TcpAcks\<close> has the reception of acknowledgements, the timeouts and the reset. The variables bound from Tcl that no operation changes are the record
  \<open>tcp_conf\<close>; it also holds the draws of the random generator. The state extends the
  estimator of theory \<open>TcpRtt\<close>; counters, the quiescence option and Quick-Start have records
  of their own. A timer is the time at which it is due, \<open>None\<close> when it is not pending
  (theory \<open>Timer\<close> shows that \<open>resched\<close> and \<open>force_cancel\<close> do exactly
  that). Packets handed to the network and calls of the application are logged. Tracing to
  files is left out.
\<close>

subsection \<open>State\<close>

record tcp_conf =
  cf_wnd :: real
  cf_wnd_option :: int
  cf_wnd_th :: real
  cf_size :: int
  cf_tcpip_base_hdr_size :: int
  cf_ts_option_size :: int
  cf_useHeaders :: bool
  cf_overhead :: real
  cf_maxburst :: int
  cf_aggressive_maxburst :: bool
  cf_numdupacks :: int
  cf_singledup :: bool
  cf_noFastRetrans :: bool
  cf_bug_fix :: bool
  cf_bugfix_ss :: bool
  cf_bugfix_ts :: bool
  cf_timerfix :: bool
  cf_ts_resetRTO :: bool
  cf_slow_start_restart :: bool
  cf_restart_bugfix :: bool
  cf_precision_reduce :: bool
  cf_l_parameter :: real
  cf_low_window :: int
  cf_high_window :: int
  cf_high_decrease :: real
  cf_max_ssthresh :: int
  cf_syn :: bool
  cf_delay_growth :: bool
  cf_max_connects :: int
  cf_ecn :: bool
  cf_old_ecn :: bool
  cf_SetCWRonRetransmit :: bool
  cf_dctcp :: bool
  cf_dctcp_alpha :: real
  cf_eln :: bool
  cf_eln_rxmit_thresh :: int
  cf_frto_enabled :: bool
  cf_sfrto_enabled :: bool
  cf_control_increase :: bool
  cf_QOption :: bool
  cf_EnblRTTCtr :: bool
  cf_qs_enabled :: bool
  cf_tcp_qs_recovery :: bool
  cf_qs_request_mode :: int
  cf_qs_rtt :: int
  cf_qs_thresh :: int
  cf_rate_request :: int
  cf_rate_function :: int
  cf_defttl :: int
  cf_uniform :: "nat \<Rightarrow> real"       \<comment> \<open>the draws of Random::uniform(overhead_)\<close>
  cf_integer :: "nat \<Rightarrow> int"        \<comment> \<open>the draws of Random::integer(256)\<close>
  cf_boot :: "nat \<Rightarrow> real"          \<comment> \<open>the draws of Random::uniform(tcp_tick_)\<close>

record sent_pkt =
  sp_seqno :: int
  sp_ts :: real
  sp_ts_echo :: real
  sp_reason :: int
  sp_last_rtt :: int
  sp_size :: int
  sp_ect :: bool
  sp_ecnecho :: bool
  sp_cong_action :: bool
  sp_qs :: bool
  sp_qs_hdr :: "qs_state \<times> int \<times> int"

record ack_hdr =
  ah_seqno :: int
  ah_ts :: real
  ah_ts_echo :: real
  ah_ecnecho :: bool
  ah_cong_action :: bool
  ah_no_ts :: bool
  ah_eln :: bool
  ah_qs_hdr :: "qs_state \<times> int \<times> int"

record tcp_stats =
  st_ndatapack :: int
  st_ndatabytes :: int
  st_nackpack :: int
  st_nrexmit :: int
  st_nrexmitpack :: int
  st_nrexmitbytes :: int
  st_necnresponses :: int
  st_ncwndcuts :: int
  st_ncwndcuts1 :: int

record qoption =
  qo_T_last :: int
  qo_T_prev :: int
  qo_T_start :: int
  qo_RTT_count :: int
  qo_RTT_prev :: int
  qo_RTT_goodcount :: int
  qo_F_counting :: bool
  qo_W_used :: int
  qo_W_timed :: int
  qo_F_full :: bool
  qo_Backoffs :: int

record quickstart =
  qs_requested :: bool
  qs_approved :: bool
  qs_cwnd :: int
  qs_window :: int
  qs_ttl_diff :: int

record tcp_sender = tcp_rtt +
  sd_t_seqno :: int
  sd_dupacks :: int
  sd_curseq :: int
  sd_highest_ack :: int
  sd_prev_highest_ack :: int
  sd_cwnd :: real
  sd_ssthresh :: int
  sd_maxseq :: int
  sd_last_ack :: int
  sd_recover :: int
  sd_last_cwnd_action :: int
  sd_count :: int
  sd_fcnt :: real
  sd_awnd :: real
  sd_first_decrease :: bool
  sd_decrease_num :: real
  sd_wnd_init :: real
  sd_dec1 :: real
  sd_dec2 :: real
  sd_wnd_init_option :: int
  sd_wnd_restart :: real
  sd_rtt_active :: bool
  sd_rtt_seq :: int
  sd_rtt_ts :: real
  sd_firstsent :: real
  sd_lastreset :: real
  sd_closed :: bool
  sd_ts_peer :: real
  sd_ts_echo :: real
  sd_cong_action :: bool
  sd_ecn_burst :: bool
  sd_ecn_backoff :: bool
  sd_ect :: bool
  sd_frto :: int
  sd_pipe_prev :: int
  sd_syn_connects :: int
  sd_eln_last_rxmit :: int
  sd_tss :: "real list option"
  sd_tss_size :: int
  sd_stats :: tcp_stats
  sd_qo :: qoption
  sd_qs :: quickstart
  sd_rtx :: "real option"
  sd_delsnd :: "real option"
  sd_burstsnd :: "real option"
  sd_draws :: nat
  sd_sent :: "sent_pkt list"
  sd_finished :: nat
  sd_idle_calls :: nat

definition upd_stats :: "(tcp_stats \<Rightarrow> tcp_stats) \<Rightarrow> tcp_sender \<Rightarrow> tcp_sender" where
  "upd_stats f s = s\<lparr>sd_stats := f (sd_stats s)\<rparr>"

definition upd_qo :: "(qoption \<Rightarrow> qoption) \<Rightarrow> tcp_sender \<Rightarrow> tcp_sender" where
  "upd_qo f s = s\<lparr>sd_qo := f (sd_qo s)\<rparr>"

definition upd_qs :: "(quickstart \<Rightarrow> quickstart) \<Rightarrow> tcp_sender \<Rightarrow> tcp_sender" where
  "upd_qs f s = s\<lparr>sd_qs := f (sd_qs s)\<rparr>"

text \<open>Reasons for a change of the window, and the bits that say how to change it.\<close>

definition CWND_ACTION_DUPACK :: int where "CWND_ACTION_DUPACK = 1"
definition CWND_ACTION_TIMEOUT :: int where "CWND_ACTION_TIMEOUT = 2"
definition CWND_ACTION_ECN :: int where "CWND_ACTION_ECN = 3"

definition TCP_REASON_TIMEOUT :: int where "TCP_REASON_TIMEOUT = 1"
definition TCP_REASON_DUPACK :: int where "TCP_REASON_DUPACK = 2"

datatype how =
  CLOSE_SSTHRESH_HALF | CLOSE_CWND_HALF | CLOSE_CWND_RESTART | CLOSE_CWND_INIT | CLOSE_CWND_ONE
  | THREE_QUARTER_SSTHRESH | CLOSE_CWND_HALF_WAY | CWND_HALF_WITH_MIN | TCP_IDLE | NO_OUTSTANDING_DATA
  | CLOSE_SSTHRESH_DCTCP | CLOSE_CWND_DCTCP

text \<open>The value of each bit; a set of bits is a list of flags, their disjunction.\<close>

fun bit_of :: "how \<Rightarrow> int" where
  "bit_of CLOSE_SSTHRESH_HALF = 0x1"
| "bit_of CLOSE_CWND_HALF = 0x2"
| "bit_of CLOSE_CWND_RESTART = 0x4"
| "bit_of CLOSE_CWND_INIT = 0x8"
| "bit_of CLOSE_CWND_ONE = 0x10"
| "bit_of THREE_QUARTER_SSTHRESH = 0x80"
| "bit_of CLOSE_CWND_HALF_WAY = 0x100"
| "bit_of CWND_HALF_WITH_MIN = 0x200"
| "bit_of TCP_IDLE = 0x400"
| "bit_of NO_OUTSTANDING_DATA = 0x800"
| "bit_of CLOSE_SSTHRESH_DCTCP = 0x1000"
| "bit_of CLOSE_CWND_DCTCP = 0x2000"

definition bits :: "how list \<Rightarrow> int" where
  "bits fs = fold (\<lambda>f b. b OR bit_of f) fs 0"

definition has :: "how \<Rightarrow> int \<Rightarrow> bool" where
  "has f b \<longleftrightarrow> b AND bit_of f \<noteq> 0"

subsection \<open>The window\<close>

definition force_wnd :: "int \<Rightarrow> tcp_sender \<Rightarrow> int" where
  "force_wnd num s = sd_recover s + num - sd_highest_ack s"

definition tcp_window :: "tcp_conf \<Rightarrow> tcp_sender \<Rightarrow> int" where
  "tcp_window c s =
     (if sd_frto s = 2 then (if of_int (force_wnd 2 s) < cf_wnd c then force_wnd 2 s else c_trunc (cf_wnd c))
      else if sd_cwnd s < cf_wnd c then c_trunc (sd_cwnd s) else c_trunc (cf_wnd c))"

definition tcp_windowd :: "tcp_conf \<Rightarrow> tcp_sender \<Rightarrow> real" where
  "tcp_windowd c s = (if sd_cwnd s < cf_wnd c then sd_cwnd s else cf_wnd c)"

definition decrease_param :: "tcp_conf \<Rightarrow> tcp_sender \<Rightarrow> real" where
  "decrease_param c s = sd_dec1 s + ln (sd_cwnd s) * sd_dec2 s"

text \<open>\<open>opencwnd\<close> returns at once: the controller sets the window.\<close>

definition opencwnd :: "tcp_conf \<Rightarrow> tcp_sender \<Rightarrow> tcp_sender" where
  "opencwnd c s = s"

text \<open>The two windows \<open>slowdown\<close> computes, with the change of \<open>decrease_num_\<close>.\<close>

definition close_windows :: "tcp_conf \<Rightarrow> tcp_sender \<Rightarrow> real \<times> real \<times> real" where
  "close_windows c s =
     (let dn = sd_decrease_num s; wd = tcp_windowd c s; w = tcp_window c s;
          fast = cf_wnd_option c = 8 \<and> sd_cwnd s > of_int (cf_low_window c) in
      if cf_precision_reduce c then
        (wd / 2,
         if cf_wnd_option c = 6 then (dn, wd - (1 - dn) * c_pow wd (cf_l_parameter c))
         else if fast then (decrease_param c s, wd - decrease_param c s * wd)
         else (dn, dn * wd))
      else
        (of_int (c_quot w 2),
         if cf_wnd_option c = 6 then (dn, of_int (c_trunc (of_int w - (1 - dn) * c_pow (of_int w) (cf_l_parameter c))))
         else if fast then (decrease_param c s, of_int (c_trunc (wd - decrease_param c s * wd)))
         else (dn, of_int (c_trunc (dn * of_int w)))))"

definition close_ssthresh :: "tcp_conf \<Rightarrow> int \<Rightarrow> bool \<Rightarrow> real \<Rightarrow> real \<Rightarrow> tcp_sender \<Rightarrow> tcp_sender" where
  "close_ssthresh c how slowstart halfwin decreasewin s =
     (if has CLOSE_SSTHRESH_HALF how then
        s\<lparr>sd_ssthresh := c_trunc (if sd_first_decrease s \<or> slowstart \<or> sd_last_cwnd_action s = CWND_ACTION_TIMEOUT
          then halfwin else decreasewin)\<rparr>
      else if has CLOSE_SSTHRESH_DCTCP how then
        s\<lparr>sd_ssthresh := c_trunc ((1 - cf_dctcp_alpha c / 2) * tcp_windowd c s) * 0\<rparr>
      else if has THREE_QUARTER_SSTHRESH how then
        (if of_int (sd_ssthresh s) < 3 * sd_cwnd s / 4 then s\<lparr>sd_ssthresh := c_trunc (3 * sd_cwnd s / 4)\<rparr> else s)
      else s)"

text \<open>Of the assignments to \<open>cwnd_\<close> one is left that is not \<open>cwnd_ = cwnd_\<close>.\<close>

definition close_cwnd :: "int \<Rightarrow> bool \<Rightarrow> real \<Rightarrow> tcp_sender \<Rightarrow> tcp_sender" where
  "close_cwnd how slowstart decreasewin s =
     (if has CLOSE_CWND_HALF how \<and> \<not> (sd_first_decrease s \<or> slowstart \<or> sd_decrease_num s = 1 / 2)
      then s\<lparr>sd_cwnd := decreasewin\<rparr> else s)"

definition slowdown :: "tcp_conf \<Rightarrow> int \<Rightarrow> tcp_sender \<Rightarrow> tcp_sender" where
  "slowdown c how s0 =
     (let s1 = upd_stats (\<lambda>n. n\<lparr>st_ncwndcuts := st_ncwndcuts n + 1,
            st_ncwndcuts1 := st_ncwndcuts1 n + (if \<not> has TCP_IDLE how \<and> \<not> has NO_OUTSTANDING_DATA how then 1 else 0)\<rparr>) s0;
          slowstart = (sd_cwnd s1 < of_int (sd_ssthresh s1)) in
      case close_windows c s1 of (halfwin, dn, decreasewin) \<Rightarrow>
        let s2 = close_ssthresh c how slowstart halfwin decreasewin (s1\<lparr>sd_decrease_num := dn\<rparr>);
            s3 = close_cwnd how slowstart decreasewin s2;
            s4 = (if sd_ssthresh s3 < 2 then s3\<lparr>sd_ssthresh := 2\<rparr> else s3);
            s5 = (if has CLOSE_CWND_HALF how \<or> has CLOSE_CWND_RESTART how \<or> has CLOSE_CWND_INIT how \<or>
                     has CLOSE_CWND_ONE how \<or> has CLOSE_CWND_DCTCP how
                  then s4\<lparr>sd_cong_action := True\<rparr> else s4) in
        s5\<lparr>sd_fcnt := 0, sd_count := 0, sd_first_decrease := False\<rparr>)"

definition initial_window :: "tcp_conf \<Rightarrow> tcp_sender \<Rightarrow> real res" where
  "initial_window c s =
     (if qs_cwnd (sd_qs s) \<noteq> 0 then Inr (of_int (qs_cwnd (sd_qs s)))
      else if sd_wnd_init_option s = 1 then Inr (sd_wnd_init s)
      else if sd_wnd_init_option s = 2 then Inr (if cf_size c \<le> 1095 then 4 else if cf_size c < 2190 then 3 else 2)
      else Inl Aborted)"

definition set_initial_window :: "tcp_conf \<Rightarrow> tcp_sender \<Rightarrow> tcp_sender res" where
  "set_initial_window c s =
     (if cf_syn c \<and> cf_delay_growth c then Inr (s\<lparr>sd_cwnd := 1, sd_syn_connects := 0\<rparr>)
      else rbind (initial_window c s) (\<lambda>w. Inr (s\<lparr>sd_cwnd := w\<rparr>)))"

subsection \<open>Timers\<close>

definition set_rtx_timer :: "real \<Rightarrow> tcp_sender \<Rightarrow> tcp_sender res" where
  "set_rtx_timer now s = rbind (rtt_timeout s) (\<lambda>(t, s'). Inr (s'\<lparr>sd_rtx := Some (now + t)\<rparr>))"

definition cancel_rtx_timer :: "tcp_sender \<Rightarrow> tcp_sender" where
  "cancel_rtx_timer s = s\<lparr>sd_rtx := None\<rparr>"

definition reset_rtx_timer :: "real \<Rightarrow> bool \<Rightarrow> bool \<Rightarrow> tcp_sender \<Rightarrow> tcp_sender res" where
  "reset_rtx_timer now mild backoff s =
     rbind (if backoff then rtt_backoff s else Inr s) (\<lambda>s1.
       rbind (set_rtx_timer now s1) (\<lambda>s2.
         Inr ((if mild then s2 else s2\<lparr>sd_t_seqno := sd_highest_ack s2 + 1\<rparr>)\<lparr>sd_rtt_active := False\<rparr>)))"

definition newtimer :: "real \<Rightarrow> int \<Rightarrow> tcp_sender \<Rightarrow> tcp_sender res" where
  "newtimer now seqno s =
     (if sd_t_seqno s > seqno \<or> seqno < sd_maxseq s \<or> sd_cwnd s < 1 then set_rtx_timer now s
      else Inr (cancel_rtx_timer s))"

subsection \<open>The quiescence option\<close>

definition tcp_now :: "real \<Rightarrow> tcp_sender \<Rightarrow> int" where
  "tcp_now now s = c_trunc (now / rt_tick s + 1 / 2)"

definition repeat_slowdown :: "tcp_conf \<Rightarrow> int \<Rightarrow> int \<Rightarrow> tcp_sender \<Rightarrow> tcp_sender" where
  "repeat_slowdown c n how s = (slowdown c how ^^ nat n) s"

text \<open>\<open>rtt_counting\<close>: the sender was idle; a round has passed; the sender had no more to send.\<close>

definition rtt_idle :: "tcp_conf \<Rightarrow> int \<Rightarrow> int \<Rightarrow> tcp_sender \<Rightarrow> tcp_sender" where
  "rtt_idle c t rtt s =
     (if t - qo_T_last (sd_qo s) \<ge> 2 * rtt then
        let RTTs = c_quot ((t - qo_T_last (sd_qo s)) * qo_RTT_goodcount (sd_qo s)) (rtt * 2) - qo_Backoffs (sd_qo s);
            s' = upd_qo (\<lambda>q. q\<lparr>qo_Backoffs := 0\<rparr>) s in
        if RTTs > 0 then
          upd_qo (\<lambda>q. q\<lparr>qo_RTT_prev := qo_RTT_count q, qo_W_used := 0\<rparr>)
            (repeat_slowdown c RTTs (bits [CWND_HALF_WITH_MIN, TCP_IDLE])
              (slowdown c (bits [THREE_QUARTER_SSTHRESH, TCP_IDLE]) s'))
        else s'
      else s)"

definition rtt_round :: "int \<Rightarrow> int \<Rightarrow> tcp_sender \<Rightarrow> tcp_sender" where
  "rtt_round t rtt s =
     (if t - qo_T_start (sd_qo s) \<ge> 2 * rtt then
        upd_qo (\<lambda>q.
          (let q1 = (if qo_RTT_count q > qo_RTT_goodcount q \<or> qo_F_full q
                     then q\<lparr>qo_RTT_goodcount := (if qo_RTT_count q < 1 then 1 else qo_RTT_count q)\<rparr> else q) in
           q1\<lparr>qo_RTT_prev := qo_RTT_prev q1 - qo_RTT_count q1, qo_RTT_count := 0, qo_T_start := t, qo_F_full := False\<rparr>)) s
      else s)"

definition rtt_limited :: "tcp_conf \<Rightarrow> tcp_sender \<Rightarrow> tcp_sender" where
  "rtt_limited c s =
     (if sd_t_seqno s = sd_highest_ack s + tcp_window c s then
        upd_qo (\<lambda>q. q\<lparr>qo_W_used := 0, qo_F_full := True, qo_RTT_prev := qo_RTT_count q\<rparr>) s
      else if sd_t_seqno s = sd_curseq s - 1 then
        let tmp = sd_t_seqno s - sd_highest_ack s;
            s' = upd_qo (\<lambda>q. if tmp > qo_W_used q then q\<lparr>qo_W_used := tmp\<rparr> else q) s in
        if qo_RTT_count (sd_qo s') - qo_RTT_prev (sd_qo s') \<ge> 2 then
          upd_qo (\<lambda>q. q\<lparr>qo_RTT_prev := qo_RTT_count q, qo_Backoffs := qo_Backoffs q + 1, qo_W_used := 0\<rparr>)
            (slowdown c (bits [CLOSE_CWND_HALF_WAY, TCP_IDLE])
              (slowdown c (bits [THREE_QUARTER_SSTHRESH, TCP_IDLE]) s'))
        else s'
      else s)"

definition rtt_counting :: "tcp_conf \<Rightarrow> real \<Rightarrow> tcp_sender \<Rightarrow> tcp_sender" where
  "rtt_counting c now s =
     (let t = tcp_now now s;
          rtt = (let r = drop_bit (rt_SRTT_BITS s) (rt_srtt s) in if r < 1 then 1 else r);
          s1 = upd_qo (\<lambda>q. q\<lparr>qo_T_last := t\<rparr>) (rtt_idle c t rtt s);
          s2 = rtt_limited c (rtt_round t rtt s1) in
      if \<not> qo_F_counting (sd_qo s2) then upd_qo (\<lambda>q. q\<lparr>qo_W_timed := sd_t_seqno s2, qo_F_counting := True\<rparr>) s2 else s2)"

text \<open>
  \<open>process_qoption_after_send\<close>: the number of rounds the sender was idle divides by the
  timeout in ticks.
\<close>

definition qoption_idle :: "tcp_conf \<Rightarrow> int \<Rightarrow> int \<Rightarrow> tcp_sender \<Rightarrow> tcp_sender res" where
  "qoption_idle c t rto s =
     (if t - qo_T_last (sd_qo s) \<ge> rto then
        rbind (c_div (t - qo_T_last (sd_qo s)) rto) (\<lambda>n.
          Inr (upd_qo (\<lambda>q. q\<lparr>qo_T_prev := t, qo_W_used := 0\<rparr>)
            (repeat_slowdown c n (bits [CWND_HALF_WITH_MIN, TCP_IDLE])
              (slowdown c (bits [THREE_QUARTER_SSTHRESH, TCP_IDLE]) s))))
      else Inr s)"

definition qoption_limited :: "tcp_conf \<Rightarrow> int \<Rightarrow> int \<Rightarrow> tcp_sender \<Rightarrow> tcp_sender" where
  "qoption_limited c t rto s =
     (if sd_t_seqno s = sd_highest_ack s + tcp_window c s then upd_qo (\<lambda>q. q\<lparr>qo_T_prev := t, qo_W_used := 0\<rparr>) s
      else if sd_t_seqno s = sd_curseq s - 1 then
        let tmp = sd_t_seqno s - sd_highest_ack s;
            s' = upd_qo (\<lambda>q. if tmp > qo_W_used q then q\<lparr>qo_W_used := tmp\<rparr> else q) s in
        if t - qo_T_prev (sd_qo s') \<ge> rto then
          upd_qo (\<lambda>q. q\<lparr>qo_T_prev := t, qo_W_used := 0\<rparr>)
            (slowdown c (bits [CLOSE_CWND_HALF_WAY, TCP_IDLE])
              (slowdown c (bits [THREE_QUARTER_SSTHRESH, TCP_IDLE]) s'))
        else s'
      else s)"

definition process_qoption_after_send :: "tcp_conf \<Rightarrow> real \<Rightarrow> tcp_sender \<Rightarrow> tcp_sender res" where
  "process_qoption_after_send c now s =
     (let t = tcp_now now s; rto = c_trunc (rt_rtxcur s / rt_tick s) in
      if cf_EnblRTTCtr c then Inr (rtt_counting c now s)
      else rbind (qoption_idle c t rto s) (\<lambda>s1. Inr (qoption_limited c t rto (upd_qo (\<lambda>q. q\<lparr>qo_T_last := t\<rparr>) s1))))"

definition process_qoption_after_ack :: "tcp_conf \<Rightarrow> int \<Rightarrow> tcp_sender \<Rightarrow> tcp_sender" where
  "process_qoption_after_ack c seqno s =
     (if qo_F_counting (sd_qo s) then
        if seqno \<ge> qo_W_timed (sd_qo s) then
          upd_qo (\<lambda>q. q\<lparr>qo_RTT_count := qo_RTT_count q + 1, qo_F_counting := False\<rparr>) s
        else if sd_dupacks s = cf_numdupacks c then upd_qo (\<lambda>q. q\<lparr>qo_RTT_count := qo_RTT_count q + 1\<rparr>) s
        else s
      else s)"

subsection \<open>Output\<close>

definition headersize :: "tcp_conf \<Rightarrow> tcp_sender \<Rightarrow> int" where
  "headersize c s = cf_tcpip_base_hdr_size c + (if rt_ts_option s then cf_ts_option_size c else 0)"

text \<open>The table of the times at which packets were sent, kept when \<open>bugfix_ts_\<close> is set.\<close>

definition grow_tss :: "int \<Rightarrow> int \<Rightarrow> real list \<Rightarrow> real list res" where
  "grow_tss ack n xs =
     rfold (\<lambda>i ys. rbind (vec_get xs (c_mod (ack + i) n)) (\<lambda>x. vec_upd ys (c_mod (ack + i) (n * 2)) (\<lambda>_. x)))
       [0 .. n - 1] (replicate (nat (n * 2)) 0)"

definition make_tss :: "tcp_conf \<Rightarrow> tcp_sender \<Rightarrow> tcp_sender" where
  "make_tss c s =
     (if cf_bugfix_ts c \<and> sd_tss s = None then s\<lparr>sd_tss := Some (replicate (nat (sd_tss_size s)) 0)\<rparr> else s)"

definition resize_tss :: "tcp_conf \<Rightarrow> int \<Rightarrow> tcp_sender \<Rightarrow> tcp_sender res" where
  "resize_tss c seqno s =
     (case sd_tss s of
        None \<Rightarrow> Inr s
      | Some xs \<Rightarrow>
          if cf_bugfix_ts c \<and> of_int (seqno - sd_highest_ack s) > of_int (sd_tss_size s) * (9 / 10 :: real) then
            rbind (grow_tss (sd_highest_ack s) (sd_tss_size s) xs)
              (\<lambda>ys. Inr (s\<lparr>sd_tss := Some ys, sd_tss_size := sd_tss_size s * 2\<rparr>))
          else Inr s)"

definition store_ts :: "tcp_conf \<Rightarrow> real \<Rightarrow> int \<Rightarrow> tcp_sender \<Rightarrow> tcp_sender res" where
  "store_ts c now seqno s =
     rbind (resize_tss c seqno (make_tss c s)) (\<lambda>s1.
       case sd_tss s1 of
         None \<Rightarrow> Inr s1
       | Some xs \<Rightarrow> rbind (vec_upd xs (c_mod seqno (sd_tss_size s1)) (\<lambda>_. now)) (\<lambda>ys. Inr (s1\<lparr>sd_tss := Some ys\<rparr>)))"

definition fuzzy_cast :: "real \<Rightarrow> int" where
  "fuzzy_cast f = (let t = c_trunc f in if f - of_int t \<ge> 1 - 1 / 1000000 then c_trunc (f + 1 / 2) else t)"

definition Bps_to_rate :: "int \<Rightarrow> real \<Rightarrow> int" where
  "Bps_to_rate fn x =
     (if x = 0 then 0
      else if fn = 2 then (let r = fuzzy_cast (ln (x / 5000) / ln 2) in if r \<ge> 1 then r else 0)
      else c_quot (c_trunc x) 10240)"

definition rate_to_Bps :: "int \<Rightarrow> int \<Rightarrow> real" where
  "rate_to_Bps fn rate =
     (if rate = 0 then 0 else if fn = 2 then 2 powr of_int rate * 5000 else of_int (rate * 10240))"

text \<open>The Quick-Start request of the first packet: the rate asked for, and the request.\<close>

definition qs_rate :: "tcp_conf \<Rightarrow> tcp_sender \<Rightarrow> int" where
  "qs_rate c s =
     (if cf_qs_request_mode c = 1 \<and> cf_qs_rtt c > 0 then
        let unsent = sd_curseq s - sd_maxseq s - 1;
            dataout = c_quot (unsent * (cf_size c + headersize c s)) 1024;
            rr = c_quot (dataout * 1000) (cf_qs_rtt c) in
        if unsent < cf_qs_thresh c then 0 else if rr < cf_rate_request c then rr else cf_rate_request c
      else cf_rate_request c)"

definition qs_request :: "tcp_conf \<Rightarrow> tcp_sender \<Rightarrow> tcp_sender \<times> (qs_state \<times> int \<times> int)" where
  "qs_request c s =
     (if qs_rate c s > 0 then
        let ttl = cf_integer c (sd_draws s) in
        (upd_qs (\<lambda>q. q\<lparr>qs_ttl_diff := c_mod (cf_defttl c - ttl) 256, qs_requested := True\<rparr>) (s\<lparr>sd_draws := sd_draws s + 1\<rparr>),
         (QS_REQUEST, ttl, Bps_to_rate (cf_rate_function c) (of_int (qs_rate c s * 1024))))
      else (s, (QS_DISABLE, 0, 0)))"

text \<open>The end of \<open>output\<close>: the packet is sent, noted, and the timer set if need be.\<close>

definition mark_sent :: "real \<Rightarrow> int \<Rightarrow> int \<Rightarrow> tcp_sender \<Rightarrow> tcp_sender" where
  "mark_sent now seqno databytes s =
     (if seqno > sd_maxseq s then
        (if \<not> sd_rtt_active s then
           (if seqno > sd_rtt_seq s
            then s\<lparr>sd_maxseq := seqno, sd_rtt_active := True, sd_rtt_seq := seqno, sd_rtt_ts := now\<rparr>
            else s\<lparr>sd_maxseq := seqno, sd_rtt_active := True\<rparr>)
         else s\<lparr>sd_maxseq := seqno\<rparr>)
      else upd_stats (\<lambda>n. n\<lparr>st_nrexmitpack := st_nrexmitpack n + 1, st_nrexmitbytes := st_nrexmitbytes n + databytes\<rparr>) s)"

definition send_data :: "real \<Rightarrow> int \<Rightarrow> sent_pkt \<Rightarrow> int \<Rightarrow> tcp_sender \<Rightarrow> tcp_sender res" where
  "send_data now seqno p databytes s =
     (let force_timer = (sd_highest_ack s = sd_maxseq s);
          s1 = upd_stats (\<lambda>n. n\<lparr>st_ndatapack := st_ndatapack n + 1, st_ndatabytes := st_ndatabytes n + databytes\<rparr>)
                 (s\<lparr>sd_sent := sd_sent s @ [p]\<rparr>);
          s2 = (if seqno = sd_curseq s1 \<and> seqno > sd_maxseq s1 then s1\<lparr>sd_idle_calls := sd_idle_calls s1 + 1\<rparr> else s1);
          s3 = mark_sent now seqno databytes s2 in
      if sd_rtx s3 = None \<or> force_timer then set_rtx_timer now s3 else Inr s3)"

definition tcp_output :: "tcp_conf \<Rightarrow> real \<Rightarrow> int \<Rightarrow> int \<Rightarrow> tcp_sender \<Rightarrow> tcp_sender res" where
  "tcp_output c now seqno reason s =
     rbind (store_ts c now seqno s) (\<lambda>s1.
       let is_retransmit = seqno < sd_maxseq s1;
           act = sd_cong_action s1 \<and> (\<not> is_retransmit \<or> cf_SetCWRonRetransmit c);
           s2 = (if act then s1\<lparr>sd_cong_action := False\<rparr> else s1);
           p = \<lparr>sp_seqno = seqno, sp_ts = now, sp_ts_echo = sd_ts_peer s2, sp_reason = reason,
                sp_last_rtt = c_trunc (of_int (rt_rtt s2) * rt_tick s2 * 1000), sp_size = cf_size c,
                sp_ect = cf_ecn c, sp_ecnecho = False, sp_cong_action = act, sp_qs = qs_approved (sd_qs s2),
                sp_qs_hdr = (QS_DISABLE, 0, 0)\<rparr> in
       if seqno = 0 then
         let s3 = (if cf_syn c then
                     (if sd_maxseq s2 = -1 then s2\<lparr>sd_curseq := sd_curseq s2 + 1\<rparr> else s2)\<lparr>sd_syn_connects := sd_syn_connects s2 + 1\<rparr>
                   else s2) in
         if cf_syn c \<and> cf_max_connects c > 0 \<and> sd_syn_connects s3 > cf_max_connects c
         then Inr (s3\<lparr>sd_curseq := 0, sd_rtx := Some (now + 10000)\<rparr>)
         else
           let p1 = (if cf_syn c then p\<lparr>sp_size := cf_tcpip_base_hdr_size c\<rparr> else p);
               p2 = (if cf_ecn c then p1\<lparr>sp_ecnecho := True, sp_ect := False\<rparr> else p1);
               (s4, h) = (if cf_qs_enabled c then qs_request c s3 else (s3, (QS_DISABLE, 0, 0))) in
           send_data now seqno (p2\<lparr>sp_qs_hdr := h\<rparr>) (if cf_syn c then 0 else cf_size c) s4
       else
         send_data now seqno (if cf_useHeaders c then p\<lparr>sp_size := cf_size c + headersize c s2\<rparr> else p) (cf_size c) s2)"

text \<open>The packet to send next is sent, and counted by the quiescence option.\<close>

definition send_next :: "tcp_conf \<Rightarrow> real \<Rightarrow> int \<Rightarrow> tcp_sender \<Rightarrow> tcp_sender res" where
  "send_next c now reason s =
     rbind (tcp_output c now (sd_t_seqno s) reason s) (\<lambda>s1.
       rbind (if cf_QOption c then process_qoption_after_send c now s1 else Inr s1) (\<lambda>s2.
         Inr (s2\<lparr>sd_t_seqno := sd_t_seqno s2 + 1\<rparr>)))"

text \<open>
  The loop that sends while the window allows; \<open>n\<close> counts the packets. The delay after an
  approved Quick-Start request divides by the window: for a window of 0 it is infinite in the
  code and 0 here.
\<close>

partial_function (option) send_loop :: "tcp_conf \<Rightarrow> real \<Rightarrow> bool \<Rightarrow> int \<Rightarrow> int \<Rightarrow> int \<Rightarrow> int \<Rightarrow> tcp_sender \<Rightarrow> tcp_sender res option" where
  "send_loop c now force reason maxburst win n s =
     (if sd_t_seqno s \<le> sd_highest_ack s + win \<and> sd_t_seqno s < sd_curseq s then
        if cf_overhead c = 0 \<or> force \<or> qs_approved (sd_qs s) then
          (case send_next c now reason s of
             Inl e \<Rightarrow> Some (Inl e)
           | Inr s1 \<Rightarrow>
               if qs_approved (sd_qs s1) then
                 let delay = of_int (rt_rtt s1) * rt_tick s1 / of_int win in
                 if cf_overhead c \<noteq> 0
                 then Some (Inr (s1\<lparr>sd_delsnd := Some (now + (delay + cf_uniform c (sd_draws s1))), sd_draws := sd_draws s1 + 1\<rparr>))
                 else Some (Inr (s1\<lparr>sd_delsnd := Some (now + delay)\<rparr>))
               else if maxburst \<noteq> 0 \<and> n + 1 = maxburst then Some (Inr s1)
               else send_loop c now force reason maxburst (tcp_window c s1) (n + 1) s1)
        else if sd_delsnd s = None then
          Some (Inr (s\<lparr>sd_delsnd := Some (now + cf_uniform c (sd_draws s)), sd_draws := sd_draws s + 1\<rparr>))
        else if maxburst \<noteq> 0 \<and> n = maxburst then Some (Inr s)
        else send_loop c now force reason maxburst (tcp_window c s) n s
      else Some (Inr s))"

declare send_loop.simps [code]

definition send_much :: "tcp_conf \<Rightarrow> real \<Rightarrow> bool \<Rightarrow> int \<Rightarrow> int \<Rightarrow> tcp_sender \<Rightarrow> tcp_sender res" where
  "send_much c now force reason maxburst s =
     (let win = tcp_window c s in
      if \<not> force \<and> sd_delsnd s \<noteq> None then Inr s
      else
        let s1 = (if sd_t_seqno s = 0 then s\<lparr>sd_firstsent := now\<rparr> else s) in
        if sd_burstsnd s1 \<noteq> None then Inr s1
        else (case send_loop c now force reason maxburst win 0 s1 of None \<Rightarrow> Inl Diverges | Some r \<Rightarrow> r))"

text \<open>What the application hands over: bytes, or packets.\<close>

definition TCP_MAXSEQ :: int where "TCP_MAXSEQ = 2 ^ 30"

definition sendmsg :: "tcp_conf \<Rightarrow> real \<Rightarrow> int \<Rightarrow> tcp_sender \<Rightarrow> tcp_sender res" where
  "sendmsg c now nbytes s =
     rbind
       (if nbytes = -1 \<and> sd_curseq s \<le> TCP_MAXSEQ then Inr (s\<lparr>sd_curseq := TCP_MAXSEQ\<rparr>)
        else rbind (c_div nbytes (cf_size c)) (\<lambda>k.
          Inr (s\<lparr>sd_curseq := sd_curseq s + (k + (if c_mod nbytes (cf_size c) \<noteq> 0 then 1 else 0))\<rparr>)))
       (send_much c now False 0 (cf_maxburst c))"

definition advanceby :: "tcp_conf \<Rightarrow> real \<Rightarrow> int \<Rightarrow> tcp_sender \<Rightarrow> tcp_sender res" where
  "advanceby c now delta s =
     (let s1 = s\<lparr>sd_curseq := sd_curseq s + delta\<rparr> in
      send_much c now False 0 (cf_maxburst c) (if delta > 0 then s1\<lparr>sd_closed := False\<rparr> else s1))"

text \<open>The commands \<open>tcp_send\<close>, \<open>advance\<close> and \<open>persist\<close>.\<close>

definition send_one_packet :: "tcp_conf \<Rightarrow> real \<Rightarrow> tcp_sender \<Rightarrow> tcp_sender res" where
  "send_one_packet c now s = tcp_output c now 0 0 s"

definition advance_to :: "tcp_conf \<Rightarrow> real \<Rightarrow> int \<Rightarrow> tcp_sender \<Rightarrow> tcp_sender res" where
  "advance_to c now newseq s =
     (if newseq > sd_maxseq s then advanceby c now (newseq - sd_curseq s) s
      else advanceby c now (sd_maxseq s - sd_curseq s) s)"

definition persist :: "tcp_sender \<Rightarrow> tcp_sender \<Rightarrow> tcp_sender" where
  "persist other s =
     s\<lparr>sd_awnd := sd_awnd other, sd_ssthresh := sd_ssthresh other, rt_rtt := rt_rtt other, rt_srtt := rt_srtt other,
       rt_rttvar := rt_rttvar other, rt_backoff := rt_backoff other\<rparr>"

text \<open>
  Logarithms and powers have no executable definition: what uses them is left as it is when a
  run is evaluated (HighSpeed TCP, Quick-Start's exponential rates).
\<close>

declare decrease_param_def [code del] and c_pow_def [code del]
declare Bps_to_rate_def [code del] and rate_to_Bps_def [code del]

end
