(* ===== verification/TcpAcks.thy ===== *)
theory TcpAcks
  imports TcpSender
begin

section \<open>Acknowledgements, timeouts and reset of the sender\<close>

text \<open>
  The handlers of \<open>TcpAgent\<close>: \<open>recv\<close> with all its cases, \<open>timeout\<close> with the
  expiries of the three timers, \<open>reset\<close>, and the obsolete \<open>quench\<close> and
  \<open>closecwnd\<close> that other variants may call. Each is the composition of the steps of theory
  \<open>TcpSender\<close> in the order of the code.
\<close>

subsection \<open>New acknowledgements\<close>

text \<open>The backoff ends, unless congestion is still being echoed to a window of one packet.\<close>

definition end_backoff :: "bool \<Rightarrow> tcp_sender \<Rightarrow> tcp_sender" where
  "end_backoff ecnecho s =
     (if \<not> sd_ect s \<or> \<not> sd_ecn_backoff s \<or> \<not> ecnecho then s\<lparr>rt_backoff := 1, sd_ecn_backoff := False\<rparr> else s)"

definition sample_rtt :: "tcp_conf \<Rightarrow> real \<Rightarrow> ack_hdr \<Rightarrow> tcp_sender \<Rightarrow> tcp_sender" where
  "sample_rtt c now ack s =
     (if ah_no_ts ack then s
      else
        let s1 = (if rt_ts_option s then
                    let s' = rtt_update now (now - ah_ts_echo ack) (s\<lparr>sd_ts_echo := ah_ts_echo ack\<rparr>) in
                    if cf_ts_resetRTO c then end_backoff (ah_ecnecho ack) s' else s'
                  else s) in
        if sd_rtt_active s1 \<and> ah_seqno ack \<ge> sd_rtt_seq s1 then
          let s2 = (end_backoff (ah_ecnecho ack) s1)\<lparr>sd_rtt_active := False\<rparr> in
          if \<not> rt_ts_option s2 then rtt_update now (now - sd_rtt_ts s2) s2 else s2
        else s1)"

definition newack :: "tcp_conf \<Rightarrow> real \<Rightarrow> ack_hdr \<Rightarrow> tcp_sender \<Rightarrow> tcp_sender res" where
  "newack c now ack s =
     rbind (if \<not> cf_timerfix c then newtimer now (ah_seqno ack) s else Inr s) (\<lambda>s1.
       let s2 = s1\<lparr>sd_dupacks := 0, sd_last_ack := ah_seqno ack, sd_prev_highest_ack := sd_highest_ack s1,
                   sd_highest_ack := ah_seqno ack\<rparr>;
           s3 = (if sd_t_seqno s2 < sd_last_ack s2 + 1 then s2\<lparr>sd_t_seqno := sd_last_ack s2 + 1\<rparr> else s2) in
       rbind (if cf_timerfix c then newtimer now (ah_seqno ack) (sample_rtt c now ack s3) else Inr (sample_rtt c now ack s3)) (\<lambda>s4.
         Inr (s4\<lparr>sd_awnd := sd_awnd s4 * (1 - cf_wnd_th c) + cf_wnd_th c * sd_cwnd s4\<rparr>)))"

definition tcp_ecn :: "tcp_conf \<Rightarrow> int \<Rightarrow> tcp_sender \<Rightarrow> tcp_sender res" where
  "tcp_ecn c seqno s =
     (if seqno > sd_recover s \<or> sd_last_cwnd_action s = CWND_ACTION_TIMEOUT then
        let s1 = s\<lparr>sd_recover := sd_maxseq s, sd_last_cwnd_action := CWND_ACTION_ECN\<rparr> in
        rbind
          (if sd_cwnd s1 \<le> 1 then (if sd_ecn_backoff s1 then rtt_backoff s1 else Inr (s1\<lparr>sd_ecn_backoff := True\<rparr>))
           else Inr (s1\<lparr>sd_ecn_backoff := False\<rparr>))
          (\<lambda>s2.
            Inr (upd_stats (\<lambda>n. n\<lparr>st_necnresponses := st_necnresponses n + 1\<rparr>)
              (slowdown c (if cf_dctcp c then bits [CLOSE_CWND_DCTCP, CLOSE_SSTHRESH_DCTCP]
                           else bits [CLOSE_CWND_HALF, CLOSE_SSTHRESH_HALF]) s2)))
      else Inr s)"

definition network_limited :: "tcp_conf \<Rightarrow> tcp_sender \<Rightarrow> bool" where
  "network_limited c s \<longleftrightarrow> sd_t_seqno s > sd_prev_highest_ack s + tcp_window c s"

text \<open>All responses to a spurious timeout leave the window as it is.\<close>

definition spurious_timeout :: "tcp_sender \<Rightarrow> tcp_sender" where
  "spurious_timeout s = s\<lparr>sd_frto := 0, sd_ssthresh := sd_pipe_prev s, sd_recover := sd_highest_ack s - 1\<rparr>"

definition note_echo :: "bool \<Rightarrow> tcp_sender \<Rightarrow> tcp_sender" where
  "note_echo echo s =
     (if sd_ect s then
        let s1 = (if \<not> echo then s\<lparr>sd_ecn_backoff := False\<rparr> else s) in
        if \<not> sd_ecn_burst s1 \<and> echo then s1\<lparr>sd_ecn_burst := True\<rparr>
        else if sd_ecn_burst s1 \<and> \<not> echo then s1\<lparr>sd_ecn_burst := False\<rparr> else s1
      else s)"

definition frto_newack :: "tcp_conf \<Rightarrow> tcp_sender \<Rightarrow> tcp_sender" where
  "frto_newack c s =
     (if sd_frto s = 1 then
        if of_int (sd_recover s + 1) \<ge> of_int (sd_highest_ack s) + cf_wnd c \<or> sd_recover s + 1 \<ge> sd_curseq s
        then s\<lparr>sd_frto := 0\<rparr>
        else if sd_highest_ack s = sd_recover s then s\<lparr>sd_frto := 0\<rparr>
        else s\<lparr>sd_t_seqno := sd_recover s + 1, sd_frto := 2\<rparr>
      else if sd_frto s = 2 then spurious_timeout s else s)"

definition recv_newack_helper :: "tcp_conf \<Rightarrow> real \<Rightarrow> ack_hdr \<Rightarrow> tcp_sender \<Rightarrow> tcp_sender res" where
  "recv_newack_helper c now ack s =
     rbind (newack c now ack s) (\<lambda>s1.
       let s2 = (if qs_window (sd_qs s1) \<noteq> 0 \<and> sd_highest_ack s1 \<ge> qs_window (sd_qs s1)
                 then upd_qs (\<lambda>q. q\<lparr>qs_window := 0\<rparr>) s1 else s1);
           s3 = (if (\<not> sd_ect s2 \<or> \<not> ah_ecnecho ack \<or> (cf_old_ecn c \<and> sd_ecn_burst s2)) \<and>
                    (\<not> cf_control_increase c \<or> network_limited c s2)
                 then opencwnd c s2 else s2);
           s4 = note_echo (ah_ecnecho ack) s3;
           s5 = (if \<not> sd_ect s4 \<and> ah_ecnecho ack \<and> \<not> ah_cong_action ack then s4\<lparr>sd_ect := True\<rparr> else s4);
           s6 = (if sd_highest_ack s5 \<ge> sd_curseq s5 - 1 \<and> \<not> sd_closed s5
                 then s5\<lparr>sd_closed := True, sd_finished := sd_finished s5 + 1\<rparr> else s5);
           s7 = (if cf_QOption c \<and> sd_curseq s6 = sd_highest_ack s6 + 1 then cancel_rtx_timer s6 else s6) in
       Inr (frto_newack c s7))"

subsection \<open>Duplicate acknowledgements\<close>

definition send_one :: "tcp_conf \<Rightarrow> real \<Rightarrow> tcp_sender \<Rightarrow> tcp_sender res" where
  "send_one c now s =
     (if of_int (sd_t_seqno s) \<le> of_int (sd_highest_ack s) + cf_wnd c \<and> sd_t_seqno s < sd_curseq s \<and>
         of_int (sd_t_seqno s) \<le> of_int (sd_highest_ack s) + sd_cwnd s + of_int (sd_dupacks s)
      then send_next c now 0 s
      else Inr s)"

definition lossQuickStart :: "tcp_conf \<Rightarrow> real \<Rightarrow> tcp_sender \<Rightarrow> (bool \<times> tcp_sender) res" where
  "lossQuickStart c now s =
     (if qs_window (sd_qs s) \<noteq> 0 \<and> cf_tcp_qs_recovery c then
        rbind (tcp_output c now (sd_last_ack s + 1) TCP_REASON_DUPACK
            (upd_qs (\<lambda>q. q\<lparr>qs_window := 0\<rparr>) (slowdown c (bits [CLOSE_CWND_INIT]) s)))
          (\<lambda>s1. Inr (True, s1))
      else Inr (False, s))"

definition tahoe_action :: "tcp_conf \<Rightarrow> real \<Rightarrow> tcp_sender \<Rightarrow> tcp_sender res" where
  "tahoe_action c now s =
     rbind (lossQuickStart c now (s\<lparr>sd_recover := sd_maxseq s\<rparr>)) (\<lambda>(lost, s1).
       reset_rtx_timer now False False
         (if lost then s1
          else slowdown c (bits [CLOSE_SSTHRESH_HALF, CLOSE_CWND_ONE]) (s1\<lparr>sd_last_cwnd_action := CWND_ACTION_DUPACK\<rparr>)))"

definition dupack_action :: "tcp_conf \<Rightarrow> real \<Rightarrow> tcp_sender \<Rightarrow> tcp_sender res" where
  "dupack_action c now s =
     (if sd_highest_ack s > sd_recover s \<or> (\<not> cf_bug_fix c \<and> \<not> cf_ecn c) \<or> (cf_bugfix_ss c \<and> sd_highest_ack s = 0)
      then tahoe_action c now s
      else if cf_ecn c \<and> sd_last_cwnd_action s = CWND_ACTION_ECN then
        reset_rtx_timer now False False (slowdown c (bits [CLOSE_CWND_ONE]) (s\<lparr>sd_last_cwnd_action := CWND_ACTION_DUPACK\<rparr>))
      else if cf_bug_fix c then Inr s
      else tahoe_action c now s)"

text \<open>A packet lost to a bit error is sent again without a change of the window.\<close>

definition tcp_eln :: "tcp_conf \<Rightarrow> real \<Rightarrow> ack_hdr \<Rightarrow> tcp_sender \<Rightarrow> tcp_sender res" where
  "tcp_eln c now ack s =
     (let s1 = s\<lparr>sd_dupacks := sd_dupacks s + 1\<rparr> in
      if sd_dupacks s1 = cf_eln_rxmit_thresh c \<and> ah_seqno ack > sd_eln_last_rxmit s1 then
        rbind (tcp_output c now (sd_last_ack s1 + 1) TCP_REASON_DUPACK s1)
          (\<lambda>s2. Inr (s2\<lparr>sd_eln_last_rxmit := sd_last_ack s2 + 1\<rparr>))
      else send_much c now False 0 (cf_maxburst c) s1)"

subsection \<open>Reception\<close>

definition endQuickStart :: "tcp_conf \<Rightarrow> tcp_sender \<Rightarrow> tcp_sender res" where
  "endQuickStart c s =
     (let s1 = upd_qs (\<lambda>q. q\<lparr>qs_approved := False, qs_cwnd := 0, qs_window := sd_maxseq s\<rparr>) s;
          new_cwnd = sd_maxseq s1 - sd_last_ack s1 in
      if new_cwnd > 1 \<and> of_int new_cwnd < sd_cwnd s1 then
        rbind (initial_window c s1) (\<lambda>w. Inr (if sd_cwnd s1 < w then s1\<lparr>sd_cwnd := w\<rparr> else s1))
      else Inr s1)"

definition processQuickStart :: "tcp_conf \<Rightarrow> real \<Rightarrow> ack_hdr \<Rightarrow> tcp_sender \<Rightarrow> tcp_sender res" where
  "processQuickStart c now ack s =
     (let s1 = upd_qs (\<lambda>q. q\<lparr>qs_requested := False, qs_approved := False\<rparr>) s in
      case ah_qs_hdr ack of (flag, ttl, rate) \<Rightarrow>
        if flag = QS_RESPONSE \<and> ttl = qs_ttl_diff (sd_qs s1) \<and> rate > 0 then
          let app_rate = c_trunc (rate_to_Bps (cf_rate_function c) rate * (now - ah_ts_echo ack) / of_int (cf_size c + headersize c s1)) in
          rbind (initial_window c s1) (\<lambda>w.
            Inr (if of_int app_rate > w then upd_qs (\<lambda>q. q\<lparr>qs_cwnd := app_rate, qs_approved := True\<rparr>) s1 else s1))
        else Inr s1)"

definition recv_frto_helper :: "ack_hdr \<Rightarrow> tcp_sender \<Rightarrow> tcp_sender" where
  "recv_frto_helper ack s =
     (if ah_seqno ack = sd_last_ack s \<and> sd_frto s \<noteq> 0
      then s\<lparr>sd_t_seqno := sd_highest_ack s + 1, sd_frto := 0, sd_dupacks := -1\<rparr> else s)"

text \<open>The case of \<open>recv\<close> for a duplicate that is no report of a bit error.\<close>

definition recv_dupack :: "tcp_conf \<Rightarrow> real \<Rightarrow> tcp_sender \<Rightarrow> tcp_sender res" where
  "recv_dupack c now s =
     (let s1 = s\<lparr>sd_dupacks := sd_dupacks s + 1\<rparr> in
      if sd_dupacks s1 = cf_numdupacks c \<and> \<not> cf_noFastRetrans c then dupack_action c now s1
      else if sd_dupacks s1 < cf_numdupacks c \<and> cf_singledup c then send_one c now s1
      else Inr s1)"

text \<open>The end of \<open>recv\<close>: more data is sent.\<close>

definition recv_rest :: "tcp_conf \<Rightarrow> real \<Rightarrow> ack_hdr \<Rightarrow> tcp_sender \<Rightarrow> tcp_sender res" where
  "recv_rest c now ack s =
     (let s1 = (if cf_QOption c \<and> cf_EnblRTTCtr c then process_qoption_after_ack c (ah_seqno ack) s else s) in
      if ah_seqno ack \<ge> sd_last_ack s1 \<or> cf_aggressive_maxburst c
      then send_much c now False 0 (cf_maxburst c) s1 else Inr s1)"

definition TcpAgent_recv :: "tcp_conf \<Rightarrow> real \<Rightarrow> ack_hdr \<Rightarrow> tcp_sender \<Rightarrow> tcp_sender res" where
  "TcpAgent_recv c now ack s =
     rbind (if qs_approved (sd_qs s) \<and> ah_seqno ack > sd_last_ack s then endQuickStart c s else Inr s) (\<lambda>s1.
     rbind (if qs_requested (sd_qs s1) then processQuickStart c now ack s1 else Inr s1) (\<lambda>s2.
       if ah_ts ack < sd_lastreset s2 then Inr s2
       else
         let s3 = (upd_stats (\<lambda>n. n\<lparr>st_nackpack := st_nackpack n + 1\<rparr>) s2)\<lparr>sd_ts_peer := ah_ts ack\<rparr> in
         rbind (if ah_ecnecho ack \<and> cf_ecn c then tcp_ecn c (ah_seqno ack) s3 else Inr s3) (\<lambda>s4.
           let s5 = recv_frto_helper ack s4 in
           if ah_seqno ack > sd_last_ack s5 then rbind (recv_newack_helper c now ack s5) (recv_rest c now ack)
           else if ah_seqno ack = sd_last_ack s5 then
             if ah_eln ack \<and> cf_eln c then tcp_eln c now ack s5
             else rbind (recv_dupack c now s5) (recv_rest c now ack)
           else recv_rest c now ack s5)))"

subsection \<open>Timeouts\<close>

definition delsnd_expire :: "tcp_conf \<Rightarrow> real \<Rightarrow> tcp_sender \<Rightarrow> tcp_sender res" where
  "delsnd_expire c now s = send_much c now True TCP_REASON_TIMEOUT (cf_maxburst c) (s\<lparr>sd_delsnd := None\<rparr>)"

text \<open>How a retransmission timeout changes the thresholds.\<close>

definition timeout_slowdown :: "tcp_conf \<Rightarrow> tcp_sender \<Rightarrow> tcp_sender" where
  "timeout_slowdown c s =
     (if sd_highest_ack s = sd_maxseq s \<and> \<not> cf_slow_start_restart c then s
      else
        let s1 = s\<lparr>sd_recover := sd_maxseq s\<rparr>;
            s2 = (if sd_highest_ack s1 = -1 \<and> sd_wnd_init_option s1 = 2 then s1\<lparr>sd_wnd_init_option := 1\<rparr>
                  else if sd_highest_ack s1 = -1 \<and> sd_wnd_init_option s1 = 1 \<and> sd_wnd_init s1 > 1 \<and> cf_bugfix_ss c
                  then s1\<lparr>sd_wnd_init := 1\<rparr> else s1);
            frto = (if cf_frto_enabled c \<or> cf_sfrto_enabled c then 1 else sd_frto s2) in
        if sd_highest_ack s2 = sd_maxseq s2 \<and> cf_restart_bugfix c then
          slowdown c (bits [CLOSE_CWND_ONE, NO_OUTSTANDING_DATA]) s2
        else if sd_highest_ack s2 < sd_recover s2 \<and> sd_last_cwnd_action s2 = CWND_ACTION_ECN then
          (slowdown c (bits [CLOSE_CWND_ONE]) s2)\<lparr>sd_frto := frto\<rparr>
        else
          (slowdown c (bits [CLOSE_SSTHRESH_HALF, CLOSE_CWND_RESTART])
            ((upd_stats (\<lambda>n. n\<lparr>st_nrexmit := st_nrexmit n + 1\<rparr>) s2)\<lparr>sd_last_cwnd_action := CWND_ACTION_TIMEOUT\<rparr>))\<lparr>sd_frto := frto\<rparr>)"

definition rtx_expire :: "tcp_conf \<Rightarrow> real \<Rightarrow> tcp_sender \<Rightarrow> tcp_sender res" where
  "rtx_expire c now s0 =
     (let s = s0\<lparr>sd_rtx := None, sd_frto := 0\<rparr>;
          s1 = s\<lparr>sd_pipe_prev := (if tcp_window c s > sd_ssthresh s then tcp_window c s else sd_ssthresh s)\<rparr>;
          s2 = (if sd_cwnd s1 < 1 then s1\<lparr>sd_cwnd := 1\<rparr> else s1);
          s3 = (if qs_approved (sd_qs s2) then upd_qs (\<lambda>q. q\<lparr>qs_approved := False\<rparr>) s2 else s2);
          s4 = timeout_slowdown c s3 in
      rbind (reset_rtx_timer now False (\<not> (sd_highest_ack s4 = sd_maxseq s4 \<and> cf_restart_bugfix c)) s4) (\<lambda>s5.
        send_much c now False TCP_REASON_TIMEOUT (cf_maxburst c) (s5\<lparr>sd_last_cwnd_action := CWND_ACTION_TIMEOUT\<rparr>)))"

text \<open>The timer of the bursts does nothing when it expires.\<close>

definition burstsnd_expire :: "tcp_sender \<Rightarrow> tcp_sender" where
  "burstsnd_expire s = s\<lparr>sd_burstsnd := None\<rparr>"

subsection \<open>The functions kept for other variants\<close>

definition half_ssthresh :: "tcp_conf \<Rightarrow> tcp_sender \<Rightarrow> int" where
  "half_ssthresh c s = (if c_quot (tcp_window c s) 2 < 2 then 2 else c_quot (tcp_window c s) 2)"

definition closecwnd :: "tcp_conf \<Rightarrow> int \<Rightarrow> tcp_sender \<Rightarrow> tcp_sender res" where
  "closecwnd c how s =
     rbind
       (if how = 0 then Inr (s\<lparr>sd_ssthresh := half_ssthresh c s, sd_cwnd := of_int (c_trunc (sd_wnd_restart s))\<rparr>)
        else if how = 1 then Inr (s\<lparr>sd_ssthresh := (if c_trunc (sd_cwnd s) < 2 then 2 else c_trunc (sd_cwnd s))\<rparr>)
        else if how = 2 \<or> how = 3 then Inr s
        else if how = 4 then Inr (s\<lparr>sd_ssthresh := half_ssthresh c s, sd_cwnd := 1\<rparr>)
        else Inl Aborted)
       (\<lambda>s1. Inr (s1\<lparr>sd_fcnt := 0, sd_count := 0\<rparr>))"

definition quench :: "tcp_conf \<Rightarrow> int \<Rightarrow> tcp_sender \<Rightarrow> tcp_sender res" where
  "quench c how s =
     (if sd_highest_ack s \<ge> sd_recover s
      then closecwnd c how (s\<lparr>sd_recover := sd_maxseq s, sd_last_cwnd_action := CWND_ACTION_ECN\<rparr>)
      else Inr s)"

subsection \<open>Reset\<close>

text \<open>
  \<open>reset\<close> starts the connection anew and gives the window its initial value. Of the parameters
  of HighSpeed TCP those of the decrease are kept; those of the increase are read nowhere.
\<close>

definition reset_qoption :: "real \<Rightarrow> tcp_sender \<Rightarrow> tcp_sender" where
  "reset_qoption now s =
     upd_qo (\<lambda>q. q\<lparr>qo_T_start := tcp_now now s, qo_RTT_count := 0, qo_RTT_prev := 0, qo_RTT_goodcount := 1,
        qo_F_counting := False, qo_W_timed := -1, qo_F_full := False, qo_Backoffs := 0\<rparr>) s"

definition no_stats :: tcp_stats where
  "no_stats = \<lparr>st_ndatapack = 0, st_ndatabytes = 0, st_nackpack = 0, st_nrexmit = 0, st_nrexmitpack = 0,
     st_nrexmitbytes = 0, st_necnresponses = 0, st_ncwndcuts = 0, st_ncwndcuts1 = 0\<rparr>"

definition cancel_timers :: "tcp_sender \<Rightarrow> tcp_sender" where
  "cancel_timers s = s\<lparr>sd_rtx := None, sd_burstsnd := None, sd_delsnd := None\<rparr>"

text \<open>
  The two coefficients of HighSpeed TCP that the sender uses; all five are \<open>hs_reset\<close> of theory
  \<open>HighSpeed\<close>.
\<close>

definition reset_hstcp :: "tcp_conf \<Rightarrow> tcp_sender \<Rightarrow> tcp_sender" where
  "reset_hstcp c s =
     (if cf_wnd_option c = 8 then
        let highLowWin = ln (of_int (cf_high_window c)) - ln (of_int (cf_low_window c)) in
        s\<lparr>sd_dec1 := 1 / 2 - ln (of_int (cf_low_window c)) * (cf_high_decrease c - 1 / 2) / highLowWin,
          sd_dec2 := (cf_high_decrease c - 1 / 2) / highLowWin\<rparr>
      else s)"

definition TcpAgent_reset :: "tcp_conf \<Rightarrow> real \<Rightarrow> tcp_sender \<Rightarrow> tcp_sender res" where
  "TcpAgent_reset c now s =
     rbind (set_initial_window c ((rtt_init s)\<lparr>sd_rtt_seq := -1, sd_dupacks := 0, sd_curseq := 0\<rparr>)) (\<lambda>s1.
       let s2 = s1\<lparr>sd_t_seqno := 0, sd_maxseq := -1, sd_last_ack := -1, sd_highest_ack := -1,
                  sd_ssthresh := (if cf_max_ssthresh c > 0 \<and> cf_max_ssthresh c < c_trunc (cf_wnd c)
                    then cf_max_ssthresh c else c_trunc (cf_wnd c)),
                  sd_wnd_restart := 1, sd_awnd := sd_wnd_init s1 / 2, sd_recover := 0, sd_closed := False, sd_last_cwnd_action := 0,
                  rt_boot_time := cf_boot c (sd_draws s1), sd_draws := sd_draws s1 + 1,
                  sd_first_decrease := True, sd_lastreset := now, sd_stats := no_stats\<rparr>;
           s3 = cancel_timers s2;
           s4 = reset_hstcp c (if cf_control_increase c then s3\<lparr>sd_prev_highest_ack := sd_highest_ack s3\<rparr> else s3) in
       Inr (if cf_QOption c then
              let t = tcp_now now s4; s5 = upd_qo (\<lambda>q. q\<lparr>qo_T_last := t, qo_T_prev := t, qo_W_used := 0\<rparr>) s4 in
              if cf_EnblRTTCtr c then reset_qoption now s5 else s5
            else s4))"

declare reset_hstcp_def [code del]

subsection \<open>The repository's configuration\<close>

text \<open>The values of ns-default.tcl, and a sender before its first reset.\<close>

definition demo_conf :: tcp_conf where
  "demo_conf = \<lparr>cf_wnd = 20, cf_wnd_option = 1, cf_wnd_th = 1 / 500, cf_size = 1000, cf_tcpip_base_hdr_size = 40,
     cf_ts_option_size = 10, cf_useHeaders = True, cf_overhead = 0, cf_maxburst = 0, cf_aggressive_maxburst = True,
     cf_numdupacks = 3, cf_singledup = True, cf_noFastRetrans = False, cf_bug_fix = True, cf_bugfix_ss = True,
     cf_bugfix_ts = False, cf_timerfix = True, cf_ts_resetRTO = False, cf_slow_start_restart = True,
     cf_restart_bugfix = True, cf_precision_reduce = True, cf_l_parameter = 1, cf_low_window = 38,
     cf_high_window = 83000, cf_high_decrease = 1 / 10, cf_max_ssthresh = 0, cf_syn = True, cf_delay_growth = False,
     cf_max_connects = -1, cf_ecn = False, cf_old_ecn = False, cf_SetCWRonRetransmit = True, cf_dctcp = False,
     cf_dctcp_alpha = 0, cf_eln = False, cf_eln_rxmit_thresh = 1, cf_frto_enabled = False, cf_sfrto_enabled = False,
     cf_control_increase = False, cf_QOption = False, cf_EnblRTTCtr = False, cf_qs_enabled = False,
     cf_tcp_qs_recovery = True, cf_qs_request_mode = 1, cf_qs_rtt = 50, cf_qs_thresh = 4, cf_rate_request = 0,
     cf_rate_function = 1, cf_defttl = 32, cf_uniform = (\<lambda>n. 0), cf_integer = (\<lambda>n. 0), cf_boot = (\<lambda>n. 0)\<rparr>"

definition demo_sender :: tcp_sender where
  "demo_sender = tcp_rtt.extend (demo_rtt\<lparr>rt_rtxcur := 3\<rparr>)
     \<lparr>sd_t_seqno = 0, sd_dupacks = 0, sd_curseq = 0, sd_highest_ack = -1, sd_prev_highest_ack = 0, sd_cwnd = 2,
      sd_ssthresh = 20, sd_maxseq = -1, sd_last_ack = -1, sd_recover = 0, sd_last_cwnd_action = 0, sd_count = 0,
      sd_fcnt = 0, sd_awnd = 1, sd_first_decrease = True, sd_decrease_num = 1 / 2, sd_wnd_init = 2, sd_dec1 = 0, sd_dec2 = 0,
      sd_wnd_init_option = 1, sd_wnd_restart = 1, sd_rtt_active = False, sd_rtt_seq = -1, sd_rtt_ts = 0, sd_firstsent = 0, sd_lastreset = 0,
      sd_closed = False, sd_ts_peer = 0, sd_ts_echo = 0, sd_cong_action = False, sd_ecn_burst = False,
      sd_ecn_backoff = False, sd_ect = False, sd_frto = 0, sd_pipe_prev = 0, sd_syn_connects = 0, sd_eln_last_rxmit = 0,
      sd_tss = None, sd_tss_size = 100, sd_stats = no_stats,
      sd_qo = \<lparr>qo_T_last = 0, qo_T_prev = 0, qo_T_start = 0, qo_RTT_count = 0, qo_RTT_prev = 0, qo_RTT_goodcount = 0,
        qo_F_counting = False, qo_W_used = 0, qo_W_timed = 0, qo_F_full = False, qo_Backoffs = 0\<rparr>,
      sd_qs = \<lparr>qs_requested = False, qs_approved = False, qs_cwnd = 0, qs_window = 0, qs_ttl_diff = 0\<rparr>,
      sd_rtx = None, sd_delsnd = None, sd_burstsnd = None, sd_draws = 0, sd_sent = [], sd_finished = 0, sd_idle_calls = 0\<rparr>"

end
