(* ===== verification/SenderWindow.thy ===== *)
theory SenderWindow
  imports TcpAcks
begin

section \<open>The window and the timer of the sender\<close>

text \<open>
  Properties of the sender over every history of acknowledgements, timeouts and data: the
  congestion window is left to the controller, the retransmission timer is pending while data
  is outstanding, and a timeout sends again all that the window holds.
\<close>

subsection \<open>The window belongs to the controller\<close>

text \<open>What the controller sets, and the modes of the sender that could touch it.\<close>

definition ctl :: "tcp_sender \<Rightarrow> real \<times> real \<times> bool \<times> bool" where
  "ctl s = (sd_cwnd s, sd_decrease_num s, qs_requested (sd_qs s), qs_approved (sd_qs s))"

abbreviation tame :: "tcp_sender \<Rightarrow> bool" where
  "tame s \<equiv> snd (ctl s) = (1 / 2, False, False)"

definition plain :: "tcp_conf \<Rightarrow> bool" where
  "plain c \<longleftrightarrow> cf_wnd_option c \<noteq> 8 \<and> \<not> cf_qs_enabled c"

lemma ctl_stats [simp]: "ctl (upd_stats f s) = ctl s"
  by (simp add: ctl_def upd_stats_def)

lemma ctl_qo [simp]: "ctl (upd_qo f s) = ctl s"
  by (simp add: ctl_def upd_qo_def)

lemma ctl_qs_window [simp]: "ctl (upd_qs (\<lambda>q. q\<lparr>qs_window := x\<rparr>) s) = ctl s"
  by (simp add: ctl_def upd_qs_def)

lemma close_windows_decrease: "plain c \<Longrightarrow> fst (snd (close_windows c s)) = sd_decrease_num s"
  by (simp add: close_windows_def Let_def plain_def)

lemma close_ssthresh_ctl [simp]: "ctl (close_ssthresh c how b x y s) = ctl s"
  by (simp add: close_ssthresh_def ctl_def)

lemma close_cwnd_ctl: "tame s \<Longrightarrow> close_cwnd how b x s = s"
  by (simp add: close_cwnd_def ctl_def)

lemma slowdown_ctl:
  assumes "plain c" and "tame s"
  shows "ctl (slowdown c how s) = ctl s"
proof -
  define s1 where "s1 = upd_stats (\<lambda>n. n\<lparr>st_ncwndcuts := st_ncwndcuts n + 1,
            st_ncwndcuts1 := st_ncwndcuts1 n + (if \<not> has TCP_IDLE how \<and> \<not> has NO_OUTSTANDING_DATA how then 1 else 0)\<rparr>) s"
  have s1: "ctl s1 = ctl s" by (simp add: s1_def)
  obtain hw dn dw where w: "close_windows c s1 = (hw, dn, dw)" by (metis surj_pair)
  have "dn = sd_decrease_num s1" using close_windows_decrease [OF assms(1), of s1] w by simp
  then have c: "ctl (s1\<lparr>sd_decrease_num := dn\<rparr>) = ctl s" using s1 by (simp add: ctl_def)
  let ?b = "sd_cwnd s1 < of_int (sd_ssthresh s1)"
  have c2: "ctl (close_ssthresh c how ?b hw dw (s1\<lparr>sd_decrease_num := dn\<rparr>)) = ctl s" using c by simp
  then have c3: "close_cwnd how ?b dw (close_ssthresh c how ?b hw dw (s1\<lparr>sd_decrease_num := dn\<rparr>)) =
      close_ssthresh c how ?b hw dw (s1\<lparr>sd_decrease_num := dn\<rparr>)"
    using assms(2) by (intro close_cwnd_ctl) simp
  have f: "ctl (if q then t\<lparr>sd_ssthresh := 2\<rparr> else t) = ctl t" "ctl (if q then t\<lparr>sd_cong_action := True\<rparr> else t) = ctl t"
    "ctl (t\<lparr>sd_fcnt := 0, sd_count := 0, sd_first_decrease := False\<rparr>) = ctl t" for q t
    by (simp_all add: ctl_def)
  show ?thesis
    unfolding slowdown_def Let_def s1_def [symmetric] w split c3 f by (rule c2)
qed

lemma repeat_slowdown_ctl:
  assumes "plain c" and "tame s"
  shows "ctl (repeat_slowdown c n how s) = ctl s"
proof -
  have "ctl ((slowdown c how ^^ k) s) = ctl s" for k
    by (induction k) (use assms slowdown_ctl in simp_all)
  then show ?thesis by (simp add: repeat_slowdown_def)
qed

lemma rtt_timeout_ctl: "rtt_timeout s = Inr (t, s') \<Longrightarrow> ctl s' = ctl s"
  by (auto simp: ctl_def dest!: rtt_timeout_same)

lemma rtt_backoff_ctl: "rtt_backoff s = Inr s' \<Longrightarrow> ctl s' = ctl s"
  by (auto simp: rtt_backoff_def rbind_eq_Inr Let_def ctl_def dest!: rtt_timeout_same split: if_splits)

lemma rtt_update_ctl [simp]: "ctl (rtt_update now tao s) = ctl s"
  by (simp add: rtt_update_def set_rtxcur_def smooth_def Let_def ctl_def)

lemma set_rtx_timer_ctl: "set_rtx_timer now s = Inr s' \<Longrightarrow> ctl s' = ctl s"
  by (auto simp: set_rtx_timer_def rbind_eq_Inr ctl_def dest!: rtt_timeout_same)

lemma reset_rtx_timer_ctl:
  assumes "reset_rtx_timer now mild backoff s = Inr s'"
  shows "ctl s' = ctl s"
proof -
  obtain s1 s2 where "(if backoff then rtt_backoff s else Inr s) = Inr s1" "set_rtx_timer now s1 = Inr s2"
    "s' = (if mild then s2 else s2\<lparr>sd_t_seqno := sd_highest_ack s2 + 1\<rparr>)\<lparr>sd_rtt_active := False\<rparr>"
    using assms by (auto simp: reset_rtx_timer_def rbind_eq_Inr)
  moreover have "ctl s1 = ctl s" using calculation(1) rtt_backoff_ctl by (auto split: if_splits)
  moreover have "ctl s2 = ctl s1" using calculation(2) set_rtx_timer_ctl by blast
  ultimately show ?thesis by (auto simp: ctl_def split: if_splits)
qed

lemma newtimer_ctl: "newtimer now seqno s = Inr s' \<Longrightarrow> ctl s' = ctl s"
  using set_rtx_timer_ctl by (auto simp: newtimer_def cancel_rtx_timer_def ctl_def split: if_splits)

lemma rtt_idle_ctl: "plain c \<Longrightarrow> tame s \<Longrightarrow> ctl (rtt_idle c t r s) = ctl s"
  by (simp add: rtt_idle_def Let_def slowdown_ctl repeat_slowdown_ctl)

lemma rtt_round_ctl [simp]: "ctl (rtt_round t r s) = ctl s"
  by (simp add: rtt_round_def)

lemma rtt_limited_ctl: "plain c \<Longrightarrow> tame s \<Longrightarrow> ctl (rtt_limited c s) = ctl s"
  by (simp add: rtt_limited_def Let_def slowdown_ctl)

lemma rtt_counting_ctl: "plain c \<Longrightarrow> tame s \<Longrightarrow> ctl (rtt_counting c now s) = ctl s"
  unfolding rtt_counting_def Let_def by (simp add: rtt_idle_ctl rtt_limited_ctl)

lemma qoption_idle_ctl: "qoption_idle c t r s = Inr s' \<Longrightarrow> plain c \<Longrightarrow> tame s \<Longrightarrow> ctl s' = ctl s"
  by (auto simp: qoption_idle_def rbind_eq_Inr slowdown_ctl repeat_slowdown_ctl split: if_splits)

lemma qoption_limited_ctl: "plain c \<Longrightarrow> tame s \<Longrightarrow> ctl (qoption_limited c t r s) = ctl s"
  by (simp add: qoption_limited_def Let_def slowdown_ctl)

lemma qoption_send_ctl:
  assumes "process_qoption_after_send c now s = Inr s'" "plain c" "tame s"
  shows "ctl s' = ctl s"
proof (cases "cf_EnblRTTCtr c")
  case True
  then show ?thesis using assms by (auto simp: process_qoption_after_send_def Let_def rtt_counting_ctl)
next
  case False
  then obtain s1 where s1: "qoption_idle c (tcp_now now s) (c_trunc (rt_rtxcur s / rt_tick s)) s = Inr s1"
    "s' = qoption_limited c (tcp_now now s) (c_trunc (rt_rtxcur s / rt_tick s)) (upd_qo (\<lambda>q. q\<lparr>qo_T_last := tcp_now now s\<rparr>) s1)"
    using assms(1) by (auto simp: process_qoption_after_send_def Let_def rbind_eq_Inr)
  have "ctl s1 = ctl s" by (rule qoption_idle_ctl [OF s1(1) assms(2,3)])
  then show ?thesis using s1(2) assms(2,3) by (simp add: qoption_limited_ctl)
qed

lemma qoption_ack_ctl [simp]: "ctl (process_qoption_after_ack c seqno s) = ctl s"
  by (simp add: process_qoption_after_ack_def)

text \<open>Sending keeps the acknowledgement and leaves the timer pending.\<close>

definition no_tss :: "tcp_sender \<Rightarrow> tcp_sender" where
  "no_tss s = s\<lparr>sd_tss := None, sd_tss_size := 0\<rparr>"

lemma store_ts_frame:
  assumes "store_ts c now seqno s = Inr s'"
  shows "no_tss s' = no_tss s"
proof -
  obtain s1 where s1: "resize_tss c seqno (make_tss c s) = Inr s1" and s': "s' = s1 \<or> (\<exists>a. s' = s1\<lparr>sd_tss := a\<rparr>)"
    using assms by (auto simp: store_ts_def rbind_eq_Inr split: option.splits)
  have "no_tss s' = no_tss s1" using s' by (auto simp: no_tss_def)
  moreover have "no_tss s1 = no_tss (make_tss c s)"
    using s1 by (auto simp: resize_tss_def rbind_eq_Inr no_tss_def split: option.splits if_splits)
  moreover have "no_tss (make_tss c s) = no_tss s" by (simp add: make_tss_def no_tss_def)
  ultimately show ?thesis by simp
qed

lemma no_tss_fields:
  assumes "no_tss s' = no_tss s"
  shows "ctl s' = ctl s" and "sd_highest_ack s' = sd_highest_ack s" and "sd_rtx s' = sd_rtx s"
  using arg_cong [OF assms, of ctl] arg_cong [OF assms, of sd_highest_ack] arg_cong [OF assms, of sd_rtx]
  by (simp_all add: no_tss_def ctl_def)

lemma qs_request_ack: "sd_highest_ack (fst (qs_request c s)) = sd_highest_ack s"
  by (simp add: qs_request_def upd_qs_def Let_def)

lemma set_rtx_timer_Inr:
  "set_rtx_timer now s = Inr s' \<Longrightarrow> \<exists>t. s' = s\<lparr>rt_use_rtt := False, sd_rtx := Some t\<rparr>"
  by (auto simp: set_rtx_timer_def rbind_eq_Inr dest!: rtt_timeout_same)

lemma mark_sent_ctl [simp]: "ctl (mark_sent now seqno n s) = ctl s"
  by (simp add: mark_sent_def ctl_def upd_stats_def)

lemma mark_sent_ack [simp]: "sd_highest_ack (mark_sent now seqno n s) = sd_highest_ack s"
  by (simp add: mark_sent_def upd_stats_def)

text \<open>\<open>send_data\<close> up to the timer.\<close>

lemma send_data_Inr:
  assumes "send_data now seqno p n s = Inr s'"
  shows "\<exists>s3. ctl s3 = ctl s \<and> sd_highest_ack s3 = sd_highest_ack s \<and>
    (s' = s3 \<and> sd_rtx s3 \<noteq> None \<or> (\<exists>t. s' = s3\<lparr>rt_use_rtt := False, sd_rtx := Some t\<rparr>))"
proof -
  define s1 where "s1 = upd_stats (\<lambda>n'. n'\<lparr>st_ndatapack := st_ndatapack n' + 1, st_ndatabytes := st_ndatabytes n' + n\<rparr>)
                 (s\<lparr>sd_sent := sd_sent s @ [p]\<rparr>)"
  define s2 where "s2 = (if seqno = sd_curseq s1 \<and> seqno > sd_maxseq s1 then s1\<lparr>sd_idle_calls := sd_idle_calls s1 + 1\<rparr> else s1)"
  define s3 where "s3 = mark_sent now seqno n s2"
  have "ctl s1 = ctl s" "sd_highest_ack s1 = sd_highest_ack s" by (simp_all add: s1_def upd_stats_def ctl_def)
  moreover have "ctl s2 = ctl s1" "sd_highest_ack s2 = sd_highest_ack s1" by (simp_all add: s2_def ctl_def)
  ultimately have "ctl s3 = ctl s" "sd_highest_ack s3 = sd_highest_ack s" by (simp_all add: s3_def)
  moreover have "(if sd_rtx s3 = None \<or> sd_highest_ack s = sd_maxseq s then set_rtx_timer now s3 else Inr s3) = Inr s'"
    using assms unfolding send_data_def Let_def s1_def [symmetric] s2_def [symmetric] s3_def [symmetric] .
  ultimately show ?thesis using set_rtx_timer_Inr [of now s3 s'] by (intro exI [of _ s3]) (auto split: if_splits)
qed

lemma send_data_keeps:
  assumes "send_data now seqno p n s = Inr s'"
  shows "ctl s' = ctl s" and "sd_highest_ack s' = sd_highest_ack s" and "sd_rtx s' \<noteq> None"
  using send_data_Inr [OF assms] by (auto simp: ctl_def)

text \<open>\<open>output\<close> is \<open>send_data\<close> after some preparation, or gives the connection up.\<close>

lemma tcp_output_cases:
  assumes "tcp_output c now seqno reason s = Inr s'"
  shows "(\<exists>s1 p n. send_data now seqno p n s1 = Inr s' \<and> sd_highest_ack s1 = sd_highest_ack s \<and>
       (\<not> cf_qs_enabled c \<longrightarrow> ctl s1 = ctl s)) \<or>
     (sd_rtx s' \<noteq> None \<and> sd_highest_ack s' = sd_highest_ack s \<and> ctl s' = ctl s)"
proof -
  obtain s1 where s1: "store_ts c now seqno s = Inr s1" using assms by (auto simp: tcp_output_def rbind_eq_Inr)
  then have k1: "ctl s1 = ctl s" "sd_highest_ack s1 = sd_highest_ack s" using no_tss_fields [OF store_ts_frame [OF s1]] by simp_all
  define s2 where "s2 = (if sd_cong_action s1 \<and> (\<not> seqno < sd_maxseq s1 \<or> cf_SetCWRonRetransmit c)
    then s1\<lparr>sd_cong_action := False\<rparr> else s1)"
  have k2: "ctl s2 = ctl s" "sd_highest_ack s2 = sd_highest_ack s" using k1 by (simp_all add: s2_def ctl_def)
  define s3 where "s3 = (if cf_syn c then
      (if sd_maxseq s2 = -1 then s2\<lparr>sd_curseq := sd_curseq s2 + 1\<rparr> else s2)\<lparr>sd_syn_connects := sd_syn_connects s2 + 1\<rparr> else s2)"
  have k3: "ctl s3 = ctl s" "sd_highest_ack s3 = sd_highest_ack s" using k2 by (simp_all add: s3_def ctl_def)
  obtain s4 h where s4: "(if cf_qs_enabled c then qs_request c s3 else (s3, (QS_DISABLE, 0, 0))) = (s4, h)" by (metis surj_pair)
  have k4: "sd_highest_ack s4 = sd_highest_ack s" "\<not> cf_qs_enabled c \<longrightarrow> ctl s4 = ctl s"
    using s4 k3 qs_request_ack [of c s3] by (auto split: if_splits)
  note out = assms [unfolded tcp_output_def s1 rbind_Inr Let_def s2_def [symmetric] s3_def [symmetric]]
  show ?thesis
  proof (cases "seqno = 0")
    case False
    then show ?thesis using out k2 by auto
  next
    case True
    show ?thesis
    proof (cases "cf_syn c \<and> cf_max_connects c > 0 \<and> sd_syn_connects s3 > cf_max_connects c")
      case abort: True
      then have "s' = s3\<lparr>sd_curseq := 0, sd_rtx := Some (now + 10000)\<rparr>" using out True by simp
      then show ?thesis using k3 by (simp add: ctl_def)
    next
      case no: False
      from out [unfolded if_P [OF True] if_not_P [OF no] s4 prod.case] show ?thesis using k4 by blast
    qed
  qed
qed

lemma tcp_output_keeps:
  assumes "tcp_output c now seqno reason s = Inr s'"
  shows "\<not> cf_qs_enabled c \<Longrightarrow> ctl s' = ctl s" and "sd_highest_ack s' = sd_highest_ack s" and "sd_rtx s' \<noteq> None"
  using tcp_output_cases [OF assms] send_data_keeps by (metis+)

subsection \<open>The timer is pending while data is outstanding\<close>

definition seqs :: "tcp_sender \<Rightarrow> int \<times> int \<times> real option" where
  "seqs s = (sd_highest_ack s, sd_maxseq s, sd_rtx s)"

definition armed :: "tcp_sender \<Rightarrow> bool" where
  "armed s \<longleftrightarrow> (sd_highest_ack s < sd_maxseq s \<longrightarrow> sd_rtx s \<noteq> None)"

text \<open>What every operation keeps: the window, and the timer.\<close>

definition keeps :: "tcp_conf \<Rightarrow> tcp_sender \<Rightarrow> tcp_sender \<Rightarrow> bool" where
  "keeps c s s' \<longleftrightarrow> (plain c \<longrightarrow> tame s \<longrightarrow> ctl s' = ctl s) \<and>
     (\<not> cf_QOption c \<longrightarrow> armed s \<longrightarrow> armed s')"

lemma keeps_refl [simp]: "keeps c s s"
  by (simp add: keeps_def)

lemma keeps_trans: "keeps c s t \<Longrightarrow> keeps c t u \<Longrightarrow> keeps c s u"
  by (auto simp: keeps_def)

lemma keeps_quiet: "seqs s' = seqs s \<Longrightarrow> (plain c \<Longrightarrow> tame s \<Longrightarrow> ctl s' = ctl s) \<Longrightarrow> keeps c s s'"
  by (auto simp: keeps_def armed_def seqs_def)

lemma keeps_set: "sd_rtx s' \<noteq> None \<Longrightarrow> (plain c \<Longrightarrow> tame s \<Longrightarrow> ctl s' = ctl s) \<Longrightarrow> keeps c s s'"
  by (auto simp: keeps_def armed_def)

lemma seqs_stats [simp]: "seqs (upd_stats f s) = seqs s"
  by (simp add: seqs_def upd_stats_def)

lemma seqs_qo [simp]: "seqs (upd_qo f s) = seqs s"
  by (simp add: seqs_def upd_qo_def)

lemma seqs_qs [simp]: "seqs (upd_qs f s) = seqs s"
  by (simp add: seqs_def upd_qs_def)

lemma close_seqs [simp]:
  "seqs (close_ssthresh c how b x y s) = seqs s" "seqs (close_cwnd how b x s) = seqs s"
  by (simp_all add: close_ssthresh_def close_cwnd_def seqs_def)

lemma slowdown_seqs [simp]: "seqs (slowdown c how s) = seqs s"
proof -
  define s1 where "s1 = upd_stats (\<lambda>n. n\<lparr>st_ncwndcuts := st_ncwndcuts n + 1,
            st_ncwndcuts1 := st_ncwndcuts1 n + (if \<not> has TCP_IDLE how \<and> \<not> has NO_OUTSTANDING_DATA how then 1 else 0)\<rparr>) s"
  obtain hw dn dw where w: "close_windows c s1 = (hw, dn, dw)" by (metis surj_pair)
  have f: "seqs (if q then t\<lparr>sd_ssthresh := 2\<rparr> else t) = seqs t" "seqs (if q then t\<lparr>sd_cong_action := True\<rparr> else t) = seqs t"
    "seqs (t\<lparr>sd_fcnt := 0, sd_count := 0, sd_first_decrease := False\<rparr>) = seqs t" "seqs (t\<lparr>sd_decrease_num := dn\<rparr>) = seqs t" for q t
    by (simp_all add: seqs_def)
  show ?thesis unfolding slowdown_def Let_def s1_def [symmetric] w prod.case f close_seqs by (simp add: s1_def)
qed

lemma repeat_slowdown_seqs [simp]: "seqs (repeat_slowdown c n how s) = seqs s"
proof -
  have "seqs ((slowdown c how ^^ k) s) = seqs s" for k by (induction k) simp_all
  then show ?thesis by (simp add: repeat_slowdown_def)
qed

lemma slowdown_keeps: "keeps c s (slowdown c how s)"
  by (intro keeps_quiet slowdown_seqs slowdown_ctl)

lemma rtt_steps_seqs [simp]:
  "seqs (rtt_idle c t r s) = seqs s" "seqs (rtt_round t r s) = seqs s" "seqs (rtt_limited c s) = seqs s"
  "seqs (qoption_limited c t r s) = seqs s"
  by (simp_all add: rtt_idle_def rtt_round_def rtt_limited_def qoption_limited_def Let_def)

lemma qoption_send_keeps:
  assumes "process_qoption_after_send c now s = Inr s'"
  shows "keeps c s s'"
proof (rule keeps_quiet)
  show "seqs s' = seqs s"
    using assms unfolding process_qoption_after_send_def rtt_counting_def Let_def
    by (auto simp: qoption_idle_def rbind_eq_Inr split: if_splits)
  show "ctl s' = ctl s" if "plain c" "tame s" by (rule qoption_send_ctl [OF assms that])
qed

lemma qoption_ack_keeps: "keeps c s (process_qoption_after_ack c seqno s)"
  by (rule keeps_quiet) (simp_all add: process_qoption_after_ack_def)

lemma tcp_output_keep: "tcp_output c now seqno reason s = Inr s' \<Longrightarrow> keeps c s s'"
  using tcp_output_keeps by (intro keeps_set) (auto simp: plain_def)

lemma set_rtx_timer_keeps: "set_rtx_timer now s = Inr s' \<Longrightarrow> keeps c s s' \<and> sd_rtx s' \<noteq> None"
  using set_rtx_timer_ctl by (auto dest!: set_rtx_timer_Inr intro!: keeps_set simp: ctl_def)

lemma reset_rtx_timer_keeps:
  assumes "reset_rtx_timer now mild backoff s = Inr s'"
  shows "keeps c s s' \<and> sd_rtx s' \<noteq> None"
proof -
  obtain s1 s2 where "set_rtx_timer now s1 = Inr s2"
    "s' = (if mild then s2 else s2\<lparr>sd_t_seqno := sd_highest_ack s2 + 1\<rparr>)\<lparr>sd_rtt_active := False\<rparr>"
    using assms by (auto simp: reset_rtx_timer_def rbind_eq_Inr)
  then have "sd_rtx s' \<noteq> None" by (auto dest!: set_rtx_timer_Inr split: if_splits)
  then show ?thesis using keeps_set reset_rtx_timer_ctl [OF assms] by blast
qed

lemma send_next_keeps:
  assumes "send_next c now reason s = Inr s'"
  shows "keeps c s s'"
proof -
  obtain s1 s2 where "tcp_output c now (sd_t_seqno s) reason s = Inr s1"
    "(if cf_QOption c then process_qoption_after_send c now s1 else Inr s1) = Inr s2" "s' = s2\<lparr>sd_t_seqno := sd_t_seqno s2 + 1\<rparr>"
    using assms by (auto simp: send_next_def rbind_eq_Inr)
  moreover have "keeps c s s1" using calculation(1) by (rule tcp_output_keep)
  moreover have "keeps c s1 s2" using calculation(2) qoption_send_keeps by (auto split: if_splits)
  moreover have "keeps c s2 s'" using calculation(3) by (intro keeps_quiet) (simp_all add: seqs_def ctl_def)
  ultimately show ?thesis using keeps_trans by blast
qed

lemma send_loop_keeps:
  assumes "send_loop c now force reason maxburst win n s = Some r"
  shows "\<forall>s'. r = Inr s' \<longrightarrow> keeps c s s'"
proof (rule send_loop.raw_induct [OF _ assms, where P = "\<lambda>c now force reason maxburst win n s r. \<forall>s'. r = Inr s' \<longrightarrow> keeps c s s'"], goal_cases)
  case (1 rec c now force reason maxburst win n s r)
  have d: "keeps c t (t\<lparr>sd_delsnd := x\<rparr>)" "keeps c t (t\<lparr>sd_delsnd := x, sd_draws := k\<rparr>)" for t x k
    by (auto intro!: keeps_quiet simp: seqs_def ctl_def)
  show ?case
  proof (intro allI impI)
    fix s' assume r: "r = Inr s'"
    show "keeps c s s'"
    proof (cases "send_next c now reason s")
      case (Inl e)
      then show ?thesis using 1(2) r d 1(1) by (auto simp: Let_def split: if_splits)
    next
      case (Inr s1)
      have k: "keeps c s s1" by (rule send_next_keeps [OF Inr])
      then show ?thesis using 1(2) r d Inr 1(1) keeps_trans [OF k]
        by (auto simp: Let_def split: if_splits)
    qed
  qed
qed

lemma send_much_keeps:
  assumes "send_much c now force reason maxburst s = Inr s'"
  shows "keeps c s s'"
proof -
  define s1 where "s1 = (if sd_t_seqno s = 0 then s\<lparr>sd_firstsent := now\<rparr> else s)"
  have "keeps c s s1" by (intro keeps_quiet) (simp_all add: s1_def seqs_def ctl_def)
  moreover have "s' = s \<or> s' = s1 \<or> send_loop c now force reason maxburst (tcp_window c s) 0 s1 = Some (Inr s')"
    using assms unfolding send_much_def Let_def s1_def [symmetric] by (auto split: if_splits option.splits)
  moreover have "keeps c s1 s'" if "send_loop c now force reason maxburst (tcp_window c s) 0 s1 = Some (Inr s')"
    using send_loop_keeps [OF that] by simp
  ultimately show ?thesis using keeps_trans keeps_refl by blast
qed

lemma delsnd_expire_keeps: "delsnd_expire c now s = Inr s' \<Longrightarrow> keeps c s s'"
proof -
  assume "delsnd_expire c now s = Inr s'"
  then have "keeps c (s\<lparr>sd_delsnd := None\<rparr>) s'" by (simp add: delsnd_expire_def send_much_keeps)
  moreover have "keeps c s (s\<lparr>sd_delsnd := None\<rparr>)" by (rule keeps_quiet) (simp_all add: seqs_def ctl_def)
  ultimately show ?thesis using keeps_trans by blast
qed

lemma end_backoff_quiet [simp]: "ctl (end_backoff e s) = ctl s" "seqs (end_backoff e s) = seqs s"
  by (simp_all add: end_backoff_def ctl_def seqs_def)

lemma rtt_update_seqs [simp]: "seqs (rtt_update now tao s) = seqs s"
  by (simp add: rtt_update_def set_rtxcur_def smooth_def Let_def seqs_def)

lemma sample_rtt_quiet [simp]: "ctl (sample_rtt c now ack s) = ctl s" "seqs (sample_rtt c now ack s) = seqs s"
proof -
  define s1 where "s1 = (if rt_ts_option s then
      let s' = rtt_update now (now - ah_ts_echo ack) (s\<lparr>sd_ts_echo := ah_ts_echo ack\<rparr>) in
      if cf_ts_resetRTO c then end_backoff (ah_ecnecho ack) s' else s' else s)"
  have e: "ctl (s\<lparr>sd_ts_echo := t\<rparr>) = ctl s" "seqs (s\<lparr>sd_ts_echo := t\<rparr>) = seqs s"
    "ctl (r\<lparr>sd_rtt_active := b\<rparr>) = ctl r" "seqs (r\<lparr>sd_rtt_active := b\<rparr>) = seqs r" for t r b
    by (simp_all add: ctl_def seqs_def)
  have s1: "ctl s1 = ctl s" "seqs s1 = seqs s" by (simp_all add: s1_def Let_def e)
  show "ctl (sample_rtt c now ack s) = ctl s" "seqs (sample_rtt c now ack s) = seqs s"
    unfolding sample_rtt_def s1_def [symmetric] Let_def by (simp_all add: s1 e)
qed

text \<open>A new acknowledgement stops the timer only when nothing is outstanding.\<close>

lemma newtimer_armed:
  assumes "newtimer now seqno s = Inr s'"
  shows "sd_rtx s' \<noteq> None \<or> sd_maxseq s \<le> seqno" and "sd_maxseq s' = sd_maxseq s" and "sd_highest_ack s' = sd_highest_ack s"
  using assms by (auto simp: newtimer_def cancel_rtx_timer_def dest!: set_rtx_timer_Inr split: if_splits)

lemma newack_keeps:
  assumes "newack c now ack s = Inr s'"
  shows "armed s' \<and> ctl s' = ctl s"
proof -
  obtain s1 where s1: "(if \<not> cf_timerfix c then newtimer now (ah_seqno ack) s else Inr s) = Inr s1"
    using assms by (auto simp: newack_def rbind_eq_Inr Let_def)
  define s2 where "s2 = s1\<lparr>sd_dupacks := 0, sd_last_ack := ah_seqno ack, sd_prev_highest_ack := sd_highest_ack s1,
                   sd_highest_ack := ah_seqno ack\<rparr>"
  define s3 where "s3 = sample_rtt c now ack (if sd_t_seqno s2 < sd_last_ack s2 + 1 then s2\<lparr>sd_t_seqno := sd_last_ack s2 + 1\<rparr> else s2)"
  have "seqs s3 = seqs (if sd_t_seqno s2 < sd_last_ack s2 + 1 then s2\<lparr>sd_t_seqno := sd_last_ack s2 + 1\<rparr> else s2)" by (simp add: s3_def)
  then have q3: "sd_highest_ack s3 = ah_seqno ack" "sd_maxseq s3 = sd_maxseq s1" "sd_rtx s3 = sd_rtx s1"
    by (simp_all add: seqs_def s2_def split: if_splits)
  have "ctl s3 = ctl (if sd_t_seqno s2 < sd_last_ack s2 + 1 then s2\<lparr>sd_t_seqno := sd_last_ack s2 + 1\<rparr> else s2)"
    by (simp only: s3_def sample_rtt_quiet)
  then have "ctl s3 = ctl s1" by (simp add: s2_def ctl_def split: if_splits)
  moreover have "ctl s1 = ctl s" using s1 newtimer_ctl by (auto split: if_splits)
  ultimately have c3: "ctl s3 = ctl s" by simp
  obtain s4 where s4: "(if cf_timerfix c then newtimer now (ah_seqno ack) s3 else Inr s3) = Inr s4"
    and s': "s' = s4\<lparr>sd_awnd := sd_awnd s4 * (1 - cf_wnd_th c) + cf_wnd_th c * sd_cwnd s4\<rparr>"
    using assms unfolding newack_def s1 rbind_Inr Let_def s2_def [symmetric] s3_def [symmetric]
    by (auto simp: rbind_eq_Inr)
  have "armed s4"
  proof (cases "cf_timerfix c")
    case True
    then have "newtimer now (ah_seqno ack) s3 = Inr s4" using s4 by simp
    from newtimer_armed [OF this] show ?thesis using q3 by (auto simp: armed_def)
  next
    case False
    then have "newtimer now (ah_seqno ack) s = Inr s1" "s4 = s3" using s1 s4 by auto
    from newtimer_armed [OF this(1)] show ?thesis using q3 \<open>s4 = s3\<close> by (auto simp: armed_def)
  qed
  moreover have "ctl s4 = ctl s3" using s4 newtimer_ctl by (auto split: if_splits)
  ultimately show ?thesis using c3 by (simp add: s' armed_def ctl_def)
qed

lemma frto_newack_quiet [simp]: "ctl (frto_newack c s) = ctl s" "seqs (frto_newack c s) = seqs s"
  by (simp_all add: frto_newack_def spurious_timeout_def ctl_def seqs_def)

lemma note_echo_quiet [simp]: "ctl (note_echo e s) = ctl s" "seqs (note_echo e s) = seqs s"
  by (simp_all add: note_echo_def ctl_def seqs_def Let_def)

lemma recv_newack_helper_keeps:
  assumes "recv_newack_helper c now ack s = Inr s'"
  shows "keeps c s s'"
proof -
  obtain s1 where s1: "newack c now ack s = Inr s1" using assms by (auto simp: recv_newack_helper_def rbind_eq_Inr)
  define s2 where "s2 = (if qs_window (sd_qs s1) \<noteq> 0 \<and> sd_highest_ack s1 \<ge> qs_window (sd_qs s1)
                 then upd_qs (\<lambda>q. q\<lparr>qs_window := 0\<rparr>) s1 else s1)"
  define s4 where "s4 = note_echo (ah_ecnecho ack) s2"
  define s5 where "s5 = (if \<not> sd_ect s4 \<and> ah_ecnecho ack \<and> \<not> ah_cong_action ack then s4\<lparr>sd_ect := True\<rparr> else s4)"
  define s6 where "s6 = (if sd_highest_ack s5 \<ge> sd_curseq s5 - 1 \<and> \<not> sd_closed s5
                 then s5\<lparr>sd_closed := True, sd_finished := sd_finished s5 + 1\<rparr> else s5)"
  define s7 where "s7 = (if cf_QOption c \<and> sd_curseq s6 = sd_highest_ack s6 + 1 then cancel_rtx_timer s6 else s6)"
  have "ctl s2 = ctl s1" "seqs s2 = seqs s1" by (simp_all add: s2_def ctl_def upd_qs_def seqs_def)
  then have "ctl s4 = ctl s1" "seqs s4 = seqs s1" by (simp_all add: s4_def)
  then have "ctl s5 = ctl s1" "seqs s5 = seqs s1" by (simp_all add: s5_def ctl_def seqs_def)
  then have "ctl s6 = ctl s1" "seqs s6 = seqs s1" by (simp_all add: s6_def ctl_def seqs_def)
  then have k: "ctl s7 = ctl s1" "\<not> cf_QOption c \<Longrightarrow> seqs s7 = seqs s1"
    by (simp_all add: s7_def cancel_rtx_timer_def ctl_def)
  have s': "s' = frto_newack c s7"
    using assms unfolding recv_newack_helper_def s1 rbind_Inr Let_def opencwnd_def if_cancel s2_def [symmetric]
      s4_def [symmetric] s5_def [symmetric] s6_def [symmetric] s7_def [symmetric] by simp
  then have "seqs s' = seqs s1" if "\<not> cf_QOption c" using k(2) that by simp
  then have "armed s'" if "\<not> cf_QOption c" using newack_keeps [OF s1] that by (simp add: armed_def seqs_def)
  then show ?thesis using newack_keeps [OF s1] k(1) s' by (simp add: keeps_def)
qed

lemma send_one_keeps: "send_one c now s = Inr s' \<Longrightarrow> keeps c s s'"
  using send_next_keeps by (auto simp: send_one_def split: if_splits)

lemma lossQuickStart_keeps:
  assumes "lossQuickStart c now s = Inr (b, s')"
  shows "keeps c s s'"
proof -
  let ?s = "upd_qs (\<lambda>q. q\<lparr>qs_window := 0\<rparr>) (slowdown c (bits [CLOSE_CWND_INIT]) s)"
  have "keeps c (slowdown c (bits [CLOSE_CWND_INIT]) s) ?s" by (rule keeps_quiet) simp_all
  then have "keeps c s ?s" using slowdown_keeps keeps_trans by blast
  moreover have "s' = s \<or> tcp_output c now (sd_last_ack s + 1) TCP_REASON_DUPACK ?s = Inr s'"
    using assms by (auto simp: lossQuickStart_def rbind_eq_Inr split: if_splits)
  ultimately show ?thesis using tcp_output_keep keeps_trans by auto
qed

lemma tahoe_keeps:
  assumes "tahoe_action c now s = Inr s'"
  shows "keeps c s s'"
proof -
  obtain lost s1 where s1: "lossQuickStart c now (s\<lparr>sd_recover := sd_maxseq s\<rparr>) = Inr (lost, s1)"
    and r: "reset_rtx_timer now False False (if lost then s1
      else slowdown c (bits [CLOSE_SSTHRESH_HALF, CLOSE_CWND_ONE]) (s1\<lparr>sd_last_cwnd_action := CWND_ACTION_DUPACK\<rparr>)) = Inr s'"
    using assms by (auto simp: tahoe_action_def rbind_eq_Inr)
  have "keeps c s (s\<lparr>sd_recover := sd_maxseq s\<rparr>)" by (rule keeps_quiet) (simp_all add: seqs_def ctl_def)
  moreover have "keeps c (s\<lparr>sd_recover := sd_maxseq s\<rparr>) s1" by (rule lossQuickStart_keeps [OF s1])
  moreover have "keeps c s1 (s1\<lparr>sd_last_cwnd_action := CWND_ACTION_DUPACK\<rparr>)" by (rule keeps_quiet) (simp_all add: seqs_def ctl_def)
  ultimately have k: "keeps c s s1" "keeps c s (s1\<lparr>sd_last_cwnd_action := CWND_ACTION_DUPACK\<rparr>)"
    using keeps_trans by blast+
  have "keeps c s (if lost then s1
      else slowdown c (bits [CLOSE_SSTHRESH_HALF, CLOSE_CWND_ONE]) (s1\<lparr>sd_last_cwnd_action := CWND_ACTION_DUPACK\<rparr>))"
    using k(1) keeps_trans [OF k(2) slowdown_keeps] by simp
  from keeps_trans [OF this] show ?thesis using reset_rtx_timer_keeps [OF r] by blast
qed

lemma dupack_keeps:
  assumes "dupack_action c now s = Inr s'"
  shows "keeps c s s'"
proof -
  let ?s = "s\<lparr>sd_last_cwnd_action := CWND_ACTION_DUPACK\<rparr>"
  have "keeps c s ?s" by (rule keeps_quiet) (simp_all add: seqs_def ctl_def)
  then have "keeps c s (slowdown c (bits [CLOSE_CWND_ONE]) ?s)" using slowdown_keeps keeps_trans by blast
  then show ?thesis
    using assms tahoe_keeps [of c now s s'] reset_rtx_timer_keeps [of now False False "slowdown c (bits [CLOSE_CWND_ONE]) ?s" s' c] keeps_trans
    unfolding dupack_action_def by (auto split: if_splits)
qed

lemma tcp_eln_keeps:
  assumes "tcp_eln c now ack s = Inr s'"
  shows "keeps c s s'"
proof -
  let ?s = "s\<lparr>sd_dupacks := sd_dupacks s + 1\<rparr>"
  have k: "keeps c s ?s" by (rule keeps_quiet) (simp_all add: seqs_def ctl_def)
  show ?thesis
  proof (cases "send_much c now False 0 (cf_maxburst c) ?s = Inr s'")
    case True
    then show ?thesis using k send_much_keeps keeps_trans by blast
  next
    case False
    then obtain s2 where s2: "tcp_output c now (sd_last_ack s + 1) TCP_REASON_DUPACK ?s = Inr s2"
      "s' = s2\<lparr>sd_eln_last_rxmit := sd_last_ack s2 + 1\<rparr>"
      using assms by (auto simp: tcp_eln_def Let_def rbind_eq_Inr split: if_splits)
    have "keeps c s2 s'" unfolding s2(2) by (rule keeps_quiet) (simp_all add: seqs_def ctl_def)
    then show ?thesis using k tcp_output_keep [OF s2(1)] keeps_trans by blast
  qed
qed

lemma recv_dupack_keeps:
  assumes "recv_dupack c now s = Inr s'"
  shows "keeps c s s'"
proof -
  let ?s = "s\<lparr>sd_dupacks := sd_dupacks s + 1\<rparr>"
  have k: "keeps c s ?s" by (rule keeps_quiet) (simp_all add: seqs_def ctl_def)
  have "dupack_action c now ?s = Inr s' \<or> send_one c now ?s = Inr s' \<or> s' = ?s"
    using assms unfolding recv_dupack_def Let_def by (auto split: if_splits)
  then show ?thesis using k dupack_keeps send_one_keeps keeps_trans by blast
qed

lemma recv_rest_keeps:
  assumes "recv_rest c now ack s = Inr s'"
  shows "keeps c s s'"
proof -
  define s1 where "s1 = (if cf_QOption c \<and> cf_EnblRTTCtr c then process_qoption_after_ack c (ah_seqno ack) s else s)"
  have "keeps c s s1" by (simp add: s1_def qoption_ack_keeps)
  moreover have "s' = s1 \<or> send_much c now False 0 (cf_maxburst c) s1 = Inr s'"
    using assms unfolding recv_rest_def s1_def [symmetric] Let_def by (auto split: if_splits)
  ultimately show ?thesis using send_much_keeps keeps_trans by blast
qed

lemma rtt_backoff_seqs: "rtt_backoff s = Inr s' \<Longrightarrow> seqs s' = seqs s"
  by (auto simp: rtt_backoff_def rbind_eq_Inr Let_def seqs_def dest!: rtt_timeout_same split: if_splits)

lemma tcp_ecn_keeps:
  assumes "tcp_ecn c seqno s = Inr s'"
  shows "keeps c s s'"
proof (cases "seqno > sd_recover s \<or> sd_last_cwnd_action s = CWND_ACTION_TIMEOUT")
  case False
  then show ?thesis using assms by (simp add: tcp_ecn_def)
next
  case True
  define s1 where "s1 = s\<lparr>sd_recover := sd_maxseq s, sd_last_cwnd_action := CWND_ACTION_ECN\<rparr>"
  have k1: "keeps c s s1" by (rule keeps_quiet) (simp_all add: s1_def seqs_def ctl_def)
  obtain s2 how where s2: "(if sd_cwnd s1 \<le> 1 then (if sd_ecn_backoff s1 then rtt_backoff s1 else Inr (s1\<lparr>sd_ecn_backoff := True\<rparr>))
           else Inr (s1\<lparr>sd_ecn_backoff := False\<rparr>)) = Inr s2"
    and s': "s' = upd_stats (\<lambda>n. n\<lparr>st_necnresponses := st_necnresponses n + 1\<rparr>) (slowdown c how s2)"
    using assms True unfolding tcp_ecn_def Let_def s1_def [symmetric] by (auto simp: rbind_eq_Inr)
  have "keeps c s1 s2"
  proof (rule keeps_quiet)
    show "seqs s2 = seqs s1" using s2 rtt_backoff_seqs by (auto simp: seqs_def split: if_splits)
    show "ctl s2 = ctl s1" using s2 rtt_backoff_ctl by (auto simp: ctl_def split: if_splits)
  qed
  then have "keeps c s (slowdown c how s2)" by (intro keeps_trans [OF keeps_trans [OF k1] slowdown_keeps])
  moreover have "keeps c (slowdown c how s2) s'" unfolding s' by (rule keeps_quiet) simp_all
  ultimately show ?thesis by (rule keeps_trans)
qed

lemma recv_frto_keeps: "keeps c s (recv_frto_helper ack s)"
  by (rule keeps_quiet) (simp_all add: recv_frto_helper_def seqs_def ctl_def)

lemma endQuickStart_seqs:
  assumes "endQuickStart c s = Inr s'"
  shows "seqs s' = seqs s"
proof -
  define s1 where "s1 = upd_qs (\<lambda>q. q\<lparr>qs_approved := False, qs_cwnd := 0, qs_window := sd_maxseq s\<rparr>) s"
  have "s' = s1 \<or> (\<exists>w. s' = (if sd_cwnd s1 < w then s1\<lparr>sd_cwnd := w\<rparr> else s1))"
    using assms unfolding endQuickStart_def Let_def s1_def [symmetric] by (auto simp: rbind_eq_Inr split: if_splits)
  then have "seqs s' = seqs s1" by (auto simp: seqs_def)
  then show ?thesis by (simp add: s1_def)
qed

lemma processQuickStart_seqs:
  assumes "processQuickStart c now ack s = Inr s'"
  shows "seqs s' = seqs s"
proof -
  define s1 where "s1 = upd_qs (\<lambda>q. q\<lparr>qs_requested := False, qs_approved := False\<rparr>) s"
  obtain flag ttl rate where h: "ah_qs_hdr ack = (flag, ttl, rate)" by (metis surj_pair)
  have "s' = s1 \<or> (\<exists>f. s' = upd_qs f s1)"
    using assms unfolding processQuickStart_def Let_def s1_def [symmetric] h prod.case
    by (auto simp: rbind_eq_Inr split: if_splits)
  then show ?thesis by (auto simp: s1_def)
qed

lemma TcpAgent_recv_keeps:
  assumes "TcpAgent_recv c now ack s = Inr s'"
  shows "keeps c s s'"
proof -
  obtain s1 s2 where s1: "(if qs_approved (sd_qs s) \<and> ah_seqno ack > sd_last_ack s then endQuickStart c s else Inr s) = Inr s1"
    and s2: "(if qs_requested (sd_qs s1) then processQuickStart c now ack s1 else Inr s1) = Inr s2"
    using assms by (auto simp: TcpAgent_recv_def rbind_eq_Inr)
  have "keeps c s s1"
  proof (rule keeps_quiet)
    show "seqs s1 = seqs s" using s1 endQuickStart_seqs by (auto split: if_splits)
    show "ctl s1 = ctl s" if "tame s" using s1 that by (simp add: ctl_def)
  qed
  moreover have "keeps c s1 s2"
  proof (rule keeps_quiet)
    show "seqs s2 = seqs s1" using s2 processQuickStart_seqs by (auto split: if_splits)
    show "ctl s2 = ctl s1" if "tame s1" using s2 that by (simp add: ctl_def)
  qed
  ultimately have k2: "keeps c s s2" by (rule keeps_trans)
  note out = assms [unfolded TcpAgent_recv_def s1 s2 rbind_Inr]
  show ?thesis
  proof (cases "ah_ts ack < sd_lastreset s2")
    case True
    then show ?thesis using out k2 by simp
  next
    case False
    define s3 where "s3 = (upd_stats (\<lambda>n. n\<lparr>st_nackpack := st_nackpack n + 1\<rparr>) s2)\<lparr>sd_ts_peer := ah_ts ack\<rparr>"
    have k3: "keeps c s2 s3" by (rule keeps_quiet) (simp_all add: s3_def seqs_def ctl_def upd_stats_def)
    note out = out [unfolded if_not_P [OF False] Let_def s3_def [symmetric]]
    obtain s4 where s4: "(if ah_ecnecho ack \<and> cf_ecn c then tcp_ecn c (ah_seqno ack) s3 else Inr s3) = Inr s4"
      using out by (auto simp: rbind_eq_Inr)
    have k4: "keeps c s3 s4" using s4 tcp_ecn_keeps by (auto split: if_splits)
    define s5 where "s5 = recv_frto_helper ack s4"
    have k5: "keeps c s s5" unfolding s5_def
      by (intro keeps_trans [OF keeps_trans [OF keeps_trans [OF k2 k3] k4] recv_frto_keeps])
    note out = out [unfolded s4 rbind_Inr s5_def [symmetric]]
    have "(\<exists>s6. (recv_newack_helper c now ack s5 = Inr s6 \<or> recv_dupack c now s5 = Inr s6 \<or> s6 = s5) \<and> recv_rest c now ack s6 = Inr s') \<or>
        tcp_eln c now ack s5 = Inr s'"
      using out by (auto simp: rbind_eq_Inr split: if_splits)
    then have "keeps c s5 s'"
    proof
      assume "tcp_eln c now ack s5 = Inr s'"
      then show ?thesis by (rule tcp_eln_keeps)
    next
      assume "\<exists>s6. (recv_newack_helper c now ack s5 = Inr s6 \<or> recv_dupack c now s5 = Inr s6 \<or> s6 = s5) \<and> recv_rest c now ack s6 = Inr s'"
      then obtain s6 where s6: "recv_newack_helper c now ack s5 = Inr s6 \<or> recv_dupack c now s5 = Inr s6 \<or> s6 = s5"
        "recv_rest c now ack s6 = Inr s'" by blast
      have "keeps c s5 s6" using s6(1) recv_newack_helper_keeps recv_dupack_keeps keeps_refl by blast
      then show ?thesis using recv_rest_keeps [OF s6(2)] by (rule keeps_trans)
    qed
    with k5 show ?thesis by (rule keeps_trans)
  qed
qed

text \<open>A timeout: the window is raised to one packet when it was less.\<close>

lemma timeout_slowdown_ctl:
  assumes "plain c" and "tame s"
  shows "ctl (timeout_slowdown c s) = ctl s"
proof -
  define s1 where "s1 = s\<lparr>sd_recover := sd_maxseq s\<rparr>"
  define s2 where "s2 = (if sd_highest_ack s1 = -1 \<and> sd_wnd_init_option s1 = 2 then s1\<lparr>sd_wnd_init_option := 1\<rparr>
                  else if sd_highest_ack s1 = -1 \<and> sd_wnd_init_option s1 = 1 \<and> sd_wnd_init s1 > 1 \<and> cf_bugfix_ss c
                  then s1\<lparr>sd_wnd_init := 1\<rparr> else s1)"
  have "ctl s2 = ctl s" by (simp add: s2_def s1_def ctl_def)
  moreover have "ctl (t\<lparr>sd_frto := f\<rparr>) = ctl t" "ctl (t\<lparr>sd_last_cwnd_action := a\<rparr>) = ctl t" for t f a by (simp_all add: ctl_def)
  ultimately show ?thesis
    unfolding timeout_slowdown_def Let_def s1_def [symmetric] s2_def [symmetric] by (simp add: slowdown_ctl assms)
qed

lemma rtx_expire_keeps:
  assumes "rtx_expire c now s = Inr s'"
  shows "(\<not> cf_QOption c \<longrightarrow> armed s') \<and> (plain c \<longrightarrow> tame s \<longrightarrow> ctl s' = (if sd_cwnd s < 1 then 1 else sd_cwnd s, snd (ctl s)))"
proof -
  define s0 where "s0 = s\<lparr>sd_rtx := None, sd_frto := 0\<rparr>"
  define s1 where "s1 = s0\<lparr>sd_pipe_prev := (if tcp_window c s0 > sd_ssthresh s0 then tcp_window c s0 else sd_ssthresh s0)\<rparr>"
  define s2 where "s2 = (if sd_cwnd s1 < 1 then s1\<lparr>sd_cwnd := 1\<rparr> else s1)"
  define s3 where "s3 = (if qs_approved (sd_qs s2) then upd_qs (\<lambda>q. q\<lparr>qs_approved := False\<rparr>) s2 else s2)"
  define s4 where "s4 = timeout_slowdown c s3"
  have out: "rbind (reset_rtx_timer now False (\<not> (sd_highest_ack s4 = sd_maxseq s4 \<and> cf_restart_bugfix c)) s4) (\<lambda>s5.
        send_much c now False TCP_REASON_TIMEOUT (cf_maxburst c) (s5\<lparr>sd_last_cwnd_action := CWND_ACTION_TIMEOUT\<rparr>)) = Inr s'"
    using assms unfolding rtx_expire_def Let_def s4_def s3_def s2_def s1_def s0_def .
  then obtain s5 where s5: "reset_rtx_timer now False (\<not> (sd_highest_ack s4 = sd_maxseq s4 \<and> cf_restart_bugfix c)) s4 = Inr s5"
    and sm: "send_much c now False TCP_REASON_TIMEOUT (cf_maxburst c) (s5\<lparr>sd_last_cwnd_action := CWND_ACTION_TIMEOUT\<rparr>) = Inr s'"
    by (auto simp: rbind_eq_Inr)
  let ?s = "s5\<lparr>sd_last_cwnd_action := CWND_ACTION_TIMEOUT\<rparr>"
  have k: "keeps c ?s s'" by (rule send_much_keeps [OF sm])
  have "armed ?s" using reset_rtx_timer_keeps [OF s5] by (simp add: armed_def)
  then have 1: "\<not> cf_QOption c \<longrightarrow> armed s'" using k by (simp add: keeps_def)
  have 2: "ctl s' = (if sd_cwnd s < 1 then 1 else sd_cwnd s, snd (ctl s))" if "plain c" "tame s"
  proof -
    have "ctl s3 = (if sd_cwnd s < 1 then 1 else sd_cwnd s, snd (ctl s))"
      using that(2) by (simp add: s3_def s2_def s1_def s0_def ctl_def)
    moreover have "ctl s4 = ctl s3" unfolding s4_def by (rule timeout_slowdown_ctl) (use that calculation in simp_all)
    moreover have "ctl s5 = ctl s4" by (rule reset_rtx_timer_ctl [OF s5])
    moreover have "ctl ?s = ctl s5" by (simp add: ctl_def)
    ultimately have c: "ctl ?s = (if sd_cwnd s < 1 then 1 else sd_cwnd s, snd (ctl s))" by simp
    then have "ctl s' = ctl ?s" using k that by (simp add: keeps_def)
    then show ?thesis using c by simp
  qed
  show ?thesis using 1 2 by blast
qed

subsection \<open>Every history\<close>

datatype sender_event = Ack ack_hdr | Rtx | Delsnd | Burstsnd | Send int | Advance int | Advance_To int | Send_One | Persist tcp_sender | Reset

fun sender_do :: "tcp_conf \<Rightarrow> real \<Rightarrow> sender_event \<Rightarrow> tcp_sender \<Rightarrow> tcp_sender res" where
  "sender_do c now (Ack a) s = TcpAgent_recv c now a s"
| "sender_do c now Rtx s = rtx_expire c now s"
| "sender_do c now Delsnd s = delsnd_expire c now s"
| "sender_do c now Burstsnd s = Inr (burstsnd_expire s)"
| "sender_do c now (Send n) s = sendmsg c now n s"
| "sender_do c now (Advance n) s = advanceby c now n s"
| "sender_do c now (Advance_To n) s = advance_to c now n s"
| "sender_do c now Send_One s = send_one_packet c now s"
| "sender_do c now (Persist other) s = Inr (persist other s)"
| "sender_do c now Reset s = TcpAgent_reset c now s"

definition sender_run :: "tcp_conf \<Rightarrow> (real \<times> sender_event) list \<Rightarrow> tcp_sender \<Rightarrow> tcp_sender res" where
  "sender_run c = rfold (\<lambda>(now, e). sender_do c now e)"

lemma curseq_keeps: "keeps c s (s\<lparr>sd_curseq := i\<rparr>)" "keeps c s (s\<lparr>sd_curseq := i, sd_closed := b\<rparr>)"
  by (rule keeps_quiet, simp_all add: seqs_def ctl_def)+

lemma sendmsg_keeps: "sendmsg c now n s = Inr s' \<Longrightarrow> keeps c s s'"
  using keeps_trans [OF curseq_keeps(1) send_much_keeps] by (auto simp: sendmsg_def rbind_eq_Inr split: if_splits)

lemma advanceby_keeps: "advanceby c now n s = Inr s' \<Longrightarrow> keeps c s s'"
  using keeps_trans [OF curseq_keeps(1) send_much_keeps] keeps_trans [OF curseq_keeps(2) send_much_keeps]
  by (auto simp: advanceby_def Let_def split: if_splits)

text \<open>After a reset nothing is outstanding.\<close>

lemma reset_tail_seqs [simp]: "seqs (reset_hstcp c t) = seqs t" "seqs (reset_qoption now t) = seqs t"
  by (simp_all add: reset_hstcp_def reset_qoption_def seqs_def upd_qo_def Let_def)

lemma reset_empty:
  assumes "TcpAgent_reset c now s = Inr s'"
  shows "seqs s' = (-1, -1, None)"
proof -
  obtain s1 where s1: "set_initial_window c ((rtt_init s)\<lparr>sd_rtt_seq := -1, sd_dupacks := 0, sd_curseq := 0\<rparr>) = Inr s1"
    using assms by (auto simp: TcpAgent_reset_def rbind_eq_Inr)
  define t where "t = cancel_timers (s1\<lparr>sd_t_seqno := 0, sd_maxseq := -1, sd_last_ack := -1, sd_highest_ack := -1,
                  sd_ssthresh := (if cf_max_ssthresh c > 0 \<and> cf_max_ssthresh c < c_trunc (cf_wnd c)
                    then cf_max_ssthresh c else c_trunc (cf_wnd c)),
                  sd_wnd_restart := 1, sd_awnd := sd_wnd_init s1 / 2, sd_recover := 0, sd_closed := False, sd_last_cwnd_action := 0,
                  rt_boot_time := cf_boot c (sd_draws s1), sd_draws := sd_draws s1 + 1,
                  sd_first_decrease := True, sd_lastreset := now, sd_stats := no_stats\<rparr>)"
  have t: "seqs t = (-1, -1, None)" by (simp add: t_def cancel_timers_def seqs_def)
  define u where "u = reset_hstcp c (if cf_control_increase c then t\<lparr>sd_prev_highest_ack := sd_highest_ack t\<rparr> else t)"
  have "seqs (t\<lparr>sd_prev_highest_ack := i\<rparr>) = seqs t" for i by (simp add: seqs_def)
  then have u: "seqs u = (-1, -1, None)" using t by (simp add: u_def)
  show ?thesis
    using assms [unfolded TcpAgent_reset_def Let_def s1 rbind_Inr t_def [symmetric] u_def [symmetric]] u by (auto split: if_splits)
qed

lemma sender_do_keeps:
  assumes "sender_do c now e s = Inr s'" and "e \<noteq> Rtx" and "e \<noteq> Reset"
  shows "keeps c s s'"
proof (cases e)
  case Burstsnd
  then have "s' = s\<lparr>sd_burstsnd := None\<rparr>" using assms(1) by (simp add: burstsnd_expire_def)
  moreover have "keeps c s (s\<lparr>sd_burstsnd := None\<rparr>)" by (rule keeps_quiet) (simp_all add: seqs_def ctl_def)
  ultimately show ?thesis by simp
next
  case (Persist other)
  then have "s' = persist other s" using assms(1) by simp
  moreover have "keeps c s (persist other s)" by (rule keeps_quiet) (simp_all add: seqs_def ctl_def persist_def)
  ultimately show ?thesis by simp
next
  case (Advance_To n)
  then show ?thesis using assms(1) advanceby_keeps by (auto simp: advance_to_def split: if_splits)
qed (use assms TcpAgent_recv_keeps delsnd_expire_keeps sendmsg_keeps advanceby_keeps tcp_output_keep
  in \<open>auto simp: send_one_packet_def\<close>)

definition demo_ack :: "int \<Rightarrow> real \<Rightarrow> bool \<Rightarrow> ack_hdr" where
  "demo_ack seqno t ce = \<lparr>ah_seqno = seqno, ah_ts = t, ah_ts_echo = 0, ah_ecnecho = ce, ah_cong_action = False,
     ah_no_ts = False, ah_eln = False, ah_qs_hdr = (QS_DISABLE, 0, 0)\<rparr>"

text \<open>
  Data, new and duplicate acknowledgements, a fast retransmission and a timeout: packets 2 and 3 are sent again, twice.
\<close>

definition demo_events :: "(real \<times> sender_event) list" where
  "demo_events = [(0, Advance 9), (1, Ack (demo_ack 0 1 False)), (2, Ack (demo_ack 1 2 False)), (3, Ack (demo_ack 1 3 False)),
     (4, Ack (demo_ack 1 4 False)), (5, Ack (demo_ack 1 5 False)), (16, Rtx)]"

lemma demo_sender_run:
  "case sender_run demo_conf demo_events demo_sender of Inl e \<Rightarrow> False
   | Inr s \<Rightarrow> sd_cwnd s = 2 \<and> sd_highest_ack s = 1 \<and> sd_maxseq s = 5 \<and> sd_rtx s \<noteq> None"
  by code_simp

text \<open>
  C23. The congestion window is the controller's alone: with the decrease factor of one half
  that the repository configures, and without Quick-Start, no history of acknowledgements
  (congestion echoes, duplicates and new ones), timeouts, data and commands changes \<open>cwnd_\<close>, except
  that a retransmission timeout raises a window of less than one packet to one. Only a reset,
  which starts a new connection, sets it.
\<close>

theorem window_of_controller:
  assumes "sender_run c es s = Inr s'" and "cf_wnd_option c \<noteq> 8" and "\<not> cf_qs_enabled c"
    and "sd_decrease_num s = 1 / 2" and "\<not> qs_requested (sd_qs s)" and "\<not> qs_approved (sd_qs s)"
    and "Reset \<notin> snd ` set es"
  shows "sd_cwnd s' = sd_cwnd s \<or> (sd_cwnd s < 1 \<and> sd_cwnd s' = 1 \<and> (\<exists>now. (now, Rtx) \<in> set es))"
proof -
  have p: "plain c" using assms(2,3) by (simp add: plain_def)
  have "tame s' \<and> (sd_cwnd s' = sd_cwnd s \<or> (sd_cwnd s < 1 \<and> sd_cwnd s' = 1 \<and> (\<exists>now. (now, Rtx) \<in> set es)))"
    if "sender_run c es s = Inr s'" "tame s" "Reset \<notin> snd ` set es" for es s
    using that
  proof (induction es arbitrary: s)
    case Nil
    then show ?case by (simp add: sender_run_def)
  next
    case (Cons x es)
    obtain now e where x: "x = (now, e)" by fastforce
    obtain s1 where s1: "sender_do c now e s = Inr s1" "sender_run c es s1 = Inr s'"
      using Cons.prems(1) by (auto simp: sender_run_def x rbind_eq_Inr)
    have c1: "snd (ctl s1) = snd (ctl s) \<and> (sd_cwnd s1 = sd_cwnd s \<or> (sd_cwnd s < 1 \<and> sd_cwnd s1 = 1 \<and> e = Rtx))"
    proof (cases "e = Rtx")
      case True
      then have "ctl s1 = (if sd_cwnd s < 1 then 1 else sd_cwnd s, snd (ctl s))"
        using rtx_expire_keeps [of c now s s1] s1(1) p Cons.prems(2) by simp
      then show ?thesis using True by (auto simp: ctl_def split: if_splits)
    next
      case False
      moreover have "e \<noteq> Reset" using Cons.prems(3) by (force simp: x)
      ultimately have "ctl s1 = ctl s" using sender_do_keeps [OF s1(1)] p Cons.prems(2) by (simp add: keeps_def)
      then show ?thesis by (simp add: ctl_def)
    qed
    then have "tame s1" using Cons.prems(2) by simp
    moreover have "Reset \<notin> snd ` set es" using Cons.prems(3) by (auto simp: x)
    ultimately show ?case using Cons.IH [OF s1(2)] c1 by (auto simp: x)
  qed
  moreover have "tame s" using assms(4-6) by (simp add: ctl_def)
  ultimately show ?thesis using assms(1,7) by blast
qed

corollary window_of_controller_witness:
  "\<exists>s'. sender_run demo_conf demo_events demo_sender = Inr s' \<and> (16, Rtx) \<in> set demo_events \<and> sd_cwnd s' = 2"
proof -
  obtain s' where s': "sender_run demo_conf demo_events demo_sender = Inr s'"
    using demo_sender_run by (cases "sender_run demo_conf demo_events demo_sender") auto
  have "sd_cwnd s' = sd_cwnd demo_sender \<or>
    (sd_cwnd demo_sender < 1 \<and> sd_cwnd s' = 1 \<and> (\<exists>now. (now, Rtx) \<in> set demo_events))"
    by (rule window_of_controller [OF s'])
      (simp_all add: demo_conf_def demo_sender_def demo_events_def tcp_rtt.defs tcp_rtt.simps)
  moreover have "sd_cwnd demo_sender = 2" by code_simp
  ultimately show ?thesis using s' by (simp add: demo_events_def)
qed

text \<open>
  C22. While data is outstanding the retransmission timer is pending, so the sender cannot wait
  for ever: the property holds after every history of acknowledgements, timeouts, data and resets from
  a state where nothing is outstanding, when the quiescence option is off.
\<close>

theorem timer_armed:
  assumes "sender_run c es s = Inr s'" and "sd_maxseq s \<le> sd_highest_ack s" and "\<not> cf_QOption c"
    and "sd_highest_ack s' < sd_maxseq s'"
  shows "sd_rtx s' \<noteq> None"
proof -
  have "armed s'" if "sender_run c es s = Inr s'" "armed s" for es s
    using that
  proof (induction es arbitrary: s)
    case Nil
    then show ?case by (simp add: sender_run_def)
  next
    case (Cons x es)
    obtain now e where x: "x = (now, e)" by fastforce
    obtain s1 where s1: "sender_do c now e s = Inr s1" "sender_run c es s1 = Inr s'"
      using Cons.prems(1) by (auto simp: sender_run_def x rbind_eq_Inr)
    have "armed s1"
    proof (cases "e = Rtx")
      case True
      then show ?thesis using rtx_expire_keeps [of c now s s1] s1(1) assms(3) by simp
    next
      case False
      then show ?thesis using sender_do_keeps [OF s1(1)] reset_empty [of c now s s1] s1(1) assms(3) Cons.prems(2)
        by (cases "e = Reset") (simp_all add: keeps_def armed_def seqs_def)
    qed
    then show ?case by (rule Cons.IH [OF s1(2)])
  qed
  moreover have "armed s" using assms(2) by (simp add: armed_def)
  ultimately show ?thesis using assms(1,4) by (simp add: armed_def)
qed

corollary timer_armed_witness:
  "\<exists>s'. sender_run demo_conf demo_events demo_sender = Inr s' \<and> sd_highest_ack s' = 1 \<and> sd_maxseq s' = 5 \<and> sd_rtx s' \<noteq> None"
proof -
  obtain s' where s': "sender_run demo_conf demo_events demo_sender = Inr s'" "sd_highest_ack s' = 1" "sd_maxseq s' = 5"
    using demo_sender_run by (cases "sender_run demo_conf demo_events demo_sender") auto
  have "sd_maxseq demo_sender \<le> sd_highest_ack demo_sender" "\<not> cf_QOption demo_conf" by code_simp+
  from timer_armed [OF s'(1) this] show ?thesis using s' by simp
qed

end
