(* ===== verification/SenderTimeout.thy ===== *)
theory SenderTimeout
  imports SenderWindow
begin

section \<open>What a retransmission timeout sends\<close>

text \<open>
  Going back after a timeout: from any state with data outstanding, with the options of the
  repository's configurations, \<open>rtx_expire\<close> returns, the loop of \<open>send_much\<close> ends, and the
  packets sent are exactly those the window holds, from the one after the acknowledgement on.
\<close>

subsection \<open>A timeout goes back\<close>

text \<open>What decides which packets may be sent.\<close>

definition core :: "tcp_sender \<Rightarrow> (int \<times> int \<times> int \<times> real) \<times> (int \<times> int) \<times> real list option \<times> real option \<times> real option \<times> bool" where
  "core s = ((sd_t_seqno s, sd_highest_ack s, sd_curseq s, sd_cwnd s), (sd_frto s, sd_recover s), sd_tss s, sd_delsnd s,
     sd_burstsnd s, qs_approved (sd_qs s))"

lemma core_window: "core s' = core s \<Longrightarrow> tcp_window c s' = tcp_window c s"
  by (simp add: core_def tcp_window_def force_wnd_def)

lemma core_stats [simp]: "core (upd_stats f s) = core s" "rtt_ok (upd_stats f s) = rtt_ok s" "sd_sent (upd_stats f s) = sd_sent s"
  by (simp_all add: core_def upd_stats_def rtt_ok_def)

lemma set_rtx_timer_total:
  assumes "rtt_ok s"
  shows "\<exists>t. set_rtx_timer now s = Inr (s\<lparr>rt_use_rtt := False, sd_rtx := Some t\<rparr>)"
  using rtt_timeout_ok [OF assms] by (auto simp: set_rtx_timer_def)

lemma mark_sent_core [simp]:
  "core (mark_sent now seqno n s) = core s" "rtt_ok (mark_sent now seqno n s) = rtt_ok s"
  "sd_sent (mark_sent now seqno n s) = sd_sent s" "sd_rtx (mark_sent now seqno n s) = sd_rtx s"
  by (simp_all add: mark_sent_def core_def rtt_ok_def upd_stats_def)

lemma send_data_total:
  assumes "rtt_ok s"
  shows "\<exists>s'. send_data now seqno p n s = Inr s' \<and> core s' = core s \<and> rtt_ok s' \<and> sd_sent s' = sd_sent s @ [p] \<and> sd_rtx s' \<noteq> None"
proof -
  define s1 where "s1 = upd_stats (\<lambda>n'. n'\<lparr>st_ndatapack := st_ndatapack n' + 1, st_ndatabytes := st_ndatabytes n' + n\<rparr>)
                 (s\<lparr>sd_sent := sd_sent s @ [p]\<rparr>)"
  define s2 where "s2 = (if seqno = sd_curseq s1 \<and> seqno > sd_maxseq s1 then s1\<lparr>sd_idle_calls := sd_idle_calls s1 + 1\<rparr> else s1)"
  define s3 where "s3 = mark_sent now seqno n s2"
  have "core s1 = core s" "rtt_ok s1" "sd_sent s1 = sd_sent s @ [p]" using assms by (simp_all add: s1_def) (simp_all add: core_def rtt_ok_def)
  then have "core s2 = core s" "rtt_ok s2" "sd_sent s2 = sd_sent s @ [p]" by (simp_all add: s2_def core_def rtt_ok_def)
  then have s3: "core s3 = core s" "rtt_ok s3" "sd_sent s3 = sd_sent s @ [p]" by (simp_all add: s3_def)
  have eq: "send_data now seqno p n s =
      (if sd_rtx s3 = None \<or> sd_highest_ack s = sd_maxseq s then set_rtx_timer now s3 else Inr s3)"
    unfolding send_data_def Let_def s1_def [symmetric] s2_def [symmetric] s3_def [symmetric] ..
  obtain t where t: "set_rtx_timer now s3 = Inr (s3\<lparr>rt_use_rtt := False, sd_rtx := Some t\<rparr>)"
    using set_rtx_timer_total [OF s3(2)] by blast
  have "core (s3\<lparr>rt_use_rtt := False, sd_rtx := Some t\<rparr>) = core s3" "rtt_ok (s3\<lparr>rt_use_rtt := False, sd_rtx := Some t\<rparr>) = rtt_ok s3"
    by (simp_all add: core_def rtt_ok_def)
  then show ?thesis using s3 t unfolding eq by auto
qed

lemma tcp_output_total:
  assumes "rtt_ok s" and "\<not> cf_bugfix_ts c" and "sd_tss s = None" and "seqno \<noteq> 0"
  shows "\<exists>s' p. tcp_output c now seqno reason s = Inr s' \<and> core s' = core s \<and> rtt_ok s' \<and> sp_seqno p = seqno \<and>
    sd_sent s' = sd_sent s @ [p] \<and> sd_rtx s' \<noteq> None"
proof -
  have st: "store_ts c now seqno s = Inr s"
    using assms(2,3) by (simp add: store_ts_def resize_tss_def make_tss_def)
  define act where "act = (sd_cong_action s \<and> (\<not> seqno < sd_maxseq s \<or> cf_SetCWRonRetransmit c))"
  define s2 where "s2 = (if act then s\<lparr>sd_cong_action := False\<rparr> else s)"
  have s2: "core s2 = core s" "rtt_ok s2" "sd_sent s2 = sd_sent s" using assms(1) by (simp_all add: s2_def core_def rtt_ok_def)
  obtain p where "tcp_output c now seqno reason s = send_data now seqno p (cf_size c) s2" "sp_seqno p = seqno"
    unfolding tcp_output_def st rbind_Inr Let_def act_def [symmetric] s2_def [symmetric] if_not_P [OF assms(4)]
    by (cases "cf_useHeaders c") auto
  then show ?thesis using send_data_total [OF s2(2), of now seqno p "cf_size c"] s2 by auto
qed

lemma send_next_total:
  assumes "rtt_ok s" and "\<not> cf_bugfix_ts c" and "sd_tss s = None" and "sd_t_seqno s \<noteq> 0" and "\<not> cf_QOption c"
  shows "\<exists>s1 s' p. send_next c now reason s = Inr s' \<and> core s1 = core s \<and> s' = s1\<lparr>sd_t_seqno := sd_t_seqno s + 1\<rparr> \<and> rtt_ok s' \<and>
    sp_seqno p = sd_t_seqno s \<and> sd_sent s' = sd_sent s @ [p] \<and> sd_rtx s' \<noteq> None"
proof -
  obtain s1 p where s1: "tcp_output c now (sd_t_seqno s) reason s = Inr s1" "core s1 = core s" "rtt_ok s1" "sp_seqno p = sd_t_seqno s"
    "sd_sent s1 = sd_sent s @ [p]" "sd_rtx s1 \<noteq> None"
    using tcp_output_total [OF assms(1-4)] by blast
  have "sd_t_seqno s1 = sd_t_seqno s" using s1(2) by (simp add: core_def)
  then have "send_next c now reason s = Inr (s1\<lparr>sd_t_seqno := sd_t_seqno s + 1\<rparr>)"
    using s1(1) assms(5) by (simp add: send_next_def)
  moreover have "rtt_ok (s1\<lparr>sd_t_seqno := sd_t_seqno s + 1\<rparr>)" using s1(3) by (simp add: rtt_ok_def)
  ultimately show ?thesis using s1(2,4-6) by (intro exI [of _ s1] exI [of _ "s1\<lparr>sd_t_seqno := sd_t_seqno s + 1\<rparr>"] exI [of _ p]) simp
qed

lemma send_loop_fills:
  assumes "\<not> cf_bugfix_ts c" and "\<not> cf_QOption c" and "cf_overhead c = 0" and "rtt_ok s" and "sd_tss s = None"
    and "1 \<le> sd_t_seqno s" and "\<not> qs_approved (sd_qs s)" and "tcp_window c s = win"
  shows "\<exists>s' ps. send_loop c now force reason 0 win n s = Some (Inr s') \<and> sd_sent s' = sd_sent s @ ps \<and>
    map sp_seqno ps = [sd_t_seqno s .. min (sd_highest_ack s + win) (sd_curseq s - 1)] \<and> sd_highest_ack s' = sd_highest_ack s \<and>
    (sd_rtx s \<noteq> None \<longrightarrow> sd_rtx s' \<noteq> None)"
  using assms(4-8)
proof (induction "nat (min (sd_highest_ack s + win) (sd_curseq s - 1) + 1 - sd_t_seqno s)" arbitrary: s n rule: less_induct)
  case less
  show ?case
  proof (cases "sd_t_seqno s \<le> sd_highest_ack s + win \<and> sd_t_seqno s < sd_curseq s")
    case False
    then have "[sd_t_seqno s .. min (sd_highest_ack s + win) (sd_curseq s - 1)] = []" by auto
    then show ?thesis using False by (subst send_loop.simps) auto
  next
    case True
    obtain s0 s1 p where s1: "send_next c now reason s = Inr s1" "core s0 = core s" "s1 = s0\<lparr>sd_t_seqno := sd_t_seqno s + 1\<rparr>"
      "rtt_ok s1" "sp_seqno p = sd_t_seqno s" "sd_sent s1 = sd_sent s @ [p]" "sd_rtx s1 \<noteq> None"
      using send_next_total [OF less.prems(1) assms(1) less.prems(2) _ assms(2)] less.prems(3) by force
    have f: "sd_t_seqno s1 = sd_t_seqno s + 1" "sd_highest_ack s1 = sd_highest_ack s" "sd_curseq s1 = sd_curseq s"
      "sd_tss s1 = None" "\<not> qs_approved (sd_qs s1)" "tcp_window c s1 = win"
      using s1(2,3) less.prems(2,4,5) core_window [OF s1(2), of c] by (auto simp: core_def tcp_window_def force_wnd_def)
    have step: "send_loop c now force reason 0 win n s = send_loop c now force reason 0 win (n + 1) s1"
      using True assms(3) s1(1) f(5,6) by (subst send_loop.simps) simp
    have "\<exists>s' ps. send_loop c now force reason 0 win (n + 1) s1 = Some (Inr s') \<and> sd_sent s' = sd_sent s1 @ ps \<and>
        map sp_seqno ps = [sd_t_seqno s1 .. min (sd_highest_ack s1 + win) (sd_curseq s1 - 1)] \<and> sd_highest_ack s' = sd_highest_ack s1 \<and>
        (sd_rtx s1 \<noteq> None \<longrightarrow> sd_rtx s' \<noteq> None)"
      by (rule less.hyps) (use True f s1(4) less.prems(3) in auto)
    then obtain s' ps where s': "send_loop c now force reason 0 win (n + 1) s1 = Some (Inr s')" "sd_sent s' = sd_sent s1 @ ps"
      "map sp_seqno ps = [sd_t_seqno s1 .. min (sd_highest_ack s1 + win) (sd_curseq s1 - 1)]" "sd_highest_ack s' = sd_highest_ack s1"
      "sd_rtx s1 \<noteq> None \<longrightarrow> sd_rtx s' \<noteq> None" by blast
    have "[sd_t_seqno s .. min (sd_highest_ack s + win) (sd_curseq s - 1)] =
        sd_t_seqno s # [sd_t_seqno s + 1 .. min (sd_highest_ack s + win) (sd_curseq s - 1)]"
      by (rule upto_rec1) (use True in simp)
    then show ?thesis using s' s1(5-7) f(1-3) unfolding step by (intro exI [of _ s'] exI [of _ "p # ps"]) simp
  qed
qed

text \<open>The part of the state that a reduction without \<open>CLOSE_CWND_HALF\<close> and the timer leave.\<close>

definition span :: "tcp_sender \<Rightarrow> (int \<times> int \<times> int \<times> real) \<times> real list option \<times> real option \<times> real option \<times> bool \<times> sent_pkt list" where
  "span s = ((sd_highest_ack s, sd_curseq s, sd_maxseq s, sd_cwnd s), sd_tss s, sd_delsnd s, sd_burstsnd s,
     qs_approved (sd_qs s), sd_sent s)"

lemma span_stats [simp]: "span (upd_stats f s) = span s" "sd_frto (upd_stats f s) = sd_frto s"
  by (simp_all add: span_def upd_stats_def)

lemma close_ssthresh_span:
  "span (close_ssthresh c how b x y s) = span s" "rtt_ok (close_ssthresh c how b x y s) = rtt_ok s"
  by (simp_all add: close_ssthresh_def span_def rtt_ok_def)

lemma slowdown_span:
  assumes "\<not> has CLOSE_CWND_HALF how"
  shows "span (slowdown c how s) = span s" and "rtt_ok (slowdown c how s) = rtt_ok s"
proof -
  define s1 where "s1 = upd_stats (\<lambda>n. n\<lparr>st_ncwndcuts := st_ncwndcuts n + 1,
            st_ncwndcuts1 := st_ncwndcuts1 n + (if \<not> has TCP_IDLE how \<and> \<not> has NO_OUTSTANDING_DATA how then 1 else 0)\<rparr>) s"
  obtain hw dn dw where w: "close_windows c s1 = (hw, dn, dw)" by (metis surj_pair)
  define s2 where "s2 = close_ssthresh c how (sd_cwnd s1 < of_int (sd_ssthresh s1)) hw dw (s1\<lparr>sd_decrease_num := dn\<rparr>)"
  have cc: "close_cwnd how b x t = t" for b x t using assms by (simp add: close_cwnd_def)
  have s2: "span s2 = span s" "rtt_ok s2 = rtt_ok s"
    by (simp_all add: s2_def close_ssthresh_span s1_def) (simp_all add: span_def rtt_ok_def upd_stats_def)
  define s4 where "s4 = (if sd_ssthresh s2 < 2 then s2\<lparr>sd_ssthresh := 2\<rparr> else s2)"
  have s4: "span s4 = span s2" "rtt_ok s4 = rtt_ok s2" by (simp_all add: s4_def span_def rtt_ok_def)
  define s5 where "s5 = (if has CLOSE_CWND_HALF how \<or> has CLOSE_CWND_RESTART how \<or> has CLOSE_CWND_INIT how \<or>
                     has CLOSE_CWND_ONE how \<or> has CLOSE_CWND_DCTCP how
                  then s4\<lparr>sd_cong_action := True\<rparr> else s4)"
  have s5: "span s5 = span s4" "rtt_ok s5 = rtt_ok s4" by (simp_all add: s5_def span_def rtt_ok_def)
  have eq: "slowdown c how s = s5\<lparr>sd_fcnt := 0, sd_count := 0, sd_first_decrease := False\<rparr>"
    unfolding slowdown_def Let_def s1_def [symmetric] w prod.case cc s2_def [symmetric] s4_def [symmetric] s5_def [symmetric] ..
  have "span (s5\<lparr>sd_fcnt := 0, sd_count := 0, sd_first_decrease := False\<rparr>) = span s5"
    "rtt_ok (s5\<lparr>sd_fcnt := 0, sd_count := 0, sd_first_decrease := False\<rparr>) = rtt_ok s5"
    by (simp_all add: span_def rtt_ok_def)
  then show "span (slowdown c how s) = span s" "rtt_ok (slowdown c how s) = rtt_ok s"
    unfolding eq using s2 s4 s5 by simp_all
qed

lemma timeout_bits:
  "\<not> has CLOSE_CWND_HALF (bits [CLOSE_CWND_ONE])" "\<not> has CLOSE_CWND_HALF (bits [CLOSE_SSTHRESH_HALF, CLOSE_CWND_RESTART])"
  by (simp_all add: has_def bits_def)

lemma timeout_slowdown_span:
  assumes "sd_highest_ack s < sd_maxseq s" and "sd_frto s = 0"
  shows "span (timeout_slowdown c s) = span s" and "rtt_ok (timeout_slowdown c s) = rtt_ok s"
    and "sd_frto (timeout_slowdown c s) \<noteq> 2"
proof -
  define s1 where "s1 = s\<lparr>sd_recover := sd_maxseq s\<rparr>"
  define s2 where "s2 = (if sd_highest_ack s1 = -1 \<and> sd_wnd_init_option s1 = 2 then s1\<lparr>sd_wnd_init_option := 1\<rparr>
                  else if sd_highest_ack s1 = -1 \<and> sd_wnd_init_option s1 = 1 \<and> sd_wnd_init s1 > 1 \<and> cf_bugfix_ss c
                  then s1\<lparr>sd_wnd_init := 1\<rparr> else s1)"
  have s2: "span s2 = span s" "rtt_ok s2 = rtt_ok s" "sd_frto s2 = 0"
    using assms(2) by (simp_all add: s2_def s1_def span_def rtt_ok_def)
  have lt: "sd_highest_ack s2 < sd_maxseq s2" using s2(1) assms(1) by (simp add: span_def)
  define fr :: int where "fr = (if cf_frto_enabled c \<or> cf_sfrto_enabled c then 1 else sd_frto s2)"
  have fr: "fr \<noteq> 2" using s2(3) by (simp add: fr_def)
  define t where "t = (upd_stats (\<lambda>n. n\<lparr>st_nrexmit := st_nrexmit n + 1\<rparr>) s2)\<lparr>sd_last_cwnd_action := CWND_ACTION_TIMEOUT\<rparr>"
  have t: "span t = span s" "rtt_ok t = rtt_ok s" using s2 by (simp_all add: t_def span_def rtt_ok_def upd_stats_def)
  have f: "span (x\<lparr>sd_frto := fr\<rparr>) = span x" "rtt_ok (x\<lparr>sd_frto := fr\<rparr>) = rtt_ok x" for x by (simp_all add: span_def rtt_ok_def)
  have n1: "sd_highest_ack s \<noteq> sd_maxseq s" "sd_highest_ack s2 \<noteq> sd_maxseq s2" using assms(1) lt by simp_all
  have "timeout_slowdown c s = (slowdown c (bits [CLOSE_CWND_ONE]) s2)\<lparr>sd_frto := fr\<rparr> \<or>
    timeout_slowdown c s = (slowdown c (bits [CLOSE_SSTHRESH_HALF, CLOSE_CWND_RESTART]) t)\<lparr>sd_frto := fr\<rparr>"
    unfolding timeout_slowdown_def Let_def s1_def [symmetric] s2_def [symmetric] fr_def [symmetric] t_def [symmetric] using n1 by simp
  then show "span (timeout_slowdown c s) = span s" "rtt_ok (timeout_slowdown c s) = rtt_ok s"
    "sd_frto (timeout_slowdown c s) \<noteq> 2"
    using s2 t fr slowdown_span [OF timeout_bits(1)] slowdown_span [OF timeout_bits(2)] f by auto
qed

lemma rtt_backoff_span: "rtt_backoff s = Inr s' \<Longrightarrow> span s' = span s \<and> sd_frto s' = sd_frto s"
  by (auto simp: rtt_backoff_def rbind_eq_Inr Let_def span_def dest!: rtt_timeout_same split: if_splits)

lemma reset_rtx_timer_total:
  assumes "rtt_ok s"
  shows "\<exists>s'. reset_rtx_timer now False b s = Inr s' \<and> span s' = span s \<and> sd_frto s' = sd_frto s \<and> rtt_ok s' \<and>
    sd_t_seqno s' = sd_highest_ack s + 1 \<and> sd_rtx s' \<noteq> None"
proof -
  obtain s1 where s1: "(if b then rtt_backoff s else Inr s) = Inr s1" "rtt_ok s1" "span s1 = span s" "sd_frto s1 = sd_frto s"
    using rtt_backoff_ok [OF assms] rtt_backoff_span assms by (cases b) auto
  obtain t where t: "set_rtx_timer now s1 = Inr (s1\<lparr>rt_use_rtt := False, sd_rtx := Some t\<rparr>)"
    using set_rtx_timer_total [OF s1(2)] by blast
  let ?s = "s1\<lparr>rt_use_rtt := False, sd_rtx := Some t, sd_t_seqno := sd_highest_ack s1 + 1, sd_rtt_active := False\<rparr>"
  have "reset_rtx_timer now False b s = Inr ?s"
    unfolding reset_rtx_timer_def s1(1) rbind_Inr t by simp
  moreover have "span ?s = span s1" "rtt_ok ?s = rtt_ok s1" by (simp_all add: span_def rtt_ok_def)
  moreover have "sd_highest_ack s1 = sd_highest_ack s" using s1(3) by (simp add: span_def)
  ultimately show ?thesis using s1 by (intro exI [of _ ?s]) simp
qed

lemma send_much_fills:
  assumes "\<not> cf_bugfix_ts c" and "\<not> cf_QOption c" and "cf_overhead c = 0" and "rtt_ok s" and "sd_tss s = None"
    and "1 \<le> sd_t_seqno s" and "\<not> qs_approved (sd_qs s)" and "sd_delsnd s = None" and "sd_burstsnd s = None"
  shows "\<exists>s' ps. send_much c now force reason 0 s = Inr s' \<and> sd_sent s' = sd_sent s @ ps \<and>
    map sp_seqno ps = [sd_t_seqno s .. min (sd_highest_ack s + tcp_window c s) (sd_curseq s - 1)] \<and>
    (sd_rtx s \<noteq> None \<longrightarrow> sd_rtx s' \<noteq> None)"
proof -
  obtain s' ps where "send_loop c now force reason 0 (tcp_window c s) 0 s = Some (Inr s')" "sd_sent s' = sd_sent s @ ps"
    "map sp_seqno ps = [sd_t_seqno s .. min (sd_highest_ack s + tcp_window c s) (sd_curseq s - 1)]"
    "sd_rtx s \<noteq> None \<longrightarrow> sd_rtx s' \<noteq> None"
    using send_loop_fills [OF assms(1-7) refl] by blast
  moreover have "send_much c now force reason 0 s = (case send_loop c now force reason 0 (tcp_window c s) 0 s of
      None \<Rightarrow> Inl Diverges | Some r \<Rightarrow> r)"
    using assms(6,8,9) by (simp add: send_much_def)
  ultimately show ?thesis by (intro exI [of _ s'] exI [of _ ps]) simp
qed

lemma window_pos: "1 \<le> (w::real) \<Longrightarrow> 1 \<le> c_trunc (min (max 1 x) w)"
  by (simp add: c_trunc_def le_floor_iff)

text \<open>
  C21. A retransmission timeout with data outstanding goes back: the handler returns, the packets
  it hands to the network are, in order and once each, those from the one after the highest
  acknowledgement to the end of the window (or of the data), at least one of them, and the timer
  is pending again. The window is the controller's, raised to one packet if it was less.
\<close>

theorem timeout_goes_back:
  assumes "rtt_ok s" and "0 \<le> sd_highest_ack s" and "sd_highest_ack s < sd_maxseq s" and "sd_highest_ack s + 1 < sd_curseq s"
    and "\<not> cf_bugfix_ts c" and "\<not> cf_QOption c" and "cf_overhead c = 0" and "cf_maxburst c = 0" and "1 \<le> cf_wnd c"
    and "sd_tss s = None" and "sd_delsnd s = None" and "sd_burstsnd s = None"
  shows "\<exists>s' ps. rtx_expire c now s = Inr s' \<and> sd_sent s' = sd_sent s @ ps \<and> ps \<noteq> [] \<and> sd_rtx s' \<noteq> None \<and>
    map sp_seqno ps = [sd_highest_ack s + 1 .. min (sd_highest_ack s + c_trunc (min (max 1 (sd_cwnd s)) (cf_wnd c))) (sd_curseq s - 1)]"
proof -
  define s0 where "s0 = s\<lparr>sd_rtx := None, sd_frto := 0\<rparr>"
  define s1 where "s1 = s0\<lparr>sd_pipe_prev := (if tcp_window c s0 > sd_ssthresh s0 then tcp_window c s0 else sd_ssthresh s0)\<rparr>"
  define s2 where "s2 = (if sd_cwnd s1 < 1 then s1\<lparr>sd_cwnd := 1\<rparr> else s1)"
  define s3 where "s3 = (if qs_approved (sd_qs s2) then upd_qs (\<lambda>q. q\<lparr>qs_approved := False\<rparr>) s2 else s2)"
  define s4 where "s4 = timeout_slowdown c s3"
  have s3: "sd_highest_ack s3 = sd_highest_ack s" "sd_maxseq s3 = sd_maxseq s" "sd_curseq s3 = sd_curseq s" "sd_tss s3 = None"
    "sd_delsnd s3 = None" "sd_burstsnd s3 = None" "\<not> qs_approved (sd_qs s3)" "sd_sent s3 = sd_sent s" "sd_frto s3 = 0"
    "sd_cwnd s3 = max 1 (sd_cwnd s)" "rtt_ok s3"
    using assms by (simp_all add: s3_def s2_def s1_def s0_def upd_qs_def rtt_ok_def)
  have "sd_highest_ack s3 < sd_maxseq s3" using s3 assms(3) by simp
  from timeout_slowdown_span [OF this s3(9), of c]
  have s4: "span s4 = span s3" "rtt_ok s4" "sd_frto s4 \<noteq> 2" using s3(11) by (simp_all add: s4_def)
  define b where "b = (\<not> (sd_highest_ack s4 = sd_maxseq s4 \<and> cf_restart_bugfix c))"
  obtain s5 where s5: "reset_rtx_timer now False b s4 = Inr s5" "span s5 = span s4" "sd_frto s5 = sd_frto s4" "rtt_ok s5"
    "sd_t_seqno s5 = sd_highest_ack s4 + 1" "sd_rtx s5 \<noteq> None"
    using reset_rtx_timer_total [OF s4(2)] by blast
  define s6 where "s6 = s5\<lparr>sd_last_cwnd_action := CWND_ACTION_TIMEOUT\<rparr>"
  have sp: "span s6 = span s3" "rtt_ok s6" "sd_frto s6 \<noteq> 2" "sd_rtx s6 \<noteq> None" "sd_t_seqno s6 = sd_highest_ack s3 + 1"
    using s4 s5 by (simp_all add: s6_def) (simp_all add: span_def rtt_ok_def)
  then have s6: "sd_highest_ack s6 = sd_highest_ack s" "sd_curseq s6 = sd_curseq s" "sd_tss s6 = None" "sd_delsnd s6 = None"
    "sd_burstsnd s6 = None" "\<not> qs_approved (sd_qs s6)" "sd_sent s6 = sd_sent s" "sd_cwnd s6 = max 1 (sd_cwnd s)"
    "1 \<le> sd_t_seqno s6" "sd_t_seqno s6 = sd_highest_ack s + 1"
    using s3 assms(2) by (simp_all add: span_def)
  have w: "tcp_window c s6 = c_trunc (min (max 1 (sd_cwnd s)) (cf_wnd c))"
  proof -
    have "(if a < b then c_trunc a else c_trunc b) = c_trunc (min a b)" for a b :: real by (cases "a = b") (auto simp: min_def)
    then show ?thesis unfolding tcp_window_def if_not_P [OF sp(3)] s6(8) by blast
  qed
  have eq: "rtx_expire c now s = send_much c now False TCP_REASON_TIMEOUT 0 s6"
    unfolding rtx_expire_def Let_def s0_def [symmetric] s1_def [symmetric] s2_def [symmetric] s3_def [symmetric] s4_def [symmetric]
      b_def [symmetric] s5(1) rbind_Inr s6_def [symmetric] assms(8) ..
  obtain s' ps where r: "send_much c now False TCP_REASON_TIMEOUT 0 s6 = Inr s'" "sd_sent s' = sd_sent s6 @ ps"
    "map sp_seqno ps = [sd_t_seqno s6 .. min (sd_highest_ack s6 + tcp_window c s6) (sd_curseq s6 - 1)]" "sd_rtx s' \<noteq> None"
    using send_much_fills [OF assms(5-7) sp(2) s6(3,9,6,4,5), of now False TCP_REASON_TIMEOUT] sp(4) by blast
  have "1 \<le> c_trunc (min (max 1 (sd_cwnd s)) (cf_wnd c))" by (rule window_pos [OF assms(9)])
  then have "map sp_seqno ps \<noteq> []" using assms(4) unfolding r(3) w s6 by (simp add: upto_rec1)
  then show ?thesis using r s6 w unfolding eq by (intro exI [of _ s'] exI [of _ ps]) auto
qed

corollary timeout_goes_back_witness:
  "\<exists>s' ps. rtx_expire demo_conf 16 (demo_sender\<lparr>sd_highest_ack := 3, sd_maxseq := 9, sd_curseq := 20, sd_cwnd := 9 / 2\<rparr>) = Inr s' \<and>
    sd_sent s' = ps \<and> map sp_seqno ps = [4, 5, 6, 7] \<and> sd_rtx s' \<noteq> None"
proof -
  define s where "s = demo_sender\<lparr>sd_highest_ack := 3, sd_maxseq := 9, sd_curseq := 20, sd_cwnd := 9 / 2\<rparr>"
  have h: "rtt_ok s" by (simp add: s_def demo_sender_def demo_rtt_def tcp_rtt.defs rtt_ok_def)
  have s: "sd_highest_ack s = 3" "sd_maxseq s = 9" "sd_curseq s = 20" "sd_cwnd s = 9 / 2" "sd_tss s = None" "sd_delsnd s = None"
    "sd_burstsnd s = None" "sd_sent s = []"
    by (simp_all add: s_def demo_sender_def tcp_rtt.defs)
  have w: "c_trunc (min (max 1 (9 / 2)) 20) = 4" by (simp add: c_trunc_def)
  obtain s' ps where "rtx_expire demo_conf 16 s = Inr s'" "sd_sent s' = sd_sent s @ ps" "sd_rtx s' \<noteq> None"
    "map sp_seqno ps = [sd_highest_ack s + 1 .. min (sd_highest_ack s + c_trunc (min (max 1 (sd_cwnd s)) (cf_wnd demo_conf))) (sd_curseq s - 1)]"
    using timeout_goes_back [OF h, of demo_conf 16] s by (auto simp: demo_conf_def)
  moreover have "cf_wnd demo_conf = 20" by (simp add: demo_conf_def)
  ultimately show ?thesis using s w unfolding s_def [symmetric] by (simp add: upto.simps)
qed

end
