(* ===== verification/RouteLogic.thy ===== *)
theory RouteLogic
  imports Prelude
begin

section \<open>Route computation\<close>

text \<open>
  \<open>RouteLogic\<close> of routing/route.h and routing/route.cc, flat routing: the matrix of link
  costs between nodes, numbered from 1 in the matrix, and the next hops that
  \<open>compute_routes\<close> derives from it, for every source by Dijkstra's algorithm. A matrix is
  stored row by row in one array; \<open>size_\<close> is its stride. The adjacency matrix that was
  never allocated (a null pointer) is the empty list. The local arrays of
  \<open>compute_routes\<close> are functions; the loops stay below their length. Costs are real
  numbers and entries (\<open>void *\<close>) addresses.
\<close>

subsection \<open>The matrix of costs\<close>

type_synonym adj_entry = "real \<times> nat option"
type_synonym route_entry = "nat \<times> nat option"

record routing =
  rl_adj :: "adj_entry list"
  rl_route :: "route_entry list option"
  rl_size :: nat

definition INFINITY :: real where
  "INFINITY = 16383"

definition INDEX :: "int \<Rightarrow> int \<Rightarrow> nat \<Rightarrow> int" where
  "INDEX i j N = int N * i + j"

definition new_routing :: routing where
  "new_routing = \<lparr>rl_adj = [], rl_route = None, rl_size = 0\<rparr>"

definition reset_all :: "routing \<Rightarrow> routing" where
  "reset_all r = \<lparr>rl_adj = [], rl_route = None, rl_size = 0\<rparr>"

definition rl_alloc :: "nat \<Rightarrow> routing \<Rightarrow> routing" where
  "rl_alloc n r = r\<lparr>rl_size := n, rl_adj := replicate (n * n) (INFINITY, None)\<rparr>"

text \<open>The loop \<open>while (m <= n) m <<= 1\<close>, which starts from 16 or a size in use.\<close>

function double_beyond :: "nat \<Rightarrow> nat \<Rightarrow> nat" where
  "double_beyond m n = (if m = 0 \<or> n < m then m else double_beyond (2 * m) n)"
  by pat_completeness auto
termination
  by (relation "measure (\<lambda>(m, n). Suc n - m)") auto

declare double_beyond.simps [simp del]

text \<open>A larger matrix takes over the costs; the entries stay null.\<close>

definition check :: "int \<Rightarrow> routing \<Rightarrow> routing" where
  "check n r =
     (if n < int (rl_size r) then r
      else
        let os = rl_size r; m = double_beyond (if os = 0 then 16 else os) (nat n); r1 = rl_alloc m r in
        r1\<lparr>rl_adj := map (\<lambda>x. if x div m < os \<and> x mod m < os
             then (fst (rl_adj r ! (os * (x div m) + x mod m)), snd (rl_adj r1 ! x)) else rl_adj r1 ! x) [0..<m * m]\<rparr>)"

definition set_adj :: "int \<Rightarrow> int \<Rightarrow> (adj_entry \<Rightarrow> adj_entry) \<Rightarrow> routing \<Rightarrow> routing res" where
  "set_adj src dst f r = rbind (vec_upd (rl_adj r) (INDEX src dst (rl_size r)) f) (\<lambda>a. Inr (r\<lparr>rl_adj := a\<rparr>))"

definition rl_insert :: "int \<Rightarrow> int \<Rightarrow> real \<Rightarrow> routing \<Rightarrow> routing res" where
  "rl_insert src dst cost r = set_adj src dst (\<lambda>a. (cost, snd a)) (check dst (check src r))"

definition rl_insert_entry :: "int \<Rightarrow> int \<Rightarrow> real \<Rightarrow> nat option \<Rightarrow> routing \<Rightarrow> routing res" where
  "rl_insert_entry src dst cost e r = set_adj src dst (\<lambda>_. (cost, e)) (check dst (check src r))"

definition rl_reset :: "int \<Rightarrow> int \<Rightarrow> routing \<Rightarrow> routing res" where
  "rl_reset src dst r =
     (if \<not> src < int (rl_size r) then Inl Aborted
      else if \<not> dst < int (rl_size r) then Inl Aborted
      else set_adj src dst (\<lambda>a. (INFINITY, snd a)) r)"

subsection \<open>The next hops\<close>

record search =
  rs_parent :: "nat \<Rightarrow> nat"
  rs_hopcnt :: "nat \<Rightarrow> real"
  rs_route :: "nat \<Rightarrow> nat \<Rightarrow> route_entry"

type_synonym costs = "nat \<Rightarrow> nat \<Rightarrow> adj_entry"

abbreviation ADJ :: "costs \<Rightarrow> nat \<Rightarrow> nat \<Rightarrow> real" where
  "ADJ A i j \<equiv> fst (A i j)"

definition set_route :: "nat \<Rightarrow> nat \<Rightarrow> route_entry \<Rightarrow> search \<Rightarrow> search" where
  "set_route k v e s = s\<lparr>rs_route := (rs_route s)(k := (rs_route s k)(v := e))\<rparr>"

text \<open>The routes of all neighbours of \<open>k\<close>.\<close>

definition set_neighbour :: "costs \<Rightarrow> nat \<Rightarrow> nat \<Rightarrow> search \<Rightarrow> search" where
  "set_neighbour A k v s =
     (if rs_parent s v \<noteq> k then
        let s1 = s\<lparr>rs_hopcnt := (rs_hopcnt s)(v := ADJ A k v)\<rparr> in
        if rs_hopcnt s1 v \<noteq> INFINITY then set_route k v (v, snd (A k v)) s1 else s1
      else s)"

text \<open>The node that is nearest to those routed; 0, which is no node, if there is none.\<close>

definition nearest :: "nat \<Rightarrow> nat \<Rightarrow> search \<Rightarrow> nat" where
  "nearest n k s = fold (\<lambda>w u. if rs_parent s w \<noteq> k \<and> rs_hopcnt s w < rs_hopcnt s u then w else u) [1..<n] 0"

definition relax :: "costs \<Rightarrow> nat \<Rightarrow> nat \<Rightarrow> nat \<Rightarrow> search \<Rightarrow> search" where
  "relax A k u w s =
     (if rs_parent s w \<noteq> k \<and> rs_hopcnt s u + ADJ A u w < rs_hopcnt s w then
        (set_route k w (rs_route s k u) s)\<lparr>rs_hopcnt := (rs_hopcnt s)(w := rs_hopcnt s u + ADJ A u w)\<rparr>
      else s)"

definition route_one :: "costs \<Rightarrow> nat \<Rightarrow> nat \<Rightarrow> search \<Rightarrow> search" where
  "route_one A n k s =
     (let s1 = s\<lparr>rs_hopcnt := (rs_hopcnt s)(0 := INFINITY)\<rparr>; u = nearest n k s1; s2 = s1\<lparr>rs_parent := (rs_parent s1)(u := k)\<rparr> in
      if u = 0 then s2 else fold (relax A k u) [1..<n] s2)"

definition routes_from :: "costs \<Rightarrow> nat \<Rightarrow> nat \<Rightarrow> search \<Rightarrow> search" where
  "routes_from A n k s =
     (let s1 = fold (\<lambda>v s. s\<lparr>rs_parent := (rs_parent s)(v := v)\<rparr>) [0..<n] s;
          s2 = fold (set_neighbour A k) [1..<n] s1 in
      fold (\<lambda>_. route_one A n k) [1..<n] s2)"

text \<open>What \<open>new\<close> leaves uninitialised is never read before it is set.\<close>

definition all_routes :: "costs \<Rightarrow> nat \<Rightarrow> search" where
  "all_routes A n =
     fold (\<lambda>k. set_route k k (k, None)) [1..<n]
       (fold (routes_from A n) [1..<n] \<lparr>rs_parent = (\<lambda>_. 0), rs_hopcnt = (\<lambda>_. 0), rs_route = (\<lambda>_ _. (0, None))\<rparr>)"

definition adj_of :: "routing \<Rightarrow> costs" where
  "adj_of r = (\<lambda>i j. rl_adj r ! (rl_size r * i + j))"

definition compute_routes :: "routing \<Rightarrow> routing" where
  "compute_routes r =
     (let n = rl_size r; s = all_routes (adj_of r) n in
      r\<lparr>rl_route := Some (map (\<lambda>x. rs_route s (x div n) (x mod n)) [0..<n * n])\<rparr>)"

subsection \<open>Lookup and commands\<close>

text \<open>\<open>lookup_flat(int, int)\<close>: -1 before the routes are computed, -2 out of range.\<close>

definition lookup_flat :: "routing \<Rightarrow> int \<Rightarrow> int \<Rightarrow> int res" where
  "lookup_flat r sid did =
     (case rl_route r of
        None \<Rightarrow> Inr (-1)
      | Some ro \<Rightarrow>
          if sid + 1 \<ge> int (rl_size r) \<or> did + 1 \<ge> int (rl_size r) then Inr (-2)
          else rbind (vec_get ro (INDEX (sid + 1) (did + 1) (rl_size r))) (\<lambda>e. Inr (int (fst e) - 1)))"

datatype route_cmd = Compute | Reset_All | Insert int int "real option" | Reset_Link int int | Lookup int int

datatype route_reply = R_Ok | R_Error | R_Hop int

text \<open>The commands of flat routing; \<open>lookup\<close> calls the other \<open>lookup_flat\<close>, whose errors are those of Tcl.\<close>

definition lookup_reply :: "routing \<Rightarrow> int \<Rightarrow> int \<Rightarrow> route_reply res" where
  "lookup_reply r asrc adst =
     (case rl_route r of
        None \<Rightarrow> Inr R_Error
      | Some ro \<Rightarrow>
          if asrc + 1 \<ge> int (rl_size r) \<or> adst + 1 \<ge> int (rl_size r) then Inr R_Error
          else rbind (vec_get ro (INDEX (asrc + 1) (adst + 1) (rl_size r))) (\<lambda>e. Inr (R_Hop (int (fst e) - 1))))"

fun route_command :: "route_cmd \<Rightarrow> routing \<Rightarrow> (route_reply \<times> routing) res" where
  "route_command Compute r = Inr (R_Ok, if rl_adj r = [] then r else compute_routes r)"
| "route_command Reset_All r = Inr (R_Ok, reset_all r)"
| "route_command (Insert s d c) r =
     (if s + 1 \<le> 0 \<or> d + 1 \<le> 0 then Inr (R_Error, r)
      else rbind (rl_insert (s + 1) (d + 1) (case c of None \<Rightarrow> 1 | Some x \<Rightarrow> x) r) (\<lambda>r'. Inr (R_Ok, r')))"
| "route_command (Reset_Link s d) r =
     (if s + 1 \<le> 0 \<or> d + 1 \<le> 0 then Inr (R_Error, r)
      else rbind (rl_reset (s + 1) (d + 1) r) (\<lambda>r'. Inr (R_Ok, r')))"
| "route_command (Lookup s d) r = rbind (lookup_reply r s d) (\<lambda>x. Inr (x, r))"

end
