(* ===== verification/ShortestRoutes.thy ===== *)
theory ShortestRoutes
  imports RouteLogic
begin

section \<open>The routes are shortest paths\<close>

text \<open>
  What \<open>compute_routes\<close> finds: for every pair of nodes the first hop of a path of least
  cost, provided that its cost is below \<open>INFINITY\<close>, which is 16383, and 0 otherwise. The
  invariant of the search is \<open>known\<close>. The last part relates the matrix to a map from pairs
  of nodes to costs.
\<close>

subsection \<open>Paths\<close>

fun route_cost :: "costs \<Rightarrow> nat list \<Rightarrow> real" where
  "route_cost A (a # b # ps) = ADJ A a b + route_cost A (b # ps)"
| "route_cost A ps = 0"

definition route_path :: "nat \<Rightarrow> nat list \<Rightarrow> nat \<Rightarrow> nat \<Rightarrow> bool" where
  "route_path n ps a b \<longleftrightarrow> ps \<noteq> [] \<and> hd ps = a \<and> last ps = b \<and> set ps \<subseteq> {1..<n}"

definition costs_ok :: "costs \<Rightarrow> nat \<Rightarrow> bool" where
  "costs_ok A n \<longleftrightarrow> (\<forall>i\<in>{1..<n}. \<forall>j\<in>{1..<n}. 0 \<le> ADJ A i j \<and> ADJ A i j \<le> INFINITY)"

lemma route_path_single [simp]: "route_path n [x] a b \<longleftrightarrow> a = x \<and> b = x \<and> 1 \<le> x \<and> x < n"
  by (auto simp: route_path_def)

lemma route_path_Cons: "ps \<noteq> [] \<Longrightarrow> route_path n (x # ps) a b \<longleftrightarrow> a = x \<and> 1 \<le> x \<and> x < n \<and> route_path n ps (hd ps) b"
  by (auto simp: route_path_def)

lemma route_path_ends: "route_path n ps a b \<Longrightarrow> 1 \<le> a \<and> a < n \<and> 1 \<le> b \<and> b < n"
  by (cases ps) (auto simp: route_path_def split: if_splits dest!: last_in_set)

lemma route_cost_append: "route_cost A (ps @ u # qs) = route_cost A (ps @ [u]) + route_cost A (u # qs)"
  by (induction ps rule: induct_list012) auto

lemma route_cost_nonneg: "costs_ok A n \<Longrightarrow> set ps \<subseteq> {1..<n} \<Longrightarrow> 0 \<le> route_cost A ps"
  by (induction ps rule: induct_list012) (auto simp: costs_ok_def)

lemma route_path_snoc:
  assumes "route_path n ps a u" "1 \<le> w" "w < n"
  shows "route_path n (ps @ [w]) a w" "route_cost A (ps @ [w]) = route_cost A ps + ADJ A u w"
proof -
  show "route_path n (ps @ [w]) a w" using assms by (auto simp: route_path_def)
  obtain qs where "ps = qs @ [u]" using assms(1) by (metis append_butlast_last_id route_path_def)
  then show "route_cost A (ps @ [w]) = route_cost A ps + ADJ A u w" using route_cost_append [of A qs u "[w]"] by simp
qed

text \<open>A path out of a set has a first edge that leaves it.\<close>

lemma leaving_edge:
  assumes "costs_ok A n"
  shows "route_path n ps a b \<Longrightarrow> a \<in> S \<Longrightarrow> b \<notin> S \<Longrightarrow>
    \<exists>u w qs. u \<in> S \<and> w \<notin> S \<and> 1 \<le> w \<and> w < n \<and> route_path n qs a u \<and> route_cost A qs + ADJ A u w \<le> route_cost A ps"
proof (induction ps arbitrary: a rule: induct_list012)
  case (3 x y zs)
  have x: "a = x" "1 \<le> x" "x < n" and y: "1 \<le> y" "y < n" and tl: "route_path n (y # zs) y b"
    using 3(3) by (auto simp: route_path_def)
  have nn: "0 \<le> route_cost A (y # zs)" by (rule route_cost_nonneg [OF assms]) (use tl in \<open>simp add: route_path_def\<close>)
  show ?case
  proof (cases "y \<in> S")
    case True
    then obtain u w qs where q: "u \<in> S" "w \<notin> S" "1 \<le> w" "w < n" "route_path n qs y u"
      "route_cost A qs + ADJ A u w \<le> route_cost A (y # zs)" using 3(2) [OF tl _ 3(5)] by blast
    have ne: "qs \<noteq> []" "hd qs = y" using q(5) by (auto simp: route_path_def)
    then have "route_cost A (x # qs) = ADJ A x y + route_cost A qs" by (cases qs) auto
    moreover have "route_path n (x # qs) a u" using q(5) ne x by (simp add: route_path_Cons)
    ultimately show ?thesis using q by (intro exI [of _ u] exI [of _ w] exI [of _ "x # qs"]) simp
  next
    case False
    then show ?thesis using x y nn 3(4) by (intro exI [of _ x] exI [of _ y] exI [of _ "[x]"]) simp
  qed
qed (auto simp: route_path_def split: if_splits)

text \<open>The least cost of a path.\<close>

definition least_cost :: "costs \<Rightarrow> nat \<Rightarrow> nat \<Rightarrow> nat \<Rightarrow> real \<Rightarrow> bool" where
  "least_cost A n a b c \<longleftrightarrow>
     (\<exists>ps. route_path n ps a b \<and> route_cost A ps = c) \<and> (\<forall>ps. route_path n ps a b \<longrightarrow> c \<le> route_cost A ps)"

lemma least_cost_unique: "least_cost A n a b c \<Longrightarrow> least_cost A n a b d \<Longrightarrow> c = d"
  unfolding least_cost_def by (metis order_antisym)

subsection \<open>The invariant of the search from one source\<close>

definition hop_dist :: "nat \<Rightarrow> search \<Rightarrow> nat \<Rightarrow> real" where
  "hop_dist k s u = (if u = k then 0 else rs_hopcnt s u)"

definition in_tree :: "nat \<Rightarrow> nat \<Rightarrow> search \<Rightarrow> nat set" where
  "in_tree n k s = {v. 1 \<le> v \<and> v < n \<and> rs_parent s v = k}"

definition known :: "costs \<Rightarrow> nat \<Rightarrow> nat \<Rightarrow> search \<Rightarrow> bool" where
  "known A n k s \<longleftrightarrow> rs_parent s k = k \<and>
     (\<forall>u\<in>in_tree n k s. \<forall>w. 1 \<le> w \<and> w < n \<and> w \<notin> in_tree n k s \<longrightarrow> rs_hopcnt s w \<le> hop_dist k s u + ADJ A u w) \<and>
     (\<forall>w. 1 \<le> w \<and> w < n \<and> w \<noteq> k \<longrightarrow>
       rs_hopcnt s w < INFINITY \<and> (\<exists>qs. route_path n (k # fst (rs_route s k w) # qs) k w \<and>
          route_cost A (k # fst (rs_route s k w) # qs) = rs_hopcnt s w)
       \<or> rs_hopcnt s w = INFINITY \<and> fst (rs_route s k w) = 0) \<and>
     (\<forall>u\<in>in_tree n k s. hop_dist k s u < INFINITY \<and> (\<forall>ps. route_path n ps k u \<longrightarrow> hop_dist k s u \<le> route_cost A ps))"

definition finished :: "nat \<Rightarrow> nat \<Rightarrow> search \<Rightarrow> bool" where
  "finished n k s \<longleftrightarrow> (\<forall>w. 1 \<le> w \<and> w < n \<and> w \<notin> in_tree n k s \<longrightarrow> INFINITY \<le> rs_hopcnt s w)"

lemma nearest_least:
  shows "(nearest n k s = 0 \<or> 1 \<le> nearest n k s \<and> nearest n k s < n \<and> rs_parent s (nearest n k s) \<noteq> k) \<and>
    rs_hopcnt s (nearest n k s) \<le> rs_hopcnt s 0 \<and>
    (nearest n k s \<noteq> 0 \<longrightarrow> rs_hopcnt s (nearest n k s) < rs_hopcnt s 0) \<and>
    (\<forall>w. 1 \<le> w \<and> w < n \<and> rs_parent s w \<noteq> k \<longrightarrow> rs_hopcnt s (nearest n k s) \<le> rs_hopcnt s w)"
proof (induction n)
  case 0
  then show ?case by (simp add: nearest_def)
next
  case (Suc n)
  show ?case
  proof (cases "n = 0")
    case True
    then show ?thesis by (simp add: nearest_def)
  next
    case False
    then have "nearest (Suc n) k s = (if rs_parent s n \<noteq> k \<and> rs_hopcnt s n < rs_hopcnt s (nearest n k s) then n else nearest n k s)"
      by (simp add: nearest_def)
    then show ?thesis using Suc False by (auto simp: less_Suc_eq)
  qed
qed

text \<open>The start: only the source is in_tree.\<close>

lemma parents_reset:
  "fold (\<lambda>v s. s\<lparr>rs_parent := (rs_parent s)(v := v)\<rparr>) [0..<n] s = s\<lparr>rs_parent := (\<lambda>v. if v < n then v else rs_parent s v)\<rparr>"
  by (induction n) (auto simp: fun_eq_iff less_Suc_eq)

lemma neighbours_set:
  "let s' = fold (set_neighbour A k) [1..<n] s in
   rs_parent s' = rs_parent s \<and>
   (\<forall>v. rs_hopcnt s' v = (if 1 \<le> v \<and> v < n \<and> rs_parent s v \<noteq> k then ADJ A k v else rs_hopcnt s v)) \<and>
   (\<forall>i. i \<noteq> k \<longrightarrow> rs_route s' i = rs_route s i) \<and>
   (\<forall>v. rs_route s' k v = (if 1 \<le> v \<and> v < n \<and> rs_parent s v \<noteq> k \<and> ADJ A k v \<noteq> INFINITY then (v, snd (A k v)) else rs_route s k v))"
proof (induction n)
  case 0
  then show ?case by simp
next
  case (Suc n)
  show ?case
  proof (cases "n = 0")
    case True
    then show ?thesis by simp
  next
    case False
    define s1 where "s1 = fold (set_neighbour A k) [1..<n] s"
    have "fold (set_neighbour A k) [1..<Suc n] s = set_neighbour A k n s1" using False by (simp add: s1_def)
    then show ?thesis using Suc False unfolding s1_def [symmetric] Let_def
      by (auto simp: set_neighbour_def set_route_def Let_def less_Suc_eq)
  qed
qed

lemma known_start:
  assumes "costs_ok A n" "1 \<le> k" "k < n" "\<forall>w. rs_route s k w = (0, None)"
  defines "s2 \<equiv> fold (set_neighbour A k) [1..<n] (fold (\<lambda>v s. s\<lparr>rs_parent := (rs_parent s)(v := v)\<rparr>) [0..<n] s)"
  shows "known A n k s2" and "\<forall>i. i \<noteq> k \<longrightarrow> rs_route s2 i = rs_route s i" and "in_tree n k s2 = {k}"
proof -
  define s1 where "s1 = s\<lparr>rs_parent := (\<lambda>v. if v < n then v else rs_parent s v)\<rparr>"
  have s2: "s2 = fold (set_neighbour A k) [1..<n] s1" by (simp add: s2_def s1_def parents_reset)
  note N = neighbours_set [of A k n s1, folded s2, unfolded Let_def]
  have p: "rs_parent s2 v = (if v < n then v else rs_parent s v)" for v using N by (simp add: s1_def)
  show r: "in_tree n k s2 = {k}" using assms(2,3) by (auto simp: in_tree_def p)
  show "\<forall>i. i \<noteq> k \<longrightarrow> rs_route s2 i = rs_route s i" using N by (simp add: s1_def)
  have h: "rs_hopcnt s2 w = ADJ A k w" "rs_route s2 k w = (if ADJ A k w \<noteq> INFINITY then (w, snd (A k w)) else (0, None))"
    if "1 \<le> w" "w < n" "w \<noteq> k" for w
    using N that assms(4) by (auto simp: s1_def)
  have le: "ADJ A k w \<le> INFINITY" if "1 \<le> w" "w < n" for w using assms(1-3) that by (simp add: costs_ok_def)
  have b: "rs_hopcnt s2 w < INFINITY \<and> (\<exists>qs. route_path n (k # fst (rs_route s2 k w) # qs) k w \<and>
          route_cost A (k # fst (rs_route s2 k w) # qs) = rs_hopcnt s2 w)
       \<or> rs_hopcnt s2 w = INFINITY \<and> fst (rs_route s2 k w) = 0" if w: "1 \<le> w" "w < n" "w \<noteq> k" for w
  proof (cases "ADJ A k w = INFINITY")
    case True
    then show ?thesis using h [OF w] by simp
  next
    case False
    then have "rs_hopcnt s2 w < INFINITY" using h [OF w] le [OF w(1,2)] by simp
    moreover have "route_path n (k # w # []) k w" using w assms(2,3) by (simp add: route_path_def)
    ultimately show ?thesis using h [OF w] False by (intro disjI1 conjI exI [of _ "[]"]) simp_all
  qed
  have c: "0 \<le> route_cost A ps" if "route_path n ps k k" for ps
    by (rule route_cost_nonneg [OF assms(1)]) (use that in \<open>simp add: route_path_def\<close>)
  show "known A n k s2" unfolding known_def r
    using b c assms(2,3) h by (auto simp: p hop_dist_def INFINITY_def)
qed

text \<open>One node is in_tree, and its neighbours learn of the paths through it.\<close>

lemma relaxed:
  "rs_parent s u = k \<Longrightarrow> let s' = fold (relax A k u) [1..<n] s in
   rs_parent s' = rs_parent s \<and> (\<forall>i. i \<noteq> k \<longrightarrow> rs_route s' i = rs_route s i) \<and>
   (\<forall>v. rs_hopcnt s' v = (if 1 \<le> v \<and> v < n \<and> rs_parent s v \<noteq> k \<and> rs_hopcnt s u + ADJ A u v < rs_hopcnt s v
      then rs_hopcnt s u + ADJ A u v else rs_hopcnt s v)) \<and>
   (\<forall>v. rs_route s' k v = (if 1 \<le> v \<and> v < n \<and> rs_parent s v \<noteq> k \<and> rs_hopcnt s u + ADJ A u v < rs_hopcnt s v
      then rs_route s k u else rs_route s k v))"
proof (induction n)
  case 0
  then show ?case by simp
next
  case (Suc n)
  show ?case
  proof (cases "n = 0")
    case True
    then show ?thesis by simp
  next
    case False
    define s1 where "s1 = fold (relax A k u) [1..<n] s"
    have "fold (relax A k u) [1..<Suc n] s = relax A k u n s1" using False by (simp add: s1_def)
    then show ?thesis using Suc False unfolding s1_def [symmetric] Let_def
      by (auto simp: relax_def set_route_def less_Suc_eq)
  qed
qed

lemma knownD:
  assumes "known A n k s"
  shows "rs_parent s k = k"
    "\<And>u w. u \<in> in_tree n k s \<Longrightarrow> 1 \<le> w \<Longrightarrow> w < n \<Longrightarrow> w \<notin> in_tree n k s \<Longrightarrow> rs_hopcnt s w \<le> hop_dist k s u + ADJ A u w"
    "\<And>w. 1 \<le> w \<Longrightarrow> w < n \<Longrightarrow> w \<noteq> k \<Longrightarrow>
       rs_hopcnt s w < INFINITY \<and> (\<exists>qs. route_path n (k # fst (rs_route s k w) # qs) k w \<and>
          route_cost A (k # fst (rs_route s k w) # qs) = rs_hopcnt s w)
       \<or> rs_hopcnt s w = INFINITY \<and> fst (rs_route s k w) = 0"
    "\<And>u. u \<in> in_tree n k s \<Longrightarrow> hop_dist k s u < INFINITY"
    "\<And>u ps. u \<in> in_tree n k s \<Longrightarrow> route_path n ps k u \<Longrightarrow> hop_dist k s u \<le> route_cost A ps"
  using assms by (simp_all add: known_def)

lemma known_bound: "known A n k s \<Longrightarrow> 1 \<le> w \<Longrightarrow> w < n \<Longrightarrow> w \<noteq> k \<Longrightarrow> rs_hopcnt s w \<le> INFINITY"
  using knownD(3) by fastforce

text \<open>Whatever leaves the routed nodes costs as much as the nearest of the others.\<close>

lemma unrouted_far:
  assumes "costs_ok A n" "known A n k s" "1 \<le> k" "k < n" "route_path n ps k v" "v \<notin> in_tree n k s"
    and "\<And>w. 1 \<le> w \<Longrightarrow> w < n \<Longrightarrow> w \<notin> in_tree n k s \<Longrightarrow> b \<le> rs_hopcnt s w"
  shows "b \<le> route_cost A ps"
proof -
  have "k \<in> in_tree n k s" using knownD(1) [OF assms(2)] assms(3,4) by (simp add: in_tree_def)
  then obtain x w qs where x: "x \<in> in_tree n k s" "w \<notin> in_tree n k s" "1 \<le> w" "w < n" "route_path n qs k x"
    "route_cost A qs + ADJ A x w \<le> route_cost A ps" using leaving_edge [OF assms(1,5) _ assms(6)] by auto
  have "b \<le> rs_hopcnt s w" by (rule assms(7) [OF x(3,4,2)])
  also have "\<dots> \<le> hop_dist k s x + ADJ A x w" by (rule knownD(2) [OF assms(2) x(1,3,4,2)])
  also have "\<dots> \<le> route_cost A qs + ADJ A x w" using knownD(5) [OF assms(2) x(1,5)] by simp
  finally show ?thesis using x(6) by simp
qed

lemma route_one_step:
  assumes "costs_ok A n" "1 \<le> k" "k < n" "known A n k s"
  defines "s' \<equiv> route_one A n k s"
  shows "known A n k s'" and "\<forall>i. i \<noteq> k \<longrightarrow> rs_route s' i = rs_route s i"
    and "finished n k s \<Longrightarrow> finished n k s'"
    and "finished n k s' \<or> card (in_tree n k s') = Suc (card (in_tree n k s))"
proof -
  define s1 where "s1 = s\<lparr>rs_hopcnt := (rs_hopcnt s)(0 := INFINITY)\<rparr>"
  define u where "u = nearest n k s1"
  define s2 where "s2 = s1\<lparr>rs_parent := (rs_parent s1)(u := k)\<rparr>"
  have s': "s' = (if u = 0 then s2 else fold (relax A k u) [1..<n] s2)"
    by (simp only: s'_def route_one_def Let_def s1_def [symmetric] u_def [symmetric] s2_def [symmetric])
  have h: "rs_hopcnt s1 w = rs_hopcnt s w" if "1 \<le> w" for w using that by (simp add: s1_def)
  have other: "rs_parent s1 = rs_parent s" "rs_route s1 = rs_route s" "rs_hopcnt s1 0 = INFINITY" by (simp_all add: s1_def)
  note near = nearest_least [of n k s1, folded u_def, unfolded other(1,3)]
  have u: "u = 0 \<or> 1 \<le> u \<and> u < n \<and> u \<notin> in_tree n k s \<and> rs_hopcnt s u < INFINITY" using near h [of u] by (auto simp: in_tree_def)
  have least: "rs_hopcnt s1 u \<le> rs_hopcnt s w" if "1 \<le> w" "w < n" "w \<notin> in_tree n k s" for w
    using near that h [OF that(1)] by (auto simp: in_tree_def)
  have "known A n k s' \<and> (\<forall>i. i \<noteq> k \<longrightarrow> rs_route s' i = rs_route s i) \<and>
    (if u = 0 then finished n k s' else card (in_tree n k s') = Suc (card (in_tree n k s)))"
  proof (cases "u = 0")
    case True
    then have s'0: "s' = s\<lparr>rs_hopcnt := (rs_hopcnt s)(0 := INFINITY), rs_parent := (rs_parent s)(0 := k)\<rparr>"
      by (simp add: s' s2_def s1_def)
    have eqs: "rs_route s' = rs_route s" "in_tree n k s' = in_tree n k s" "rs_parent s' k = rs_parent s k"
      using assms(2) by (auto simp: s'0 in_tree_def)
    have hq: "rs_hopcnt s' w = rs_hopcnt s w" if "1 \<le> w" for w using that by (simp add: s'0)
    have d: "hop_dist k s' v = hop_dist k s v" if "v \<in> in_tree n k s" for v
      using that by (simp add: hop_dist_def in_tree_def hq)
    have "known A n k s'"
      using assms(4) unfolding known_def eqs by (simp add: hq d)
    moreover have "finished n k s'" using least True other(3) by (simp add: finished_def hq eqs)
    ultimately show ?thesis using eqs(1) True by simp
  next
    case False
    then have u': "1 \<le> u" "u < n" "u \<notin> in_tree n k s" "rs_hopcnt s u < INFINITY" using u by auto
    have "k \<in> in_tree n k s" using knownD(1) [OF assms(4)] assms(2,3) by (simp add: in_tree_def)
    then have uk: "u \<noteq> k" using u'(3) by blast
    have s'2: "s' = fold (relax A k u) [1..<n] s2" using False by (simp add: s')
    note R = relaxed [of s2 u k A n, folded s'2, unfolded Let_def]
    have s2: "rs_parent s2 u = k" "rs_route s2 = rs_route s" "rs_hopcnt s2 v = rs_hopcnt s v" "rs_parent s2 v = k \<longleftrightarrow> v = u \<or> rs_parent s v = k"
      if "1 \<le> v" for v using that by (auto simp: s2_def s1_def)
    have par: "rs_parent s' = rs_parent s2" using R s2(1) [OF order_refl] by blast
    have rt: "in_tree n k s' = insert u (in_tree n k s)" using u' s2(4) by (auto simp: in_tree_def par)
    have hop: "rs_hopcnt s' v = (if v < n \<and> v \<noteq> u \<and> rs_parent s v \<noteq> k \<and> rs_hopcnt s u + ADJ A u v < rs_hopcnt s v
        then rs_hopcnt s u + ADJ A u v else rs_hopcnt s v)" if "1 \<le> v" for v
      using R s2(1) [OF order_refl] s2(3) [OF u'(1)] s2(3,4) [OF that] that by auto
    have nx: "rs_route s' k v = (if v < n \<and> v \<noteq> u \<and> rs_parent s v \<noteq> k \<and> rs_hopcnt s u + ADJ A u v < rs_hopcnt s v
        then rs_route s k u else rs_route s k v)" if "1 \<le> v" for v
      using R s2(1,2) [OF order_refl] s2(3) [OF u'(1)] s2(3,4) [OF that] that by auto
    have d: "hop_dist k s' v = hop_dist k s v" if "v \<in> insert u (in_tree n k s)" for v
      using that u' hop [of v] by (auto simp: hop_dist_def in_tree_def)
    have du: "hop_dist k s u = rs_hopcnt s u" using uk by (simp add: hop_dist_def)
    have short: "hop_dist k s u \<le> route_cost A ps" if "route_path n ps k u" for ps
      unfolding du using least h [OF u'(1)] by (intro unrouted_far [OF assms(1,4,2,3) that u'(3)]) simp
    have a: "rs_hopcnt s' w \<le> hop_dist k s' v + ADJ A v w"
      if v: "v \<in> insert u (in_tree n k s)" and w: "1 \<le> w" "w < n" "w \<notin> insert u (in_tree n k s)" for v w
    proof -
      have "rs_hopcnt s' w \<le> rs_hopcnt s w" "rs_hopcnt s' w \<le> rs_hopcnt s u + ADJ A u w"
        using hop [OF w(1)] w by (auto simp: in_tree_def)
      then show ?thesis using v d [OF v] du knownD(2) [OF assms(4), of v w] w by fastforce
    qed
    have b: "rs_hopcnt s' w < INFINITY \<and> (\<exists>qs. route_path n (k # fst (rs_route s' k w) # qs) k w \<and>
          route_cost A (k # fst (rs_route s' k w) # qs) = rs_hopcnt s' w)
       \<or> rs_hopcnt s' w = INFINITY \<and> fst (rs_route s' k w) = 0" if w: "1 \<le> w" "w < n" "w \<noteq> k" for w
    proof (cases "w \<noteq> u \<and> rs_parent s w \<noteq> k \<and> rs_hopcnt s u + ADJ A u w < rs_hopcnt s w")
      case True
      then have e: "rs_hopcnt s' w = rs_hopcnt s u + ADJ A u w" "rs_route s' k w = rs_route s k u" using hop [OF w(1)] nx [OF w(1)] w by auto
      obtain qs where qs: "route_path n (k # fst (rs_route s k u) # qs) k u" "route_cost A (k # fst (rs_route s k u) # qs) = rs_hopcnt s u"
        using knownD(3) [OF assms(4) u'(1,2) uk] u'(4) by auto
      have "rs_hopcnt s' w < INFINITY" using True e known_bound [OF assms(4) w] by simp
      then show ?thesis using route_path_snoc(1) [OF qs(1) w(1,2)] route_path_snoc(2) [OF qs(1) w(1,2), of A] qs(2) e by (intro disjI1 conjI exI [of _ "qs @ [w]"]) simp_all
    next
      case False
      then have "rs_hopcnt s' w = rs_hopcnt s w" "rs_route s' k w = rs_route s k w" using hop [OF w(1)] nx [OF w(1)] by auto
      then show ?thesis using knownD(3) [OF assms(4) w] by simp
    qed
    have "known A n k s'"
      unfolding known_def rt using a b short d du u'(4) knownD(1,4,5) [OF assms(4)] s2(4) [OF assms(2)] by (auto simp: par)
    moreover have "finite (in_tree n k s)" by (rule finite_subset [of _ "{..<n}"]) (auto simp: in_tree_def)
    ultimately show ?thesis using u'(3) False R s2(1,2) [OF order_refl] by (simp add: rt)
  qed
  then show "known A n k s'" "\<forall>i. i \<noteq> k \<longrightarrow> rs_route s' i = rs_route s i"
    "finished n k s' \<or> card (in_tree n k s') = Suc (card (in_tree n k s))" by (auto split: if_splits)
  show "finished n k s'" if "finished n k s"
  proof -
    have "u = 0" using u that by (force simp: finished_def)
    then show ?thesis using \<open>known A n k s' \<and> _\<close> by simp
  qed
qed

lemma route_steps:
  assumes "costs_ok A n" "1 \<le> k" "k < n" "known A n k s"
  shows "let s' = fold (\<lambda>_. route_one A n k) is s in known A n k s' \<and> (\<forall>i. i \<noteq> k \<longrightarrow> rs_route s' i = rs_route s i) \<and>
    (finished n k s' \<or> card (in_tree n k s') = length is + card (in_tree n k s))"
proof (induction "is" rule: rev_induct)
  case Nil
  then show ?case using assms(4) by simp
next
  case (snoc i "is")
  define s1 where "s1 = fold (\<lambda>_. route_one A n k) is s"
  have s1: "known A n k s1" "\<forall>i. i \<noteq> k \<longrightarrow> rs_route s1 i = rs_route s i"
    "finished n k s1 \<or> card (in_tree n k s1) = length is + card (in_tree n k s)"
    using snoc by (simp_all add: s1_def Let_def)
  have "fold (\<lambda>_. route_one A n k) (is @ [i]) s = route_one A n k s1" by (simp add: s1_def)
  then show ?case using route_one_step [OF assms(1-3) s1(1)] s1(2,3) by (auto simp: Let_def)
qed

text \<open>What a row of the matrix of next hops says.\<close>

definition good_row :: "costs \<Rightarrow> nat \<Rightarrow> nat \<Rightarrow> (nat \<Rightarrow> route_entry) \<Rightarrow> bool" where
  "good_row A n k row \<longleftrightarrow> (\<forall>w. 1 \<le> w \<and> w < n \<and> w \<noteq> k \<longrightarrow>
     (\<exists>c qs. c < INFINITY \<and> least_cost A n k w c \<and> route_path n (k # fst (row w) # qs) k w \<and>
        route_cost A (k # fst (row w) # qs) = c)
     \<or> (\<forall>ps. route_path n ps k w \<longrightarrow> INFINITY \<le> route_cost A ps) \<and> fst (row w) = 0)"

lemma routes_from_good:
  assumes "costs_ok A n" "1 \<le> k" "k < n" "\<forall>w. rs_route s k w = (0, None)"
  shows "good_row A n k (rs_route (routes_from A n k s) k)" and "i \<noteq> k \<Longrightarrow> rs_route (routes_from A n k s) i = rs_route s i"
proof -
  define s2 where "s2 = fold (set_neighbour A k) [1..<n] (fold (\<lambda>v s. s\<lparr>rs_parent := (rs_parent s)(v := v)\<rparr>) [0..<n] s)"
  note st = known_start [OF assms, folded s2_def]
  define s3 where "s3 = routes_from A n k s"
  have s3: "s3 = fold (\<lambda>_. route_one A n k) [1..<n] s2" by (simp add: s3_def routes_from_def s2_def)
  note R = route_steps [OF assms(1-3) st(1), of "[1..<n]", folded s3, unfolded Let_def]
  show "rs_route (routes_from A n k s) i = rs_route s i" if "i \<noteq> k" using R st(2) that by (simp add: s3_def [symmetric])
  have kn: "known A n k s3" using R by blast
  have "in_tree n k s3 \<subseteq> {1..<n}" by (auto simp: in_tree_def)
  then have "card (in_tree n k s3) \<le> card {1..<n}" by (intro card_mono) simp_all
  then have "card (in_tree n k s3) \<noteq> length [1..<n] + card (in_tree n k s2)" using st(3) by simp
  then have fin: "finished n k s3" using R by blast
  have "(\<exists>c qs. c < INFINITY \<and> least_cost A n k w c \<and> route_path n (k # fst (rs_route s3 k w) # qs) k w \<and>
        route_cost A (k # fst (rs_route s3 k w) # qs) = c)
     \<or> (\<forall>ps. route_path n ps k w \<longrightarrow> INFINITY \<le> route_cost A ps) \<and> fst (rs_route s3 k w) = 0"
    if w: "1 \<le> w" "w < n" "w \<noteq> k" for w
  proof (cases "w \<in> in_tree n k s3")
    case True
    have d: "hop_dist k s3 w = rs_hopcnt s3 w" using w(3) by (simp add: hop_dist_def)
    have "rs_hopcnt s3 w < INFINITY" "\<And>ps. route_path n ps k w \<Longrightarrow> rs_hopcnt s3 w \<le> route_cost A ps"
      using knownD(4,5) [OF kn True] by (simp_all add: d)
    moreover from this(1) obtain qs where qs: "route_path n (k # fst (rs_route s3 k w) # qs) k w"
      "route_cost A (k # fst (rs_route s3 k w) # qs) = rs_hopcnt s3 w" using knownD(3) [OF kn w] by auto
    ultimately have "least_cost A n k w (rs_hopcnt s3 w)" unfolding least_cost_def by blast
    then show ?thesis using \<open>rs_hopcnt s3 w < INFINITY\<close> qs by blast
  next
    case False
    then have "INFINITY \<le> rs_hopcnt s3 w" using fin w by (simp add: finished_def)
    then have "fst (rs_route s3 k w) = 0" using knownD(3) [OF kn w] by auto
    moreover have "INFINITY \<le> route_cost A ps" if "route_path n ps k w" for ps
      using fin by (intro unrouted_far [OF assms(1) kn assms(2,3) that False]) (simp add: finished_def)
    ultimately show ?thesis by blast
  qed
  then show "good_row A n k (rs_route (routes_from A n k s) k)" unfolding good_row_def s3_def by blast
qed

lemma all_rows_good:
  assumes "costs_ok A n"
  shows "m \<le> n \<Longrightarrow> let s = fold (routes_from A n) [1..<m] \<lparr>rs_parent = (\<lambda>_. 0), rs_hopcnt = (\<lambda>_. 0), rs_route = (\<lambda>_ _. (0, None))\<rparr> in
    (\<forall>k. 1 \<le> k \<and> k < m \<longrightarrow> good_row A n k (rs_route s k)) \<and> (\<forall>k w. \<not> (1 \<le> k \<and> k < m) \<longrightarrow> rs_route s k w = (0, None))"
proof (induction m)
  case 0
  then show ?case by simp
next
  case (Suc m)
  show ?case
  proof (cases "m = 0")
    case True
    then show ?thesis by simp
  next
    case False
    define s where "s = fold (routes_from A n) [1..<m] \<lparr>rs_parent = (\<lambda>_. 0), rs_hopcnt = (\<lambda>_. 0), rs_route = (\<lambda>_ _. (0, None))\<rparr>"
    have IH: "\<forall>k. 1 \<le> k \<and> k < m \<longrightarrow> good_row A n k (rs_route s k)" "\<forall>k w. \<not> (1 \<le> k \<and> k < m) \<longrightarrow> rs_route s k w = (0, None)"
      using Suc by (simp_all add: s_def Let_def)
    have "fold (routes_from A n) [1..<Suc m] \<lparr>rs_parent = (\<lambda>_. 0), rs_hopcnt = (\<lambda>_. 0), rs_route = (\<lambda>_ _. (0, None))\<rparr> = routes_from A n m s"
      using False by (simp add: s_def)
    then show ?thesis using routes_from_good [OF assms, of m s] IH Suc.prems False by (auto simp: Let_def less_Suc_eq)
  qed
qed

lemma self_routes:
  "rs_route (fold (\<lambda>k. set_route k k (k, None)) [1..<n] s) i j = (if i = j \<and> 1 \<le> i \<and> i < n then (i, None) else rs_route s i j)"
proof (induction n)
  case (Suc n)
  then show ?case by (cases "n = 0") (auto simp: set_route_def less_Suc_eq)
qed simp

lemma all_routes_good:
  assumes "costs_ok A n" "1 \<le> k" "k < n"
  shows "good_row A n k (rs_route (all_routes A n) k)" and "rs_route (all_routes A n) k k = (k, None)"
proof -
  show "rs_route (all_routes A n) k k = (k, None)"
    using assms(2,3) by (simp add: all_routes_def self_routes del: One_nat_def)
  have "good_row A n k (\<lambda>w. if w = k then (k, None) else row w) \<longleftrightarrow> good_row A n k row" for row by (auto simp: good_row_def)
  moreover have "rs_route (all_routes A n) k = (\<lambda>w. if w = k then (k, None) else
      rs_route (fold (routes_from A n) [1..<n] \<lparr>rs_parent = (\<lambda>_. 0), rs_hopcnt = (\<lambda>_. 0), rs_route = (\<lambda>_ _. (0, None))\<rparr>) k w)"
    using assms(2,3) by (auto simp: all_routes_def self_routes fun_eq_iff simp del: One_nat_def)
  ultimately show "good_row A n k (rs_route (all_routes A n) k)"
    using all_rows_good [OF assms(1), of n] assms(2,3) by (simp add: Let_def)
qed

subsection \<open>Lookup\<close>

text \<open>A matrix with its stride, and costs that no path of links exceeds.\<close>

definition matrix_ok :: "routing \<Rightarrow> bool" where
  "matrix_ok r \<longleftrightarrow> length (rl_adj r) = rl_size r * rl_size r \<and> costs_ok (adj_of r) (rl_size r)"

lemma lookup_computed:
  assumes "0 \<le> s" "0 \<le> d" "nat s + 1 < rl_size r" "nat d + 1 < rl_size r"
  shows "lookup_flat (compute_routes r) s d =
    Inr (int (fst (rs_route (all_routes (adj_of r) (rl_size r)) (nat s + 1) (nat d + 1))) - 1)"
proof -
  let ?n = "rl_size r"
  let ?i = "nat s + 1" and ?j = "nat d + 1"
  have i: "INDEX (s + 1) (d + 1) ?n = int (?i * ?n + ?j)" using assms(1,2) by (simp add: INDEX_def algebra_simps)
  have lt: "?i * ?n + ?j < ?n * ?n"
  proof -
    have "?i * ?n + ?j < Suc ?i * ?n" using assms(4) by simp
    also have "\<dots> \<le> ?n * ?n" using assms(3) by (intro mult_le_mono1) simp
    finally show ?thesis .
  qed
  have dm: "(?i * ?n + ?j) div ?n = ?i" "(?i * ?n + ?j) mod ?n = ?j"
    using assms(4) by (simp_all only: div_mult_self3 mod_mult_self3 div_less mod_less add_0_right neq0_conv [symmetric])
  let ?ro = "map (\<lambda>x. rs_route (all_routes (adj_of r) ?n) (x div ?n) (x mod ?n)) [0..<?n * ?n]"
  have "?ro ! (?i * ?n + ?j) = rs_route (all_routes (adj_of r) ?n) ?i ?j" by (subst nth_map) (simp_all only: length_upt minus_nat.diff_0 lt nth_upt add_0_left dm)
  moreover have "vec_get ?ro (int (?i * ?n + ?j)) = Inr (?ro ! (?i * ?n + ?j))" by (rule vec_get_nat) (simp only: length_map length_upt minus_nat.diff_0 lt)
  moreover have "lookup_flat (compute_routes r) s d = rbind (vec_get ?ro (int (?i * ?n + ?j))) (\<lambda>e. Inr (int (fst e) - 1))"
  proof -
    have "\<not> (s + 1 \<ge> int ?n \<or> d + 1 \<ge> int ?n)" using assms by auto
    moreover have "rl_route (compute_routes r) = Some ?ro" "rl_size (compute_routes r) = ?n" by (simp_all add: compute_routes_def Let_def)
    ultimately show ?thesis by (simp only: lookup_flat_def option.case i if_False)
  qed
  ultimately show ?thesis by simp
qed

subsection \<open>The matrix under the commands\<close>

lemma double_beyond_gt: "0 < m \<Longrightarrow> n < double_beyond m n \<and> m \<le> double_beyond m n"
proof (induction m n rule: double_beyond.induct)
  case (1 m n)
  then show ?case by (subst (1 2) double_beyond.simps) auto
qed

definition square :: "routing \<Rightarrow> bool" where
  "square r \<longleftrightarrow> length (rl_adj r) = rl_size r * rl_size r"

text \<open>The cost of the link between two nodes, in their own numbers.\<close>

definition link_cost :: "routing \<Rightarrow> int \<Rightarrow> int \<Rightarrow> real" where
  "link_cost r s d = (if s + 1 < int (rl_size r) \<and> d + 1 < int (rl_size r)
     then ADJ (adj_of r) (nat (s + 1)) (nat (d + 1)) else INFINITY)"

lemma nth_index: "i < n \<Longrightarrow> j < n \<Longrightarrow> (n * i + j) div n = i \<and> (n * i + j) mod n = j \<and> n * i + j < n * (n::nat)"
proof (intro conjI)
  assume i: "i < n" and j: "j < n"
  show "(n * i + j) div n = i" using i j by (simp add: mult.commute)
  show "(n * i + j) mod n = j" using j by simp
  have "n * i + j < n * Suc i" using j by simp
  also have "\<dots> \<le> n * n" using i by (intro mult_le_mono2) simp
  finally show "n * i + j < n * n" .
qed

lemma check_matrix:
  assumes "square r" "0 \<le> n"
  shows "square (check n r)" "n < int (rl_size (check n r))" "rl_size r \<le> rl_size (check n r)"
    "rl_route (check n r) = rl_route r"
    "i < rl_size (check n r) \<Longrightarrow> j < rl_size (check n r) \<Longrightarrow>
      ADJ (adj_of (check n r)) i j = (if i < rl_size r \<and> j < rl_size r then ADJ (adj_of r) i j else INFINITY)"
proof -
  define os where "os = rl_size r"
  define m where "m = double_beyond (if os = 0 then 16 else os) (nat n)"
  have m: "nat n < m" "os \<le> m" using double_beyond_gt [of "if os = 0 then 16 else os" "nat n"] by (auto simp: m_def split: if_splits)
  have ch: "check n r = (if n < int os then r else (rl_alloc m r)\<lparr>rl_adj := map (\<lambda>x. if x div m < os \<and> x mod m < os
      then (fst (rl_adj r ! (os * (x div m) + x mod m)), snd (replicate (m * m) (INFINITY, None) ! x)) else replicate (m * m) (INFINITY, None) ! x) [0..<m * m]\<rparr>)"
    by (simp add: check_def Let_def rl_alloc_def m_def os_def)
  show "square (check n r)" using assms by (simp add: square_def ch rl_alloc_def)
  show "n < int (rl_size (check n r))" using m(1) assms(2) by (auto simp: ch rl_alloc_def os_def)
  show "rl_size r \<le> rl_size (check n r)" using m(2) by (auto simp: ch rl_alloc_def os_def)
  show "rl_route (check n r) = rl_route r" by (auto simp: ch rl_alloc_def)
  show "ADJ (adj_of (check n r)) i j = (if i < rl_size r \<and> j < rl_size r then ADJ (adj_of r) i j else INFINITY)"
    if ij: "i < rl_size (check n r)" "j < rl_size (check n r)"
  proof (cases "n < int os")
    case True
    then show ?thesis using ij by (simp add: ch)
  next
    case False
    then have sz: "rl_size (check n r) = m" by (simp add: ch rl_alloc_def)
    note ix = nth_index [OF ij, unfolded sz]
    have "rl_adj (check n r) ! (m * i + j) = (if i < os \<and> j < os then (fst (rl_adj r ! (os * i + j)), None) else (INFINITY, None))"
      using False ix by (simp add: ch)
    then show ?thesis by (simp add: adj_of_def sz os_def [symmetric])
  qed
qed

lemma set_adj_matrix:
  assumes "square r" "0 \<le> s" "0 \<le> d" "s < int (rl_size r)" "d < int (rl_size r)"
  shows "\<exists>r'. set_adj s d f r = Inr r' \<and> square r' \<and> rl_size r' = rl_size r \<and> rl_route r' = rl_route r \<and>
    (\<forall>i j. i < rl_size r \<longrightarrow> j < rl_size r \<longrightarrow>
      adj_of r' i j = (if i = nat s \<and> j = nat d then f (adj_of r i j) else adj_of r i j))"
proof -
  let ?n = "rl_size r"
  have sd: "nat s < ?n" "nat d < ?n" using assms(2-5) by simp_all
  have ix: "INDEX s d ?n = int (?n * nat s + nat d)" using assms(2,3) by (simp add: INDEX_def)
  have "?n * nat s + nat d < length (rl_adj r)" using nth_index [OF sd] assms(1) by (simp add: square_def)
  then have upd: "set_adj s d f r = Inr (r\<lparr>rl_adj := (rl_adj r)[?n * nat s + nat d := f (rl_adj r ! (?n * nat s + nat d))]\<rparr>)"
    unfolding set_adj_def ix by (simp only: vec_upd_nat rbind_Inr)
  have "?n * nat s + nat d = ?n * i + j \<longleftrightarrow> i = nat s \<and> j = nat d" if "i < ?n" "j < ?n" for i j
    using nth_index [OF that] nth_index [OF sd] by metis
  then show ?thesis using upd nth_index [OF sd] assms(1) by (simp add: square_def adj_of_def nth_list_update)
qed

text \<open>The costs as a map from pairs of nodes, changed by the commands.\<close>

fun link_map :: "route_cmd \<Rightarrow> (int \<times> int \<Rightarrow> real) \<Rightarrow> int \<times> int \<Rightarrow> real" where
  "link_map (Insert s d c) m = (if s < 0 \<or> d < 0 then m else m((s, d) := (case c of None \<Rightarrow> 1 | Some x \<Rightarrow> x)))"
| "link_map (Reset_Link s d) m = (if s < 0 \<or> d < 0 then m else m((s, d) := INFINITY))"
| "link_map Reset_All m = (\<lambda>_. INFINITY)"
| "link_map _ m = m"

definition route_commands :: "route_cmd list \<Rightarrow> routing \<Rightarrow> routing res" where
  "route_commands cmds r = rfold (\<lambda>c r. rbind (route_command c r) (\<lambda>(_, r'). Inr r')) cmds r"

definition costs_of :: "routing \<Rightarrow> (int \<times> int \<Rightarrow> real) \<Rightarrow> bool" where
  "costs_of r m \<longleftrightarrow> square r \<and> (\<forall>s d. 0 \<le> s \<longrightarrow> 0 \<le> d \<longrightarrow> link_cost r s d = m (s, d))"

lemma insert_costs:
  assumes "costs_of r m" "0 \<le> s" "0 \<le> d"
  shows "\<exists>r'. rl_insert (s + 1) (d + 1) c r = Inr r' \<and> costs_of r' (m((s, d) := c))"
proof -
  define r1 where "r1 = check (s + 1) r"
  define r2 where "r2 = check (d + 1) r1"
  have sq: "square r" using assms(1) by (simp add: costs_of_def)
  have s0: "0 \<le> s + 1" and d0: "0 \<le> d + 1" using assms(2,3) by simp_all
  note M1 = check_matrix [OF sq s0, folded r1_def]
  note M2 = check_matrix [OF M1(1) d0, folded r2_def]
  have lt: "s + 1 < int (rl_size r2)" "d + 1 < int (rl_size r2)" using M1(2) M2(2,3) by simp_all
  obtain r' where r': "set_adj (s + 1) (d + 1) (\<lambda>a. (c, snd a)) r2 = Inr r'" "square r'" "rl_size r' = rl_size r2"
    "\<forall>i j. i < rl_size r2 \<longrightarrow> j < rl_size r2 \<longrightarrow>
      adj_of r' i j = (if i = nat (s + 1) \<and> j = nat (d + 1) then (c, snd (adj_of r2 i j)) else adj_of r2 i j)"
    using set_adj_matrix [OF M2(1) s0 d0 lt] by blast
  have "link_cost r' a b = (m((s, d) := c)) (a, b)" if ab: "0 \<le> a" "0 \<le> b" for a b
  proof (cases "a + 1 < int (rl_size r2) \<and> b + 1 < int (rl_size r2)")
    case True
    then have i: "nat (a + 1) < rl_size r2" "nat (b + 1) < rl_size r2" using ab by (simp_all add: nat_less_iff)
    have same: "nat (a + 1) = nat (s + 1) \<and> nat (b + 1) = nat (d + 1) \<longleftrightarrow> a = s \<and> b = d" using ab assms(2,3) by auto
    have "ADJ (adj_of r2) (nat (a + 1)) (nat (b + 1)) = link_cost r a b"
    proof -
      have "ADJ (adj_of r2) (nat (a + 1)) (nat (b + 1)) = (if nat (a + 1) < rl_size r1 \<and> nat (b + 1) < rl_size r1
          then ADJ (adj_of r1) (nat (a + 1)) (nat (b + 1)) else INFINITY)" by (rule M2(5) [OF i])
      also have "\<dots> = (if nat (a + 1) < rl_size r \<and> nat (b + 1) < rl_size r
          then ADJ (adj_of r) (nat (a + 1)) (nat (b + 1)) else INFINITY)"
        using M1(5) [of "nat (a + 1)" "nat (b + 1)"] M1(3) by auto
      also have "\<dots> = link_cost r a b"
        using ab unfolding link_cost_def by (simp add: nat_less_iff)
      finally show ?thesis .
    qed
    then have "link_cost r' a b = (if a = s \<and> b = d then c else link_cost r a b)"
      using True i r'(3,4) same by (simp add: link_cost_def)
    then show ?thesis using assms(1) ab by (auto simp: costs_of_def)
  next
    case False
    then have "\<not> (a = s \<and> b = d)" using lt by auto
    moreover have "link_cost r a b = INFINITY" using False M1(3) M2(3) by (auto simp: link_cost_def)
    ultimately show ?thesis using False r'(3) assms(1) ab by (auto simp: link_cost_def costs_of_def)
  qed
  then show ?thesis using r'(1,2) by (simp add: rl_insert_def r1_def r2_def costs_of_def)
qed

end
