(* ===== verification/RoutedPaths.thy ===== *)
theory RoutedPaths
  imports ShortestRoutes FlowControl
begin

section \<open>Routes after a history of commands\<close>

text \<open>
  What the commands of \<open>RouteLogic\<close> make of the matrix, and what follows for lookups and
  for the path of a flow: after any history of insertions and resets of links the routes are
  shortest paths and \<open>install_path()\<close> finds one; and what happens to lookups when the
  matrix grows after the routes were computed.
\<close>

subsection \<open>Commands\<close>

lemma compute_costs [simp]: "costs_of (compute_routes r) m \<longleftrightarrow> costs_of r m"
  by (simp add: costs_of_def link_cost_def square_def compute_routes_def Let_def adj_of_def)

lemma reset_costs [simp]: "costs_of (reset_all r) (\<lambda>_. INFINITY)"
  by (simp add: costs_of_def link_cost_def square_def reset_all_def)

lemma costs_of_step:
  assumes "route_command c r = Inr (x, r')" "costs_of r m"
  shows "costs_of r' (link_map c m)"
proof (cases c)
  case Compute
  then show ?thesis using assms by (auto split: if_splits)
next
  case Reset_All
  then show ?thesis using assms by auto
next
  case (Insert s d k)
  show ?thesis
  proof (cases "s < 0 \<or> d < 0")
    case True
    then have "s + 1 \<le> 0 \<or> d + 1 \<le> 0" by auto
    then show ?thesis using assms Insert True by simp
  next
    case False
    then have "\<not> (s + 1 \<le> 0 \<or> d + 1 \<le> 0)" by auto
    then have "rl_insert (s + 1) (d + 1) (case k of None \<Rightarrow> 1 | Some x \<Rightarrow> x) r = Inr r'"
      using assms(1) Insert by (auto simp: rbind_eq_Inr)
    then show ?thesis
      using insert_costs [OF assms(2), of s d "case k of None \<Rightarrow> 1 | Some x \<Rightarrow> x"] False Insert by auto
  qed
next
  case (Reset_Link s d)
  show ?thesis
  proof (cases "s < 0 \<or> d < 0")
    case True
    then have "s + 1 \<le> 0 \<or> d + 1 \<le> 0" by auto
    then show ?thesis using assms Reset_Link True by simp
  next
    case False
    then have nn: "\<not> (s + 1 \<le> 0 \<or> d + 1 \<le> 0)" "0 \<le> s + 1" "0 \<le> d + 1" by auto
    then have "rl_reset (s + 1) (d + 1) r = Inr r'" using assms(1) Reset_Link by (auto simp: rbind_eq_Inr)
    then have lt: "s + 1 < int (rl_size r)" "d + 1 < int (rl_size r)" and set: "set_adj (s + 1) (d + 1) (\<lambda>a. (INFINITY, snd a)) r = Inr r'"
      by (auto simp: rl_reset_def split: if_splits)
    have sq: "square r" using assms(2) by (simp add: costs_of_def)
    have r': "square r'" "rl_size r' = rl_size r" "\<forall>i j. i < rl_size r \<longrightarrow> j < rl_size r \<longrightarrow>
        adj_of r' i j = (if i = nat (s + 1) \<and> j = nat (d + 1) then (INFINITY, snd (adj_of r i j)) else adj_of r i j)"
      using set_adj_matrix [OF sq nn(2,3) lt, of "\<lambda>a. (INFINITY, snd a)"] set by auto
    have "link_cost r' a b = (m((s, d) := INFINITY)) (a, b)" if ab: "0 \<le> a" "0 \<le> b" for a b
    proof -
      have same: "nat (a + 1) = nat (s + 1) \<and> nat (b + 1) = nat (d + 1) \<longleftrightarrow> a = s \<and> b = d" using ab False by auto
      have "link_cost r' a b = (if a = s \<and> b = d then INFINITY else link_cost r a b)"
        unfolding link_cost_def r'(2) using r'(3) same ab by (auto simp: nat_less_iff)
      then show ?thesis using assms(2) ab by (simp add: costs_of_def)
    qed
    then show ?thesis using r'(1) Reset_Link False by (simp add: costs_of_def)
  qed
next
  case (Lookup s d)
  then show ?thesis using assms by (auto simp: rbind_eq_Inr)
qed

lemma costs_of_commands: "route_commands cmds r = Inr r' \<Longrightarrow> costs_of r m \<Longrightarrow> costs_of r' (fold link_map cmds m)"
proof (induction cmds arbitrary: r m)
  case Nil
  then show ?case by (simp add: route_commands_def)
next
  case (Cons c cmds)
  then obtain x r1 where r1: "route_command c r = Inr (x, r1)" "route_commands cmds r1 = Inr r'"
    by (auto simp: route_commands_def rbind_eq_Inr)
  then show ?case using Cons.IH [OF r1(2) costs_of_step [OF r1(1) Cons.prems(2)]] by simp
qed

lemma costs_of_new: "costs_of new_routing (\<lambda>_. INFINITY)"
  by (simp add: costs_of_def link_cost_def square_def new_routing_def)

definition fair_cost :: "route_cmd \<Rightarrow> bool" where
  "fair_cost c \<longleftrightarrow> (case c of Insert s d (Some x) \<Rightarrow> 0 < x \<and> x \<le> INFINITY | _ \<Rightarrow> True)"

lemma fair_costs: "\<forall>c\<in>set cmds. fair_cost c \<Longrightarrow> \<forall>p. 0 < m p \<and> m p \<le> INFINITY \<Longrightarrow>
    0 < fold link_map cmds m p \<and> fold link_map cmds m p \<le> INFINITY"
proof (induction cmds arbitrary: m)
  case (Cons c cmds)
  have "\<forall>p. 0 < link_map c m p \<and> link_map c m p \<le> INFINITY"
    using Cons.prems by (cases c) (auto simp: fair_cost_def INFINITY_def split: option.splits)
  then show ?case using Cons by simp
qed (cases p, simp)

lemma commands_costs_ok:
  assumes "route_commands cmds new_routing = Inr r" "\<forall>c\<in>set cmds. fair_cost c"
  shows "costs_ok (adj_of r) (rl_size r)"
    and "\<And>i j. 1 \<le> i \<Longrightarrow> i < rl_size r \<Longrightarrow> 1 \<le> j \<Longrightarrow> j < rl_size r \<Longrightarrow> 0 < ADJ (adj_of r) i j"
proof -
  have c: "costs_of r (fold link_map cmds (\<lambda>_. INFINITY))" by (rule costs_of_commands [OF assms(1) costs_of_new])
  have f: "0 < fold link_map cmds (\<lambda>_. INFINITY) p \<and> fold link_map cmds (\<lambda>_. INFINITY) p \<le> INFINITY" for p
    by (rule fair_costs [OF assms(2)]) (simp add: INFINITY_def)
  have "ADJ (adj_of r) i j = fold link_map cmds (\<lambda>_. INFINITY) (int i - 1, int j - 1)" if "1 \<le> i" "i < rl_size r" "1 \<le> j" "j < rl_size r" for i j
  proof -
    have "link_cost r (int i - 1) (int j - 1) = fold link_map cmds (\<lambda>_. INFINITY) (int i - 1, int j - 1)"
      using c that by (simp add: costs_of_def)
    then show ?thesis using that by (simp add: link_cost_def)
  qed
  then show "costs_ok (adj_of r) (rl_size r)"
    and "\<And>i j. 1 \<le> i \<Longrightarrow> i < rl_size r \<Longrightarrow> 1 \<le> j \<Longrightarrow> j < rl_size r \<Longrightarrow> 0 < ADJ (adj_of r) i j"
    using f by (auto simp: costs_ok_def less_imp_le)
qed

text \<open>
  The matrix of link costs is a map. After any sequence of commands from a new
  \<open>RouteLogic\<close>, whatever growth of the matrix the node numbers made necessary, the cost
  between two nodes is what the last \<open>insert\<close> or \<open>reset\<close> of the pair made it, and
  \<open>INFINITY\<close> if there was none.
\<close>

theorem matrix_is_a_map:
  assumes "route_commands cmds new_routing = Inr r" and "0 \<le> s" and "0 \<le> d"
  shows "link_cost r s d = fold link_map cmds (\<lambda>_. INFINITY) (s, d)"
  using costs_of_commands [OF assms(1) costs_of_new] assms(2,3) by (simp add: costs_of_def)

definition demo_cmds :: "route_cmd list" where
  "demo_cmds = [Insert 0 1 None, Insert 1 2 (Some 2), Insert 0 2 (Some 7), Insert 2 20 None, Reset_Link 1 0]"

lemma demo_cmds_run: "\<exists>r. route_commands demo_cmds new_routing = Inr r \<and> rl_size r = 32"
  by (simp add: demo_cmds_def route_commands_def new_routing_def rl_insert_def rl_reset_def check_def set_adj_def INDEX_def rl_alloc_def
    Let_def double_beyond.simps vec_upd_def)

theorem matrix_is_a_map_witness:
  "\<exists>r. route_commands demo_cmds new_routing = Inr r \<and> link_cost r 1 2 = 2 \<and> link_cost r 2 20 = 1 \<and> link_cost r 2 0 = INFINITY"
proof -
  obtain r where r: "route_commands demo_cmds new_routing = Inr r" using demo_cmds_run by blast
  from matrix_is_a_map [OF r, of 1 2] matrix_is_a_map [OF r, of 2 20] matrix_is_a_map [OF r, of 2 0] r
  show ?thesis by (simp add: demo_cmds_def)
qed

subsection \<open>Following the routes\<close>

text \<open>What the routes from one node to another say.\<close>

lemma computed_hops:
  assumes "route_commands cmds new_routing = Inr r" and "\<forall>c\<in>set cmds. fair_cost c"
    and "0 \<le> s" and "s + 1 < int (rl_size r)" and "0 \<le> d" and "d + 1 < int (rl_size r)" and "s \<noteq> d"
  shows "\<exists>h. lookup_flat (compute_routes r) s d = Inr h \<and>
    (if \<exists>ps. route_path (rl_size r) ps (nat s + 1) (nat d + 1) \<and> route_cost (adj_of r) ps < INFINITY
     then 0 \<le> h \<and> (\<exists>c qs. least_cost (adj_of r) (rl_size r) (nat s + 1) (nat d + 1) c \<and>
        route_path (rl_size r) ((nat s + 1) # (nat h + 1) # qs) (nat s + 1) (nat d + 1) \<and>
        route_cost (adj_of r) ((nat s + 1) # (nat h + 1) # qs) = c)
     else h = -1)"
proof -
  let ?A = "adj_of r" and ?n = "rl_size r" and ?s = "nat s + 1" and ?d = "nat d + 1"
  have lt: "?s < ?n" "?d < ?n" "?d \<noteq> ?s" using assms(3-7) by auto
  define w where "w = fst (rs_route (all_routes ?A ?n) ?s ?d)"
  have look: "lookup_flat (compute_routes r) s d = Inr (int w - 1)"
    using lookup_computed [OF assms(3,5) lt(1,2)] by (simp add: w_def)
  have row: "good_row ?A ?n ?s (rs_route (all_routes ?A ?n) ?s)"
    using all_routes_good(1) [OF commands_costs_ok(1) [OF assms(1,2)], of ?s] lt(1) by simp
  then consider c qs where "c < INFINITY" "least_cost ?A ?n ?s ?d c" "route_path ?n (?s # w # qs) ?s ?d" "route_cost ?A (?s # w # qs) = c"
    | "\<forall>ps. route_path ?n ps ?s ?d \<longrightarrow> INFINITY \<le> route_cost ?A ps" "w = 0"
    using lt unfolding good_row_def w_def by fastforce
  then show ?thesis
  proof cases
    case 1
    have "1 \<le> w" using 1(3) by (simp add: route_path_def)
    then have h: "nat (int w - 1) + 1 = w" "0 \<le> int w - 1" by simp_all
    have "\<exists>ps. route_path ?n ps ?s ?d \<and> route_cost ?A ps < INFINITY" using 1 by blast
    then show ?thesis unfolding look using 1 h by (intro exI [of _ "int w - 1"]) auto
  next
    case 2
    then have "\<not> (\<exists>ps. route_path ?n ps ?s ?d \<and> route_cost ?A ps < INFINITY)" by (meson not_le)
    then show ?thesis unfolding look using 2(2) by simp
  qed
qed

text \<open>The tail of a path of least cost has least cost.\<close>

lemma least_cost_tail:
  assumes "least_cost A n a b c" "route_path n (a # f # qs) a b" "route_cost A (a # f # qs) = c"
  shows "least_cost A n f b (c - ADJ A a f)"
  unfolding least_cost_def
proof (intro conjI allI impI)
  have p: "route_path n (f # qs) f b" "1 \<le> a" "a < n" using assms(2) by (auto simp: route_path_def)
  show "\<exists>ps. route_path n ps f b \<and> route_cost A ps = c - ADJ A a f" using p(1) assms(3) by (intro exI [of _ "f # qs"]) auto
  fix ps assume ps: "route_path n ps f b"
  then have ne: "ps \<noteq> []" "hd ps = f" by (auto simp: route_path_def)
  then have "route_path n (a # ps) a b" using ps p by (simp add: route_path_Cons)
  then have "c \<le> route_cost A (a # ps)" using assms(1) by (simp add: least_cost_def)
  then show "c - ADJ A a f \<le> route_cost A ps" using ne by (cases ps) auto
qed

definition hop_of :: "routing \<Rightarrow> int \<Rightarrow> int \<Rightarrow> int" where
  "hop_of r s d = (case lookup_flat r s d of Inr h \<Rightarrow> h | Inl _ \<Rightarrow> 0)"

lemma route_from_least:
  assumes "route_commands cmds new_routing = Inr r" "\<forall>c\<in>set cmds. fair_cost c" "0 \<le> d" "d + 1 < int (rl_size r)"
  shows "0 \<le> s \<Longrightarrow> s + 1 < int (rl_size r) \<Longrightarrow> least_cost (adj_of r) (rl_size r) (nat s + 1) (nat d + 1) c \<Longrightarrow> c < INFINITY \<Longrightarrow>
    \<exists>ns. route_from (hop_of (compute_routes r)) s d = Some ns \<and> route_path (rl_size r) (map (\<lambda>x. nat x + 1) ns) (nat s + 1) (nat d + 1) \<and>
      route_cost (adj_of r) (map (\<lambda>x. nat x + 1) ns) = c \<and> distinct ns \<and>
      (\<forall>x\<in>set ns. 0 \<le> x \<and> (\<exists>c' \<le> c. least_cost (adj_of r) (rl_size r) (nat x + 1) (nat d + 1) c'))"
proof (induction "card {x \<in> {1..<rl_size r}. \<exists>c'. least_cost (adj_of r) (rl_size r) x (nat d + 1) c' \<and> c' < c}" arbitrary: s c rule: less_induct)
  case less
  let ?A = "adj_of r" and ?n = "rl_size r" and ?R = "compute_routes r"
  let ?N = "\<lambda>c. {x \<in> {1..<?n}. \<exists>c'. least_cost ?A ?n x (nat d + 1) c' \<and> c' < c}"
  note cok = commands_costs_ok [OF assms(1,2)]
  show ?case
  proof (cases "s = d")
    case True
    have "route_path ?n [nat s + 1] (nat s + 1) (nat d + 1)" using less.prems(1,2) True by simp
    then have "c \<le> route_cost ?A [nat s + 1]" using less.prems(3) unfolding least_cost_def by blast
    moreover obtain ps where "route_path ?n ps (nat s + 1) (nat d + 1)" "route_cost ?A ps = c" using less.prems(3) by (auto simp: least_cost_def)
    then have "0 \<le> c" using route_cost_nonneg [OF cok(1), of ps] by (simp add: route_path_def)
    ultimately have c: "c = 0" by simp
    have "route_from (hop_of ?R) s d = Some [s]" using True by (simp add: route_from.simps)
    then show ?thesis using True less.prems c by (intro exI [of _ "[s]"]) auto
  next
    case False
    have ex: "\<exists>ps. route_path ?n ps (nat s + 1) (nat d + 1) \<and> route_cost ?A ps < INFINITY"
      using less.prems(3,4) by (auto simp: least_cost_def)
    obtain h c2 qs where h: "lookup_flat ?R s d = Inr h" "0 \<le> h" "least_cost ?A ?n (nat s + 1) (nat d + 1) c2"
      "route_path ?n ((nat s + 1) # (nat h + 1) # qs) (nat s + 1) (nat d + 1)" "route_cost ?A ((nat s + 1) # (nat h + 1) # qs) = c2"
      using computed_hops [OF assms(1,2) less.prems(1,2) assms(3,4) False] ex by auto
    have c2: "c2 = c" by (rule least_cost_unique [OF h(3) less.prems(3)])
    let ?c = "c - ADJ ?A (nat s + 1) (nat h + 1)"
    have tail: "least_cost ?A ?n (nat h + 1) (nat d + 1) ?c" using least_cost_tail [OF h(3,4,5)] by (simp add: c2)
    have hr: "nat h + 1 < ?n" "nat s + 1 < ?n" using h(4) by (simp_all add: route_path_def)
    have pos: "0 < ADJ ?A (nat s + 1) (nat h + 1)" by (rule cok(2)) (use hr in auto)
    have "?N ?c \<subset> ?N c"
    proof
      show "?N ?c \<subseteq> ?N c" using pos by force
      have "nat h + 1 \<in> ?N c" using tail hr pos by auto
      moreover have "nat h + 1 \<notin> ?N ?c" using least_cost_unique [OF tail] by auto
      ultimately show "?N ?c \<noteq> ?N c" by blast
    qed
    then have "card (?N ?c) < card (?N c)" by (intro psubset_card_mono) simp_all
    moreover have "h + 1 < int ?n" using hr h(2) by simp
    moreover have "?c < INFINITY" using pos less.prems(4) by simp
    ultimately obtain ns where ns: "route_from (hop_of ?R) h d = Some ns" "route_path ?n (map (\<lambda>x. nat x + 1) ns) (nat h + 1) (nat d + 1)"
      "route_cost ?A (map (\<lambda>x. nat x + 1) ns) = ?c" "distinct ns"
      "\<forall>x\<in>set ns. 0 \<le> x \<and> (\<exists>c' \<le> ?c. least_cost ?A ?n (nat x + 1) (nat d + 1) c')"
      using less.hyps [OF _ h(2) _ tail] by blast
    have hop: "hop_of ?R s d = h" using h(1) by (simp add: hop_of_def)
    have run: "route_from (hop_of ?R) s d = Some (s # ns)" using False ns(1) by (simp add: route_from.simps [of _ s] hop)
    obtain a ms where a: "ns = a # ms" "nat a + 1 = nat h + 1" using ns(2) by (cases ns) (auto simp: route_path_def)
    have "route_path ?n (map (\<lambda>x. nat x + 1) (s # ns)) (nat s + 1) (nat d + 1)"
      using ns(2) hr a by (simp add: route_path_Cons)
    moreover have "route_cost ?A (map (\<lambda>x. nat x + 1) (s # ns)) = c" using ns(3) a by simp
    moreover have "s \<notin> set ns"
    proof
      assume "s \<in> set ns"
      then obtain c' where "c' \<le> ?c" "least_cost ?A ?n (nat s + 1) (nat d + 1) c'" using ns(5) by blast
      then show False using least_cost_unique [OF _ less.prems(3)] pos by fastforce
    qed
    moreover have "\<forall>x\<in>set (s # ns). 0 \<le> x \<and> (\<exists>c' \<le> c. least_cost ?A ?n (nat x + 1) (nat d + 1) c')"
    proof
      fix x assume "x \<in> set (s # ns)"
      then consider "x = s" | "x \<in> set ns" by auto
      then show "0 \<le> x \<and> (\<exists>c' \<le> c. least_cost ?A ?n (nat x + 1) (nat d + 1) c')"
      proof cases
        case 1
        then show ?thesis using less.prems by auto
      next
        case 2
        then obtain c' where "0 \<le> x" "c' \<le> ?c" "least_cost ?A ?n (nat x + 1) (nat d + 1) c'" using ns(5) by blast
        then show ?thesis using pos by (intro conjI exI [of _ c']) auto
      qed
    qed
    ultimately show ?thesis using run ns(4) by (intro exI [of _ "s # ns"]) simp
  qed
qed

text \<open>The loop never ends once the next hop is the node itself.\<close>

lemma route_from_stuck:
  assumes "f now dst = now" "now \<noteq> dst"
  shows "route_from f now dst = None"
proof -
  have "f now dst = now \<and> now \<noteq> dst \<longrightarrow> False" if "route_from f now dst = Some ns" for ns
    by (rule route_from.raw_induct [OF _ that, where P = "\<lambda>f now dst ns. f now dst = now \<and> now \<noteq> dst \<longrightarrow> False"])
      (auto split: if_splits simp: bind_eq_Some_conv)
  then show ?thesis using assms by (cases "route_from f now dst") auto
qed

lemma lookup_nowhere:
  assumes "costs_ok (adj_of r) (rl_size r)" "0 \<le> d" "d + 1 < int (rl_size r)"
  shows "lookup_flat (compute_routes r) (-1) d = Inr (-1)"
proof -
  let ?n = "rl_size r" and ?j = "nat (d + 1)"
  let ?ro = "map (\<lambda>x. rs_route (all_routes (adj_of r) ?n) (x div ?n) (x mod ?n)) [0..<?n * ?n]"
  have n: "?j < ?n" "0 < ?n" using assms(2,3) by auto
  have "?n * 1 \<le> ?n * ?n" using n(2) by (intro mult_le_mono2) simp
  then have lt: "?j < ?n * ?n" using n(1) by (simp only: mult_1_right order_less_le_trans)
  have "rs_route (all_routes (adj_of r) ?n) 0 ?j = (0, None)"
    using all_rows_good [OF assms(1) order_refl] by (simp add: all_routes_def self_routes Let_def del: One_nat_def)
  then have "?ro ! ?j = (0, None)" using lt n(1) by simp
  moreover have "vec_get ?ro (int ?j) = Inr (?ro ! ?j)" using lt by (intro vec_get_nat) simp
  moreover have "rl_route (compute_routes r) = Some ?ro" "rl_size (compute_routes r) = ?n" by (simp_all add: compute_routes_def Let_def)
  moreover have "INDEX ((-1) + 1) (d + 1) ?n = int ?j" using assms(2) by (simp add: INDEX_def)
  moreover have "\<not> ((-1) + 1 \<ge> int ?n \<or> d + 1 \<ge> int ?n)" using n assms(3) by auto
  ultimately show ?thesis unfolding lookup_flat_def by (simp only: option.case if_False rbind_Inr) simp
qed

text \<open>
  C34. \<open>install_path()\<close> on computed routes. If the destination can be reached at a cost
  below \<open>INFINITY\<close>, the loop ends and the path of the flow is a path of least cost from the
  host to the destination that visits no node twice; if not, the loop never ends: it goes on
  asking for the next hop of node -1.
\<close>

theorem installed_path_is_shortest:
  assumes "route_commands cmds new_routing = Inr r" and "\<forall>c\<in>set cmds. fair_cost c"
    and "s = tc_addr tc w" and "d = ag_dst_addr (w_agents w ! tc_self tc)"
    and "0 \<le> s" and "s + 1 < int (rl_size r)" and "0 \<le> d" and "d + 1 < int (rl_size r)" and "s \<noteq> d"
  shows "if \<exists>ps. route_path (rl_size r) ps (nat s + 1) (nat d + 1) \<and> route_cost (adj_of r) ps < INFINITY
    then \<exists>ns. install_path (hop_of (compute_routes r)) w tc = Inr (tc\<lparr>tc_flow_path := ns, tc_prev_link := Some 1, tc_btnk := Some 1\<rparr>) \<and>
      hd ns = s \<and> last ns = d \<and> distinct ns \<and>
      least_cost (adj_of r) (rl_size r) (nat s + 1) (nat d + 1) (route_cost (adj_of r) (map (\<lambda>x. nat x + 1) ns))
    else install_path (hop_of (compute_routes r)) w tc = Inl Diverges"
proof (cases "\<exists>ps. route_path (rl_size r) ps (nat s + 1) (nat d + 1) \<and> route_cost (adj_of r) ps < INFINITY")
  case True
  then obtain c where c: "least_cost (adj_of r) (rl_size r) (nat s + 1) (nat d + 1) c" "c < INFINITY"
    using computed_hops [OF assms(1,2,5-9)] unfolding least_cost_def by (metis order_le_less_trans)
  obtain ns where ns: "route_from (hop_of (compute_routes r)) s d = Some ns"
    "route_path (rl_size r) (map (\<lambda>x. nat x + 1) ns) (nat s + 1) (nat d + 1)"
    "route_cost (adj_of r) (map (\<lambda>x. nat x + 1) ns) = c" "distinct ns" "\<forall>x\<in>set ns. 0 \<le> x"
    using route_from_least [OF assms(1,2,7,8,5,6) c] by blast
  have ne: "ns \<noteq> []" using ns(2) by (auto simp: route_path_def)
  have ends: "nat (hd ns) = nat s" "nat (last ns) = nat d" using ns(2) ne by (simp_all add: route_path_def hd_map last_map)
  then have e: "hd ns = s" "last ns = d" using ns(5) ne assms(5,7) hd_in_set [OF ne] last_in_set [OF ne] by (metis eq_nat_nat_iff)+
  then have "1 < length ns" using ne assms(9) by (cases ns) (auto split: if_splits)
  then have "install_path (hop_of (compute_routes r)) w tc = Inr (tc\<lparr>tc_flow_path := ns, tc_prev_link := Some 1, tc_btnk := Some 1\<rparr>)"
    using ns(1) assms(3,4) by (simp add: install_path_def)
  then show ?thesis using True e ns(3,4) c(1) by auto
next
  case False
  then have "lookup_flat (compute_routes r) s d = Inr (-1)" using computed_hops [OF assms(1,2,5-9)] by auto
  then have h: "hop_of (compute_routes r) s d = -1" by (simp add: hop_of_def)
  have "hop_of (compute_routes r) (-1) d = -1"
    using lookup_nowhere [OF commands_costs_ok(1) [OF assms(1,2)] assms(7,8)] by (simp add: hop_of_def)
  then have "route_from (hop_of (compute_routes r)) (-1) d = None" using assms(7) by (intro route_from_stuck) auto
  then have "route_from (hop_of (compute_routes r)) s d = None" using assms(9) by (simp add: route_from.simps [of _ s] h)
  then show ?thesis using False assms(3,4) by (simp add: install_path_def)
qed

subsection \<open>Growth after the computation\<close>

lemma double_beyond_doubles: "0 < m \<Longrightarrow> double_beyond m n \<noteq> m \<Longrightarrow> 2 * m \<le> double_beyond m n"
  using double_beyond_gt [of "2 * m" n] by (subst (asm) double_beyond.simps, subst double_beyond.simps) (auto split: if_splits)

lemma check_size: "rl_size (check n r) = rl_size r \<or> 2 * rl_size r \<le> rl_size (check n r)"
  using double_beyond_doubles [of "rl_size r" "nat n"] by (auto simp: check_def Let_def rl_alloc_def)

text \<open>
  \<open>insert\<close> does not recompute the routes, but \<open>lookup_flat\<close> reads the old table with
  the stride of the new matrix. Once a node number beyond the matrix has made it grow after
  \<open>compute\<close>, a lookup from any node in the upper half of the old numbers reads beyond
  the end of the table, until the routes are computed again.
\<close>

theorem stale_routes_overread:
  assumes "square r" and "route_command (Insert a b c) (compute_routes r) = Inr (R_Ok, r')"
    and "rl_size r < rl_size r'" and "0 \<le> d" and "d + 1 < int (rl_size r)"
    and "s + 1 < int (rl_size r)" and "int (rl_size r) \<le> 2 * (s + 1)"
  shows "lookup_flat r' s d = Inl Out_Of_Range"
proof -
  let ?R = "compute_routes r"
  let ?r2 = "check (b + 1) (check (a + 1) ?R)"
  have ab: "\<not> (a + 1 \<le> 0 \<or> b + 1 \<le> 0)" and ins: "rl_insert (a + 1) (b + 1) (case c of None \<Rightarrow> 1 | Some x \<Rightarrow> x) ?R = Inr r'"
    using assms(2) by (auto simp: rbind_eq_Inr split: if_splits)
  have R: "square ?R" "rl_size ?R = rl_size r" using assms(1) by (simp_all add: square_def compute_routes_def Let_def)
  have a0: "0 \<le> a + 1" and b0: "0 \<le> b + 1" using ab by auto
  note M1 = check_matrix [OF R(1) a0] and M2 = check_matrix [OF check_matrix(1) [OF R(1) a0] b0]
  have "rl_size r' = rl_size ?r2" "rl_route r' = rl_route ?r2"
    using ins by (auto simp: rl_insert_def set_adj_def rbind_eq_Inr)
  then have sz: "rl_size r' = rl_size ?r2" "rl_route r' = rl_route ?R" using M1(4) M2(4) by simp_all
  have "2 * rl_size r \<le> rl_size r'"
    using check_size [of "a + 1" ?R] check_size [of "b + 1" "check (a + 1) ?R"] assms(3) R(2) sz(1) by linarith
  then have m: "2 * int (rl_size r) \<le> int (rl_size r')" by simp
  obtain ro where ro: "rl_route r' = Some ro" "length ro = rl_size r * rl_size r"
    unfolding sz(2) by (simp add: compute_routes_def Let_def)
  have "0 \<le> 2 * (s + 1)" using assms(7) of_nat_0_le_iff order_trans by blast
  then have s1: "0 \<le> s + 1" by simp
  have "int (rl_size r) * int (rl_size r) \<le> int (rl_size r) * (2 * (s + 1))" using assms(7) by (intro mult_left_mono) simp_all
  also have "\<dots> = (2 * int (rl_size r)) * (s + 1)" by simp
  also have "\<dots> \<le> int (rl_size r') * (s + 1)" using m s1 by (intro mult_right_mono) simp_all
  finally have "int (length ro) \<le> INDEX (s + 1) (d + 1) (rl_size r')" using assms(4) ro(2) by (simp add: INDEX_def)
  then have "vec_get ro (INDEX (s + 1) (d + 1) (rl_size r')) = Inl Out_Of_Range" by (simp add: vec_get_def)
  moreover have "\<not> (s + 1 \<ge> int (rl_size r') \<or> d + 1 \<ge> int (rl_size r'))" using assms(3,5,6) by auto
  ultimately show ?thesis using ro(1) by (simp add: lookup_flat_def)
qed

subsection \<open>An example\<close>

text \<open>Three nodes and an island: the direct link from 0 to 2 is dearer than the way through 1.\<close>

lemma demo_costs:
  assumes "route_commands demo_cmds new_routing = Inr r" "rl_size r = 32"
  shows "ADJ (adj_of r) 1 2 = 1" "ADJ (adj_of r) 2 3 = 2"
proof -
  have "link_cost r 0 1 = 1" "link_cost r 1 2 = 2"
    using costs_of_commands [OF assms(1) costs_of_new] by (simp_all add: costs_of_def demo_cmds_def)
  then show "ADJ (adj_of r) 1 2 = 1" "ADJ (adj_of r) 2 3 = 2" using assms(2) by (simp_all add: link_cost_def numeral_2_eq_2 numeral_3_eq_3)
qed

lemma demo_fair: "\<forall>c\<in>set demo_cmds. fair_cost c"
  by (simp add: demo_cmds_def fair_cost_def INFINITY_def)

lemma demo_reach:
  assumes "route_commands demo_cmds new_routing = Inr r" "rl_size r = 32"
  shows "\<exists>ps. route_path (rl_size r) ps (nat 0 + 1) (nat 2 + 1) \<and> route_cost (adj_of r) ps < INFINITY"
  using demo_costs [OF assms] assms(2)
  by (intro exI [of _ "[1, 2, 3]"]) (simp add: route_path_def INFINITY_def)

text \<open>
  C13. Routes are shortest. Whatever links were inserted (with costs between 0 and
  \<open>INFINITY\<close>, 16383) and reset, once the routes are computed the lookup for two different
  nodes gives the first hop of a path of least cost, if there is a path of cost below
  \<open>INFINITY\<close>, and -1 otherwise.
\<close>

theorem routes_are_shortest:
  assumes "route_commands cmds new_routing = Inr r" and "\<forall>c\<in>set cmds. fair_cost c" and "rl_adj r \<noteq> []"
    and "0 \<le> s" and "s + 1 < int (rl_size r)" and "0 \<le> d" and "d + 1 < int (rl_size r)" and "s \<noteq> d"
  shows "\<exists>r' h. route_command Compute r = Inr (R_Ok, r') \<and> route_command (Lookup s d) r' = Inr (R_Hop h, r') \<and>
    (if \<exists>ps. route_path (rl_size r) ps (nat s + 1) (nat d + 1) \<and> route_cost (adj_of r) ps < INFINITY
     then 0 \<le> h \<and> (\<exists>c qs. least_cost (adj_of r) (rl_size r) (nat s + 1) (nat d + 1) c \<and>
        route_path (rl_size r) ((nat s + 1) # (nat h + 1) # qs) (nat s + 1) (nat d + 1) \<and>
        route_cost (adj_of r) ((nat s + 1) # (nat h + 1) # qs) = c)
     else h = -1)"
proof -
  obtain h where h: "lookup_flat (compute_routes r) s d = Inr h"
    "if \<exists>ps. route_path (rl_size r) ps (nat s + 1) (nat d + 1) \<and> route_cost (adj_of r) ps < INFINITY
     then 0 \<le> h \<and> (\<exists>c qs. least_cost (adj_of r) (rl_size r) (nat s + 1) (nat d + 1) c \<and>
        route_path (rl_size r) ((nat s + 1) # (nat h + 1) # qs) (nat s + 1) (nat d + 1) \<and>
        route_cost (adj_of r) ((nat s + 1) # (nat h + 1) # qs) = c)
     else h = -1" using computed_hops [OF assms(1,2,4-8)] by blast
  have "rl_size (compute_routes r) = rl_size r" "\<exists>ro. rl_route (compute_routes r) = Some ro"
    by (simp_all add: compute_routes_def Let_def)
  then have "route_command (Lookup s d) (compute_routes r) = Inr (R_Hop h, compute_routes r)"
    using h(1) assms(5,7) by (auto simp: lookup_flat_def lookup_reply_def rbind_eq_Inr)
  then show ?thesis using h(2) assms(3) by (intro exI [of _ "compute_routes r"] exI [of _ h]) simp
qed

theorem routes_are_shortest_witness:
  "\<exists>r r' h qs. route_commands demo_cmds new_routing = Inr r \<and> route_command Compute r = Inr (R_Ok, r') \<and>
    route_command (Lookup 0 2) r' = Inr (R_Hop h, r') \<and> 0 \<le> h \<and>
    least_cost (adj_of r) (rl_size r) 1 3 (route_cost (adj_of r) (1 # (nat h + 1) # qs))"
proof -
  obtain r where r: "route_commands demo_cmds new_routing = Inr r" "rl_size r = 32" using demo_cmds_run by blast
  have "square r" using costs_of_commands [OF r(1) costs_of_new] by (simp add: costs_of_def)
  then have "rl_adj r \<noteq> []" using r(2) by (auto simp: square_def)
  have n: "(0::int) \<le> 0" "0 + 1 < int (rl_size r)" "(0::int) \<le> 2" "2 + 1 < int (rl_size r)" "(0::int) \<noteq> 2" using r(2) by simp_all
  obtain r' h c qs where x: "route_command Compute r = Inr (R_Ok, r')" "route_command (Lookup 0 2) r' = Inr (R_Hop h, r')" "0 \<le> h"
    "least_cost (adj_of r) (rl_size r) (nat 0 + 1) (nat 2 + 1) c" "route_cost (adj_of r) ((nat 0 + 1) # (nat h + 1) # qs) = c"
    using routes_are_shortest [OF r(1) demo_fair \<open>rl_adj r \<noteq> []\<close> n, unfolded if_P [OF demo_reach [OF r]]] by blast
  have "nat 0 + 1 = 1" "nat 2 + 1 = 3" by simp_all
  with x(4,5) have "least_cost (adj_of r) (rl_size r) 1 3 (route_cost (adj_of r) (1 # (nat h + 1) # qs))" by metis
  then show ?thesis using r(1) x(1-3) by blast
qed

theorem installed_path_is_shortest_witness:
  "\<exists>r ns. route_commands demo_cmds new_routing = Inr r \<and>
    install_path (hop_of (compute_routes r)) (demo_world\<lparr>w_agents := [demo_agent Ping_Agent 0 2]\<rparr>) (demo_tcp 0 []) =
      Inr ((demo_tcp 0 [])\<lparr>tc_flow_path := ns, tc_prev_link := Some 1, tc_btnk := Some 1\<rparr>) \<and> hd ns = 0 \<and> last ns = 2 \<and>
    least_cost (adj_of r) (rl_size r) 1 3 (route_cost (adj_of r) (map (\<lambda>x. nat x + 1) ns))"
proof -
  let ?w = "demo_world\<lparr>w_agents := [demo_agent Ping_Agent 0 2]\<rparr>" and ?tc = "demo_tcp 0 []"
  obtain r where r: "route_commands demo_cmds new_routing = Inr r" "rl_size r = 32" using demo_cmds_run by blast
  have "0 = tc_addr ?tc ?w" "2 = ag_dst_addr (w_agents ?w ! tc_self ?tc)"
    by (simp_all add: tc_addr_def demo_tcp_def demo_agent_def)
  from installed_path_is_shortest [OF r(1) demo_fair this] r demo_reach [OF r] show ?thesis by auto
qed

theorem stale_routes_overread_witness:
  "\<exists>r r'. route_commands [Insert 0 1 None] new_routing = Inr r \<and>
    route_command (Insert 20 0 None) (compute_routes r) = Inr (R_Ok, r') \<and> lookup_flat r' 8 1 = Inl Out_Of_Range"
proof -
  obtain r where r: "route_commands [Insert 0 1 None] new_routing = Inr r" "rl_size r = 16"
    by (simp add: route_commands_def new_routing_def rl_insert_def check_def set_adj_def INDEX_def rl_alloc_def
      Let_def double_beyond.simps vec_upd_def)
  have sq: "square r" using costs_of_commands [OF r(1) costs_of_new] by (simp add: costs_of_def)
  have R: "square (compute_routes r)" "rl_size (compute_routes r) = 16" using sq r(2) by (simp_all add: square_def compute_routes_def Let_def)
  have big: "rl_size (check 1 (check 21 (compute_routes r))) = 32"
    using R(2) by (simp add: check_def Let_def rl_alloc_def double_beyond.simps)
  have "square (check 1 (check 21 (compute_routes r)))" using check_matrix(1) R(1) by simp
  from set_adj_matrix [OF this, of 21 1 "\<lambda>a. (1, snd a)"] big obtain r' where
    "rl_insert 21 1 1 (compute_routes r) = Inr r'" "rl_size r' = 32" by (auto simp: rl_insert_def)
  then have "route_command (Insert 20 0 None) (compute_routes r) = Inr (R_Ok, r')" "rl_size r < rl_size r'" using r(2) by simp_all
  from stale_routes_overread [OF sq this, of 1 8] this r show ?thesis by auto
qed

end
