(* ===== verification/Classifier.thy ===== *)
theory Classifier
  imports PacketPool
begin

section \<open>Classifiers\<close>

text \<open>
  \<open>Classifier\<close> of classifier/classifier.h and classifier/classifier.cc, the table of slots
  by which a node maps a packet to the next object, and \<open>MultiPathForwarder\<close> of
  classifier/classifier-mpath.cc, which spreads packets over the filled slots in turn, or by
  a hash of the flow and the path number in the packet. Objects are numbers. \<open>nslot_\<close> is
  the length of the table; a null \<open>slot_\<close> is the empty table. \<open>classify\<close> is virtual, an
  argument of \<open>find\<close>, as is what the script does when it is told that there is no slot.
\<close>

subsection \<open>The table of slots\<close>

record classifier =
  cs_slot :: "nat option list"
  cs_maxslot :: int
  cs_shift :: nat
  cs_mask :: "32 word"
  cs_default :: "nat option"
  cs_nsize :: int

definition new_classifier :: classifier where
  "new_classifier = \<lparr>cs_slot = [], cs_maxslot = -1, cs_shift = 0, cs_mask = - 1, cs_default = None, cs_nsize = 0\<rparr>"

abbreviation nslot :: "'x classifier_scheme \<Rightarrow> int" where
  "nslot c \<equiv> int (length (cs_slot c))"

text \<open>The size of the first table; it is not virtual, so every classifier of a routing module has this one.\<close>

definition set_table_size :: "int \<Rightarrow> 'x classifier_scheme \<Rightarrow> 'x classifier_scheme" where
  "set_table_size nn c = c\<lparr>cs_nsize := nn\<rparr>"

text \<open>The loop \<open>while (nslot_ <= slot) nslot_ <<= 1\<close>; a size that is not positive never grows.\<close>

function slots_for :: "int \<Rightarrow> int \<Rightarrow> int res" where
  "slots_for n slot = (if slot < n then Inr n else if n \<le> 0 then Inl Diverges else slots_for (2 * n) slot)"
  by pat_completeness auto
termination
  by (relation "measure (\<lambda>(n, slot). nat (slot + 1 - n))") auto

declare slots_for.simps [simp del]

definition alloc_slots :: "int \<Rightarrow> 'x classifier_scheme \<Rightarrow> 'x classifier_scheme res" where
  "alloc_slots slot c =
     rbind (slots_for (if cs_slot c = [] then (if cs_nsize c \<noteq> 0 then cs_nsize c else 32) else nslot c) slot) (\<lambda>n.
       Inr (c\<lparr>cs_slot := cs_slot c @ replicate (nat n - length (cs_slot c)) None\<rparr>))"

definition install :: "int \<Rightarrow> nat option \<Rightarrow> 'x classifier_scheme \<Rightarrow> 'x classifier_scheme res" where
  "install slot p c =
     rbind (if slot \<ge> nslot c then alloc_slots slot c else Inr c) (\<lambda>c1.
       rbind (vec_upd (cs_slot c1) slot (\<lambda>_. p)) (\<lambda>s.
         Inr (c1\<lparr>cs_slot := s, cs_maxslot := (if slot \<ge> cs_maxslot c1 then slot else cs_maxslot c1)\<rparr>)))"

text \<open>The last filled slot below a bound.\<close>

fun top_filled :: "nat option list \<Rightarrow> nat \<Rightarrow> int" where
  "top_filled s 0 = -1"
| "top_filled s (Suc k) = (if s ! k = None then top_filled s k else int k)"

definition clear_slot :: "int \<Rightarrow> 'x classifier_scheme \<Rightarrow> 'x classifier_scheme res" where
  "clear_slot slot c =
     rbind (vec_upd (cs_slot c) slot (\<lambda>_. None)) (\<lambda>s.
       Inr (c\<lparr>cs_slot := s,
              cs_maxslot := (if slot = cs_maxslot c then top_filled s (nat (cs_maxslot c)) else cs_maxslot c)\<rparr>))"

text \<open>The first slot that is empty or holds the null agent; the table grows if there is none.\<close>

fun first_free :: "nat option \<Rightarrow> nat option list \<Rightarrow> nat option" where
  "first_free na [] = None"
| "first_free na (s # ss) = (if s = None \<or> s = na then Some 0 else map_option Suc (first_free na ss))"

definition getnxt :: "nat option \<Rightarrow> 'x classifier_scheme \<Rightarrow> (int \<times> 'x classifier_scheme) res" where
  "getnxt na c =
     (case first_free na (cs_slot c) of
        Some i \<Rightarrow> Inr (int i, c)
      | None \<Rightarrow> rbind (alloc_slots (nslot c) c) (\<lambda>c1. Inr (nslot c, c1)))"

definition install_next :: "nat option \<Rightarrow> 'x classifier_scheme \<Rightarrow> (int \<times> 'x classifier_scheme) res" where
  "install_next node c = rbind (install (cs_maxslot c + 1) node c) (\<lambda>c1. Inr (cs_maxslot c + 1, c1))"

subsection \<open>The way of a packet\<close>

definition mshift :: "'x classifier_scheme \<Rightarrow> 32 word \<Rightarrow> 32 word" where
  "mshift c v = and (signed_drop_bit (cs_shift c) v) (cs_mask c)"

text \<open>\<open>Classifier::classify\<close> of the word at \<open>offset_\<close>.\<close>

definition classify :: "32 word \<Rightarrow> 'x classifier_scheme \<Rightarrow> (int \<times> 'x classifier_scheme) res" where
  "classify v c = Inr (sint (mshift c v), c)"

definition slot_at :: "int \<Rightarrow> 'x classifier_scheme \<Rightarrow> nat option" where
  "slot_at cl c = (if cl < 0 \<or> cl \<ge> nslot c then None else cs_slot c ! nat cl)"

definition TWICE :: int where "TWICE = -1"

definition cs_find :: "(int \<Rightarrow> 'x classifier_scheme \<Rightarrow> 'x classifier_scheme) \<Rightarrow>
    ('p \<Rightarrow> 'x classifier_scheme \<Rightarrow> (int \<times> 'x classifier_scheme) res) \<Rightarrow> 'p \<Rightarrow> 'x classifier_scheme \<Rightarrow>
    (nat option \<times> 'x classifier_scheme) res" where
  "cs_find no_slot cls p c =
     rbind (cls p c) (\<lambda>(cl, c1).
       case slot_at cl c1 of
         Some node \<Rightarrow> Inr (Some node, c1)
       | None \<Rightarrow>
           (case cs_default c1 of
              Some d \<Rightarrow> Inr (Some d, c1)
            | None \<Rightarrow>
                let c2 = no_slot cl c1 in
                if cl = TWICE then rbind (cls p c2) (\<lambda>(cl2, c3). Inr (slot_at cl2 c3, c3)) else Inr (None, c2)))"

datatype forwarded = Freed | Passed nat

definition cs_recv :: "(int \<Rightarrow> 'x classifier_scheme \<Rightarrow> 'x classifier_scheme) \<Rightarrow>
    ('p \<Rightarrow> 'x classifier_scheme \<Rightarrow> (int \<times> 'x classifier_scheme) res) \<Rightarrow> 'p \<Rightarrow> 'x classifier_scheme \<Rightarrow>
    (forwarded \<times> 'x classifier_scheme) res" where
  "cs_recv no_slot cls p c =
     rbind (cs_find no_slot cls p c) (\<lambda>(node, c1).
       Inr (case node of None \<Rightarrow> Freed | Some n \<Rightarrow> Passed n, c1))"

text \<open>The commands; \<open>lookup\<close> of a name that no object has gives a null pointer.\<close>

datatype class_cmd = Alloc_Port "nat option" | Clear int | Install_Next "nat option" | Slot int | Findslot "nat option"
  | Default_Target "nat option" | Install int "nat option"

datatype class_reply = C_Ok | C_Error | C_Slot int | C_Object nat

fun class_command :: "class_cmd \<Rightarrow> 'x classifier_scheme \<Rightarrow> (class_reply \<times> 'x classifier_scheme) res" where
  "class_command (Alloc_Port na) c = rbind (getnxt na c) (\<lambda>(i, c1). Inr (C_Slot i, c1))"
| "class_command (Clear i) c = rbind (clear_slot i c) (\<lambda>c1. Inr (C_Ok, c1))"
| "class_command (Install_Next node) c =
     (if node = None then Inr (C_Error, c) else rbind (install_next node c) (\<lambda>(i, c1). Inr (C_Slot i, c1)))"
| "class_command (Slot i) c = Inr (case slot_at i c of Some n \<Rightarrow> C_Object n | None \<Rightarrow> C_Error, c)"
| "class_command (Findslot node) c =
     Inr (case node of
            None \<Rightarrow> C_Error
          | Some n \<Rightarrow> C_Slot (case find (\<lambda>i. cs_slot c ! i = Some n) [0..<length (cs_slot c)] of None \<Rightarrow> -1 | Some i \<Rightarrow> int i), c)"
| "class_command (Default_Target node) c = Inr (if node = None then C_Error else C_Ok, c\<lparr>cs_default := node\<rparr>)"
| "class_command (Install i node) c = rbind (install i node c) (\<lambda>c1. Inr (C_Ok, c1))"

subsection \<open>Several paths\<close>

record mpath = classifier +
  mp_ns :: int
  mp_nodeid :: int
  mp_perflow :: int
  mp_checkpathid :: int

text \<open>The bytes of an \<open>int\<close> in memory, the lowest first, and their hash; a \<open>char\<close> is signed.\<close>

definition word_bytes :: "32 word \<Rightarrow> 8 word list" where
  "word_bytes w = map (\<lambda>i. ucast (drop_bit (8 * i) w)) [0, 1, 2, 3]"

definition hash_string :: "8 word list \<Rightarrow> 32 word" where
  "hash_string bs = fold (\<lambda>b r. r + (push_bit 3 r + scast b)) bs 0"

definition flow_hash :: "hdr_ip \<Rightarrow> mpath \<Rightarrow> 32 word" where
  "flow_hash h c = hash_string (concat (map word_bytes
     [word_of_int (mp_nodeid c), mshift c (word_of_int (ip_saddr h)), mshift c (word_of_int (ip_daddr h)), word_of_int (ip_fid h)]))"

text \<open>
  \<open>do { cl = ms++; ms %= n; } while (slot_[cl] == 0 && ms != fail)\<close>. One round and a turn
  is all the fuel it needs: after that it is where it was.
\<close>

fun scan_slots :: "nat \<Rightarrow> nat option list \<Rightarrow> int \<Rightarrow> int \<Rightarrow> int \<Rightarrow> (int \<times> int) res" where
  "scan_slots 0 s n fail ms = Inl Diverges"
| "scan_slots (Suc k) s n fail ms =
     rbind (vec_get s ms) (\<lambda>x.
       if x = None \<and> (ms + 1) mod n \<noteq> fail then scan_slots k s n fail ((ms + 1) mod n)
       else Inr (ms, (ms + 1) mod n))"

definition next_filled :: "mpath \<Rightarrow> int \<Rightarrow> (int \<times> int) res" where
  "next_filled c ms =
     (let n = cs_maxslot c + 1 in
      if n = 0 then Inl Div_Zero else scan_slots (nat n + 2) (cs_slot c) n ms ms)"

definition mp_classify :: "hdr_ip \<Rightarrow> mpath \<Rightarrow> (int \<times> mpath) res" where
  "mp_classify h c =
     (if mp_perflow c \<noteq> 0 \<or> mp_checkpathid c \<noteq> 0 then
        let ms = (if mp_checkpathid c \<noteq> 0 then flow_hash h c + word_of_int (ip_prio h) else flow_hash h c) in
        if cs_maxslot c + 1 = 0 then Inl Div_Zero
        else rbind (next_filled c (uint ms mod (cs_maxslot c + 1))) (\<lambda>(cl, _). Inr (cl, c))
      else rbind (next_filled c (mp_ns c)) (\<lambda>(cl, ns). Inr (cl, c\<lparr>mp_ns := ns\<rparr>)))"

text \<open>The slots that a sequence of packets is given.\<close>

fun mp_run :: "hdr_ip list \<Rightarrow> mpath \<Rightarrow> (int list \<times> mpath) res" where
  "mp_run [] c = Inr ([], c)"
| "mp_run (h # hs) c = rbind (mp_classify h c) (\<lambda>(cl, c1). rbind (mp_run hs c1) (\<lambda>(cls, c2). Inr (cl # cls, c2)))"

end
