(* ===== verification/MultiPath.thy ===== *)
theory MultiPath
  imports Classifier
begin

section \<open>The table of slots and the spreading of packets\<close>

text \<open>
  Properties of classifiers: the table is a map from slots to objects whose greatest filled
  slot is \<open>maxslot_\<close>; \<open>MultiPathForwarder\<close> hands out the filled slots in turn, each
  once in every round; by flow it is a function of the flow, and consecutive path numbers
  take consecutive slots.
\<close>

subsection \<open>The table\<close>

text \<open>\<open>maxslot_\<close> is the last filled slot.\<close>

definition top_ok :: "'x classifier_scheme \<Rightarrow> bool" where
  "top_ok c \<longleftrightarrow> -1 \<le> cs_maxslot c \<and> cs_maxslot c < nslot c \<and>
     (0 \<le> cs_maxslot c \<longrightarrow> slot_at (cs_maxslot c) c \<noteq> None) \<and> (\<forall>i > cs_maxslot c. slot_at i c = None)"

lemma top_filled_props:
  "-1 \<le> top_filled s k \<and> top_filled s k < int k \<and> (0 \<le> top_filled s k \<longrightarrow> s ! nat (top_filled s k) \<noteq> None) \<and>
   (\<forall>i. top_filled s k < int i \<and> i < k \<longrightarrow> s ! i = None)"
proof (induction k)
  case (Suc k)
  then show ?case by (auto simp: less_Suc_eq)
qed simp

lemma slots_for_ok: "0 < n \<Longrightarrow> \<exists>m. slots_for n slot = Inr m \<and> n \<le> m \<and> slot < m"
proof (induction n slot rule: slots_for.induct)
  case (1 n slot)
  show ?case
  proof (cases "slot < n")
    case True
    then show ?thesis by (subst slots_for.simps) simp
  next
    case False
    then obtain m where "slots_for (2 * n) slot = Inr m" "2 * n \<le> m" "slot < m" using 1 by auto
    then show ?thesis using False 1(2) by (subst slots_for.simps) auto
  qed
qed

text \<open>Growth keeps the map; the table size that the script may set is not negative.\<close>

lemma alloc_slots_ok:
  assumes "0 \<le> cs_nsize c" "nslot c \<le> slot"
  shows "\<exists>c1. alloc_slots slot c = Inr c1 \<and> slot < nslot c1 \<and> nslot c \<le> nslot c1 \<and> (\<forall>i. slot_at i c1 = slot_at i c) \<and>
    cs_maxslot c1 = cs_maxslot c \<and> cs_nsize c1 = cs_nsize c \<and> cs_default c1 = cs_default c"
proof -
  let ?n = "if cs_slot c = [] then (if cs_nsize c \<noteq> 0 then cs_nsize c else 32) else nslot c"
  have "0 < ?n" using assms(1) by auto
  then obtain m where m: "slots_for ?n slot = Inr m" "?n \<le> m" "slot < m" using slots_for_ok by blast
  have len: "int (length (cs_slot c @ replicate (nat m - length (cs_slot c)) None)) = m"
    using m(3) assms(2) by simp
  have "slot_at i (c\<lparr>cs_slot := cs_slot c @ replicate (nat m - length (cs_slot c)) None\<rparr>) = slot_at i c" for i
    using len by (auto simp: slot_at_def nth_append not_less)
  then show ?thesis using m len assms(2) by (simp add: alloc_slots_def)
qed

lemma install_ok:
  assumes "0 \<le> cs_nsize c" "0 \<le> slot"
  shows "\<exists>c1. install slot p c = Inr c1 \<and> (\<forall>i. slot_at i c1 = (if i = slot then p else slot_at i c)) \<and> nslot c \<le> nslot c1 \<and>
    slot < nslot c1 \<and> cs_maxslot c1 = max (cs_maxslot c) slot \<and> cs_nsize c1 = cs_nsize c \<and> cs_default c1 = cs_default c"
proof -
  obtain c0 where c0: "(if slot \<ge> nslot c then alloc_slots slot c else Inr c) = Inr c0" "slot < nslot c0" "nslot c \<le> nslot c0"
    "\<forall>i. slot_at i c0 = slot_at i c" "cs_maxslot c0 = cs_maxslot c" "cs_nsize c0 = cs_nsize c" "cs_default c0 = cs_default c"
    using alloc_slots_ok [OF assms(1)] by (cases "slot \<ge> nslot c") auto
  let ?s = "(cs_slot c0)[nat slot := p]"
  have upd: "vec_upd (cs_slot c0) slot (\<lambda>_. p) = Inr ?s" using c0(2) assms(2) by (simp add: vec_upd_def)
  let ?c = "c0\<lparr>cs_slot := ?s, cs_maxslot := (if slot \<ge> cs_maxslot c0 then slot else cs_maxslot c0)\<rparr>"
  have "install slot p c = Inr ?c" unfolding install_def c0(1) rbind_Inr upd ..
  moreover have "slot_at i ?c = (if i = slot then p else slot_at i c)" for i
  proof -
    have "slot_at i ?c = (if i = slot then p else slot_at i c0)"
      using c0(2) assms(2) by (auto simp: slot_at_def nth_list_update)
    then show ?thesis using c0(4) by simp
  qed
  ultimately show ?thesis using c0 by (auto simp: max_def)
qed

lemma clear_ok:
  assumes "top_ok c" "0 \<le> slot" "slot < nslot c"
  shows "\<exists>c1. clear_slot slot c = Inr c1 \<and> (\<forall>i. slot_at i c1 = (if i = slot then None else slot_at i c)) \<and> top_ok c1 \<and>
    cs_nsize c1 = cs_nsize c \<and> cs_default c1 = cs_default c"
proof -
  let ?s = "(cs_slot c)[nat slot := None]"
  let ?c = "c\<lparr>cs_slot := ?s, cs_maxslot := (if slot = cs_maxslot c then top_filled ?s (nat (cs_maxslot c)) else cs_maxslot c)\<rparr>"
  have run: "clear_slot slot c = Inr ?c" using assms(2,3) by (simp add: clear_slot_def vec_upd_def)
  have at: "slot_at i ?c = (if i = slot then None else slot_at i c)" for i
    using assms(2,3) by (auto simp: slot_at_def nth_list_update)
  have "top_ok ?c"
  proof (cases "slot = cs_maxslot c")
    case True
    let ?t = "top_filled ?s (nat slot)"
    note T = top_filled_props [of ?s "nat slot"]
    have t: "-1 \<le> ?t" "?t < slot" "?t < nslot c" using T assms(2,3) by auto
    have filled: "slot_at ?t ?c \<noteq> None" if "0 \<le> ?t" using T that t(3) by (simp add: slot_at_def)
    have above: "slot_at i ?c = None" if "?t < i" for i
    proof (cases "slot \<le> i")
      case gt: True
      then show ?thesis using assms(1) True at by (cases "i = slot") (auto simp: top_ok_def)
    next
      case False
      have "0 \<le> i" using that t(1) by linarith
      then have "?t < int (nat i)" "nat i < nat slot" using that False by simp_all
      then have "?s ! nat i = None" using T by blast
      then show ?thesis by (simp add: slot_at_def)
    qed
    show ?thesis using True t filled above by (simp add: top_ok_def)
  next
    case False
    then show ?thesis using assms(1) at by (auto simp: top_ok_def)
  qed
  then show ?thesis using run at by simp
qed

lemma top_install:
  assumes "top_ok c" "\<forall>i. slot_at i c1 = (if i = slot then Some p else slot_at i c)" "slot < nslot c1" "nslot c \<le> nslot c1"
    "cs_maxslot c1 = max (cs_maxslot c) slot" "0 \<le> slot"
  shows "top_ok c1"
  using assms by (auto simp: top_ok_def max_def)

lemma first_free_props:
  "(case first_free na ss of
      None \<Rightarrow> \<forall>i < length ss. ss ! i \<noteq> None \<and> ss ! i \<noteq> na
    | Some k \<Rightarrow> k < length ss \<and> (ss ! k = None \<or> ss ! k = na) \<and> (\<forall>i < k. ss ! i \<noteq> None \<and> ss ! i \<noteq> na))"
  by (induction ss) (auto simp: less_Suc_eq_0_disj split: option.splits)

lemma getnxt_ok:
  assumes "0 \<le> cs_nsize c"
  shows "\<exists>i c1. getnxt na c = Inr (i, c1) \<and> 0 \<le> i \<and> i < nslot c1 \<and> (\<forall>j. slot_at j c1 = slot_at j c) \<and> nslot c \<le> nslot c1 \<and>
    cs_maxslot c1 = cs_maxslot c \<and> cs_nsize c1 = cs_nsize c \<and> cs_default c1 = cs_default c \<and>
    (slot_at i c = None \<or> slot_at i c = na) \<and> (\<forall>j. 0 \<le> j \<and> j < i \<longrightarrow> slot_at j c \<noteq> None \<and> slot_at j c \<noteq> na)"
proof (cases "first_free na (cs_slot c)")
  case None
  then have occ: "\<forall>i < length (cs_slot c). cs_slot c ! i \<noteq> None \<and> cs_slot c ! i \<noteq> na"
    using first_free_props [where na = na and ss = "cs_slot c"] by simp
  obtain c1 where c1: "alloc_slots (nslot c) c = Inr c1" "nslot c < nslot c1" "\<forall>i. slot_at i c1 = slot_at i c"
    "cs_maxslot c1 = cs_maxslot c" "cs_nsize c1 = cs_nsize c" "cs_default c1 = cs_default c"
    using alloc_slots_ok [OF assms order_refl] by blast
  have "slot_at (nslot c) c = None" by (simp add: slot_at_def)
  moreover have "\<forall>j. 0 \<le> j \<and> j < nslot c \<longrightarrow> slot_at j c \<noteq> None \<and> slot_at j c \<noteq> na" using occ by (simp add: slot_at_def nat_less_iff)
  moreover have "getnxt na c = Inr (nslot c, c1)" using None c1(1) by (simp add: getnxt_def)
  ultimately show ?thesis using c1(2-6) by (intro exI [of _ "nslot c"] exI [of _ c1]) simp
next
  case (Some k)
  then have k: "k < length (cs_slot c)" "cs_slot c ! k = None \<or> cs_slot c ! k = na"
    "\<forall>i < k. cs_slot c ! i \<noteq> None \<and> cs_slot c ! i \<noteq> na"
    using first_free_props [where na = na and ss = "cs_slot c"] by simp_all
  then have "\<forall>j. 0 \<le> j \<and> j < int k \<longrightarrow> slot_at j c \<noteq> None \<and> slot_at j c \<noteq> na" by (simp add: slot_at_def nat_less_iff)
  moreover have "slot_at (int k) c = None \<or> slot_at (int k) c = na" using k(1,2) by (simp add: slot_at_def)
  ultimately show ?thesis using Some k(1) by (intro exI [of _ "int k"] exI [of _ c]) (simp add: getnxt_def)
qed

text \<open>Commands that name objects that exist, and slots that may be used.\<close>

definition sound_cmd :: "'x classifier_scheme \<Rightarrow> class_cmd \<Rightarrow> bool" where
  "sound_cmd c cmd = (case cmd of
      Clear i \<Rightarrow> 0 \<le> i \<and> i < nslot c
    | Install i p \<Rightarrow> 0 \<le> i \<and> p \<noteq> None
    | _ \<Rightarrow> True)"

text \<open>
  C32. A classifier is a map from slots to objects. On a table whose \<open>maxslot_\<close> is its last
  filled slot, every command with existing objects and slots in range succeeds, keeps that
  property, and changes the map as its name says and nothing else: \<open>install\<close> at any slot,
  however far the table must grow, \<open>clear\<close>, and \<open>installNext\<close> at a slot above all that
  are filled; \<open>alloc-port\<close> finds the least slot that is empty or holds the null agent.
\<close>

theorem classifier_is_a_map:
  assumes "top_ok c" and "0 \<le> cs_nsize c" and "sound_cmd c cmd"
  shows "\<exists>r c'. class_command cmd c = Inr (r, c') \<and> top_ok c' \<and> cs_nsize c' = cs_nsize c \<and>
    (\<forall>i. slot_at i c' = (case cmd of
        Install j p \<Rightarrow> if i = j then p else slot_at i c
      | Clear j \<Rightarrow> if i = j then None else slot_at i c
      | Install_Next p \<Rightarrow> if p \<noteq> None \<and> i = cs_maxslot c + 1 then p else slot_at i c
      | _ \<Rightarrow> slot_at i c)) \<and>
    (case cmd of
        Alloc_Port na \<Rightarrow> \<exists>k. r = C_Slot k \<and> 0 \<le> k \<and> k < nslot c' \<and> (slot_at k c = None \<or> slot_at k c = na) \<and>
          (\<forall>j. 0 \<le> j \<and> j < k \<longrightarrow> slot_at j c \<noteq> None \<and> slot_at j c \<noteq> na)
      | Install_Next p \<Rightarrow> r = (if p = None then C_Error else C_Slot (cs_maxslot c + 1)) \<and> (\<forall>i > cs_maxslot c. slot_at i c = None)
      | Slot i \<Rightarrow> r = (case slot_at i c of None \<Rightarrow> C_Error | Some n \<Rightarrow> C_Object n)
      | _ \<Rightarrow> True)"
proof (cases cmd)
  case (Alloc_Port na)
  obtain i c1 where g: "getnxt na c = Inr (i, c1)" "0 \<le> i" "i < nslot c1" "\<forall>j. slot_at j c1 = slot_at j c" "nslot c \<le> nslot c1"
    "cs_maxslot c1 = cs_maxslot c" "cs_nsize c1 = cs_nsize c" "slot_at i c = None \<or> slot_at i c = na"
    "\<forall>j. 0 \<le> j \<and> j < i \<longrightarrow> slot_at j c \<noteq> None \<and> slot_at j c \<noteq> na" using getnxt_ok [OF assms(2), of na] by blast
  then have "top_ok c1" using assms(1) by (auto simp: top_ok_def)
  then show ?thesis using g Alloc_Port by simp
next
  case (Clear j)
  obtain c1 where "clear_slot j c = Inr c1" "\<forall>i. slot_at i c1 = (if i = j then None else slot_at i c)" "top_ok c1" "cs_nsize c1 = cs_nsize c"
    using clear_ok [OF assms(1), of j] assms(3) Clear by (auto simp: sound_cmd_def)
  then show ?thesis using Clear by simp
next
  case (Install_Next p)
  have above: "\<forall>i > cs_maxslot c. slot_at i c = None" and m: "0 \<le> cs_maxslot c + 1" using assms(1) by (simp_all add: top_ok_def)
  show ?thesis
  proof (cases p)
    case None
    then show ?thesis using Install_Next assms(1) above by simp
  next
    case (Some n)
    obtain c1 where c1: "install (cs_maxslot c + 1) (Some n) c = Inr c1"
      "\<forall>i. slot_at i c1 = (if i = cs_maxslot c + 1 then Some n else slot_at i c)" "nslot c \<le> nslot c1"
      "cs_maxslot c + 1 < nslot c1" "cs_maxslot c1 = max (cs_maxslot c) (cs_maxslot c + 1)" "cs_nsize c1 = cs_nsize c"
      using install_ok [OF assms(2) m, of "Some n"] by blast
    have "top_ok c1" by (rule top_install [OF assms(1) c1(2,4,3,5) m])
    then show ?thesis using c1 Install_Next Some above by (simp add: install_next_def)
  qed
next
  case (Install j p)
  then obtain n where p: "p = Some n" "0 \<le> j" using assms(3) by (auto simp: sound_cmd_def)
  obtain c1 where c1: "install j (Some n) c = Inr c1" "\<forall>i. slot_at i c1 = (if i = j then Some n else slot_at i c)"
    "nslot c \<le> nslot c1" "j < nslot c1" "cs_maxslot c1 = max (cs_maxslot c) j" "cs_nsize c1 = cs_nsize c"
    using install_ok [OF assms(2) p(2), of "Some n"] by blast
  have "top_ok c1" by (rule top_install [OF assms(1) c1(2,4,3,5) p(2)])
  then show ?thesis using c1 Install p(1) by simp
next
  case (Slot i)
  then show ?thesis using assms(1) by (auto split: option.splits)
next
  case (Findslot n)
  then show ?thesis using assms(1) by simp
next
  case (Default_Target n)
  have "slot_at i (c\<lparr>cs_default := n\<rparr>) = slot_at i c" for i by (simp add: slot_at_def)
  then show ?thesis using Default_Target assms(1) by (simp add: top_ok_def)
qed

lemma top_new: "top_ok new_classifier"
  by (simp add: top_ok_def new_classifier_def slot_at_def)

theorem classifier_is_a_map_witness:
  "\<exists>c'. class_command (Install 40 (Some 7)) new_classifier = Inr (C_Ok, c') \<and> top_ok c' \<and> slot_at 40 c' = Some 7 \<and> slot_at 39 c' = None"
proof -
  have "0 \<le> cs_nsize new_classifier" "sound_cmd new_classifier (Install 40 (Some 7))" "slot_at 39 new_classifier = None"
    by (simp_all add: new_classifier_def sound_cmd_def slot_at_def)
  with classifier_is_a_map [OF top_new, of "Install 40 (Some 7)"] show ?thesis by (fastforce simp: rbind_eq_Inr)
qed

subsection \<open>One round over the slots\<close>

text \<open>The slots \<open>0\<close> to \<open>n - 1\<close> in the order of a round that starts at \<open>st\<close>, and those filled.\<close>

definition ring :: "nat \<Rightarrow> nat \<Rightarrow> nat list" where
  "ring n st = map (\<lambda>j. (st + j) mod n) [0..<n]"

definition turn :: "nat option list \<Rightarrow> nat \<Rightarrow> nat \<Rightarrow> nat list" where
  "turn s n st = filter (\<lambda>i. s ! i \<noteq> None) (ring n st)"

lemma ring_rotate: "ring n ((st + k) mod n) = rotate k (ring n st)"
proof (rule nth_equalityI)
  fix i assume "i < length (ring n ((st + k) mod n))"
  then have i: "i < n" "(k + i) mod n < n" by (simp_all add: ring_def)
  then have "rotate k (ring n st) ! i = (st + (k + i) mod n) mod n" by (simp add: ring_def nth_rotate)
  also have "\<dots> = ((st + k) mod n + i) mod n" by (simp add: mod_simps ac_simps)
  finally show "ring n ((st + k) mod n) ! i = rotate k (ring n st) ! i" using i by (simp add: ring_def)
qed (simp add: ring_def)

lemma set_ring: "0 < n \<Longrightarrow> set (ring n st) = {..<n}"
proof -
  assume n: "0 < n"
  have "i \<in> set (ring n st)" if "i < n" for i
  proof -
    have "(st + (i + (n - st mod n)) mod n) mod n = (st mod n + (i + (n - st mod n))) mod n" by (simp add: mod_simps)
    also have "st mod n + (i + (n - st mod n)) = n + i" using mod_less_divisor [OF n, of st] by linarith
    also have "(n + i) mod n = i" using that by simp
    finally show ?thesis using n unfolding ring_def set_map
      by (intro image_eqI [of _ _ "(i + (n - st mod n)) mod n"]) simp_all
  qed
  then show ?thesis using n by (auto simp: ring_def)
qed

lemma distinct_ring: "st < n \<Longrightarrow> distinct (ring n st)"
proof -
  assume "st < n"
  then have "ring n st = rotate st (ring n 0)" using ring_rotate [of n 0 st] by simp
  moreover have "ring n 0 = [0..<n]" by (simp add: ring_def list_eq_iff_nth_eq)
  ultimately show ?thesis by simp
qed

text \<open>The first slot of the turn is the one found, and the next round starts after it.\<close>

lemma scan_from:
  assumes "0 < n" "st < n" "n \<le> length s" "j < n" "s ! ((st + j) mod n) \<noteq> None"
  shows "k \<le> j \<Longrightarrow> \<forall>i. k \<le> i \<and> i < j \<longrightarrow> s ! ((st + i) mod n) = None \<Longrightarrow> j - k < f \<Longrightarrow>
    scan_slots f s (int n) (int st) (int ((st + k) mod n)) = Inr (int ((st + j) mod n), int ((st + Suc j) mod n))"
proof (induction f arbitrary: k)
  case 0
  then show ?case by simp
next
  case (Suc f)
  let ?ms = "(st + k) mod n"
  have nx: "(int ?ms + 1) mod int n = int ((st + Suc k) mod n)" by (simp add: zmod_int mod_simps ac_simps)
  have "?ms < n" using assms(1) by simp
  then have get: "vec_get s (int ?ms) = Inr (s ! ?ms)" using assms(3) by (intro vec_get_nat) simp
  show ?case
  proof (cases "k = j")
    case True
    then obtain y where "s ! ?ms = Some y" using assms(5) by auto
    then show ?thesis using True get nx by simp
  next
    case False
    then have none: "s ! ?ms = None" and k: "Suc k \<le> j" using Suc.prems(1,2) by auto
    have "(st + Suc k) mod n \<noteq> st"
    proof
      assume "(st + Suc k) mod n = st"
      then have "(st + Suc k) mod n = (st + 0) mod n" using assms(2) by simp
      then have "n dvd Suc k" by (metis add_diff_cancel_left' mod_eq_dvd_iff_nat le_add1 add.right_neutral)
      then show False using k assms(4) by (auto dest: dvd_imp_le)
    qed
    then have "scan_slots (Suc f) s (int n) (int st) (int ?ms) = scan_slots f s (int n) (int st) (int ((st + Suc k) mod n))"
      using get none nx by simp
    also have "\<dots> = Inr (int ((st + j) mod n), int ((st + Suc j) mod n))" using Suc.IH [OF k] Suc.prems k by simp
    finally show ?thesis .
  qed
qed

lemma next_filled_turn:
  assumes "0 \<le> cs_maxslot c" "cs_maxslot c < nslot c" "st \<le> nat (cs_maxslot c)" "turn (cs_slot c) (nat (cs_maxslot c) + 1) st = x # xs"
  shows "\<exists>st'. next_filled c (int st) = Inr (int x, int st') \<and> st' \<le> nat (cs_maxslot c) \<and>
    turn (cs_slot c) (nat (cs_maxslot c) + 1) st' = xs @ [x]"
proof -
  define n where "n = nat (cs_maxslot c) + 1"
  have n: "0 < n" "st < n" "n \<le> length (cs_slot c)" "cs_maxslot c + 1 = int n" using assms(1-3) by (auto simp: n_def)
  obtain as bs where ab: "ring n st = as @ x # bs" "\<forall>i\<in>set as. cs_slot c ! i = None" "cs_slot c ! x \<noteq> None"
    "xs = filter (\<lambda>i. cs_slot c ! i \<noteq> None) bs"
    using assms(4) unfolding turn_def n_def [symmetric] filter_eq_Cons_iff by blast
  let ?j = "length as"
  have len: "length (ring n st) = n" by (simp add: ring_def)
  have j: "?j < n" using arg_cong [OF ab(1), of length] len by simp
  have at: "ring n st ! i = (st + i) mod n" if "i < n" for i using that by (simp add: ring_def)
  have xj: "(st + ?j) mod n = x" using at [OF j] ab(1) by simp
  have before: "cs_slot c ! ((st + i) mod n) = None" if "i < ?j" for i
  proof -
    have "ring n st ! i = as ! i" using that by (simp add: ab(1) nth_append)
    then have "(st + i) mod n = as ! i" using at [of i] that j by simp
    then show ?thesis using ab(2) nth_mem [OF that] by simp
  qed
  have fuel: "?j < nat (cs_maxslot c + 1) + 2" using j n(4) by simp
  have "scan_slots (nat (cs_maxslot c + 1) + 2) (cs_slot c) (int n) (int st) (int ((st + 0) mod n)) =
      Inr (int ((st + ?j) mod n), int ((st + Suc ?j) mod n))"
    by (rule scan_from [OF n(1-3) j]) (use ab(3) xj before fuel in auto)
  then have "next_filled c (int st) = Inr (int x, int ((st + Suc ?j) mod n))"
    using n(2,4) xj by (simp add: next_filled_def Let_def)
  moreover have "ring n ((st + Suc ?j) mod n) = bs @ as @ [x]"
  proof -
    have "ring n ((st + Suc ?j) mod n) = rotate (Suc ?j) (ring n st)" by (rule ring_rotate)
    also have "\<dots> = rotate (length (as @ [x])) ((as @ [x]) @ bs)" using ab(1) by simp
    also have "\<dots> = bs @ (as @ [x])" by (rule rotate_append)
    finally show ?thesis by simp
  qed
  moreover have "filter (\<lambda>i. cs_slot c ! i \<noteq> None) as = []" using ab(2) by (simp add: filter_empty_conv)
  ultimately have "turn (cs_slot c) n ((st + Suc ?j) mod n) = xs @ [x]" using ab(3,4) by (simp add: turn_def)
  moreover have "(st + Suc ?j) mod n < n" using n(1) by simp
  ultimately show ?thesis using \<open>next_filled c (int st) = _\<close> unfolding n_def [symmetric]
    by (intro exI [of _ "(st + Suc ?j) mod n"]) (simp add: n_def)
qed

lemma turn_filled:
  assumes "top_ok c" "0 \<le> cs_maxslot c"
  shows "turn (cs_slot c) (nat (cs_maxslot c) + 1) st \<noteq> []"
    and "set (turn (cs_slot c) (nat (cs_maxslot c) + 1) st) = {i. int i < nslot c \<and> slot_at (int i) c \<noteq> None}"
proof -
  have "set (turn (cs_slot c) (nat (cs_maxslot c) + 1) st) = {i. i \<le> nat (cs_maxslot c) \<and> cs_slot c ! i \<noteq> None}"
    by (auto simp: turn_def set_ring)
  also have "\<dots> = {i. int i < nslot c \<and> slot_at (int i) c \<noteq> None}"
  proof -
    have "i \<le> nat (cs_maxslot c) \<and> cs_slot c ! i \<noteq> None \<longleftrightarrow> int i < nslot c \<and> slot_at (int i) c \<noteq> None" for i
    proof (cases "i \<le> nat (cs_maxslot c)")
      case True
      then have "int i \<le> cs_maxslot c" using assms(2) by linarith
      then have "i < length (cs_slot c)" using assms(1) by (simp add: top_ok_def)
      then show ?thesis using True by (simp add: slot_at_def)
    next
      case False
      then have "cs_maxslot c < int i" using assms(2) by auto
      then show ?thesis using False assms(1) by (simp add: top_ok_def)
    qed
    then show ?thesis by blast
  qed
  finally show eq: "set (turn (cs_slot c) (nat (cs_maxslot c) + 1) st) = {i. int i < nslot c \<and> slot_at (int i) c \<noteq> None}" .
  have "int (nat (cs_maxslot c)) = cs_maxslot c" using assms(2) by simp
  then have "nat (cs_maxslot c) \<in> {i. int i < nslot c \<and> slot_at (int i) c \<noteq> None}"
    using assms by (simp add: top_ok_def nat_less_iff)
  then have "set (turn (cs_slot c) (nat (cs_maxslot c) + 1) st) \<noteq> {}" unfolding eq by blast
  then show "turn (cs_slot c) (nat (cs_maxslot c) + 1) st \<noteq> []" by (simp only: set_empty) simp
qed

lemma mp_run_turn:
  assumes "0 \<le> cs_maxslot c" "cs_maxslot c < nslot c" "mp_perflow c = 0" "mp_checkpathid c = 0"
  shows "0 \<le> mp_ns c \<Longrightarrow> mp_ns c \<le> cs_maxslot c \<Longrightarrow> turn (cs_slot c) (nat (cs_maxslot c) + 1) (nat (mp_ns c)) = F \<Longrightarrow> F \<noteq> [] \<Longrightarrow>
    \<exists>ns. mp_run hs c = Inr (map (\<lambda>i. int (F ! (i mod length F))) [0..<length hs], c\<lparr>mp_ns := ns\<rparr>)"
  using assms
proof (induction hs arbitrary: c F)
  case Nil
  then show ?case by (intro exI [of _ "mp_ns c"]) simp
next
  case (Cons h hs)
  obtain x xs where F: "F = x # xs" using Cons.prems(4) by (cases F) auto
  have ns: "nat (mp_ns c) \<le> nat (cs_maxslot c)" "int (nat (mp_ns c)) = mp_ns c" using Cons.prems(1,2) by simp_all
  obtain st' where st': "next_filled c (mp_ns c) = Inr (int x, int st')" "st' \<le> nat (cs_maxslot c)"
    "turn (cs_slot c) (nat (cs_maxslot c) + 1) st' = xs @ [x]"
    using next_filled_turn [OF Cons.prems(5,6) ns(1)] Cons.prems(3) F unfolding ns(2) by blast
  let ?c = "c\<lparr>mp_ns := int st'\<rparr>"
  have run: "mp_classify h c = Inr (int x, ?c)" using st'(1) Cons.prems(7,8) by (simp add: mp_classify_def)
  have "\<exists>ns. mp_run hs ?c = Inr (map (\<lambda>i. int ((xs @ [x]) ! (i mod length (xs @ [x])))) [0..<length hs], ?c\<lparr>mp_ns := ns\<rparr>)"
    using st'(2,3) Cons.prems(5-8) by (intro Cons.IH) auto
  then obtain ns' where rest: "mp_run hs ?c = Inr (map (\<lambda>i. int ((xs @ [x]) ! (i mod length (xs @ [x])))) [0..<length hs], c\<lparr>mp_ns := ns'\<rparr>)" by auto
  have rot: "(xs @ [x]) ! (i mod length (xs @ [x])) = F ! (Suc i mod length F)" for i
  proof -
    have "rotate1 F ! (i mod length F) = F ! (Suc (i mod length F) mod length F)" by (rule nth_rotate1) (simp add: F)
    then show ?thesis by (simp add: F mod_Suc_eq)
  qed
  have "map (\<lambda>i. int (F ! (i mod length F))) [0..<length (h # hs)] = int x # map (\<lambda>i. int (F ! (Suc i mod length F))) [0..<length hs]"
    by (simp add: F map_upt_Suc del: upt_Suc)
  then show ?case using run rest rot by (intro exI [of _ ns']) simp
qed


lemma count_turns:
  assumes "distinct F" "k < length F"
  shows "count_list (map (\<lambda>m. F ! (m mod length F)) [0..<n]) (F ! k) = n div length F + (if k < n mod length F then 1 else 0)"
proof (induction n)
  case (Suc n)
  have r: "n mod length F < length F" using assms(2) by (intro mod_less_divisor) auto
  have "F ! (n mod length F) = F ! k \<longleftrightarrow> n mod length F = k" using nth_eq_iff_index_eq [OF assms(1) r assms(2)] .
  then show ?case using Suc r assms(2) by (auto simp: div_Suc mod_Suc)
qed simp

text \<open>
  C29. Round robin is fair. A \<open>MultiPathForwarder\<close> that looks at no field of the packet goes
  through the filled slots in a fixed order, each exactly once in every round, whatever slots
  are empty between them; of any packets, every filled slot gets its share, up to one packet,
  and the choice of a slot changes nothing but where the next round goes on.
\<close>

theorem multipath_round_robin:
  assumes "top_ok c" and "0 \<le> cs_maxslot c" and "0 \<le> mp_ns c" and "mp_ns c \<le> cs_maxslot c"
    and "mp_perflow c = 0" and "mp_checkpathid c = 0"
  shows "\<exists>F cls ns. mp_run hs c = Inr (map int cls, c\<lparr>mp_ns := ns\<rparr>) \<and>
    distinct F \<and> set F = {i. int i < nslot c \<and> slot_at (int i) c \<noteq> None} \<and>
    cls = map (\<lambda>m. F ! (m mod length F)) [0..<length hs] \<and>
    (\<forall>i \<in> set F. count_list cls i \<in> {length hs div length F, length hs div length F + 1})"
proof -
  let ?n = "nat (cs_maxslot c) + 1"
  let ?F = "turn (cs_slot c) ?n (nat (mp_ns c))"
  let ?cls = "map (\<lambda>m. ?F ! (m mod length ?F)) [0..<length hs]"
  note F = turn_filled [OF assms(1,2), of "nat (mp_ns c)"]
  have d: "distinct ?F" using distinct_ring [of "nat (mp_ns c)" ?n] assms(4) by (simp add: turn_def)
  have lt: "cs_maxslot c < nslot c" using assms(1) by (simp add: top_ok_def)
  obtain ns where "mp_run hs c = Inr (map (\<lambda>i. int (?F ! (i mod length ?F))) [0..<length hs], c\<lparr>mp_ns := ns\<rparr>)"
    using mp_run_turn [OF assms(2) lt assms(5,6,3,4) refl F(1), of hs] by blast
  then have run: "mp_run hs c = Inr (map int ?cls, c\<lparr>mp_ns := ns\<rparr>)" by (simp add: comp_def)
  have "count_list ?cls i \<in> {length hs div length ?F, length hs div length ?F + 1}" if i: "i \<in> set ?F" for i
  proof -
    obtain k where k: "k < length ?F" "?F ! k = i" using i unfolding in_set_conv_nth by blast
    show ?thesis using count_turns [OF d k(1), of "length hs"] unfolding k(2) by (cases "k < length hs mod length ?F") simp_all
  qed
  then show ?thesis using run d F(2) by (intro exI [of _ ?F] exI [of _ ?cls] exI [of _ ns]) simp
qed

definition demo_mpath :: mpath where
  "demo_mpath = \<lparr>cs_slot = [Some 5, None, Some 6, Some 7], cs_maxslot = 3, cs_shift = 0, cs_mask = - 1, cs_default = None, cs_nsize = 0,
     mp_ns = 1, mp_nodeid = 9, mp_perflow = 0, mp_checkpathid = 0\<rparr>"

lemma top_demo: "top_ok demo_mpath"
  by (auto simp: top_ok_def demo_mpath_def slot_at_def)

theorem multipath_round_robin_witness:
  "\<exists>F cls ns. mp_run (replicate 7 zero_ip) demo_mpath = Inr (map int cls, demo_mpath\<lparr>mp_ns := ns\<rparr>) \<and>
    distinct F \<and> set F = {0, 2, 3} \<and> cls = map (\<lambda>m. F ! (m mod length F)) [0..<7]"
proof -
  have c: "0 \<le> cs_maxslot demo_mpath" "0 \<le> mp_ns demo_mpath" "mp_ns demo_mpath \<le> cs_maxslot demo_mpath"
    "mp_perflow demo_mpath = 0" "mp_checkpathid demo_mpath = 0" by (simp_all add: demo_mpath_def)
  have s: "{i. int i < nslot demo_mpath \<and> slot_at (int i) demo_mpath \<noteq> None} = {0, 2, 3}"
    by (auto simp: demo_mpath_def slot_at_def nth_Cons' split: if_splits)
  show ?thesis using multipath_round_robin [OF top_demo c, of "replicate 7 zero_ip"] unfolding s length_replicate by blast
qed

subsection \<open>By flow\<close>

lemma turn_nonempty_next:
  assumes "top_ok c" "0 \<le> cs_maxslot c" "0 \<le> ms" "ms \<le> cs_maxslot c"
  shows "\<exists>x st'. next_filled c ms = Inr (int x, st') \<and> int x \<le> cs_maxslot c \<and> slot_at (int x) c \<noteq> None \<and>
    (slot_at ms c \<noteq> None \<longrightarrow> int x = ms)"
proof -
  let ?T = "turn (cs_slot c) (nat (cs_maxslot c) + 1) (nat ms)"
  note T = turn_filled [OF assms(1,2), of "nat ms"]
  obtain x xs where x: "?T = x # xs" using T(1) by (cases ?T) auto
  have lt: "cs_maxslot c < nslot c" and none: "\<forall>i > cs_maxslot c. slot_at i c = None" using assms(1) by (simp_all add: top_ok_def)
  obtain st' where st': "next_filled c (int (nat ms)) = Inr (int x, int st')"
    using next_filled_turn [OF assms(2) lt nat_mono [OF assms(4)] x] by blast
  have fill: "slot_at (int x) c \<noteq> None" using T(2) unfolding x by auto
  have "x = nat ms" if "slot_at ms c \<noteq> None"
  proof -
    obtain R where R: "ring (nat (cs_maxslot c) + 1) (nat ms) = nat ms # R"
      using assms(3,4) by (simp add: ring_def upt_conv_Cons del: upt_Suc)
    have "cs_slot c ! nat ms \<noteq> None" using that by (simp add: slot_at_def split: if_splits)
    then have "?T = nat ms # filter (\<lambda>i. cs_slot c ! i \<noteq> None) R" unfolding turn_def R by simp
    then show ?thesis using x by simp
  qed
  then show ?thesis using st' fill none assms(3) by (intro exI [of _ x] exI [of _ "int st'"]) (auto simp: not_less [symmetric])
qed


lemma mod_range: "0 \<le> n \<Longrightarrow> 0 \<le> a mod (n + 1) \<and> a mod (n + 1) \<le> (n :: int)"
  using pos_mod_bound [of "n + 1" a] by simp

lemma shift_mod_bij:
  fixes n :: int
  assumes "0 \<le> n"
  shows "bij_betw (\<lambda>k. (s + k) mod (n + 1)) {0..n} {0..n}"
proof (rule bij_betw_imageI)
  show inj: "inj_on (\<lambda>k. (s + k) mod (n + 1)) {0..n}"
  proof (rule inj_onI)
    fix i j assume ij: "i \<in> {0..n}" "j \<in> {0..n}" "(s + i) mod (n + 1) = (s + j) mod (n + 1)"
    have "i mod (n + 1) = j mod (n + 1)" using ij(3) unfolding mod_eq_dvd_iff by simp
    moreover have "i mod (n + 1) = i" "j mod (n + 1) = j" using ij(1,2) by (intro mod_pos_pos_trivial; simp)+
    ultimately show "i = j" by (simp only:)
  qed
  have "(\<lambda>k. (s + k) mod (n + 1)) ` {0..n} \<subseteq> {0..n}" using mod_range [OF assms] by auto
  then show "(\<lambda>k. (s + k) mod (n + 1)) ` {0..n} = {0..n}" using inj by (intro endo_inj_surj) simp_all
qed

text \<open>What the fields of a packet say to \<open>MultiPathForwarder::classify\<close>.\<close>

definition same_flow :: "mpath \<Rightarrow> hdr_ip \<Rightarrow> hdr_ip \<Rightarrow> bool" where
  "same_flow c h h' \<longleftrightarrow> mshift c (word_of_int (ip_saddr h)) = mshift c (word_of_int (ip_saddr h')) \<and>
     mshift c (word_of_int (ip_daddr h)) = mshift c (word_of_int (ip_daddr h')) \<and> ip_fid h = ip_fid h' \<and>
     (mp_checkpathid c = 0 \<or> ip_prio h = ip_prio h')"

lemma classify_flow:
  assumes "top_ok c" "0 \<le> cs_maxslot c" "mp_perflow c \<noteq> 0 \<or> mp_checkpathid c \<noteq> 0"
  shows "\<exists>x. mp_classify h c = Inr (int x, c) \<and> int x \<le> cs_maxslot c \<and> slot_at (int x) c \<noteq> None \<and>
    (let ms = uint (flow_hash h c + (if mp_checkpathid c \<noteq> 0 then word_of_int (ip_prio h) else 0)) mod (cs_maxslot c + 1) in
     slot_at ms c \<noteq> None \<longrightarrow> int x = ms)"
proof -
  let ?w = "flow_hash h c + (if mp_checkpathid c \<noteq> 0 then word_of_int (ip_prio h) else 0)"
  let ?ms = "uint ?w mod (cs_maxslot c + 1)"
  have ms: "0 \<le> ?ms" "?ms \<le> cs_maxslot c" using mod_range [OF assms(2)] by blast+
  obtain x st' where x: "next_filled c ?ms = Inr (int x, st')" "int x \<le> cs_maxslot c" "slot_at (int x) c \<noteq> None"
    "slot_at ?ms c \<noteq> None \<longrightarrow> int x = ?ms" using turn_nonempty_next [OF assms(1,2) ms] by blast
  have "(if mp_checkpathid c \<noteq> 0 then flow_hash h c + word_of_int (ip_prio h) else flow_hash h c) = ?w" by simp
  then have "mp_classify h c = Inr (int x, c)" using assms(2,3) x(1) by (simp only: mp_classify_def Let_def) simp
  then show ?thesis using x(2-4) unfolding Let_def by blast
qed

text \<open>
  C30. Forwarding by flow keeps the packets of a flow on one path: with \<open>perflow_\<close> or
  \<open>checkpathid_\<close> set, the object that gets a packet is filled in one of the slots, is not
  freed, is the same for every packet with the same addresses, flow and (if it counts) path
  number, and no packet changes the state of the forwarder.
\<close>

theorem multipath_per_flow:
  assumes "top_ok c" and "0 \<le> cs_maxslot c" and "mp_perflow c \<noteq> 0 \<or> mp_checkpathid c \<noteq> 0"
  shows "\<exists>i n. slot_at i c = Some n \<and>
    (\<forall>h'. same_flow c h h' \<longrightarrow> mp_classify h' c = Inr (i, c) \<and> cs_recv ns mp_classify h' c = Inr (Passed n, c))"
proof -
  obtain x where x: "mp_classify h c = Inr (int x, c)" "slot_at (int x) c \<noteq> None" using classify_flow [OF assms] by blast
  then obtain n where n: "slot_at (int x) c = Some n" by auto
  have "mp_classify h' c = Inr (int x, c) \<and> cs_recv ns mp_classify h' c = Inr (Passed n, c)" if "same_flow c h h'" for h'
  proof -
    have "mp_classify h' c = mp_classify h c" using that by (auto simp: mp_classify_def flow_hash_def same_flow_def)
    then show ?thesis using x(1) n by (simp add: cs_recv_def cs_find_def)
  qed
  then show ?thesis using n by blast
qed

theorem multipath_per_flow_witness:
  "\<exists>i n. slot_at i (demo_mpath\<lparr>mp_perflow := 1\<rparr>) = Some n \<and>
    cs_recv (\<lambda>_ c. c) mp_classify (zero_ip\<lparr>ip_prio := 3\<rparr>) (demo_mpath\<lparr>mp_perflow := 1\<rparr>) = Inr (Passed n, demo_mpath\<lparr>mp_perflow := 1\<rparr>)"
proof -
  let ?c = "demo_mpath\<lparr>mp_perflow := 1\<rparr>"
  have c: "top_ok ?c" by (auto simp: top_ok_def demo_mpath_def slot_at_def)
  have s: "0 \<le> cs_maxslot ?c" "mp_perflow ?c \<noteq> 0 \<or> mp_checkpathid ?c \<noteq> 0" "same_flow ?c zero_ip (zero_ip\<lparr>ip_prio := 3\<rparr>)"
    by (simp_all add: demo_mpath_def same_flow_def)
  from multipath_per_flow [OF c s(1,2), of zero_ip "\<lambda>_ c. c"] s(3) show ?thesis by blast
qed

text \<open>
  Path numbers name paths. With \<open>checkpathid_\<close> set and all slots up to \<open>maxslot_\<close> filled,
  as many consecutive path numbers as there are slots take every slot exactly once, in order
  and from the slot that the flow's hash gives, as long as hash plus path number stays below
  \<open>2 ^ 32\<close> (else the order breaks where it wraps).
\<close>

theorem path_numbers_cover:
  assumes "top_ok c" and "0 \<le> cs_maxslot c" and "mp_checkpathid c \<noteq> 0" and "\<forall>i. 0 \<le> i \<and> i \<le> cs_maxslot c \<longrightarrow> slot_at i c \<noteq> None"
    and "0 \<le> ip_prio h" and "uint (flow_hash h c) + ip_prio h + cs_maxslot c < 2 ^ 32"
  shows "\<exists>s. bij_betw (\<lambda>k. (s + k) mod (cs_maxslot c + 1)) {0..cs_maxslot c} {0..cs_maxslot c} \<and>
    (\<forall>k \<in> {0..cs_maxslot c}. mp_classify (h\<lparr>ip_prio := ip_prio h + k\<rparr>) c = Inr ((s + k) mod (cs_maxslot c + 1), c))"
proof (intro exI conjI ballI)
  let ?n = "cs_maxslot c + 1"
  let ?s = "uint (flow_hash h c) + ip_prio h"
  show "bij_betw (\<lambda>k. (?s + k) mod ?n) {0..cs_maxslot c} {0..cs_maxslot c}"
    by (rule shift_mod_bij) (use assms(2) in simp)
  fix k assume "k \<in> {0..cs_maxslot c}"
  then have k: "0 \<le> k" "k \<le> cs_maxslot c" by simp_all
  note b = assms(5,6) k uint_ge_0 [of "flow_hash h c"]
  let ?h = "h\<lparr>ip_prio := ip_prio h + k\<rparr>"
  have ch: "(if mp_checkpathid c \<noteq> 0 then w else 0) = w" for w :: "32 word" using assms(3) by simp
  have pr: "ip_prio ?h = ip_prio h + k" by simp
  have fh: "flow_hash ?h c = flow_hash h c" by (simp add: flow_hash_def)
  have "uint (flow_hash h c + word_of_int (ip_prio h + k)) = (uint (flow_hash h c) + (ip_prio h + k) mod 2 ^ 32) mod 2 ^ 32"
    by (simp add: uint_word_ariths uint_word_of_int mod_simps)
  also have "(ip_prio h + k) mod 2 ^ 32 = ip_prio h + k" by (rule mod_pos_pos_trivial) (use b in linarith)+
  also have "(uint (flow_hash h c) + (ip_prio h + k)) mod 2 ^ 32 = ?s + k" by (subst mod_pos_pos_trivial) (use b in linarith)+
  finally have u: "uint (flow_hash h c + word_of_int (ip_prio h + k)) = ?s + k" .
  obtain x where "mp_classify ?h c = Inr (int x, c)" "slot_at ((?s + k) mod ?n) c \<noteq> None \<longrightarrow> int x = (?s + k) mod ?n"
    using classify_flow [OF assms(1,2) disjI2 [OF assms(3)], of ?h] unfolding Let_def fh ch pr u by blast
  moreover have "0 \<le> (?s + k) mod ?n \<and> (?s + k) mod ?n \<le> cs_maxslot c" by (rule mod_range [OF assms(2)])
  ultimately show "mp_classify ?h c = Inr ((?s + k) mod ?n, c)" using assms(4) by simp
qed

theorem path_numbers_cover_witness:
  "\<exists>s. bij_betw (\<lambda>k. (s + k) mod 2) {0..1} {0..1} \<and>
    (\<forall>k \<in> {0..1}. mp_classify (zero_ip\<lparr>ip_prio := k\<rparr>) (demo_mpath\<lparr>cs_slot := [Some 5, Some 6], cs_maxslot := 1, mp_checkpathid := 1\<rparr>) =
      Inr ((s + k) mod 2, demo_mpath\<lparr>cs_slot := [Some 5, Some 6], cs_maxslot := 1, mp_checkpathid := 1\<rparr>))"
proof -
  let ?c = "demo_mpath\<lparr>cs_slot := [Some 5, Some 6], cs_maxslot := 1, mp_checkpathid := 1\<rparr>"
  have c: "top_ok ?c" "0 \<le> cs_maxslot ?c" "mp_checkpathid ?c \<noteq> 0" "\<forall>i. 0 \<le> i \<and> i \<le> cs_maxslot ?c \<longrightarrow> slot_at i ?c \<noteq> None"
    by (auto simp: top_ok_def slot_at_def nth_Cons')
  have h: "0 \<le> ip_prio zero_ip" "uint (flow_hash zero_ip ?c) + ip_prio zero_ip + cs_maxslot ?c < 2 ^ 32"
    by (simp_all add: zero_ip_def flow_hash_def hash_string_def word_bytes_def mshift_def demo_mpath_def)
  show ?thesis using path_numbers_cover [OF c h] by (simp add: zero_ip_def)
qed

text \<open>A forwarder with no slot installed divides by zero.\<close>

lemma empty_mpath: "cs_maxslot c = -1 \<Longrightarrow> mp_classify h c = Inl Div_Zero"
  by (simp add: mp_classify_def next_filled_def Let_def)

end
