(* ===== verification/SenderSteps.thy ===== *)
theory SenderSteps
  imports SenderTimeout
begin

section \<open>What a sender sends and acknowledges\<close>

text \<open>
  Every operation of the sender but a reset either sends and leaves the acknowledgement as it
  is, or takes over a new acknowledgement and then sends: the relation \<open>sends\<close>, which the
  composition with a receiver rests on. The quiescence option, Quick-Start, the table of
  timestamps, the random delay of sends and the limit of connection attempts are off, as the
  repository configures them.
\<close>

subsection \<open>Sending\<close>

definition basic :: "tcp_conf \<Rightarrow> bool" where
  "basic c \<longleftrightarrow> \<not> cf_bugfix_ts c \<and> \<not> cf_QOption c \<and> cf_overhead c = 0 \<and> \<not> cf_qs_enabled c \<and>
     0 < cf_size c \<and> 0 < cf_tcpip_base_hdr_size c \<and> 0 \<le> cf_ts_option_size c \<and> cf_max_connects c \<le> 0"

text \<open>The part of the state that counts for what is sent.\<close>

definition pos :: "tcp_sender \<Rightarrow> (int \<times> int \<times> int \<times> int \<times> int) \<times> (real list option \<times> real option \<times> real option \<times> real) \<times>
    (real \<times> real option \<times> int) \<times> sent_pkt list \<times> bool \<times> bool" where
  "pos s = ((sd_highest_ack s, sd_last_ack s, sd_t_seqno s, sd_recover s, sd_maxseq s),
     (sd_tss s, sd_delsnd s, sd_burstsnd s, sd_lastreset s), (rt_tick s, sd_rtx s, sd_curseq s),
     sd_sent s, qs_requested (sd_qs s), qs_approved (sd_qs s))"

definition sender_ok :: "tcp_sender \<Rightarrow> bool" where
  "sender_ok s \<longleftrightarrow> -1 \<le> sd_highest_ack s \<and> sd_last_ack s = sd_highest_ack s \<and> 0 \<le> sd_t_seqno s \<and> -1 \<le> sd_recover s \<and>
     -1 \<le> sd_maxseq s \<and> rtt_ok s \<and> sd_tss s = None \<and> sd_delsnd s = None \<and> sd_burstsnd s = None \<and>
     \<not> qs_requested (sd_qs s) \<and> \<not> qs_approved (sd_qs s)"

text \<open>The packets \<open>ps\<close> may be sent at a time when the greatest number sent is \<open>n\<close>.\<close>

definition sendable :: "real \<Rightarrow> int \<Rightarrow> sent_pkt list \<Rightarrow> bool" where
  "sendable now n ps \<longleftrightarrow> (\<forall>p \<in> set ps. 0 \<le> sp_seqno p \<and> sp_seqno p \<le> n \<and> 0 < sp_size p \<and> sp_ts p = now)"

text \<open>
  Data is only added, what is sent is logged, the tick of the clock stays, and the
  retransmission timer that was pending is still the one, or none, or one that is due a tick
  from now at the earliest.
\<close>

definition grows :: "real \<Rightarrow> tcp_sender \<Rightarrow> tcp_sender \<Rightarrow> bool" where
  "grows now s s' \<longleftrightarrow> sd_maxseq s \<le> sd_maxseq s' \<and> sd_curseq s \<le> sd_curseq s' \<and> sd_lastreset s' = sd_lastreset s \<and>
     rt_tick s' = rt_tick s \<and> (\<forall>x. sd_rtx s' = Some x \<longrightarrow> sd_rtx s = Some x \<or> now + rt_tick s \<le> x) \<and>
     (\<exists>ps. sd_sent s' = sd_sent s @ ps \<and> sendable now (sd_maxseq s') ps)"

lemma grows_trans: "grows now s t \<Longrightarrow> grows now t u \<Longrightarrow> grows now s u"
proof -
  assume st: "grows now s t" and tu: "grows now t u"
  obtain ps qs where "sd_sent t = sd_sent s @ ps" "sendable now (sd_maxseq t) ps" "sd_sent u = sd_sent t @ qs" "sendable now (sd_maxseq u) qs"
    using st tu by (auto simp: grows_def)
  moreover have "sd_maxseq t \<le> sd_maxseq u" using tu by (simp add: grows_def)
  ultimately have "sd_sent u = sd_sent s @ (ps @ qs)" "sendable now (sd_maxseq u) (ps @ qs)"
    by (auto simp: sendable_def)
  then show ?thesis using st tu unfolding grows_def by auto
qed

definition sends :: "real \<Rightarrow> tcp_sender \<Rightarrow> tcp_sender \<Rightarrow> bool" where
  "sends now s s' \<longleftrightarrow> (sender_ok s \<longrightarrow> sender_ok s' \<and> sd_highest_ack s' = sd_highest_ack s \<and> grows now s s')"

lemma sends_trans: "sends now s t \<Longrightarrow> sends now t u \<Longrightarrow> sends now s u"
  unfolding sends_def using grows_trans by auto

lemma sends_ok: "(sender_ok s \<Longrightarrow> sends now s s') \<Longrightarrow> sends now s s'"
  by (simp add: sends_def)

lemma sends_quiet:
  assumes "pos s' = pos s" and "rtt_ok s \<Longrightarrow> rtt_ok s'"
  shows "sends now s s'"
  using assms by (simp add: sends_def grows_def pos_def sender_ok_def sendable_def)

lemma sends_refl [simp]: "sends now s s"
  by (rule sends_quiet) simp_all

text \<open>The next packet to send may be set to any number that is not negative.\<close>

lemma sends_seqno: "(sender_ok s \<Longrightarrow> 0 \<le> i) \<Longrightarrow> sends now s (s\<lparr>sd_t_seqno := i\<rparr>)"
  by (simp add: sends_def grows_def sender_ok_def sendable_def rtt_ok_def)

lemma sends_recover: "(sender_ok s \<Longrightarrow> -1 \<le> i) \<Longrightarrow> sends now s (s\<lparr>sd_recover := i\<rparr>)"
  by (simp add: sends_def grows_def sender_ok_def sendable_def rtt_ok_def)

lemma pos_upd [simp]:
  "pos (upd_stats f s) = pos s" "rtt_ok (upd_stats f s) = rtt_ok s" "pos (upd_qs (\<lambda>q. q\<lparr>qs_window := x\<rparr>) s) = pos s"
  "rtt_ok (upd_qs g s) = rtt_ok s"
  by (simp_all add: pos_def upd_stats_def upd_qs_def rtt_ok_def)

lemma close_pos [simp]:
  "pos (close_ssthresh c how b x y s) = pos s" "pos (close_cwnd how b x s) = pos s" "rtt_ok (close_cwnd how b x s) = rtt_ok s"
  by (simp_all add: close_ssthresh_def close_cwnd_def pos_def rtt_ok_def)

lemma slowdown_pos [simp]: "pos (slowdown c how s) = pos s" "rtt_ok (slowdown c how s) = rtt_ok s"
proof -
  define s1 where "s1 = upd_stats (\<lambda>n. n\<lparr>st_ncwndcuts := st_ncwndcuts n + 1,
            st_ncwndcuts1 := st_ncwndcuts1 n + (if \<not> has TCP_IDLE how \<and> \<not> has NO_OUTSTANDING_DATA how then 1 else 0)\<rparr>) s"
  obtain hw dn dw where w: "close_windows c s1 = (hw, dn, dw)" by (metis surj_pair)
  have f: "pos (if q then t\<lparr>sd_ssthresh := 2\<rparr> else t) = pos t" "pos (if q then t\<lparr>sd_cong_action := True\<rparr> else t) = pos t"
    "pos (t\<lparr>sd_fcnt := 0, sd_count := 0, sd_first_decrease := False\<rparr>) = pos t" "pos (t\<lparr>sd_decrease_num := dn\<rparr>) = pos t"
    "rtt_ok (if q then t\<lparr>sd_ssthresh := 2\<rparr> else t) = rtt_ok t" "rtt_ok (if q then t\<lparr>sd_cong_action := True\<rparr> else t) = rtt_ok t"
    "rtt_ok (t\<lparr>sd_fcnt := 0, sd_count := 0, sd_first_decrease := False\<rparr>) = rtt_ok t" "rtt_ok (t\<lparr>sd_decrease_num := dn\<rparr>) = rtt_ok t" for q t
    by (simp_all add: pos_def rtt_ok_def)
  show "pos (slowdown c how s) = pos s" "rtt_ok (slowdown c how s) = rtt_ok s"
    unfolding slowdown_def Let_def s1_def [symmetric] w prod.case f close_pos close_ssthresh_span by (simp_all add: s1_def)
qed

lemma slowdown_sends: "sends now s (slowdown c how s)"
  by (rule sends_quiet) simp_all

lemma set_rtx_timer_sends:
  assumes "set_rtx_timer now s = Inr s'"
  shows "sends now s s'"
proof (rule sends_ok)
  assume ok: "sender_ok s"
  then have "rtt_ok s" by (simp add: sender_ok_def)
  from rtt_timeout_ok [OF this] obtain t where
    t: "rtt_timeout s = Inr (t, s\<lparr>rt_use_rtt := False\<rparr>)" "(if rt_use_rtt s then rt_tick s else 2 * rt_tick s) \<le> t" by blast
  have "rt_tick s \<le> t" using t(2) \<open>rtt_ok s\<close> by (simp add: rtt_ok_def split: if_splits)
  moreover have "s' = s\<lparr>rt_use_rtt := False, sd_rtx := Some (now + t)\<rparr>" using assms t(1) by (simp add: set_rtx_timer_def)
  ultimately show ?thesis by (simp add: sends_def grows_def sender_ok_def sendable_def rtt_ok_def)
qed

lemma sends_cancel: "sends now s (s\<lparr>sd_rtx := None\<rparr>)"
  by (simp add: sends_def grows_def sender_ok_def sendable_def rtt_ok_def)

lemma rtt_backoff_sends:
  assumes "rtt_backoff s = Inr s'"
  shows "sends t s s'"
proof (rule sends_quiet)
  show "pos s' = pos s"
    using assms by (auto simp: rtt_backoff_def rbind_eq_Inr Let_def pos_def dest!: rtt_timeout_same split: if_splits)
  show "rtt_ok s'" if "rtt_ok s" using rtt_backoff_ok [OF that] assms by auto
qed

lemma reset_rtx_timer_sends:
  assumes "reset_rtx_timer now mild backoff s = Inr s'"
  shows "sends now s s'"
proof -
  obtain s1 s2 where s1: "(if backoff then rtt_backoff s else Inr s) = Inr s1" and s2: "set_rtx_timer now s1 = Inr s2"
    and s': "s' = (if mild then s2 else s2\<lparr>sd_t_seqno := sd_highest_ack s2 + 1\<rparr>)\<lparr>sd_rtt_active := False\<rparr>"
    using assms by (auto simp: reset_rtx_timer_def rbind_eq_Inr)
  have "sends now s s1" using s1 rtt_backoff_sends by (auto split: if_splits)
  moreover have "sends now s1 s2" by (rule set_rtx_timer_sends [OF s2])
  moreover have "sends now s2 (if mild then s2 else s2\<lparr>sd_t_seqno := sd_highest_ack s2 + 1\<rparr>)"
    using sends_seqno [of s2 "sd_highest_ack s2 + 1"] by (simp add: sender_ok_def)
  moreover have "sends now (if mild then s2 else s2\<lparr>sd_t_seqno := sd_highest_ack s2 + 1\<rparr>) s'"
    unfolding s' by (rule sends_quiet) (simp_all add: pos_def rtt_ok_def)
  ultimately show ?thesis using sends_trans by blast
qed

lemma newtimer_sends:
  assumes "newtimer now seqno s = Inr s'"
  shows "sends now s s'"
proof -
  have "sends now s (cancel_rtx_timer s)" by (simp add: cancel_rtx_timer_def sends_cancel)
  then show ?thesis using assms set_rtx_timer_sends [of now s s'] by (simp add: newtimer_def split: if_splits)
qed

subsection \<open>Output\<close>

lemma mark_sent_pos:
  "pos (mark_sent now seqno n s) = pos (s\<lparr>sd_maxseq := max (sd_maxseq s) seqno\<rparr>)"
  by (auto simp: mark_sent_def pos_def upd_stats_def max_def)

lemma send_data_sends:
  assumes "send_data now seqno p n s = Inr s'" and "0 \<le> seqno" and "sp_seqno p = seqno" and "0 < sp_size p" and "sp_ts p = now"
  shows "sends now s s'"
proof -
  define s1 where "s1 = upd_stats (\<lambda>n'. n'\<lparr>st_ndatapack := st_ndatapack n' + 1, st_ndatabytes := st_ndatabytes n' + n\<rparr>)
                 (s\<lparr>sd_sent := sd_sent s @ [p]\<rparr>)"
  define s2 where "s2 = (if seqno = sd_curseq s1 \<and> seqno > sd_maxseq s1 then s1\<lparr>sd_idle_calls := sd_idle_calls s1 + 1\<rparr> else s1)"
  define s3 where "s3 = mark_sent now seqno n s2"
  have "pos s2 = pos (s\<lparr>sd_sent := sd_sent s @ [p]\<rparr>)" "sd_maxseq s2 = sd_maxseq s" "rtt_ok s2 = rtt_ok s"
    by (simp_all add: s2_def s1_def pos_def upd_stats_def rtt_ok_def)
  then have "pos s3 = pos (s\<lparr>sd_sent := sd_sent s @ [p], sd_maxseq := max (sd_maxseq s) seqno\<rparr>)" "rtt_ok s3 = rtt_ok s"
    unfolding s3_def mark_sent_pos by (simp_all add: pos_def)
  then have k: "sends now s s3"
    using assms(2-5) by (auto simp: sends_def grows_def sendable_def sender_ok_def pos_def)
  have "(if sd_rtx s3 = None \<or> sd_highest_ack s = sd_maxseq s then set_rtx_timer now s3 else Inr s3) = Inr s'"
    using assms(1) unfolding send_data_def Let_def s1_def [symmetric] s2_def [symmetric] s3_def [symmetric] .
  then have "sends now s3 s'" using set_rtx_timer_sends by (auto split: if_splits)
  with k show ?thesis by (rule sends_trans)
qed

lemma tcp_output_sends:
  assumes "tcp_output c now seqno reason s = Inr s'" and "basic c" and "sender_ok s \<Longrightarrow> 0 \<le> seqno"
  shows "sends now s s'"
proof (rule sends_ok)
  assume ok: "sender_ok s"
  note c = assms(2) [unfolded basic_def]
  have st: "store_ts c now seqno s = Inr s"
    using ok c by (simp add: sender_ok_def store_ts_def resize_tss_def make_tss_def)
  define act where "act = (sd_cong_action s \<and> (\<not> seqno < sd_maxseq s \<or> cf_SetCWRonRetransmit c))"
  define s2 where "s2 = (if act then s\<lparr>sd_cong_action := False\<rparr> else s)"
  define s3 where "s3 = (if cf_syn c then
      (if sd_maxseq s2 = -1 then s2\<lparr>sd_curseq := sd_curseq s2 + 1\<rparr> else s2)\<lparr>sd_syn_connects := sd_syn_connects s2 + 1\<rparr> else s2)"
  have k2: "sends now s s2" by (rule sends_quiet) (simp_all add: s2_def pos_def rtt_ok_def)
  have "sends now s2 s3" by (simp add: s3_def sends_def grows_def sendable_def sender_ok_def rtt_ok_def)
  with k2 have k3: "sends now s s3" by (rule sends_trans)
  have hs: "0 < cf_size c + headersize c s2" using c by (simp add: headersize_def)
  note out = assms(1) [unfolded tcp_output_def st rbind_Inr Let_def act_def [symmetric] s2_def [symmetric] s3_def [symmetric]]
  show "sends now s s'"
  proof (cases "seqno = 0")
    case False
    then obtain p where "send_data now seqno p (cf_size c) s2 = Inr s'" "sp_seqno p = seqno" "0 < sp_size p" "sp_ts p = now"
      using out hs c by (cases "cf_useHeaders c") auto
    then show ?thesis using send_data_sends assms(3) [OF ok] sends_trans [OF k2] by blast
  next
    case True
    have no: "\<not> (cf_syn c \<and> cf_max_connects c > 0 \<and> sd_syn_connects s3 > cf_max_connects c)" using c by simp
    have nq: "\<not> cf_qs_enabled c" using c by simp
    from out [unfolded if_P [OF True] if_not_P [OF no] if_not_P [OF nq] prod.case]
    obtain p n where "send_data now seqno p n s3 = Inr s'" "sp_seqno p = seqno" "0 < sp_size p" "sp_ts p = now"
      using c by (cases "cf_syn c"; cases "cf_ecn c") auto
    then show ?thesis using send_data_sends assms(3) [OF ok] sends_trans [OF k3] by blast
  qed
qed

lemma send_next_sends:
  assumes "send_next c now reason s = Inr s'" and "basic c"
  shows "sends now s s'"
proof -
  obtain s1 where s1: "tcp_output c now (sd_t_seqno s) reason s = Inr s1" "s' = s1\<lparr>sd_t_seqno := sd_t_seqno s1 + 1\<rparr>"
    using assms by (auto simp: send_next_def rbind_eq_Inr basic_def)
  have "sends now s s1" by (rule tcp_output_sends [OF s1(1) assms(2)]) (simp add: sender_ok_def)
  moreover have "sends now s1 s'" unfolding s1(2) by (rule sends_seqno) (simp add: sender_ok_def)
  ultimately show ?thesis by (rule sends_trans)
qed

lemma sends_approved: "sends now s s' \<Longrightarrow> sender_ok s \<Longrightarrow> sender_ok s' \<and> \<not> qs_approved (sd_qs s')"
  by (simp add: sends_def sender_ok_def)

lemma send_loop_sends:
  assumes "send_loop c now force reason maxburst win n s = Some r"
  shows "basic c \<longrightarrow> (\<forall>s'. r = Inr s' \<longrightarrow> sends now s s')"
proof (rule send_loop.raw_induct [OF _ assms, where P = "\<lambda>c now force reason maxburst win n s r. basic c \<longrightarrow> (\<forall>s'. r = Inr s' \<longrightarrow> sends now s s')"], goal_cases)
  case (1 rec c now force reason maxburst win n s r)
  show ?case
  proof (intro allI impI, rule sends_ok)
    fix s' assume c: "basic c" and r: "r = Inr s'" and ok: "sender_ok s"
    have cc: "cf_overhead c = 0" using c by (simp add: basic_def)
    show "sends now s s'"
    proof (cases "sd_t_seqno s \<le> sd_highest_ack s + win \<and> sd_t_seqno s < sd_curseq s")
      case False
      then show ?thesis using 1(2) r by auto
    next
      case True
      then obtain s1 where s1: "send_next c now reason s = Inr s1" using 1(2) r cc by (cases "send_next c now reason s") auto
      have k: "sends now s s1" by (rule send_next_sends [OF s1 c])
      then have "\<not> qs_approved (sd_qs s1)" using sends_approved ok by blast
      then have "s' = s1 \<or> rec c now force reason maxburst (tcp_window c s1) (n + 1) s1 = Some (Inr s')"
        using 1(2) r True cc s1 by (auto split: if_splits)
      then show ?thesis using k 1(1) c sends_trans [OF k] by blast
    qed
  qed
qed

lemma send_much_sends:
  assumes "send_much c now force reason maxburst s = Inr s'" and "basic c"
  shows "sends now s s'"
proof -
  define s1 where "s1 = (if sd_t_seqno s = 0 then s\<lparr>sd_firstsent := now\<rparr> else s)"
  have k: "sends now s s1" by (rule sends_quiet) (simp_all add: s1_def pos_def rtt_ok_def)
  have "s' = s \<or> s' = s1 \<or> send_loop c now force reason maxburst (tcp_window c s) 0 s1 = Some (Inr s')"
    using assms(1) unfolding send_much_def Let_def s1_def [symmetric] by (auto split: if_splits option.splits)
  moreover have "sends now s1 s'" if "send_loop c now force reason maxburst (tcp_window c s) 0 s1 = Some (Inr s')"
    using send_loop_sends [OF that] assms(2) by simp
  ultimately show ?thesis using k sends_trans [OF k] by auto
qed

lemma send_one_sends: "send_one c now s = Inr s' \<Longrightarrow> basic c \<Longrightarrow> sends now s s'"
  using send_next_sends by (auto simp: send_one_def split: if_splits)

subsection \<open>Reactions to duplicates\<close>

lemma lossQuickStart_sends:
  assumes "lossQuickStart c now s = Inr (b, s')" and "basic c"
  shows "sends now s s'"
proof -
  let ?s = "upd_qs (\<lambda>q. q\<lparr>qs_window := 0\<rparr>) (slowdown c (bits [CLOSE_CWND_INIT]) s)"
  have k: "sends now s ?s" by (rule sends_quiet) simp_all
  have "s' = s \<or> tcp_output c now (sd_last_ack s + 1) TCP_REASON_DUPACK ?s = Inr s'"
    using assms(1) by (auto simp: lossQuickStart_def rbind_eq_Inr split: if_splits)
  moreover have "sends now ?s s'" if "tcp_output c now (sd_last_ack s + 1) TCP_REASON_DUPACK ?s = Inr s'"
  proof (rule tcp_output_sends [OF that assms(2)])
    have "pos ?s = pos s" by simp
    then have "sd_last_ack ?s = sd_last_ack s" "sd_highest_ack ?s = sd_highest_ack s" by (simp_all add: pos_def)
    then show "0 \<le> sd_last_ack s + 1" if "sender_ok ?s" using that by (simp add: sender_ok_def)
  qed
  ultimately show ?thesis using sends_trans [OF k] by auto
qed

lemma cwnd_action_sends: "sends now s (s\<lparr>sd_last_cwnd_action := a\<rparr>)"
  by (rule sends_quiet) (simp_all add: pos_def rtt_ok_def)

lemma tahoe_sends:
  assumes "tahoe_action c now s = Inr s'" and "basic c"
  shows "sends now s s'"
proof -
  obtain lost s1 where s1: "lossQuickStart c now (s\<lparr>sd_recover := sd_maxseq s\<rparr>) = Inr (lost, s1)"
    and r: "reset_rtx_timer now False False (if lost then s1
      else slowdown c (bits [CLOSE_SSTHRESH_HALF, CLOSE_CWND_ONE]) (s1\<lparr>sd_last_cwnd_action := CWND_ACTION_DUPACK\<rparr>)) = Inr s'"
    using assms(1) by (auto simp: tahoe_action_def rbind_eq_Inr)
  have "sends now s (s\<lparr>sd_recover := sd_maxseq s\<rparr>)" by (rule sends_recover) (simp add: sender_ok_def)
  from sends_trans [OF this lossQuickStart_sends [OF s1 assms(2)]] have "sends now s s1" .
  moreover have "sends now s1 (if lost then s1
      else slowdown c (bits [CLOSE_SSTHRESH_HALF, CLOSE_CWND_ONE]) (s1\<lparr>sd_last_cwnd_action := CWND_ACTION_DUPACK\<rparr>))"
    using sends_trans [OF cwnd_action_sends slowdown_sends] by simp
  ultimately show ?thesis using reset_rtx_timer_sends [OF r] sends_trans by blast
qed

lemma dupack_sends:
  assumes "dupack_action c now s = Inr s'" and "basic c"
  shows "sends now s s'"
proof -
  let ?s = "slowdown c (bits [CLOSE_CWND_ONE]) (s\<lparr>sd_last_cwnd_action := CWND_ACTION_DUPACK\<rparr>)"
  have k: "sends now s ?s" by (rule sends_trans [OF cwnd_action_sends slowdown_sends])
  have "tahoe_action c now s = Inr s' \<or> reset_rtx_timer now False False ?s = Inr s' \<or> s' = s"
    using assms(1) unfolding dupack_action_def by (auto split: if_splits)
  then show ?thesis using tahoe_sends [OF _ assms(2)] sends_trans [OF k reset_rtx_timer_sends] by auto
qed

lemma recv_dupack_sends:
  assumes "recv_dupack c now s = Inr s'" and "basic c"
  shows "sends now s s'"
proof -
  let ?s = "s\<lparr>sd_dupacks := sd_dupacks s + 1\<rparr>"
  have k: "sends now s ?s" by (rule sends_quiet) (simp_all add: pos_def rtt_ok_def)
  have "dupack_action c now ?s = Inr s' \<or> send_one c now ?s = Inr s' \<or> s' = ?s"
    using assms(1) unfolding recv_dupack_def Let_def by (auto split: if_splits)
  then show ?thesis using k dupack_sends [OF _ assms(2)] send_one_sends [OF _ assms(2)] sends_trans [OF k] by blast
qed

lemma tcp_eln_sends:
  assumes "tcp_eln c now ack s = Inr s'" and "basic c"
  shows "sends now s s'"
proof -
  let ?s = "s\<lparr>sd_dupacks := sd_dupacks s + 1\<rparr>"
  have k: "sends now s ?s" by (rule sends_quiet) (simp_all add: pos_def rtt_ok_def)
  show ?thesis
  proof (cases "send_much c now False 0 (cf_maxburst c) ?s = Inr s'")
    case True
    then show ?thesis using sends_trans [OF k send_much_sends [OF _ assms(2)]] by blast
  next
    case False
    then obtain s2 where s2: "tcp_output c now (sd_last_ack s + 1) TCP_REASON_DUPACK ?s = Inr s2"
      "s' = s2\<lparr>sd_eln_last_rxmit := sd_last_ack s2 + 1\<rparr>"
      using assms(1) by (auto simp: tcp_eln_def Let_def rbind_eq_Inr split: if_splits)
    have "sends now ?s s2" by (rule tcp_output_sends [OF s2(1) assms(2)]) (simp add: sender_ok_def)
    moreover have "sends now s2 s'" unfolding s2(2) by (rule sends_quiet) (simp_all add: pos_def rtt_ok_def)
    ultimately show ?thesis using k sends_trans by blast
  qed
qed

lemma recv_rest_sends:
  assumes "recv_rest c now ack s = Inr s'" and "basic c"
  shows "sends now s s'"
  using assms send_much_sends by (auto simp: recv_rest_def basic_def split: if_splits)

lemma tcp_ecn_sends:
  assumes "tcp_ecn c seqno s = Inr s'"
  shows "sends now s s'"
proof (cases "seqno > sd_recover s \<or> sd_last_cwnd_action s = CWND_ACTION_TIMEOUT")
  case False
  then show ?thesis using assms by (simp add: tcp_ecn_def)
next
  case True
  define s1 where "s1 = s\<lparr>sd_recover := sd_maxseq s, sd_last_cwnd_action := CWND_ACTION_ECN\<rparr>"
  obtain s2 how where s2: "(if sd_cwnd s1 \<le> 1 then (if sd_ecn_backoff s1 then rtt_backoff s1 else Inr (s1\<lparr>sd_ecn_backoff := True\<rparr>))
           else Inr (s1\<lparr>sd_ecn_backoff := False\<rparr>)) = Inr s2"
    and s': "s' = upd_stats (\<lambda>n. n\<lparr>st_necnresponses := st_necnresponses n + 1\<rparr>) (slowdown c how s2)"
    using assms True unfolding tcp_ecn_def Let_def s1_def [symmetric] by (auto simp: rbind_eq_Inr)
  have "sends now s (s\<lparr>sd_recover := sd_maxseq s\<rparr>)" by (rule sends_recover) (simp add: sender_ok_def)
  from sends_trans [OF this cwnd_action_sends] have k1: "sends now s s1" by (simp add: s1_def)
  have b: "sends now s1 (s1\<lparr>sd_ecn_backoff := x\<rparr>)" for x by (rule sends_quiet) (simp_all add: pos_def rtt_ok_def)
  have "sends now s1 s2" using s2 rtt_backoff_sends b by (auto split: if_splits)
  moreover have "sends now s2 s'" unfolding s' by (rule sends_quiet) simp_all
  ultimately show ?thesis using k1 sends_trans by blast
qed

lemma recv_frto_sends: "sends now s (recv_frto_helper ack s)"
proof -
  have "sends now s (s\<lparr>sd_t_seqno := sd_highest_ack s + 1\<rparr>)" by (rule sends_seqno) (simp add: sender_ok_def)
  moreover have "sends now t (t\<lparr>sd_frto := 0, sd_dupacks := -1\<rparr>)" for t by (rule sends_quiet) (simp_all add: pos_def rtt_ok_def)
  ultimately have "sends now s (s\<lparr>sd_t_seqno := sd_highest_ack s + 1, sd_frto := 0, sd_dupacks := -1\<rparr>)"
    using sends_trans by blast
  then show ?thesis by (simp add: recv_frto_helper_def)
qed


subsection \<open>A new acknowledgement\<close>

definition acks :: "real \<Rightarrow> int \<Rightarrow> tcp_sender \<Rightarrow> tcp_sender \<Rightarrow> bool" where
  "acks now n s s' \<longleftrightarrow> (sender_ok s \<longrightarrow> sender_ok s' \<and> sd_highest_ack s' = n \<and> grows now s s')"

lemma acks_sends: "acks now n s t \<Longrightarrow> sends now t u \<Longrightarrow> acks now n s u"
  unfolding acks_def sends_def using grows_trans by auto

lemma sends_acks: "sends now s t \<Longrightarrow> acks now n t u \<Longrightarrow> acks now n s u"
  unfolding acks_def sends_def using grows_trans by auto

lemma end_backoff_pos [simp]: "pos (end_backoff e s) = pos s" "rtt_ok s \<Longrightarrow> rtt_ok (end_backoff e s)"
  by (simp_all add: end_backoff_def pos_def rtt_ok_def)

lemma rtt_update_pos [simp]: "pos (rtt_update now tao s) = pos s"
  by (simp add: rtt_update_def set_rtxcur_def smooth_def Let_def pos_def)

lemma sample_rtt_pos: "pos (sample_rtt c now ack s) = pos s" "rtt_ok s \<Longrightarrow> rtt_ok (sample_rtt c now ack s)"
proof -
  define s1 where "s1 = (if rt_ts_option s then
      let s' = rtt_update now (now - ah_ts_echo ack) (s\<lparr>sd_ts_echo := ah_ts_echo ack\<rparr>) in
      if cf_ts_resetRTO c then end_backoff (ah_ecnecho ack) s' else s' else s)"
  have e: "pos (s\<lparr>sd_ts_echo := t\<rparr>) = pos s" "rtt_ok (s\<lparr>sd_ts_echo := t\<rparr>) = rtt_ok s"
    "pos (r\<lparr>sd_rtt_active := b\<rparr>) = pos r" "rtt_ok (r\<lparr>sd_rtt_active := b\<rparr>) = rtt_ok r" for t r b
    by (simp_all add: pos_def rtt_ok_def)
  have s1: "pos s1 = pos s" "rtt_ok s \<Longrightarrow> rtt_ok s1" by (simp_all add: s1_def Let_def e rtt_update_ok)
  show "pos (sample_rtt c now ack s) = pos s" "rtt_ok s \<Longrightarrow> rtt_ok (sample_rtt c now ack s)"
    unfolding sample_rtt_def s1_def [symmetric] Let_def by (simp_all add: s1 e rtt_update_ok)
qed

lemma newack_acks:
  assumes "newack c now ack s = Inr s'" and "sd_last_ack s < ah_seqno ack"
  shows "acks now (ah_seqno ack) s s'"
proof -
  obtain s1 where s1: "(if \<not> cf_timerfix c then newtimer now (ah_seqno ack) s else Inr s) = Inr s1"
    using assms by (auto simp: newack_def rbind_eq_Inr Let_def)
  have k1: "sends now s s1" using s1 newtimer_sends by (auto split: if_splits)
  define s2 where "s2 = s1\<lparr>sd_dupacks := 0, sd_last_ack := ah_seqno ack, sd_prev_highest_ack := sd_highest_ack s1,
                   sd_highest_ack := ah_seqno ack\<rparr>"
  define s2' where "s2' = (if sd_t_seqno s2 < sd_last_ack s2 + 1 then s2\<lparr>sd_t_seqno := sd_last_ack s2 + 1\<rparr> else s2)"
  define s3 where "s3 = sample_rtt c now ack s2'"
  have "acks now (ah_seqno ack) s s2'"
  proof -
    have "sd_last_ack s = sd_highest_ack s" "-1 \<le> sd_highest_ack s" if "sender_ok s" using that by (simp_all add: sender_ok_def)
    then have "0 \<le> ah_seqno ack" if "sender_ok s" using that assms(2) by simp
    moreover have "rtt_ok s2' = rtt_ok s1" by (simp add: s2'_def s2_def rtt_ok_def)
    moreover have "sd_highest_ack s2' = ah_seqno ack" "sd_last_ack s2' = ah_seqno ack" "sd_maxseq s2' = sd_maxseq s1"
      "sd_recover s2' = sd_recover s1" "sd_tss s2' = sd_tss s1" "sd_delsnd s2' = sd_delsnd s1" "sd_burstsnd s2' = sd_burstsnd s1"
      "sd_qs s2' = sd_qs s1" "sd_rtx s2' = sd_rtx s1" "rt_tick s2' = rt_tick s1" "sd_curseq s2' = sd_curseq s1" "sd_lastreset s2' = sd_lastreset s1" "sd_sent s2' = sd_sent s1" "ah_seqno ack + 1 \<le> sd_t_seqno s2'"
      by (simp_all add: s2'_def s2_def)
    ultimately show ?thesis using k1 unfolding acks_def sends_def grows_def sender_ok_def sendable_def by auto
  qed
  moreover have "sends now s2' s3" by (rule sends_quiet) (simp_all add: s3_def sample_rtt_pos)
  ultimately have k3: "acks now (ah_seqno ack) s s3" by (rule acks_sends)
  obtain s4 where s4: "(if cf_timerfix c then newtimer now (ah_seqno ack) s3 else Inr s3) = Inr s4"
    and s': "s' = s4\<lparr>sd_awnd := sd_awnd s4 * (1 - cf_wnd_th c) + cf_wnd_th c * sd_cwnd s4\<rparr>"
    using assms(1) unfolding newack_def s1 rbind_Inr Let_def s2_def [symmetric] s2'_def [symmetric] s3_def [symmetric]
    by (auto simp: rbind_eq_Inr)
  have "sends now s3 s4" using s4 newtimer_sends by (auto split: if_splits)
  moreover have "sends now s4 s'" unfolding s' by (rule sends_quiet) (simp_all add: pos_def rtt_ok_def)
  ultimately have "sends now s3 s'" by (rule sends_trans)
  with k3 show ?thesis by (rule acks_sends)
qed

lemma frto_newack_sends:
  assumes "0 \<le> sd_highest_ack s"
  shows "sends now s (frto_newack c s)"
proof -
  have f: "sends now t (t\<lparr>sd_frto := n\<rparr>)" "sends now t (t\<lparr>sd_frto := n, sd_ssthresh := k\<rparr>)" for t n k
    by (rule sends_quiet; simp add: pos_def rtt_ok_def)+
  have "sends now s (s\<lparr>sd_t_seqno := sd_recover s + 1, sd_frto := 2\<rparr>)"
    by (rule sends_trans [OF _ f(1)]) (rule sends_seqno, simp add: sender_ok_def)
  moreover have "sends now s (spurious_timeout s)"
  proof -
    let ?t = "s\<lparr>sd_frto := 0, sd_ssthresh := sd_pipe_prev s\<rparr>"
    have "sends now ?t (?t\<lparr>sd_recover := sd_highest_ack s - 1\<rparr>)" using assms by (intro sends_recover) simp
    with f(2) have "sends now s (?t\<lparr>sd_recover := sd_highest_ack s - 1\<rparr>)" by (rule sends_trans)
    then show ?thesis by (simp add: spurious_timeout_def)
  qed
  ultimately show ?thesis using f(1) by (simp add: frto_newack_def)
qed

lemma recv_newack_helper_acks:
  assumes "recv_newack_helper c now ack s = Inr s'" and "sd_last_ack s < ah_seqno ack" and "basic c"
  shows "acks now (ah_seqno ack) s s'"
proof -
  obtain s1 where s1: "newack c now ack s = Inr s1" using assms(1) by (auto simp: recv_newack_helper_def rbind_eq_Inr)
  define s2 where "s2 = (if qs_window (sd_qs s1) \<noteq> 0 \<and> sd_highest_ack s1 \<ge> qs_window (sd_qs s1)
                 then upd_qs (\<lambda>q. q\<lparr>qs_window := 0\<rparr>) s1 else s1)"
  define s4 where "s4 = note_echo (ah_ecnecho ack) s2"
  define s5 where "s5 = (if \<not> sd_ect s4 \<and> ah_ecnecho ack \<and> \<not> ah_cong_action ack then s4\<lparr>sd_ect := True\<rparr> else s4)"
  define s6 where "s6 = (if sd_highest_ack s5 \<ge> sd_curseq s5 - 1 \<and> \<not> sd_closed s5
                 then s5\<lparr>sd_closed := True, sd_finished := sd_finished s5 + 1\<rparr> else s5)"
  have "pos s2 = pos s1" "rtt_ok s2 = rtt_ok s1" by (simp_all add: s2_def)
  then have "pos s4 = pos s1" "rtt_ok s4 = rtt_ok s1" by (simp_all add: s4_def note_echo_def Let_def pos_def rtt_ok_def)
  then have "pos s5 = pos s1" "rtt_ok s5 = rtt_ok s1" by (simp_all add: s5_def pos_def rtt_ok_def)
  then have s6: "pos s6 = pos s1" "rtt_ok s6 = rtt_ok s1" by (simp_all add: s6_def pos_def rtt_ok_def)
  have nq: "\<not> cf_QOption c" using assms(3) by (simp add: basic_def)
  have s': "s' = frto_newack c s6"
    using assms(1) nq unfolding recv_newack_helper_def s1 rbind_Inr Let_def opencwnd_def if_cancel s2_def [symmetric]
      s4_def [symmetric] s5_def [symmetric] s6_def [symmetric] by simp
  have k1: "acks now (ah_seqno ack) s s1" by (rule newack_acks [OF s1 assms(2)])
  show ?thesis
  proof (cases "sender_ok s")
    case False
    then show ?thesis by (simp add: acks_def)
  next
    case True
    then have "sd_highest_ack s1 = ah_seqno ack" "0 \<le> ah_seqno ack"
      using k1 assms(2) by (simp_all add: acks_def) (simp add: sender_ok_def)
    then have "0 \<le> sd_highest_ack s6" using s6(1) by (simp add: pos_def)
    then have "sends now s6 s'" unfolding s' by (rule frto_newack_sends)
    moreover have "sends now s1 s6" by (rule sends_quiet) (simp_all add: s6)
    ultimately show ?thesis using acks_sends [OF k1] sends_trans by blast
  qed
qed

text \<open>\<open>recv\<close>: a new acknowledgement is taken over, any other leaves it as it is.\<close>

lemma TcpAgent_recv_steps:
  assumes "TcpAgent_recv c now ack s = Inr s'" and "basic c"
  shows "if ah_ts ack \<ge> sd_lastreset s \<and> ah_seqno ack > sd_last_ack s then acks now (ah_seqno ack) s s' else sends now s s'"
proof (cases "sender_ok s")
  case False
  then show ?thesis by (simp add: acks_def sends_def)
next
  case True
  then have nq: "\<not> qs_requested (sd_qs s)" "\<not> qs_approved (sd_qs s)" by (simp_all add: sender_ok_def)
  note out = assms(1) [unfolded TcpAgent_recv_def, simplified nq if_False simp_thms rbind_Inr]
  show ?thesis
  proof (cases "ah_ts ack < sd_lastreset s")
    case True
    then show ?thesis using out by simp
  next
    case False
    define s3 where "s3 = (upd_stats (\<lambda>n. n\<lparr>st_nackpack := st_nackpack n + 1\<rparr>) s)\<lparr>sd_ts_peer := ah_ts ack\<rparr>"
    have k3: "sends now s s3" and l3: "sd_last_ack s3 = sd_last_ack s"
      by (rule sends_quiet) (simp_all add: s3_def pos_def rtt_ok_def upd_stats_def)
    note out = out [unfolded if_not_P [OF False] Let_def s3_def [symmetric]]
    obtain s4 where s4: "(if ah_ecnecho ack \<and> cf_ecn c then tcp_ecn c (ah_seqno ack) s3 else Inr s3) = Inr s4"
      using out by (auto simp: rbind_eq_Inr)
    have "sends now s3 s4" using s4 tcp_ecn_sends by (auto split: if_splits)
    with k3 have k4: "sends now s s4" by (rule sends_trans)
    define s5 where "s5 = recv_frto_helper ack s4"
    have k5: "sends now s s5" unfolding s5_def by (rule sends_trans [OF k4 recv_frto_sends])
    then have l5: "sd_last_ack s5 = sd_last_ack s" using True by (simp add: sends_def sender_ok_def)
    note out = out [unfolded s4 rbind_Inr s5_def [symmetric] l5]
    show ?thesis
    proof (cases "ah_seqno ack > sd_last_ack s")
      case new: True
      then obtain s6 where s6: "recv_newack_helper c now ack s5 = Inr s6" "recv_rest c now ack s6 = Inr s'"
        using out by (auto simp: rbind_eq_Inr)
      have "acks now (ah_seqno ack) s5 s6" using recv_newack_helper_acks [OF s6(1) _ assms(2)] new l5 by simp
      from sends_acks [OF k5 acks_sends [OF this recv_rest_sends [OF s6(2) assms(2)]]] show ?thesis using new False by simp
    next
      case old: False
      then have "(\<exists>s6. (recv_dupack c now s5 = Inr s6 \<or> s6 = s5) \<and> recv_rest c now ack s6 = Inr s') \<or> tcp_eln c now ack s5 = Inr s'"
        using out by (auto simp: rbind_eq_Inr split: if_splits)
      then have "sends now s5 s'"
        using recv_dupack_sends [OF _ assms(2)] recv_rest_sends [OF _ assms(2)] tcp_eln_sends [OF _ assms(2)] sends_trans by blast
      then show ?thesis using sends_trans [OF k5] old by simp
    qed
  qed
qed


subsection \<open>Timeouts and data\<close>

lemma timeout_slowdown_sends: "sends now s (timeout_slowdown c s)"
proof -
  define s1 where "s1 = s\<lparr>sd_recover := sd_maxseq s\<rparr>"
  define s2 where "s2 = (if sd_highest_ack s1 = -1 \<and> sd_wnd_init_option s1 = 2 then s1\<lparr>sd_wnd_init_option := 1\<rparr>
                  else if sd_highest_ack s1 = -1 \<and> sd_wnd_init_option s1 = 1 \<and> sd_wnd_init s1 > 1 \<and> cf_bugfix_ss c
                  then s1\<lparr>sd_wnd_init := 1\<rparr> else s1)"
  define frto where "frto = (if cf_frto_enabled c \<or> cf_sfrto_enabled c then 1 else sd_frto s2)"
  define s3 where "s3 = (upd_stats (\<lambda>n. n\<lparr>st_nrexmit := st_nrexmit n + 1\<rparr>) s2)\<lparr>sd_last_cwnd_action := CWND_ACTION_TIMEOUT\<rparr>"
  have "sends now s s1" unfolding s1_def by (rule sends_recover) (simp add: sender_ok_def)
  moreover have "sends now s1 s2" by (rule sends_quiet) (simp_all add: s2_def pos_def rtt_ok_def)
  ultimately have k2: "sends now s s2" by (rule sends_trans)
  have e1: "sends now s2 ((slowdown c how s2)\<lparr>sd_frto := n\<rparr>)" for how n
  proof (rule sends_quiet)
    show "pos ((slowdown c how s2)\<lparr>sd_frto := n\<rparr>) = pos s2" using slowdown_pos(1) [of c how s2] by (simp add: pos_def)
    have "rtt_ok ((slowdown c how s2)\<lparr>sd_frto := n\<rparr>) = rtt_ok (slowdown c how s2)" by (simp add: rtt_ok_def)
    then show "rtt_ok ((slowdown c how s2)\<lparr>sd_frto := n\<rparr>)" if "rtt_ok s2" using slowdown_pos(2) [of c how s2] that by simp
  qed
  have e2: "sends now s2 ((slowdown c how s3)\<lparr>sd_frto := n\<rparr>)" for how n
  proof (rule sends_quiet)
    have "pos s3 = pos s2" "rtt_ok s3 = rtt_ok s2" by (simp_all add: s3_def pos_def rtt_ok_def upd_stats_def)
    then have p: "pos (slowdown c how s3) = pos s2" "rtt_ok (slowdown c how s3) = rtt_ok s2" by simp_all
    show "pos ((slowdown c how s3)\<lparr>sd_frto := n\<rparr>) = pos s2" using p(1) by (simp add: pos_def)
    have "rtt_ok ((slowdown c how s3)\<lparr>sd_frto := n\<rparr>) = rtt_ok (slowdown c how s3)" by (simp add: rtt_ok_def)
    then show "rtt_ok ((slowdown c how s3)\<lparr>sd_frto := n\<rparr>)" if "rtt_ok s2" using p(2) that by simp
  qed
  have "timeout_slowdown c s = s \<or> timeout_slowdown c s = slowdown c (bits [CLOSE_CWND_ONE, NO_OUTSTANDING_DATA]) s2 \<or>
      timeout_slowdown c s = (slowdown c (bits [CLOSE_CWND_ONE]) s2)\<lparr>sd_frto := frto\<rparr> \<or>
      timeout_slowdown c s = (slowdown c (bits [CLOSE_SSTHRESH_HALF, CLOSE_CWND_RESTART]) s3)\<lparr>sd_frto := frto\<rparr>"
    unfolding timeout_slowdown_def Let_def s1_def [symmetric] s2_def [symmetric] s3_def [symmetric] frto_def [symmetric] by simp
  then show ?thesis
    using sends_trans [OF k2 e1] sends_trans [OF k2 e2] sends_trans [OF k2 slowdown_sends] sends_refl by (elim disjE) simp_all
qed

lemma rtx_expire_sends:
  assumes "rtx_expire c now s = Inr s'" and "basic c"
  shows "sends now s s'"
proof -
  define s0 where "s0 = s\<lparr>sd_rtx := None, sd_frto := 0\<rparr>"
  define s1 where "s1 = s0\<lparr>sd_pipe_prev := (if tcp_window c s0 > sd_ssthresh s0 then tcp_window c s0 else sd_ssthresh s0)\<rparr>"
  define s2 where "s2 = (if sd_cwnd s1 < 1 then s1\<lparr>sd_cwnd := 1\<rparr> else s1)"
  have "sends now (s\<lparr>sd_rtx := None\<rparr>) s0" by (rule sends_quiet) (simp_all add: s0_def pos_def rtt_ok_def)
  with sends_cancel have k0: "sends now s s0" by (rule sends_trans)
  have "pos s1 = pos s0" "rtt_ok s1 = rtt_ok s0" by (simp_all add: s1_def pos_def rtt_ok_def)
  then have "pos s2 = pos s0" "rtt_ok s2 = rtt_ok s0" by (simp_all add: s2_def pos_def rtt_ok_def)
  then have k2: "sends now s s2" by (intro sends_trans [OF k0] sends_quiet) simp_all
  show ?thesis
  proof (rule sends_ok)
    assume "sender_ok s"
    then have nq: "\<not> qs_approved (sd_qs s2)" using sends_approved [OF k2] by blast
    define s4 where "s4 = timeout_slowdown c s2"
    obtain s5 where s5: "reset_rtx_timer now False (\<not> (sd_highest_ack s4 = sd_maxseq s4 \<and> cf_restart_bugfix c)) s4 = Inr s5"
      and sm: "send_much c now False TCP_REASON_TIMEOUT (cf_maxburst c) (s5\<lparr>sd_last_cwnd_action := CWND_ACTION_TIMEOUT\<rparr>) = Inr s'"
      using assms(1) [unfolded rtx_expire_def Let_def s0_def [symmetric] s1_def [symmetric] s2_def [symmetric] if_not_P [OF nq] s4_def [symmetric]]
      by (auto simp: rbind_eq_Inr)
    have "sends now s s4" unfolding s4_def by (rule sends_trans [OF k2 timeout_slowdown_sends])
    moreover have "sends now s4 s5" by (rule reset_rtx_timer_sends [OF s5])
    moreover have "sends now s5 s'" by (rule sends_trans [OF cwnd_action_sends send_much_sends [OF sm assms(2)]])
    ultimately show "sends now s s'" using sends_trans by blast
  qed
qed

lemma curseq_sends:
  assumes "sd_curseq s \<le> i"
  shows "sends now s (s\<lparr>sd_curseq := i\<rparr>)" and "sends now s (s\<lparr>sd_curseq := i, sd_closed := b\<rparr>)"
  using assms by (simp_all add: sends_def grows_def sendable_def sender_ok_def rtt_ok_def)

lemma advanceby_sends:
  assumes "advanceby c now n s = Inr s'" and "basic c" and "0 \<le> n"
  shows "sends now s s'"
proof -
  have "sd_curseq s \<le> sd_curseq s + n" using assms(3) by simp
  note k = curseq_sends [OF this]
  show ?thesis
    using assms(1) sends_trans [OF k(1) send_much_sends [OF _ assms(2)]] sends_trans [OF k(2) send_much_sends [OF _ assms(2)]]
    by (auto simp: advanceby_def Let_def split: if_splits)
qed

lemma sendmsg_sends:
  assumes "sendmsg c now n s = Inr s'" and "basic c" and "n = -1 \<and> sd_curseq s \<le> TCP_MAXSEQ \<or> 0 \<le> n"
  shows "sends now s s'"
proof (cases "n = -1 \<and> sd_curseq s \<le> TCP_MAXSEQ")
  case True
  then have "send_much c now False 0 (cf_maxburst c) (s\<lparr>sd_curseq := TCP_MAXSEQ\<rparr>) = Inr s'" using assms(1) by (simp add: sendmsg_def)
  with True show ?thesis using sends_trans [OF curseq_sends(1) send_much_sends [OF _ assms(2)]] by blast
next
  case False
  then have n: "0 \<le> n" "0 < cf_size c" using assms(2,3) by (auto simp: basic_def)
  then have "sd_curseq s \<le> sd_curseq s + (c_quot n (cf_size c) + (if c_mod n (cf_size c) \<noteq> 0 then 1 else 0))"
    using pos_imp_zdiv_nonneg_iff [OF n(2), of n] by (simp add: c_quot_def sgn_if)
  note k = sends_trans [OF curseq_sends(1) [OF this] send_much_sends [OF _ assms(2)]]
  show ?thesis using assms(1) False n(2) k by (auto simp: sendmsg_def c_div_def rbind_eq_Inr split: if_splits)
qed

text \<open>The operations of a transfer: acknowledgements, timeouts, and data that is only added.\<close>

definition adds :: "sender_event \<Rightarrow> tcp_sender \<Rightarrow> bool" where
  "adds e s = (case e of
      Ack a \<Rightarrow> True | Rtx \<Rightarrow> True | Send_One \<Rightarrow> True
    | Send n \<Rightarrow> n = -1 \<and> sd_curseq s \<le> TCP_MAXSEQ \<or> 0 \<le> n
    | Advance n \<Rightarrow> 0 \<le> n
    | _ \<Rightarrow> False)"

lemma sender_do_steps:
  assumes "sender_do c now e s = Inr s'" and "basic c" and "adds e s"
  shows "case e of
      Ack a \<Rightarrow> if ah_ts a \<ge> sd_lastreset s \<and> ah_seqno a > sd_last_ack s then acks now (ah_seqno a) s s' else sends now s s'
    | _ \<Rightarrow> sends now s s'"
proof (cases e)
  case (Ack a)
  then show ?thesis using TcpAgent_recv_steps [OF _ assms(2)] assms(1) by simp
next
  case Rtx
  then show ?thesis using rtx_expire_sends [OF _ assms(2)] assms(1) by simp
next
  case (Send n)
  then show ?thesis using sendmsg_sends [OF _ assms(2)] assms(1,3) by (simp add: adds_def)
next
  case (Advance n)
  then show ?thesis using advanceby_sends [OF _ assms(2)] assms(1,3) by (simp add: adds_def)
next
  case Send_One
  then show ?thesis using tcp_output_sends [OF _ assms(2)] assms(1) by (simp add: send_one_packet_def)
qed (use assms(3) in \<open>simp_all add: adds_def\<close>)

end
