(* ===== verification/SenderTotal.thy ===== *)
theory SenderTotal
  imports SenderSteps
begin

section \<open>The sender returns\<close>

text \<open>
  In the states that the relation \<open>sends\<close> of theory \<open>SenderSteps\<close> keeps, every operation of a
  transfer returns: no loop runs for ever, no timeout is out of its bounds, nothing is divided
  by zero, and a timeout with data outstanding sends the packet after the acknowledgement.
\<close>

subsection \<open>Output and its loop\<close>

lemma core_curseq [simp]: "core (s\<lparr>sd_curseq := i\<rparr>) = core s \<longleftrightarrow> i = sd_curseq s"
  by (auto simp: core_def)

lemma sender_ok_rtt: "sender_ok s \<Longrightarrow> rtt_ok s"
  by (simp add: sender_ok_def)

text \<open>\<open>output\<close> returns, logs the packet, and leaves the window; the first packet may add one to the data.\<close>

lemma output_returns:
  assumes "basic c" and "sender_ok s"
  shows "\<exists>s' p. tcp_output c now seqno reason s = Inr s' \<and> core s' = core (s\<lparr>sd_curseq := sd_curseq s'\<rparr>) \<and>
    sp_seqno p = seqno \<and> sd_sent s' = sd_sent s @ [p] \<and> sd_rtx s' \<noteq> None"
proof (cases "seqno = 0")
  case False
  obtain s' p where s': "tcp_output c now seqno reason s = Inr s'" "core s' = core s" "sp_seqno p = seqno"
    "sd_sent s' = sd_sent s @ [p]" "sd_rtx s' \<noteq> None"
    using tcp_output_total [of s c seqno now reason] assms False by (auto simp: basic_def sender_ok_def)
  then have "sd_curseq s' = sd_curseq s" by (simp add: core_def)
  then show ?thesis using s' by (intro exI [of _ s'] exI [of _ p]) (simp add: core_def)
next
  case True
  note c = assms(1) [unfolded basic_def]
  have st: "store_ts c now seqno s = Inr s"
    using assms(2) c by (simp add: sender_ok_def store_ts_def resize_tss_def make_tss_def)
  define act where "act = (sd_cong_action s \<and> (\<not> seqno < sd_maxseq s \<or> cf_SetCWRonRetransmit c))"
  define s2 where "s2 = (if act then s\<lparr>sd_cong_action := False\<rparr> else s)"
  define s3 where "s3 = (if cf_syn c then
      (if sd_maxseq s2 = -1 then s2\<lparr>sd_curseq := sd_curseq s2 + 1\<rparr> else s2)\<lparr>sd_syn_connects := sd_syn_connects s2 + 1\<rparr> else s2)"
  have ok: "rtt_ok s" using assms(2) by (rule sender_ok_rtt)
  have s3: "core s3 = core (s\<lparr>sd_curseq := sd_curseq s3\<rparr>)" "rtt_ok s3" "sd_sent s3 = sd_sent s"
    using ok by (simp_all add: s3_def s2_def core_def rtt_ok_def)
  have no: "\<not> (cf_syn c \<and> cf_max_connects c > 0 \<and> sd_syn_connects s3 > cf_max_connects c)" using c by simp
  have nq: "\<not> cf_qs_enabled c" using c by simp
  obtain p n where out: "tcp_output c now seqno reason s = send_data now seqno p n s3" "sp_seqno p = seqno"
    unfolding tcp_output_def st rbind_Inr Let_def act_def [symmetric] s2_def [symmetric] s3_def [symmetric] if_P [OF True]
      if_not_P [OF no] if_not_P [OF nq] prod.case
    by (cases "cf_syn c"; cases "cf_ecn c") auto
  obtain s' where s': "send_data now seqno p n s3 = Inr s'" "core s' = core s3" "sd_sent s' = sd_sent s3 @ [p]" "sd_rtx s' \<noteq> None"
    using send_data_total [OF s3(2)] by blast
  have "sd_curseq s' = sd_curseq s3" using s'(2) by (simp add: core_def)
  then show ?thesis using out s' s3 by (intro exI [of _ s'] exI [of _ p]) simp
qed

lemma send_next_returns:
  assumes "basic c" and "sender_ok s"
  shows "\<exists>s' p. send_next c now reason s = Inr s' \<and> sender_ok s' \<and> sd_t_seqno s' = sd_t_seqno s + 1 \<and>
    sd_highest_ack s' = sd_highest_ack s \<and> tcp_window c s' = tcp_window c s \<and> sp_seqno p = sd_t_seqno s \<and>
    sd_sent s' = sd_sent s @ [p]"
proof -
  obtain s1 p where s1: "tcp_output c now (sd_t_seqno s) reason s = Inr s1" "core s1 = core (s\<lparr>sd_curseq := sd_curseq s1\<rparr>)"
    "sp_seqno p = sd_t_seqno s" "sd_sent s1 = sd_sent s @ [p]"
    using output_returns [OF assms] by blast
  let ?s = "s1\<lparr>sd_t_seqno := sd_t_seqno s1 + 1\<rparr>"
  have run: "send_next c now reason s = Inr ?s" using s1(1) assms(1) by (simp add: send_next_def basic_def)
  have "sends now s ?s" by (rule send_next_sends [OF run assms(1)])
  then have ok: "sender_ok ?s" "sd_highest_ack ?s = sd_highest_ack s" using assms(2) by (simp_all add: sends_def)
  have "tcp_window c ?s = tcp_window c s" "sd_t_seqno s1 = sd_t_seqno s"
    using s1(2) by (simp_all add: core_def tcp_window_def force_wnd_def)
  then show ?thesis using run ok s1(3,4) by (intro exI [of _ ?s] exI [of _ p]) simp
qed

text \<open>The loop ends; if the next packet may be sent, it is.\<close>

lemma send_loop_returns:
  assumes "basic c" and "sender_ok s" and "tcp_window c s = win"
  shows "\<exists>s'. send_loop c now force reason maxburst win n s = Some (Inr s') \<and>
    (sd_t_seqno s \<le> sd_highest_ack s + win \<and> sd_t_seqno s < sd_curseq s \<longrightarrow>
      (\<exists>ps. sd_sent s' = sd_sent s @ ps \<and> ps \<noteq> [] \<and> sp_seqno (hd ps) = sd_t_seqno s))"
  using assms(2,3)
proof (induction "nat (sd_highest_ack s + win + 1 - sd_t_seqno s)" arbitrary: s n rule: less_induct)
  case less
  show ?case
  proof (cases "sd_t_seqno s \<le> sd_highest_ack s + win \<and> sd_t_seqno s < sd_curseq s")
    case False
    then show ?thesis by (subst send_loop.simps) auto
  next
    case True
    obtain s1 p where s1: "send_next c now reason s = Inr s1" "sender_ok s1" "sd_t_seqno s1 = sd_t_seqno s + 1"
      "sd_highest_ack s1 = sd_highest_ack s" "tcp_window c s1 = win" "sp_seqno p = sd_t_seqno s" "sd_sent s1 = sd_sent s @ [p]"
      using send_next_returns [OF assms(1) less.prems(1)] less.prems(2) by metis
    have c: "cf_overhead c = 0" "\<not> qs_approved (sd_qs s1)" using assms(1) s1(2) by (simp_all add: basic_def sender_ok_def)
    have step: "send_loop c now force reason maxburst win n s =
        (if maxburst \<noteq> 0 \<and> n + 1 = maxburst then Some (Inr s1) else send_loop c now force reason maxburst win (n + 1) s1)"
      using True c s1(1,5) by (subst send_loop.simps) simp
    show ?thesis
    proof (cases "maxburst \<noteq> 0 \<and> n + 1 = maxburst")
      case stop: True
      have "send_loop c now force reason maxburst win n s = Some (Inr s1)" unfolding step by (rule if_P [OF stop])
      then show ?thesis using s1(6,7) by (intro exI [of _ s1]) simp
    next
      case go: False
      have m: "nat (sd_highest_ack s1 + win + 1 - sd_t_seqno s1) < nat (sd_highest_ack s + win + 1 - sd_t_seqno s)"
        using True s1(3,4) by simp
      from less.hyps [OF m s1(2,5)] obtain s' where
        s': "send_loop c now force reason maxburst win (n + 1) s1 = Some (Inr s')" by blast
      have "sends now s1 s'" using send_loop_sends [OF s'] assms(1) by blast
      then obtain qs where "sd_sent s' = sd_sent s1 @ qs" using s1(2) by (auto simp: sends_def grows_def)
      moreover have "send_loop c now force reason maxburst win n s = Some (Inr s')" unfolding step if_not_P [OF go] by (rule s')
      ultimately show ?thesis using s1(6,7) by (intro exI [of _ s']) simp
    qed
  qed
qed

lemma send_much_returns:
  assumes "basic c" and "sender_ok s"
  shows "\<exists>s'. send_much c now force reason maxburst s = Inr s' \<and>
    (sd_t_seqno s \<le> sd_highest_ack s + tcp_window c s \<and> sd_t_seqno s < sd_curseq s \<longrightarrow>
      (\<exists>ps. sd_sent s' = sd_sent s @ ps \<and> ps \<noteq> [] \<and> sp_seqno (hd ps) = sd_t_seqno s))"
proof -
  define s1 where "s1 = (if sd_t_seqno s = 0 then s\<lparr>sd_firstsent := now\<rparr> else s)"
  have s1: "sender_ok s1" "tcp_window c s1 = tcp_window c s" "sd_t_seqno s1 = sd_t_seqno s" "sd_highest_ack s1 = sd_highest_ack s"
    "sd_curseq s1 = sd_curseq s" "sd_sent s1 = sd_sent s" "sd_burstsnd s1 = None"
    using assms(2) by (simp_all add: s1_def sender_ok_def rtt_ok_def tcp_window_def force_wnd_def)
  have "send_much c now force reason maxburst s =
      (case send_loop c now force reason maxburst (tcp_window c s) 0 s1 of None \<Rightarrow> Inl Diverges | Some r \<Rightarrow> r)"
    using assms(2) s1(7) unfolding send_much_def Let_def s1_def [symmetric] by (simp add: sender_ok_def)
  then show ?thesis using send_loop_returns [OF assms(1) s1(1,2), of now force reason maxburst 0] s1 by auto
qed


subsection \<open>Timers\<close>

lemma set_rtx_timer_returns: "sender_ok s \<Longrightarrow> \<exists>s'. set_rtx_timer now s = Inr s'"
  using set_rtx_timer_total [OF sender_ok_rtt] by blast

lemma newtimer_returns: "sender_ok s \<Longrightarrow> \<exists>s'. newtimer now seqno s = Inr s'"
  using set_rtx_timer_returns by (simp add: newtimer_def)

lemma reset_rtx_timer_returns:
  assumes "sender_ok s"
  shows "\<exists>s'. reset_rtx_timer now mild backoff s = Inr s'"
proof -
  obtain s1 where s1: "(if backoff then rtt_backoff s else Inr s) = Inr s1"
    using rtt_backoff_ok [OF sender_ok_rtt [OF assms]] by (cases backoff) auto
  have "sends now s s1" using s1 rtt_backoff_sends by (auto split: if_splits)
  then have "sender_ok s1" using assms by (simp add: sends_def)
  then obtain s2 where "set_rtx_timer now s1 = Inr s2" using set_rtx_timer_returns by blast
  then show ?thesis by (simp add: reset_rtx_timer_def s1)
qed

lemma sends_keeps_ok: "sends now s s' \<Longrightarrow> sender_ok s \<Longrightarrow> sender_ok s'"
  by (simp add: sends_def)

subsection \<open>Acknowledgements\<close>

lemma newack_returns:
  assumes "sender_ok s" and "sd_last_ack s < ah_seqno ack"
  shows "\<exists>s'. newack c now ack s = Inr s'"
proof -
  obtain s1 where s1: "(if \<not> cf_timerfix c then newtimer now (ah_seqno ack) s else Inr s) = Inr s1"
    using newtimer_returns [OF assms(1)] by (cases "cf_timerfix c") auto
  have "sends now s s1" using s1 newtimer_sends by (auto split: if_splits)
  then have ok1: "rtt_ok s1" using assms(1) by (simp add: sends_def sender_ok_def)
  define s2 where "s2 = s1\<lparr>sd_dupacks := 0, sd_last_ack := ah_seqno ack, sd_prev_highest_ack := sd_highest_ack s1,
                   sd_highest_ack := ah_seqno ack\<rparr>"
  define s2' where "s2' = (if sd_t_seqno s2 < sd_last_ack s2 + 1 then s2\<lparr>sd_t_seqno := sd_last_ack s2 + 1\<rparr> else s2)"
  define s3 where "s3 = sample_rtt c now ack s2'"
  have "rtt_ok s2'" using ok1 by (simp add: s2'_def s2_def rtt_ok_def)
  then have "rtt_ok s3" unfolding s3_def by (rule sample_rtt_pos(2))
  then obtain t where "set_rtx_timer now s3 = Inr (s3\<lparr>rt_use_rtt := False, sd_rtx := Some t\<rparr>)"
    using set_rtx_timer_total by blast
  then have "\<exists>s4. newtimer now (ah_seqno ack) s3 = Inr s4" by (simp add: newtimer_def)
  then obtain s4 where s4: "newtimer now (ah_seqno ack) s3 = Inr s4" by blast
  show ?thesis unfolding newack_def s1 rbind_Inr Let_def s2_def [symmetric] s2'_def [symmetric] s3_def [symmetric]
    by (simp add: s4)
qed

lemma tcp_ecn_returns:
  assumes "sender_ok s"
  shows "\<exists>s'. tcp_ecn c seqno s = Inr s'"
proof -
  have "rtt_ok (s\<lparr>sd_recover := sd_maxseq s, sd_last_cwnd_action := CWND_ACTION_ECN\<rparr>)"
    using sender_ok_rtt [OF assms] by (simp add: rtt_ok_def)
  from rtt_backoff_ok [OF this] show ?thesis by (auto simp: tcp_ecn_def Let_def)
qed

lemma send_one_returns: "basic c \<Longrightarrow> sender_ok s \<Longrightarrow> \<exists>s'. send_one c now s = Inr s'"
  using send_next_returns by (fastforce simp: send_one_def)

lemma lossQuickStart_returns:
  assumes "basic c" and "sender_ok s"
  shows "\<exists>b s'. lossQuickStart c now s = Inr (b, s')"
proof -
  let ?s = "upd_qs (\<lambda>q. q\<lparr>qs_window := 0\<rparr>) (slowdown c (bits [CLOSE_CWND_INIT]) s)"
  have "sends now s ?s" by (rule sends_quiet) simp_all
  then have "sender_ok ?s" using sends_keeps_ok assms(2) by blast
  then obtain s1 where "tcp_output c now (sd_last_ack s + 1) TCP_REASON_DUPACK ?s = Inr s1"
    using output_returns [OF assms(1)] by blast
  then show ?thesis by (auto simp: lossQuickStart_def)
qed

lemma tahoe_returns:
  assumes "basic c" and "sender_ok s"
  shows "\<exists>s'. tahoe_action c now s = Inr s'"
proof -
  have k: "sends now s (s\<lparr>sd_recover := sd_maxseq s\<rparr>)" by (rule sends_recover) (simp add: sender_ok_def)
  obtain b s1 where s1: "lossQuickStart c now (s\<lparr>sd_recover := sd_maxseq s\<rparr>) = Inr (b, s1)"
    using lossQuickStart_returns [OF assms(1) sends_keeps_ok [OF k assms(2)]] by blast
  have "sends now s s1" by (rule sends_trans [OF k lossQuickStart_sends [OF s1 assms(1)]])
  then have "sender_ok s1" using sends_keeps_ok assms(2) by blast
  moreover have "sender_ok (slowdown c (bits [CLOSE_SSTHRESH_HALF, CLOSE_CWND_ONE]) (s1\<lparr>sd_last_cwnd_action := CWND_ACTION_DUPACK\<rparr>))"
    by (rule sends_keeps_ok [OF sends_trans [OF cwnd_action_sends slowdown_sends] \<open>sender_ok s1\<close>])
  ultimately show ?thesis using reset_rtx_timer_returns [of _ now False False] by (cases b) (simp_all add: tahoe_action_def s1)
qed

lemma dupack_returns:
  assumes "basic c" and "sender_ok s"
  shows "\<exists>s'. dupack_action c now s = Inr s'"
proof -
  have "sender_ok (slowdown c (bits [CLOSE_CWND_ONE]) (s\<lparr>sd_last_cwnd_action := CWND_ACTION_DUPACK\<rparr>))"
    by (rule sends_keeps_ok [OF sends_trans [OF cwnd_action_sends slowdown_sends] assms(2)])
  then show ?thesis using reset_rtx_timer_returns tahoe_returns [OF assms] by (simp add: dupack_action_def)
qed

lemma dupacks_ok: "sender_ok s \<Longrightarrow> sender_ok (s\<lparr>sd_dupacks := n\<rparr>)"
  by (simp add: sender_ok_def rtt_ok_def)

lemma recv_dupack_returns: "basic c \<Longrightarrow> sender_ok s \<Longrightarrow> \<exists>s'. recv_dupack c now s = Inr s'"
  using dupack_returns send_one_returns dupacks_ok by (simp add: recv_dupack_def Let_def)

lemma tcp_eln_returns:
  assumes "basic c" and "sender_ok s"
  shows "\<exists>s'. tcp_eln c now ack s = Inr s'"
proof -
  define t where "t = s\<lparr>sd_dupacks := sd_dupacks s + 1\<rparr>"
  have ok: "sender_ok t" "sd_last_ack t = sd_last_ack s" using dupacks_ok [OF assms(2)] by (simp_all add: t_def)
  obtain s1 where "tcp_output c now (sd_last_ack s + 1) TCP_REASON_DUPACK t = Inr s1"
    using output_returns [OF assms(1) ok(1)] by blast
  moreover obtain s2 where "send_much c now False 0 (cf_maxburst c) t = Inr s2"
    using send_much_returns [OF assms(1) ok(1)] by blast
  ultimately show ?thesis unfolding tcp_eln_def Let_def t_def [symmetric] ok(2) by simp
qed

lemma recv_rest_returns: "basic c \<Longrightarrow> sender_ok s \<Longrightarrow> \<exists>s'. recv_rest c now ack s = Inr s'"
  using send_much_returns by (fastforce simp: recv_rest_def basic_def)

lemma TcpAgent_recv_returns:
  assumes "basic c" and "sender_ok s"
  shows "\<exists>s'. TcpAgent_recv c now ack s = Inr s'"
proof (cases "ah_ts ack < sd_lastreset s")
  case True
  then show ?thesis using assms(2) by (simp add: TcpAgent_recv_def sender_ok_def)
next
  case False
  have nq: "\<not> qs_requested (sd_qs s)" "\<not> qs_approved (sd_qs s)" using assms(2) by (simp_all add: sender_ok_def)
  define s3 where "s3 = (upd_stats (\<lambda>n. n\<lparr>st_nackpack := st_nackpack n + 1\<rparr>) s)\<lparr>sd_ts_peer := ah_ts ack\<rparr>"
  have "sends now s s3" by (rule sends_quiet) (simp_all add: s3_def pos_def rtt_ok_def upd_stats_def)
  then have ok3: "sender_ok s3" using sends_keeps_ok assms(2) by blast
  obtain s4 where s4: "(if ah_ecnecho ack \<and> cf_ecn c then tcp_ecn c (ah_seqno ack) s3 else Inr s3) = Inr s4"
    using tcp_ecn_returns [OF ok3] by (cases "ah_ecnecho ack \<and> cf_ecn c") auto
  have "sends now s3 s4" using s4 tcp_ecn_sends by (auto split: if_splits)
  then have ok4: "sender_ok s4" using sends_keeps_ok ok3 by blast
  define s5 where "s5 = recv_frto_helper ack s4"
  have ok5: "sender_ok s5" unfolding s5_def by (rule sends_keeps_ok [OF recv_frto_sends ok4])
  have run: "TcpAgent_recv c now ack s =
      (if ah_seqno ack > sd_last_ack s5 then rbind (recv_newack_helper c now ack s5) (recv_rest c now ack)
       else if ah_seqno ack = sd_last_ack s5 then
         if ah_eln ack \<and> cf_eln c then tcp_eln c now ack s5 else rbind (recv_dupack c now s5) (recv_rest c now ack)
       else recv_rest c now ack s5)"
    using nq unfolding TcpAgent_recv_def Let_def
    by (simp only: simp_thms if_False rbind_Inr False s3_def [symmetric] s4 s5_def [symmetric])
  show ?thesis
  proof (cases "ah_seqno ack > sd_last_ack s5")
    case new: True
    obtain s6 where s6: "recv_newack_helper c now ack s5 = Inr s6"
      using newack_returns [OF ok5 new, of c now] by (auto simp: recv_newack_helper_def Let_def)
    have "sender_ok s6" using recv_newack_helper_acks [OF s6 new assms(1)] ok5 by (simp add: acks_def)
    then show ?thesis using run new s6 recv_rest_returns [OF assms(1)] by simp
  next
    case old: False
    obtain s6 where s6: "recv_dupack c now s5 = Inr s6" using recv_dupack_returns [OF assms(1) ok5] by blast
    have "sender_ok s6" by (rule sends_keeps_ok [OF recv_dupack_sends [OF s6 assms(1)] ok5])
    then show ?thesis using run old s6 recv_rest_returns [OF assms(1)] ok5 tcp_eln_returns [OF assms(1) ok5] by simp
  qed
qed

subsection \<open>Timeouts and data\<close>

lemma window_of_timeout:
  assumes "sd_frto s \<noteq> 2" and "1 \<le> sd_cwnd s" and "1 \<le> cf_wnd c"
  shows "1 \<le> tcp_window c s"
  using assms by (simp add: tcp_window_def c_trunc_def le_floor_iff)

lemma timeout_slowdown_window:
  assumes "sd_highest_ack s < sd_maxseq s" and "sd_frto s = 0"
  shows "sd_cwnd (timeout_slowdown c s) = sd_cwnd s" and "sd_frto (timeout_slowdown c s) \<noteq> 2"
  using timeout_slowdown_span [OF assms, of c] by (simp_all add: span_def)

text \<open>A timeout with data outstanding sends the packet after the acknowledgement first.\<close>

lemma rtx_expire_returns:
  assumes "basic c" and "sender_ok s"
  shows "\<exists>s'. rtx_expire c now s = Inr s' \<and>
    (sd_highest_ack s < sd_maxseq s \<and> sd_highest_ack s + 1 < sd_curseq s \<and> 1 \<le> cf_wnd c \<longrightarrow>
      (\<exists>ps. sd_sent s' = sd_sent s @ ps \<and> ps \<noteq> [] \<and> sp_seqno (hd ps) = sd_highest_ack s + 1))"
proof -
  define s0 where "s0 = s\<lparr>sd_rtx := None, sd_frto := 0\<rparr>"
  define s1 where "s1 = s0\<lparr>sd_pipe_prev := (if tcp_window c s0 > sd_ssthresh s0 then tcp_window c s0 else sd_ssthresh s0)\<rparr>"
  define s2 where "s2 = (if sd_cwnd s1 < 1 then s1\<lparr>sd_cwnd := 1\<rparr> else s1)"
  have s2: "sender_ok s2" "sd_highest_ack s2 = sd_highest_ack s" "sd_maxseq s2 = sd_maxseq s" "sd_curseq s2 = sd_curseq s"
    "sd_sent s2 = sd_sent s" "sd_frto s2 = 0" "1 \<le> sd_cwnd s2"
    using assms(2) by (simp_all add: s2_def s1_def s0_def sender_ok_def rtt_ok_def)
  have nq: "\<not> qs_approved (sd_qs s2)" using s2(1) by (simp add: sender_ok_def)
  define s4 where "s4 = timeout_slowdown c s2"
  have k4: "sends now s2 s4" unfolding s4_def by (rule timeout_slowdown_sends)
  then have ok4: "sender_ok s4" "sd_highest_ack s4 = sd_highest_ack s2" using s2(1) by (simp_all add: sends_def)
  define b where "b = (\<not> (sd_highest_ack s4 = sd_maxseq s4 \<and> cf_restart_bugfix c))"
  obtain s5 where s5: "reset_rtx_timer now False b s4 = Inr s5" "span s5 = span s4" "sd_frto s5 = sd_frto s4"
    "sd_t_seqno s5 = sd_highest_ack s4 + 1"
    using reset_rtx_timer_total [OF sender_ok_rtt [OF ok4(1)]] by blast
  define s6 where "s6 = s5\<lparr>sd_last_cwnd_action := CWND_ACTION_TIMEOUT\<rparr>"
  have "sends now s4 s6" unfolding s6_def by (rule sends_trans [OF reset_rtx_timer_sends [OF s5(1)] cwnd_action_sends])
  then have ok6: "sender_ok s6" using sends_keeps_ok ok4(1) by blast
  have run: "rtx_expire c now s = send_much c now False TCP_REASON_TIMEOUT (cf_maxburst c) s6"
    unfolding rtx_expire_def Let_def s0_def [symmetric] s1_def [symmetric] s2_def [symmetric] if_not_P [OF nq] s4_def [symmetric]
      b_def [symmetric] s5(1) rbind_Inr s6_def ..
  obtain s' where s': "send_much c now False TCP_REASON_TIMEOUT (cf_maxburst c) s6 = Inr s'"
    "sd_t_seqno s6 \<le> sd_highest_ack s6 + tcp_window c s6 \<and> sd_t_seqno s6 < sd_curseq s6 \<longrightarrow>
      (\<exists>ps. sd_sent s' = sd_sent s6 @ ps \<and> ps \<noteq> [] \<and> sp_seqno (hd ps) = sd_t_seqno s6)"
    using send_much_returns [OF assms(1) ok6] by blast
  have "\<exists>ps. sd_sent s' = sd_sent s @ ps \<and> ps \<noteq> [] \<and> sp_seqno (hd ps) = sd_highest_ack s + 1"
    if "sd_highest_ack s < sd_maxseq s" "sd_highest_ack s + 1 < sd_curseq s" "1 \<le> cf_wnd c"
  proof -
    have lt: "sd_highest_ack s2 < sd_maxseq s2" using that(1) s2 by simp
    have sp: "span s4 = span s2" unfolding s4_def by (rule timeout_slowdown_span [OF lt s2(6)])
    have "sd_frto s4 \<noteq> 2" "sd_cwnd s4 = sd_cwnd s2" unfolding s4_def by (rule timeout_slowdown_window [OF lt s2(6)])+
    moreover have f: "span s6 = span s5" "sd_frto s6 = sd_frto s5" "sd_t_seqno s6 = sd_t_seqno s5" by (simp_all add: s6_def span_def)
    ultimately have "1 \<le> tcp_window c s6"
      using s5(2,3) sp s2(7) that(3) by (intro window_of_timeout) (simp_all add: span_def)
    moreover have "sd_highest_ack s6 = sd_highest_ack s" "sd_curseq s6 = sd_curseq s" "sd_sent s6 = sd_sent s"
      using f(1) s5(2) sp s2 by (simp_all add: span_def)
    moreover have "sd_t_seqno s6 = sd_highest_ack s + 1" using f(3) s5(4) ok4(2) s2(2) by simp
    ultimately show ?thesis using s'(2) that(2) by simp
  qed
  then show ?thesis using run s'(1) by auto
qed

text \<open>Every operation of a transfer returns.\<close>

lemma sender_do_returns:
  assumes "basic c" and "sender_ok s" and "adds e s"
  shows "\<exists>s'. sender_do c now e s = Inr s'"
proof (cases e)
  case (Ack a)
  then show ?thesis using TcpAgent_recv_returns [OF assms(1,2)] by simp
next
  case Rtx
  then show ?thesis using rtx_expire_returns [OF assms(1,2)] by auto
next
  case (Send n)
  have ok: "sender_ok (s\<lparr>sd_curseq := i\<rparr>)" for i using assms(2) by (simp add: sender_ok_def rtt_ok_def)
  have "cf_size c \<noteq> 0" using assms(1) by (simp add: basic_def)
  then obtain i where run: "sender_do c now e s = send_much c now False 0 (cf_maxburst c) (s\<lparr>sd_curseq := i\<rparr>)"
    using Send by (cases "n = -1 \<and> sd_curseq s \<le> TCP_MAXSEQ") (auto simp: sendmsg_def c_div_def)
  show ?thesis unfolding run using send_much_returns [OF assms(1) ok [of i]] by blast
next
  case (Advance n)
  define t where "t = (if n > 0 then s\<lparr>sd_curseq := sd_curseq s + n, sd_closed := False\<rparr> else s\<lparr>sd_curseq := sd_curseq s + n\<rparr>)"
  have "sender_ok t" using assms(2) by (simp add: t_def sender_ok_def rtt_ok_def)
  moreover have "sender_do c now e s = send_much c now False 0 (cf_maxburst c) t" by (simp add: Advance advanceby_def t_def)
  ultimately show ?thesis using send_much_returns [OF assms(1)] by (simp only:) blast
next
  case Send_One
  then show ?thesis using output_returns [OF assms(1,2)] by (fastforce simp: send_one_packet_def)
qed (use assms(3) in \<open>simp_all add: adds_def\<close>)

end
