(* ===== verification/TcpTransfer.thy ===== *)
theory TcpTransfer
  imports SenderTotal TcpSink
begin

section \<open>A transfer from sender to sink\<close>

text \<open>
  \<open>TcpAgent\<close> and \<open>TcpSink\<close> over a network that may lose, delay, reorder, duplicate and mark
  packets, while the controller sets the window as it likes. What was sent is in the logs of
  the two ends; the network delivers any logged packet any number of times after it was
  sent. Time does not pass the moment when the retransmission timer is due without the
  timeout. Nothing is acknowledged that did not arrive, nothing faults, and once packets get
  through again all that is outstanding is delivered and acknowledged.
\<close>

subsection \<open>Both ends and the network\<close>

record transfer =
  tr_now :: real
  tr_snd :: tcp_sender
  tr_snk :: "unit tcp_sink"

text \<open>What the sink reads of a packet; the network has counted down the ttl and may have set the mark.\<close>

definition data_of :: "int \<Rightarrow> int \<Rightarrow> bool \<Rightarrow> sent_pkt \<Rightarrow> data_pkt" where
  "data_of fid ttl ce p = \<lparr>dp_seqno = sp_seqno p, dp_ts = sp_ts p, dp_size = sp_size p, dp_flowid = fid, dp_ttl = ttl,
     dp_ect = sp_ect p, dp_ce = ce, dp_ecnecho = sp_ecnecho p, dp_cong_action = sp_cong_action p,
     dp_qs_flag = fst (sp_qs_hdr p), dp_qs_ttl = fst (snd (sp_qs_hdr p)), dp_qs_rate = snd (snd (sp_qs_hdr p))\<rparr>"

text \<open>What the sender reads of an acknowledgement; the headers the sink does not set are zero.\<close>

definition ack_of :: "ack_pkt \<Rightarrow> ack_hdr" where
  "ack_of h = \<lparr>ah_seqno = ap_seqno h, ah_ts = ap_ts h, ah_ts_echo = ap_ts_echo h, ah_ecnecho = (ap_ecnecho h \<noteq> 0),
     ah_cong_action = False, ah_no_ts = False, ah_eln = False,
     ah_qs_hdr = (case ap_qs h of None \<Rightarrow> (QS_DISABLE, 0, 0) | Some q \<Rightarrow> q)\<rparr>"

datatype transfer_event =
    Data nat int bool      \<comment> \<open>a packet of the sender's log arrives\<close>
  | Acked nat              \<comment> \<open>an acknowledgement of the sink's log arrives\<close>
  | Timeout                \<comment> \<open>the retransmission timer expires\<close>
  | App sender_event       \<comment> \<open>the application hands over data\<close>
  | Control real           \<comment> \<open>the controller sets the window\<close>

definition in_time :: "real \<Rightarrow> transfer \<Rightarrow> bool" where
  "in_time now t = (tr_now t \<le> now \<and> (case sd_rtx (tr_snd t) of None \<Rightarrow> True | Some d \<Rightarrow> now \<le> d))"

definition enabled :: "real \<Rightarrow> transfer_event \<Rightarrow> transfer \<Rightarrow> bool" where
  "enabled now e t = (in_time now t \<and>
     (case e of
        Data i _ _ \<Rightarrow> i < length (sd_sent (tr_snd t))
      | Acked i \<Rightarrow> i < length (ts_acks (tr_snk t))
      | Timeout \<Rightarrow> sd_rtx (tr_snd t) = Some now
      | App d \<Rightarrow> (case d of Ack _ \<Rightarrow> False | Rtx \<Rightarrow> False | _ \<Rightarrow> adds d (tr_snd t))
      | Control _ \<Rightarrow> True))"

fun transfer_do :: "tcp_conf \<Rightarrow> int \<Rightarrow> real \<Rightarrow> transfer_event \<Rightarrow> transfer \<Rightarrow> transfer res" where
  "transfer_do c fid now (Data i ttl ce) t =
     rbind (TcpSink_recv append_none now (i, data_of fid ttl ce (sd_sent (tr_snd t) ! i)) (tr_snk t))
       (\<lambda>k. Inr (t\<lparr>tr_now := now, tr_snk := k\<rparr>))"
| "transfer_do c fid now (Acked i) t =
     rbind (sender_do c now (Ack (ack_of (ts_acks (tr_snk t) ! i))) (tr_snd t)) (\<lambda>s. Inr (t\<lparr>tr_now := now, tr_snd := s\<rparr>))"
| "transfer_do c fid now Timeout t = rbind (sender_do c now Rtx (tr_snd t)) (\<lambda>s. Inr (t\<lparr>tr_now := now, tr_snd := s\<rparr>))"
| "transfer_do c fid now (App d) t = rbind (sender_do c now d (tr_snd t)) (\<lambda>s. Inr (t\<lparr>tr_now := now, tr_snd := s\<rparr>))"
| "transfer_do c fid now (Control w) t = Inr (t\<lparr>tr_now := now, tr_snd := (tr_snd t)\<lparr>sd_cwnd := w\<rparr>\<rparr>)"

definition transfer_run :: "tcp_conf \<Rightarrow> int \<Rightarrow> (real \<times> transfer_event) list \<Rightarrow> transfer \<Rightarrow> transfer res" where
  "transfer_run c fid = rfold (\<lambda>(now, e) t. if enabled now e t then transfer_do c fid now e t else Inl Aborted)"

text \<open>The beginning: nothing sent, an empty receive window.\<close>

definition fresh :: "transfer \<Rightarrow> bool" where
  "fresh t \<longleftrightarrow> (let s = tr_snd t; k = tr_snk t in
     sender_ok s \<and> sd_highest_ack s = -1 \<and> sd_maxseq s = -1 \<and> sd_rtx s = None \<and> sd_sent s = [] \<and> sd_lastreset s \<le> tr_now t \<and>
     ts_acker k = new_acker \<and> ts_acks k = [] \<and> ts_bytes k = 0 \<and> ts_lastreset k \<le> tr_now t)"

subsection \<open>The invariant\<close>

definition agrees :: "transfer \<Rightarrow> (int \<rightharpoonup> int) \<Rightarrow> bool" where
  "agrees t m \<longleftrightarrow> (let s = tr_snd t; k = tr_snk t in
     represents (ts_acker k) m \<and> ts_bytes k = (\<Sum>i\<in>{0..<ak_next (ts_acker k)}. size_at m i) \<and>
     (\<forall>i n. m i = Some n \<longrightarrow> (\<exists>p\<in>set (sd_sent s). sp_seqno p = i \<and> sp_size p = n)) \<and>
     (\<forall>p\<in>set (sd_sent s). 0 \<le> sp_seqno p \<and> sp_seqno p \<le> sd_maxseq s \<and> 0 < sp_size p \<and> ts_lastreset k \<le> sp_ts p) \<and>
     (\<forall>h\<in>set (ts_acks k). ap_seqno h \<le> Seqno (ts_acker k) \<and> sd_lastreset s \<le> ap_ts h) \<and>
     sd_highest_ack s \<le> Seqno (ts_acker k))"

definition timely :: "transfer \<Rightarrow> bool" where
  "timely t \<longleftrightarrow> armed (tr_snd t) \<and> sd_lastreset (tr_snd t) \<le> tr_now t \<and> ts_lastreset (tr_snk t) \<le> tr_now t \<and>
     (\<forall>d. sd_rtx (tr_snd t) = Some d \<longrightarrow> tr_now t \<le> d)"

definition tr_inv :: "transfer \<Rightarrow> bool" where
  "tr_inv t \<longleftrightarrow> sender_ok (tr_snd t) \<and> timely t \<and> (\<exists>m. agrees t m)"

lemma represents_Seqno:
  assumes "represents a m"
  shows "-1 \<le> Seqno a" and "0 \<le> i \<Longrightarrow> i \<le> Seqno a \<Longrightarrow> i \<in> dom m" and "Seqno a + 1 \<notin> dom m"
  using assms by (auto simp: represents_def Seqno_def)

lemma fresh_inv: "fresh t \<Longrightarrow> tr_inv t"
proof -
  assume f: "fresh t"
  have "Seqno new_acker = -1" "ak_next new_acker = 0" by (simp_all add: Seqno_def new_acker_def)
  then have "agrees t Map.empty" using f represents_new by (simp add: fresh_def agrees_def Let_def)
  moreover have "timely t" using f by (simp add: fresh_def timely_def armed_def Let_def)
  ultimately show ?thesis using f by (auto simp: tr_inv_def fresh_def Let_def)
qed

text \<open>The sink takes a packet, and acknowledges what it then has.\<close>

lemma ack_is_timed:
  assumes "TcpSink_ack append_none now p s = Inr s1"
  shows "ap_ts (last (ts_acks s1)) = now"
proof -
  have "ap_ts (echo_ecn s p sf a h) = ap_ts h" for sf a h by (simp add: echo_ecn_def Let_def)
  then show ?thesis using assms by (auto simp: TcpSink_ack_def append_none_def Let_def)
qed

lemma sink_takes:
  assumes "represents (ts_acker k) m" and "good_pkt p" and "ts_lastreset k \<le> dp_ts p"
  shows "\<exists>k' h. TcpSink_recv append_none now (i, p) k = Inr k' \<and>
    represents (ts_acker k') (received (ts_acker k) m (dp_seqno p) (dp_size p)) \<and>
    ak_next (ts_acker k) \<le> ak_next (ts_acker k') \<and>
    ts_bytes k' = ts_bytes k + (\<Sum>i\<in>{ak_next (ts_acker k)..<ak_next (ts_acker k')}.
      size_at (received (ts_acker k) m (dp_seqno p) (dp_size p)) i) \<and>
    ts_acks k' = ts_acks k @ [h] \<and> ap_seqno h = Seqno (ts_acker k') \<and> ap_ts h = now \<and> ts_lastreset k' = ts_lastreset k"
proof -
  let ?m = "received (ts_acker k) m (dp_seqno p) (dp_size p)"
  obtain k1 where k1: "sink_accept p k = Inr k1" "represents (ts_acker k1) ?m" "ak_next (ts_acker k) \<le> ak_next (ts_acker k1)"
    "ts_bytes k1 = ts_bytes k + (\<Sum>i\<in>{ak_next (ts_acker k)..<ak_next (ts_acker k1)}. size_at ?m i)"
    "ts_acks k1 = ts_acks k" "ts_lastreset k1 = ts_lastreset k"
    using sink_accept_ok [OF assms(1,2)] by blast
  obtain k2 where run: "TcpSink_ack append_none now p k1 = Inr k2" using TcpSink_ack_total by blast
  obtain h where k2: "ap_seqno h = Seqno (ts_acker k1)" "ts_acks k2 = ts_acks k1 @ [h]" "ts_bytes k2 = ts_bytes k1"
    "ts_lastreset k2 = ts_lastreset k1" "\<forall>m. represents (ts_acker k2) m = represents (ts_acker k1) m"
    "ak_next (ts_acker k2) = ak_next (ts_acker k1)"
    using TcpSink_ack_ok [OF run] by blast
  have ts: "ap_ts h = now" using ack_is_timed [OF run] k2(2) by simp
  have "TcpSink_recv append_none now (i, p) k = Inr (free_data i k2)"
    using assms(3) k1(1) run by (simp add: TcpSink_recv_def)
  then show ?thesis using k1 k2 ts by (intro exI [of _ "free_data i k2"] exI [of _ h]) (simp add: free_data_def Seqno_def)
qed


lemma in_time_due: "in_time now t \<Longrightarrow> sd_rtx (tr_snd t) = Some d \<Longrightarrow> now \<le> d"
  by (simp add: in_time_def)

text \<open>Steps of the sender: the log grows, and the acknowledgement stays below what arrived.\<close>

lemma sender_step_inv:
  assumes "tr_inv t" and "in_time now t" and "sender_ok s'" and "grows now (tr_snd t) s'" and "armed s'"
    and "sd_highest_ack s' \<le> Seqno (ts_acker (tr_snk t))"
  shows "tr_inv (t\<lparr>tr_now := now, tr_snd := s'\<rparr>)"
proof -
  let ?s = "tr_snd t" let ?t = "t\<lparr>tr_now := now, tr_snd := s'\<rparr>"
  obtain m where m: "agrees t m" and time: "timely t" and ok: "sender_ok ?s" using assms(1) by (auto simp: tr_inv_def)
  obtain ps where ps: "sd_sent s' = sd_sent ?s @ ps" "sendable now (sd_maxseq s') ps" and g: "sd_maxseq ?s \<le> sd_maxseq s'"
    "sd_lastreset s' = sd_lastreset ?s" "\<And>x. sd_rtx s' = Some x \<Longrightarrow> sd_rtx ?s = Some x \<or> now + rt_tick ?s \<le> x"
    using assms(4) by (auto simp: grows_def)
  have now: "tr_now t \<le> now" using assms(2) by (simp add: in_time_def)
  have "0 < rt_tick ?s" using sender_ok_rtt [OF ok] by (simp add: rtt_ok_def)
  then have due: "now \<le> x" if "sd_rtx s' = Some x" for x using g(3) [OF that] in_time_due [OF assms(2)] by fastforce
  have last: "ts_lastreset (tr_snk t) \<le> now" "sd_lastreset s' \<le> now" using time now g(2) by (simp_all add: timely_def)
  have "agrees ?t m"
    using m ps(2) g(1,2) assms(6) last(1) unfolding agrees_def Let_def sendable_def by (fastforce simp: ps(1))
  moreover have "timely ?t" using assms(5) last due by (simp add: timely_def)
  ultimately show ?thesis using assms(3) by (auto simp: tr_inv_def)
qed

lemma sender_do_armed:
  assumes "sender_do c now e s = Inr s'" and "basic c" and "adds e s" and "armed s"
  shows "armed s'"
proof (cases "e = Rtx")
  case True
  then show ?thesis using rtx_expire_keeps [of c now s s'] assms(1,2) by (simp add: basic_def)
next
  case False
  moreover have "e \<noteq> Reset" using assms(3) by (auto simp: adds_def)
  ultimately show ?thesis using sender_do_keeps [OF assms(1)] assms(2,4) by (simp add: keeps_def basic_def)
qed

lemma sender_do_step:
  assumes "tr_inv t" and "basic c" and "in_time now t" and "adds e (tr_snd t)"
    and "\<And>a. e = Ack a \<Longrightarrow> ah_seqno a \<le> Seqno (ts_acker (tr_snk t))"
  shows "\<exists>s'. sender_do c now e (tr_snd t) = Inr s' \<and> tr_inv (t\<lparr>tr_now := now, tr_snd := s'\<rparr>) \<and> grows now (tr_snd t) s'"
proof -
  let ?s = "tr_snd t"
  have ok: "sender_ok ?s" and arm: "armed ?s" and high: "sd_highest_ack ?s \<le> Seqno (ts_acker (tr_snk t))"
    using assms(1) by (auto simp: tr_inv_def timely_def agrees_def Let_def)
  obtain s' where s': "sender_do c now e ?s = Inr s'" using sender_do_returns [OF assms(2) ok assms(4)] by blast
  have "sends now ?s s' \<or> (\<exists>a. e = Ack a \<and> acks now (ah_seqno a) ?s s')"
    using sender_do_steps [OF s' assms(2,4)] by (cases e) (auto split: if_splits)
  then have "sender_ok s' \<and> grows now ?s s' \<and> sd_highest_ack s' \<le> Seqno (ts_acker (tr_snk t))"
    using ok high assms(5) by (auto simp: sends_def acks_def)
  then show ?thesis
    using s' sender_step_inv [OF assms(1,3)] sender_do_armed [OF s' assms(2,4) arm] by blast
qed

text \<open>A packet arrives at the sink.\<close>

lemma agrees_received:
  assumes "agrees t m" and "i < length (sd_sent (tr_snd t))"
  shows "\<exists>k' h. TcpSink_recv append_none now (i, data_of fid ttl ce (sd_sent (tr_snd t) ! i)) (tr_snk t) = Inr k' \<and>
    ts_acks k' = ts_acks (tr_snk t) @ [h] \<and> ap_seqno h = Seqno (ts_acker k') \<and> ap_ts h = now \<and> ts_lastreset k' = ts_lastreset (tr_snk t) \<and>
    Seqno (ts_acker (tr_snk t)) \<le> Seqno (ts_acker k') \<and>
    (sp_seqno (sd_sent (tr_snd t) ! i) \<le> Seqno (ts_acker (tr_snk t)) + 1 \<longrightarrow> sp_seqno (sd_sent (tr_snd t) ! i) \<le> Seqno (ts_acker k')) \<and>
    (sd_lastreset (tr_snd t) \<le> now \<longrightarrow> agrees (t\<lparr>tr_now := now, tr_snk := k'\<rparr>) (received (ts_acker (tr_snk t)) m
       (sp_seqno (sd_sent (tr_snd t) ! i)) (sp_size (sd_sent (tr_snd t) ! i))))"
proof -
  define p where "p = sd_sent (tr_snd t) ! i"
  define d where "d = data_of fid ttl ce p"
  define k where "k = tr_snk t"
  let ?m = "received (ts_acker k) m (sp_seqno p) (sp_size p)"
  have p: "p \<in> set (sd_sent (tr_snd t))" using assms(2) by (simp add: p_def)
  note A = assms(1) [unfolded agrees_def Let_def k_def [symmetric]]
  have d: "dp_seqno d = sp_seqno p" "dp_size d = sp_size p" "dp_ts d = sp_ts p" by (simp_all add: d_def data_of_def)
  have "good_pkt d" "ts_lastreset k \<le> dp_ts d" "represents (ts_acker k) m" using A p by (auto simp: good_pkt_def d)
  from sink_takes [OF this(3,1,2), of now i, unfolded d(1,2)] obtain k' h where
    k': "TcpSink_recv append_none now (i, d) k = Inr k'" "represents (ts_acker k') ?m" "ak_next (ts_acker k) \<le> ak_next (ts_acker k')"
    "ts_bytes k' = ts_bytes k + (\<Sum>i\<in>{ak_next (ts_acker k)..<ak_next (ts_acker k')}. size_at ?m i)"
    "ts_acks k' = ts_acks k @ [h]" "ap_seqno h = Seqno (ts_acker k')" "ap_ts h = now" "ts_lastreset k' = ts_lastreset k" by blast
  have le: "Seqno (ts_acker k) \<le> Seqno (ts_acker k')" using k'(3) by (simp add: Seqno_def)
  have in_m: "sp_seqno p \<in> dom ?m" using dom_received [of "ts_acker k" m "sp_seqno p" "sp_size p"] A p by auto
  have reach: "sp_seqno p \<le> Seqno (ts_acker k')" if "sp_seqno p \<le> Seqno (ts_acker k) + 1"
    using represents_Seqno(3) [OF k'(2)] in_m that le by (cases "sp_seqno p = Seqno (ts_acker k') + 1") auto
  have m_old: "size_at ?m j = size_at m j" if "j < ak_next (ts_acker k)" for j
    using that by (auto simp: received_def size_at_def)
  have "0 \<le> ak_next (ts_acker k)" using A by (simp add: represents_def)
  have "(\<Sum>i\<in>{0..<ak_next (ts_acker k')}. size_at ?m i) =
      (\<Sum>i\<in>{0..<ak_next (ts_acker k)}. size_at ?m i) + (\<Sum>i\<in>{ak_next (ts_acker k)..<ak_next (ts_acker k')}. size_at ?m i)"
    using \<open>0 \<le> ak_next (ts_acker k)\<close> k'(3) by (subst sum.union_disjoint [symmetric]) (auto intro: sum.cong)
  also have "(\<Sum>i\<in>{0..<ak_next (ts_acker k)}. size_at ?m i) = ts_bytes k" using A m_old by simp
  finally have bytes: "ts_bytes k' = (\<Sum>i\<in>{0..<ak_next (ts_acker k')}. size_at ?m i)" using k'(4) by simp
  have sizes: "\<exists>q\<in>set (sd_sent (tr_snd t)). sp_seqno q = j \<and> sp_size q = n" if "?m j = Some n" for j n
    using that A p by (auto simp: received_def split: if_splits)
  have "agrees (t\<lparr>tr_now := now, tr_snk := k'\<rparr>) ?m" if "sd_lastreset (tr_snd t) \<le> now"
    using A k'(2,5-8) bytes sizes le that by (fastforce simp: agrees_def Let_def)
  then show ?thesis using k' le reach unfolding p_def d_def k_def by blast
qed

lemma data_step:
  assumes "tr_inv t" and "enabled now (Data i ttl ce) t"
  shows "\<exists>t' h. transfer_do c fid now (Data i ttl ce) t = Inr t' \<and> tr_inv t' \<and> tr_now t' = now \<and> tr_snd t' = tr_snd t \<and>
    ts_acks (tr_snk t') = ts_acks (tr_snk t) @ [h] \<and> ap_seqno h = Seqno (ts_acker (tr_snk t')) \<and> ap_ts h = now \<and>
    (sp_seqno (sd_sent (tr_snd t) ! i) \<le> Seqno (ts_acker (tr_snk t)) + 1 \<longrightarrow>
      sp_seqno (sd_sent (tr_snd t) ! i) \<le> Seqno (ts_acker (tr_snk t')))"
proof -
  obtain m where m: "agrees t m" using assms(1) by (auto simp: tr_inv_def)
  have i: "i < length (sd_sent (tr_snd t))" and time: "in_time now t" using assms(2) by (auto simp: enabled_def)
  have l: "sd_lastreset (tr_snd t) \<le> now" "ts_lastreset (tr_snk t) \<le> now"
    using assms(1) time by (auto simp: tr_inv_def timely_def in_time_def)
  obtain k' h where k': "TcpSink_recv append_none now (i, data_of fid ttl ce (sd_sent (tr_snd t) ! i)) (tr_snk t) = Inr k'"
    "ts_acks k' = ts_acks (tr_snk t) @ [h]" "ap_seqno h = Seqno (ts_acker k')" "ap_ts h = now" "ts_lastreset k' = ts_lastreset (tr_snk t)"
    "sp_seqno (sd_sent (tr_snd t) ! i) \<le> Seqno (ts_acker (tr_snk t)) + 1 \<longrightarrow> sp_seqno (sd_sent (tr_snd t) ! i) \<le> Seqno (ts_acker k')"
    "agrees (t\<lparr>tr_now := now, tr_snk := k'\<rparr>) (received (ts_acker (tr_snk t)) m
       (sp_seqno (sd_sent (tr_snd t) ! i)) (sp_size (sd_sent (tr_snd t) ! i)))"
    using agrees_received [OF m i, of now fid ttl ce] l(1) by blast
  have "timely (t\<lparr>tr_now := now, tr_snk := k'\<rparr>)"
    using assms(1) l k'(5) in_time_due [OF time] by (simp add: tr_inv_def timely_def)
  then have "tr_inv (t\<lparr>tr_now := now, tr_snk := k'\<rparr>)" using k'(7) assms(1) by (auto simp: tr_inv_def)
  then show ?thesis using k' by (intro exI [of _ "t\<lparr>tr_now := now, tr_snk := k'\<rparr>"] exI [of _ h]) simp
qed


subsection \<open>Every history\<close>

lemma transfer_step:
  assumes "tr_inv t" and "basic c" and "enabled now e t"
  shows "\<exists>t'. transfer_do c fid now e t = Inr t' \<and> tr_inv t'"
proof (cases e)
  case (Data i ttl ce)
  then show ?thesis using data_step [OF assms(1), of now i ttl ce c fid] assms(3) by blast
next
  case (Acked i)
  have time: "in_time now t" and i: "i < length (ts_acks (tr_snk t))" using assms(3) Acked by (auto simp: enabled_def)
  have "ap_seqno (ts_acks (tr_snk t) ! i) \<le> Seqno (ts_acker (tr_snk t))"
    using assms(1) nth_mem [OF i] by (auto simp: tr_inv_def agrees_def Let_def)
  then show ?thesis using sender_do_step [OF assms(1,2) time, of "Ack (ack_of (ts_acks (tr_snk t) ! i))"] Acked
    by (fastforce simp: adds_def ack_of_def)
next
  case Timeout
  have "in_time now t" using assms(3) by (simp add: enabled_def)
  then show ?thesis using sender_do_step [OF assms(1,2), of now Rtx] Timeout by (fastforce simp: adds_def)
next
  case (App d)
  have "in_time now t" "adds d (tr_snd t)" "\<And>a. d \<noteq> Ack a"
    using assms(3) App by (auto simp: enabled_def split: sender_event.splits)
  then show ?thesis using sender_do_step [OF assms(1,2), of now d] App by fastforce
next
  case (Control w)
  let ?s = "(tr_snd t)\<lparr>sd_cwnd := w\<rparr>"
  have ok: "sender_ok (tr_snd t)" "sd_highest_ack (tr_snd t) \<le> Seqno (ts_acker (tr_snk t))" "armed (tr_snd t)"
    using assms(1) by (auto simp: tr_inv_def agrees_def timely_def Let_def)
  have "sends now (tr_snd t) ?s" by (rule sends_quiet) (simp_all add: pos_def rtt_ok_def)
  then have "sender_ok ?s" "grows now (tr_snd t) ?s" using ok(1) by (simp_all add: sends_def)
  moreover have "armed ?s" using ok(3) by (simp add: armed_def)
  moreover have "in_time now t" using assms(3) by (simp add: enabled_def)
  ultimately show ?thesis using sender_step_inv [OF assms(1)] ok(2) Control by simp
qed

lemma transfer_run_inv:
  assumes "transfer_run c fid es t = Inr t'" and "basic c" and "tr_inv t"
  shows "tr_inv t'"
  using assms(1,3)
proof (induction es arbitrary: t)
  case Nil
  then show ?case by (simp add: transfer_run_def)
next
  case (Cons x es)
  obtain now e where x: "x = (now, e)" by fastforce
  obtain t1 where t1: "enabled now e t" "transfer_do c fid now e t = Inr t1" "transfer_run c fid es t1 = Inr t'"
    using Cons.prems(1) by (auto simp: transfer_run_def x rbind_eq_Inr split: if_splits)
  then have "tr_inv t1" using transfer_step [OF Cons.prems(2) assms(2) t1(1), of fid] by simp
  then show ?case by (rule Cons.IH [OF t1(3)])
qed

lemma transfer_run_append: "transfer_run c fid (es @ es') t = rbind (transfer_run c fid es t) (transfer_run c fid es')"
  by (simp add: transfer_run_def rfold_append)

text \<open>What was sent covers what the sink has, which covers what is acknowledged.\<close>

lemma received_below_sent:
  assumes "tr_inv t"
  shows "Seqno (ts_acker (tr_snk t)) \<le> sd_maxseq (tr_snd t)"
proof (cases "0 \<le> Seqno (ts_acker (tr_snk t))")
  case True
  obtain m where m: "agrees t m" using assms by (auto simp: tr_inv_def)
  note A = m [unfolded agrees_def Let_def]
  have "Seqno (ts_acker (tr_snk t)) \<in> dom m" using represents_Seqno(2) [of "ts_acker (tr_snk t)" m] A True by blast
  then show ?thesis using A by fastforce
next
  case False
  then show ?thesis using assms by (simp add: tr_inv_def sender_ok_def)
qed

lemma acked_below_sent: "tr_inv t \<Longrightarrow> sd_highest_ack (tr_snd t) \<le> sd_maxseq (tr_snd t)"
  using received_below_sent [of t] by (auto simp: tr_inv_def agrees_def Let_def)

text \<open>
  C3. A transfer is reliable. After every history of a transfer, whatever the network lost,
  reordered, duplicated or marked and the controller did to the window, the highest
  acknowledgement is below what the sink has in order, which is below what was sent; and the
  sink has delivered exactly the bytes of the packets before the first gap, each of a packet
  that was sent under its number, each once.
\<close>

theorem transfer_is_reliable:
  assumes "transfer_run c fid es t0 = Inr t" and "fresh t0" and "basic c"
  shows "-1 \<le> sd_highest_ack (tr_snd t) \<and> sd_highest_ack (tr_snd t) \<le> Seqno (ts_acker (tr_snk t)) \<and>
    Seqno (ts_acker (tr_snk t)) \<le> sd_maxseq (tr_snd t) \<and>
    (\<exists>f. (\<forall>i\<in>{0..Seqno (ts_acker (tr_snk t))}. \<exists>p\<in>set (sd_sent (tr_snd t)). sp_seqno p = i \<and> sp_size p = f i) \<and>
      ts_bytes (tr_snk t) = (\<Sum>i\<in>{0..Seqno (ts_acker (tr_snk t))}. f i))"
proof -
  let ?a = "ts_acker (tr_snk t)"
  have inv: "tr_inv t" by (rule transfer_run_inv [OF assms(1,3) fresh_inv [OF assms(2)]])
  then obtain m where m: "agrees t m" "sender_ok (tr_snd t)" by (auto simp: tr_inv_def)
  note A = m(1) [unfolded agrees_def Let_def]
  have "-1 \<le> sd_highest_ack (tr_snd t)" "sd_highest_ack (tr_snd t) \<le> Seqno ?a" using A m(2) by (simp_all add: sender_ok_def)
  moreover have have_sent: "\<exists>p\<in>set (sd_sent (tr_snd t)). sp_seqno p = i \<and> sp_size p = size_at m i" if i: "i \<in> {0..Seqno ?a}" for i
  proof -
    have "i \<in> dom m" using represents_Seqno(2) [of ?a m i] A i by auto
    then obtain n where "m i = Some n" by auto
    then show ?thesis using A by (auto simp: size_at_def)
  qed
  moreover have "Seqno ?a \<le> sd_maxseq (tr_snd t)" by (rule received_below_sent [OF inv])
  moreover have "ts_bytes (tr_snk t) = (\<Sum>i\<in>{0..Seqno ?a}. size_at m i)"
  proof -
    have "{0..<ak_next ?a} = {0..Seqno ?a}" by (auto simp: Seqno_def)
    then show ?thesis using A by simp
  qed
  ultimately show ?thesis by blast
qed

text \<open>
  Three packets are sent; the first arrives twice, its acknowledgement opens the window, the
  third overtakes the second, the second is lost and sent again after the timeout.
\<close>

definition demo_transfer :: transfer where
  "demo_transfer = \<lparr>tr_now = 0, tr_snd = demo_sender, tr_snk = new_sink new_acker\<rparr>"

definition demo_history :: "(real \<times> transfer_event) list" where
  "demo_history = [(0, App (Advance 2)), (1, Data 0 30 False), (1, Data 0 30 False), (2, Acked 0), (2, Acked 1), (3, Data 2 30 True), (4, Acked 2)]"

lemma demo_fresh: "fresh demo_transfer"
  by (simp add: fresh_def demo_transfer_def new_sink_def sender_ok_def demo_sender_def demo_rtt_def rtt_ok_def tcp_rtt.defs no_stats_def)

lemma demo_basic: "basic demo_conf"
  by (simp add: basic_def demo_conf_def)

lemma demo_transfer_run:
  "case transfer_run demo_conf 0 demo_history demo_transfer of Inl e \<Rightarrow> False
   | Inr t \<Rightarrow> sd_highest_ack (tr_snd t) = 0 \<and> Seqno (ts_acker (tr_snk t)) = 0 \<and> sd_maxseq (tr_snd t) = 2 \<and> sd_curseq (tr_snd t) = 3 \<and>
      rt_tick (tr_snd t) = 1 / 100 \<and> sd_rtx (tr_snd t) = Some 8 \<and> tr_now t = 4 \<and> length (sd_sent (tr_snd t)) = 3 \<and>
      length (ts_acks (tr_snk t)) = 3"
  by code_simp


lemma demo_transfer_reached:
  obtains t where "transfer_run demo_conf 0 demo_history demo_transfer = Inr t" "sd_highest_ack (tr_snd t) = 0"
    "Seqno (ts_acker (tr_snk t)) = 0" "sd_maxseq (tr_snd t) = 2" "sd_curseq (tr_snd t) = 3" "rt_tick (tr_snd t) = 1 / 100"
    "sd_rtx (tr_snd t) = Some 8" "tr_now t = 4" "length (sd_sent (tr_snd t)) = 3" "length (ts_acks (tr_snk t)) = 3"
  using demo_transfer_run by (cases "transfer_run demo_conf 0 demo_history demo_transfer") auto

theorem transfer_is_reliable_witness:
  "\<exists>t f. transfer_run demo_conf 0 demo_history demo_transfer = Inr t \<and> sd_highest_ack (tr_snd t) = 0 \<and>
    (\<exists>p\<in>set (sd_sent (tr_snd t)). sp_seqno p = 0 \<and> sp_size p = f (0 :: int)) \<and> ts_bytes (tr_snk t) = f 0"
proof -
  obtain t where t: "transfer_run demo_conf 0 demo_history demo_transfer = Inr t" "sd_highest_ack (tr_snd t) = 0"
    "Seqno (ts_acker (tr_snk t)) = 0" by (rule demo_transfer_reached)
  obtain f where "\<forall>i\<in>{0..0}. \<exists>p\<in>set (sd_sent (tr_snd t)). sp_seqno p = i \<and> sp_size p = f i" "ts_bytes (tr_snk t) = (\<Sum>i\<in>{0..0}. f i)"
    using transfer_is_reliable [OF t(1) demo_fresh demo_basic] unfolding t(3) by blast
  then show ?thesis using t(1,2) by (intro exI [of _ t] exI [of _ f] conjI) simp_all
qed

text \<open>
  C5. No event of a transfer faults: after every history, whatever may happen next returns, at the
  sender and at the sink. No loop runs for ever, no assertion or bound of a timer fails, no
  index is out of range.
\<close>

theorem transfer_never_faults:
  assumes "transfer_run c fid es t0 = Inr t" and "fresh t0" and "basic c" and "enabled now e t"
  shows "\<exists>t'. transfer_do c fid now e t = Inr t'"
  using transfer_step [OF transfer_run_inv [OF assms(1,3) fresh_inv [OF assms(2)]] assms(3,4)] by blast

theorem transfer_never_faults_witness:
  "\<exists>t t'. transfer_run demo_conf 0 demo_history demo_transfer = Inr t \<and> transfer_do demo_conf 0 8 Timeout t = Inr t'"
proof -
  obtain t where t: "transfer_run demo_conf 0 demo_history demo_transfer = Inr t" "sd_rtx (tr_snd t) = Some 8" "tr_now t = 4"
    by (rule demo_transfer_reached)
  have "enabled 8 Timeout t" using t(2,3) by (simp add: enabled_def in_time_def)
  from transfer_never_faults [OF t(1) demo_fresh demo_basic this] show ?thesis using t(1) by blast
qed

subsection \<open>Progress\<close>

text \<open>A timeout sets the timer a tick ahead at least: it forgets the one that expired.\<close>

lemma timeout_due:
  assumes "sender_do c now Rtx s = Inr s'" and "basic c" and "sender_ok s" and "sd_rtx s' = Some x"
  shows "now + rt_tick s \<le> x"
proof -
  have "rtx_expire c now (s\<lparr>sd_rtx := None\<rparr>) = Inr s'" using assms(1) by (simp add: rtx_expire_def)
  then have "sends now (s\<lparr>sd_rtx := None\<rparr>) s'" by (rule rtx_expire_sends [OF _ assms(2)])
  moreover have "sender_ok (s\<lparr>sd_rtx := None\<rparr>)" using assms(3) by (simp add: sender_ok_def rtt_ok_def)
  ultimately have "grows now (s\<lparr>sd_rtx := None\<rparr>) s'" by (simp add: sends_def)
  then show ?thesis using assms(4) by (simp add: grows_def)
qed

text \<open>
  One round: the timer expires, the packet it sends first arrives after \<open>d\<close>, its
  acknowledgement after another \<open>d\<close>; the acknowledgement is new.
\<close>

definition round_of :: "real \<Rightarrow> real \<times> nat \<times> nat \<Rightarrow> (real \<times> transfer_event) list" where
  "round_of d = (\<lambda>(now, i, j). [(now, Timeout), (now + d, Data i 32 False), (now + 2 * d, Acked j)])"

lemma recovery_round:
  assumes inv: "tr_inv t" and c: "basic c" "1 \<le> cf_wnd c" and d: "0 \<le> d" "2 * d \<le> rt_tick (tr_snd t)"
    and out: "sd_highest_ack (tr_snd t) < sd_maxseq (tr_snd t)" "sd_highest_ack (tr_snd t) + 1 < sd_curseq (tr_snd t)"
  shows "\<exists>r t'. transfer_run c fid (round_of d r) t = Inr t' \<and> tr_inv t' \<and> sd_highest_ack (tr_snd t) < sd_highest_ack (tr_snd t') \<and>
    rt_tick (tr_snd t') = rt_tick (tr_snd t) \<and> sd_maxseq (tr_snd t) \<le> sd_maxseq (tr_snd t') \<and> sd_curseq (tr_snd t) \<le> sd_curseq (tr_snd t')"
proof -
  let ?s = "tr_snd t" let ?k = "tr_snk t"
  have ok: "sender_ok ?s" and arm: "armed ?s" and high: "sd_highest_ack ?s \<le> Seqno (ts_acker ?k)"
    and due: "\<And>x. sd_rtx ?s = Some x \<Longrightarrow> tr_now t \<le> x"
    using inv by (auto simp: tr_inv_def timely_def agrees_def Let_def)
  obtain now where now: "sd_rtx ?s = Some now" using arm out(1) by (auto simp: armed_def)
  have e1: "enabled now Timeout t" using now due by (simp add: enabled_def in_time_def)
  have time1: "in_time now t" using e1 by (simp add: enabled_def)
  obtain s1 where s1: "sender_do c now Rtx ?s = Inr s1" "tr_inv (t\<lparr>tr_now := now, tr_snd := s1\<rparr>)" "grows now ?s s1"
    using sender_do_step [OF inv c(1) time1, of Rtx] by (auto simp: adds_def)
  let ?t1 = "t\<lparr>tr_now := now, tr_snd := s1\<rparr>"
  have h1: "sd_highest_ack s1 = sd_highest_ack ?s" "sender_ok s1"
    using rtx_expire_sends [OF _ c(1), of now ?s s1] s1(1) ok by (simp_all add: sends_def)
  obtain ps where ps: "sd_sent s1 = sd_sent ?s @ ps" "ps \<noteq> []" "sp_seqno (hd ps) = sd_highest_ack ?s + 1"
    using rtx_expire_returns [OF c(1) ok, of now] s1(1) out c(2) by auto
  let ?i = "length (sd_sent ?s)"
  have i: "?i < length (sd_sent s1)" "sp_seqno (sd_sent s1 ! ?i) = sd_highest_ack ?s + 1"
    using ps by (auto simp: nth_append hd_conv_nth)
  have late: "in_time x ?t1" if "now \<le> x" "x \<le> now + rt_tick ?s" for x
    using timeout_due [OF s1(1) c(1) ok] that by (fastforce simp: in_time_def split: option.splits)
  have tick: "rt_tick s1 = rt_tick ?s" "sd_lastreset s1 \<le> now" using s1(2,3) by (simp_all add: grows_def tr_inv_def timely_def)
  have "in_time (now + d) ?t1" using d by (intro late) auto
  then have e2: "enabled (now + d) (Data ?i 32 False) ?t1" using i(1) by (simp add: enabled_def)
  obtain t2 h where t2: "transfer_do c fid (now + d) (Data ?i 32 False) ?t1 = Inr t2" "tr_inv t2" "tr_now t2 = now + d" "tr_snd t2 = s1"
    "ts_acks (tr_snk t2) = ts_acks ?k @ [h]" "ap_seqno h = Seqno (ts_acker (tr_snk t2))" "ap_ts h = now + d"
    "sd_highest_ack ?s + 1 \<le> Seqno (ts_acker (tr_snk t2))"
    using data_step [OF s1(2) e2, of c fid] i(2) high by auto
  let ?j = "length (ts_acks ?k)"
  have "in_time (now + 2 * d) ?t1" using d by (intro late) auto
  then have e3: "enabled (now + 2 * d) (Acked ?j) t2" using t2(3-5) d(1) by (simp add: enabled_def in_time_def)
  have time3: "in_time (now + 2 * d) t2" using e3 by (simp add: enabled_def)
  have h: "ts_acks (tr_snk t2) ! ?j = h" using t2(5) by simp
  obtain s3 where s3: "sender_do c (now + 2 * d) (Ack (ack_of h)) s1 = Inr s3"
    "tr_inv (t2\<lparr>tr_now := now + 2 * d, tr_snd := s3\<rparr>)" "grows (now + 2 * d) s1 s3"
    using sender_do_step [OF t2(2) c(1) time3, of "Ack (ack_of h)"] t2(4,6) by (auto simp: adds_def ack_of_def)
  have "sd_lastreset s1 \<le> ap_ts h" "sd_last_ack s1 < ap_seqno h"
    using tick(2) d(1) t2(6-8) h1 by (simp_all add: sender_ok_def)
  then have "acks (now + 2 * d) (ap_seqno h) s1 s3"
    using sender_do_steps [OF s3(1) c(1)] by (simp add: adds_def ack_of_def)
  then have h3: "sd_highest_ack s3 = Seqno (ts_acker (tr_snk t2))" using h1(2) t2(6) by (simp add: acks_def)
  have "transfer_run c fid (round_of d (now, ?i, ?j)) t = Inr (t2\<lparr>tr_now := now + 2 * d, tr_snd := s3\<rparr>)"
    using e1 e2 e3 s1(1) t2(1,4) s3(1) by (simp add: transfer_run_def round_of_def h)
  then show ?thesis using s3(2) h3 t2(8) s1(3) s3(3) by (intro exI [of _ "(now, ?i, ?j)"] exI) (auto simp: grows_def)
qed

lemma recovery:
  assumes "tr_inv t" "basic c" "1 \<le> cf_wnd c" "0 \<le> d" "2 * d \<le> rt_tick (tr_snd t)" "n \<le> sd_maxseq (tr_snd t)" "n < sd_curseq (tr_snd t)"
  shows "\<exists>rs t'. transfer_run c fid (concat (map (round_of d) rs)) t = Inr t' \<and> n \<le> sd_highest_ack (tr_snd t') \<and>
    length rs \<le> nat (n - sd_highest_ack (tr_snd t)) \<and> tr_inv t'"
  using assms
proof (induction "nat (n - sd_highest_ack (tr_snd t))" arbitrary: t rule: less_induct)
  case less
  show ?case
  proof (cases "n \<le> sd_highest_ack (tr_snd t)")
    case True
    then show ?thesis using less.prems(1) by (intro exI [of _ "[]"] exI [of _ t]) (simp add: transfer_run_def)
  next
    case False
    then have "sd_highest_ack (tr_snd t) < sd_maxseq (tr_snd t)" "sd_highest_ack (tr_snd t) + 1 < sd_curseq (tr_snd t)"
      using less.prems(6,7) by simp_all
    from recovery_round [OF less.prems(1-5) this, of fid] obtain r t1 where
      t1: "transfer_run c fid (round_of d r) t = Inr t1" "tr_inv t1" "sd_highest_ack (tr_snd t) < sd_highest_ack (tr_snd t1)"
      "rt_tick (tr_snd t1) = rt_tick (tr_snd t)" "sd_maxseq (tr_snd t) \<le> sd_maxseq (tr_snd t1)" "sd_curseq (tr_snd t) \<le> sd_curseq (tr_snd t1)"
      by blast
    have m: "nat (n - sd_highest_ack (tr_snd t1)) < nat (n - sd_highest_ack (tr_snd t))" using t1(3) False by simp
    have "2 * d \<le> rt_tick (tr_snd t1)" "n \<le> sd_maxseq (tr_snd t1)" "n < sd_curseq (tr_snd t1)"
      using less.prems(5-7) t1(4-6) by simp_all
    from less.hyps [OF m t1(2) less.prems(2-4) this] obtain rs t' where
      t': "transfer_run c fid (concat (map (round_of d) rs)) t1 = Inr t'" "n \<le> sd_highest_ack (tr_snd t')"
      "length rs \<le> nat (n - sd_highest_ack (tr_snd t1))" "tr_inv t'" by blast
    have "transfer_run c fid (concat (map (round_of d) (r # rs))) t = Inr t'"
      using t1(1) t'(1) by (simp add: transfer_run_append)
    moreover have "length (r # rs) \<le> nat (n - sd_highest_ack (tr_snd t))" using le_less_trans [OF t'(3) m] by (simp add: Suc_le_eq)
    ultimately show ?thesis using t'(2,4) by blast
  qed
qed

text \<open>
  C4. No transfer is stuck. From every state that any losses, reordering and settings of the window
  may have led to, when the sender has sent no more than the data it has: if the network again
  delivers one packet and one acknowledgement per timeout, within half a tick each, then after
  at most one round for each packet outstanding every one of them has arrived in order and is
  acknowledged.
\<close>

theorem outstanding_is_delivered:
  assumes "transfer_run c fid es t0 = Inr t" and "fresh t0" and "basic c" and "1 \<le> cf_wnd c"
    and "0 \<le> d" and "2 * d \<le> rt_tick (tr_snd t)" and "sd_maxseq (tr_snd t) < sd_curseq (tr_snd t)"
  shows "\<exists>rs t'. transfer_run c fid (concat (map (round_of d) rs)) t = Inr t' \<and>
    int (length rs) \<le> sd_maxseq (tr_snd t) - sd_highest_ack (tr_snd t) \<and>
    sd_maxseq (tr_snd t) \<le> sd_highest_ack (tr_snd t') \<and> sd_maxseq (tr_snd t) \<le> Seqno (ts_acker (tr_snk t'))"
proof -
  have inv: "tr_inv t" by (rule transfer_run_inv [OF assms(1,3) fresh_inv [OF assms(2)]])
  obtain rs t' where t': "transfer_run c fid (concat (map (round_of d) rs)) t = Inr t'"
    "sd_maxseq (tr_snd t) \<le> sd_highest_ack (tr_snd t')" "length rs \<le> nat (sd_maxseq (tr_snd t) - sd_highest_ack (tr_snd t))" "tr_inv t'"
    using recovery [OF inv assms(3-6) order_refl assms(7), of fid] by blast
  have high: "sd_highest_ack (tr_snd u) \<le> Seqno (ts_acker (tr_snk u))" if "tr_inv u" for u
    using that by (auto simp: tr_inv_def agrees_def Let_def)
  have "sd_highest_ack (tr_snd t) \<le> sd_maxseq (tr_snd t)" using acked_below_sent [OF inv] .
  then show ?thesis using t'(1-3) high [OF t'(4)] by (intro exI [of _ rs] exI [of _ t']) simp
qed

theorem outstanding_is_delivered_witness:
  "\<exists>t rs t'. transfer_run demo_conf 0 demo_history demo_transfer = Inr t \<and> sd_highest_ack (tr_snd t) = 0 \<and>
    transfer_run demo_conf 0 (concat (map (round_of (1 / 200)) rs)) t = Inr t' \<and> length rs \<le> 2 \<and>
    2 \<le> sd_highest_ack (tr_snd t') \<and> 2 \<le> Seqno (ts_acker (tr_snk t'))"
proof -
  obtain t where t: "transfer_run demo_conf 0 demo_history demo_transfer = Inr t" "sd_highest_ack (tr_snd t) = 0"
    "sd_maxseq (tr_snd t) = 2" "sd_curseq (tr_snd t) = 3" "rt_tick (tr_snd t) = 1 / 100" by (rule demo_transfer_reached)
  have "1 \<le> cf_wnd demo_conf" "(0 :: real) \<le> 1 / 200" "2 * (1 / 200) \<le> rt_tick (tr_snd t)" "sd_maxseq (tr_snd t) < sd_curseq (tr_snd t)"
    using t(3-5) by (simp_all add: demo_conf_def)
  from outstanding_is_delivered [OF t(1) demo_fresh demo_basic this] show ?thesis using t(1-3) by auto
qed

end
