(* ===== verification/SplayQueue.thy ===== *)
theory SplayQueue
  imports Scheduler "HOL-Library.Tree"
begin

section \<open>The splay scheduler\<close>

text \<open>
  \<open>SplayScheduler\<close> of common/splay-scheduler.cc: the pending events in a binary search tree
  by time that \<open>insert\<close> splays from the root down. The events are linked by \<open>prev_\<close>
  and \<open>next_\<close>, as left and right children: a tree of addresses. While \<open>insert\<close> descends,
  what it has passed forms two trees, each with a hole where the next part will hang: the
  right spine of the left tree and the left spine of the right tree are lists, the last link
  first. The number of events is an int of 32 bits.
\<close>

subsection \<open>State and operations\<close>

record splay =
  sp_root :: "nat tree"
  sp_qsize :: "32 word"

definition new_splay :: splay where
  "new_splay = \<lparr>sp_root = Leaf, sp_qsize = 0\<rparr>"

text \<open>What is below the hole is hung into it.\<close>

definition hang_left :: "('a tree \<times> 'a) list \<Rightarrow> 'a tree \<Rightarrow> 'a tree" where
  "hang_left ls t = fold (\<lambda>(l, a) s. Node l a s) ls t"

definition hang_right :: "('a \<times> 'a tree) list \<Rightarrow> 'a tree \<Rightarrow> 'a tree" where
  "hang_right rs t = fold (\<lambda>(a, r) s. Node s a r) rs t"

text \<open>
  The loop of \<open>insert\<close>: \<open>t\<close> is the root of what remains. Two steps to the same side
  rotate before they link.
\<close>

fun splay_split :: "('a \<Rightarrow> real) \<Rightarrow> real \<Rightarrow> 'a tree \<Rightarrow> ('a tree \<times> 'a) list \<Rightarrow> ('a \<times> 'a tree) list \<Rightarrow>
    'a tree \<times> 'a tree" where
  "splay_split f time Leaf ls rs = (hang_left ls Leaf, hang_right rs Leaf)"
| "splay_split f time (Node la a ra) ls rs =
     (if time < f a then
        (case la of
           Leaf \<Rightarrow> (hang_left ls Leaf, hang_right rs (Node la a ra))
         | Node xl x xr \<Rightarrow>
             if time < f x then splay_split f time xl ls ((x, Node xr a ra) # rs)
             else splay_split f time la ls ((a, ra) # rs))
      else
        (case ra of
           Leaf \<Rightarrow> (hang_left ls (Node la a ra), hang_right rs Leaf)
         | Node xl x xr \<Rightarrow>
             if time \<ge> f x then splay_split f time xr ((Node la a xl, x) # ls) rs
             else splay_split f time ra ((la, a) # ls) rs))"

definition splay_insert :: "events \<Rightarrow> nat \<Rightarrow> splay \<Rightarrow> splay" where
  "splay_insert evs n q =
     (case sp_root q of
        Leaf \<Rightarrow> q\<lparr>sp_qsize := sp_qsize q + 1, sp_root := Node Leaf n Leaf\<rparr>
      | t \<Rightarrow>
          (case splay_split (\<lambda>p. ev_time (evs p)) (ev_time (evs n)) t [] [] of
             (l, r) \<Rightarrow> q\<lparr>sp_qsize := sp_qsize q + 1, sp_root := Node l n r\<rparr>))"

fun splay_leftmost :: "'a tree \<Rightarrow> 'a option" where
  "splay_leftmost Leaf = None"
| "splay_leftmost (Node Leaf t tr) = Some t"
| "splay_leftmost (Node l t tr) = splay_leftmost l"

definition splay_head :: "splay \<Rightarrow> nat option" where
  "splay_head q = splay_leftmost (sp_root q)"

text \<open>
  The loop of \<open>deque\<close>: \<open>l\<close> with the children \<open>ll\<close> and \<open>lr\<close> is the left child
  of \<open>t\<close>, whose right child is \<open>tr\<close>. It rotates every second link of the left spine.
\<close>

fun splay_deque_loop :: "'a tree \<Rightarrow> 'a \<Rightarrow> 'a tree \<Rightarrow> 'a \<Rightarrow> 'a tree \<Rightarrow> 'a \<times> 'a tree" where
  "splay_deque_loop Leaf l lr t tr = (l, Node lr t tr)"
| "splay_deque_loop (Node Leaf ll llr) l lr t tr = (ll, Node (Node llr l lr) t tr)"
| "splay_deque_loop (Node (Node lll' lll lllr) ll llr) l lr t tr =
     (case splay_deque_loop lll' lll lllr ll (Node llr l lr) of (x, s) \<Rightarrow> (x, Node s t tr))"

definition splay_deque :: "splay \<Rightarrow> nat option \<times> splay" where
  "splay_deque q =
     (case sp_root q of
        Leaf \<Rightarrow> (None, q)
      | Node Leaf t tr \<Rightarrow> (Some t, q\<lparr>sp_qsize := sp_qsize q - 1, sp_root := tr\<rparr>)
      | Node (Node ll l lr) t tr \<Rightarrow>
          (case splay_deque_loop ll l lr t tr of
             (x, s) \<Rightarrow> (Some x, q\<lparr>sp_qsize := sp_qsize q - 1, sp_root := s\<rparr>)))"

text \<open>
  \<open>cancel\<close> searches by time and number. It puts the successor in the place of an event
  with two children: \<open>splay_successor\<close> unlinks it from the left spine below \<open>q\<close>.
\<close>

fun splay_successor :: "'a tree \<Rightarrow> 'a \<Rightarrow> 'a tree \<Rightarrow> 'a \<times> 'a tree" where
  "splay_successor Leaf q qr = (q, qr)"
| "splay_successor (Node l x r) q qr = (case splay_successor l x r of (s, t) \<Rightarrow> (s, Node t q qr))"

fun splay_replace :: "'a tree \<Rightarrow> 'a tree \<Rightarrow> 'a tree" where
  "splay_replace l Leaf = l"
| "splay_replace Leaf r = r"
| "splay_replace l (Node Leaf p pr) = Node l p pr"
| "splay_replace l (Node (Node ql q qr) p pr) =
     (case splay_successor ql q qr of (s, t) \<Rightarrow> Node l s (Node t p pr))"

fun splay_unlink :: "events \<Rightarrow> nat \<Rightarrow> nat tree \<Rightarrow> nat tree res" where
  "splay_unlink evs e Leaf = Inl Aborted"
| "splay_unlink evs e (Node l a r) =
     (if a = e then Inr (splay_replace l r)
      else if ev_time (evs e) > ev_time (evs a) \<or>
              (ev_time (evs e) = ev_time (evs a) \<and> ev_uid (evs e) > ev_uid (evs a))
      then rbind (splay_unlink evs e r) (\<lambda>r'. Inr (Node l a r'))
      else rbind (splay_unlink evs e l) (\<lambda>l'. Inr (Node l' a r)))"

definition splay_cancel :: "events \<Rightarrow> nat \<Rightarrow> splay \<Rightarrow> (events \<times> splay) res" where
  "splay_cancel evs e q =
     (if ev_uid (evs e) \<le> 0 then Inr (evs, q)
      else
        rbind (splay_unlink evs e (sp_root q))
          (\<lambda>t. Inr (set_uid e (- ev_uid (evs e)) evs, q\<lparr>sp_qsize := sp_qsize q - 1, sp_root := t\<rparr>)))"

fun splay_uid_lookup :: "events \<Rightarrow> int \<Rightarrow> nat tree \<Rightarrow> nat option" where
  "splay_uid_lookup evs u Leaf = None"
| "splay_uid_lookup evs u (Node l a r) =
     (if ev_uid (evs a) = u then Some a
      else
        (case splay_uid_lookup evs u l of
           Some p \<Rightarrow> Some p
         | None \<Rightarrow> splay_uid_lookup evs u r))"

definition splay_lookup :: "events \<Rightarrow> int \<Rightarrow> splay \<Rightarrow> nat option" where
  "splay_lookup evs u q = splay_uid_lookup evs u (sp_root q)"

text \<open>\<open>validate\<close> counts the events below a node; its assertions compare neighbours only.\<close>

definition not_after :: "events \<Rightarrow> nat tree \<Rightarrow> real \<Rightarrow> bool" where
  "not_after evs t time = (case t of Leaf \<Rightarrow> True | Node _ x _ \<Rightarrow> time \<ge> ev_time (evs x))"

definition not_before :: "events \<Rightarrow> nat tree \<Rightarrow> real \<Rightarrow> bool" where
  "not_before evs t time = (case t of Leaf \<Rightarrow> True | Node _ x _ \<Rightarrow> time \<le> ev_time (evs x))"

fun splay_validate :: "events \<Rightarrow> nat tree \<Rightarrow> 32 word res" where
  "splay_validate evs Leaf = Inr 0"
| "splay_validate evs (Node l a r) =
     (if \<not> not_after evs l (ev_time (evs a)) then Inl Aborted
      else if \<not> not_before evs r (ev_time (evs a)) then Inl Aborted
      else
        rbind (splay_validate evs l)
          (\<lambda>n. rbind (splay_validate evs r) (\<lambda>m. Inr (1 + n + m))))"

definition splay_ops :: "splay event_ops" where
  "splay_ops = \<lparr>op_insert = (\<lambda>evs e q. Inr (splay_insert evs e q)), op_cancel = splay_cancel, op_lookup = splay_lookup,
     op_deque = (\<lambda>evs q. Inr (splay_deque q))\<rparr>"

subsection \<open>What the operations do to the sequence of events\<close>

lemma inorder_hang_left: "inorder (hang_left ls t) = inorder (hang_left ls Leaf) @ inorder t"
proof (induction ls arbitrary: t)
  case (Cons p ls)
  obtain l a where "p = (l, a)" by fastforce
  then show ?case
    using Cons.IH [of "Node l a t"] Cons.IH [of "Node l a Leaf"] by (simp add: hang_left_def)
qed (simp add: hang_left_def)

lemma inorder_hang_right: "inorder (hang_right rs t) = inorder t @ inorder (hang_right rs Leaf)"
proof (induction rs arbitrary: t)
  case (Cons p rs)
  obtain a r where "p = (a, r)" by fastforce
  then show ?case
    using Cons.IH [of "Node t a r"] Cons.IH [of "Node Leaf a r"] by (simp add: hang_right_def)
qed (simp add: hang_right_def)

lemma inorder_hang_Cons [simp]:
  "inorder (hang_left ((l, a) # ls) t) = inorder (hang_left ls Leaf) @ inorder l @ a # inorder t"
  "inorder (hang_right ((a, r) # rs) t) = inorder t @ a # inorder r @ inorder (hang_right rs Leaf)"
  using inorder_hang_left [of ls "Node l a t"] inorder_hang_right [of rs "Node t a r"]
  by (simp_all add: hang_left_def hang_right_def)

text \<open>
  The descent divides what remains at the time of the new event, and keeps its order.
\<close>

definition divided :: "('a \<Rightarrow> real) \<Rightarrow> real \<Rightarrow> 'a list \<Rightarrow> 'a list \<Rightarrow> 'a list \<Rightarrow> 'a tree \<times> 'a tree \<Rightarrow> bool" where
  "divided f time xs ls rs p \<longleftrightarrow> (\<exists>as bs. xs = as @ bs \<and> (\<forall>x\<in>set as. f x \<le> time) \<and> (\<forall>x\<in>set bs. time < f x) \<and>
     inorder (fst p) = ls @ as \<and> inorder (snd p) = bs @ rs)"

lemma divided_right:
  assumes "divided f time xs ls (ys @ rs) p" "\<forall>y\<in>set ys. time < f y"
  shows "divided f time (xs @ ys) ls rs p"
proof -
  obtain as bs where "xs = as @ bs" "\<forall>x\<in>set as. f x \<le> time" "\<forall>x\<in>set bs. time < f x"
    "inorder (fst p) = ls @ as" "inorder (snd p) = bs @ ys @ rs"
    using assms(1) by (auto simp: divided_def)
  then show ?thesis using assms(2) unfolding divided_def by (intro exI [of _ as] exI [of _ "bs @ ys"]) auto
qed

lemma divided_left:
  assumes "divided f time xs (ls @ ys) rs p" "\<forall>y\<in>set ys. f y \<le> time"
  shows "divided f time (ys @ xs) ls rs p"
proof -
  obtain as bs where "xs = as @ bs" "\<forall>x\<in>set as. f x \<le> time" "\<forall>x\<in>set bs. time < f x"
    "inorder (fst p) = ls @ ys @ as" "inorder (snd p) = bs @ rs"
    using assms(1) by (auto simp: divided_def)
  then show ?thesis using assms(2) unfolding divided_def by (intro exI [of _ "ys @ as"] exI [of _ bs]) auto
qed

lemma divided_hang:
  "divided f time [] (inorder (hang_left ls Leaf)) (inorder (hang_right rs Leaf)) (hang_left ls Leaf, hang_right rs Leaf)"
  by (simp add: divided_def)

abbreviation upward :: "('a \<Rightarrow> real) \<Rightarrow> 'a list \<Rightarrow> bool" where
  "upward f \<equiv> sorted_wrt (\<lambda>x y. f x \<le> f y)"

lemma upward_after: "upward f (xs @ a # ys) \<Longrightarrow> time < f a \<Longrightarrow> \<forall>y\<in>set (a # ys). time < f y"
  by (force simp: sorted_wrt_append)

lemma upward_before: "upward f (xs @ a # ys) \<Longrightarrow> f a \<le> time \<Longrightarrow> \<forall>y\<in>set (xs @ [a]). f y \<le> time"
  by (force simp: sorted_wrt_append)

lemma splay_split_divides:
  "upward f (inorder t) \<Longrightarrow>
   divided f time (inorder t) (inorder (hang_left ls Leaf)) (inorder (hang_right rs Leaf)) (splay_split f time t ls rs)"
proof (induction f time t ls rs rule: splay_split.induct)
  case (1 f time ls rs)
  then show ?case by (simp add: divided_hang)
next
  case (2 f time la a ra ls rs)
  note srt = 2(5)
  show ?case
  proof (cases "time < f a")
    case less: True
    note after = upward_after [OF srt [simplified] less]
    show ?thesis
    proof (cases la)
      case Leaf
      then show ?thesis
        using after less inorder_hang_right [of rs "Node Leaf a ra"] by (simp add: divided_def)
    next
      case (Node xl x xr)
      have srt': "upward f (inorder xl @ x # inorder xr @ a # inorder ra)" "upward f (inorder xl)" "upward f (inorder la)"
        using srt Node by (simp_all add: sorted_wrt_append)
      show ?thesis
      proof (cases "time < f x")
        case True
        from divided_right [OF _ upward_after [OF srt'(1) True]] 2(1) [OF less Node True srt'(2)]
        show ?thesis using Node less True by simp
      next
        case False
        have "splay_split f time (Node la a ra) ls rs = splay_split f time la ls ((a, ra) # rs)"
          using Node less False by simp
        with divided_right [OF _ after, of "inorder la"] 2(2) [OF less Node False] srt'(3) Node
        show ?thesis by (simp del: splay_split.simps)
      qed
    qed
  next
    case ge: False
    then have "f a \<le> time" by simp
    note upto = upward_before [OF srt [simplified] this]
    show ?thesis
    proof (cases ra)
      case Leaf
      then show ?thesis
        using upto ge inorder_hang_left [of ls "Node la a Leaf"] by (fastforce simp: divided_def)
    next
      case (Node xl x xr)
      have srt': "upward f ((inorder la @ a # inorder xl) @ x # inorder xr)" "upward f (inorder xr)" "upward f (inorder ra)"
        using srt Node by (simp_all add: sorted_wrt_append)
      show ?thesis
      proof (cases "time \<ge> f x")
        case True
        from divided_left [OF _ upward_before [OF srt'(1) True]] 2(3) [OF ge Node True srt'(2)]
        show ?thesis using Node ge True by simp
      next
        case False
        have "splay_split f time (Node la a ra) ls rs = splay_split f time ra ((la, a) # ls) rs"
          using Node ge False by simp
        with divided_left [OF _ upto, of "inorder ra"] 2(4) [OF ge Node False] srt'(3) Node
        show ?thesis by (simp del: splay_split.simps)
      qed
    qed
  qed
qed

lemma place_between:
  "\<forall>x\<in>set as. f x \<le> f e \<Longrightarrow> \<forall>x\<in>set bs. f e < f x \<Longrightarrow> place f e (as @ bs) = as @ e # bs"
  by (induction as) (cases bs; auto)+

lemma splay_insert_ok:
  assumes "upward (\<lambda>p. ev_time (evs p)) (inorder (sp_root q))"
  shows "inorder (sp_root (splay_insert evs e q)) = place (\<lambda>p. ev_time (evs p)) e (inorder (sp_root q)) \<and>
    sp_qsize (splay_insert evs e q) = sp_qsize q + 1"
proof (cases "sp_root q")
  case Leaf
  then show ?thesis by (simp add: splay_insert_def)
next
  case (Node la a ra)
  let ?f = "\<lambda>p. ev_time (evs p)"
  obtain l r where lr: "splay_split ?f (?f e) (sp_root q) [] [] = (l, r)" by fastforce
  from splay_split_divides [OF assms, of "?f e" "[]" "[]"]
  have "divided ?f (?f e) (inorder (sp_root q)) [] [] (l, r)" by (simp only: lr) (simp add: hang_left_def hang_right_def)
  then have ab: "inorder (sp_root q) = inorder l @ inorder r" "\<forall>x\<in>set (inorder l). ?f x \<le> ?f e"
    "\<forall>x\<in>set (inorder r). ?f e < ?f x"
    by (auto simp: divided_def)
  from place_between [OF ab(2,3)]
  have "inorder (Node l e r) = place ?f e (inorder (sp_root q))" by (simp add: ab(1))
  then show ?thesis using lr by (simp add: splay_insert_def Node)
qed

lemma splay_deque_loop_min:
  "splay_deque_loop ll l lr t tr = (x, s) \<Longrightarrow> x # inorder s = inorder ll @ l # inorder lr @ t # inorder tr"
proof (induction ll l lr t tr arbitrary: x s rule: splay_deque_loop.induct)
  case (3 lll' lll lllr ll llr l lr t tr)
  obtain s' where "splay_deque_loop lll' lll lllr ll (Node llr l lr) = (x, s')" "s = Node s' t tr"
    using 3(2) by (auto split: prod.splits)
  then show ?case using arg_cong [OF 3(1) [of x s'], of "\<lambda>zs. zs @ t # inorder tr"] by simp
qed auto

lemma splay_deque_ok:
  "inorder (sp_root q) = x # xs \<Longrightarrow>
   \<exists>q'. splay_deque q = (Some x, q') \<and> inorder (sp_root q') = xs \<and> sp_qsize q' = sp_qsize q - 1"
  by (auto simp: splay_deque_def split: tree.splits prod.splits dest!: splay_deque_loop_min)

lemma splay_leftmost_hd: "splay_leftmost t = (if t = Leaf then None else Some (hd (inorder t)))"
  by (induction t rule: splay_leftmost.induct) (auto simp: hd_append)

lemma splay_successor_min:
  "splay_successor l q r = (s, t) \<Longrightarrow> s # inorder t = inorder l @ q # inorder r"
proof (induction l q r arbitrary: s t rule: splay_successor.induct)
  case (2 l x r q qr)
  obtain t' where t': "splay_successor l x r = (s, t')" "t = Node t' q qr" using 2(2) by (auto split: prod.splits)
  show ?case using arg_cong [OF 2(1) [OF t'(1)], of "\<lambda>zs. zs @ q # inorder qr"] t'(2) by simp
qed simp

lemma inorder_replace [simp]: "inorder (splay_replace l r) = inorder l @ inorder r"
proof (induction l r rule: splay_replace.induct)
  case (4 l1 a l2 ql q qr p pr)
  obtain s t where st: "splay_successor ql q qr = (s, t)" by fastforce
  show ?case using arg_cong [OF splay_successor_min [OF st], of "\<lambda>zs. zs @ p # inorder pr"] by (simp add: st)
qed auto

lemma remove1_at: "a \<notin> set xs \<Longrightarrow> remove1 a (xs @ a # ys) = xs @ ys"
  by (induction xs) auto

lemma splay_unlink_ok:
  "ordered evs (inorder t) \<Longrightarrow> distinct (inorder t) \<Longrightarrow> e \<in> set (inorder t) \<Longrightarrow>
   \<exists>t'. splay_unlink evs e t = Inr t' \<and> inorder t' = remove1 e (inorder t)"
proof (induction t)
  case Leaf
  then show ?case by simp
next
  case (Node l a r)
  have o: "ordered evs (inorder l)" "ordered evs (inorder r)"
    "\<forall>x\<in>set (inorder l). before (stamp evs x) (stamp evs a)" "\<forall>x\<in>set (inorder r). before (stamp evs a) (stamp evs x)"
    using Node.prems(1) by (auto simp: ordered_def sorted_wrt_append)
  consider "e = a" | "e \<in> set (inorder r)" "e \<noteq> a" "e \<notin> set (inorder l)" | "e \<in> set (inorder l)" "e \<noteq> a"
    using Node.prems(2,3) by auto
  then show ?case
  proof cases
    case 1
    then show ?thesis using Node.prems(2) by (simp add: remove1_at)
  next
    case 2
    then have "before (stamp evs a) (stamp evs e)" using o(4) by blast
    then show ?thesis
      using 2 Node.IH(2) [OF o(2)] Node.prems(2) by (auto simp: before_def stamp_def remove1_append)
  next
    case 3
    then have "before (stamp evs e) (stamp evs a)" using o(3) by blast
    then show ?thesis
      using 3 Node.IH(1) [OF o(1)] Node.prems(2) by (auto simp: before_def stamp_def remove1_append)
  qed
qed

lemma find_app: "find P (xs @ ys) = (case find P xs of Some p \<Rightarrow> Some p | None \<Rightarrow> find P ys)"
  by (induction xs) auto

lemma splay_uid_lookup_find: "splay_uid_lookup evs u t = find (\<lambda>p. ev_uid (evs p) = u) (preorder t)"
  by (induction t) (auto simp: find_app split: option.splits)

subsection \<open>The splay tree keeps the contract\<close>

definition splay_rep :: "events \<Rightarrow> splay \<Rightarrow> nat list \<Rightarrow> bool" where
  "splay_rep evs q xs \<longleftrightarrow> inorder (sp_root q) = xs \<and> distinct xs \<and> upward (\<lambda>p. ev_time (evs p)) xs \<and>
     sp_qsize q = of_nat (length xs)"

lemma splay_rep_insert:
  assumes "splay_rep evs q xs" "e \<notin> set xs"
  shows "splay_rep evs (splay_insert evs e q) (place (\<lambda>p. ev_time (evs p)) e xs)"
  using assms splay_insert_ok [of evs q e] sorted_place_le [of "\<lambda>p. ev_time (evs p)" xs e]
  by (auto simp: splay_rep_def)

lemma splay_rep_deque:
  assumes "splay_rep evs q (x # xs)"
  shows "\<exists>q'. splay_deque q = (Some x, q') \<and> splay_rep evs q' xs"
proof -
  obtain q' where "splay_deque q = (Some x, q')" "inorder (sp_root q') = xs" "sp_qsize q' = sp_qsize q - 1"
    using splay_deque_ok assms by (fastforce simp: splay_rep_def)
  then show ?thesis using assms by (auto simp: splay_rep_def)
qed

lemma splay_rep_cancel:
  assumes "splay_rep evs q xs" "ordered evs xs" "e \<in> set xs" "0 < ev_uid (evs e)"
  shows "\<exists>q'. splay_cancel evs e q = Inr (set_uid e (- ev_uid (evs e)) evs, q') \<and> splay_rep evs q' (remove1 e xs)"
proof -
  obtain t where t: "splay_unlink evs e (sp_root q) = Inr t" "inorder t = remove1 e xs"
    using splay_unlink_ok [of evs "sp_root q" e] assms(1-3) by (auto simp: splay_rep_def)
  obtain n where n: "length xs = Suc n" using assms(3) by (cases xs) auto
  have "splay_rep evs (q\<lparr>sp_qsize := sp_qsize q - 1, sp_root := t\<rparr>) (remove1 e xs)"
    using assms(1,3) t(2) n by (auto simp: splay_rep_def length_remove1 intro: sorted_wrt_remove1)
  then show ?thesis using t(1) assms(4) by (simp add: splay_cancel_def)
qed

lemma splay_rep_lookup:
  assumes "splay_rep evs q xs" "inj_on (\<lambda>p. ev_uid (evs p)) (set xs)"
  shows "splay_lookup evs u q = find (\<lambda>p. ev_uid (evs p) = u) xs"
proof -
  have "set (preorder (sp_root q)) = set xs" using assms(1) by (auto simp: splay_rep_def)
  from find_unique [OF this] assms(2) this show ?thesis by (simp add: splay_lookup_def splay_uid_lookup_find)
qed

interpretation ssq: total_queue splay_ops splay_rep "\<lambda>_ _. True"
proof unfold_locales
  fix evs evs' :: events and q xs assume "splay_rep evs q xs" "\<And>p. p \<in> set xs \<Longrightarrow> ev_time (evs' p) = ev_time (evs p)"
  then show "splay_rep evs' q xs" unfolding splay_rep_def by (auto intro: sorted_wrt_mono_rel)
next
  fix evs q assume "splay_rep evs q []"
  then show "op_deque splay_ops evs q = Inr (None, q)" by (simp add: splay_ops_def splay_deque_def splay_rep_def)
next
  fix evs q x xs assume "splay_rep evs q (x # xs)"
  from splay_rep_deque [OF this] show "\<exists>q'. op_deque splay_ops evs q = Inr (Some x, q') \<and> splay_rep evs q' xs \<and>
      (\<forall>n::nat. True \<longrightarrow> True)"
    by (auto simp: splay_ops_def)
next
  fix evs q xs e assume "splay_rep evs q xs" "ordered evs xs" "e \<in> set xs" "0 < ev_uid (evs e)"
  from splay_rep_cancel [OF this] show "\<exists>q'. op_cancel splay_ops evs e q = Inr (set_uid e (- ev_uid (evs e)) evs, q') \<and>
      splay_rep evs q' (remove1 e xs) \<and> (\<forall>n::nat. True \<longrightarrow> True)"
    by (simp add: splay_ops_def)
next
  fix evs q xs e assume "splay_rep evs q xs" "e \<notin> set xs"
  from splay_rep_insert [OF this] show "\<exists>q'. op_insert splay_ops evs e q = Inr q' \<and>
      splay_rep evs q' (place (\<lambda>p. ev_time (evs p)) e xs) \<and> True"
    by (simp add: splay_ops_def)
qed (simp_all add: splay_ops_def splay_cancel_def splay_rep_lookup, simp add: splay_rep_def)

lemma splay_rep_new: "splay_rep evs new_splay []"
  by (simp add: splay_rep_def new_splay_def)

lemma validate_counts:
  "upward (\<lambda>p. ev_time (evs p)) (inorder t) \<Longrightarrow> splay_validate evs t = Inr (of_nat (length (inorder t)))"
proof (induction t)
  case (Node l a r)
  then have "upward (\<lambda>p. ev_time (evs p)) (inorder l)" "upward (\<lambda>p. ev_time (evs p)) (inorder r)"
    "not_after evs l (ev_time (evs a))" "not_before evs r (ev_time (evs a))"
    by (auto simp: sorted_wrt_append not_after_def not_before_def split: tree.splits)
  then show ?case using Node.IH by (simp add: add.assoc)
qed simp

text \<open>
  C12. The splay scheduler runs as the list scheduler does. Whatever a program schedules and
  cancels in a new \<open>ListScheduler\<close> and however long it runs there, a new
  \<open>SplayScheduler\<close> dispatches the same events at the same times in the same order and ends
  with the same clock, counter and pending events: no rotation loses or reorders an event, the
  search of \<open>cancel\<close> by time and number finds what it is to remove and never calls \<open>abort\<close>.
  Its \<open>validate\<close> passes its assertions then, and counts what is pending and \<open>qsize_\<close>.
\<close>

theorem splay_runs_like_list:
  assumes "rfold (perform list_ops) acts (new_sched []) = Inr l"
    and "run_steps n list_ops hnd (l, st, []) = Inr (l', st', lg)" and "0 \<le> sc_uid l'"
  shows "\<exists>s s'. rfold (perform splay_ops) acts (new_sched new_splay) = Inr s \<and>
    run_steps n splay_ops hnd (s, st, []) = Inr (s', st', lg) \<and> sc_clock s' = sc_clock l' \<and>
    sc_halted s' = sc_halted l' \<and> sc_uid s' = sc_uid l' \<and> sc_events s' = sc_events l' \<and>
    inorder (sp_root (sc_queue s')) = sc_queue l' \<and>
    splay_validate (sc_events s') (sp_root (sc_queue s')) = Inr (sp_qsize (sc_queue s')) \<and>
    sp_qsize (sc_queue s') = of_nat (length (sc_queue l'))"
proof -
  have u: "0 \<le> sc_uid l" "sc_uid l \<le> sc_uid l'" using run_uid [OF assms(2,3)] by auto
  have "ssq.agree (sc_uid l') (new_sched new_splay) (new_sched [])"
    using splay_rep_new by (simp add: ssq.agree_def new_sched_def numbered_def new_event_def)
  from ssq.performs_agree [OF this assms(1) u ssq.always(1)] obtain s where
    s: "rfold (perform splay_ops) acts (new_sched new_splay) = Inr s" "ssq.agree (sc_uid l') s l" by blast
  from ssq.run_agree [OF s(2) assms(2,3) order_refl ssq.always(2)] obtain s' where
    s': "run_steps n splay_ops hnd (s, st, []) = Inr (s', st', lg)" "ssq.agree (sc_uid l') s' l'" by blast
  then have r: "splay_rep (sc_events l') (sc_queue s') (sc_queue l')" by (simp add: ssq.agree_def)
  then have "splay_validate (sc_events l') (sp_root (sc_queue s')) = Inr (sp_qsize (sc_queue s'))"
    using validate_counts [of "sc_events l'" "sp_root (sc_queue s')"] by (simp add: splay_rep_def)
  then show ?thesis using s s' r by (auto simp: ssq.agree_def splay_rep_def)
qed

theorem splay_runs_like_list_witness:
  "\<exists>s s'. rfold (perform splay_ops) demo_acts (new_sched new_splay) = Inr s \<and>
    run_steps 10 splay_ops demo_handlers (s, 0, []) = Inr (s', 1, [(1/2, 2, 2), (1, 1, 1), (1, 4, 4), (1, 5, 2)]) \<and>
    sp_root (sc_queue s') = Leaf"
proof -
  obtain l' where run: "run_steps 10 list_ops demo_handlers (demo_sched, 0, []) =
      Inr (l', 1, [(1/2, 2, 2), (1, 1, 1), (1, 4, 4), (1, 5, 2)])" and u: "sc_uid l' = 6" "sc_queue l' = []"
    using demo_run by blast
  show ?thesis using splay_runs_like_list [OF demo_boot run] u by fastforce
qed

text \<open>\<open>head\<close> is the event that \<open>deque\<close> removes next, and changes nothing.\<close>

theorem splay_head_is_next: "splay_head q = fst (splay_deque q)"
proof (cases "inorder (sp_root q)")
  case Nil
  then show ?thesis by (simp add: splay_head_def splay_leftmost_hd splay_deque_def)
next
  case (Cons x xs)
  then show ?thesis using splay_deque_ok [OF Cons] by (auto simp: splay_head_def splay_leftmost_hd)
qed

end
