(* ===== verification/RealTime.thy ===== *)
theory RealTime
  imports CalendarOrder SplayQueue
begin

section \<open>The real-time scheduler\<close>

text \<open>
  \<open>RealTimeScheduler\<close> of common/scheduler.cc: a \<open>CalendarScheduler\<close> whose \<open>run\<close> keeps
  to the clock of the machine. Two things of its environment are parameters: \<open>gtod k\<close> is what
  the call number \<open>k\<close> of \<open>gettimeofday\<close> returns, and \<open>tcl k\<close> are the calls that the callbacks
  run by the call number \<open>k\<close> of \<open>Tcl_DoOneEvent\<close> make to the scheduler, as for a handler.
  \<open>Tcl_WaitForEvent\<close> only lets time pass. The loops of \<open>run\<close> are a machine whose program
  counter says at which of the two \<open>while\<close> it is; \<open>rt_steps n\<close> makes \<open>n\<close> steps.
\<close>

subsection \<open>State and operations\<close>

text \<open>\<open>rt_reads\<close> and \<open>rt_polls\<close> count the calls, \<open>rt_warned\<close> collects the warnings.\<close>

record 'q real_time =
  rt_sched :: "'q sched"
  rt_start :: real
  rt_slop :: real
  rt_reads :: nat
  rt_polls :: nat
  rt_warned :: "(real \<times> real) list"

type_synonym 'q head_op = "events \<Rightarrow> 'q \<Rightarrow> (nat option \<times> 'q) res"

type_synonym 's tcl_events = "nat \<Rightarrow> real \<Rightarrow> 's \<Rightarrow> 's \<times> action list"

datatype rt_pc = Rt_While | Rt_Old "nat option" | Rt_Return

type_synonym late_log = "(real \<times> dispatched) list"

definition new_real_time :: "real \<Rightarrow> 'q \<Rightarrow> 'q real_time" where
  "new_real_time slop q =
     \<lparr>rt_sched = new_sched q, rt_start = 0, rt_slop = slop, rt_reads = 0, rt_polls = 0, rt_warned = []\<rparr>"

definition tod :: "(nat \<Rightarrow> real) \<Rightarrow> 'q real_time \<Rightarrow> real \<times> 'q real_time" where
  "tod gtod r = (gtod (rt_reads r) - rt_start r, r\<lparr>rt_reads := Suc (rt_reads r)\<rparr>)"

definition rt_sync :: "(nat \<Rightarrow> real) \<Rightarrow> 'q real_time \<Rightarrow> 'q real_time" where
  "rt_sync gtod r = (case tod gtod r of (t, r1) \<Rightarrow> r1\<lparr>rt_sched := (rt_sched r1)\<lparr>sc_clock := t\<rparr>\<rparr>)"

definition rt_reset :: "(nat \<Rightarrow> real) \<Rightarrow> 'q real_time \<Rightarrow> 'q real_time" where
  "rt_reset gtod r =
     (case tod gtod (r\<lparr>rt_sched := (rt_sched r)\<lparr>sc_clock := 0\<rparr>\<rparr>) of (t, r1) \<Rightarrow> r1\<lparr>rt_start := t\<rparr>)"

definition rt_head :: "'q head_op \<Rightarrow> 'q real_time \<Rightarrow> (nat option \<times> 'q real_time) res" where
  "rt_head hd_op r =
     rbind (hd_op (sc_events (rt_sched r)) (sc_queue (rt_sched r)))
       (\<lambda>(p, q). Inr (p, r\<lparr>rt_sched := (rt_sched r)\<lparr>sc_queue := q\<rparr>\<rparr>))"

definition rt_warn :: "nat option \<Rightarrow> 'q real_time \<Rightarrow> 'q real_time" where
  "rt_warn p r =
     (case p of
        Some e \<Rightarrow>
          if sc_clock (rt_sched r) - ev_time (sc_events (rt_sched r) e) > rt_slop r
          then r\<lparr>rt_warned := rt_warned r @ [(sc_clock (rt_sched r), ev_time (sc_events (rt_sched r) e))]\<rparr>
          else r
      | None \<Rightarrow> r)"

text \<open>The event that is due, the rest of the outer loop, and one step of \<open>run\<close>.\<close>

definition rt_overdue :: "nat option \<Rightarrow> 'q real_time \<Rightarrow> bool" where
  "rt_overdue p r = (case p of Some e \<Rightarrow> ev_time (sc_events (rt_sched r) e) \<le> sc_clock (rt_sched r) | None \<Rightarrow> False)"

definition rt_wait :: "(nat \<Rightarrow> real) \<Rightarrow> nat option \<Rightarrow> 'q real_time \<Rightarrow> 'q real_time" where
  "rt_wait gtod p r =
     (case p of
        None \<Rightarrow> rt_sync gtod r
      | Some e \<Rightarrow>
          if ev_time (sc_events (rt_sched r) e) - sc_clock (rt_sched r) > 1 / 1000 then rt_sync gtod r else r)"

definition rt_poll :: "'q event_ops \<Rightarrow> 's tcl_events \<Rightarrow> 'q real_time \<times> 's \<Rightarrow> ('q real_time \<times> 's) res" where
  "rt_poll ops tcl = (\<lambda>(r, st).
     case tcl (rt_polls r) (sc_clock (rt_sched r)) st of
       (st', acts) \<Rightarrow>
         rbind (rfold (perform ops) acts (rt_sched r))
           (\<lambda>s. Inr (r\<lparr>rt_sched := s, rt_polls := Suc (rt_polls r)\<rparr>, st')))"

definition rt_dispatch :: "'q event_ops \<Rightarrow> 's handlers \<Rightarrow> 'q real_time \<times> 's \<times> late_log \<Rightarrow>
    ('q real_time \<times> 's \<times> late_log) res" where
  "rt_dispatch ops hnd = (\<lambda>(r, st, lg).
     let s = rt_sched r in
     rbind (op_deque ops (sc_events s) (sc_queue s)) (\<lambda>(p, q).
       case p of
         None \<Rightarrow> Inl Null_Deref
       | Some e \<Rightarrow>
           rbind (dispatch ops hnd e (sc_clock s) (s\<lparr>sc_queue := q\<rparr>, st))
             (\<lambda>(s', st'). Inr (r\<lparr>rt_sched := s'\<rparr>, st', lg @ [(sc_clock s, stamp (sc_events s) e)]))))"

type_synonym ('q, 's) rt_machine = "rt_pc \<times> 'q real_time \<times> 's \<times> late_log"

fun rt_step :: "'q event_ops \<Rightarrow> 'q head_op \<Rightarrow> (nat \<Rightarrow> real) \<Rightarrow> 's tcl_events \<Rightarrow> 's handlers \<Rightarrow>
    ('q, 's) rt_machine \<Rightarrow> ('q, 's) rt_machine res" where
  "rt_step ops hd_op gtod tcl hnd (Rt_While, r, st, lg) =
     (if sc_halted (rt_sched r) then Inr (Rt_Return, r, st, lg)
      else rbind (rt_head hd_op (rt_sync gtod r)) (\<lambda>(p, r1). Inr (Rt_Old p, rt_warn p r1, st, lg)))"
| "rt_step ops hd_op gtod tcl hnd (Rt_Old p, r, st, lg) =
     (if rt_overdue p r then
        rbind (rt_dispatch ops hnd (r, st, lg)) (\<lambda>(r1, st1, lg1).
          if sc_halted (rt_sched r1) then Inr (Rt_Return, r1, st1, lg1)
          else rbind (rt_head hd_op r1) (\<lambda>(p1, r2). Inr (Rt_Old p1, rt_sync gtod r2, st1, lg1)))
      else rbind (rt_poll ops tcl (rt_wait gtod p r, st)) (\<lambda>(r1, st1). Inr (Rt_While, r1, st1, lg)))"
| "rt_step ops hd_op gtod tcl hnd (Rt_Return, r, st, lg) = Inr (Rt_Return, r, st, lg)"

fun rt_steps :: "nat \<Rightarrow> 'q event_ops \<Rightarrow> 'q head_op \<Rightarrow> (nat \<Rightarrow> real) \<Rightarrow> 's tcl_events \<Rightarrow> 's handlers \<Rightarrow>
    ('q, 's) rt_machine \<Rightarrow> ('q, 's) rt_machine res" where
  "rt_steps 0 ops hd_op gtod tcl hnd m = Inr m"
| "rt_steps (Suc n) ops hd_op gtod tcl hnd m = rbind (rt_step ops hd_op gtod tcl hnd m) (rt_steps n ops hd_op gtod tcl hnd)"

text \<open>The command \<open>run\<close>, and \<open>resume\<close>.\<close>

definition rt_cmd_run :: "nat \<Rightarrow> 'q event_ops \<Rightarrow> 'q head_op \<Rightarrow> (nat \<Rightarrow> real) \<Rightarrow> 's tcl_events \<Rightarrow> 's handlers \<Rightarrow>
    'q real_time \<times> 's \<Rightarrow> ('q, 's) rt_machine res" where
  "rt_cmd_run n ops hd_op gtod tcl hnd = (\<lambda>(r, st). rt_steps n ops hd_op gtod tcl hnd (Rt_While, rt_reset gtod r, st, []))"

definition rt_cmd_resume :: "nat \<Rightarrow> 'q event_ops \<Rightarrow> 'q head_op \<Rightarrow> (nat \<Rightarrow> real) \<Rightarrow> 's tcl_events \<Rightarrow> 's handlers \<Rightarrow>
    'q real_time \<times> 's \<Rightarrow> ('q, 's) rt_machine res" where
  "rt_cmd_resume n ops hd_op gtod tcl hnd = (\<lambda>(r, st). rt_steps n ops hd_op gtod tcl hnd
     (Rt_While, r\<lparr>rt_sched := (rt_sched r)\<lparr>sc_halted := False\<rparr>\<rparr>, st, []))"

subsection \<open>A queue that shows its first event\<close>

locale peeking_queue = event_queue ops rep room okt
  for ops :: "'q event_ops" and rep :: "events \<Rightarrow> 'q \<Rightarrow> nat list \<Rightarrow> bool"
    and room :: "nat \<Rightarrow> 'q \<Rightarrow> bool" and okt :: "real \<Rightarrow> bool" +
  fixes hd_op :: "'q head_op"
  assumes head_first: "rep evs q xs \<Longrightarrow>
    \<exists>q'. hd_op evs q = Inr (case xs of [] \<Rightarrow> None | x # _ \<Rightarrow> Some x, q') \<and> rep evs q' xs \<and> (\<forall>n. room n q \<longrightarrow> room n q')"

definition list_head :: "nat list head_op" where
  "list_head evs q = Inr (case q of [] \<Rightarrow> None | e # _ \<Rightarrow> Some e, q)"

interpretation lpq: peeking_queue list_ops list_rep "\<lambda>_ _. True" "\<lambda>_. True" list_head
  by unfold_locales (auto simp: list_rep_def list_head_def)

interpretation cpq: peeking_queue cal_ops cal_rep "\<lambda>_ _. True" "\<lambda>t. 0 \<le> t" cal_head
proof unfold_locales
  fix evs q xs assume "cal_rep evs q xs"
  then show "\<exists>q'. cal_head evs q = Inr (case xs of [] \<Rightarrow> None | x # _ \<Rightarrow> Some x, q') \<and> cal_rep evs q' xs \<and>
      (\<forall>n::nat. True \<longrightarrow> True)"
    using head_nil head_cons by (cases xs) fastforce+
qed

interpretation spq: peeking_queue splay_ops splay_rep "\<lambda>_ _. True" "\<lambda>_. True" "\<lambda>evs q. Inr (splay_head q, q)"
  by unfold_locales (auto simp: splay_rep_def splay_head_def splay_leftmost_hd split: list.splits)

lemma heap_head_first: "heap_rep evs h xs \<Longrightarrow> heap_min h = (case xs of [] \<Rightarrow> None | x # _ \<Rightarrow> Some x)"
proof (cases xs)
  case (Cons x ys)
  assume "heap_rep evs h xs"
  with heap_deque [of evs h x ys] Cons have "fst (heap_extract_min h) = Some x" by auto
  then show ?thesis using Cons by (auto simp: heap_extract_min_def heap_min_def split: if_splits)
qed (use heap_rep_empty in \<open>fastforce simp: heap_min_def\<close>)

interpretation hpq: peeking_queue heap_ops heap_rep heap_room "\<lambda>_. True" "\<lambda>evs h. Inr (heap_min h, h)"
  by unfold_locales (simp add: heap_head_first)

subsection \<open>Every queue runs as the list does\<close>

lemmas rt_parts = rt_sync_def tod_def rt_head_def rt_warn_def rt_overdue_def rt_wait_def

lemma rt_wait_cases: "rt_wait gtod p r = r \<or> rt_wait gtod p r = rt_sync gtod r"
  by (simp add: rt_wait_def split: option.split)

lemma rt_sync_fields [simp]:
  "rt_start (rt_sync gtod r) = rt_start r" "rt_reads (rt_sync gtod r) = Suc (rt_reads r)"
  "sc_uid (rt_sched (rt_sync gtod r)) = sc_uid (rt_sched r)" "sc_queue (rt_sched (rt_sync gtod r)) = sc_queue (rt_sched r)"
  "sc_events (rt_sched (rt_sync gtod r)) = sc_events (rt_sched r)"
  "sc_clock (rt_sched (rt_sync gtod r)) = gtod (rt_reads r) - rt_start r"
  by (simp_all add: rt_sync_def tod_def)

lemma rt_warn_fields [simp]:
  "rt_start (rt_warn p r) = rt_start r" "rt_reads (rt_warn p r) = rt_reads r" "rt_sched (rt_warn p r) = rt_sched r"
  by (simp_all add: rt_warn_def split: option.split)

lemma rt_head_fields:
  "rt_head hd_op r = Inr (p, r') \<Longrightarrow> rt_start r' = rt_start r \<and> rt_reads r' = rt_reads r \<and> sc_uid (rt_sched r') = sc_uid (rt_sched r)"
  by (auto simp: rt_head_def rbind_eq_Inr)

lemma rt_dispatch_fields:
  "rt_dispatch ops hnd (r, st, lg) = Inr (r', st', lg') \<Longrightarrow> 0 \<le> sc_uid (rt_sched r') \<Longrightarrow>
   rt_start r' = rt_start r \<and> rt_reads r' = rt_reads r \<and> 0 \<le> sc_uid (rt_sched r) \<and> sc_uid (rt_sched r) \<le> sc_uid (rt_sched r')"
  by (fastforce simp: rt_dispatch_def Let_def rbind_eq_Inr split: option.splits dest: dispatch_uid)

lemma rt_poll_fields:
  "rt_poll ops tcl (r, st) = Inr (r', st') \<Longrightarrow> 0 \<le> sc_uid (rt_sched r') \<Longrightarrow>
   rt_start r' = rt_start r \<and> rt_reads r' = rt_reads r \<and> 0 \<le> sc_uid (rt_sched r) \<and> sc_uid (rt_sched r) \<le> sc_uid (rt_sched r')"
  by (auto simp: rt_poll_def rbind_eq_Inr split: prod.splits dest: performs_uid)

lemma rt_step_fields:
  assumes "rt_step ops hd_op gtod tcl hnd (pc, r, st, lg) = Inr (pc', r', st', lg')" "0 \<le> sc_uid (rt_sched r')"
  shows "rt_start r' = rt_start r \<and> rt_reads r \<le> rt_reads r' \<and> 0 \<le> sc_uid (rt_sched r) \<and>
    sc_uid (rt_sched r) \<le> sc_uid (rt_sched r')"
proof (cases pc)
  case Rt_While
  then show ?thesis using assms by (auto simp: rbind_eq_Inr split: if_splits dest!: rt_head_fields)
next
  case (Rt_Old p)
  show ?thesis
  proof (cases "rt_overdue p r")
    case True
    then obtain r1 st1 lg1 where r1: "rt_dispatch ops hnd (r, st, lg) = Inr (r1, st1, lg1)"
      "rt_start r' = rt_start r1" "rt_reads r1 \<le> rt_reads r'" "sc_uid (rt_sched r') = sc_uid (rt_sched r1)"
      using assms(1) Rt_Old by (auto simp: rbind_eq_Inr split: if_splits dest!: rt_head_fields)
    then show ?thesis using rt_dispatch_fields [OF r1(1)] assms(2) by simp
  next
    case False
    then obtain st1 where "rt_poll ops tcl (rt_wait gtod p r, st) = Inr (r', st1)"
      using assms(1) Rt_Old by (auto simp: rbind_eq_Inr)
    from rt_poll_fields [OF this assms(2)] show ?thesis using rt_wait_cases [of gtod p r] by auto
  qed
qed (use assms in auto)

lemma rt_steps_fields:
  "rt_steps n ops hd_op gtod tcl hnd (pc, r, st, lg) = Inr (pc', r', st', lg') \<Longrightarrow> 0 \<le> sc_uid (rt_sched r') \<Longrightarrow>
   rt_start r' = rt_start r \<and> rt_reads r \<le> rt_reads r' \<and> 0 \<le> sc_uid (rt_sched r) \<and> sc_uid (rt_sched r) \<le> sc_uid (rt_sched r')"
proof (induction n arbitrary: pc r st lg)
  case (Suc n)
  then obtain pc1 r1 st1 lg1 where m1: "rt_step ops hd_op gtod tcl hnd (pc, r, st, lg) = Inr (pc1, r1, st1, lg1)"
    "rt_steps n ops hd_op gtod tcl hnd (pc1, r1, st1, lg1) = Inr (pc', r', st', lg')"
    by (auto simp: rbind_eq_Inr)
  from Suc.IH [OF m1(2) Suc.prems(2)] rt_step_fields [OF m1(1)] show ?case by auto
qed simp

text \<open>Callbacks of Tcl that never schedule with a negative delay; readings that are times.\<close>

definition forward_tcl :: "'s tcl_events \<Rightarrow> bool" where
  "forward_tcl tcl \<longleftrightarrow> (\<forall>k c st h e d. Do_Schedule h e d \<in> set (snd (tcl k c st)) \<longrightarrow> 0 \<le> d)"

context peeking_queue
begin

definition polite :: "'s tcl_events \<Rightarrow> bool" where
  "polite tcl \<longleftrightarrow> forward_tcl tcl \<or> (\<forall>t. okt t)"

definition timed :: "(nat \<Rightarrow> real) \<Rightarrow> nat list real_time \<Rightarrow> bool" where
  "timed gtod l \<longleftrightarrow> (\<forall>k\<ge>rt_reads l. okt (gtod k - rt_start l))"

definition rt_agree :: "int \<Rightarrow> 'q real_time \<Rightarrow> nat list real_time \<Rightarrow> bool" where
  "rt_agree K r l \<longleftrightarrow> agree K (rt_sched r) (rt_sched l) \<and> rt_start r = rt_start l \<and> rt_slop r = rt_slop l \<and>
     rt_reads r = rt_reads l \<and> rt_polls r = rt_polls l \<and> rt_warned r = rt_warned l"

lemma rt_agree_sync: "rt_agree K r l \<Longrightarrow> timed gtod l \<Longrightarrow> rt_agree K (rt_sync gtod r) (rt_sync gtod l)"
  by (auto simp: rt_agree_def agree_def timed_def rt_sync_def tod_def)

lemma timed_sync: "timed gtod l \<Longrightarrow> timed gtod (rt_sync gtod l)"
  by (simp add: timed_def)

lemma rt_agree_head:
  assumes "rt_agree K r l"
  obtains r' where "rt_head hd_op r = Inr (case sc_queue (rt_sched l) of [] \<Rightarrow> None | e # _ \<Rightarrow> Some e, r')" "rt_agree K r' l"
proof -
  have ag: "agree K (rt_sched r) (rt_sched l)" using assms by (simp add: rt_agree_def)
  then have "rep (sc_events (rt_sched l)) (sc_queue (rt_sched r)) (sc_queue (rt_sched l))" by (simp add: agree_def)
  from head_first [OF this] obtain q where q:
    "hd_op (sc_events (rt_sched l)) (sc_queue (rt_sched r)) =
      Inr (case sc_queue (rt_sched l) of [] \<Rightarrow> None | e # _ \<Rightarrow> Some e, q)"
    "rep (sc_events (rt_sched l)) q (sc_queue (rt_sched l))" "\<forall>n. room n (sc_queue (rt_sched r)) \<longrightarrow> room n q"
    by blast
  have "rt_agree K (r\<lparr>rt_sched := (rt_sched r)\<lparr>sc_queue := q\<rparr>\<rparr>) l"
    using assms q(2,3) by (simp add: rt_agree_def agree_def)
  moreover have "sc_events (rt_sched r) = sc_events (rt_sched l)" using ag by (simp add: agree_def)
  ultimately show thesis using that q(1) by (simp add: rt_head_def)
qed

lemma rt_agree_tests:
  assumes "rt_agree K r l"
  shows "rt_overdue p r = rt_overdue p l" "rt_agree K (rt_warn p r) (rt_warn p l)"
    "timed gtod l \<Longrightarrow> rt_agree K (rt_wait gtod p r) (rt_wait gtod p l)"
  using assms rt_agree_sync [OF assms]
  by (auto simp: rt_agree_def agree_def rt_overdue_def rt_warn_def rt_wait_def split: option.splits)

lemma rt_agree_poll:
  assumes "rt_agree K r l" "rt_poll list_ops tcl (l, st) = Inr (l', st')" "0 \<le> sc_uid (rt_sched l')" "sc_uid (rt_sched l') \<le> K"
    and "polite tcl"
  shows "\<exists>r'. rt_poll ops tcl (r, st) = Inr (r', st') \<and> rt_agree K r' l'"
proof -
  have ag: "agree K (rt_sched r) (rt_sched l)" and eq: "rt_polls r = rt_polls l" "sc_clock (rt_sched r) = sc_clock (rt_sched l)"
    using assms(1) by (simp_all add: rt_agree_def agree_def)
  obtain st2 acts where t: "tcl (rt_polls l) (sc_clock (rt_sched l)) st = (st2, acts)" by fastforce
  then obtain s where s: "rfold (perform list_ops) acts (rt_sched l) = Inr s"
    "l' = l\<lparr>rt_sched := s, rt_polls := Suc (rt_polls l)\<rparr>" "st' = st2"
    using assms(2) by (auto simp: rt_poll_def rbind_eq_Inr)
  have "okt (sc_clock (rt_sched l))" using ag by (simp add: agree_def)
  then have "on_time acts (sc_clock (rt_sched l))"
    using assms(5) t unfolding polite_def forward_tcl_def on_time_def by (metis okt_up le_add_same_cancel1 snd_conv)
  from performs_agree [OF ag s(1) _ _ this] assms(3,4) s(2) obtain s' where
    "rfold (perform ops) acts (rt_sched r) = Inr s'" "agree K s' s" by auto
  then show ?thesis using assms(1) t eq s(2,3) by (simp add: rt_poll_def rt_agree_def)
qed

lemma rt_agree_dispatch:
  assumes "rt_agree K r l" "rt_dispatch list_ops hnd (l, st, lg) = Inr (l', st', lg')" "0 \<le> sc_uid (rt_sched l')"
    and "sc_uid (rt_sched l') \<le> K" "mannered hnd"
  shows "\<exists>r'. rt_dispatch ops hnd (r, st, lg) = Inr (r', st', lg') \<and> rt_agree K r' l'"
proof -
  have ag: "agree K (rt_sched r) (rt_sched l)" using assms(1) by (simp add: rt_agree_def)
  then have eq: "sc_events (rt_sched r) = sc_events (rt_sched l)" "sc_clock (rt_sched r) = sc_clock (rt_sched l)"
    by (simp_all add: agree_def)
  obtain e ys s st2 where l: "sc_queue (rt_sched l) = e # ys"
    "dispatch list_ops hnd e (sc_clock (rt_sched l)) (rt_sched l\<lparr>sc_queue := ys\<rparr>, st) = Inr (s, st2)"
    "l' = l\<lparr>rt_sched := s\<rparr>" "st' = st2" "lg' = lg @ [(sc_clock (rt_sched l), stamp (sc_events (rt_sched l)) e)]"
    using assms(2)
    by (cases "sc_queue (rt_sched l)") (auto simp: rt_dispatch_def Let_def list_ops_def list_deque_def rbind_eq_Inr)
  have "rep (sc_events (rt_sched l)) (sc_queue (rt_sched r)) (e # ys)" using ag l(1) by (simp add: agree_def)
  from deque_cons [OF this] obtain q where q: "op_deque ops (sc_events (rt_sched l)) (sc_queue (rt_sched r)) = Inr (Some e, q)"
    by blast
  from dispatch_agree [OF ag l(1) q l(2) _ _ assms(5)] l(3) assms(3,4) obtain s' where
    "dispatch ops hnd e (sc_clock (rt_sched l)) (rt_sched r\<lparr>sc_queue := q\<rparr>, st) = Inr (s', st2)" "agree K s' s" by auto
  then show ?thesis using q l(3-5) eq assms(1) by (simp add: rt_dispatch_def Let_def rt_agree_def)
qed

end

lemma list_rt_head: "rt_head list_head l = Inr (case sc_queue (rt_sched l) of [] \<Rightarrow> None | e # _ \<Rightarrow> Some e, l)"
  by (simp add: rt_head_def list_head_def)

context peeking_queue
begin

lemma rt_step_agree:
  assumes "rt_agree K r l" "rt_step list_ops list_head gtod tcl hnd (pc, l, st, lg) = Inr (pc', l', st', lg')"
    and "0 \<le> sc_uid (rt_sched l')" "sc_uid (rt_sched l') \<le> K" "timed gtod l" "mannered hnd" "polite tcl"
  shows "\<exists>r'. rt_step ops hd_op gtod tcl hnd (pc, r, st, lg) = Inr (pc', r', st', lg') \<and> rt_agree K r' l'"
proof (cases pc)
  case Rt_While
  have h: "sc_halted (rt_sched r) = sc_halted (rt_sched l)" using assms(1) by (simp add: rt_agree_def agree_def)
  show ?thesis
  proof (cases "sc_halted (rt_sched l)")
    case True
    then show ?thesis using assms(1,2) Rt_While h by auto
  next
    case False
    obtain r1 where "rt_head hd_op (rt_sync gtod r) = Inr (case sc_queue (rt_sched (rt_sync gtod l)) of [] \<Rightarrow> None | e # _ \<Rightarrow> Some e, r1)"
      "rt_agree K r1 (rt_sync gtod l)"
      using rt_agree_head [OF rt_agree_sync [OF assms(1,5)]] .
    then show ?thesis
      using assms(2) rt_agree_tests(2) Rt_While h False by (auto simp: list_rt_head)
  qed
next
  case (Rt_Old p)
  show ?thesis
  proof (cases "rt_overdue p l")
    case True
    obtain l1 st1 lg1 where l1: "rt_dispatch list_ops hnd (l, st, lg) = Inr (l1, st1, lg1)"
      and rest: "(if sc_halted (rt_sched l1) then Inr (Rt_Return, l1, st1, lg1)
        else rbind (rt_head list_head l1) (\<lambda>(p1, l2). Inr (Rt_Old p1, rt_sync gtod l2, st1, lg1))) = Inr (pc', l', st', lg')"
      using assms(2) Rt_Old True by (auto simp: rbind_eq_Inr)
    have u: "sc_uid (rt_sched l1) = sc_uid (rt_sched l')" using rest by (auto simp: list_rt_head split: if_splits)
    obtain r1 where r1: "rt_dispatch ops hnd (r, st, lg) = Inr (r1, st1, lg1)" "rt_agree K r1 l1"
      using rt_agree_dispatch [OF assms(1) l1 _ _ assms(6)] assms(3,4) u by auto
    obtain r2 where r2: "rt_head hd_op r1 = Inr (case sc_queue (rt_sched l1) of [] \<Rightarrow> None | e # _ \<Rightarrow> Some e, r2)"
      "rt_agree K r2 l1"
      using rt_agree_head [OF r1(2)] .
    have "rt_start l1 = rt_start l \<and> rt_reads l1 = rt_reads l" using rt_dispatch_fields [OF l1] assms(3) u by simp
    then have "timed gtod l1" using assms(5) by (simp add: timed_def)
    from rt_agree_sync [OF r2(2) this] r1 r2(1) rest Rt_Old True rt_agree_tests(1) [OF assms(1)]
    show ?thesis by (auto simp: list_rt_head rt_agree_def agree_def split: if_splits)
  next
    case False
    obtain st1 where l1: "rt_poll list_ops tcl (rt_wait gtod p l, st) = Inr (l', st')" "pc' = Rt_While" "lg' = lg"
      using assms(2) Rt_Old False by (auto simp: rbind_eq_Inr)
    from rt_agree_poll [OF rt_agree_tests(3) [OF assms(1,5)] l1(1) assms(3,4,7)] l1(2,3)
    show ?thesis using Rt_Old False rt_agree_tests(1) [OF assms(1)] by auto
  qed
next
  case Rt_Return
  then show ?thesis using assms(1,2) by auto
qed

lemma rt_steps_agree:
  assumes "rt_agree K r l" "rt_steps n list_ops list_head gtod tcl hnd (pc, l, st, lg) = Inr (pc', l', st', lg')"
    and "0 \<le> sc_uid (rt_sched l')" "sc_uid (rt_sched l') \<le> K" "timed gtod l" "mannered hnd" "polite tcl"
  shows "\<exists>r'. rt_steps n ops hd_op gtod tcl hnd (pc, r, st, lg) = Inr (pc', r', st', lg') \<and> rt_agree K r' l'"
  using assms(1,2,5)
proof (induction n arbitrary: pc r l st lg)
  case (Suc n)
  then obtain pc1 l1 st1 lg1 where l1: "rt_step list_ops list_head gtod tcl hnd (pc, l, st, lg) = Inr (pc1, l1, st1, lg1)"
    "rt_steps n list_ops list_head gtod tcl hnd (pc1, l1, st1, lg1) = Inr (pc', l', st', lg')"
    by (auto simp: rbind_eq_Inr)
  note u = rt_steps_fields [OF l1(2) assms(3)]
  have "0 \<le> sc_uid (rt_sched l1)" "sc_uid (rt_sched l1) \<le> K" using u assms(4) by auto
  from rt_step_agree [OF Suc.prems(1) l1(1) this Suc.prems(3) assms(6,7)] obtain r1 where
    r1: "rt_step ops hd_op gtod tcl hnd (pc, r, st, lg) = Inr (pc1, r1, st1, lg1)" "rt_agree K r1 l1" by blast
  have "timed gtod l1" using rt_step_fields [OF l1(1)] u Suc.prems(3) by (auto simp: timed_def)
  from Suc.IH [OF r1(2) l1(2) this] r1(1) show ?case by auto
qed auto

end

subsection \<open>The order of dispatch, and lateness\<close>

text \<open>
  What holds at every step: the past and what is pending are in order, no event was
  dispatched before its time, the clock never passes the next reading, and the event the
  inner loop looks at is the first of the queue.
\<close>

definition rt_inv :: "(nat \<Rightarrow> real) \<Rightarrow> (nat list, 's) rt_machine \<Rightarrow> bool" where
  "rt_inv gtod = (\<lambda>(pc, l, st, lg).
     timeline (map snd lg) (rt_sched l) \<and> (\<forall>(t, d)\<in>set lg. fst d \<le> t) \<and> sorted (map fst lg) \<and>
     (\<forall>(t, d)\<in>set lg. t \<le> sc_clock (rt_sched l)) \<and> (\<forall>k\<ge>rt_reads l. sc_clock (rt_sched l) \<le> gtod k - rt_start l) \<and>
     (\<forall>p. pc = Rt_Old p \<longrightarrow> p = (case sc_queue (rt_sched l) of [] \<Rightarrow> None | e # _ \<Rightarrow> Some e)))"

lemma timeline_later: "timeline lg l \<Longrightarrow> sc_clock l \<le> t \<Longrightarrow> timeline lg (l\<lparr>sc_clock := t\<rparr>)"
  by (fastforce simp: timeline_def)

lemma rt_inv_sync:
  assumes "rt_inv gtod (pc, l, st, lg)" "mono gtod"
    and "\<And>p. pc' = Rt_Old p \<Longrightarrow> p = (case sc_queue (rt_sched l) of [] \<Rightarrow> None | e # _ \<Rightarrow> Some e)"
  shows "rt_inv gtod (pc', rt_sync gtod l, st, lg)"
proof -
  let ?t = "gtod (rt_reads l) - rt_start l"
  have t: "sc_clock (rt_sched l) \<le> ?t" using assms(1) by (simp add: rt_inv_def)
  then have "timeline (map snd lg) ((rt_sched l)\<lparr>sc_clock := ?t\<rparr>)"
    using assms(1) timeline_later by (simp add: rt_inv_def)
  moreover have "rt_sched (rt_sync gtod l) = (rt_sched l)\<lparr>sc_clock := ?t\<rparr>" by (simp add: rt_sync_def tod_def)
  moreover have "?t \<le> gtod k - rt_start l" if "Suc (rt_reads l) \<le> k" for k
    using monoD [OF assms(2), of "rt_reads l" k] that by simp
  moreover have "\<forall>(t, d)\<in>set lg. t \<le> ?t" using assms(1) t by (fastforce simp: rt_inv_def)
  ultimately show ?thesis using assms(1,3) by (simp add: rt_inv_def)
qed

lemma rt_inv_warn: "rt_inv gtod (pc, rt_warn p l, st, lg) = rt_inv gtod (pc, l, st, lg)"
  by (simp add: rt_inv_def)

lemma performs_clock: "rfold (perform list_ops) acts s = Inr s' \<Longrightarrow> sc_clock s' = sc_clock s"
  by (rule rfold_invariant [of "perform list_ops" acts s s' "\<lambda>t. sc_clock t = sc_clock s"]) (simp_all add: lsq.perform_clock)

lemma rt_inv_poll:
  assumes "rt_inv gtod (pc, l, st, lg)" "rt_poll list_ops tcl (l, st) = Inr (l', st')" "0 \<le> sc_uid (rt_sched l')"
    and "forward_tcl tcl"
  shows "rt_inv gtod (Rt_While, l', st', lg)"
proof -
  obtain st2 acts where t: "tcl (rt_polls l) (sc_clock (rt_sched l)) st = (st2, acts)" by fastforce
  then obtain s where s: "rfold (perform list_ops) acts (rt_sched l) = Inr s"
    "l' = l\<lparr>rt_sched := s, rt_polls := Suc (rt_polls l)\<rparr>"
    using assms(2) by (auto simp: rt_poll_def rbind_eq_Inr)
  have "0 \<le> d" if "Do_Schedule h e d \<in> set acts" for h e d
    using assms(4) t that unfolding forward_tcl_def by (metis snd_conv)
  then have "timeline (map snd lg) s"
    using timeline_performs [OF _ s(1)] assms(1,3) s(2) by (simp add: rt_inv_def)
  then show ?thesis using assms(1) performs_clock [OF s(1)] s(2) by (simp add: rt_inv_def)
qed

lemma rt_inv_dispatch:
  assumes "rt_inv gtod (Rt_Old p, l, st, lg)" "rt_overdue p l"
    and "rt_dispatch list_ops hnd (l, st, lg) = Inr (l', st', lg')" "0 \<le> sc_uid (rt_sched l')" "forward hnd"
  shows "rt_inv gtod (Rt_Return, l', st', lg')"
proof -
  obtain e ys where q: "sc_queue (rt_sched l) = e # ys" "ev_time (sc_events (rt_sched l) e) \<le> sc_clock (rt_sched l)"
    using assms(1,2) by (cases "sc_queue (rt_sched l)") (auto simp: rt_inv_def rt_overdue_def)
  obtain s where s:
    "dispatch list_ops hnd e (sc_clock (rt_sched l)) (rt_sched l\<lparr>sc_queue := ys\<rparr>, st) = Inr (s, st')"
    "l' = l\<lparr>rt_sched := s\<rparr>" "lg' = lg @ [(sc_clock (rt_sched l), stamp (sc_events (rt_sched l)) e)]"
    using assms(3) q(1) by (auto simp: rt_dispatch_def Let_def list_ops_def list_deque_def rbind_eq_Inr)
  have "timeline (map snd lg) (rt_sched l)" using assms(1) by (simp add: rt_inv_def)
  from timeline_dispatch [OF this q s(1) _ assms(5)] s(2) assms(4)
  have "timeline (map snd lg @ [stamp (sc_events (rt_sched l)) e]) s" by simp
  moreover have "sc_clock s = sc_clock (rt_sched l)"
    using s(1) performs_clock by (fastforce simp: dispatch_def rbind_eq_Inr split: if_splits prod.splits)
  moreover have "sorted (map fst lg @ [sc_clock (rt_sched l)])"
    using assms(1) by (fastforce simp: rt_inv_def sorted_append)
  ultimately show ?thesis using assms(1) q(2) s(2,3) by (auto simp: rt_inv_def stamp_def)
qed

lemma rt_inv_step:
  assumes "rt_inv gtod (pc, l, st, lg)" "rt_step list_ops list_head gtod tcl hnd (pc, l, st, lg) = Inr (pc', l', st', lg')"
    and "0 \<le> sc_uid (rt_sched l')" "mono gtod" "forward hnd" "forward_tcl tcl"
  shows "rt_inv gtod (pc', l', st', lg')"
proof (cases pc)
  case Rt_While
  show ?thesis
  proof (cases "sc_halted (rt_sched l)")
    case True
    then show ?thesis using assms(1,2) Rt_While by (auto simp: rt_inv_def)
  next
    case False
    then show ?thesis
      using assms(2) Rt_While rt_inv_sync [OF assms(1,4), of pc'] by (auto simp: list_rt_head rt_inv_warn)
  qed
next
  case (Rt_Old p)
  show ?thesis
  proof (cases "rt_overdue p l")
    case True
    obtain l1 where l1: "rt_dispatch list_ops hnd (l, st, lg) = Inr (l1, st', lg')"
      and rest: "(if sc_halted (rt_sched l1) then Inr (Rt_Return, l1, st', lg')
        else rbind (rt_head list_head l1) (\<lambda>(p1, l2). Inr (Rt_Old p1, rt_sync gtod l2, st', lg'))) = Inr (pc', l', st', lg')"
      using assms(2) Rt_Old True by (auto simp: rbind_eq_Inr list_rt_head split: if_splits)
    have "0 \<le> sc_uid (rt_sched l1)" using rest assms(3) by (auto simp: list_rt_head split: if_splits)
    from rt_inv_dispatch [OF assms(1) [unfolded Rt_Old] True l1 this assms(5)] have inv: "rt_inv gtod (Rt_Return, l1, st', lg')" .
    then show ?thesis using rest rt_inv_sync [OF inv assms(4), of pc'] by (auto simp: list_rt_head split: if_splits)
  next
    case False
    then have l1: "rt_poll list_ops tcl (rt_wait gtod p l, st) = Inr (l', st')" "pc' = Rt_While" "lg' = lg"
      using assms(2) Rt_Old by (auto simp: rbind_eq_Inr)
    have "rt_inv gtod (Rt_Return, rt_wait gtod p l, st, lg)"
      using rt_inv_sync [OF assms(1,4), of Rt_Return] assms(1) rt_wait_cases [of gtod p l] by (auto simp: rt_inv_def)
    from rt_inv_poll [OF this l1(1) assms(3,6)] show ?thesis using l1(2,3) by simp
  qed
next
  case Rt_Return
  then show ?thesis using assms(1,2) by auto
qed

lemma rt_inv_steps:
  "rt_inv gtod (pc, l, st, lg) \<Longrightarrow> rt_steps n list_ops list_head gtod tcl hnd (pc, l, st, lg) = Inr (pc', l', st', lg') \<Longrightarrow>
   0 \<le> sc_uid (rt_sched l') \<Longrightarrow> mono gtod \<Longrightarrow> forward hnd \<Longrightarrow> forward_tcl tcl \<Longrightarrow> rt_inv gtod (pc', l', st', lg')"
proof (induction n arbitrary: pc l st lg)
  case (Suc n)
  then obtain pc1 l1 st1 lg1 where l1: "rt_step list_ops list_head gtod tcl hnd (pc, l, st, lg) = Inr (pc1, l1, st1, lg1)"
    "rt_steps n list_ops list_head gtod tcl hnd (pc1, l1, st1, lg1) = Inr (pc', l', st', lg')"
    by (auto simp: rbind_eq_Inr)
  have "0 \<le> sc_uid (rt_sched l1)" using rt_steps_fields [OF l1(2) Suc.prems(3)] by simp
  from rt_inv_step [OF Suc.prems(1) l1(1) this Suc.prems(4-6)] Suc.IH l1(2) Suc.prems(3-6) show ?case by blast
qed simp

definition rt_boot :: "real \<Rightarrow> 'q sched \<Rightarrow> 'q real_time" where
  "rt_boot slop s = (new_real_time slop (sc_queue s))\<lparr>rt_sched := s\<rparr>"

text \<open>
  C11. The real-time scheduler never runs an event early and keeps the order of the others. Let a
  program schedule and cancel in a new scheduler and \<open>run\<close> it, with handlers and
  callbacks of Tcl that schedule and cancel as they like but never with a negative delay, on a
  machine whose clock never goes back: then every event is dispatched at a clock no earlier
  than its time, the clock never goes back, events are dispatched in the order of their times
  and numbers however late they are, and the calendar queue under the loop changes nothing
  against the list: the same events at the same readings, the same warnings about lateness.
\<close>

theorem real_time_never_early:
  assumes "rfold (perform list_ops) acts (new_sched []) = Inr l0"
    and "rt_cmd_run n list_ops list_head gtod tcl hnd (rt_boot slop l0, st) = Inr (pc, l, st', lg)"
    and "0 \<le> sc_uid (rt_sched l)" and "mono gtod" and "\<And>h e d. Do_Schedule h e d \<in> set acts \<Longrightarrow> 0 \<le> d"
    and "forward hnd" and "forward_tcl tcl"
  shows "\<exists>s r. rfold (perform cal_ops) acts (new_sched (new_calendar adj minw)) = Inr s \<and>
    rt_cmd_run n cal_ops cal_head gtod tcl hnd (rt_boot slop s, st) = Inr (pc, r, st', lg) \<and>
    sc_clock (rt_sched r) = sc_clock (rt_sched l) \<and> rt_warned r = rt_warned l \<and>
    (\<forall>(t, d)\<in>set lg. fst d \<le> t) \<and> sorted (map fst lg) \<and> sorted_wrt before (map snd lg)"
proof -
  let ?l = "rt_reset gtod (rt_boot slop l0)" and ?K = "sc_uid (rt_sched l)"
  have run: "rt_steps n list_ops list_head gtod tcl hnd (Rt_While, ?l, st, []) = Inr (pc, l, st', lg)"
    using assms(2) by (simp add: rt_cmd_run_def)
  have u: "0 \<le> sc_uid l0" "sc_uid l0 \<le> ?K"
    using rt_steps_fields [OF run assms(3)] by (simp_all add: rt_reset_def rt_boot_def tod_def)
  have readings: "gtod 0 \<le> gtod k" for k using monoD [OF assms(4)] by simp
  have "timeline [] l0" using timeline_performs [OF timeline_new assms(1) u(1)] assms(5) by blast
  then have "timeline [] (l0\<lparr>sc_clock := 0\<rparr>)" by (simp add: timeline_def)
  then have "rt_inv gtod (Rt_While, ?l, st, [])"
    using readings by (simp add: rt_inv_def rt_reset_def rt_boot_def new_real_time_def tod_def)
  from rt_inv_steps [OF this run assms(3,4,6,7)] have inv: "rt_inv gtod (pc, l, st', lg)" .
  have "csq.agree ?K (new_sched (new_calendar adj minw)) (new_sched [])"
    using cal_rep_new by (simp add: csq.agree_def new_sched_def numbered_def new_event_def)
  moreover have "csq.on_time acts (sc_clock (new_sched []))" using assms(5) by (simp add: csq.on_time_def new_sched_def)
  ultimately obtain s where
    s: "rfold (perform cal_ops) acts (new_sched (new_calendar adj minw)) = Inr s" "csq.agree ?K s l0"
    using csq.performs_agree [OF _ assms(1) u] by blast
  let ?r = "rt_reset gtod (rt_boot slop s)"
  have "cpq.rt_agree ?K ?r ?l" "cpq.timed gtod ?l"
    using s(2) readings
    by (auto simp: cpq.rt_agree_def csq.agree_def cpq.timed_def rt_reset_def rt_boot_def new_real_time_def tod_def)
  moreover have "csq.mannered hnd" "cpq.polite tcl" using assms(6,7) by (simp_all add: csq.mannered_def cpq.polite_def)
  ultimately obtain r where "rt_steps n cal_ops cal_head gtod tcl hnd (Rt_While, ?r, st, []) = Inr (pc, r, st', lg)"
    "cpq.rt_agree ?K r l"
    using cpq.rt_steps_agree [OF _ run assms(3) order_refl] by blast
  then show ?thesis
    using s(1) inv by (auto simp: rt_cmd_run_def cpq.rt_agree_def csq.agree_def rt_inv_def timeline_def sorted_wrt_append)
qed

text \<open>
  A clock that advances by a fifth of a second per reading, the events and handlers of the example
  above, and a callback that halts the third time it is called.
\<close>

definition demo_tcl :: "nat tcl_events" where
  "demo_tcl k c st = (st, if k = 3 then [Do_Halt] else [])"

lemma demo_real_time: "\<exists>l. rt_cmd_run 16 list_ops list_head (\<lambda>k. 1000 + real k / 5) demo_tcl demo_handlers (rt_boot (1/10) demo_sched, 0) =
    Inr (Rt_Return, l, 1, [(3/5, 1/2, 2, 2), (6/5, 1, 1, 1), (7/5, 1, 4, 4), (8/5, 11/10, 5, 2)]) \<and> sc_uid (rt_sched l) = 6"
  by (simp add: demo_sched_def eval_nat_numeral schedule_def cancel_def list_ops_def list_insert_def list_deque_def
    list_cancel_def dispatch_def demo_handlers_def set_uid_def Let_def next_uid_def new_event_def rt_parts list_head_def
    rt_poll_def rt_dispatch_def rt_cmd_run_def rt_boot_def new_real_time_def rt_reset_def demo_tcl_def stamp_def)

theorem real_time_never_early_witness:
  "\<exists>s r. rfold (perform cal_ops) demo_acts (new_sched (new_calendar 0 (1 / 10 ^ 18))) = Inr s \<and>
    rt_cmd_run 16 cal_ops cal_head (\<lambda>k. 1000 + real k / 5) demo_tcl demo_handlers (rt_boot (1/10) s, 0) =
      Inr (Rt_Return, r, 1, [(3/5, 1/2, 2, 2), (6/5, 1, 1, 1), (7/5, 1, 4, 4), (8/5, 11/10, 5, 2)])"
proof -
  obtain l where run: "rt_cmd_run 16 list_ops list_head (\<lambda>k. 1000 + real k / 5) demo_tcl demo_handlers (rt_boot (1/10) demo_sched, 0) =
      Inr (Rt_Return, l, 1, [(3/5, 1/2, 2, 2), (6/5, 1, 1, 1), (7/5, 1, 4, 4), (8/5, 11/10, 5, 2)])"
    and u: "sc_uid (rt_sched l) = 6"
    using demo_real_time by blast
  have "0 \<le> d" if "Do_Schedule h e d \<in> set demo_acts" for h e d using that by (auto simp: demo_acts_def)
  moreover have "mono (\<lambda>k. 1000 + real k / 5)" by (intro monoI) simp
  moreover have "forward_tcl demo_tcl" by (simp add: forward_tcl_def demo_tcl_def)
  ultimately show ?thesis
    using real_time_never_early [OF demo_boot run _ _ _ demo_forward] u by fastforce
qed

text \<open>
  \<open>reset\<close> subtracts the start it had from the new one. After \<open>run\<close> has been given twice the
  clock, which should start near zero again, starts near the time of day of the first \<open>run\<close>,
  and every event up to then is overdue.
\<close>

theorem second_run_is_late:
  assumes "mono gtod" and "rt_reads r = Suc k" and "rt_start r = gtod 0"
  shows "fst (tod gtod (rt_reset gtod r)) = gtod (k + 2) - gtod (k + 1) + gtod 0 \<and>
    gtod 0 \<le> fst (tod gtod (rt_reset gtod r))"
  using monoD [OF assms(1), of "k + 1" "k + 2"] assms(2,3) by (simp add: tod_def rt_reset_def)

theorem second_run_is_late_witness:
  "fst (tod (\<lambda>k. 1000 + real k) (rt_reset (\<lambda>k. 1000 + real k) (rt_reset (\<lambda>k. 1000 + real k) (rt_boot 0 (new_sched []))))) = 1001"
proof -
  have "mono (\<lambda>k. 1000 + real k)" by (intro monoI) simp
  from second_run_is_late [OF this, of "rt_reset (\<lambda>k. 1000 + real k) (rt_boot 0 (new_sched []))" 0]
  show ?thesis by (simp add: rt_reset_def tod_def rt_boot_def new_real_time_def)
qed

end
