(* ===== verification/QueueShrink.thy ===== *)
theory QueueShrink
  imports DropTail
begin

section \<open>Shrinking a queue\<close>

text \<open>
  The commands of \<open>DropTail\<close> (queue/drop-tail.cc), and what \<open>shrink-queue\<close> does when the
  limit of a queue has been lowered: it drops packets until the queue fits again.
\<close>















end
