(* ===== verification/PollVariants.thy ===== *)
theory PollVariants
  imports TcpControl CArith
begin

section \<open>The other ways of polling\<close>

text \<open>
  The variants of \<open>poll_dht\<close> that tcp/tcp.cc keeps beside it, with the calls to them in
  \<open>expire\<close> commented out: \<open>poll_btnk_per\<close>, which polls one link between polls of the
  whole path, \<open>poll_round_robin\<close>, which polls the links in turn, and \<open>getRate\<close>. What
  \<open>rand\<close> returns is an argument, \<open>rnd k\<close> for its call number \<open>k\<close>. A pointer into
  \<open>flow_path\<close> is a position, \<open>None\<close> for \<open>NULL\<close>.
\<close>

subsection \<open>Operations\<close>

text \<open>\<open>fp->next\<close> and the nodes \<open>fp->node\<close> and \<open>fp->next->node\<close>.\<close>

definition next_hop :: "tcp \<Rightarrow> nat option \<Rightarrow> nat option res" where
  "next_hop tc fp = (case fp of None \<Rightarrow> Inl Null_Deref
     | Some i \<Rightarrow> Inr (if Suc i < length (tc_flow_path tc) then Some (Suc i) else None))"

definition hop_at :: "tcp \<Rightarrow> nat option \<Rightarrow> (int \<times> int) res" where
  "hop_at tc fp = (case fp of None \<Rightarrow> Inl Null_Deref
     | Some i \<Rightarrow> if Suc i < length (tc_flow_path tc)
         then Inr (tc_flow_path tc ! i, tc_flow_path tc ! Suc i) else Inl Null_Deref)"

definition path_start :: "tcp \<Rightarrow> nat option" where
  "path_start tc = (if tc_flow_path tc = [] then None else Some 0)"

definition fetch_hop :: "target \<Rightarrow> nat option \<Rightarrow> tcp \<Rightarrow> world \<Rightarrow> world res" where
  "fetch_hop tgt fp tc w = rbind (hop_at tc fp) (\<lambda>(a, b). tcp_fetch_stats tgt a b tc w)"

definition poll_per1 :: "target \<Rightarrow> (nat \<Rightarrow> int) \<Rightarrow> nat \<Rightarrow> tcp \<Rightarrow> world \<Rightarrow> (nat \<times> tcp \<times> world) res" where
  "poll_per1 tgt rnd k tc w =
     (let tc1 = tc\<lparr>tc_btnk_wait := rnd k mod 15 + 10\<rparr>
      in rbind (poll_per tgt tc1 w) (\<lambda>w1. Inr (Suc k, tc1, w1)))"

text \<open>The choice of the next bottleneck, at random; what follows its last \<open>break\<close> never runs.\<close>

fun step_hops :: "tcp \<Rightarrow> nat \<Rightarrow> nat option \<Rightarrow> nat option res" where
  "step_hops tc 0 fp = Inr fp"
| "step_hops tc (Suc n) fp = rbind (next_hop tc fp) (step_hops tc n)"

definition choose_btnk :: "(nat \<Rightarrow> int) \<Rightarrow> nat \<Rightarrow> tcp \<Rightarrow> (nat \<times> nat option) res" where
  "choose_btnk rnd k tc =
     rbind (next_hop tc (path_start tc)) (\<lambda>nx.
       if nx = None then Inr (k, tc_btnk tc)
       else if rnd k mod 10 + 1 > 3 then Inr (Suc k, tc_btnk tc)
       else rbind (step_hops tc (nat (rnd (Suc k) mod 6)) (path_start tc)) (\<lambda>fp. Inr (Suc (Suc k), fp)))"

definition poll_btnk_per :: "target \<Rightarrow> (nat \<Rightarrow> int) \<Rightarrow> nat \<Rightarrow> tcp \<Rightarrow> world \<Rightarrow> (nat \<times> tcp \<times> world) res" where
  "poll_btnk_per tgt rnd k tc w =
     rbind
       (if tc_btnk_fix tc = tc_btnk_wait tc then
          rbind (poll_per1 tgt rnd k tc w) (\<lambda>(k1, tc1, w1). Inr (k1, tc1\<lparr>tc_btnk_fix := 0\<rparr>, w1))
        else if tc_btnk_fix tc = 1 then
          rbind (choose_btnk rnd k tc) (\<lambda>(k1, b). Inr (k1, tc\<lparr>tc_btnk := b\<rparr>, w))
        else
          rbind (fetch_hop tgt (path_start tc) tc w) (\<lambda>w1.
            rbind (fetch_hop tgt (tc_btnk tc) tc w1) (\<lambda>w2. Inr (k, tc, w2))))
       (\<lambda>(k1, tc1, w1). Inr (k1, tc1\<lparr>tc_btnk_fix := tc_btnk_fix tc1 + 1\<rparr>, w1))"

text \<open>The link before \<open>fp\<close>, or the last one before the second node; from the first, the loop runs off.\<close>

definition hop_before :: "tcp \<Rightarrow> nat option \<Rightarrow> nat option res" where
  "hop_before tc fp =
     (case fp of
        Some (Suc 0) \<Rightarrow> Inr (Some (length (tc_flow_path tc) - 2))
      | Some (Suc (Suc i)) \<Rightarrow> Inr (Some (Suc i))
      | _ \<Rightarrow> Inl Null_Deref)"

definition poll_round_robin :: "target \<Rightarrow> tcp \<Rightarrow> world \<Rightarrow> (tcp \<times> world) res" where
  "poll_round_robin tgt tc w =
     (let fp = tc_prev_link tc in
      rbind (fetch_hop tgt (path_start tc) tc w) (\<lambda>w1.
        rbind (fetch_hop tgt fp tc w1) (\<lambda>w2.
          rbind (next_hop tc fp) (\<lambda>nx. rbind (next_hop tc nx) (\<lambda>nnx.
            if nnx = None then
              rbind (next_hop tc (path_start tc)) (\<lambda>f. Inr (tc\<lparr>tc_prev_link := f\<rparr>, w2))
            else
              rbind (the_node w2 (tc_addr tc w2)) (\<lambda>me.
                let ls = nd_topo_links (w_nodes w2 ! me) in
                rbind (hop_at tc (path_start tc)) (\<lambda>(a, b).
                  rbind (hop_before tc fp) (\<lambda>fp1. rbind (hop_at tc fp1) (\<lambda>(c, d).
                    rbind (rate_less (link_rate ls c d None) (link_rate ls a b None)) (\<lambda>_.
                      Inr (tc\<lparr>tc_prev_link := nx, tc_cwnd := 0\<rparr>, w2)))))))))))"

definition getRate :: "target \<Rightarrow> tcp \<Rightarrow> world \<Rightarrow> (real \<times> world) res" where
  "getRate tgt tc w =
     rbind (agent_at w 0) (\<lambda>i. rbind (send_c2 tgt i 2 0 w) (\<lambda>w1.
       rbind (agent_at w1 1) (\<lambda>j. rbind (send_c2 tgt j 2 2 w1) (\<lambda>w2.
         rbind (the_node w2 (tc_addr tc w2)) (\<lambda>me.
           let ls = nd_topo_links (w_nodes w2 ! me) in
           rbind (vec_get ls 0) (\<lambda>l0. rbind (vec_get ls 2) (\<lambda>l2.
             let nF1 = (if st_no_flows (tl_stats l0) = 0 then 1 else st_no_flows (tl_stats l0));
                 nF2 = (if st_no_flows (tl_stats l2) = 0 then 1 else st_no_flows (tl_stats l2)) in
             Inr (min (of_int (c_quot (100 * 1 * 1000000) nF1)) (of_int (c_quot (100 * 1 * 1000000) nF2)) * 0.6 / 1000 / 1500, w2))))))))"

subsection \<open>Which links are polled\<close>

text \<open>
  What a successful round does: on the way along the path it closes the window, and at the
  end of the path it starts over and leaves the window as it is.
\<close>

lemma round_robin_step:
  assumes "poll_round_robin tgt tc w = Inr (tc', w')" "tc_prev_link tc = Some i"
  shows "Suc i < length (tc_flow_path tc) \<and>
    tc' = (if i + 2 = length (tc_flow_path tc) then tc\<lparr>tc_prev_link := Some 1\<rparr>
           else tc\<lparr>tc_prev_link := Some (i + 1), tc_cwnd := 0\<rparr>)"
  using assms
  by (fastforce simp: poll_round_robin_def fetch_hop_def hop_at_def next_hop_def path_start_def Let_def rbind_eq_Inr
      split: if_splits)

fun round_robins :: "nat \<Rightarrow> target \<Rightarrow> tcp \<times> world \<Rightarrow> (tcp \<times> world) res" where
  "round_robins 0 tgt s = Inr s"
| "round_robins (Suc k) tgt s = rbind (round_robins k tgt s) (\<lambda>(tc, w). poll_round_robin tgt tc w)"

text \<open>
  Round robin polls the links behind the first one in turn, and closes the window for good:
  after $k$ rounds on a path of $n + 2$ nodes the next link to poll is the one behind node
  $1 + k \bmod n$, and from the first round on that is not at the end of the path the window is 0.
\<close>

theorem round_robin_cycles:
  assumes "round_robins k tgt (tc, w) = Inr (tc', w')"
    and "tc_prev_link tc = Some 1" and "length (tc_flow_path tc) = n + 2" and "0 < n"
  shows "tc_prev_link tc' = Some (1 + k mod n) \<and> tc_flow_path tc' = tc_flow_path tc \<and>
    tc_cwnd tc' = (if k = 0 \<or> n = 1 then tc_cwnd tc else 0)"
  using assms(1)
proof (induction k arbitrary: tc' w')
  case 0
  then show ?case using assms(2) by simp
next
  case (Suc k)
  then obtain tc1 w1 where r: "round_robins k tgt (tc, w) = Inr (tc1, w1)" "poll_round_robin tgt tc1 w1 = Inr (tc', w')"
    by (auto simp: rbind_eq_Inr)
  note ih = Suc.IH [OF r(1)]
  from ih have p: "tc_prev_link tc1 = Some (1 + k mod n)" by simp
  have step: "tc' = (if 1 + k mod n + 2 = n + 2 then tc1\<lparr>tc_prev_link := Some 1\<rparr>
      else tc1\<lparr>tc_prev_link := Some (1 + k mod n + 1), tc_cwnd := 0\<rparr>)"
    using round_robin_step [OF r(2) p] ih assms(3) by simp
  show ?case
  proof (cases "Suc (k mod n) = n")
    case True
    then have "k \<noteq> 0 \<or> n = 1" by (cases k) auto
    then show ?thesis using step ih True by (auto simp: mod_Suc)
  next
    case False
    then have "n \<noteq> 1" using assms(4) by auto
    then show ?thesis using step ih False by (auto simp: mod_Suc)
  qed
qed

lemma step_hops_from:
  "i < length (tc_flow_path tc) \<Longrightarrow> step_hops tc m (Some i) =
     (if i + m < length (tc_flow_path tc) then Inr (Some (i + m))
      else if i + m = length (tc_flow_path tc) then Inr None else Inl Null_Deref)"
proof (induction m arbitrary: i)
  case (Suc m)
  show ?case
  proof (cases "Suc i < length (tc_flow_path tc)")
    case True
    then show ?thesis using Suc.IH [of "Suc i"] by (simp add: next_hop_def)
  next
    case False
    then have "Suc i = length (tc_flow_path tc)" using Suc.prems by simp
    moreover have "step_hops tc m None = (if m = 0 then Inr None else Inl Null_Deref)" by (cases m) (simp_all add: next_hop_def)
    ultimately show ?thesis by (auto simp: next_hop_def)
  qed
qed simp

lemma no_bottleneck_no_poll:
  assumes "tc_btnk_fix tc \<noteq> tc_btnk_wait tc" "tc_btnk_fix tc \<noteq> 1"
    and "case tc_btnk tc of None \<Rightarrow> True | Some i \<Rightarrow> length (tc_flow_path tc) \<le> Suc i"
  shows "poll_btnk_per tgt rnd k tc w \<noteq> Inr r"
  using assms
  by (auto simp: poll_btnk_per_def fetch_hop_def hop_at_def rbind_eq_Inr split: option.splits if_splits)

text \<open>
  The random choice of a bottleneck takes up to five steps along the path without looking for
  its end. On a path of five nodes or fewer it can step off it, and on one of six or fewer
  it can end on the last node, from which no link starts, or on \<open>NULL\<close>: the next poll of
  the bottleneck then reads through \<open>NULL\<close>.
\<close>

theorem bottleneck_off_the_path:
  assumes "1 < length (tc_flow_path tc)" "rnd k mod 10 \<le> 2" "int (length (tc_flow_path tc)) - 1 \<le> rnd (Suc k) mod 6"
    and "tc_btnk_fix tc = 1" "tc_btnk_wait tc \<noteq> 1" "tc_btnk_wait tc \<noteq> 2"
  shows "case poll_btnk_per tgt rnd k tc w of
      Inl f \<Rightarrow> f = Null_Deref
    | Inr (k', tc', w') \<Rightarrow> \<forall>w r. poll_btnk_per tgt rnd k' tc' w \<noteq> Inr r"
proof -
  let ?m = "nat (rnd (Suc k) mod 6)" and ?n = "length (tc_flow_path tc)"
  have m: "?n \<le> Suc ?m" using assms(3) by linarith
  have ne: "0 < ?n" "tc_flow_path tc \<noteq> []" using assms(1) by auto
  then have start: "path_start tc = Some 0" "next_hop tc (Some 0) = Inr (Some 1)"
    using assms(1) ne by (simp_all add: path_start_def next_hop_def)
  have adv: "step_hops tc ?m (Some 0) = (if ?m < ?n then Inr (Some ?m) else if ?m = ?n then Inr None else Inl Null_Deref)"
    using step_hops_from [of 0 tc ?m] ne(1) by simp
  have run: "poll_btnk_per tgt rnd k tc w =
      rbind (step_hops tc ?m (Some 0)) (\<lambda>b. Inr (Suc (Suc k), tc\<lparr>tc_btnk := b, tc_btnk_fix := 2\<rparr>, w))"
    using assms(2,4,5) start by (cases "step_hops tc ?m (Some 0)") (simp_all add: poll_btnk_per_def choose_btnk_def)
  show ?thesis
  proof (cases "?m \<le> ?n")
    case True
    then obtain b where "step_hops tc ?m (Some 0) = Inr b" "case b of None \<Rightarrow> True | Some i \<Rightarrow> ?n \<le> Suc i"
      using adv m by (cases "?m < ?n") auto
    then show ?thesis using run no_bottleneck_no_poll [of "tc\<lparr>tc_btnk := b, tc_btnk_fix := 2\<rparr>"] assms(6)
      by (auto split: option.splits)
  next
    case False
    then show ?thesis using run adv by simp
  qed
qed

end
