(* ===== verification/HighSpeed.thy ===== *)
theory HighSpeed
  imports CArith
begin

section \<open>The parameters of HighSpeed TCP\<close>

text \<open>
  What \<open>TcpAgent::reset\<close> prepares and \<open>increase_param\<close>, \<open>decrease_param\<close>,
  \<open>limited_slow_start\<close>, \<open>linear\<close> and \<open>numdupacks\<close> of tcp/tcp.cc compute. The
  window is an argument. Since \<open>opencwnd\<close> returns at once nothing in the sender calls
  \<open>increase_param\<close> and \<open>limited_slow_start\<close>; \<open>slowdown\<close> calls \<open>decrease_param\<close>. The product
  of \<open>low_window_\<close> with itself is an integer without overflow here; in the code it overflows an
  \<open>int\<close> from a \<open>low_window_\<close> of 46341 on (the default is 38).
\<close>

subsection \<open>State and operations\<close>

record hstcp =
  hs_low_p :: real
  hs_dec1 :: real
  hs_dec2 :: real
  hs_p1 :: real
  hs_p2 :: real
  hs_cwnd_last :: real
  hs_increase_last :: real

definition new_hstcp :: hstcp where
  "new_hstcp = \<lparr>hs_low_p = 0, hs_dec1 = 0, hs_dec2 = 0, hs_p1 = 0, hs_p2 = 0, hs_cwnd_last = 0, hs_increase_last = 0\<rparr>"

text \<open>The variables bound from Tcl.\<close>

record hs_conf =
  hc_low_window :: int
  hc_high_window :: int
  hc_high_p :: real
  hc_high_decrease :: real
  hc_cwnd_range :: int
  hc_numdupacks :: int
  hc_numdupacksFrac :: int

definition hs_reset :: "hs_conf \<Rightarrow> hstcp \<Rightarrow> hstcp" where
  "hs_reset c h =
     (let low_p = 1.5 / of_int (hc_low_window c * hc_low_window c);
          highLowWin = ln (of_int (hc_high_window c)) - ln (of_int (hc_low_window c));
          highLowP = ln (hc_high_p c) - ln low_p in
      h\<lparr>hs_low_p := low_p,
        hs_dec1 := 0.5 - ln (of_int (hc_low_window c)) * (hc_high_decrease c - 0.5) / highLowWin,
        hs_dec2 := (hc_high_decrease c - 0.5) / highLowWin,
        hs_p1 := ln low_p - ln (of_int (hc_low_window c)) * highLowP / highLowWin,
        hs_p2 := highLowP / highLowWin\<rparr>)"

definition linear :: "real \<Rightarrow> real \<Rightarrow> real \<Rightarrow> real \<Rightarrow> real \<Rightarrow> real" where
  "linear x x_1 y_1 x_2 y_2 = y_1 + ((y_2 - y_1) * ((x - x_1) / (x_2 - x_1)))"

definition hs_decrease :: "hstcp \<Rightarrow> real \<Rightarrow> real" where
  "hs_decrease h cwnd = hs_dec1 h + ln cwnd * hs_dec2 h"

definition increase_param :: "hs_conf \<Rightarrow> real \<Rightarrow> hstcp \<Rightarrow> real \<times> hstcp" where
  "increase_param c cwnd h =
     (if cwnd \<le> of_int (hc_low_window c) then (1 / cwnd, h)
      else if cwnd \<ge> hs_cwnd_last h \<and> cwnd < hs_cwnd_last h + of_int (hc_cwnd_range c)
      then (hs_increase_last h / cwnd, h)
      else
        let p = exp (hs_p1 h + ln cwnd * hs_p2 h);
            decrease = hs_decrease h cwnd;
            increase = cwnd * cwnd * p / (1 / decrease - 0.5);
            answer = increase / cwnd
        in (answer, h\<lparr>hs_cwnd_last := cwnd, hs_increase_last := increase\<rparr>))"

definition limited_slow_start :: "real \<Rightarrow> int \<Rightarrow> real \<Rightarrow> real" where
  "limited_slow_start cwnd max_ssthresh increment =
     (if max_ssthresh \<le> 0 then increment
      else
        let rounds = c_trunc (cwnd / (of_int max_ssthresh / 2));
            increment1 = (if rounds > 0 then 1 / of_int rounds else 0)
        in if increment < increment1 then increment1 else increment)"

definition hs_numdupacks :: "hs_conf \<Rightarrow> real \<Rightarrow> int res" where
  "hs_numdupacks c cwnd =
     rbind (c_div (c_trunc cwnd) (hc_numdupacksFrac c)) (\<lambda>cwndfraction.
       Inr (if hc_numdupacks c > cwndfraction then hc_numdupacks c else cwndfraction))"

subsection \<open>The interpolation\<close>

lemma linear_split: "linear x x_1 y_1 x_2 y_2 = (y_1 - x_1 * (y_2 - y_1) / (x_2 - x_1)) + x * ((y_2 - y_1) / (x_2 - x_1))"
  by (simp add: linear_def diff_divide_distrib algebra_simps)

lemma linear_ends [simp]: "linear x_1 x_1 y_1 x_2 y_2 = y_1" "x_2 \<noteq> x_1 \<Longrightarrow> linear x_2 x_1 y_1 x_2 y_2 = y_2"
  by (simp_all add: linear_def)

lemma linear_between:
  assumes "x_1 \<le> x" "x \<le> x_2" "x_1 < x_2" "y_2 \<le> y_1"
  shows "y_2 \<le> linear x x_1 y_1 x_2 y_2" "linear x x_1 y_1 x_2 y_2 \<le> y_1"
proof -
  define q where "q = (x - x_1) / (x_2 - x_1)"
  have q: "0 \<le> q" "q \<le> 1" using assms(1-3) by (simp_all add: q_def field_simps)
  have l: "linear x x_1 y_1 x_2 y_2 = y_1 + (y_2 - y_1) * q" by (simp add: linear_def q_def)
  have "(y_2 - y_1) * q \<le> 0" using assms(4) q(1) by (intro mult_nonpos_nonneg) simp_all
  then show "linear x x_1 y_1 x_2 y_2 \<le> y_1" by (simp add: l)
  have "(y_2 - y_1) * 1 \<le> (y_2 - y_1) * q" using assms(4) q(2) by (intro mult_left_mono_neg) simp_all
  then show "y_2 \<le> linear x x_1 y_1 x_2 y_2" by (simp add: l)
qed

lemma hs_reset_lines:
  assumes "0 < hc_low_window c" "hc_low_window c < hc_high_window c"
  defines "lw \<equiv> ln (of_int (hc_low_window c))" and "hw \<equiv> ln (of_int (hc_high_window c))"
  shows "hs_dec1 (hs_reset c h) + x * hs_dec2 (hs_reset c h) = linear x lw (1/2) hw (hc_high_decrease c)"
    and "hs_p1 (hs_reset c h) + x * hs_p2 (hs_reset c h) =
      linear x lw (ln (hs_low_p (hs_reset c h))) hw (ln (hc_high_p c))"
proof -
  show "hs_dec1 (hs_reset c h) + x * hs_dec2 (hs_reset c h) = linear x lw (1/2) hw (hc_high_decrease c)"
    using linear_split by (simp add: hs_reset_def Let_def lw_def hw_def)
  show "hs_p1 (hs_reset c h) + x * hs_p2 (hs_reset c h) =
      linear x lw (ln (hs_low_p (hs_reset c h))) hw (ln (hc_high_p c))"
    using linear_split by (simp add: hs_reset_def Let_def lw_def hw_def)
qed

text \<open>
  C35. The formulas of HighSpeed TCP are those they replace. The comments of
  \<open>decrease_param\<close> and \<open>increase_param\<close> keep the old formulas and call the new ones
  equivalent: they are. With the parameters \<open>reset\<close> prepares, the decrease is the linear
  interpolation in the logarithm of the window between a half at \<open>low_window_\<close> and
  \<open>high_decrease_\<close> at \<open>high_window_\<close>, and lies between them; the increase, computed
  afresh, is $w^2 p \cdot 2d/(2-d)$ per round trip, with $p$ interpolated on the log-log scale.
\<close>

theorem highspeed_equivalent:
  fixes h :: hstcp
  assumes "0 < hc_low_window c" "hc_low_window c < hc_high_window c"
    and "of_int (hc_low_window c) < cwnd" "cwnd \<le> of_int (hc_high_window c)"
    and "0 < hc_high_decrease c" "hc_high_decrease c \<le> 1 / 2" and "hc_cwnd_range c = 0"
  defines "r \<equiv> hs_reset c h"
    and "lw \<equiv> ln (of_int (hc_low_window c))" and "hw \<equiv> ln (of_int (hc_high_window c))"
  shows "hs_decrease r cwnd = linear (ln cwnd) lw (1/2) hw (hc_high_decrease c) \<and>
    hc_high_decrease c \<le> hs_decrease r cwnd \<and> hs_decrease r cwnd \<le> 1 / 2 \<and>
    cwnd * fst (increase_param c cwnd r) =
      cwnd * cwnd * exp (linear (ln cwnd) lw (ln (hs_low_p r)) hw (ln (hc_high_p c))) *
        (2 * hs_decrease r cwnd) / (2 - hs_decrease r cwnd)"
proof -
  let ?d = "hs_decrease r cwnd"
  have pos: "0 < cwnd" using assms(1,3) by (meson less_trans of_int_0_less_iff)
  have d: "?d = linear (ln cwnd) lw (1/2) hw (hc_high_decrease c)"
    unfolding hs_decrease_def r_def lw_def hw_def by (rule hs_reset_lines(1) [OF assms(1,2)])
  have ord: "lw \<le> ln cwnd" "ln cwnd \<le> hw" "lw < hw"
    using assms(1-4) pos by (simp_all add: lw_def hw_def)
  have b: "hc_high_decrease c \<le> ?d" "?d \<le> 1 / 2" using linear_between [OF ord assms(6)] by (simp_all add: d)
  then have nz: "?d \<noteq> 0" "2 - ?d \<noteq> 0" using assms(5) by auto
  then have "1 / ?d - 0.5 = (2 - ?d) / (2 * ?d)" by (simp add: field_simps)
  moreover have "cwnd * fst (increase_param c cwnd r) = cwnd * cwnd * exp (hs_p1 r + ln cwnd * hs_p2 r) / (1 / ?d - 0.5)"
    using assms(3,7) pos by (simp add: increase_param_def Let_def)
  ultimately show ?thesis
    using d b hs_reset_lines(2) [OF assms(1,2), of h "ln cwnd"] unfolding r_def lw_def hw_def by simp
qed

definition demo_hs :: hs_conf where
  "demo_hs = \<lparr>hc_low_window = 38, hc_high_window = 83000, hc_high_p = 1 / 10000000, hc_high_decrease = 1 / 10,
     hc_cwnd_range = 0, hc_numdupacks = 3, hc_numdupacksFrac = 10\<rparr>"

theorem highspeed_equivalent_witness:
  "hs_decrease (hs_reset demo_hs new_hstcp) 83000 = 1 / 10 \<and>
   1000 * fst (increase_param demo_hs 1000 (hs_reset demo_hs new_hstcp)) =
     1000 * 1000 * exp (linear (ln 1000) (ln 38) (ln (1.5 / 1444)) (ln 83000) (ln (1 / 10000000))) *
       (2 * linear (ln 1000) (ln 38) (1 / 2) (ln 83000) (1 / 10)) / (2 - linear (ln 1000) (ln 38) (1 / 2) (ln 83000) (1 / 10))"
proof -
  have low: "hs_low_p (hs_reset demo_hs new_hstcp) = 1.5 / 1444" by (simp add: hs_reset_def demo_hs_def Let_def)
  have "ln 83000 \<noteq> ln (38 :: real)" by simp
  then show ?thesis
    using highspeed_equivalent [of demo_hs 83000 new_hstcp] highspeed_equivalent [of demo_hs 1000 new_hstcp]
    by (simp add: low) (simp add: demo_hs_def)
qed

text \<open>At \<open>low_window_\<close> the increase is one packet per round trip, as for the standard TCP below.\<close>

lemma highspeed_meets_standard:
  fixes h :: hstcp
  assumes "0 < hc_low_window c" "hc_low_window c < hc_high_window c"
  defines "r \<equiv> hs_reset c h" and "w \<equiv> of_int (hc_low_window c)"
  shows "w * w * exp (hs_p1 r + ln w * hs_p2 r) / (1 / hs_decrease r w - 0.5) = 1"
proof -
  have w: "0 < w" using assms(1) by (simp add: w_def)
  have d: "hs_decrease r w = 1 / 2" using hs_reset_lines(1) [OF assms(1,2)] by (simp add: hs_decrease_def r_def w_def)
  have p: "hs_p1 r + ln w * hs_p2 r = ln (hs_low_p r)"
    using hs_reset_lines(2) [OF assms(1,2)] by (simp add: r_def w_def)
  have "hs_low_p r = 1.5 / (w * w)" by (simp add: r_def w_def hs_reset_def Let_def)
  then show ?thesis unfolding d p using w by simp
qed

text \<open>
  The increase is kept for a range of windows. The record of the last one starts at zero, so
  with a range beyond \<open>low_window_\<close> the windows up to it find an increase of zero there, and
  since it is then never computed the window stays.
\<close>

theorem cached_increase_is_zero:
  assumes "hs_cwnd_last h = 0" "hs_increase_last h = 0"
    and "of_int (hc_low_window c) < cwnd" "0 \<le> hc_low_window c" "cwnd < of_int (hc_cwnd_range c)"
  shows "increase_param c cwnd (hs_reset c h) = (0, hs_reset c h)"
proof -
  have "0 \<le> cwnd" using assms(3,4) by (meson less_le_not_le of_int_0_le_iff order_trans)
  then show ?thesis using assms by (simp add: increase_param_def hs_reset_def Let_def)
qed

text \<open>
  Limited slow start: a window beyond half of \<open>max_ssthresh_\<close> grows by at least half of
  \<open>max_ssthresh_\<close> per round trip and, unless the increment it was given is larger, by less
  than \<open>max_ssthresh_\<close>.
\<close>

theorem limited_slow_start_bounds:
  assumes "0 < m" "of_int m / 2 \<le> cwnd" "0 \<le> increment"
  shows "of_int m / 2 \<le> cwnd * limited_slow_start cwnd m increment \<and>
    (limited_slow_start cwnd m increment \<noteq> increment \<longrightarrow> cwnd * limited_slow_start cwnd m increment < of_int m)"
proof -
  let ?q = "cwnd / (of_int m / 2)" and ?n = "c_trunc (cwnd / (of_int m / 2))"
  have m: "0 < (of_int m :: real)" and q: "1 \<le> ?q" using assms by (simp_all add: field_simps)
  then have n: "?n = \<lfloor>?q\<rfloor>" by (simp add: c_trunc_def)
  have n1: "1 \<le> ?n" using q unfolding n by (simp add: le_floor_iff)
  have fl: "of_int ?n \<le> ?q" "?q < of_int ?n + 1" unfolding n by linarith+
  have lo: "of_int m / 2 \<le> cwnd * (1 / of_int ?n)"
    using fl(1) m n1 by (simp add: field_simps)
  have "?q < 2 * of_int ?n" using fl(2) n1 by linarith
  then have hi: "cwnd * (1 / of_int ?n) < of_int m" using m n1 by (simp add: field_simps)
  have c: "0 \<le> cwnd" using assms(2) m by linarith
  have eq: "limited_slow_start cwnd m increment = (if increment < 1 / of_int ?n then 1 / of_int ?n else increment)"
    using assms(1) n1 by (simp add: limited_slow_start_def Let_def)
  show ?thesis
  proof (cases "increment < 1 / of_int ?n")
    case True
    then show ?thesis using lo hi eq by simp
  next
    case False
    then have "cwnd * (1 / of_int ?n) \<le> cwnd * increment" using c by (intro mult_left_mono) simp_all
    then have "of_int m / 2 \<le> cwnd * increment" using lo by linarith
    then show ?thesis using eq False by simp
  qed
qed

end
