(* ===== verification/HashClassifier.thy ===== *)
theory HashClassifier
  imports MultiPath
begin

section \<open>Classifiers with a hash table\<close>

text \<open>
  \<open>HashClassifier\<close> of classifier/classifier-hash.h and classifier/classifier-hash.cc, a
  \<open>Classifier\<close> that finds the slot of a packet in a hash table, with its four kinds of keys,
  and \<open>DestHashClassifier\<close>, the routing table of a node: \<open>do_install\<close> gives a destination
  the slot of its next object. The table of Tcl is a map from keys, the words that
  \<open>hashkey\<close> leaves in \<open>buf_\<close>; what the script does for an unknown flow is an argument.
\<close>

subsection \<open>Keys and table\<close>

datatype hash_kind = SrcDest | Fid | Dest | SrcDestFid

record hash_classifier = classifier +
  hc_default :: int
  hc_ht :: "32 word list \<rightharpoonup> int"

definition new_hash :: hash_classifier where
  "new_hash = classifier.extend new_classifier \<lparr>hc_default = -1, hc_ht = Map.empty\<rparr>"

fun hashkey :: "hash_kind \<Rightarrow> 'x classifier_scheme \<Rightarrow> 32 word \<Rightarrow> 32 word \<Rightarrow> 32 word \<Rightarrow> 32 word list" where
  "hashkey SrcDest c src dst fid = [mshift c src, mshift c dst]"
| "hashkey Fid c src dst fid = [fid]"
| "hashkey Dest c src dst fid = [mshift c dst]"
| "hashkey SrcDestFid c src dst fid = [mshift c src, mshift c dst, fid]"

definition set_hash :: "hash_kind \<Rightarrow> 32 word \<Rightarrow> 32 word \<Rightarrow> 32 word \<Rightarrow> int \<Rightarrow> hash_classifier \<Rightarrow> hash_classifier" where
  "set_hash kind src dst fid slot c = c\<lparr>hc_ht := (hc_ht c)(hashkey kind c src dst fid \<mapsto> slot)\<rparr>"

definition get_hash :: "hash_kind \<Rightarrow> 32 word \<Rightarrow> 32 word \<Rightarrow> 32 word \<Rightarrow> hash_classifier \<Rightarrow> int" where
  "get_hash kind src dst fid c = (case hc_ht c (hashkey kind c src dst fid) of Some v \<Rightarrow> v | None \<Rightarrow> -1)"

text \<open>\<open>lookup(Packet*)\<close>: the addresses are shifted here and once more by \<open>hashkey\<close>.\<close>

definition hc_lookup :: "hash_kind \<Rightarrow> hdr_ip \<Rightarrow> hash_classifier \<Rightarrow> int" where
  "hc_lookup kind h c =
     get_hash kind (mshift c (word_of_int (ip_saddr h))) (mshift c (word_of_int (ip_daddr h))) (word_of_int (ip_fid h)) c"

text \<open>\<open>classify\<close>; only \<open>DestHashClassifier\<close> does not ask the script about an unknown flow.\<close>

definition hc_classify :: "(hdr_ip \<Rightarrow> hash_classifier \<Rightarrow> hash_classifier) \<Rightarrow> hash_kind \<Rightarrow> hdr_ip \<Rightarrow> hash_classifier \<Rightarrow>
    (int \<times> hash_classifier) res" where
  "hc_classify unknown kind h c =
     (let slot = hc_lookup kind h c in
      if 0 \<le> slot \<and> slot \<le> cs_maxslot c then Inr (slot, c)
      else if 0 \<le> hc_default c then Inr (hc_default c, c)
      else if kind = Dest then Inr (-1, c)
      else let c1 = unknown h c in Inr (hc_lookup kind h c1, c1))"

definition hc_do_install :: "int \<Rightarrow> nat option \<Rightarrow> hash_classifier \<Rightarrow> hash_classifier res" where
  "hc_do_install dst target c =
     rbind (getnxt target c) (\<lambda>(slot, c1).
       rbind (install slot target c1) (\<lambda>c2. Inr (set_hash Dest 0 (word_of_int dst) 0 slot c2)))"

definition hc_set_default :: "int \<Rightarrow> hash_classifier \<Rightarrow> hash_classifier" where
  "hc_set_default slot c = c\<lparr>hc_default := slot\<rparr>"

definition hc_reset :: "hash_classifier \<Rightarrow> hash_classifier" where
  "hc_reset c = c\<lparr>hc_ht := Map.empty\<rparr>"

text \<open>
  The commands of a hash classifier. \<open>install\<close> of a \<open>DestHashClassifier\<close> is
  \<open>do_install\<close>; \<open>set-flowrate\<close>, which calls the script, is left out.
\<close>

datatype hash_cmd = Set_Hash int int int int | Hash_Lookup int int int | Del_Hash int int int | Other class_cmd

datatype hash_reply = H_Ok | H_Error | H_Empty | H_Object nat | H_Slot int | H_Other class_reply

fun hash_command :: "hash_kind \<Rightarrow> hash_cmd \<Rightarrow> hash_classifier \<Rightarrow> (hash_reply \<times> hash_classifier) res" where
  "hash_command kind (Set_Hash src dst fid slot) c =
     Inr (if 0 > slot then H_Error else H_Ok, set_hash kind (word_of_int src) (word_of_int dst) (word_of_int fid) slot c)"
| "hash_command kind (Hash_Lookup src dst fid) c =
     (let slot = get_hash kind (word_of_int src) (word_of_int dst) (word_of_int fid) c in
      if 0 \<le> slot \<and> slot \<le> cs_maxslot c then
        rbind (vec_get (cs_slot c) slot) (\<lambda>x. case x of None \<Rightarrow> Inl Null_Deref | Some n \<Rightarrow> Inr (H_Object n, c))
      else Inr (H_Empty, c))"
| "hash_command kind (Del_Hash src dst fid) c =
     (let k = hashkey kind c (word_of_int src) (word_of_int dst) (word_of_int fid) in
      case hc_ht c k of
        Some slot \<Rightarrow> Inr (H_Slot slot, c\<lparr>hc_ht := (hc_ht c)(k := None)\<rparr>)
      | None \<Rightarrow> Inr (H_Error, c))"
| "hash_command kind (Other cmd) c =
     (case (kind, cmd) of
        (Dest, Install dst node) \<Rightarrow> rbind (hc_do_install dst node c) (\<lambda>c1. Inr (H_Ok, c1))
      | _ \<Rightarrow> rbind (class_command cmd c) (\<lambda>(r, c1). Inr (H_Other r, c1)))"

subsection \<open>The routing table is a map\<close>

text \<open>Where a packet with this key goes.\<close>

definition route_to :: "hash_classifier \<Rightarrow> 32 word \<Rightarrow> nat option" where
  "route_to c k = (case hc_ht c [k] of None \<Rightarrow> None | Some s \<Rightarrow> if 0 \<le> s \<and> s \<le> cs_maxslot c then slot_at s c else None)"

text \<open>The filled slots are the first ones and hold different objects; the hash table names filled slots.\<close>

definition hash_ok :: "hash_classifier \<Rightarrow> bool" where
  "hash_ok c \<longleftrightarrow> top_ok c \<and> 0 \<le> cs_nsize c \<and> (\<forall>i. 0 \<le> i \<and> i \<le> cs_maxslot c \<longrightarrow> slot_at i c \<noteq> None) \<and>
     (\<forall>i j. slot_at i c \<noteq> None \<and> slot_at i c = slot_at j c \<longrightarrow> i = j) \<and>
     (\<forall>k s. hc_ht c k = Some s \<longrightarrow> 0 \<le> s \<and> s \<le> cs_maxslot c)"

definition targets :: "'x classifier_scheme \<Rightarrow> nat set" where
  "targets c = {t. \<exists>i. slot_at i c = Some t}"

lemma slot_in_range: "slot_at i c = Some t \<Longrightarrow> 0 \<le> i \<and> i < nslot c"
  by (auto simp: slot_at_def split: if_splits)

lemma slot_of_hash [simp]: "slot_at i (c\<lparr>hc_ht := m\<rparr>) = slot_at i c"
  by (simp add: slot_at_def)

lemma top_of_hash [simp]: "top_ok (c\<lparr>hc_ht := m\<rparr>) = top_ok c"
  by (simp add: top_ok_def)

lemma getnxt_frame:
  assumes "getnxt na c = Inr (i, c1)"
  shows "hc_ht c1 = hc_ht c" "hc_default c1 = hc_default c" "cs_shift c1 = cs_shift c" "cs_mask c1 = cs_mask c"
  using assms by (auto simp: getnxt_def alloc_slots_def rbind_eq_Inr split: option.splits)

lemma install_frame:
  assumes "install slot p c = Inr c1"
  shows "hc_ht c1 = hc_ht c" "hc_default c1 = hc_default c" "cs_shift c1 = cs_shift c" "cs_mask c1 = cs_mask c"
  using assms by (auto simp: install_def alloc_slots_def rbind_eq_Inr split: if_splits)

lemma mshift_cong: "cs_shift c1 = cs_shift c \<Longrightarrow> cs_mask c1 = cs_mask c \<Longrightarrow> mshift c1 = mshift c"
  by (simp add: mshift_def fun_eq_iff)

text \<open>An object is put into the slot that holds it, or else into the first empty one.\<close>

lemma do_install_slots:
  assumes "top_ok c" "0 \<le> cs_nsize c"
  shows "\<exists>s c'. hc_do_install d p c = Inr c' \<and> 0 \<le> s \<and> s < nslot c' \<and> (slot_at s c = None \<or> slot_at s c = p) \<and>
    (\<forall>j. 0 \<le> j \<and> j < s \<longrightarrow> slot_at j c \<noteq> None \<and> slot_at j c \<noteq> p) \<and>
    (\<forall>i. slot_at i c' = (if i = s then p else slot_at i c)) \<and> cs_maxslot c' = max (cs_maxslot c) s \<and> nslot c \<le> nslot c' \<and>
    hc_ht c' = (hc_ht c)([mshift c (word_of_int d)] \<mapsto> s) \<and> hc_default c' = hc_default c \<and> cs_default c' = cs_default c \<and>
    cs_nsize c' = cs_nsize c \<and> cs_shift c' = cs_shift c \<and> cs_mask c' = cs_mask c"
proof -
  obtain s c1 where g: "getnxt p c = Inr (s, c1)" "0 \<le> s" "s < nslot c1" "\<forall>j. slot_at j c1 = slot_at j c" "nslot c \<le> nslot c1"
    "cs_maxslot c1 = cs_maxslot c" "cs_nsize c1 = cs_nsize c" "cs_default c1 = cs_default c" "slot_at s c = None \<or> slot_at s c = p"
    "\<forall>j. 0 \<le> j \<and> j < s \<longrightarrow> slot_at j c \<noteq> None \<and> slot_at j c \<noteq> p" using getnxt_ok [OF assms(2), of p] by blast
  have "0 \<le> cs_nsize c1" using g(7) assms(2) by simp
  then obtain c2 where i: "install s p c1 = Inr c2" "\<forall>i. slot_at i c2 = (if i = s then p else slot_at i c1)" "nslot c1 \<le> nslot c2"
    "s < nslot c2" "cs_maxslot c2 = max (cs_maxslot c1) s" "cs_nsize c2 = cs_nsize c1" "cs_default c2 = cs_default c1"
    using install_ok [OF _ g(2), of c1 p] by blast
  note f = getnxt_frame [OF g(1)] install_frame [OF i(1)]
  have "mshift c2 = mshift c" using f by (intro mshift_cong) simp_all
  then have "hc_do_install d p c = Inr (c2\<lparr>hc_ht := (hc_ht c)([mshift c (word_of_int d)] \<mapsto> s)\<rparr>)"
    by (simp add: hc_do_install_def g(1) i(1) set_hash_def f)
  then show ?thesis using g i f by (intro exI [of _ s] exI) auto
qed

lemma placed_once:
  assumes "\<forall>i j. f i \<noteq> None \<and> f i = f j \<longrightarrow> i = j" "f s = None \<or> f s = Some t" "\<forall>i. f i = Some t \<longrightarrow> i = s"
  shows "\<forall>i j. (f(s := Some t)) i \<noteq> None \<and> (f(s := Some t)) i = (f(s := Some t)) j \<longrightarrow> i = j"
    and "{u. \<exists>i. (f(s := Some t)) i = Some u} = insert t {u. \<exists>i. f i = Some u}"
proof -
  show "\<forall>i j. (f(s := Some t)) i \<noteq> None \<and> (f(s := Some t)) i = (f(s := Some t)) j \<longrightarrow> i = j"
    using assms(1,3) by (metis fun_upd_apply)
  have "\<exists>i. (f(s := Some t)) i = Some u" if "u = t \<or> f j = Some u" for j u
    using that assms(2) by (cases "u = t") (intro exI [of _ s], simp, intro exI [of _ j], auto)
  moreover have "u = t \<or> (\<exists>i. f i = Some u)" if "(f(s := Some t)) j = Some u" for j u
    using that by (auto split: if_splits)
  ultimately show "{u. \<exists>i. (f(s := Some t)) i = Some u} = insert t {u. \<exists>i. f i = Some u}" by blast
qed

lemma do_install_ok:
  assumes "hash_ok c"
  shows "\<exists>c'. hc_do_install d (Some t) c = Inr c' \<and> hash_ok c' \<and>
    route_to c' = (route_to c)(mshift c (word_of_int d) \<mapsto> t) \<and> targets c' = insert t (targets c) \<and>
    hc_default c' = hc_default c \<and> cs_default c' = cs_default c \<and> cs_shift c' = cs_shift c \<and> cs_mask c' = cs_mask c"
proof -
  have ok: "top_ok c" "0 \<le> cs_nsize c" "\<forall>i. 0 \<le> i \<and> i \<le> cs_maxslot c \<longrightarrow> slot_at i c \<noteq> None"
    "\<forall>i j. slot_at i c \<noteq> None \<and> slot_at i c = slot_at j c \<longrightarrow> i = j" "\<forall>k s. hc_ht c k = Some s \<longrightarrow> 0 \<le> s \<and> s \<le> cs_maxslot c"
    using assms by (auto simp: hash_ok_def)
  have above: "\<forall>i > cs_maxslot c. slot_at i c = None" using ok(1) by (simp add: top_ok_def)
  obtain s c' where c': "hc_do_install d (Some t) c = Inr c'" "0 \<le> s" "s < nslot c'" "slot_at s c = None \<or> slot_at s c = Some t"
    "\<forall>j. 0 \<le> j \<and> j < s \<longrightarrow> slot_at j c \<noteq> None \<and> slot_at j c \<noteq> Some t" "\<forall>i. slot_at i c' = (if i = s then Some t else slot_at i c)"
    "cs_maxslot c' = max (cs_maxslot c) s" "nslot c \<le> nslot c'" "hc_ht c' = (hc_ht c)([mshift c (word_of_int d)] \<mapsto> s)"
    "hc_default c' = hc_default c" "cs_default c' = cs_default c" "cs_nsize c' = cs_nsize c" "cs_shift c' = cs_shift c" "cs_mask c' = cs_mask c"
    using do_install_slots [OF ok(1,2)] by blast
  have m1: "0 \<le> cs_maxslot c + 1" using ok(1) by (simp add: top_ok_def)
  have s: "s \<le> cs_maxslot c + 1"
  proof (rule ccontr)
    assume "\<not> s \<le> cs_maxslot c + 1"
    then show False using c'(5) m1 above by (metis less_add_one not_le)
  qed
  have top: "top_ok c'" by (rule top_install [OF ok(1) c'(6) c'(3) c'(8) c'(7) c'(2)])
  have pre: "slot_at i c' \<noteq> None" if "0 \<le> i" "i \<le> cs_maxslot c'" for i
    using that s c'(6,7) ok(3) by (cases "i = s") auto
  have only: "i = s" if "slot_at i c = Some t" for i
  proof -
    have i: "0 \<le> i" "i \<le> cs_maxslot c" using that above slot_in_range [OF that] by (auto intro: leI)
    have "\<not> i < s" using that c'(5) i(1) by auto
    then have "slot_at s c \<noteq> None" using i s ok(3) c'(2) by auto
    then show ?thesis using c'(4) ok(4) that by metis
  qed
  have f': "(\<lambda>i. slot_at i c') = (\<lambda>i. slot_at i c)(s := Some t)" using c'(6) by auto
  note once = placed_once [of "\<lambda>i. slot_at i c", OF _ c'(4), folded f']
  have ht: "0 \<le> v \<and> v \<le> cs_maxslot c'" if "hc_ht c' k = Some v" for k v
    using that c'(2,7,9) ok(5) by (auto simp: le_max_iff_disj split: if_splits)
  have "route_to c' k = ((route_to c)(mshift c (word_of_int d) \<mapsto> t)) k" for k
  proof (cases "k = mshift c (word_of_int d)")
    case True
    then show ?thesis using c'(2,6,7,9) by (simp add: route_to_def)
  next
    case False
    then have same: "hc_ht c' [k] = hc_ht c [k]" using c'(9) by simp
    have "slot_at v c' = slot_at v c \<and> v \<le> cs_maxslot c' \<and> v \<le> cs_maxslot c \<and> 0 \<le> v" if "hc_ht c [k] = Some v" for v
    proof -
      have v: "0 \<le> v" "v \<le> cs_maxslot c" using ok(5) that by auto
      then have "slot_at v c \<noteq> None" using ok(3) by simp
      then show ?thesis using v c'(4,6,7) by auto
    qed
    then show ?thesis using same False by (auto simp: route_to_def split: option.splits)
  qed
  moreover have "targets c' = insert t (targets c)" using once(2) ok(4) only by (simp add: targets_def)
  moreover have "hash_ok c'" using top pre once(1) ok(4) only ht ok(2) c'(12) by (simp add: hash_ok_def)
  ultimately show ?thesis using c' by (intro exI [of _ c']) (simp add: fun_eq_iff)
qed

subsection \<open>Packets\<close>

text \<open>The address of a packet is shifted twice; the second time changes nothing if \<open>shift_\<close> is 0.\<close>

lemma mshift_twice: "cs_shift c = 0 \<Longrightarrow> mshift c (mshift c v) = mshift c v"
  by (simp add: mshift_def and.assoc)

lemma classify_route:
  assumes "hash_ok c" "cs_shift c = 0" "hc_default c = -1"
  shows "hc_classify unk Dest h c =
    Inr (case hc_ht c [mshift c (word_of_int (ip_daddr h))] of Some s \<Rightarrow> s | None \<Rightarrow> -1, c)"
proof -
  have l: "hc_lookup Dest h c = (case hc_ht c [mshift c (word_of_int (ip_daddr h))] of Some s \<Rightarrow> s | None \<Rightarrow> -1)"
    by (simp add: hc_lookup_def get_hash_def mshift_twice [OF assms(2)])
  have "hc_ht c k = Some s \<Longrightarrow> 0 \<le> s \<and> s \<le> cs_maxslot c" for k s using assms(1) by (auto simp: hash_ok_def)
  then show ?thesis using assms(3) by (auto simp: hc_classify_def l Let_def split: option.splits)
qed

lemma recv_routed:
  assumes "hash_ok c" "cs_shift c = 0" "hc_default c = -1" "route_to c (mshift c (word_of_int (ip_daddr h))) = Some t"
  shows "cs_recv no_slot (hc_classify unk Dest) h c = Inr (Passed t, c)"
proof -
  obtain s where s: "hc_ht c [mshift c (word_of_int (ip_daddr h))] = Some s" "slot_at s c = Some t"
    using assms(4) by (auto simp: route_to_def split: option.splits if_splits)
  then show ?thesis by (simp add: cs_recv_def cs_find_def classify_route [OF assms(1-3)])
qed

lemma route_None_iff: "hash_ok c \<Longrightarrow> route_to c k = None \<longleftrightarrow> hc_ht c [k] = None"
  by (cases "hc_ht c [k]") (auto simp: route_to_def hash_ok_def)

lemma recv_unrouted:
  assumes "hash_ok c" "cs_shift c = 0" "hc_default c = -1" "cs_default c = None"
    and "route_to c (mshift c (word_of_int (ip_daddr h))) = None"
  shows "cs_recv (\<lambda>_ c. c) (hc_classify unk Dest) h c = Inr (Freed, c)"
proof -
  have "hc_ht c [mshift c (word_of_int (ip_daddr h))] = None"
    using assms(1,5) route_None_iff by simp
  then show ?thesis using assms(4)
    by (simp add: cs_recv_def cs_find_def classify_route [OF assms(1-3)] slot_at_def TWICE_def)
qed

subsection \<open>Histories of installations\<close>

definition install_routes :: "(int \<times> nat) list \<Rightarrow> hash_classifier \<Rightarrow> hash_classifier res" where
  "install_routes = rfold (\<lambda>(d, t). hc_do_install d (Some t))"

lemma install_routes_ok:
  assumes "hash_ok c"
  shows "\<exists>c'. install_routes rs c = Inr c' \<and> hash_ok c' \<and>
    route_to c' = fold (\<lambda>(d, t) m. m(mshift c (word_of_int d) \<mapsto> t)) rs (route_to c) \<and> targets c' = targets c \<union> snd ` set rs \<and>
    hc_default c' = hc_default c \<and> cs_default c' = cs_default c \<and> cs_shift c' = cs_shift c \<and> cs_mask c' = cs_mask c"
  using assms
proof (induction rs arbitrary: c)
  case Nil
  then show ?case by (simp add: install_routes_def)
next
  case (Cons r rs)
  obtain d t where r: "r = (d, t)" by (cases r)
  obtain c1 where c1: "hc_do_install d (Some t) c = Inr c1" "hash_ok c1"
    "route_to c1 = (route_to c)(mshift c (word_of_int d) \<mapsto> t)" "targets c1 = insert t (targets c)"
    "hc_default c1 = hc_default c" "cs_default c1 = cs_default c" "cs_shift c1 = cs_shift c" "cs_mask c1 = cs_mask c"
    using do_install_ok [OF Cons.prems] by blast
  have "mshift c1 = mshift c" using c1 by (intro mshift_cong) simp_all
  then show ?case using Cons.IH [OF c1(2)] c1 by (auto simp: r install_routes_def)
qed

lemma last_route:
  "fold (\<lambda>(d, t) m. m(f d \<mapsto> t)) rs m k = (case find (\<lambda>r. f (fst r) = k) (rev rs) of Some r \<Rightarrow> Some (snd r) | None \<Rightarrow> m k)"
  by (induction rs rule: rev_induct) auto

text \<open>Objects take one slot each.\<close>

lemma slots_used:
  assumes "hash_ok c"
  shows "cs_maxslot c + 1 = int (card (targets c))"
proof -
  have ok: "top_ok c" "\<forall>i. 0 \<le> i \<and> i \<le> cs_maxslot c \<longrightarrow> slot_at i c \<noteq> None"
    "\<forall>i j. slot_at i c \<noteq> None \<and> slot_at i c = slot_at j c \<longrightarrow> i = j" using assms by (auto simp: hash_ok_def)
  have "targets c = (\<lambda>i. the (slot_at i c)) ` {0..cs_maxslot c}"
  proof
    show "targets c \<subseteq> (\<lambda>i. the (slot_at i c)) ` {0..cs_maxslot c}"
    proof
      fix t assume "t \<in> targets c"
      then obtain i where i: "slot_at i c = Some t" by (auto simp: targets_def)
      then have "i \<in> {0..cs_maxslot c}" using ok(1) slot_in_range [OF i] by (auto simp: top_ok_def intro: leI)
      then show "t \<in> (\<lambda>i. the (slot_at i c)) ` {0..cs_maxslot c}" using i by (intro image_eqI [of _ _ i]) simp_all
    qed
    show "(\<lambda>i. the (slot_at i c)) ` {0..cs_maxslot c} \<subseteq> targets c" using ok(2) by (auto simp: targets_def)
  qed
  moreover have "inj_on (\<lambda>i. the (slot_at i c)) {0..cs_maxslot c}"
  proof (rule inj_onI)
    fix i j assume ij: "i \<in> {0..cs_maxslot c}" "j \<in> {0..cs_maxslot c}" "the (slot_at i c) = the (slot_at j c)"
    then have "slot_at i c \<noteq> None" "slot_at j c \<noteq> None" using ok(2) by auto
    then show "i = j" using ij(3) ok(3) by (metis option.expand)
  qed
  ultimately have "card (targets c) = card {0..cs_maxslot c}" by (simp add: card_image)
  then show ?thesis using ok(1) by (simp add: top_ok_def)
qed

lemma new_hash_ok: "hash_ok (new_hash\<lparr>cs_shift := sh, cs_mask := mk\<rparr>)" "route_to (new_hash\<lparr>cs_shift := sh, cs_mask := mk\<rparr>) k = None"
  "targets (new_hash\<lparr>cs_shift := sh, cs_mask := mk\<rparr>) = {}"
  by (auto simp: new_hash_def new_classifier_def classifier.defs hash_ok_def top_ok_def slot_at_def route_to_def targets_def)

text \<open>
  The routing table of a node is a map from destinations to objects. After any sequence
  of \<open>install\<close> of existing objects on a new \<open>DestHashClassifier\<close> with mask \<open>mk\<close>, a packet is
  passed to the object that was last installed for its destination (up to the mask), and
  freed if there was none; and the table has exactly one slot for every object, however many
  destinations share it.
\<close>

theorem hash_routes_are_a_map:
  "\<exists>c. install_routes rs (new_hash\<lparr>cs_mask := mk\<rparr>) = Inr c \<and> cs_maxslot c + 1 = int (card (snd ` set rs)) \<and>
    (\<forall>unk h. cs_recv (\<lambda>_ c. c) (hc_classify unk Dest) h c =
       Inr (case find (\<lambda>r. and (word_of_int (fst r)) mk = and (word_of_int (ip_daddr h)) mk) (rev rs) of
              Some r \<Rightarrow> Passed (snd r) | None \<Rightarrow> Freed, c))"
proof -
  let ?c = "new_hash\<lparr>cs_shift := 0, cs_mask := mk\<rparr>"
  have c: "new_hash\<lparr>cs_mask := mk\<rparr> = ?c" "hc_default ?c = -1" "cs_default ?c = None" "cs_shift ?c = 0"
    by (simp_all add: new_hash_def new_classifier_def classifier.defs)
  have m: "mshift ?c v = and v mk" for v by (simp add: mshift_def)
  obtain c' where c': "install_routes rs ?c = Inr c'" "hash_ok c'"
    "route_to c' = fold (\<lambda>(d, t) m. m(mshift ?c (word_of_int d) \<mapsto> t)) rs (route_to ?c)" "targets c' = targets ?c \<union> snd ` set rs"
    "hc_default c' = hc_default ?c" "cs_default c' = cs_default ?c" "cs_shift c' = cs_shift ?c" "cs_mask c' = cs_mask ?c"
    using install_routes_ok [OF new_hash_ok(1)] by blast
  have k: "mshift c' = mshift ?c" using c' by (intro mshift_cong)
  have "route_to c' k = map_option snd (find (\<lambda>r. and (word_of_int (fst r)) mk = k) (rev rs))" for k
    unfolding c'(3) last_route new_hash_ok(2) m by (simp split: option.split)
  then show ?thesis using c' recv_routed [OF c'(2)] recv_unrouted [OF c'(2)] k m slots_used [OF c'(2)] new_hash_ok(3) c
    by (intro exI [of _ c']) (auto split: option.splits)
qed

text \<open>
  \<open>install\<close> of a name that no object has records a slot that stays empty: the next object
  that is not yet in the table takes that slot, and packets to the first destination
  follow it.
\<close>

theorem null_route_captured:
  assumes "hash_ok c" and "t \<notin> targets c" and "mshift c (word_of_int d) \<noteq> mshift c (word_of_int e)"
  shows "\<exists>c1 c2. hc_do_install d None c = Inr c1 \<and> hc_do_install e (Some t) c1 = Inr c2 \<and>
    route_to c1 (mshift c (word_of_int d)) = None \<and> route_to c2 (mshift c (word_of_int d)) = Some t"
proof -
  have ok: "top_ok c" "0 \<le> cs_nsize c" "\<forall>i. 0 \<le> i \<and> i \<le> cs_maxslot c \<longrightarrow> slot_at i c \<noteq> None"
    using assms(1) by (auto simp: hash_ok_def)
  obtain s c1 where c1: "hc_do_install d None c = Inr c1" "0 \<le> s" "s < nslot c1" "slot_at s c = None \<or> slot_at s c = None"
    "\<forall>j. 0 \<le> j \<and> j < s \<longrightarrow> slot_at j c \<noteq> None \<and> slot_at j c \<noteq> None" "\<forall>i. slot_at i c1 = (if i = s then None else slot_at i c)"
    "cs_maxslot c1 = max (cs_maxslot c) s" "hc_ht c1 = (hc_ht c)([mshift c (word_of_int d)] \<mapsto> s)"
    "cs_nsize c1 = cs_nsize c" "cs_shift c1 = cs_shift c" "cs_mask c1 = cs_mask c"
    using do_install_slots [OF ok(1,2), of d None] by blast
  have none: "slot_at i c1 \<noteq> Some t" for i using assms(2) c1(6) by (auto simp: targets_def)
  obtain i c0 where g: "getnxt (Some t) c1 = Inr (i, c0)" "0 \<le> i" "i < nslot c0" "\<forall>j. slot_at j c0 = slot_at j c1"
    "cs_maxslot c0 = cs_maxslot c1" "cs_nsize c0 = cs_nsize c1" "slot_at i c1 = None \<or> slot_at i c1 = Some t"
    "\<forall>j. 0 \<le> j \<and> j < i \<longrightarrow> slot_at j c1 \<noteq> None \<and> slot_at j c1 \<noteq> Some t"
    using getnxt_ok [of c1 "Some t"] c1(9) ok(2) by auto
  have "\<not> s < i" using g(8) c1(2,6) by auto
  moreover have "\<not> i < s" using g(2,7) none c1(5,6) by (metis less_irrefl)
  ultimately have i: "i = s" by simp
  have "0 \<le> cs_nsize c0" using g(6) c1(9) ok(2) by simp
  then obtain c3 where c3: "install s (Some t) c0 = Inr c3" "\<forall>i. slot_at i c3 = (if i = s then Some t else slot_at i c0)"
    "cs_maxslot c3 = max (cs_maxslot c0) s" using install_ok [OF _ c1(2), of c0 "Some t"] by blast
  note f = getnxt_frame [OF g(1)] install_frame [OF c3(1)]
  have k: "mshift c3 = mshift c" using f c1 by (intro mshift_cong) simp_all
  have "hc_do_install e (Some t) c1 = Inr (set_hash Dest 0 (word_of_int e) 0 s c3)" using g(1) c3(1) i by (simp add: hc_do_install_def)
  moreover have "route_to (set_hash Dest 0 (word_of_int e) 0 s c3) (mshift c (word_of_int d)) = Some t"
    using assms(3) c1(2,7,8) c3(2,3) f k g(5) by (simp add: route_to_def set_hash_def)
  moreover have "route_to c1 (mshift c (word_of_int d)) = None" using c1(6,8) by (simp add: route_to_def)
  ultimately show ?thesis using c1(1) by blast
qed

text \<open>With a shift, a destination and the packets to it have different keys.\<close>

theorem shifted_twice_missed:
  "\<exists>c. hc_do_install 256 (Some 7) (new_hash\<lparr>cs_shift := 8\<rparr>) = Inr c \<and> route_to c 1 = Some 7 \<and>
    cs_recv (\<lambda>_ c. c) (hc_classify unk Dest) (zero_ip\<lparr>ip_daddr := 256\<rparr>) c = Inr (Freed, c)"
proof -
  let ?c = "new_hash\<lparr>cs_shift := 8\<rparr>"
  have n: "top_ok ?c" "0 \<le> cs_nsize ?c" "hc_ht ?c = Map.empty" "hc_default ?c = -1" "cs_default ?c = None" "cs_shift ?c = 8" "cs_mask ?c = - 1"
    by (simp_all add: new_hash_def new_classifier_def classifier.defs top_ok_def slot_at_def)
  have sh: "mshift ?c 256 = 1" using n(6,7) by (simp add: mshift_def)
  obtain s c' where c': "hc_do_install 256 (Some 7) ?c = Inr c'" "0 \<le> s" "\<forall>i. slot_at i c' = (if i = s then Some 7 else slot_at i ?c)"
    "cs_maxslot c' = max (cs_maxslot ?c) s" "hc_ht c' = (hc_ht ?c)([mshift ?c (word_of_int 256)] \<mapsto> s)"
    "hc_default c' = hc_default ?c" "cs_default c' = cs_default ?c" "cs_shift c' = cs_shift ?c" "cs_mask c' = cs_mask ?c"
    using do_install_slots [OF n(1,2), of 256 "Some 7"] by blast
  have ht: "hc_ht c' = [[1] \<mapsto> s]" using c'(5) n(3) sh by simp
  have "mshift c' = mshift ?c" using c'(8,9) by (intro mshift_cong)
  moreover have "mshift ?c 1 = 0" using n(6,7) by (simp add: mshift_def)
  ultimately have "hc_lookup Dest (zero_ip\<lparr>ip_daddr := 256\<rparr>) c' = -1"
    using sh ht by (simp add: hc_lookup_def get_hash_def)
  then have "hc_classify unk Dest (zero_ip\<lparr>ip_daddr := 256\<rparr>) c' = Inr (-1, c')"
    using c'(6) n(4) by (simp add: hc_classify_def)
  then have "cs_recv (\<lambda>_ c. c) (hc_classify unk Dest) (zero_ip\<lparr>ip_daddr := 256\<rparr>) c' = Inr (Freed, c')"
    using c'(7) n(5) by (simp add: cs_recv_def cs_find_def slot_at_def TWICE_def)
  moreover have "route_to c' 1 = Some 7" using ht c'(2,3,4) by (simp add: route_to_def)
  ultimately show ?thesis using c'(1) by blast
qed

theorem null_route_captured_witness:
  "\<exists>c1 c2. hc_do_install 3 None (new_hash\<lparr>cs_shift := 0, cs_mask := - 1\<rparr>) = Inr c1 \<and> hc_do_install 4 (Some 7) c1 = Inr c2 \<and>
    route_to c1 3 = None \<and> route_to c2 3 = Some 7"
proof -
  have "mshift (new_hash\<lparr>cs_shift := 0, cs_mask := - 1\<rparr>) v = v" for v
    by (simp add: mshift_def new_hash_def new_classifier_def classifier.defs)
  with null_route_captured [OF new_hash_ok(1) [where sh = 0 and mk = "- 1"], of 7 3 4] show ?thesis
    by (simp add: new_hash_ok(3))
qed

end
