(* ===== verification/Forwarding.thy ===== *)
theory Forwarding
  imports HashClassifier RoutedPaths
begin

section \<open>From the routes to the packets\<close>

text \<open>
  How the computed routes reach the nodes and what packets do with them:
  \<open>RoutingModule\<close> of routing/rtmodule.cc, the chain of modules behind a node, with the part of
  \<open>Node\<close> (common/node.cc) that calls it; \<open>Simulator\<close> of common/simulator.cc, which asks
  \<open>RouteLogic\<close> for every pair of nodes and installs the link to the next hop in the routing
  table; \<open>TTLChecker\<close> of common/ttl.cc at the end of every link; and \<open>PortClassifier\<close>, by
  which a node hands a packet to an agent. Queues and delays of links are the subject of
  other theories: here a packet is where its next classifier is. The head of the link
  between two nodes (\<open>get-link-head\<close>) and the callback for a missing slot are Tcl, and
  arguments.
\<close>

subsection \<open>Routing modules\<close>

text \<open>
  A module's classifier is a \<open>DestHashClassifier\<close>, an index into the store. \<open>Rtm_Silent\<close> are
  the modules whose \<open>add_route\<close> is empty (\<open>VC\<close>, \<open>LMS\<close>). \<open>ManualRoutingModule\<close> declares
  a \<open>classifier_\<close> of its own, which is never set, and its \<open>add_route\<close> uses that one.
\<close>

datatype rtm_kind = Rtm_Table | Rtm_Manual | Rtm_Silent

record rtm =
  rm_kind :: rtm_kind
  rm_node :: "nat option"
  rm_classifier :: "nat option"
  rm_next :: "nat option"

record fnode =
  fn_nodeid :: int
  fn_rtnotif :: "nat option"
  fn_entry :: nat

record ttl_checker =
  tt_noWarn :: int
  tt_tick :: int

text \<open>What a slot of a routing table names: the demultiplexer of the ports, or a link to a node.\<close>

datatype hop_object = Port_Demux nat | Link_Head nat ttl_checker

record fabric =
  fw_nodes :: "fnode list"
  fw_mods :: "rtm list"
  fw_cls :: "hash_classifier list"
  fw_ports :: "classifier list"
  fw_objs :: "hop_object list"

definition rtm_install :: "nat option \<Rightarrow> int \<Rightarrow> nat option \<Rightarrow> fabric \<Rightarrow> fabric res" where
  "rtm_install cl dst target w =
     (case cl of
        None \<Rightarrow> Inr w
      | Some c \<Rightarrow> rbind (vec_get (fw_cls w) (int c)) (\<lambda>h. rbind (hc_do_install dst target h) (\<lambda>h1. Inr (w\<lparr>fw_cls := (fw_cls w)[c := h1]\<rparr>))))"

text \<open>One turn of fuel for every module; a chain without a cycle is not longer.\<close>

fun rtm_add_route :: "nat \<Rightarrow> nat option \<Rightarrow> int \<Rightarrow> nat option \<Rightarrow> fabric \<Rightarrow> fabric res" where
  "rtm_add_route k None dst target w = Inr w"
| "rtm_add_route 0 (Some m) dst target w = Inl Diverges"
| "rtm_add_route (Suc k) (Some m) dst target w =
     rbind (vec_get (fw_mods w) (int m)) (\<lambda>r.
       case rm_kind r of
         Rtm_Silent \<Rightarrow> Inr w
       | Rtm_Manual \<Rightarrow> Inl Uninitialized
       | Rtm_Table \<Rightarrow> rbind (rtm_install (rm_classifier r) dst target w) (rtm_add_route k (rm_next r) dst target))"

definition rtm_delete_route :: "nat \<Rightarrow> nat \<Rightarrow> int \<Rightarrow> nat option \<Rightarrow> fabric \<Rightarrow> fabric res" where
  "rtm_delete_route k m dst nullagent w =
     rbind (vec_get (fw_mods w) (int m)) (\<lambda>r.
       rbind (rtm_install (rm_classifier r) dst nullagent w) (rtm_add_route k (rm_next r) dst nullagent))"

fun rtm_set_table_size :: "nat \<Rightarrow> nat option \<Rightarrow> int \<Rightarrow> fabric \<Rightarrow> fabric res" where
  "rtm_set_table_size k None nn w = Inr w"
| "rtm_set_table_size 0 (Some m) nn w = Inl Diverges"
| "rtm_set_table_size (Suc k) (Some m) nn w =
     rbind (vec_get (fw_mods w) (int m)) (\<lambda>r.
       rbind (case rm_classifier r of
                None \<Rightarrow> Inr w
              | Some c \<Rightarrow> rbind (vec_upd (fw_cls w) (int c) (set_table_size nn)) (\<lambda>cls. Inr (w\<lparr>fw_cls := cls\<rparr>)))
         (rtm_set_table_size k (rm_next r) nn))"

definition set_rtm_next :: "nat \<Rightarrow> nat option \<Rightarrow> fabric \<Rightarrow> fabric" where
  "set_rtm_next m nx w = w\<lparr>fw_mods := (fw_mods w)[m := (fw_mods w ! m)\<lparr>rm_next := nx\<rparr>]\<rparr>"

fun rtm_route_notify :: "nat \<Rightarrow> nat \<Rightarrow> nat \<Rightarrow> fabric \<Rightarrow> fabric res" where
  "rtm_route_notify 0 m new w = Inl Diverges"
| "rtm_route_notify (Suc k) m new w =
     rbind (vec_get (fw_mods w) (int m)) (\<lambda>r.
       case rm_next r of Some m2 \<Rightarrow> rtm_route_notify k m2 new w | None \<Rightarrow> Inr (set_rtm_next m (Some new) w))"

fun rtm_unreg_route_notify :: "nat \<Rightarrow> nat \<Rightarrow> nat \<Rightarrow> fabric \<Rightarrow> fabric res" where
  "rtm_unreg_route_notify 0 m old w = Inl Diverges"
| "rtm_unreg_route_notify (Suc k) m old w =
     rbind (vec_get (fw_mods w) (int m)) (\<lambda>r.
       case rm_next r of
         None \<Rightarrow> Inr w
       | Some m2 \<Rightarrow>
           if m2 = old then rbind (vec_get (fw_mods w) (int m2)) (\<lambda>r2. Inr (set_rtm_next m (rm_next r2) w))
           else rtm_unreg_route_notify k m2 old w)"

subsection \<open>The routing part of a node\<close>

definition set_rtnotif :: "nat \<Rightarrow> nat option \<Rightarrow> fabric \<Rightarrow> fabric" where
  "set_rtnotif n m w = w\<lparr>fw_nodes := (fw_nodes w)[n := (fw_nodes w ! n)\<lparr>fn_rtnotif := m\<rparr>]\<rparr>"

definition node_route_notify :: "nat \<Rightarrow> nat \<Rightarrow> fabric \<Rightarrow> fabric res" where
  "node_route_notify n m w =
     rbind (vec_get (fw_nodes w) (int n)) (\<lambda>nd.
       case fn_rtnotif nd of
         None \<Rightarrow> Inr (set_rtnotif n (Some m) w)
       | Some m0 \<Rightarrow> rtm_route_notify (length (fw_mods w)) m0 m w)"

definition node_unreg_route_notify :: "nat \<Rightarrow> nat \<Rightarrow> fabric \<Rightarrow> fabric res" where
  "node_unreg_route_notify n m w =
     rbind (vec_get (fw_nodes w) (int n)) (\<lambda>nd.
       case fn_rtnotif nd of
         None \<Rightarrow> Inr w
       | Some m0 \<Rightarrow>
           if m0 = m then rbind (vec_get (fw_mods w) (int m0)) (\<lambda>r. Inr (set_rtnotif n (rm_next r) w))
           else rtm_unreg_route_notify (length (fw_mods w)) m0 m w)"

definition node_add_route :: "nat \<Rightarrow> int \<Rightarrow> nat option \<Rightarrow> fabric \<Rightarrow> fabric res" where
  "node_add_route n dst target w =
     rbind (vec_get (fw_nodes w) (int n)) (\<lambda>nd. rtm_add_route (length (fw_mods w)) (fn_rtnotif nd) dst target w)"

definition node_delete_route :: "nat \<Rightarrow> int \<Rightarrow> nat option \<Rightarrow> fabric \<Rightarrow> fabric res" where
  "node_delete_route n dst nullagent w =
     rbind (vec_get (fw_nodes w) (int n)) (\<lambda>nd.
       case fn_rtnotif nd of
         None \<Rightarrow> Inr w
       | Some m \<Rightarrow> rtm_delete_route (length (fw_mods w)) m dst nullagent w)"

definition node_set_table_size :: "nat \<Rightarrow> int \<Rightarrow> fabric \<Rightarrow> fabric res" where
  "node_set_table_size n nn w =
     rbind (vec_get (fw_nodes w) (int n)) (\<lambda>nd. rtm_set_table_size (length (fw_mods w)) (fn_rtnotif nd) nn w)"

text \<open>
  The commands that every module shares with \<open>BaseRoutingModule\<close>. The node must exist and,
  to register there, be the one the module was attached to.
\<close>

datatype rtm_cmd = Attach_Node "nat option" | Route_Notify "nat option" | Unreg_Route_Notify "nat option"

fun rtm_command :: "nat \<Rightarrow> rtm_cmd \<Rightarrow> fabric \<Rightarrow> (bool \<times> fabric) res" where
  "rtm_command m (Attach_Node n) w =
     rbind (vec_get (fw_mods w) (int m)) (\<lambda>r. Inr (n \<noteq> None, w\<lparr>fw_mods := (fw_mods w)[m := r\<lparr>rm_node := n\<rparr>]\<rparr>))"
| "rtm_command m (Route_Notify n) w =
     rbind (vec_get (fw_mods w) (int m)) (\<lambda>r.
       case n of
         None \<Rightarrow> Inr (False, w)
       | Some n1 \<Rightarrow> if rm_node r \<noteq> Some n1 then Inr (False, w) else rbind (node_route_notify n1 m w) (\<lambda>w1. Inr (True, w1)))"
| "rtm_command m (Unreg_Route_Notify n) w =
     rbind (vec_get (fw_mods w) (int m)) (\<lambda>r.
       case n of
         None \<Rightarrow> Inr (False, w)
       | Some n1 \<Rightarrow> if rm_node r \<noteq> Some n1 then Inr (False, w) else rbind (node_unreg_route_notify n1 m w) (\<lambda>w1. Inr (True, w1)))"

subsection \<open>The simulator fills the tables\<close>

record simulator =
  si_nodelist :: "nat option list option"
  si_nn :: int
  si_rtobject :: "routing option"

definition new_simulator :: simulator where
  "new_simulator = \<lparr>si_nodelist = None, si_nn = 0, si_rtobject = None\<rparr>"

text \<open>\<open>check\<close> and \<open>alloc\<close>: a list that is too short grows by doubling, from \<open>SMALL_LEN\<close>, 32.\<close>

definition sim_check :: "int \<Rightarrow> nat option list \<Rightarrow> nat option list" where
  "sim_check n nl =
     (if n < int (length nl) then nl
      else nl @ replicate (double_beyond (if nl = [] then 32 else length nl) (nat n) - length nl) None)"

definition sim_add_node :: "nat \<Rightarrow> int \<Rightarrow> simulator \<Rightarrow> simulator res" where
  "sim_add_node node nid s =
     rbind (vec_upd (sim_check nid (case si_nodelist s of None \<Rightarrow> [] | Some nl \<Rightarrow> nl)) nid (\<lambda>_. Some node))
       (\<lambda>nl. Inr (s\<lparr>si_nodelist := Some nl\<rparr>))"

text \<open>The row of one node: for every other node the link to the next hop, if there is one.\<close>

definition populate_pair :: "(int \<Rightarrow> int \<Rightarrow> nat option) \<Rightarrow> routing option \<Rightarrow> nat \<Rightarrow> nat \<Rightarrow> nat \<Rightarrow> fabric \<Rightarrow> fabric res" where
  "populate_pair link_head rt n i j w =
     (if i = j then Inr w
      else
        case rt of
          None \<Rightarrow> Inl Null_Deref
        | Some r \<Rightarrow>
            rbind (lookup_flat r (int i) (int j)) (\<lambda>nh.
              if nh \<ge> 0 then
                rbind (vec_get (fw_nodes w) (int n)) (\<lambda>nd. node_add_route n (int j) (link_head (fn_nodeid nd) nh) w)
              else Inr w))"

definition populate_node :: "(int \<Rightarrow> int \<Rightarrow> nat option) \<Rightarrow> routing option \<Rightarrow> nat \<Rightarrow> nat \<Rightarrow> nat \<Rightarrow> fabric \<Rightarrow> fabric res" where
  "populate_node link_head rt n i nn w =
     rbind (node_set_table_size n (int nn) w) (rfold (populate_pair link_head rt n i) [0..<nn])"

text \<open>A missing node makes the loop skip the next one too: \<open>i++\<close> is in the branch and in the loop.\<close>

function populate_rows :: "(int \<Rightarrow> int \<Rightarrow> nat option) \<Rightarrow> routing option \<Rightarrow> nat option list \<Rightarrow> nat \<Rightarrow> nat \<Rightarrow> fabric \<Rightarrow> fabric res" where
  "populate_rows link_head rt nl nn i w =
     (if i < nn then
        rbind (vec_get nl (int i)) (\<lambda>x.
          case x of
            None \<Rightarrow> populate_rows link_head rt nl nn (i + 2) w
          | Some n \<Rightarrow> rbind (populate_node link_head rt n i nn w) (\<lambda>w1. populate_rows link_head rt nl nn (i + 1) w1))
      else Inr w)"
  by pat_completeness auto
termination
  by (relation "measure (\<lambda>(_, _, _, nn, i, _). nn - i)") auto

declare populate_rows.simps [simp del]

definition populate_flat_classifiers :: "(int \<Rightarrow> int \<Rightarrow> nat option) \<Rightarrow> simulator \<times> fabric \<Rightarrow> (simulator \<times> fabric) res" where
  "populate_flat_classifiers link_head x =
     (case si_nodelist (fst x) of
        None \<Rightarrow> Inr x
      | Some nl0 \<Rightarrow>
          let nl = sim_check (si_nn (fst x)) nl0 in
          rbind (populate_rows link_head (si_rtobject (fst x)) nl (nat (si_nn (fst x))) 0 (snd x))
            (\<lambda>w. Inr ((fst x)\<lparr>si_nodelist := Some nl\<rparr>, w)))"

text \<open>The commands; a name that no object has is an error.\<close>

datatype sim_cmd = Populate_Flat int | Get_Routelogic "routing option" | Add_Node "nat option" int

fun sim_command :: "(int \<Rightarrow> int \<Rightarrow> nat option) \<Rightarrow> sim_cmd \<Rightarrow> simulator \<times> fabric \<Rightarrow> (bool \<times> simulator \<times> fabric) res" where
  "sim_command link_head (Populate_Flat nn) x =
     rbind (populate_flat_classifiers link_head ((fst x)\<lparr>si_nn := nn\<rparr>, snd x)) (\<lambda>x1. Inr (True, x1))"
| "sim_command link_head (Get_Routelogic r) x = Inr (r \<noteq> None, (fst x)\<lparr>si_rtobject := r\<rparr>, snd x)"
| "sim_command link_head (Add_Node node nid) x =
     (case node of None \<Rightarrow> Inr (False, x) | Some n \<Rightarrow> rbind (sim_add_node n nid (fst x)) (\<lambda>s. Inr (True, s, snd x)))"

subsection \<open>The way of a packet\<close>

definition new_ttl_checker :: ttl_checker where
  "new_ttl_checker = \<lparr>tt_noWarn = 1, tt_tick = 1\<rparr>"

datatype ttl_cmd = Ttl_Warning int | Ttl_Tick int

fun ttl_command :: "ttl_cmd \<Rightarrow> ttl_checker \<Rightarrow> bool \<times> ttl_checker" where
  "ttl_command (Ttl_Warning v) t = (True, t\<lparr>tt_noWarn := (if v = 0 then 1 else 0)\<rparr>)"
| "ttl_command (Ttl_Tick v) t = (if v > 0 then (True, t\<lparr>tt_tick := v\<rparr>) else (False, t))"

text \<open>\<open>TTLChecker::recv\<close>: None is a packet that is dropped.\<close>

definition ttl_recv :: "ttl_checker \<Rightarrow> hdr_ip \<Rightarrow> hdr_ip option" where
  "ttl_recv t h = (let ttl = ip_ttl h - tt_tick t in if ttl \<le> 0 then None else Some (h\<lparr>ip_ttl := ttl\<rparr>))"

definition port_classify :: "hdr_ip \<Rightarrow> classifier \<Rightarrow> (int \<times> classifier) res" where
  "port_classify h c = Inr (ip_dport h, c)"

datatype fate = To_Agent nat | No_Slot | Ttl_Exceeded

text \<open>
  A packet at a node, followed from classifier to classifier: the nodes it visits, its fate
  and its header then. The fuel bounds the number of nodes.
\<close>

type_synonym callback = "int \<Rightarrow> hash_classifier \<Rightarrow> hash_classifier"

fun travel :: "nat \<Rightarrow> callback \<Rightarrow> hdr_ip \<Rightarrow> nat \<Rightarrow> fabric \<Rightarrow> (nat list \<times> fate \<times> hdr_ip) res" where
  "travel 0 no_slot h n w = Inl Diverges"
| "travel (Suc k) no_slot h n w =
     rbind (vec_get (fw_nodes w) (int n)) (\<lambda>nd.
       rbind (vec_get (fw_cls w) (int (fn_entry nd))) (\<lambda>c.
         rbind (cs_recv no_slot (hc_classify (\<lambda>_ c. c) Dest) h c) (\<lambda>(f, c1).
           case f of
             Freed \<Rightarrow> Inr ([n], No_Slot, h)
           | Passed x \<Rightarrow>
               rbind (vec_get (fw_objs w) (int x)) (\<lambda>ob.
                 case ob of
                   Port_Demux d \<Rightarrow>
                     rbind (vec_get (fw_ports w) (int d)) (\<lambda>p.
                       rbind (cs_recv (\<lambda>_ c. c) port_classify h p) (\<lambda>(g, _).
                         Inr ([n], case g of Freed \<Rightarrow> No_Slot | Passed a \<Rightarrow> To_Agent a, h)))
                 | Link_Head m t \<Rightarrow>
                     (case ttl_recv t h of
                        None \<Rightarrow> Inr ([n], Ttl_Exceeded, h)
                      | Some h1 \<Rightarrow>
                          rbind (travel k no_slot h1 m (w\<lparr>fw_cls := (fw_cls w)[fn_entry nd := c1]\<rparr>))
                            (\<lambda>(ns, r). Inr (n # ns, r)))))))"

end
