(* ===== verification/PacketPaths.thy ===== *)
theory PacketPaths
  imports Forwarding
begin

section \<open>Packets follow the computed routes\<close>

text \<open>
  Properties of the forwarding plane. Whatever the tables say, the TTL ends the way of every
  packet. After the simulator has filled the tables from the computed routes, a packet takes
  a path of least cost to the agent at its destination port, if its TTL reaches that far.
  What goes wrong: the node after a missing one gets no routes, and a routing module that is
  registered again after it left closes the chain of modules to a circle.
\<close>

subsection \<open>The TTL ends every way\<close>

definition objects_below :: "nat \<Rightarrow> hash_classifier \<Rightarrow> bool" where
  "objects_below n c \<longleftrightarrow> (\<forall>i t. slot_at i c = Some t \<longrightarrow> t < n) \<and> (\<forall>t. cs_default c = Some t \<longrightarrow> t < n)"

lemma objects_below_targets: "objects_below n c \<longleftrightarrow> targets c \<subseteq> {..<n} \<and> (\<forall>t. cs_default c = Some t \<longrightarrow> t < n)"
  by (auto simp: objects_below_def targets_def)

text \<open>Every number names an object that exists, and every link takes at least 1 off the TTL.\<close>

definition wired :: "fabric \<Rightarrow> bool" where
  "wired w \<longleftrightarrow> (\<forall>nd\<in>set (fw_nodes w). fn_entry nd < length (fw_cls w)) \<and>
     (\<forall>c\<in>set (fw_cls w). objects_below (length (fw_objs w)) c) \<and>
     (\<forall>ob\<in>set (fw_objs w). case ob of Port_Demux d \<Rightarrow> d < length (fw_ports w) | Link_Head m t \<Rightarrow> m < length (fw_nodes w) \<and> 0 < tt_tick t)"

lemma dest_classify: "\<exists>s. hc_classify unk Dest h c = Inr (s, c)"
  by (simp add: hc_classify_def Let_def)

lemma recv_below:
  assumes "objects_below n c" and "\<And>i c. objects_below n c \<Longrightarrow> objects_below n (no_slot i c)"
  shows "\<exists>f c1. cs_recv no_slot (hc_classify unk Dest) h c = Inr (f, c1) \<and> objects_below n c1 \<and> (\<forall>x. f = Passed x \<longrightarrow> x < n)"
proof -
  obtain s where s: "hc_classify unk Dest h c = Inr (s, c)" using dest_classify by blast
  obtain s2 where s2: "hc_classify unk Dest h (no_slot TWICE c) = Inr (s2, no_slot TWICE c)" using dest_classify by blast
  have ns: "objects_below n (no_slot i c)" for i using assms by blast
  have "slot_at i c' = Some t \<Longrightarrow> t < n" if "objects_below n c'" for i t c' using that by (auto simp: objects_below_def)
  moreover have "slot_at i (no_slot j c) = Some t \<Longrightarrow> t < n" for i j t using ns by (auto simp: objects_below_def)
  moreover have "cs_default c = Some t \<Longrightarrow> t < n" for t using assms(1) by (auto simp: objects_below_def)
  ultimately show ?thesis using assms(1) ns
    by (auto simp: cs_recv_def cs_find_def s s2 Let_def split: option.splits)
qed

lemma demux_total: "\<exists>g. cs_recv (\<lambda>_ c. c) port_classify h p = Inr (g, p)"
  by (auto simp: cs_recv_def cs_find_def port_classify_def split: option.splits)

lemma wired_update: "wired w \<Longrightarrow> objects_below (length (fw_objs w)) c \<Longrightarrow> wired (w\<lparr>fw_cls := (fw_cls w)[i := c]\<rparr>)"
  by (auto simp: wired_def dest!: set_update_subset_insert [THEN subsetD] split: hop_object.splits)

lemma travel_ends:
  assumes "\<And>i c. objects_below m0 c \<Longrightarrow> objects_below m0 (no_slot i c)"
  shows "wired w \<Longrightarrow> length (fw_objs w) = m0 \<Longrightarrow> n < length (fw_nodes w) \<Longrightarrow> nat (ip_ttl h) < k \<Longrightarrow>
    \<exists>ns f h'. travel k no_slot h n w = Inr (ns, f, h') \<and> int (length ns) \<le> max 1 (ip_ttl h) \<and> h' = h\<lparr>ip_ttl := ip_ttl h'\<rparr>"
proof (induction k arbitrary: h n w)
  case 0
  then show ?case by simp
next
  case (Suc k)
  define nd where "nd = fw_nodes w ! n"
  define c where "c = fw_cls w ! fn_entry nd"
  have e: "fn_entry nd < length (fw_cls w)" using Suc.prems(1,3) by (auto simp: wired_def nd_def)
  have "objects_below (length (fw_objs w)) c" using Suc.prems(1) e by (auto simp: wired_def c_def)
  from recv_below [where no_slot = no_slot, OF this] assms Suc.prems(2) obtain f c1 where f: "cs_recv no_slot (hc_classify (\<lambda>_ c. c) Dest) h c = Inr (f, c1)"
    "objects_below (length (fw_objs w)) c1" "\<forall>x. f = Passed x \<longrightarrow> x < length (fw_objs w)" by blast
  show ?case
  proof (cases f)
    case Freed
    then show ?thesis using f(1) e Suc.prems(3) by (simp flip: nd_def c_def)
  next
    case (Passed x)
    then have x: "x < length (fw_objs w)" using f(3) by simp
    show ?thesis
    proof (cases "fw_objs w ! x")
      case (Port_Demux d)
      then have "d < length (fw_ports w)" using Suc.prems(1) x by (metis (mono_tags, lifting) hop_object.simps(5) nth_mem wired_def)
      moreover obtain g where "cs_recv (\<lambda>_ c. c) port_classify h (fw_ports w ! d) = Inr (g, fw_ports w ! d)" using demux_total by blast
      ultimately show ?thesis using f(1) e Suc.prems(3) Passed x Port_Demux by (simp flip: nd_def c_def)
    next
      case (Link_Head m t)
      then have m: "m < length (fw_nodes w)" "0 < tt_tick t"
        using Suc.prems(1) x by (metis (mono_tags, lifting) hop_object.simps(6) nth_mem wired_def)+
      let ?w = "w\<lparr>fw_cls := (fw_cls w)[fn_entry nd := c1]\<rparr>" and ?h = "h\<lparr>ip_ttl := ip_ttl h - tt_tick t\<rparr>"
      show ?thesis
      proof (cases "ip_ttl h - tt_tick t \<le> 0")
        case True
        then show ?thesis using f(1) e Suc.prems(3) Passed x Link_Head by (simp add: ttl_recv_def flip: nd_def c_def)
      next
        case False
        have k: "m < length (fw_nodes ?w)" "nat (ip_ttl ?h) < k" using False Suc.prems(4) m by simp_all
        obtain ns f' h' where "travel k no_slot ?h m ?w = Inr (ns, f', h')" "int (length ns) \<le> max 1 (ip_ttl ?h)" "h' = ?h\<lparr>ip_ttl := ip_ttl h'\<rparr>"
          using Suc.IH [OF wired_update [OF Suc.prems(1) f(2)] _ k] Suc.prems(2) by auto
        then show ?thesis using f(1) e Suc.prems(3) Passed x Link_Head False m(2) by (simp add: ttl_recv_def flip: nd_def c_def)
      qed
    qed
  qed
qed

subsection \<open>One row of the tables\<close>

text \<open>A node whose only module installs into the node's own table, the usual case.\<close>

definition entry_of :: "fabric \<Rightarrow> nat \<Rightarrow> nat" where
  "entry_of w n = fn_entry (fw_nodes w ! n)"

definition table_of :: "fabric \<Rightarrow> nat \<Rightarrow> hash_classifier" where
  "table_of w n = fw_cls w ! entry_of w n"

definition plain_node :: "fabric \<Rightarrow> nat \<Rightarrow> bool" where
  "plain_node w n \<longleftrightarrow> n < length (fw_nodes w) \<and> entry_of w n < length (fw_cls w) \<and>
     (\<exists>m < length (fw_mods w). fn_rtnotif (fw_nodes w ! n) = Some m \<and>
        rm_kind (fw_mods w ! m) = Rtm_Table \<and> rm_classifier (fw_mods w ! m) = Some (entry_of w n) \<and> rm_next (fw_mods w ! m) = None)"

definition set_table :: "nat \<Rightarrow> hash_classifier \<Rightarrow> fabric \<Rightarrow> fabric" where
  "set_table n h w = w\<lparr>fw_cls := (fw_cls w)[entry_of w n := h]\<rparr>"

lemma set_table_simps [simp]:
  "fw_nodes (set_table n h w) = fw_nodes w" "fw_mods (set_table n h w) = fw_mods w" "fw_objs (set_table n h w) = fw_objs w"
  "fw_ports (set_table n h w) = fw_ports w" "entry_of (set_table n h w) m = entry_of w m"
  "length (fw_cls (set_table n h w)) = length (fw_cls w)" "plain_node (set_table n h w) m = plain_node w m"
  "set_table n h1 (set_table n h w) = set_table n h1 w"
  by (simp_all add: set_table_def entry_of_def plain_node_def)

lemma table_of_set:
  "plain_node w n \<Longrightarrow> table_of (set_table n h w) m = (if entry_of w m = entry_of w n then h else table_of w m)"
  by (simp add: table_of_def set_table_def plain_node_def entry_of_def nth_list_update)

lemma set_table_id: "plain_node w n \<Longrightarrow> set_table n (table_of w n) w = w"
  by (simp add: set_table_def table_of_def)

lemma plain_add_route:
  assumes "plain_node w n"
  shows "node_add_route n d t w = rbind (hc_do_install d t (table_of w n)) (\<lambda>h. Inr (set_table n h w))"
proof -
  obtain m where m: "m < length (fw_mods w)" "fn_rtnotif (fw_nodes w ! n) = Some m"
    "rm_kind (fw_mods w ! m) = Rtm_Table" "rm_classifier (fw_mods w ! m) = Some (entry_of w n)" "rm_next (fw_mods w ! m) = None"
    using assms by (auto simp: plain_node_def)
  have n: "n < length (fw_nodes w)" "entry_of w n < length (fw_cls w)" using assms by (simp_all add: plain_node_def)
  obtain k where k: "length (fw_mods w) = Suc k" using m(1) by (cases "length (fw_mods w)") auto
  show ?thesis
    using m n by (cases "hc_do_install d t (table_of w n)") (simp_all add: node_add_route_def k rtm_install_def table_of_def set_table_def)
qed

abbreviation addr :: "nat \<Rightarrow> 32 word" where
  "addr j \<equiv> word_of_nat j"

lemma plain_set_size:
  assumes "plain_node w n"
  shows "node_set_table_size n k w = Inr (set_table n (set_table_size k (table_of w n)) w)"
proof -
  obtain m where m: "m < length (fw_mods w)" "fn_rtnotif (fw_nodes w ! n) = Some m"
    "rm_classifier (fw_mods w ! m) = Some (entry_of w n)" "rm_next (fw_mods w ! m) = None"
    using assms by (auto simp: plain_node_def)
  have n: "n < length (fw_nodes w)" "entry_of w n < length (fw_cls w)" using assms by (simp_all add: plain_node_def)
  obtain j where j: "length (fw_mods w) = Suc j" using m(1) by (cases "length (fw_mods w)") auto
  show ?thesis using m n by (simp add: node_set_table_size_def j table_of_def set_table_def)
qed

text \<open>A table in use that keeps the addresses below \<open>nn\<close> apart.\<close>

definition table_for :: "nat \<Rightarrow> hash_classifier \<Rightarrow> bool" where
  "table_for nn h \<longleftrightarrow> hash_ok h \<and> cs_shift h = 0 \<and> hc_default h = -1 \<and> cs_default h = None \<and>
     (\<forall>j < nn. and (addr j) (cs_mask h) = addr j)"

lemma addr_inj: "i < 2 ^ 31 \<Longrightarrow> j < 2 ^ 31 \<Longrightarrow> addr i = addr j \<longleftrightarrow> i = j"
  by (simp add: word_of_nat_eq_iff take_bit_nat_eq_self)

lemma mshift_addr: "table_for nn h \<Longrightarrow> j < nn \<Longrightarrow> mshift h (addr j) = addr j"
  by (simp add: table_for_def mshift_def)

lemma set_size_simps [simp]:
  "cs_slot (set_table_size k h) = cs_slot h" "cs_maxslot (set_table_size k h) = cs_maxslot h" "cs_nsize (set_table_size k h) = k"
  "cs_shift (set_table_size k h) = cs_shift h" "cs_mask (set_table_size k h) = cs_mask h" "cs_default (set_table_size k h) = cs_default h"
  "hc_default (set_table_size k c) = hc_default c" "hc_ht (set_table_size k c) = hc_ht c"
  "slot_at i (set_table_size k h) = slot_at i h" "mshift (set_table_size k h) v = mshift h v"
  by (simp_all add: set_table_size_def slot_at_def mshift_def)

lemma sized_table: "hash_ok h \<Longrightarrow> hash_ok (set_table_size (int k) h)" "table_for nn h \<Longrightarrow> table_for nn (set_table_size (int k) h)"
  "route_to (set_table_size (int k) h) = route_to h"
proof -
  show ok: "hash_ok h \<Longrightarrow> hash_ok (set_table_size (int k) h)"
    unfolding hash_ok_def top_ok_def set_size_simps by (elim conjE, intro conjI) (assumption | simp)+
  then show "table_for nn h \<Longrightarrow> table_for nn (set_table_size (int k) h)" by (simp add: table_for_def)
  show "route_to (set_table_size (int k) h) = route_to h" unfolding fun_eq_iff route_to_def set_size_simps by simp
qed

lemma row_filled:
  assumes "plain_node w n" "table_for nn (table_of w n)" "nn \<le> 2 ^ 31"
    and "\<And>j. j < nn \<Longrightarrow> j \<noteq> i \<Longrightarrow> \<exists>nh. lookup_flat R (int i) (int j) = Inr nh \<and>
      (if 0 \<le> nh then T j \<noteq> None \<and> link_head (fn_nodeid (fw_nodes w ! n)) nh = T j else T j = None)"
  shows "k \<le> nn \<Longrightarrow> \<exists>h. rfold (populate_pair link_head (Some R) n i) [0..<k] w = Inr (set_table n h w) \<and> table_for nn h \<and>
    (\<forall>j < nn. route_to h (addr j) = (if j < k \<and> j \<noteq> i \<and> T j \<noteq> None then T j else route_to (table_of w n) (addr j)))"
proof (induction k)
  case 0
  show ?case using assms(2) set_table_id [OF assms(1)] by (intro exI [of _ "table_of w n"]) simp
next
  case (Suc k)
  then obtain h where h: "rfold (populate_pair link_head (Some R) n i) [0..<k] w = Inr (set_table n h w)" "table_for nn h"
    "\<forall>j < nn. route_to h (addr j) = (if j < k \<and> j \<noteq> i \<and> T j \<noteq> None then T j else route_to (table_of w n) (addr j))" by auto
  let ?w = "set_table n h w"
  have n: "n < length (fw_nodes w)" using assms(1) by (simp add: plain_node_def)
  have step: "rfold (populate_pair link_head (Some R) n i) [0..<Suc k] w = populate_pair link_head (Some R) n i k ?w"
    using h(1) by (cases "populate_pair link_head (Some R) n i k ?w") (simp_all add: rfold_append)
  show ?case
  proof (cases "k = i \<or> T k = None")
    case True
    then have "populate_pair link_head (Some R) n i k ?w = Inr ?w"
      using assms(4) [of k] Suc.prems by (auto simp: populate_pair_def split: if_splits)
    moreover have "(j < Suc k \<and> j \<noteq> i \<and> T j \<noteq> None) = (j < k \<and> j \<noteq> i \<and> T j \<noteq> None)" for j
      using True by (auto simp: less_Suc_eq)
    ultimately show ?thesis using step h(2,3) by (intro exI [of _ h]) simp
  next
    case False
    then obtain nh t where t: "lookup_flat R (int i) (int k) = Inr nh" "0 \<le> nh" "T k = Some t"
      "link_head (fn_nodeid (fw_nodes w ! n)) nh = Some t" using assms(4) [of k] Suc.prems by (auto split: if_splits)
    have k: "k < nn" using Suc.prems by simp
    have "table_of ?w n = h" using table_of_set [OF assms(1)] by simp
    moreover have "hash_ok h" using h(2) by (simp add: table_for_def)
    then obtain h' where h': "hc_do_install (int k) (Some t) h = Inr h'" "hash_ok h'" "route_to h' = (route_to h)(mshift h (addr k) \<mapsto> t)"
      "hc_default h' = hc_default h" "cs_default h' = cs_default h" "cs_shift h' = cs_shift h" "cs_mask h' = cs_mask h"
      using do_install_ok [of h "int k" t] by auto
    ultimately have "populate_pair link_head (Some R) n i k ?w = Inr (set_table n h' w)"
      using False t n assms(1) by (simp add: populate_pair_def plain_add_route)
    moreover have "table_for nn h'" using h(2) h' by (simp add: table_for_def)
    moreover have "route_to h' (addr j) = (if j < Suc k \<and> j \<noteq> i \<and> T j \<noteq> None then T j else route_to (table_of w n) (addr j))"
      if "j < nn" for j
    proof -
      have "addr j = addr k \<longleftrightarrow> j = k" using addr_inj that k assms(3) by (intro addr_inj) simp_all
      then show ?thesis using h'(3) h(3) mshift_addr [OF h(2) k] that False t(3) by (auto simp: less_Suc_eq)
    qed
    ultimately show ?thesis using step by (intro exI [of _ h']) simp
  qed
qed

lemma node_filled:
  assumes "plain_node w n" "table_for nn (table_of w n)" "nn \<le> 2 ^ 31"
    and "\<And>j. j < nn \<Longrightarrow> j \<noteq> i \<Longrightarrow> \<exists>nh. lookup_flat R (int i) (int j) = Inr nh \<and>
      (if 0 \<le> nh then T j \<noteq> None \<and> link_head (fn_nodeid (fw_nodes w ! n)) nh = T j else T j = None)"
  shows "\<exists>h. populate_node link_head (Some R) n i nn w = Inr (set_table n h w) \<and> table_for nn h \<and>
    (\<forall>j < nn. route_to h (addr j) = (if j \<noteq> i \<and> T j \<noteq> None then T j else route_to (table_of w n) (addr j)))"
proof -
  let ?w = "set_table n (set_table_size (int nn) (table_of w n)) w"
  have t: "table_of ?w n = set_table_size (int nn) (table_of w n)" using table_of_set [OF assms(1)] by simp
  have p: "plain_node ?w n" "table_for nn (table_of ?w n)" using assms(1,2) t sized_table(2) by simp_all
  have "\<exists>nh. lookup_flat R (int i) (int j) = Inr nh \<and>
      (if 0 \<le> nh then T j \<noteq> None \<and> link_head (fn_nodeid (fw_nodes ?w ! n)) nh = T j else T j = None)" if "j < nn" "j \<noteq> i" for j
    using assms(4) [OF that] by (simp only: set_table_simps)
  from row_filled [where T = T and R = R and link_head = link_head and i = i, OF p assms(3) this order_refl]
  obtain h where "rfold (populate_pair link_head (Some R) n i) [0..<nn] ?w = Inr (set_table n h w)" "table_for nn h"
    "\<forall>j < nn. route_to h (addr j) = (if j < nn \<and> j \<noteq> i \<and> T j \<noteq> None then T j else route_to (table_of ?w n) (addr j))"
    unfolding set_table_simps by blast
  then show ?thesis using t sized_table(3) by (intro exI [of _ h]) (simp add: populate_node_def plain_set_size [OF assms(1)])
qed

subsection \<open>All rows\<close>

text \<open>The nodes whose rows are filled.\<close>

function visited :: "nat option list \<Rightarrow> nat \<Rightarrow> nat \<Rightarrow> nat list" where
  "visited nl nn i = (if i < nn then if nl ! i = None then visited nl nn (i + 2) else i # visited nl nn (i + 1) else [])"
  by pat_completeness auto
termination
  by (relation "measure (\<lambda>(_, nn, i). nn - i)") auto

declare visited.simps [simp del]

lemma populate_visited:
  "nn \<le> length nl \<Longrightarrow> populate_rows link_head rt nl nn i w =
     rfold (\<lambda>i. populate_node link_head rt (the (nl ! i)) i nn) (visited nl nn i) w"
proof (induction nl nn i arbitrary: w rule: visited.induct)
  case (1 nl nn i)
  show ?case
  proof (cases "i < nn")
    case True
    show ?thesis
    proof (cases "nl ! i")
      case None
      then show ?thesis using True 1 by (simp add: populate_rows.simps [of _ _ _ _ i] visited.simps [of _ _ i])
    next
      case (Some n)
      then show ?thesis using True 1
        by (cases "populate_node link_head rt n i nn w")
          (simp_all add: populate_rows.simps [of _ _ _ _ i] visited.simps [of _ _ i])
    qed
  next
    case False
    then show ?thesis by (simp add: populate_rows.simps [of _ _ _ _ i] visited.simps [of _ _ i])
  qed
qed

lemma visited_all: "\<forall>j < nn. nl ! j \<noteq> None \<Longrightarrow> visited nl nn i = [i..<nn]"
proof (induction nl nn i rule: visited.induct)
  case (1 nl nn i)
  then show ?case by (subst visited.simps) (auto simp: upt_conv_Cons)
qed

lemma visited_above: "j \<in> set (visited nl nn i) \<Longrightarrow> i \<le> j \<and> j < nn \<and> nl ! j \<noteq> None"
proof (induction nl nn i rule: visited.induct)
  case (1 nl nn i)
  then show ?case by (subst (asm) (3) visited.simps) (auto split: if_splits)
qed

lemma visited_gap: "\<forall>j < i. nl ! j \<noteq> None \<Longrightarrow> nl ! i = None \<Longrightarrow> k \<le> i \<Longrightarrow> Suc i \<notin> set (visited nl nn k)"
proof (induction nl nn k rule: visited.induct)
  case (1 nl nn k)
  show ?case
  proof (cases "k = i")
    case True
    then show ?thesis using 1 visited_above [of "Suc i" nl nn "i + 2"] by (subst visited.simps) auto
  next
    case False
    then have "k < i" "nl ! k \<noteq> None" using 1(3,5) by auto
    then show ?thesis using 1 by (subst visited.simps) auto
  qed
qed

definition same_wiring :: "fabric \<Rightarrow> fabric \<Rightarrow> bool" where
  "same_wiring w w' \<longleftrightarrow> fw_nodes w' = fw_nodes w \<and> fw_mods w' = fw_mods w \<and> fw_objs w' = fw_objs w \<and> fw_ports w' = fw_ports w \<and>
     length (fw_cls w') = length (fw_cls w)"

lemma same_wiringD:
  "same_wiring w w' \<Longrightarrow> entry_of w' n = entry_of w n" "same_wiring w w' \<Longrightarrow> plain_node w' n = plain_node w n"
  by (simp_all add: same_wiring_def entry_of_def plain_node_def)

text \<open>The link to the next hop that the routes give.\<close>

definition link_towards :: "(int \<Rightarrow> int \<Rightarrow> nat option) \<Rightarrow> routing \<Rightarrow> nat \<Rightarrow> nat \<Rightarrow> nat option" where
  "link_towards link_head R i j =
     (case lookup_flat R (int i) (int j) of Inr nh \<Rightarrow> if 0 \<le> nh then link_head (int i) nh else None | Inl _ \<Rightarrow> None)"

text \<open>
  A network of \<open>nn\<close> nodes with flat addresses: node \<open>i\<close> is the object \<open>p i\<close> and has a plain
  table of its own, which so far names only its own ports, \<open>dm i\<close>; every link with a cost
  below \<open>INFINITY\<close> has a head, from which packets come to the node at its other end.
\<close>

definition flat_network :: "nat \<Rightarrow> routing \<Rightarrow> (int \<Rightarrow> int \<Rightarrow> nat option) \<Rightarrow> (nat \<Rightarrow> nat) \<Rightarrow> (nat \<Rightarrow> nat) \<Rightarrow> fabric \<Rightarrow> bool" where
  "flat_network nn r link_head p dm w \<longleftrightarrow> nn < rl_size r \<and> nn \<le> 2 ^ 31 \<and>
     (\<forall>i < nn. plain_node w (p i) \<and> fn_nodeid (fw_nodes w ! p i) = int i \<and> table_for nn (table_of w (p i)) \<and>
        (\<forall>j < nn. j \<noteq> i \<longrightarrow> route_to (table_of w (p i)) (addr j) = None) \<and> dm i < length (fw_ports w) \<and>
        (\<exists>x < length (fw_objs w). route_to (table_of w (p i)) (addr i) = Some x \<and> fw_objs w ! x = Port_Demux (dm i))) \<and>
     (\<forall>i < nn. \<forall>j < nn. entry_of w (p i) = entry_of w (p j) \<longrightarrow> i = j) \<and>
     (\<forall>i j. 1 \<le> i \<and> i < rl_size r \<and> 1 \<le> j \<and> j < rl_size r \<and> ADJ (adj_of r) i j < INFINITY \<longrightarrow>
        i \<le> nn \<and> j \<le> nn \<and> (\<exists>x < length (fw_objs w). link_head (int i - 1) (int j - 1) = Some x \<and>
          (\<exists>t. fw_objs w ! x = Link_Head (p (j - 1)) t \<and> tt_tick t = 1)))"

lemma network_link:
  assumes "flat_network nn r link_head p dm w" "1 \<le> i" "i < rl_size r" "1 \<le> j" "j < rl_size r" "ADJ (adj_of r) i j < INFINITY"
  shows "i \<le> nn \<and> j \<le> nn \<and> (\<exists>x < length (fw_objs w). link_head (int i - 1) (int j - 1) = Some x \<and>
    (\<exists>t. fw_objs w ! x = Link_Head (p (j - 1)) t \<and> tt_tick t = 1))"
  using assms unfolding flat_network_def by blast

lemma rows_filled:
  assumes "\<forall>i < nn. plain_node w (p i) \<and> fn_nodeid (fw_nodes w ! p i) = int i \<and> table_for nn (table_of w (p i)) \<and> nl ! i = Some (p i)"
    and "\<forall>i < nn. \<forall>j < nn. entry_of w (p i) = entry_of w (p j) \<longrightarrow> i = j" and "nn \<le> 2 ^ 31"
    and "\<forall>i < nn. \<forall>j < nn. j \<noteq> i \<longrightarrow> (\<exists>nh. lookup_flat R (int i) (int j) = Inr nh \<and> (0 \<le> nh \<longrightarrow> link_head (int i) nh \<noteq> None))"
  shows "set is \<subseteq> {..<nn} \<Longrightarrow> distinct is \<Longrightarrow>
    \<exists>w'. rfold (\<lambda>i. populate_node link_head (Some R) (the (nl ! i)) i nn) is w = Inr w' \<and> same_wiring w w' \<and>
      (\<forall>i < nn. table_for nn (table_of w' (p i)) \<and> (\<forall>j < nn. route_to (table_of w' (p i)) (addr j) =
        (if i \<in> set is \<and> j \<noteq> i \<and> link_towards link_head R i j \<noteq> None then link_towards link_head R i j
         else route_to (table_of w (p i)) (addr j))))"
proof (induction "is" rule: rev_induct)
  case Nil
  then show ?case using assms(1) by (intro exI [of _ w]) (simp add: same_wiring_def)
next
  case (snoc a "is")
  let ?row = "\<lambda>i. populate_node link_head (Some R) (the (nl ! i)) i nn" and ?T = "link_towards link_head R"
  obtain w1 where w1: "rfold ?row is w = Inr w1" "same_wiring w w1" "\<forall>i < nn. table_for nn (table_of w1 (p i))"
    "\<forall>i < nn. \<forall>j < nn. route_to (table_of w1 (p i)) (addr j) =
       (if i \<in> set is \<and> j \<noteq> i \<and> ?T i j \<noteq> None then ?T i j else route_to (table_of w (p i)) (addr j))"
    using snoc by auto
  have a: "a < nn" "the (nl ! a) = p a" using snoc.prems(1) assms(1) by auto
  have pl: "plain_node w1 (p a)" and nid: "fn_nodeid (fw_nodes w1 ! p a) = int a"
    using a(1) assms(1) same_wiringD [OF w1(2)] w1(2) by (simp_all add: same_wiring_def)
  have "\<exists>nh. lookup_flat R (int a) (int j) = Inr nh \<and>
      (if 0 \<le> nh then ?T a j \<noteq> None \<and> link_head (fn_nodeid (fw_nodes w1 ! p a)) nh = ?T a j else ?T a j = None)" if "j < nn" "j \<noteq> a" for j
    using assms(4) a(1) that nid by (fastforce simp: link_towards_def)
  moreover have "table_for nn (table_of w1 (p a))" using w1(3) a(1) by simp
  ultimately obtain h where h: "?row a w1 = Inr (set_table (p a) h w1)" "table_for nn h"
    "\<forall>j < nn. route_to h (addr j) = (if j \<noteq> a \<and> ?T a j \<noteq> None then ?T a j else route_to (table_of w1 (p a)) (addr j))"
    using node_filled [where T = "?T a" and i = a and link_head = link_head and R = R, OF pl _ assms(3)] by (auto simp: a(2))
  have tab: "table_of (set_table (p a) h w1) (p i) = (if i = a then h else table_of w1 (p i))" if "i < nn" for i
    using table_of_set [OF pl, of h "p i"] assms(2) a(1) that same_wiringD(1) [OF w1(2)] by auto
  have "rfold ?row (is @ [a]) w = Inr (set_table (p a) h w1)" using w1(1) h(1) by (simp add: rfold_append)
  moreover have "same_wiring w (set_table (p a) h w1)" using w1(2) by (simp add: same_wiring_def)
  moreover have "a \<notin> set is" using snoc.prems(2) by simp
  ultimately show ?case using tab h(2,3) w1(3,4) by (intro exI [of _ "set_table (p a) h w1"]) simp
qed

subsection \<open>The way along the tables\<close>

text \<open>Consecutive nodes are joined by the link that the table names for the destination.\<close>

fun hops_ok :: "fabric \<Rightarrow> (nat \<Rightarrow> nat) \<Rightarrow> nat \<Rightarrow> nat list \<Rightarrow> bool" where
  "hops_ok w p d (i # j # is) \<longleftrightarrow> (\<exists>x < length (fw_objs w). route_to (table_of w (p i)) (addr d) = Some x \<and>
     (\<exists>t. fw_objs w ! x = Link_Head (p j) t \<and> tt_tick t = 1)) \<and> hops_ok w p d (j # is)"
| "hops_ok w p d is \<longleftrightarrow> True"

lemma travel_hop:
  assumes "plain_node w n" "table_for nn (table_of w n)" "d < nn" "ip_daddr h = int d"
    and "route_to (table_of w n) (addr d) = Some x" "x < length (fw_objs w)" "fw_objs w ! x = Link_Head m t" "tt_tick t = 1"
  shows "travel (Suc k) no_slot h n w =
    (if ip_ttl h \<le> 1 then Inr ([n], Ttl_Exceeded, h)
     else rbind (travel k no_slot (h\<lparr>ip_ttl := ip_ttl h - 1\<rparr>) m w) (\<lambda>(ns, r). Inr (n # ns, r)))"
proof -
  have "cs_recv no_slot (hc_classify (\<lambda>_ c. c) Dest) h (table_of w n) = Inr (Passed x, table_of w n)"
    using assms(2-5) mshift_addr [OF assms(2,3)] by (intro recv_routed) (simp_all add: table_for_def)
  moreover have "n < length (fw_nodes w)" "fn_entry (fw_nodes w ! n) < length (fw_cls w)" using assms(1) by (simp_all add: plain_node_def entry_of_def)
  ultimately show ?thesis using assms(6-8) by (simp add: ttl_recv_def table_of_def entry_of_def)
qed

lemma travel_home:
  assumes "plain_node w n" "table_for nn (table_of w n)" "d < nn" "ip_daddr h = int d"
    and "route_to (table_of w n) (addr d) = Some x" "x < length (fw_objs w)" "fw_objs w ! x = Port_Demux q"
    and "q < length (fw_ports w)" "slot_at (ip_dport h) (fw_ports w ! q) = Some a"
  shows "travel (Suc k) no_slot h n w = Inr ([n], To_Agent a, h)"
proof -
  have "cs_recv no_slot (hc_classify (\<lambda>_ c. c) Dest) h (table_of w n) = Inr (Passed x, table_of w n)"
    using assms(2-5) mshift_addr [OF assms(2,3)] by (intro recv_routed) (simp_all add: table_for_def)
  moreover have "n < length (fw_nodes w)" "fn_entry (fw_nodes w ! n) < length (fw_cls w)" using assms(1) by (simp_all add: plain_node_def entry_of_def)
  ultimately show ?thesis using assms(6-9) by (simp add: table_of_def entry_of_def cs_recv_def cs_find_def port_classify_def)
qed

lemma travel_path:
  assumes "\<forall>i\<in>set ns. plain_node w (p i) \<and> table_for nn (table_of w (p i))" "d < nn"
    and "route_to (table_of w (p d)) (addr d) = Some x" "x < length (fw_objs w)" "fw_objs w ! x = Port_Demux q"
    and "q < length (fw_ports w)" "ns \<noteq> []" "last ns = d" "hops_ok w p d ns"
  shows "nat (ip_ttl h) < k \<Longrightarrow> ip_daddr h = int d \<Longrightarrow> slot_at (ip_dport h) (fw_ports w ! q) = Some a \<Longrightarrow>
    travel k no_slot h (p (hd ns)) w =
      Inr (if length ns = 1 \<or> int (length ns) \<le> ip_ttl h
           then (map p ns, To_Agent a, h\<lparr>ip_ttl := ip_ttl h - (int (length ns) - 1)\<rparr>)
           else (map p (take (nat (max 1 (ip_ttl h))) ns), Ttl_Exceeded, h\<lparr>ip_ttl := min 1 (ip_ttl h)\<rparr>))"
  using assms(1,7,8,9)
proof (induction ns arbitrary: k h rule: induct_list012)
  case (3 i j "is")
  obtain k' where k: "k = Suc k'" using 3(3) by (cases k) auto
  obtain y t where y: "y < length (fw_objs w)" "route_to (table_of w (p i)) (addr d) = Some y" "fw_objs w ! y = Link_Head (p j) t" "tt_tick t = 1"
    using 3(9) by auto
  have i: "plain_node w (p i)" "table_for nn (table_of w (p i))" using 3(6) by auto
  note hop = travel_hop [OF i assms(2) 3(4) y(2,1,3,4)]
  show ?case
  proof (cases "ip_ttl h \<le> 1")
    case True
    then have "nat (max 1 (ip_ttl h)) = 1" "h\<lparr>ip_ttl := min 1 (ip_ttl h)\<rparr> = h" by (simp_all add: min_def max_def)
    then show ?thesis using True hop k by simp
  next
    case False
    let ?h = "h\<lparr>ip_ttl := ip_ttl h - 1\<rparr>"
    have "nat (ip_ttl ?h) < k'" using False 3(3) k by simp
    then have "travel k' no_slot ?h (p (hd (j # is))) w =
      Inr (if length (j # is) = 1 \<or> int (length (j # is)) \<le> ip_ttl ?h
           then (map p (j # is), To_Agent a, ?h\<lparr>ip_ttl := ip_ttl ?h - (int (length (j # is)) - 1)\<rparr>)
           else (map p (take (nat (max 1 (ip_ttl ?h))) (j # is)), Ttl_Exceeded, ?h\<lparr>ip_ttl := min 1 (ip_ttl ?h)\<rparr>))"
      using 3 by (intro 3(2)) auto
    moreover have "nat (max 1 (ip_ttl h)) = Suc (nat (max 1 (ip_ttl ?h)))" "min 1 (ip_ttl ?h) = min 1 (ip_ttl h)" using False by auto
    ultimately show ?thesis using False hop k by (auto simp: algebra_simps)
  qed
next
  case (2 v)
  then obtain k' where k: "k = Suc k'" by (cases k) auto
  have "travel (Suc k') no_slot h (p d) w = Inr ([p d], To_Agent a, h)"
    using 2 by (intro travel_home [OF _ _ assms(2) _ assms(3,4,5,6)]) auto
  then show ?case using 2 k by simp
qed simp

lemma route_from_starts: "route_from f s d = Some ns \<Longrightarrow> \<exists>ms. ns = s # ms \<and> (s \<noteq> d \<longrightarrow> route_from f (f s d) d = Some ms)"
  by (subst (asm) route_from.simps) (auto split: if_splits simp: bind_eq_Some_conv)

text \<open>A pair of nodes is looked up without a fault, and a next hop has a link.\<close>

lemma hop_has_link:
  assumes "route_commands cmds new_routing = Inr r" and "\<forall>c\<in>set cmds. fair_cost c" and "flat_network nn r link_head p dm w"
    and "i < nn" "j < nn" "i \<noteq> j"
  shows "\<exists>nh. lookup_flat (compute_routes r) (int i) (int j) = Inr nh \<and> (0 \<le> nh \<longrightarrow> link_head (int i) nh \<noteq> None)"
proof -
  let ?A = "adj_of r" and ?n = "rl_size r"
  have n: "int i + 1 < int ?n" "int j + 1 < int ?n" using assms(3-5) by (simp_all add: flat_network_def)
  obtain h where h: "lookup_flat (compute_routes r) (int i) (int j) = Inr h"
    "if \<exists>ps. route_path ?n ps (nat (int i) + 1) (nat (int j) + 1) \<and> route_cost ?A ps < INFINITY
     then 0 \<le> h \<and> (\<exists>c qs. least_cost ?A ?n (nat (int i) + 1) (nat (int j) + 1) c \<and>
        route_path ?n ((nat (int i) + 1) # (nat h + 1) # qs) (nat (int i) + 1) (nat (int j) + 1) \<and>
        route_cost ?A ((nat (int i) + 1) # (nat h + 1) # qs) = c)
     else h = -1" using computed_hops [OF assms(1,2) _ n(1) _ n(2)] assms(6) by auto
  have "link_head (int i) h \<noteq> None" if pos: "0 \<le> h"
  proof -
    obtain ps where ps: "route_path ?n ps (i + 1) (j + 1)" "route_cost ?A ps < INFINITY" using h(2) pos by (auto split: if_splits)
    then have ex: "\<exists>ps. route_path ?n ps (i + 1) (j + 1) \<and> route_cost ?A ps < INFINITY" by blast
    obtain c qs where q: "least_cost ?A ?n (i + 1) (j + 1) c" "route_path ?n ((i + 1) # (nat h + 1) # qs) (i + 1) (j + 1)"
      "route_cost ?A ((i + 1) # (nat h + 1) # qs) = c" using h(2) [unfolded nat_int if_P [OF ex]] by blast
    have "c < INFINITY" using q(1) ps by (auto simp: least_cost_def)
    moreover have "0 \<le> route_cost ?A ((nat h + 1) # qs)"
      using q(2) by (intro route_cost_nonneg [OF commands_costs_ok(1) [OF assms(1,2)]]) (auto simp: route_path_def)
    ultimately have "ADJ ?A (i + 1) (nat h + 1) < INFINITY" using q(3) by simp
    moreover have "nat h + 1 < ?n" "i + 1 < ?n" using q(2) by (simp_all add: route_path_def)
    ultimately show ?thesis using network_link [OF assms(3), of "i + 1" "nat h + 1"] pos by auto
  qed
  then show ?thesis using h(1) by blast
qed

text \<open>Tables that have been filled from the computed routes.\<close>

definition filled :: "nat \<Rightarrow> routing \<Rightarrow> (int \<Rightarrow> int \<Rightarrow> nat option) \<Rightarrow> (nat \<Rightarrow> nat) \<Rightarrow> fabric \<Rightarrow> fabric \<Rightarrow> bool" where
  "filled nn r link_head p w w' \<longleftrightarrow> same_wiring w w' \<and>
     (\<forall>i < nn. table_for nn (table_of w' (p i)) \<and> (\<forall>j < nn. route_to (table_of w' (p i)) (addr j) =
        (if j \<noteq> i \<and> link_towards link_head (compute_routes r) i j \<noteq> None then link_towards link_head (compute_routes r) i j
         else route_to (table_of w (p i)) (addr j))))"

lemma populate_fills:
  assumes "route_commands cmds new_routing = Inr r" and "\<forall>c\<in>set cmds. fair_cost c" and "flat_network nn r link_head p dm w"
    and "\<forall>i < nn. i < length nl \<and> nl ! i = Some (p i)" and "nn \<le> length nl"
  shows "\<exists>w'. populate_rows link_head (Some (compute_routes r)) nl nn 0 w = Inr w' \<and> filled nn r link_head p w w'"
proof -
  have net: "\<forall>i < nn. plain_node w (p i) \<and> fn_nodeid (fw_nodes w ! p i) = int i \<and> table_for nn (table_of w (p i)) \<and> nl ! i = Some (p i)"
    "\<forall>i < nn. \<forall>j < nn. entry_of w (p i) = entry_of w (p j) \<longrightarrow> i = j" "nn \<le> 2 ^ 31"
    using assms(3,4) by (simp_all add: flat_network_def)
  have "visited nl nn 0 = [0..<nn]" using assms(4) by (intro visited_all) simp
  moreover have "\<forall>i < nn. \<forall>j < nn. j \<noteq> i \<longrightarrow>
      (\<exists>nh. lookup_flat (compute_routes r) (int i) (int j) = Inr nh \<and> (0 \<le> nh \<longrightarrow> link_head (int i) nh \<noteq> None))"
    using hop_has_link [OF assms(1-3)] by blast
  then obtain w' where "rfold (\<lambda>i. populate_node link_head (Some (compute_routes r)) (the (nl ! i)) i nn) [0..<nn] w = Inr w'"
    "filled nn r link_head p w w'"
    using rows_filled [OF net, of "compute_routes r" link_head "[0..<nn]"] by (auto simp: filled_def lessThan_atLeast0)
  ultimately show ?thesis using populate_visited [OF assms(5)] by auto
qed

lemma routed_hops:
  assumes "route_commands cmds new_routing = Inr r" and "\<forall>c\<in>set cmds. fair_cost c" and "flat_network nn r link_head p dm w"
    and "filled nn r link_head p w w'" and "d < nn"
  shows "route_from (hop_of (compute_routes r)) s (int d) = Some ns \<Longrightarrow> \<forall>x\<in>set ns. 0 \<le> x \<Longrightarrow>
    set (map (\<lambda>x. nat x + 1) ns) \<subseteq> {1..<rl_size r} \<Longrightarrow> route_cost (adj_of r) (map (\<lambda>x. nat x + 1) ns) < INFINITY \<Longrightarrow>
    hops_ok w' p d (map nat ns) \<and> set ns \<subseteq> insert (int d) {x. nat x < nn}"
proof (induction ns arbitrary: s rule: induct_list012)
  case (2 x)
  obtain ms where ms: "[x] = s # ms" "s \<noteq> int d \<longrightarrow> route_from (hop_of (compute_routes r)) (hop_of (compute_routes r) s (int d)) (int d) = Some ms"
    using route_from_starts [OF 2(1)] by blast
  then have "s = int d" using route_from_starts by fastforce
  then show ?case using ms(1) by simp
next
  case (3 x y ns)
  let ?A = "adj_of r" and ?R = "compute_routes r"
  obtain ms where ms: "x # y # ns = s # ms" "s \<noteq> int d \<longrightarrow> route_from (hop_of ?R) (hop_of ?R s (int d)) (int d) = Some ms"
    using route_from_starts [OF 3(3)] by blast
  have sd: "s \<noteq> int d" using 3(3) ms(1) by (auto simp: route_from.simps [of _ "int d"])
  then have rest: "route_from (hop_of ?R) (hop_of ?R s (int d)) (int d) = Some (y # ns)" using ms by simp
  then have y: "hop_of ?R s (int d) = y" using route_from_starts by blast
  have "0 \<le> route_cost ?A (map (\<lambda>x. nat x + 1) (y # ns))"
    using 3(5) by (intro route_cost_nonneg [OF commands_costs_ok(1) [OF assms(1,2)]]) simp
  moreover have "0 \<le> ADJ ?A (nat x + 1) (nat y + 1)"
    using commands_costs_ok(2) [OF assms(1,2), of "nat x + 1" "nat y + 1"] 3(5) by simp
  ultimately have cost: "ADJ ?A (nat x + 1) (nat y + 1) < INFINITY" "route_cost ?A (map (\<lambda>x. nat x + 1) (y # ns)) < INFINITY"
    using 3(6) by simp_all
  have xs: "0 \<le> x" "0 \<le> y" "x = s" using 3(4) ms(1) by auto
  have "nat x + 1 < rl_size r" "nat y + 1 < rl_size r" using 3(5) by simp_all
  from network_link [OF assms(3) _ this(1) _ this(2) cost(1)] xs(1,2)
  obtain o' where lt: "nat x + 1 \<le> nn" "nat y + 1 \<le> nn" and o': "o' < length (fw_objs w)" "link_head x y = Some o'"
    "\<exists>t. fw_objs w ! o' = Link_Head (p (nat y)) t \<and> tt_tick t = 1" by auto
  have xn: "nat x < nn" "nat x \<noteq> d" using lt xs sd by auto
  obtain nh where nh: "lookup_flat ?R (int (nat x)) (int d) = Inr nh" using hop_has_link [OF assms(1-3) xn(1) assms(5) xn(2)] by blast
  then have "nh = y" using y xs by (simp add: hop_of_def)
  then have "link_towards link_head ?R (nat x) d = Some o'" using nh o'(2) xs by (simp add: link_towards_def)
  then have "route_to (table_of w' (p (nat x))) (addr d) = Some o'" using assms(4,5) xn by (simp add: filled_def)
  moreover have "fw_objs w' = fw_objs w" using assms(4) by (simp add: filled_def same_wiring_def)
  moreover have "hops_ok w' p d (map nat (y # ns)) \<and> set (y # ns) \<subseteq> insert (int d) {x. nat x < nn}"
    using 3(2) [OF rest] 3(4,5) cost(2) by simp
  ultimately show ?case using o' xn(1) by auto
qed simp

text \<open>
  C15. Every way ends. Whatever the tables of the nodes say, circles of stale routes included,
  and however the callback for a missing slot changes the table that called it, as long as it
  installs objects that exist (the retry of \<open>find\<close> after it included), a packet that enters a
  network whose links each take at least 1 off the TTL reaches an agent or is dropped after at
  most as many nodes as its TTL says, with nothing but the TTL of its header changed.
\<close>

theorem every_packet_ends:
  assumes "wired w" and "n < length (fw_nodes w)"
    and "\<And>i c. objects_below (length (fw_objs w)) c \<Longrightarrow> objects_below (length (fw_objs w)) (no_slot i c)"
  shows "\<exists>ns f h'. travel (Suc (nat (ip_ttl h))) no_slot h n w = Inr (ns, f, h') \<and> int (length ns) \<le> max 1 (ip_ttl h) \<and>
    h' = h\<lparr>ip_ttl := ip_ttl h'\<rparr>"
  using travel_ends [where no_slot = no_slot and k = "Suc (nat (ip_ttl h))", OF _ assms(1) refl assms(2)] assms(3) by simp

text \<open>A callback that installs a route, whichever slot was missing.\<close>

definition patch_route :: "int \<Rightarrow> nat \<Rightarrow> int \<Rightarrow> hash_classifier \<Rightarrow> hash_classifier" where
  "patch_route d p i c = (case hc_do_install d (Some p) c of Inr c1 \<Rightarrow> c1 | Inl _ \<Rightarrow> c)"

lemma objects_below_slots:
  "objects_below n c \<longleftrightarrow> (\<forall>t. Some t \<in> set (cs_slot c) \<longrightarrow> t < n) \<and> (\<forall>t. cs_default c = Some t \<longrightarrow> t < n)"
proof -
  have "(\<exists>i. slot_at i c = Some t) \<longleftrightarrow> Some t \<in> set (cs_slot c)" for t
  proof
    assume "Some t \<in> set (cs_slot c)"
    then obtain k where "k < length (cs_slot c)" "cs_slot c ! k = Some t" by (auto simp: in_set_conv_nth)
    then show "\<exists>i. slot_at i c = Some t" by (intro exI [of _ "int k"]) (simp add: slot_at_def)
  next
    assume "\<exists>i. slot_at i c = Some t"
    then obtain i where i: "slot_at i c = Some t" by blast
    then have "0 \<le> i" "i < nslot c" "cs_slot c ! nat i = Some t" by (auto simp: slot_at_def split: if_splits)
    then show "Some t \<in> set (cs_slot c)" using nth_mem [of "nat i" "cs_slot c"] by (simp add: nat_less_iff)
  qed
  then show ?thesis by (auto simp: objects_below_def)
qed

lemma alloc_below: "alloc_slots s c = Inr c1 \<Longrightarrow> objects_below n c \<Longrightarrow> objects_below n c1"
  by (auto simp: alloc_slots_def rbind_eq_Inr objects_below_slots)

lemma patch_route_below:
  assumes "objects_below n c" and "p < n"
  shows "objects_below n (patch_route d p i c)"
proof -
  have put: "objects_below n c2" if "install s (Some p) c1 = Inr c2" "objects_below n c1" for s c1 c2
    using that assms(2) by (auto simp: install_def rbind_eq_Inr vec_upd_def objects_below_slots split: if_splits
        dest!: alloc_below [where n = n] set_update_subset_insert [THEN subsetD])
  have "objects_below n c1" if "getnxt t c = Inr (s, c1)" for t s c1
    using that assms(1) alloc_below by (auto simp: getnxt_def rbind_eq_Inr split: option.splits)
  moreover have "objects_below n (set_hash Dest x y z s c2) = objects_below n c2" for x y z s c2
    by (simp add: objects_below_slots set_hash_def)
  ultimately show ?thesis
    using assms(1) put by (auto simp: patch_route_def hc_do_install_def rbind_eq_Inr split: sum.splits)
qed

lemma least_exists:
  assumes "route_commands cmds new_routing = Inr r" and "\<forall>c\<in>set cmds. fair_cost c"
    and "int s + 1 < int (rl_size r)" "int d + 1 < int (rl_size r)" "s \<noteq> d"
    and "\<exists>ps. route_path (rl_size r) ps (s + 1) (d + 1) \<and> route_cost (adj_of r) ps < INFINITY"
  shows "\<exists>c. least_cost (adj_of r) (rl_size r) (s + 1) (d + 1) c \<and> c < INFINITY"
proof -
  have "(0::int) \<le> int s" "(0::int) \<le> int d" "int s \<noteq> int d" using assms(5) by simp_all
  from computed_hops [OF assms(1,2) this(1) assms(3) this(2) assms(4) this(3), unfolded nat_int if_P [OF assms(6)]]
  obtain c where "least_cost (adj_of r) (rl_size r) (s + 1) (d + 1) c" by blast
  then show ?thesis using assms(6) by (auto simp: least_cost_def intro: order_le_less_trans)
qed

text \<open>The least-cost path that the tables of a destination spell out.\<close>

lemma travel_routed:
  assumes "route_commands cmds new_routing = Inr r" and "\<forall>c\<in>set cmds. fair_cost c" and "flat_network nn r link_head p dm w"
    and "filled nn r link_head p w w'" and "s < nn" "d < nn" "s \<noteq> d" and "slot_at port (fw_ports w ! dm d) = Some a"
    and "\<exists>ps. route_path (rl_size r) ps (s + 1) (d + 1) \<and> route_cost (adj_of r) ps < INFINITY"
  shows "\<exists>ns. least_cost (adj_of r) (rl_size r) (s + 1) (d + 1) (route_cost (adj_of r) (map Suc ns)) \<and>
    hd ns = s \<and> last ns = d \<and> distinct ns \<and>
    (\<forall>h no_slot. ip_daddr h = int d \<and> ip_dport h = port \<longrightarrow>
       travel (Suc (nat (ip_ttl h))) no_slot h (p s) w' =
         Inr (if int (length ns) \<le> ip_ttl h then (map p ns, To_Agent a, h\<lparr>ip_ttl := ip_ttl h - (int (length ns) - 1)\<rparr>)
              else (map p (take (nat (max 1 (ip_ttl h))) ns), Ttl_Exceeded, h\<lparr>ip_ttl := min 1 (ip_ttl h)\<rparr>)))"
proof -
  let ?A = "adj_of r" and ?n = "rl_size r" and ?R = "compute_routes r" and ?f = "\<lambda>x. nat x + 1"
  have sz: "int s + 1 < int ?n" "int d + 1 < int ?n" using assms(3,5,6) by (simp_all add: flat_network_def)
  obtain c where c: "least_cost ?A ?n (s + 1) (d + 1) c" "c < INFINITY"
    using least_exists [OF assms(1,2) sz assms(7,9)] by blast
  obtain ms where ms: "route_from (hop_of ?R) (int s) (int d) = Some ms" "route_path ?n (map ?f ms) (s + 1) (d + 1)"
    "route_cost ?A (map ?f ms) = c" "distinct ms" "\<forall>x\<in>set ms. 0 \<le> x"
    using route_from_least [OF assms(1,2) _ sz(2) _ sz(1), of c] c by auto
  have "set (map ?f ms) \<subseteq> {1..<?n}" using ms(2) by (simp add: route_path_def)
  then have hops: "hops_ok w' p d (map nat ms)" "set ms \<subseteq> insert (int d) {x. nat x < nn}"
    using routed_hops [OF assms(1-4,6) ms(1,5)] ms(3) c(2) by simp_all
  have ne: "ms \<noteq> []" using ms(2) by (auto simp: route_path_def)
  have ends: "hd (map nat ms) = s" "last (map nat ms) = d" using ms(2) ne by (simp_all add: route_path_def hd_map last_map)
  have dist: "distinct (map nat ms)" using ms(4,5) by (auto simp: distinct_map inj_on_def eq_nat_nat_iff)
  have "map Suc (map nat ms) = map ?f ms" by simp
  then have least: "least_cost ?A ?n (s + 1) (d + 1) (route_cost ?A (map Suc (map nat ms)))" using ms(3) c(1) by metis
  have "\<forall>i\<in>set (map nat ms). i < nn" using hops(2) assms(6) by auto
  then have all: "\<forall>i\<in>set (map nat ms). plain_node w' (p i) \<and> table_for nn (table_of w' (p i))"
    using assms(3,4) same_wiringD(2) [of w w'] by (auto simp: flat_network_def filled_def)
  obtain x where x: "route_to (table_of w' (p d)) (addr d) = Some x" "x < length (fw_objs w')" "fw_objs w' ! x = Port_Demux (dm d)"
    "dm d < length (fw_ports w')" "fw_ports w' = fw_ports w"
    using assms(3,4,6) by (auto simp: flat_network_def filled_def same_wiring_def)
  have one: "length (map nat ms) \<noteq> 1" using ends assms(7) by (cases "map nat ms") auto
  have "travel (Suc (nat (ip_ttl h))) no_slot h (p s) w' =
      Inr (if int (length (map nat ms)) \<le> ip_ttl h
           then (map p (map nat ms), To_Agent a, h\<lparr>ip_ttl := ip_ttl h - (int (length (map nat ms)) - 1)\<rparr>)
           else (map p (take (nat (max 1 (ip_ttl h))) (map nat ms)), Ttl_Exceeded, h\<lparr>ip_ttl := min 1 (ip_ttl h)\<rparr>))"
    if "ip_daddr h = int d" "ip_dport h = port" for h no_slot
    using travel_path [OF all assms(6) x(1-4) _ ends(2) hops(1), of h "Suc (nat (ip_ttl h))" a no_slot, unfolded ends(1)] one assms(8) x(5) ne that
    by (simp del: travel.simps length_map)
  then show ?thesis using least ends dist by blast
qed

lemma travel_nowhere:
  assumes "route_commands cmds new_routing = Inr r" and "\<forall>c\<in>set cmds. fair_cost c" and "flat_network nn r link_head p dm w"
    and "filled nn r link_head p w w'" and "s < nn" "d < nn" "s \<noteq> d"
    and "\<not> (\<exists>ps. route_path (rl_size r) ps (s + 1) (d + 1) \<and> route_cost (adj_of r) ps < INFINITY)" and "ip_daddr h = int d"
  shows "travel (Suc k) (\<lambda>_ c. c) h (p s) w' = Inr ([p s], No_Slot, h)"
proof -
  have sz: "int s + 1 < int (rl_size r)" "int d + 1 < int (rl_size r)" using assms(3,5,6) by (simp_all add: flat_network_def)
  have "lookup_flat (compute_routes r) (int s) (int d) = Inr (-1)"
    using computed_hops [OF assms(1,2) _ sz(1) _ sz(2), unfolded nat_int if_not_P [OF assms(8)]] assms(7) by auto
  then have none: "route_to (table_of w' (p s)) (addr d) = None"
    using assms(3-7) by (simp add: filled_def link_towards_def flat_network_def)
  have t: "plain_node w' (p s)" "table_for nn (table_of w' (p s))"
    using assms(3-5) same_wiringD(2) [of w w'] by (auto simp: flat_network_def filled_def)
  have "cs_recv (\<lambda>_ c. c) (hc_classify (\<lambda>_ c. c) Dest) h (table_of w' (p s)) = Inr (Freed, table_of w' (p s))"
    using t(2) none mshift_addr [OF t(2) assms(6)] assms(9) by (intro recv_unrouted) (simp_all add: table_for_def)
  moreover have "p s < length (fw_nodes w')" "fn_entry (fw_nodes w' ! p s) < length (fw_cls w')"
    using t(1) by (simp_all add: plain_node_def entry_of_def)
  ultimately show ?thesis by (simp add: table_of_def entry_of_def)
qed

lemma sim_check_keeps: "length nl \<le> length (sim_check n nl) \<and> (\<forall>i < length nl. sim_check n nl ! i = nl ! i)"
  by (simp add: sim_check_def nth_append)

text \<open>
  C14. Packets follow the computed routes. In a network of nodes with flat addresses, whatever
  links were inserted and reset before the routes were computed, \<open>populate-flat-classifiers\<close>
  succeeds, and then, for every two different nodes: if the destination can be reached at a
  cost below \<open>INFINITY\<close>, there is a path of least cost that visits no node twice such that
  every packet from the source with this destination takes it to the agent at its
  destination port, with its TTL lowered by the number of links, if its TTL is at least the
  number of nodes; with a smaller TTL it takes as many nodes of the path as its TTL says and
  is dropped. If the destination cannot be reached, the packet is freed where it is.
\<close>

theorem packets_follow_routes:
  assumes "route_commands cmds new_routing = Inr r" and "\<forall>c\<in>set cmds. fair_cost c" and "flat_network nn r link_head p dm w"
    and "si_nodelist sim = Some nl" and "si_rtobject sim = Some (compute_routes r)"
    and "nn \<le> length nl" and "\<forall>i < nn. nl ! i = Some (p i)"
    and "s < nn" and "d < nn" and "s \<noteq> d" and "slot_at port (fw_ports w ! dm d) = Some a"
  shows "\<exists>sim' w'. sim_command link_head (Populate_Flat (int nn)) (sim, w) = Inr (True, sim', w') \<and>
    (if \<exists>ps. route_path (rl_size r) ps (s + 1) (d + 1) \<and> route_cost (adj_of r) ps < INFINITY
     then \<exists>ns. least_cost (adj_of r) (rl_size r) (s + 1) (d + 1) (route_cost (adj_of r) (map Suc ns)) \<and>
       hd ns = s \<and> last ns = d \<and> distinct ns \<and>
       (\<forall>h no_slot. ip_daddr h = int d \<and> ip_dport h = port \<longrightarrow>
          travel (Suc (nat (ip_ttl h))) no_slot h (p s) w' =
            Inr (if int (length ns) \<le> ip_ttl h then (map p ns, To_Agent a, h\<lparr>ip_ttl := ip_ttl h - (int (length ns) - 1)\<rparr>)
                 else (map p (take (nat (max 1 (ip_ttl h))) ns), Ttl_Exceeded, h\<lparr>ip_ttl := min 1 (ip_ttl h)\<rparr>)))
     else \<forall>h. ip_daddr h = int d \<longrightarrow> travel (Suc (nat (ip_ttl h))) (\<lambda>_ c. c) h (p s) w' = Inr ([p s], No_Slot, h))"
proof -
  let ?ex = "\<exists>ps. route_path (rl_size r) ps (s + 1) (d + 1) \<and> route_cost (adj_of r) ps < INFINITY"
  let ?nl = "sim_check (int nn) nl"
  have nl: "nn \<le> length ?nl" "\<forall>i < nn. i < length ?nl \<and> ?nl ! i = Some (p i)"
    using sim_check_keeps [of nl "int nn"] assms(6,7) by (auto intro: order_less_le_trans)
  obtain w' where w': "populate_rows link_head (Some (compute_routes r)) ?nl nn 0 w = Inr w'" "filled nn r link_head p w w'"
    using populate_fills [OF assms(1-3) nl(2,1)] by blast
  have "sim_command link_head (Populate_Flat (int nn)) (sim, w) = Inr (True, sim\<lparr>si_nn := int nn, si_nodelist := Some ?nl\<rparr>, w')"
    using assms(4,5) w'(1) by (simp add: populate_flat_classifiers_def)
  moreover have "travel (Suc (nat (ip_ttl h))) (\<lambda>_ c. c) h (p s) w' = Inr ([p s], No_Slot, h)" if "\<not> ?ex" "ip_daddr h = int d" for h
    using travel_nowhere [OF assms(1-3) w'(2) assms(8-10) that] .
  ultimately show ?thesis using travel_routed [OF assms(1-3) w'(2) assms(8-11)]
    by (cases ?ex) (simp only: if_P if_True, blast, simp only: if_False, blast)
qed

subsection \<open>The node after a gap\<close>

lemma pair_frame:
  assumes "populate_pair link_head rt n i j w = Inr w'" "plain_node w n" "entry_of w m \<noteq> entry_of w n"
  shows "same_wiring w w' \<and> table_of w' m = table_of w m"
proof (cases "w' = w")
  case True
  then show ?thesis by (simp add: same_wiring_def)
next
  case False
  then obtain t where "node_add_route n (int j) t w = Inr w'"
    using assms(1) by (auto simp: populate_pair_def rbind_eq_Inr split: if_splits option.splits)
  then obtain h where "w' = set_table n h w" by (auto simp: plain_add_route [OF assms(2)] rbind_eq_Inr)
  then show ?thesis using assms(2,3) table_of_set [OF assms(2), of h m] by (simp add: same_wiring_def)
qed

lemma node_frame:
  assumes "populate_node link_head rt n i nn w = Inr w'" "plain_node w n" "entry_of w m \<noteq> entry_of w n"
  shows "same_wiring w w' \<and> table_of w' m = table_of w m"
proof -
  let ?w = "set_table n (set_table_size (int nn) (table_of w n)) w"
  have "rfold (populate_pair link_head rt n i) [0..<nn] ?w = Inr w'"
    using assms(1) by (simp add: populate_node_def plain_set_size [OF assms(2)])
  then show ?thesis
  proof (rule rfold_invariant [where P = "\<lambda>v. same_wiring w v \<and> table_of v m = table_of w m"])
    show "same_wiring w ?w \<and> table_of ?w m = table_of w m"
      using table_of_set [OF assms(2)] assms(3) by (simp add: same_wiring_def)
    fix j s t assume st: "same_wiring w s \<and> table_of s m = table_of w m" "populate_pair link_head rt n i j s = Inr t"
    then have "same_wiring s t \<and> table_of t m = table_of s m"
      using pair_frame [OF st(2), of m] assms(2,3) same_wiringD [of w s] by simp
    then show "same_wiring w t \<and> table_of t m = table_of w m" using st(1) by (simp add: same_wiring_def)
  qed
qed

text \<open>
  Numbers of nodes need not be dense for \<open>add_node\<close>, but the loop over them steps twice over
  a missing one: the first node after a gap never gets a route.
\<close>

theorem node_after_gap_unrouted:
  assumes "sim_command link_head (Populate_Flat (int nn)) (sim, w) = Inr (True, sim', w')"
    and "si_nodelist sim = Some nl" and "nn < length nl"
    and "\<forall>j < nn. \<forall>q. nl ! j = Some q \<longrightarrow> plain_node w q \<and> (j \<noteq> Suc g \<longrightarrow> entry_of w q \<noteq> entry_of w m)"
    and "nl ! g = None" and "\<forall>j < g. nl ! j \<noteq> None" and "nl ! Suc g = Some m"
  shows "table_of w' m = table_of w m"
proof -
  have "populate_rows link_head (si_rtobject sim) nl nn 0 w = Inr w'"
    using assms(1-3) by (auto simp: populate_flat_classifiers_def sim_check_def rbind_eq_Inr)
  then have run: "rfold (\<lambda>i. populate_node link_head (si_rtobject sim) (the (nl ! i)) i nn) (visited nl nn 0) w = Inr w'"
    using populate_visited assms(3) by simp
  have "same_wiring w w' \<and> table_of w' m = table_of w m"
  proof (rule rfold_invariant [OF run, where P = "\<lambda>v. same_wiring w v \<and> table_of v m = table_of w m"])
    show "same_wiring w w \<and> table_of w m = table_of w m" by (simp add: same_wiring_def)
    fix i s t assume i: "i \<in> set (visited nl nn 0)" and s: "same_wiring w s \<and> table_of s m = table_of w m"
      and t: "populate_node link_head (si_rtobject sim) (the (nl ! i)) i nn s = Inr t"
    have "i \<noteq> Suc g" using visited_gap [OF assms(6,5), of 0 nn] i by auto
    moreover obtain q where "i < nn" "nl ! i = Some q" using visited_above [OF i] by auto
    ultimately have "plain_node s q" "entry_of s m \<noteq> entry_of s q" "nl ! i = Some q"
      using assms(4) s same_wiringD [of w s] by fastforce+
    then have "same_wiring s t \<and> table_of t m = table_of s m" using node_frame t by fastforce
    then show "same_wiring w t \<and> table_of t m = table_of w m" using s by (simp add: same_wiring_def)
  qed
  then show ?thesis by simp
qed

subsection \<open>A circle of modules\<close>

lemma add_route_circle:
  "\<forall>m\<in>S. m < length (fw_mods w) \<and> rm_kind (fw_mods w ! m) = Rtm_Table \<and> (\<exists>m'\<in>S. rm_next (fw_mods w ! m) = Some m') \<and>
      (\<forall>c. rm_classifier (fw_mods w ! m) = Some c \<longrightarrow> c < length (fw_cls w)) \<Longrightarrow>
    \<forall>h\<in>set (fw_cls w). hash_ok h \<Longrightarrow> m \<in> S \<Longrightarrow> rtm_add_route k (Some m) d (Some t) w = Inl Diverges"
proof (induction k arbitrary: m w)
  case (Suc k)
  obtain m' where m: "m < length (fw_mods w)" "rm_kind (fw_mods w ! m) = Rtm_Table" "rm_next (fw_mods w ! m) = Some m'" "m' \<in> S"
    using Suc.prems(1,3) by blast
  have "\<exists>w1. rtm_install (rm_classifier (fw_mods w ! m)) d (Some t) w = Inr w1 \<and> fw_mods w1 = fw_mods w \<and>
      length (fw_cls w1) = length (fw_cls w) \<and> (\<forall>h\<in>set (fw_cls w1). hash_ok h)"
  proof (cases "rm_classifier (fw_mods w ! m)")
    case None
    then show ?thesis using Suc.prems(2) by (simp add: rtm_install_def)
  next
    case (Some c)
    then have c: "c < length (fw_cls w)" using Suc.prems(1,3) by blast
    then obtain h where "hc_do_install d (Some t) (fw_cls w ! c) = Inr h" "hash_ok h"
      using do_install_ok [of "fw_cls w ! c" d t] Suc.prems(2) by auto
    then show ?thesis using Some c Suc.prems(2)
      by (auto simp: rtm_install_def dest!: set_update_subset_insert [THEN subsetD])
  qed
  then obtain w1 where w1: "rtm_install (rm_classifier (fw_mods w ! m)) d (Some t) w = Inr w1" "fw_mods w1 = fw_mods w"
    "length (fw_cls w1) = length (fw_cls w)" "\<forall>h\<in>set (fw_cls w1). hash_ok h" by blast
  have "rtm_add_route k (Some m') d (Some t) w1 = Inl Diverges"
    using Suc.IH [of w1 m'] Suc.prems(1) m(4) w1(2-4) by simp
  then show ?case using m w1(1) by simp
qed simp

text \<open>
  \<open>unreg_route_notify\<close> takes a module out of the chain but leaves its \<open>next_rtm_\<close>. When a
  module from the middle is registered again, the chain becomes a circle, and the next route
  is added for ever.
\<close>

theorem renotified_module_loops:
  assumes "n < length (fw_nodes w)" and "fn_rtnotif (fw_nodes w ! n) = Some a" and "distinct [a, b, c]"
    and "\<forall>m\<in>{a, b, c}. m < length (fw_mods w) \<and> rm_kind (fw_mods w ! m) = Rtm_Table \<and>
      (\<forall>cl. rm_classifier (fw_mods w ! m) = Some cl \<longrightarrow> cl < length (fw_cls w))"
    and "rm_next (fw_mods w ! a) = Some b" and "rm_next (fw_mods w ! b) = Some c" and "rm_next (fw_mods w ! c) = None"
    and "\<forall>h\<in>set (fw_cls w). hash_ok h"
  shows "\<exists>w1 w2. node_unreg_route_notify n b w = Inr w1 \<and> node_route_notify n b w1 = Inr w2 \<and>
    node_add_route n d (Some t) w2 = Inl Diverges"
proof -
  have lt: "a < length (fw_mods w)" "b < length (fw_mods w)" "c < length (fw_mods w)" using assms(4) by simp_all
  have ne: "a \<noteq> b" "a \<noteq> c" "b \<noteq> c" using assms(3) by simp_all
  obtain k where k: "length (fw_mods w) = Suc (Suc k)"
    using lt ne by (cases "length (fw_mods w)"; cases "length (fw_mods w) - 1") auto
  let ?w1 = "set_rtm_next a (Some c) w"
  let ?w2 = "set_rtm_next c (Some b) ?w1"
  have "node_unreg_route_notify n b w = Inr ?w1"
    using assms(1,2,5,6) lt ne by (simp add: node_unreg_route_notify_def k)
  moreover have "node_route_notify n b ?w1 = Inr ?w2"
    using assms(1,2,7) lt ne by (simp add: node_route_notify_def set_rtm_next_def k)
  moreover have "node_add_route n d (Some t) ?w2 = Inl Diverges"
  proof -
    have "rtm_add_route (length (fw_mods ?w2)) (Some a) d (Some t) ?w2 = Inl Diverges"
      using assms(4,6,8) lt ne by (intro add_route_circle [where S = "{a, b, c}"]) (auto simp: set_rtm_next_def nth_list_update)
    then show ?thesis using assms(1,2) by (simp add: node_add_route_def set_rtm_next_def)
  qed
  ultimately show ?thesis by blast
qed

subsection \<open>Examples\<close>

text \<open>Tables that name one object for one address, and a network of nodes in a row.\<close>

lemma one_route:
  "\<exists>h. hc_do_install (int i) (Some t) (new_hash\<lparr>cs_shift := 0, cs_mask := - 1\<rparr>) = Inr h \<and> (\<forall>nn. table_for nn h) \<and>
    route_to h = [addr i \<mapsto> t] \<and> targets h = {t}"
proof -
  let ?c = "new_hash\<lparr>cs_shift := 0, cs_mask := - 1\<rparr>"
  have m: "mshift ?c v = v" and d: "hc_default ?c = -1" "cs_default ?c = None" "cs_shift ?c = 0" "cs_mask ?c = - 1" for v
    by (simp_all add: mshift_def new_hash_def new_classifier_def classifier.defs)
  have "route_to ?c = Map.empty" using new_hash_ok(2) by blast
  then show ?thesis using do_install_ok [OF new_hash_ok(1) [where sh = 0 and mk = "- 1"], of "int i" t] m d new_hash_ok(3)
    by (auto simp: table_for_def)
qed

definition row_node :: "nat \<Rightarrow> fnode" where
  "row_node i = \<lparr>fn_nodeid = int i, fn_rtnotif = Some i, fn_entry = i\<rparr>"

definition row_module :: "nat \<Rightarrow> rtm" where
  "row_module i = \<lparr>rm_kind = Rtm_Table, rm_node = Some i, rm_classifier = Some i, rm_next = None\<rparr>"

definition row_port :: "nat \<Rightarrow> classifier" where
  "row_port i = new_classifier\<lparr>cs_slot := [Some (10 + i)], cs_maxslot := 0\<rparr>"

definition row_net :: "hash_classifier list \<Rightarrow> hop_object list \<Rightarrow> fabric" where
  "row_net cls objs = \<lparr>fw_nodes = map row_node [0..<length cls], fw_mods = map row_module [0..<length cls], fw_cls = cls,
     fw_ports = map row_port [0..<length cls], fw_objs = objs\<rparr>"

lemma row_net_simps [simp]:
  "fw_cls (row_net cls objs) = cls" "fw_objs (row_net cls objs) = objs"
  "i < length cls \<Longrightarrow> entry_of (row_net cls objs) i = i" "i < length cls \<Longrightarrow> table_of (row_net cls objs) i = cls ! i"
  "i < length cls \<Longrightarrow> plain_node (row_net cls objs) i" "length (fw_nodes (row_net cls objs)) = length cls"
  "i < length cls \<Longrightarrow> fw_nodes (row_net cls objs) ! i = row_node i" "fn_nodeid (row_node i) = int i"
  "length (fw_ports (row_net cls objs)) = length cls" "i < length cls \<Longrightarrow> fw_ports (row_net cls objs) ! i = row_port i"
  by (simp_all add: row_net_def entry_of_def table_of_def plain_node_def row_node_def row_module_def)

text \<open>
  Node 0 has no route to 5; the callback installs one there to node 1 and the retry of \<open>find\<close>
  finds it. The stale table of node 1 sends the packet back, and so to and fro until its TTL
  is used up.
\<close>

theorem every_packet_ends_witness:
  "\<exists>w ns f h' c. wired w \<and> fw_objs w = [Link_Head 1 new_ttl_checker, Link_Head 0 new_ttl_checker] \<and>
    route_to (table_of w 0) (addr 5) = None \<and> route_to (table_of w 1) (addr 5) = Some 1 \<and>
    cs_recv (patch_route 5 0) (hc_classify (\<lambda>_ c. c) Dest) (zero_ip\<lparr>ip_daddr := 5, ip_ttl := 8\<rparr>) (table_of w 0) = Inr (Passed 0, c) \<and>
    travel 9 (patch_route 5 0) (zero_ip\<lparr>ip_daddr := 5, ip_ttl := 8\<rparr>) 0 w = Inr (ns, f, h') \<and> length ns \<le> 8"
proof -
  let ?h = "zero_ip\<lparr>ip_daddr := 5, ip_ttl := 8\<rparr>"
  let ?a = "new_hash\<lparr>cs_shift := 0, cs_mask := - 1\<rparr>"
  obtain a where a: "hc_do_install 5 (Some 0) ?a = Inr a" "\<forall>nn. table_for nn a" "route_to a = [addr 5 \<mapsto> 0]" "targets a = {0}"
    using one_route [of 5 0] by auto
  obtain b where b: "\<forall>nn. table_for nn b" "route_to b = [addr 5 \<mapsto> 1]" "targets b = {1}" using one_route [of 5 1] by blast
  let ?w = "row_net [?a, b] [Link_Head 1 new_ttl_checker, Link_Head 0 new_ttl_checker]"
  have "objects_below 2 ?a" by (simp add: objects_below_slots new_hash_def new_classifier_def classifier.defs)
  moreover have "objects_below 2 b" using b(1,3) by (auto simp: objects_below_targets table_for_def)
  ultimately have w: "wired ?w" by (simp add: wired_def new_ttl_checker_def row_net_def row_node_def numeral_2_eq_2)
  have n: "0 < length (fw_nodes ?w)" by simp
  have cb: "objects_below (length (fw_objs ?w)) (patch_route 5 0 i c)" if "objects_below (length (fw_objs ?w)) c" for i c
    by (rule patch_route_below [OF that]) simp
  from every_packet_ends [where no_slot = "patch_route 5 0", OF w n cb, of ?h]
  obtain ns f h' where t: "travel (Suc 8) (patch_route 5 0) ?h 0 ?w = Inr (ns, f, h')" "int (length ns) \<le> 8"
    by (auto simp del: travel.simps)
  have "Suc 8 = 9" by simp
  then have t9: "travel 9 (patch_route 5 0) ?h 0 ?w = Inr (ns, f, h')" using t(1) by metis
  have none: "route_to ?a = Map.empty" using new_hash_ok(2) by blast
  have "hc_classify (\<lambda>_ c. c) Dest ?h ?a = Inr (TWICE, ?a)" "cs_default ?a = None" "slot_at TWICE ?a = None"
    "patch_route 5 0 TWICE ?a = a"
    using a(1) by (simp_all add: hc_classify_def hc_lookup_def get_hash_def new_hash_def new_classifier_def classifier.defs
        TWICE_def slot_at_def patch_route_def Let_def)
  moreover have ok: "hash_ok a" "cs_shift a = 0" "hc_default a = -1" using a(2) by (auto simp: table_for_def)
  have "route_to a (mshift a (word_of_int (ip_daddr ?h))) = Some 0"
    using a(2,3) mshift_addr [of 6 a 5] by simp
  then obtain s where "hc_ht a [mshift a (word_of_int (ip_daddr ?h))] = Some s" "slot_at s a = Some 0"
    by (auto simp: route_to_def split: option.splits if_splits)
  then have "hc_classify (\<lambda>_ c. c) Dest ?h a = Inr (s, a)" "slot_at s a = Some 0"
    using classify_route [OF ok, of "\<lambda>_ c. c" ?h] by simp_all
  ultimately have "cs_recv (patch_route 5 0) (hc_classify (\<lambda>_ c. c) Dest) ?h ?a = Inr (Passed 0, a)"
    by (simp add: cs_recv_def cs_find_def Let_def)
  then show ?thesis using w none b(2) t(2) t9
    by (intro exI [of _ ?w] exI [of _ ns] exI [of _ f] exI [of _ h'] exI [of _ a]) simp
qed

theorem renotified_module_loops_witness:
  "\<exists>w w1 w2. node_unreg_route_notify 0 1 w = Inr w1 \<and> node_route_notify 0 1 w1 = Inr w2 \<and> node_add_route 0 7 (Some 3) w2 = Inl Diverges"
proof -
  let ?m = "\<lambda>nx. \<lparr>rm_kind = Rtm_Table, rm_node = Some 0, rm_classifier = None, rm_next = nx\<rparr>"
  let ?w = "\<lparr>fw_nodes = [row_node 0], fw_mods = [?m (Some 1), ?m (Some 2), ?m None], fw_cls = [], fw_ports = [], fw_objs = []\<rparr>"
  have "\<exists>w1 w2. node_unreg_route_notify 0 1 ?w = Inr w1 \<and> node_route_notify 0 1 w1 = Inr w2 \<and> node_add_route 0 7 (Some 3) w2 = Inl Diverges"
    by (rule renotified_module_loops [where a = 0 and b = 1 and c = 2]) (simp_all add: row_node_def)
  then show ?thesis by blast
qed

definition row_cmds :: "route_cmd list" where
  "row_cmds = [Insert 0 1 None, Insert 1 2 (Some 3)]"

lemma row_cmds_run: "\<exists>r. route_commands row_cmds new_routing = Inr r \<and> rl_size r = 16"
  by (simp add: row_cmds_def route_commands_def new_routing_def rl_insert_def check_def set_adj_def INDEX_def rl_alloc_def
    Let_def double_beyond.simps vec_upd_def)

lemma row_costs:
  assumes "route_commands row_cmds new_routing = Inr r" "rl_size r = 16" "1 \<le> i" "i < 16" "1 \<le> j" "j < 16"
  shows "ADJ (adj_of r) i j = (if i = 1 \<and> j = 2 then 1 else if i = 2 \<and> j = 3 then 3 else INFINITY)"
proof -
  have "link_cost r (int i - 1) (int j - 1) = fold link_map row_cmds (\<lambda>_. INFINITY) (int i - 1, int j - 1)"
    using costs_of_commands [OF assms(1) costs_of_new] assms(3-6) by (simp add: costs_of_def)
  moreover have "nat (int i - 1 + 1) = i" "nat (int j - 1 + 1) = j" "int i - 1 + 1 < 16" "int j - 1 + 1 < 16"
    "int i - 1 = 0 \<longleftrightarrow> i = 1" "int i - 1 = 1 \<longleftrightarrow> i = 2" "int j - 1 = 1 \<longleftrightarrow> j = 2" "int j - 1 = 2 \<longleftrightarrow> j = 3" using assms by auto
  ultimately show ?thesis using assms(2) by (simp add: link_cost_def row_cmds_def)
qed

definition row_head :: "int \<Rightarrow> int \<Rightarrow> nat option" where
  "row_head s d = (if s = 0 \<and> d = 1 then Some 3 else if s = 1 \<and> d = 2 then Some 4 else None)"

lemma row_flat:
  assumes "route_commands row_cmds new_routing = Inr r" "rl_size r = 16"
    and "length cls = 3" "\<forall>i < 3. table_for 3 (cls ! i) \<and> route_to (cls ! i) = [addr i \<mapsto> i]"
  shows "flat_network 3 r row_head id id
    (row_net cls [Port_Demux 0, Port_Demux 1, Port_Demux 2, Link_Head 1 new_ttl_checker, Link_Head 2 new_ttl_checker])"
proof -
  let ?objs = "[Port_Demux 0, Port_Demux 1, Port_Demux 2, Link_Head 1 new_ttl_checker, Link_Head 2 new_ttl_checker]"
  let ?w = "row_net cls ?objs"
  have three: "i < 3 \<Longrightarrow> i = 0 \<or> i = 1 \<or> i = 2" for i :: nat by auto
  have dem: "?objs ! i = Port_Demux i" if "i < 3" for i using three [OF that] by auto
  have apart: "addr i \<noteq> addr j" if "i < 3" "j < 3" "i \<noteq> j" for i j using that addr_inj [of i j] by simp
  have links: "\<forall>i j. 1 \<le> i \<and> i < rl_size r \<and> 1 \<le> j \<and> j < rl_size r \<and> ADJ (adj_of r) i j < INFINITY \<longrightarrow>
      i \<le> 3 \<and> j \<le> 3 \<and> (\<exists>x < length (fw_objs ?w). row_head (int i - 1) (int j - 1) = Some x \<and>
        (\<exists>t. fw_objs ?w ! x = Link_Head (id (j - 1)) t \<and> tt_tick t = 1))"
  proof (intro allI impI)
    fix i j assume ij: "1 \<le> i \<and> i < rl_size r \<and> 1 \<le> j \<and> j < rl_size r \<and> ADJ (adj_of r) i j < INFINITY"
    then have "i = 1 \<and> j = 2 \<or> i = 2 \<and> j = 3"
      using row_costs [OF assms(1,2), of i j] assms(2) by (simp split: if_splits)
    then show "i \<le> 3 \<and> j \<le> 3 \<and> (\<exists>x < length (fw_objs ?w). row_head (int i - 1) (int j - 1) = Some x \<and>
        (\<exists>t. fw_objs ?w ! x = Link_Head (id (j - 1)) t \<and> tt_tick t = 1))"
    proof
      assume "i = 1 \<and> j = 2"
      then show ?thesis by (intro conjI exI [of _ 3]) (simp_all add: row_head_def new_ttl_checker_def)
    next
      assume "i = 2 \<and> j = 3"
      then show ?thesis by (intro conjI exI [of _ 4]) (simp_all add: row_head_def new_ttl_checker_def)
    qed
  qed
  show ?thesis
    unfolding flat_network_def by (intro conjI links) (use assms dem apart in simp_all)
qed

theorem packets_follow_routes_witness:
  "\<exists>r w sim' w' ns. route_commands row_cmds new_routing = Inr r \<and>
    sim_command row_head (Populate_Flat 3)
      (new_simulator\<lparr>si_nodelist := Some [Some 0, Some 1, Some 2], si_rtobject := Some (compute_routes r)\<rparr>, w) = Inr (True, sim', w') \<and>
    hd ns = 0 \<and> last ns = 2 \<and> distinct ns \<and> least_cost (adj_of r) (rl_size r) 1 3 (route_cost (adj_of r) (map Suc ns)) \<and>
    travel 33 (\<lambda>_ c. c) (zero_ip\<lparr>ip_daddr := 2, ip_ttl := 32\<rparr>) 0 w' =
      Inr (if length ns \<le> 32 then (ns, To_Agent 12, zero_ip\<lparr>ip_daddr := 2, ip_ttl := 32 - (int (length ns) - 1)\<rparr>)
           else (take 32 ns, Ttl_Exceeded, zero_ip\<lparr>ip_daddr := 2, ip_ttl := 1\<rparr>))"
proof -
  obtain r where r: "route_commands row_cmds new_routing = Inr r" "rl_size r = 16" using row_cmds_run by blast
  have "\<exists>h. table_for 3 h \<and> route_to h = [addr i \<mapsto> i]" for i using one_route [of i i] by blast
  then obtain tb where tb: "table_for 3 (tb i) \<and> route_to (tb i) = [addr i \<mapsto> i]" for i by metis
  let ?w = "row_net [tb 0, tb 1, tb 2] [Port_Demux 0, Port_Demux 1, Port_Demux 2, Link_Head 1 new_ttl_checker, Link_Head 2 new_ttl_checker]"
  let ?sim = "new_simulator\<lparr>si_nodelist := Some [Some 0, Some 1, Some 2], si_rtobject := Some (compute_routes r)\<rparr>"
  let ?h = "zero_ip\<lparr>ip_daddr := 2, ip_ttl := 32\<rparr>"
  have three: "i < 3 \<Longrightarrow> i = 0 \<or> i = 1 \<or> i = 2" for i :: nat by auto
  have "[tb 0, tb 1, tb 2] ! i = tb i" if "i < 3" for i using three [OF that] by auto
  then have flat: "flat_network 3 r row_head id id ?w" using tb by (intro row_flat [OF r]) simp_all
  have nl: "\<forall>i < 3. [Some 0, Some 1, Some 2] ! i = Some (id (i::nat))" using three by fastforce
  have fair: "\<forall>c\<in>set row_cmds. fair_cost c" by (simp add: row_cmds_def fair_cost_def INFINITY_def)
  have ex: "\<exists>ps. route_path (rl_size r) ps (0 + 1) (2 + 1) \<and> route_cost (adj_of r) ps < INFINITY"
    using row_costs [OF r, of 1 2] row_costs [OF r, of 2 3] r(2) by (intro exI [of _ "[1, 2, 3]"]) (simp add: route_path_def INFINITY_def)
  have port: "slot_at 0 (fw_ports ?w ! id 2) = Some 12" by (simp add: row_port_def slot_at_def)
  have "si_nodelist ?sim = Some [Some 0, Some 1, Some 2]" "si_rtobject ?sim = Some (compute_routes r)" "3 \<le> length [Some 0, Some 1, Some (2::nat)]"
    "(0::nat) < 3" "(2::nat) < 3" "(0::nat) \<noteq> 2" by simp_all
  from packets_follow_routes [OF r(1) fair flat this(1-3) nl this(4-6) port, unfolded if_P [OF ex]]
  obtain sim' w' ns where ns: "sim_command row_head (Populate_Flat (int 3)) (?sim, ?w) = Inr (True, sim', w')"
    "least_cost (adj_of r) (rl_size r) (0 + 1) (2 + 1) (route_cost (adj_of r) (map Suc ns))" "hd ns = 0" "last ns = 2" "distinct ns"
    "\<forall>h no_slot. ip_daddr h = int 2 \<and> ip_dport h = 0 \<longrightarrow> travel (Suc (nat (ip_ttl h))) no_slot h (id 0) w' =
       Inr (if int (length ns) \<le> ip_ttl h then (map id ns, To_Agent 12, h\<lparr>ip_ttl := ip_ttl h - (int (length ns) - 1)\<rparr>)
            else (map id (take (nat (max 1 (ip_ttl h))) ns), Ttl_Exceeded, h\<lparr>ip_ttl := min 1 (ip_ttl h)\<rparr>))" by blast
  have "ip_daddr ?h = int 2 \<and> ip_dport ?h = 0" "Suc (nat (ip_ttl ?h)) = 33" by (simp_all add: zero_ip_def)
  then have "travel 33 (\<lambda>_ c. c) ?h 0 w' =
      Inr (if length ns \<le> 32 then (ns, To_Agent 12, ?h\<lparr>ip_ttl := 32 - (int (length ns) - 1)\<rparr>)
           else (take 32 ns, Ttl_Exceeded, ?h\<lparr>ip_ttl := 1\<rparr>))"
    using ns(6) [rule_format, of ?h "\<lambda>_ c. c"] by (simp del: travel.simps)
  moreover have "(0::nat) + 1 = 1" "(2::nat) + 1 = 3" "int 3 = 3" by simp_all
  ultimately show ?thesis using r(1) ns(1-5) by (intro exI [of _ r] exI [of _ ?w] exI [of _ sim'] exI [of _ w'] exI [of _ ns]) simp
qed

text \<open>Nodes 1 and 2 without a node 0, and routes that both have: only node 2 gets its own.\<close>

theorem node_after_gap_unrouted_witness:
  "\<exists>w sim sim' w' c. sim_command (\<lambda>_ _. Some 9) (Populate_Flat 3) (sim, w) = Inr (True, sim', w') \<and>
    si_nodelist sim = Some [None, Some 0, Some 1, None] \<and> table_of w' 0 = table_of w 0 \<and>
    table_of w 1 = table_of w 0 \<and> route_to (table_of w' 1) (addr 1) = Some 9 \<and>
    lookup_flat c 1 2 = Inr 2 \<and> si_rtobject sim = Some c"
proof -
  let ?e = "(0, None)"
  let ?c = "\<lparr>rl_adj = [], rl_route = Some [?e, ?e, ?e, ?e, ?e, ?e, ?e, ?e, ?e, ?e, ?e, (3, None), ?e, ?e, (2, None), ?e], rl_size = 4\<rparr>"
  let ?t = "new_hash\<lparr>cs_shift := 0, cs_mask := - 1\<rparr>"
  let ?w = "row_net [?t, ?t] []"
  let ?sim = "\<lparr>si_nodelist = Some [None, Some 0, Some 1, None], si_nn = 0, si_rtobject = Some ?c\<rparr>"
  let ?w3 = "set_table 1 (set_table_size 3 ?t) ?w"
  have "hash_ok (set_table_size (int 3) ?t)" by (rule sized_table(1) [OF new_hash_ok(1)])
  moreover have "mshift ?t v = v" for v by (simp add: mshift_def new_hash_def new_classifier_def classifier.defs)
  ultimately obtain h where h: "hc_do_install 1 (Some 9) (set_table_size 3 ?t) = Inr h" "route_to h 1 = Some 9"
    using do_install_ok [of "set_table_size 3 ?t" 1 9] by auto
  have look: "lookup_flat ?c 1 2 = Inr 2" "lookup_flat ?c 2 0 = Inr (-1)" "lookup_flat ?c 2 1 = Inr 1"
    by (simp_all add: lookup_flat_def INDEX_def vec_get_def)
  have pl: "plain_node ?w 1" "plain_node ?w 0" by simp_all
  have "plain_node ?w3 1" "table_of ?w3 1 = set_table_size 3 ?t" using pl table_of_set [OF pl(1)] by simp_all
  then have add: "node_add_route 1 1 (Some 9) ?w3 = Inr (set_table 1 h ?w)" using h(1) plain_add_route [of ?w3 1 1 "Some 9"] by simp
  have v: "visited [None, Some 0, Some 1, None] 3 0 = [2]" by (simp add: visited.simps)
  have "vec_get (fw_nodes ?w3) 1 = Inr (row_node 1)" by (simp add: vec_get_def row_net_def set_table_def)
  then have pairs: "populate_pair (\<lambda>_ _. Some 9) (Some ?c) 1 2 0 ?w3 = Inr ?w3" "populate_pair (\<lambda>_ _. Some 9) (Some ?c) 1 2 1 ?w3 = Inr (set_table 1 h ?w)"
    "populate_pair (\<lambda>_ _. Some 9) (Some ?c) 1 2 2 v = Inr v" for v
    using look add by (simp_all add: populate_pair_def)
  have "[0..<3] = [0, 1, 2::nat]" by (simp add: numeral_3_eq_3 numeral_2_eq_2)
  then have "rfold (populate_pair (\<lambda>_ _. Some 9) (Some ?c) 1 2) [0..<3] ?w3 = Inr (set_table 1 h ?w)"
    by (simp only: rfold.simps pairs rbind_Inr)
  then have "populate_node (\<lambda>_ _. Some 9) (Some ?c) 1 2 3 ?w = Inr (set_table 1 h ?w)"
    using plain_set_size [OF pl(1), of 3] by (simp add: populate_node_def)
  then have run: "sim_command (\<lambda>_ _. Some 9) (Populate_Flat (int 3)) (?sim, ?w) = Inr (True, ?sim\<lparr>si_nn := 3\<rparr>, set_table 1 h ?w)"
    using populate_visited [of 3 "[None, Some 0, Some 1, None]" "\<lambda>_ _. Some 9" "Some ?c" 0 ?w] v
    by (simp add: populate_flat_classifiers_def sim_check_def)
  have plain: "\<forall>j < 3. \<forall>q. [None, Some 0, Some 1, None] ! j = Some q \<longrightarrow>
      plain_node ?w q \<and> (j \<noteq> Suc 0 \<longrightarrow> entry_of ?w q \<noteq> entry_of ?w 0)"
    by (simp add: All_less_Suc numeral_3_eq_3)
  have "table_of (set_table 1 h ?w) 0 = table_of ?w 0"
    by (rule node_after_gap_unrouted [OF run, of "[None, Some 0, Some 1, None]" 0]) (use plain in simp_all)
  moreover have "route_to (table_of (set_table 1 h ?w) 1) (addr 1) = Some 9" using h(2) table_of_set [OF pl(1)] by simp
  ultimately show ?thesis using run look(1) by (intro exI [of _ ?w] exI [of _ ?sim] exI exI exI [of _ ?c]) simp
qed

end
