(* ===== verification/Spec2Isabelle.thy ===== *)
theory Spec2Isabelle
  imports PollProtocol Pathways FlowControl NodeTopology DropTail LinkDelay Sacker SenderTimeout CalendarOrder RoutedPaths MultiPath TcpTransfer RealTime QueueShrink PollVariants HighSpeed PacketPaths
begin

text \<open>
  Verification of CCLB, an endhost congestion controller built into the network simulator
  ns-2.35, and of the parts of the simulator it runs on. All paths below are under
  \<^verbatim>\<open>src/\<close>.

  \<^bold>\<open>The program.\<close> Every \<open>Node\<close> (common/node.cc) is a controller: it reads the topology from
  files, watches some links, and every \<open>POLL_RATE\<close> its timer polls the links that have flows
  and reports what it knows to the hosts that registered. Polls and reports are packets of a
  \<open>PingAgent\<close> (apps/ping.cc), registrations (START and STOP) packets of a \<open>RazaAgent\<close>
  (apps/raza.cc). \<open>TcpAgent\<close> (tcp/tcp.cc) carries the data: at the start of a flow it learns
  the links of its path (from the route lookup, and from the map of pathways that every queue
  records), registers at them, and then sets its window from the smallest share of a link on
  its path, in place of the window of TCP, whose acknowledgements, timers and timeouts go on
  below. Packets cross a node's classifier (classifier/), which may spread them over several
  paths, a drop-tail queue (queue/) and a link (link/); the TCP sink (tcp/tcp-sink.cc) answers
  them. Everything runs on the events of a scheduler (common/scheduler.cc) and on packets of a
  global free list (common/packet.h).

  \<^bold>\<open>The model.\<close> A class is a record, with the source's member names behind a prefix; a method
  is a function from the state, its arguments included, to \<open>'a res\<close> (theory Prelude): \<open>Inr\<close> of
  result and new state, or \<open>Inl\<close> of a fault: a null or dangling pointer, an index out of
  range, a value never written, \<open>abort()\<close> or a failed assertion, a division by zero, a loop
  that does not end. So a theorem that a function gives \<open>Inr\<close> says that the code returns and
  commits no such fault. Pointers are indices into a store (packets, events) or options.
  Numbers of C are \<open>int\<close> where the code cannot overflow them and words or explicit
  conversions (theory CArith) where it can: running numbers of events, \<open>short\<close> deltas of the
  round-trip estimator, hashes, costs and headers of Quick-Start. The scaled estimates of the
  round trip (theory TcpRtt) and one product of the parameters of HighSpeed TCP are \<open>int\<close> too,
  though extreme values overflow them. Times and other \<open>double\<close>
  values are \<open>real\<close>; rounding is not modelled. What lies outside (the script, objects that
  receive packets, other handlers, the contents of files) is an argument of the definitions.

  \<^bold>\<open>Theories.\<close>

  \<^item> Prelude: results, vectors with the C++ behaviour out of range, folds that may fail, lists
    threaded through a store. CArith: \<open>short\<close>, \<open>unsigned\<close> and \<open>fmod\<close> of C.
  \<^item> PacketPool: \<open>Packet\<close> of common/packet.h, its headers, \<open>alloc\<close>, \<open>free\<close>, \<open>copy\<close>,
    \<open>refcopy\<close> over the free list; allocation never hands out a packet in use.
  \<^item> PacketQueue, Pathways: \<open>PacketQueue\<close> of queue/queue.h as a list linked through the
    packets, and the map of pathways that \<open>enque\<close> records; the locale \<open>fifo_queue\<close> gives the
    refinement to a list. DropTail, QueueShrink: \<open>Queue\<close> and \<open>DropTail\<close> of queue/queue.cc
    and queue/drop-tail.cc, with the blocked link; conservation and order of packets over every
    history of a link; what a lowered limit drops.
  \<^item> EndhostWorld, EndhostNode, NodeTopology: \<open>Node\<close> of common/node.h and node.cc: topology,
    statistics, the timer's turn, and the constructor's parser with \<open>getline\<close>, \<open>eof\<close> and
    \<open>atoi\<close> written out (a loop that may not end is a \<open>partial_function\<close>, None if it does not).
  \<^item> PingAgent, RazaAgent, PollProtocol: the agents' \<open>command\<close>, \<open>send_c\<close> and \<open>recv\<close> with every
    branch, the packets they free and use after that; a poll from host to host and back; the
    registration tables as a map that counts flows.
  \<^item> TcpControl, FlowControl, PollVariants: the controller in tcp/tcp.cc: \<open>flow_start\<close>,
    \<open>flow_end\<close>, \<open>install_path\<close>, \<open>init_DHT\<close>, \<open>poll_dht\<close>, \<open>expire\<close>; the rates of all flows over a
    link sum to at most its capacity as long as no flow believes fewer flows there than there
    are, and may exceed it otherwise; after \<open>flow_end\<close> the window stays closed through every
    history of the controller; the ways of polling whose calls are commented out.
  \<^item> HighSpeed: the parameters of HighSpeed TCP in tcp/tcp.cc, against the formulas that the
    comments keep.
  \<^item> EventHeap, Scheduler, CalendarQueue, CalendarOrder, SplayQueue: \<open>Scheduler\<close> of
    common/scheduler.h with the list, the heap (common/heap.h), the calendar, which is the
    default, and the splay tree (common/splay-scheduler.cc). The locale \<open>event_queue\<close> states
    what the dispatch loop needs of a queue (insertion after all events of the same time, the
    first event, cancellation, search by number); all four are instances, so all run every
    program of handlers as the list does, the heap as long as its 32-bit number of insertions
    does not wrap, the calendar when no event is due before time zero.
  \<^item> RealTime: \<open>RealTimeScheduler\<close> of common/scheduler.cc, whose loop follows the clock of the
    machine, as a machine of steps over any queue of the locale \<open>peeking_queue\<close>, which
    extends \<open>event_queue\<close> by \<open>head\<close>; readings of the clock and callbacks of Tcl are arguments.
  \<^item> Timer, LinkDelay: \<open>TimerHandler\<close> (common/timer-handler.cc) and \<open>LinkDelay\<close>
    (link/delay.cc) on any scheduler that keeps the laws of \<open>event_queue\<close>.
  \<^item> RouteLogic, ShortestRoutes, RoutedPaths: \<open>RouteLogic\<close> of routing/route.cc, flat routing:
    the growing matrix of costs implements a map, \<open>compute_routes\<close> is Dijkstra's algorithm
    and finds first hops of least-cost paths, \<open>install_path\<close> of tcp/tcp.cc on its lookups ends.
  \<^item> Classifier, MultiPath: \<open>Classifier\<close> of classifier/classifier.cc, the table that maps a
    packet to the next object, and \<open>MultiPathForwarder\<close> of classifier/classifier-mpath.cc,
    round robin or by a hash of flow and path number.
  \<^item> HashClassifier, Forwarding, PacketPaths: \<open>HashClassifier\<close> of classifier/classifier-hash.cc,
    the routing table of a node, refines a map from destinations to objects; \<open>Simulator\<close>
    (common/simulator.cc) fills it through \<open>Node\<close> and the chain of \<open>RoutingModule\<close>
    (routing/rtmodule.cc) from the computed routes; the composition with \<open>TTLChecker\<close>
    (common/ttl.cc) and \<open>PortClassifier\<close> takes packets along least-cost paths to the agent,
    and the TTL ends every way, whatever the tables say and the callback for a missing slot
    puts into them.
  \<^item> TcpRtt, TcpSender, TcpAcks, SenderWindow, SenderTimeout: \<open>TcpAgent\<close> as a sender: the
    estimate of the round trip in its shifts and shorts, the windows, \<open>output\<close> and
    \<open>send_much\<close> with Quick-Start and the quiescence option, \<open>recv\<close> with all cases of
    acknowledgements, the three timers, \<open>reset\<close>; over every history the window is the
    controller's, the retransmission timer is pending while data is outstanding, and a timeout
    sends the window again.
  \<^item> Acker, Sacker, TcpSink: the receiver of tcp/tcp-sink.cc: the circular window of what has
    arrived, selective acknowledgements, delayed acknowledgements.
  \<^item> SenderSteps, SenderTotal, TcpTransfer: sender and sink over a network that loses, delays,
    reorders, duplicates and marks packets, with the controller setting the window at will.
    The network is what was sent and acknowledged so far: any packet of the two logs may
    arrive at any time, any number of times. The relation \<open>sends\<close> says what every operation of
    the sender does to the log, the acknowledgement and the timer; each operation returns; and
    the composition keeps an invariant from which reliability, absence of faults and progress
    follow.

  \<^bold>\<open>Loops and fuel.\<close> A loop over a list that is linked through the store has as fuel the number
  of cells of the store, which no list without a cycle exceeds; \<open>cal_scan\<close> has one round of
  the buckets, after which the code itself searches directly; \<open>scan_slots\<close> has one round and
  a turn, after which it is where it was. The walk of a packet through the
  network (\<open>travel\<close>) has its TTL as fuel, and a chain of routing modules their number.
  Running out is the fault \<open>Diverges\<close>, and the theorems
  show that it does not occur, except for the circle of modules that a second registration can
  close. Where the code may loop for ever, the loop is a
  \<open>partial_function\<close> (the parser of the topology, \<open>install_path\<close>, \<open>send_much\<close>, the walk over
  the receive window) and theorems show when it ends, or that it does not.

  \<^bold>\<open>Properties.\<close> A property is a theorem after a text that begins with its number, C1 to C40;
  the theorem with the suffix \<open>_witness\<close> applies it to concrete data. Beside the
  theorems about what the code does right, some show what it does wrong: routes read beyond
  their table after a growth of the matrix, blocks reported after a reset of the sink, a link
  that is overtaken when its delay is cut, a node that never gets routes because the number
  before it is not used, the echo of a ping that is freed in flight, a flow
  that stays closed after its first end.

  \<^bold>\<open>Not modelled.\<close> Printing, tracing and the binding of variables to the script; hierarchical
  routing; the queue disciplines, transports, wireless, satellite and ad hoc models of ns-2
  that CCLB does not use; code generated from the Tcl library; the scripts that generate
  topologies. Rounding of floating point numbers and
  exhaustion of memory are not modelled anywhere.
\<close>

end
